(* ===== verification/Sgl_Prelude.thy ===== *)
theory Sgl_Prelude
  imports Main "HOL-Library.AList" "HOL-Library.Multiset" "HOL-Library.Monad_Syntax"
begin

text \<open>
  Shared vocabulary of the development: Python slices and slice assignment on lists, Python
  dictionaries as association lists that keep the insertion order, sums over lists, and the
  option monad in which \<^const>\<open>None\<close> stands for a raised exception or a loop that does not
  return.  The collection \<open>slice_simps\<close> evaluates slices, \<open>dict_simps\<close> reads a dictionary after
  an update.
\<close>

named_theorems slice_simps \<open>evaluation of Python slices\<close>
named_theorems dict_simps \<open>reading a dictionary after an update\<close>

section \<open>Python slices\<close>

text \<open>A slice bound: a negative bound counts from the end; both ends are clipped to the list.\<close>

definition py_bound :: "int \<Rightarrow> 'a list \<Rightarrow> nat" where
  "py_bound i xs = (if i < 0 then nat (int (length xs) + i) else nat i)"

definition slice_to :: "'a list \<Rightarrow> int \<Rightarrow> 'a list" where
  "slice_to xs j = take (py_bound j xs) xs"

definition slice_from :: "'a list \<Rightarrow> int \<Rightarrow> 'a list" where
  "slice_from xs i = drop (py_bound i xs) xs"

definition slice :: "'a list \<Rightarrow> int \<Rightarrow> int \<Rightarrow> 'a list" where
  "slice xs i j = drop (py_bound i xs) (take (py_bound j xs) xs)"

lemma py_bound_nonneg [slice_simps]: "0 \<le> i \<Longrightarrow> py_bound i xs = nat i"
  by (simp add: py_bound_def)

lemma slice_to_nonneg [slice_simps]: "0 \<le> j \<Longrightarrow> slice_to xs j = take (nat j) xs"
  by (simp add: slice_to_def py_bound_def)

lemma slice_from_nonneg [slice_simps]: "0 \<le> i \<Longrightarrow> slice_from xs i = drop (nat i) xs"
  by (simp add: slice_from_def py_bound_def)

lemma slice_nonneg [slice_simps]:
  "0 \<le> i \<Longrightarrow> 0 \<le> j \<Longrightarrow> slice xs i j = drop (nat i) (take (nat j) xs)"
  by (simp add: slice_def py_bound_def)

lemma slice_to_append_from: "slice_to xs i @ slice_from xs i = xs"
  by (simp add: slice_to_def slice_from_def)

lemma slice_to_len [simp]: "slice_to xs (int (length xs)) = xs"
  by (simp add: slice_to_nonneg)

lemma slice_from_len [simp]: "slice_from xs (int (length xs)) = []"
  by (simp add: slice_from_nonneg)

lemma slice_from_zero [simp]: "slice_from xs 0 = xs"
  by (simp add: slice_from_nonneg)

lemma slice_to_zero [simp]: "slice_to xs 0 = []"
  by (simp add: slice_to_nonneg)

lemma set_slice_to: "set (slice_to xs j) \<subseteq> set xs"
  by (simp add: slice_to_def set_take_subset)

lemma set_slice_from: "set (slice_from xs j) \<subseteq> set xs"
  by (simp add: slice_from_def set_drop_subset)

lemma distinct_slice_to: "distinct xs \<Longrightarrow> distinct (slice_to xs j)"
  by (simp add: slice_to_def)

lemma distinct_slice_from: "distinct xs \<Longrightarrow> distinct (slice_from xs j)"
  by (simp add: slice_from_def)

lemma set_slice_split: "set (slice_to xs j) \<union> set (slice_from xs j) = set xs"
  by (metis set_append slice_to_append_from)

lemma slice_split_disjoint: "distinct xs \<Longrightarrow> set (slice_to xs j) \<inter> set (slice_from xs j) = {}"
  by (metis distinct_append slice_to_append_from)

section \<open>Writing a block into a list\<close>

text \<open>\<open>xs[p : p + len(vs)] = vs\<close> for a block that lies inside the list.\<close>

definition write_at :: "'a list \<Rightarrow> nat \<Rightarrow> 'a list \<Rightarrow> 'a list" where
  "write_at xs p vs = take p xs @ vs @ drop (p + length vs) xs"

lemma write_at_Nil [simp]: "write_at xs p [] = xs"
  by (simp add: write_at_def)

lemma length_write_at [simp]: "p + length vs \<le> length xs \<Longrightarrow> length (write_at xs p vs) = length xs"
  by (simp add: write_at_def)

lemma write_at_snoc:
  assumes "p + length vs < length xs"
  shows "(write_at xs p vs)[p + length vs := v] = write_at xs p (vs @ [v])"
proof -
  have "drop (p + length vs) xs = xs ! (p + length vs) # drop (Suc (p + length vs)) xs"
    using assms by (simp add: Cons_nth_drop_Suc)
  then show ?thesis
    using assms by (simp add: write_at_def list_update_append)
qed

lemma write_at_block:
  assumes "length done = p" and "length vs \<le> length rest"
  shows "write_at (done @ rest) p vs = done @ vs @ drop (length vs) rest"
  using assms by (simp add: write_at_def)

section \<open>Dictionaries that keep the insertion order\<close>

text \<open>
  \<open>d[k] = v\<close> keeps the position of an existing key and appends a new one, which is what
  \<^const>\<open>AList.update\<close> does; \<open>d.pop(k, None)\<close> is \<^const>\<open>AList.delete\<close>.
\<close>

type_synonym ('k, 'v) dict = "('k \<times> 'v) list"

abbreviation dict_get :: "('k, 'v) dict \<Rightarrow> 'k \<Rightarrow> 'v option" where
  "dict_get \<equiv> map_of"

abbreviation dict_set :: "'k \<Rightarrow> 'v \<Rightarrow> ('k, 'v) dict \<Rightarrow> ('k, 'v) dict" where
  "dict_set \<equiv> AList.update"

abbreviation dict_pop :: "'k \<Rightarrow> ('k, 'v) dict \<Rightarrow> ('k, 'v) dict" where
  "dict_pop \<equiv> AList.delete"

abbreviation dict_keys :: "('k, 'v) dict \<Rightarrow> 'k list" where
  "dict_keys d \<equiv> map fst d"

abbreviation dict_values :: "('k, 'v) dict \<Rightarrow> 'v list" where
  "dict_values d \<equiv> map snd d"

abbreviation dict_wf :: "('k, 'v) dict \<Rightarrow> bool" where
  "dict_wf d \<equiv> distinct (map fst d)"

lemma dict_get_set [dict_simps]:
  "dict_get (dict_set k v d) k' = (if k = k' then Some v else dict_get d k')"
  by (simp add: update_conv')

lemma dict_get_pop [dict_simps]:
  "dict_get (dict_pop k d) k' = (if k = k' then None else dict_get d k')"
  by (simp add: delete_conv')

lemma dict_wf_set [simp]: "dict_wf d \<Longrightarrow> dict_wf (dict_set k v d)"
  by (rule distinct_update)

lemma dict_wf_pop [simp]: "dict_wf d \<Longrightarrow> dict_wf (dict_pop k d)"
  by (rule distinct_delete)

lemma dict_values_get: "dict_wf d \<Longrightarrow> v \<in> set (dict_values d) \<longleftrightarrow> (\<exists>k. dict_get d k = Some v)"
  by (force simp: map_of_eq_Some_iff)

section \<open>Asserting in the option monad\<close>

definition assert_that :: "bool \<Rightarrow> unit option" where
  "assert_that b = (if b then Some () else None)"

lemma assert_that_simps [simp]: "assert_that True = Some ()" "assert_that False = None"
  by (simp_all add: assert_that_def)

lemma assert_that_Some [simp]: "assert_that b = Some u \<longleftrightarrow> b"
  by (simp add: assert_that_def)

section \<open>Loops\<close>

text \<open>
  A \<open>while\<close> loop as the iteration of its body: the body ends the loop with a result (\<open>Inl\<close>), goes
  on with a new state (\<open>Inr\<close>), or raises (\<open>None\<close>).  A loop that does not end is \<open>None\<close> too, so a
  theorem that an operation is \<open>Some\<close> result says that it returns.
\<close>

partial_function (option) iterate :: "('s \<Rightarrow> ('r + 's) option) \<Rightarrow> 's \<Rightarrow> 'r option" where
  [code]: "iterate step s =
     (case step s of None \<Rightarrow> None
      | Some rs \<Rightarrow> (case rs of Inl r \<Rightarrow> Some r | Inr s' \<Rightarrow> iterate step s'))"

lemma iterate_total:
  fixes m :: "'s \<Rightarrow> nat"
  assumes "I s"
    and step: "\<And>s. I s \<Longrightarrow> (\<exists>r. step s = Some (Inl r) \<and> post r) \<or>
                 (\<exists>s'. step s = Some (Inr s') \<and> I s' \<and> m s' < m s)"
  shows "\<exists>r. iterate step s = Some r \<and> post r"
  using assms(1)
proof (induction "m s" arbitrary: s rule: less_induct)
  case less
  from step[OF less.prems] show ?case
  proof (elim disjE exE conjE)
    fix r assume "step s = Some (Inl r)" "post r"
    then show ?thesis by (subst iterate.simps) simp
  next
    fix s' assume s': "step s = Some (Inr s')" "I s'" "m s' < m s"
    from less.hyps[OF s'(3,2)] s'(1) show ?thesis by (subst iterate.simps) simp
  qed
qed

section \<open>Sums over lists\<close>

lemma sum_list_map_mono:
  fixes f g :: "'a \<Rightarrow> int"
  shows "(\<And>x. x \<in> set xs \<Longrightarrow> f x \<le> g x) \<Longrightarrow> sum_list (map f xs) \<le> sum_list (map g xs)"
  by (induction xs) (auto intro: add_mono)

lemma int_ceil_div:
  fixes a b :: int
  assumes "0 < b"
  shows "(a + b - 1) div b * b - a < b" and "a \<le> (a + b - 1) div b * b"
proof -
  have "(a + b - 1) div b * b = (a + b - 1) - (a + b - 1) mod b"
    by (simp add: minus_mod_eq_div_mult)
  then show "(a + b - 1) div b * b - a < b" and "a \<le> (a + b - 1) div b * b"
    using pos_mod_sign[OF assms, of "a + b - 1"] pos_mod_bound[OF assms, of "a + b - 1"]
    by linarith+
qed

end
