(* ===== verification/KvAllocator.thy ===== *)
theory KvAllocator
  imports Sgl_Prelude
begin

text \<open>
  The allocators of KV-cache slots (\<open>srt/mem_cache/allocator\<close>): the token allocator (page size 1),
  the paged allocator, and the two Triton kernels and the tensor routine that compute the slots of
  an extended batch.  A slot is the index of one token's KV entry; page \<open>p\<close> holds the slots
  \<open>p * page_size, \<dots>, p * page_size + page_size - 1\<close>; page 0 is the padding page and is never handed
  out.  Tensors of indices are lists of integers.
\<close>

section \<open>State\<close>

datatype py_error = AssertionError | ValueError | IndexError | KeyError | RuntimeError
  | NotImplementedError | ZeroDivisionError

text \<open>
  One record for both classes: \<open>al_paged\<close> says which of the two classes the object is, so that a
  call \<open>allocator.free(\<dots>)\<close> of a client dispatches on it.
\<close>

record allocator =
  al_paged :: bool
  al_size :: int
  al_page_size :: int
  al_need_sort :: bool
  al_debug_mode :: bool
  free_pages :: "int list"
  release_pages :: "int list"
  is_not_in_free_group :: bool
  free_group :: "int list list"

section \<open>Operations shared by both allocators\<close>

definition base_available_size :: "allocator \<Rightarrow> int" where
  "base_available_size a =
     (int (length (free_pages a)) + int (length (release_pages a))) * al_page_size a"

definition backup_state :: "allocator \<Rightarrow> int list \<times> int list" where
  "backup_state a = (free_pages a, release_pages a)"

definition restore_state :: "allocator \<Rightarrow> int list \<times> int list \<Rightarrow> allocator" where
  "restore_state a st = a\<lparr>free_pages := fst st, release_pages := snd st\<rparr>"

definition free_group_begin :: "allocator \<Rightarrow> allocator" where
  "free_group_begin a = a\<lparr>is_not_in_free_group := False, free_group := []\<rparr>"

definition merge_and_sort_free :: "allocator \<Rightarrow> allocator" where
  "merge_and_sort_free a =
     (if 0 < length (release_pages a)
      then a\<lparr>free_pages := sort (free_pages a @ release_pages a), release_pages := []\<rparr>
      else a)"

section \<open>The token allocator\<close>

definition token_clear :: "allocator \<Rightarrow> allocator" where
  "token_clear a = a\<lparr>free_pages := [1..al_size a], is_not_in_free_group := True,
     free_group := [], release_pages := []\<rparr>"

definition token_init :: "int \<Rightarrow> bool \<Rightarrow> allocator" where
  "token_init sz need_sort = token_clear
     \<lparr>al_paged = False, al_size = sz, al_page_size = 1, al_need_sort = need_sort,
      al_debug_mode = False, free_pages = [], release_pages = [],
      is_not_in_free_group = True, free_group = []\<rparr>"

definition token_available_size :: "allocator \<Rightarrow> int" where
  "token_available_size a = int (length (free_pages a)) + int (length (release_pages a))"

definition token_alloc :: "allocator \<Rightarrow> int \<Rightarrow> int list option \<times> allocator" where
  "token_alloc a need_size =
     (let a = (if al_need_sort a \<and> need_size > int (length (free_pages a))
               then merge_and_sort_free a else a)
      in if need_size > int (length (free_pages a)) then (None, a)
         else (Some (slice_to (free_pages a) need_size),
               a\<lparr>free_pages := slice_from (free_pages a) need_size\<rparr>))"

definition token_free :: "allocator \<Rightarrow> int list \<Rightarrow> allocator" where
  "token_free a free_index =
     (if free_index = [] then a
      else if is_not_in_free_group a then
        (if al_need_sort a then a\<lparr>release_pages := release_pages a @ free_index\<rparr>
         else a\<lparr>free_pages := free_pages a @ free_index\<rparr>)
      else a\<lparr>free_group := free_group a @ [free_index]\<rparr>)"

section \<open>The paged allocator\<close>

definition al_num_pages :: "allocator \<Rightarrow> int" where
  "al_num_pages a = al_size a div al_page_size a"

definition paged_clear :: "allocator \<Rightarrow> allocator" where
  "paged_clear a = a\<lparr>free_pages := [1..al_num_pages a], is_not_in_free_group := True,
     free_group := [], release_pages := []\<rparr>"

definition paged_init :: "int \<Rightarrow> int \<Rightarrow> bool \<Rightarrow> bool \<Rightarrow> allocator" where
  "paged_init sz page_size need_sort debug_mode = paged_clear
     \<lparr>al_paged = True, al_size = sz, al_page_size = page_size, al_need_sort = need_sort,
      al_debug_mode = debug_mode, free_pages = [], release_pages = [],
      is_not_in_free_group = True, free_group = []\<rparr>"

text \<open>The slots of one page: \<open>page * page_size + arange(page_size)\<close>.\<close>

definition page_slots :: "int \<Rightarrow> int \<Rightarrow> int list" where
  "page_slots ps page = map (\<lambda>off. page * ps + off) [0..ps - 1]"

definition paged_alloc :: "allocator \<Rightarrow> int \<Rightarrow> py_error + (int list option \<times> allocator)" where
  "paged_alloc a need_size =
     (if al_debug_mode a \<and> need_size mod al_page_size a \<noteq> 0 then Inl AssertionError
      else
        let num_pages = need_size div al_page_size a;
            a = (if al_need_sort a \<and> num_pages > int (length (free_pages a))
                 then merge_and_sort_free a else a)
        in if num_pages > int (length (free_pages a)) then Inr (None, a)
           else
             let out_pages = slice_to (free_pages a) num_pages;
                 a = a\<lparr>free_pages := slice_from (free_pages a) num_pages\<rparr>
             in Inr (Some (concat (map (page_slots (al_page_size a)) out_pages)), a))"

text \<open>\<open>torch.unique\<close>: the distinct elements in increasing order.\<close>

definition torch_unique :: "int list \<Rightarrow> int list" where
  "torch_unique xs = sort (remdups xs)"

definition paged_free :: "allocator \<Rightarrow> int list \<Rightarrow> py_error + allocator" where
  "paged_free a free_index =
     (if free_index = [] then Inr a
      else
        let a = (if is_not_in_free_group a then
                   (let free_page_indices = torch_unique (map (\<lambda>i. i div al_page_size a) free_index)
                    in if al_need_sort a
                       then a\<lparr>release_pages := free_page_indices @ release_pages a\<rparr>
                       else a\<lparr>free_pages := free_page_indices @ free_pages a\<rparr>)
                 else a\<lparr>free_group := free_group a @ [free_index]\<rparr>)
        in if al_debug_mode a \<and> length (torch_unique (free_pages a)) \<noteq> length (free_pages a)
           then Inl AssertionError else Inr a)"

section \<open>Dispatch on the class\<close>

definition allocator_available_size :: "allocator \<Rightarrow> int" where
  "allocator_available_size a =
     (if al_paged a then base_available_size a else token_available_size a)"

definition allocator_free :: "allocator \<Rightarrow> int list \<Rightarrow> py_error + allocator" where
  "allocator_free a free_index =
     (if al_paged a then paged_free a free_index else Inr (token_free a free_index))"

definition free_group_end :: "allocator \<Rightarrow> py_error + allocator" where
  "free_group_end a =
     (let a = a\<lparr>is_not_in_free_group := True\<rparr>
      in if free_group a \<noteq> [] then allocator_free a (concat (free_group a)) else Inr a)"


section \<open>The interface a client of an allocator relies on\<close>

text \<open>
  A client only allocates and frees.  The contract of an allocator over the slots \<open>universe\<close>: a
  successful allocation returns as many different slots as requested, all of them free before and
  none free after; it fails only when too few slots are free; freeing blocks that were handed out
  makes exactly their slots free again.  Requests are multiples of \<open>granule\<close>, and \<open>whole\<close> says
  which lists may be freed (for the paged allocator, unions of pages).
\<close>

locale slot_allocator =
  fixes alloc :: "'s \<Rightarrow> int \<Rightarrow> py_error + (int list option \<times> 's)"
    and free :: "'s \<Rightarrow> int list \<Rightarrow> py_error + 's"
    and inv :: "'s \<Rightarrow> bool"
    and free_slots :: "'s \<Rightarrow> int set"
    and universe :: "int set"
    and granule :: int
    and whole :: "int list \<Rightarrow> bool"
  assumes granule_pos: "inv s \<Longrightarrow> 0 < granule"
    and slots_universe: "inv s \<Longrightarrow> free_slots s \<subseteq> universe"
    and alloc_total: "inv s \<Longrightarrow> 0 \<le> n \<Longrightarrow> \<exists>r s'. alloc s (n * granule) = Inr (r, s') \<and> inv s'"
    and alloc_None: "inv s \<Longrightarrow> 0 \<le> n \<Longrightarrow> alloc s (n * granule) = Inr (None, s') \<Longrightarrow>
           free_slots s' = free_slots s \<and> int (card (free_slots s)) < n * granule"
    and alloc_Some: "inv s \<Longrightarrow> 0 \<le> n \<Longrightarrow> alloc s (n * granule) = Inr (Some xs, s') \<Longrightarrow>
           distinct xs \<and> int (length xs) = n * granule \<and> set xs \<subseteq> free_slots s \<and>
           free_slots s' = free_slots s - set xs \<and> whole xs"
    and free_ok: "inv s \<Longrightarrow> whole xs \<Longrightarrow> distinct xs \<Longrightarrow> set xs \<subseteq> universe - free_slots s \<Longrightarrow>
           \<exists>s'. free s xs = Inr s' \<and> inv s' \<and> free_slots s' = free_slots s \<union> set xs"

text \<open>A client: a sequence of requests and releases of blocks it holds.\<close>

datatype kv_op = OpAlloc nat | OpFree nat

fun kv_run :: "('s \<Rightarrow> int \<Rightarrow> py_error + (int list option \<times> 's)) \<Rightarrow> ('s \<Rightarrow> int list \<Rightarrow> py_error + 's) \<Rightarrow>
    int \<Rightarrow> kv_op list \<Rightarrow> 's \<times> int list list \<Rightarrow> py_error + ('s \<times> int list list)" where
  "kv_run al fr g [] sh = Inr sh"
| "kv_run al fr g (OpAlloc n # ops) (s, held) =
     (case al s (int n * g) of Inl e \<Rightarrow> Inl e
      | Inr (None, s') \<Rightarrow> kv_run al fr g ops (s', held)
      | Inr (Some xs, s') \<Rightarrow> kv_run al fr g ops (s', xs # held))"
| "kv_run al fr g (OpFree i # ops) (s, held) =
     (if i < length held then
        (case fr s (held ! i) of Inl e \<Rightarrow> Inl e
         | Inr s' \<Rightarrow> kv_run al fr g ops (s', take i held @ drop (Suc i) held))
      else kv_run al fr g ops (s, held))"

context slot_allocator begin

definition owns :: "'s \<times> int list list \<Rightarrow> bool" where
  "owns sh \<longleftrightarrow> inv (fst sh) \<and> distinct (concat (snd sh)) \<and> (\<forall>b \<in> set (snd sh). whole b) \<and>
     set (concat (snd sh)) \<inter> free_slots (fst sh) = {} \<and>
     set (concat (snd sh)) \<union> free_slots (fst sh) = universe"

lemma owns_alloc:
  assumes o: "owns (s, held)" and a: "alloc s (int n * granule) = Inr (Some xs, s')"
  shows "owns (s', xs # held)"
proof -
  have i: "inv s" using o by (simp add: owns_def)
  have "inv s'" using alloc_total[OF i, of "int n"] a by auto
  with alloc_Some[OF i _ a] o show ?thesis by (auto simp: owns_def)
qed

lemma owns_alloc_None:
  assumes o: "owns (s, held)" and a: "alloc s (int n * granule) = Inr (None, s')"
  shows "owns (s', held)"
proof -
  have i: "inv s" using o by (simp add: owns_def)
  have "inv s'" using alloc_total[OF i, of "int n"] a by auto
  with alloc_None[OF i _ a] o show ?thesis by (simp add: owns_def)
qed

lemma owns_free:
  assumes o: "owns (s, held)" and n: "i < length held"
  shows "\<exists>s'. free s (held ! i) = Inr s' \<and> owns (s', take i held @ drop (Suc i) held)"
proof -
  define b rest where "b = held ! i" and "rest = take i held @ drop (Suc i) held"
  have h: "held = take i held @ b # drop (Suc i) held"
    using n by (simp add: b_def id_take_nth_drop)
  then have sc: "set (concat held) = set b \<union> set (concat rest)"
    by (metis (no_types, lifting) Un_left_commute concat.simps(2) concat_append rest_def set_append)
  have d: "distinct (concat (take i held @ b # drop (Suc i) held))"
    using o h by (simp add: owns_def)
  then have dr: "distinct b" "distinct (concat rest)" "set b \<inter> set (concat rest) = {}"
    by (auto simp: rest_def)
  have i: "inv s" and w: "whole b" and u: "set b \<subseteq> universe - free_slots s"
    using o sc n by (auto simp: owns_def b_def)
  from free_ok[OF i w dr(1) u] obtain s' where
    s': "free s b = Inr s'" "inv s'" "free_slots s' = free_slots s \<union> set b" by blast
  have "\<forall>x \<in> set rest. whole x"
    using o by (auto simp: owns_def rest_def dest: in_set_takeD in_set_dropD)
  then have "owns (s', rest)"
    using o s' dr sc by (auto simp: owns_def)
  with s' show ?thesis by (auto simp: b_def rest_def)
qed

lemma run_owns: "owns sh \<Longrightarrow> \<exists>sh'. kv_run alloc free granule ops sh = Inr sh' \<and> owns sh'"
proof (induction ops arbitrary: sh)
  case Nil
  then show ?case by simp
next
  case (Cons op ops)
  obtain s held where sh: "sh = (s, held)" by (cases sh)
  show ?case
  proof (cases op)
    case (OpAlloc n)
    from Cons.prems sh have "inv s" by (simp add: owns_def)
    then obtain r s' where a: "alloc s (int n * granule) = Inr (r, s')"
      using alloc_total[of s "int n"] by auto
    show ?thesis
      using a owns_alloc owns_alloc_None Cons.prems Cons.IH sh OpAlloc by (cases r) auto
  next
    case (OpFree i)
    then show ?thesis
      using owns_free[of s held i] Cons.prems Cons.IH sh by (cases "i < length held") auto
  qed
qed

text \<open>What a client can rely on: blocks it holds never overlap, and no slot is lost.\<close>

lemma run_partition:
  assumes "inv s" and "free_slots s = universe"
    and "kv_run alloc free granule ops (s, []) = r"
  shows "\<exists>s' held. r = Inr (s', held) \<and> distinct (concat held) \<and>
    set (concat held) \<inter> free_slots s' = {} \<and> set (concat held) \<union> free_slots s' = universe"
proof -
  have "owns (s, [])" using assms by (simp add: owns_def)
  then show ?thesis using run_owns[of "(s, [])" ops] assms(3) by (auto simp: owns_def)
qed

end

section \<open>The token allocator meets the contract\<close>

definition token_inv :: "int \<Rightarrow> allocator \<Rightarrow> bool" where
  "token_inv sz a \<longleftrightarrow> \<not> al_paged a \<and> al_page_size a = 1 \<and> al_size a = sz \<and>
     is_not_in_free_group a \<and> (\<not> al_need_sort a \<longrightarrow> release_pages a = []) \<and>
     distinct (free_pages a @ release_pages a) \<and> set (free_pages a @ release_pages a) \<subseteq> {1..sz}"

definition token_free_slots :: "allocator \<Rightarrow> int set" where
  "token_free_slots a = set (free_pages a) \<union> set (release_pages a)"

lemma token_inv_init: "token_inv sz (token_init sz ns)"
  by (simp add: token_inv_def token_init_def token_clear_def)

lemma token_free_slots_init: "token_free_slots (token_init sz ns) = {1..sz}"
  by (simp add: token_free_slots_def token_init_def token_clear_def)

lemma take_split_facts:
  assumes d: "distinct (F @ R)" and u: "set (F @ R) \<subseteq> U"
  shows "distinct (take k F)" and "distinct (drop k F @ R)" and "set (drop k F @ R) \<subseteq> U"
    and "set (take k F) \<subseteq> set F" and "set (drop k F) \<union> set R = (set F \<union> set R) - set (take k F)"
proof -
  define T D where TD: "T = take k F" "D = drop k F"
  have F: "T @ D = F" by (simp add: TD)
  have d': "distinct (T @ D @ R)" and u': "set (T @ D @ R) \<subseteq> U" and s: "set F = set T \<union> set D"
    using d u by (simp_all add: F[symmetric])
  show "distinct (take k F)" "distinct (drop k F @ R)" "set (drop k F @ R) \<subseteq> U"
    "set (take k F) \<subseteq> set F" "set (drop k F) \<union> set R = (set F \<union> set R) - set (take k F)"
    using d' u' s unfolding TD[symmetric] by auto
qed

lemma merge_facts:
  "set (free_pages (merge_and_sort_free a)) \<union> set (release_pages (merge_and_sort_free a)) =
     set (free_pages a) \<union> set (release_pages a)"
  "distinct (free_pages a @ release_pages a) \<Longrightarrow>
     distinct (free_pages (merge_and_sort_free a) @ release_pages (merge_and_sort_free a))"
  "release_pages (merge_and_sort_free a) = []"
  by (auto simp: merge_and_sort_free_def)

lemma merge_frame [simp]:
  "al_paged (merge_and_sort_free a) = al_paged a" "al_size (merge_and_sort_free a) = al_size a"
  "al_page_size (merge_and_sort_free a) = al_page_size a"
  "al_need_sort (merge_and_sort_free a) = al_need_sort a"
  "al_debug_mode (merge_and_sort_free a) = al_debug_mode a"
  "is_not_in_free_group (merge_and_sort_free a) = is_not_in_free_group a"
  by (simp_all add: merge_and_sort_free_def)

definition maybe_merge :: "allocator \<Rightarrow> int \<Rightarrow> allocator" where
  "maybe_merge a n = (if al_need_sort a \<and> n > int (length (free_pages a))
     then merge_and_sort_free a else a)"

lemma token_inv_merge: "token_inv sz a \<Longrightarrow> token_inv sz (maybe_merge a n)"
  using merge_facts[of a] by (auto simp: token_inv_def maybe_merge_def)

lemma free_slots_merge: "token_free_slots (maybe_merge a n) = token_free_slots a"
  using merge_facts(1)[of a] by (simp add: token_free_slots_def maybe_merge_def)

lemma token_card_merge:
  assumes "token_inv sz a" and "n > int (length (free_pages (maybe_merge a n)))"
  shows "int (card (token_free_slots a)) < n"
proof -
  let ?a = "maybe_merge a n"
  have "release_pages ?a = []"
    using assms merge_facts(3)[of a] by (auto simp: maybe_merge_def token_inv_def)
  then have "card (token_free_slots ?a) \<le> length (free_pages ?a)"
    by (simp add: token_free_slots_def card_length)
  then show ?thesis using assms(2) by (simp add: free_slots_merge)
qed

lemma token_alloc_merge:
  "token_alloc a n = (let a = maybe_merge a n in
     if n > int (length (free_pages a)) then (None, a)
     else (Some (slice_to (free_pages a) n), a\<lparr>free_pages := slice_from (free_pages a) n\<rparr>))"
  by (simp add: token_alloc_def maybe_merge_def)

lemma token_alloc_None:
  assumes "token_inv sz a" and "token_alloc a n = (None, a')"
  shows "token_inv sz a' \<and> token_free_slots a' = token_free_slots a \<and>
         int (card (token_free_slots a)) < n"
  using assms token_inv_merge[OF assms(1), of n] token_card_merge[OF assms(1), of n]
  by (auto simp: token_alloc_merge Let_def free_slots_merge split: if_splits)

lemma token_alloc_Some:
  assumes i: "token_inv sz a" and n: "0 \<le> n" and a: "token_alloc a n = (Some xs, a')"
  shows "token_inv sz a' \<and> distinct xs \<and> int (length xs) = n \<and> set xs \<subseteq> token_free_slots a \<and>
         token_free_slots a' = token_free_slots a - set xs"
proof -
  define b where "b = maybe_merge a n"
  have b: "token_inv sz b" "token_free_slots b = token_free_slots a"
    using i by (simp_all add: b_def token_inv_merge free_slots_merge)
  have xs: "n \<le> int (length (free_pages b))" "xs = take (nat n) (free_pages b)"
    "a' = b\<lparr>free_pages := drop (nat n) (free_pages b)\<rparr>"
    using a n by (auto simp: token_alloc_merge Let_def b_def[symmetric] slice_simps split: if_splits)
  show ?thesis
    using take_split_facts[of "free_pages b" "release_pages b" "{1..sz}" "nat n"] b xs n
    by (auto simp: token_inv_def token_free_slots_def)
qed

lemma token_free_ok:
  assumes "token_inv sz a" and "distinct xs" and "set xs \<subseteq> {1..sz} - token_free_slots a"
  shows "token_inv sz (token_free a xs) \<and>
         token_free_slots (token_free a xs) = token_free_slots a \<union> set xs"
  using assms by (cases "al_need_sort a") (auto simp: token_inv_def token_free_def token_free_slots_def)

interpretation token: slot_allocator "\<lambda>a n. Inr (token_alloc a n)" "\<lambda>a xs. Inr (token_free a xs)"
  "token_inv sz" token_free_slots "{1..sz}" 1 "\<lambda>_. True" for sz
proof (unfold_locales, goal_cases)
  case (2 a)
  then show ?case by (auto simp: token_inv_def token_free_slots_def)
next
  case (3 a n)
  obtain r a' where "token_alloc a (n * 1) = (r, a')" by fastforce
  with 3 show ?case
    using token_alloc_None[of sz a n a'] token_alloc_Some[of sz a n _ a'] by (cases r) auto
next
  case (4 a n a')
  then show ?case using token_alloc_None[of sz a n a'] by simp
next
  case (5 a n xs a')
  then show ?case using token_alloc_Some[of sz a n xs a'] by simp
next
  case (6 a xs)
  then show ?case using token_free_ok[of sz a xs] by simp
qed simp

section \<open>The paged allocator meets the contract\<close>

definition slots_of :: "int \<Rightarrow> int set \<Rightarrow> int set" where
  "slots_of ps P = {i. i div ps \<in> P}"

definition whole_pages :: "int \<Rightarrow> int list \<Rightarrow> bool" where
  "whole_pages ps xs \<longleftrightarrow> set xs = slots_of ps ((\<lambda>i. i div ps) ` set xs)"

definition paged_inv :: "int \<Rightarrow> int \<Rightarrow> allocator \<Rightarrow> bool" where
  "paged_inv sz ps a \<longleftrightarrow> al_paged a \<and> al_page_size a = ps \<and> 0 < ps \<and> al_size a = sz \<and>
     is_not_in_free_group a \<and> (\<not> al_need_sort a \<longrightarrow> release_pages a = []) \<and>
     distinct (free_pages a @ release_pages a) \<and>
     set (free_pages a @ release_pages a) \<subseteq> {1..sz div ps}"

definition paged_free_slots :: "int \<Rightarrow> allocator \<Rightarrow> int set" where
  "paged_free_slots ps a = slots_of ps (set (free_pages a) \<union> set (release_pages a))"

lemma set_page_slots: "0 < ps \<Longrightarrow> set (page_slots ps p) = {i. i div ps = p}"
proof (intro set_eqI iffI)
  fix i assume ps: "0 < ps" and "i \<in> set (page_slots ps p)"
  then have "p * ps \<le> i" "i \<le> p * ps + (ps - 1)" by (auto simp: page_slots_def)
  then obtain off where "i = p * ps + off" "0 \<le> off" "off \<le> ps - 1"
    by (metis add_le_cancel_left diff_add_cancel diff_ge_0_iff_ge add.commute)
  then show "i \<in> {i. i div ps = p}" using ps by (simp add: div_pos_pos_trivial)
next
  fix i assume ps: "0 < ps" and "i \<in> {i. i div ps = p}"
  then have "i = p * ps + i mod ps" by auto
  then show "i \<in> set (page_slots ps p)"
    using pos_mod_sign[OF ps, of i] pos_mod_bound[OF ps, of i] by (force simp: page_slots_def)
qed

lemma length_page_slots: "0 < ps \<Longrightarrow> int (length (page_slots ps p)) = ps"
  by (simp add: page_slots_def)

lemma distinct_page_slots: "distinct (page_slots ps p)"
  by (simp add: page_slots_def distinct_map inj_on_def)

lemma set_concat_page_slots:
  "0 < ps \<Longrightarrow> set (concat (map (page_slots ps) pages)) = slots_of ps (set pages)"
  by (auto simp: set_page_slots slots_of_def)

lemma length_concat_page_slots:
  "0 < ps \<Longrightarrow> int (length (concat (map (page_slots ps) pages))) = ps * int (length pages)"
  by (induction pages) (simp_all add: length_page_slots algebra_simps)

lemma distinct_concat_page_slots:
  "0 < ps \<Longrightarrow> distinct pages \<Longrightarrow> distinct (concat (map (page_slots ps) pages))"
proof (induction pages)
  case (Cons p pages)
  then have "{i. i div ps = p} \<inter> slots_of ps (set pages) = {}" by (auto simp: slots_of_def)
  with Cons show ?case
    using set_concat_page_slots[of ps pages] by (simp add: set_page_slots distinct_page_slots)
qed simp

lemma slots_of_Un: "slots_of ps (P \<union> Q) = slots_of ps P \<union> slots_of ps Q"
  by (auto simp: slots_of_def)

lemma slots_of_Diff: "slots_of ps (P - Q) = slots_of ps P - slots_of ps Q"
  by (auto simp: slots_of_def)

lemma slots_of_mono: "0 < ps \<Longrightarrow> slots_of ps P \<subseteq> slots_of ps Q \<longleftrightarrow> P \<subseteq> Q"
proof
  assume ps: "0 < ps" and s: "slots_of ps P \<subseteq> slots_of ps Q"
  show "P \<subseteq> Q"
  proof
    fix p assume "p \<in> P"
    then have "p * ps \<in> slots_of ps P" using ps by (simp add: slots_of_def)
    then have "p * ps \<in> slots_of ps Q" using s by blast
    then show "p \<in> Q" using ps by (simp add: slots_of_def)
  qed
qed (auto simp: slots_of_def)

lemma whole_concat_page_slots: "0 < ps \<Longrightarrow> whole_pages ps (concat (map (page_slots ps) pages))"
proof -
  assume ps: "0 < ps"
  have "(\<lambda>i. i div ps) ` slots_of ps (set pages) = set pages"
  proof (intro equalityI subsetI)
    fix p assume "p \<in> set pages"
    then have "p * ps \<in> slots_of ps (set pages)" using ps by (simp add: slots_of_def)
    then have "p * ps div ps \<in> (\<lambda>i. i div ps) ` slots_of ps (set pages)" by (rule imageI)
    then show "p \<in> (\<lambda>i. i div ps) ` slots_of ps (set pages)" using ps by simp
  qed (auto simp: slots_of_def)
  then show ?thesis
    using set_concat_page_slots[OF ps, of pages] by (simp add: whole_pages_def del: set_concat)
qed

lemma card_slots_of_list:
  assumes "0 < ps" and "distinct pages"
  shows "int (card (slots_of ps (set pages))) = ps * int (length pages)"
proof -
  have "card (slots_of ps (set pages)) = length (concat (map (page_slots ps) pages))"
    using set_concat_page_slots[OF assms(1), of pages] distinct_concat_page_slots[OF assms]
      distinct_card by metis
  then show ?thesis using length_concat_page_slots[OF assms(1), of pages] by simp
qed

lemma paged_inv_init: "0 < ps \<Longrightarrow> paged_inv sz ps (paged_init sz ps ns dbg)"
  by (simp add: paged_inv_def paged_init_def paged_clear_def al_num_pages_def)

lemma paged_free_slots_init: "paged_free_slots ps (paged_init sz ps ns dbg) = slots_of ps {1..sz div ps}"
  by (simp add: paged_free_slots_def paged_init_def paged_clear_def al_num_pages_def)

lemma paged_inv_merge: "paged_inv sz ps a \<Longrightarrow> paged_inv sz ps (maybe_merge a n)"
  using merge_facts[of a] by (auto simp: paged_inv_def maybe_merge_def)

lemma paged_slots_merge: "paged_free_slots ps (maybe_merge a n) = paged_free_slots ps a"
  using merge_facts(1)[of a] by (simp add: paged_free_slots_def maybe_merge_def)

lemma paged_alloc_merge:
  assumes "paged_inv sz ps a"
  shows "paged_alloc a (n * ps) = (let a = maybe_merge a n in
     if n > int (length (free_pages a)) then Inr (None, a)
     else Inr (Some (concat (map (page_slots ps) (slice_to (free_pages a) n))),
               a\<lparr>free_pages := slice_from (free_pages a) n\<rparr>))"
  using assms by (auto simp: paged_alloc_def maybe_merge_def paged_inv_def Let_def)

lemma paged_alloc_total:
  assumes "paged_inv sz ps a"
  shows "\<exists>r a'. paged_alloc a (n * ps) = Inr (r, a')"
  unfolding paged_alloc_merge[OF assms] Let_def by (rule if_split[THEN iffD2]) blast

lemma paged_alloc_None:
  assumes i: "paged_inv sz ps a" and a: "paged_alloc a (n * ps) = Inr (None, a')"
  shows "paged_inv sz ps a' \<and> paged_free_slots ps a' = paged_free_slots ps a \<and>
         int (card (paged_free_slots ps a)) < n * ps"
proof -
  define b where "b = maybe_merge a n"
  have b: "paged_inv sz ps b" "paged_free_slots ps b = paged_free_slots ps a"
    using i by (simp_all add: b_def paged_inv_merge paged_slots_merge)
  have n: "a' = b" "n > int (length (free_pages b))"
    using a by (auto simp: paged_alloc_merge[OF i] Let_def b_def[symmetric] split: if_splits)
  have r: "release_pages b = []"
    using i n merge_facts(3)[of a] by (auto simp: b_def maybe_merge_def paged_inv_def)
  have ps: "0 < ps" and d: "distinct (free_pages b)" using b(1) by (auto simp: paged_inv_def)
  have "int (card (paged_free_slots ps b)) = ps * int (length (free_pages b))"
    using card_slots_of_list[OF ps d] by (simp add: paged_free_slots_def r)
  also have "\<dots> < ps * n" using n ps by simp
  finally show ?thesis using n b by (simp add: mult.commute)
qed

lemma paged_alloc_Some:
  assumes i: "paged_inv sz ps a" and n0: "0 \<le> n" and a: "paged_alloc a (n * ps) = Inr (Some xs, a')"
  shows "paged_inv sz ps a' \<and> distinct xs \<and> int (length xs) = n * ps \<and>
         set xs \<subseteq> paged_free_slots ps a \<and>
         paged_free_slots ps a' = paged_free_slots ps a - set xs \<and> whole_pages ps xs"
proof -
  define b where "b = maybe_merge a n"
  have b: "paged_inv sz ps b" "paged_free_slots ps b = paged_free_slots ps a"
    using i by (simp_all add: b_def paged_inv_merge paged_slots_merge)
  define P where "P = take (nat n) (free_pages b)"
  have n: "n \<le> int (length (free_pages b))" "xs = concat (map (page_slots ps) P)"
    "a' = b\<lparr>free_pages := drop (nat n) (free_pages b)\<rparr>"
    using a n0 by (auto simp: paged_alloc_merge[OF i] Let_def b_def[symmetric] P_def slice_simps
        split: if_splits)
  have ps: "0 < ps" using i by (simp add: paged_inv_def)
  note f = take_split_facts[of "free_pages b" "release_pages b" "{1..sz div ps}" "nat n", folded P_def]
  have bb: "distinct (free_pages b @ release_pages b)" "set (free_pages b @ release_pages b) \<subseteq> {1..sz div ps}"
    using b(1) by (auto simp: paged_inv_def)
  note f = f[OF bb]
  have xs: "set xs = slots_of ps (set P)" "distinct xs" "whole_pages ps xs"
    using set_concat_page_slots[OF ps, of P] distinct_concat_page_slots[OF ps f(1)]
      whole_concat_page_slots[OF ps, of P] n(2) by simp_all
  have "int (length P) = n" using n0 n(1) by (simp add: P_def)
  then have "int (length xs) = n * ps"
    using length_concat_page_slots[OF ps, of P] n(2) by (simp add: mult.commute)
  moreover have "paged_free_slots ps a' = slots_of ps ((set (free_pages b) \<union> set (release_pages b)) - set P)"
    using n(3) f(5) by (simp add: paged_free_slots_def)
  then have "paged_free_slots ps a' = paged_free_slots ps b - set xs"
    by (simp add: paged_free_slots_def slots_of_Diff xs(1))
  moreover have "set xs \<subseteq> paged_free_slots ps b"
    using f(4) ps by (auto simp: xs(1) paged_free_slots_def slots_of_def)
  moreover have "paged_inv sz ps a'"
    using b(1) n(3) f(2,3) by (simp add: paged_inv_def)
  ultimately show ?thesis using b(2) xs by simp
qed

lemma torch_unique_facts: "set (torch_unique xs) = set xs" "distinct (torch_unique xs)"
  by (simp_all add: torch_unique_def)

lemma torch_unique_distinct: "distinct xs \<Longrightarrow> length (torch_unique xs) = length xs"
  by (simp add: torch_unique_def distinct_remdups_id)

lemma paged_free_ok:
  assumes i: "paged_inv sz ps a" and w: "whole_pages ps xs"
    and u: "set xs \<subseteq> slots_of ps {1..sz div ps} - paged_free_slots ps a"
  shows "\<exists>a'. paged_free a xs = Inr a' \<and> paged_inv sz ps a' \<and>
              paged_free_slots ps a' = paged_free_slots ps a \<union> set xs"
proof (cases "xs = []")
  case True
  then show ?thesis using i by (simp add: paged_free_def)
next
  case False
  define Q where "Q = torch_unique (map (\<lambda>i. i div ps) xs)"
  have ps: "0 < ps" using i by (simp add: paged_inv_def)
  have Q: "set Q = (\<lambda>i. i div ps) ` set xs" "distinct Q"
    by (simp_all add: Q_def torch_unique_facts)
  have sx: "set xs = slots_of ps (set Q)" using w by (simp add: whole_pages_def Q)
  let ?old = "set (free_pages a) \<union> set (release_pages a)"
  have "set Q \<subseteq> {1..sz div ps} - ?old"
    using u unfolding sx paged_free_slots_def slots_of_Diff[symmetric] slots_of_mono[OF ps] by simp
  then have dis: "set Q \<inter> ?old = {}" "set Q \<subseteq> {1..sz div ps}" by auto
  define a' where "a' = (if al_need_sort a then a\<lparr>release_pages := Q @ release_pages a\<rparr>
                         else a\<lparr>free_pages := Q @ free_pages a\<rparr>)"
  have inv': "paged_inv sz ps a'" using i Q dis by (auto simp: paged_inv_def a'_def)
  then have "distinct (free_pages a')" by (simp add: paged_inv_def)
  then have "paged_free a xs = Inr a'"
    using False i torch_unique_distinct[of "free_pages a'"]
    by (simp add: paged_free_def paged_inv_def Q_def[symmetric] a'_def Let_def)
  moreover have "paged_free_slots ps a' = paged_free_slots ps a \<union> set xs"
    unfolding sx paged_free_slots_def slots_of_Un[symmetric] by (simp add: a'_def Un_ac)
  ultimately show ?thesis using inv' by blast
qed

interpretation paged: slot_allocator paged_alloc paged_free "paged_inv sz ps" "paged_free_slots ps"
  "slots_of ps {1..sz div ps}" ps "whole_pages ps" for sz ps
proof (unfold_locales, goal_cases)
  case (1 a)
  then show ?case by (simp add: paged_inv_def)
next
  case (2 a)
  then show ?case by (auto simp: paged_inv_def paged_free_slots_def slots_of_def)
next
  case (3 a n)
  obtain r a' where "paged_alloc a (n * ps) = Inr (r, a')"
    using paged_alloc_total[OF 3(1)] by blast
  with 3 show ?case
    using paged_alloc_None[of sz ps a n a'] paged_alloc_Some[of sz ps a n _ a'] by (cases r) auto
next
  case (4 a n a')
  then show ?case using paged_alloc_None[of sz ps a n a'] by simp
next
  case (5 a n xs a')
  then show ?case using paged_alloc_Some[of sz ps a n xs a'] by simp
next
  case (6 a xs)
  then show ?case using paged_free_ok[of sz ps a xs] by simp
qed

section \<open>What the rest of the server relies on\<close>

text \<open>C6: Whatever sequence of requests and releases a client makes on the token allocator, no call
  fails with an exception, the blocks it holds never share a slot, and the blocks together with the
  free slots are exactly the slots \<open>1 .. size\<close>: nothing is handed out twice and nothing is lost.\<close>

theorem token_client_partition:
  "\<exists>s held. kv_run (\<lambda>a n. Inr (token_alloc a n)) (\<lambda>a xs. Inr (token_free a xs)) 1 ops
       (token_init sz ns, []) = Inr (s, held) \<and> distinct (concat held) \<and>
     set (concat held) \<inter> token_free_slots s = {} \<and> set (concat held) \<union> token_free_slots s = {1..sz}"
  by (rule token.run_partition[OF token_inv_init token_free_slots_init refl])

text \<open>C7: The same for the paged allocator: requests are whole pages, a client gives back the blocks
  it was given, the held blocks never share a slot (so never a page), every held slot lies on one of
  the pages \<open>1 .. size div page_size\<close>, and no slot is lost.\<close>

theorem paged_client_partition:
  assumes "0 < ps"
  shows "\<exists>s held. kv_run paged_alloc paged_free ps ops (paged_init sz ps ns dbg, []) = Inr (s, held) \<and>
     distinct (concat held) \<and> set (concat held) \<inter> paged_free_slots ps s = {} \<and>
     set (concat held) \<union> paged_free_slots ps s = slots_of ps {1..sz div ps}"
  by (rule paged.run_partition[OF paged_inv_init[OF assms] paged_free_slots_init refl])

lemma paged_client_partition_witness:
  "\<exists>s held. kv_run paged_alloc paged_free 4 [OpAlloc 2, OpAlloc 1, OpFree 1, OpAlloc 3]
       (paged_init 18 4 True True, []) = Inr (s, held) \<and>
     distinct (concat held) \<and> set (concat held) \<inter> paged_free_slots 4 s = {} \<and>
     set (concat held) \<union> paged_free_slots 4 s = slots_of 4 {1..18 div 4}"
  by (rule paged_client_partition) simp

lemma token_group_free:
  "\<not> is_not_in_free_group a \<Longrightarrow> fold (\<lambda>b a. token_free a b) blocks a =
     a\<lparr>free_group := free_group a @ filter (\<lambda>b. b \<noteq> []) blocks\<rparr>"
  by (induction blocks arbitrary: a) (simp_all add: token_free_def)

lemma token_single_frees:
  "is_not_in_free_group a \<Longrightarrow> fold (\<lambda>b a. token_free a b) blocks a =
     (if al_need_sort a then a\<lparr>release_pages := release_pages a @ concat blocks\<rparr>
      else a\<lparr>free_pages := free_pages a @ concat blocks\<rparr>)"
  by (induction blocks arbitrary: a) (simp_all add: token_free_def)

lemma concat_nonempty_blocks: "concat (filter (\<lambda>b. b \<noteq> []) bs) = concat bs"
  by (induction bs) auto

text \<open>C8: Freeing blocks inside a free group (\<open>free_group_begin\<close>, the frees, \<open>free_group_end\<close>) leaves the
  token allocator exactly as freeing them one by one does, the order of the free list included; only
  the buffer \<open>free_group\<close>, which the next group clears, may differ.\<close>

theorem token_free_group_equiv:
  assumes "\<not> al_paged a" and "is_not_in_free_group a"
  shows "\<exists>a'. free_group_end (fold (\<lambda>b a. token_free a b) blocks (free_group_begin a)) = Inr a' \<and>
     a'\<lparr>free_group := []\<rparr> = (fold (\<lambda>b a. token_free a b) blocks a)\<lparr>free_group := []\<rparr>"
proof -
  have g: "fold (\<lambda>b a. token_free a b) blocks (free_group_begin a) =
      a\<lparr>is_not_in_free_group := False, free_group := filter (\<lambda>b. b \<noteq> []) blocks\<rparr>"
    by (simp add: free_group_begin_def token_group_free)
  define bs where "bs = filter (\<lambda>b. b \<noteq> []) blocks"
  have c: "concat bs = concat blocks" by (simp add: bs_def concat_nonempty_blocks)
  have e: "bs = [] \<longleftrightarrow> concat blocks = []" by (auto simp: bs_def filter_empty_conv)
  show ?thesis unfolding g token_single_frees[OF assms(2)] bs_def[symmetric] c[symmetric]
    using assms e unfolding c[symmetric]
    by (cases "bs = []"; cases "al_need_sort a")
      (simp_all add: free_group_end_def allocator_free_def token_free_def Let_def)
qed

lemma token_free_group_equiv_witness:
  "\<exists>a'. free_group_end (fold (\<lambda>b a. token_free a b) [[3, 4], [], [1]]
       (free_group_begin (token_init 4 True))) = Inr a' \<and>
     a'\<lparr>free_group := []\<rparr> = (fold (\<lambda>b a. token_free a b) [[3, 4], [], [1]] (token_init 4 True))\<lparr>free_group := []\<rparr>"
  by (rule token_free_group_equiv) (simp_all add: token_init_def token_clear_def)

end
