(* ===== verification/KvExtend.thy ===== *)
theory KvExtend
  imports KvAllocator
begin

text \<open>
  Slots for an extended batch (\<open>allocator/paged.py\<close> and \<open>triton_ops/allocator.py\<close>).  Request \<open>i\<close>
  already holds the slots of its first \<open>prefix_lens[i]\<close> tokens, the last of them at \<open>last_loc[i]\<close>,
  and grows to \<open>seq_lens[i]\<close> tokens.  The new tokens first fill the old partial page, then whole new
  pages, then a new partial page.  The specification \<open>token_slot\<close> says where each token goes; the
  Triton kernels (one program per request, run here in the order of their ids: they write disjoint
  blocks) and the tensor routine \<open>alloc_extend_naive\<close> are proved to compute exactly that.
\<close>

section \<open>The number of pages\<close>

definition ceil_div :: "int \<Rightarrow> int \<Rightarrow> int" where
  "ceil_div x ps = (x + ps - 1) div ps"

definition get_num_new_pages :: "int list \<Rightarrow> int \<Rightarrow> int list option \<Rightarrow> bool \<Rightarrow> py_error + int" where
  "get_num_new_pages seq_lens page_size prefix_lens decode =
     (if prefix_lens = None \<or> decode then
        (if \<not> decode then Inl AssertionError
         else Inr (sum_list (map (\<lambda>s. if s mod page_size = 1 then 1 else 0) seq_lens)))
      else Inr (sum_list (map2 (\<lambda>s p. (s + page_size - 1) div page_size
                                      - (p + page_size - 1) div page_size)
                              seq_lens (the prefix_lens))))"

section \<open>Where a token goes\<close>

text \<open>
  Token \<open>j\<close> of a request that had \<open>pre\<close> tokens with the last one at \<open>last\<close>: on the old partial page
  the slots follow \<open>last\<close>; otherwise it is at offset \<open>j mod ps\<close> of its page among the new ones.
\<close>

definition token_slot :: "int \<Rightarrow> int \<Rightarrow> int \<Rightarrow> (int \<Rightarrow> int) \<Rightarrow> int \<Rightarrow> int" where
  "token_slot ps pre loc page_at j =
     (if j < ceil_div pre ps * ps then loc + 1 + (j - pre)
      else page_at (j div ps - ceil_div pre ps) * ps + j mod ps)"

definition extend_slots :: "int \<Rightarrow> int \<Rightarrow> int \<Rightarrow> int \<Rightarrow> (int \<Rightarrow> int) \<Rightarrow> int list" where
  "extend_slots ps pre seq loc page_at = map (token_slot ps pre loc page_at) [pre..seq - 1]"

text \<open>
  The blocks of the whole batch: request \<open>i\<close> takes its new pages from the free list after those of
  the requests before it.
\<close>

definition new_pages :: "int \<Rightarrow> int \<Rightarrow> int \<Rightarrow> int" where
  "new_pages ps pre seq = ceil_div seq ps - ceil_div pre ps"

definition page_start :: "int \<Rightarrow> int list \<Rightarrow> int list \<Rightarrow> nat \<Rightarrow> int" where
  "page_start ps pre_lens seq_lens i = sum_list (take i (map2 (new_pages ps) pre_lens seq_lens))"

definition request_slots :: "int \<Rightarrow> int list \<Rightarrow> int list \<Rightarrow> int list \<Rightarrow> int list \<Rightarrow> nat \<Rightarrow> int list" where
  "request_slots ps pre_lens seq_lens last_locs free_page i =
     extend_slots ps (pre_lens ! i) (seq_lens ! i) (last_locs ! i)
       (\<lambda>k. free_page ! nat (page_start ps pre_lens seq_lens i + k))"

definition batch_slots :: "int \<Rightarrow> int list \<Rightarrow> int list \<Rightarrow> int list \<Rightarrow> int list \<Rightarrow> int list" where
  "batch_slots ps pre_lens seq_lens last_locs free_page =
     concat (map (request_slots ps pre_lens seq_lens last_locs free_page) [0..<length pre_lens])"

section \<open>The kernels\<close>

text \<open>A masked store of a block: lane \<open>o\<close> writes \<open>val o\<close> at \<open>base + o\<close> when \<open>lane_on o\<close> holds.\<close>

definition tl_store :: "int list \<Rightarrow> int \<Rightarrow> int list \<Rightarrow> (int \<Rightarrow> int) \<Rightarrow> (int \<Rightarrow> bool) \<Rightarrow> int list" where
  "tl_store out base lanes val lane_on =
     fold (\<lambda>off out. if lane_on off then out[nat (base + off) := val off] else out) lanes out"

text \<open>
  The prefix sums a program computes: the lanes up to its own id.  A masked-off lane loads 0 for both
  lengths, so it adds nothing to either sum.
\<close>

definition tl_sum_upto :: "int list \<Rightarrow> nat \<Rightarrow> int" where
  "tl_sum_upto xs pid = sum_list (take (Suc pid) xs)"

definition BLOCK_EXTEND :: int where
  "BLOCK_EXTEND = 4096"

definition alloc_extend_kernel ::
  "int list \<Rightarrow> int list \<Rightarrow> int list \<Rightarrow> int list \<Rightarrow> int \<Rightarrow> nat \<Rightarrow> int list \<Rightarrow> int list" where
  "alloc_extend_kernel pre_lens seq_lens last_locs free_page page_size pid out_indices =
     (let extend_lens = map2 (-) seq_lens pre_lens;
          seq_len = seq_lens ! pid;
          pre_len = pre_lens ! pid;
          extend_len = seq_len - pre_len;
          sum_extend_lens = tl_sum_upto extend_lens pid;
          output_start_loc = sum_extend_lens - extend_len;
          num_pages_after = map (\<lambda>s. (s + page_size - 1) div page_size) seq_lens;
          num_pages_before = map (\<lambda>p. (p + page_size - 1) div page_size) pre_lens;
          num_new_pages = map2 (-) num_pages_after num_pages_before;
          num_page_start_loc_self =
            (seq_len + page_size - 1) div page_size - (pre_len + page_size - 1) div page_size;
          sum_num_new_pages = tl_sum_upto num_new_pages pid;
          new_page_start_loc = sum_num_new_pages - num_page_start_loc_self;
          last_loc = last_locs ! pid;
          num_part1 =
            min seq_len ((pre_len + page_size - 1) div page_size * page_size) - pre_len;
          out1 = tl_store out_indices output_start_loc [0..page_size - 1]
                   (\<lambda>off. last_loc + 1 + off) (\<lambda>off. off < num_part1)
      in if pre_len + num_part1 = seq_len then out1
         else
           let num_part2 = seq_len div page_size * page_size
                           - (pre_len + page_size - 1) div page_size * page_size;
               num_blocks = (num_part2 + BLOCK_EXTEND - 1) div BLOCK_EXTEND;
               out2 = fold (\<lambda>block_id out.
                        tl_store out (output_start_loc + num_part1)
                          (map (\<lambda>off. block_id * BLOCK_EXTEND + off) [0..BLOCK_EXTEND - 1])
                          (\<lambda>off. free_page ! nat (new_page_start_loc + off div page_size) * page_size
                                 + off mod page_size)
                          (\<lambda>off. off < num_part2))
                      [0..num_blocks - 1] out1
           in if pre_len + num_part1 + num_part2 = seq_len then out2
              else
                let num_part3 = seq_len - seq_len div page_size * page_size;
                    start_loc = free_page ! nat (new_page_start_loc + num_page_start_loc_self - 1)
                in tl_store out2 (output_start_loc + num_part1 + num_part2) [0..page_size - 1]
                     (\<lambda>off. start_loc * page_size + off) (\<lambda>off. off < num_part3))"

definition alloc_decode_kernel ::
  "int list \<Rightarrow> int list \<Rightarrow> int list \<Rightarrow> int \<Rightarrow> nat \<Rightarrow> int list \<Rightarrow> int list" where
  "alloc_decode_kernel seq_lens last_locs free_page page_size pid out_indices =
     (let seq_len = seq_lens ! pid;
          pre_len = seq_len - 1;
          num_new_pages = map (\<lambda>s. (s + page_size - 1) div page_size
                                   - (s - 1 + page_size - 1) div page_size) seq_lens;
          num_page_start_loc_self =
            (seq_len + page_size - 1) div page_size - (pre_len + page_size - 1) div page_size;
          sum_num_new_pages = tl_sum_upto num_new_pages pid;
          new_page_start_loc = sum_num_new_pages - num_page_start_loc_self
      in if num_page_start_loc_self = 0 then out_indices[pid := last_locs ! pid + 1]
         else out_indices[pid := free_page ! nat new_page_start_loc * page_size])"

section \<open>The tensor routine\<close>

fun cumsum_from :: "int \<Rightarrow> int list \<Rightarrow> int list" where
  "cumsum_from acc [] = []"
| "cumsum_from acc (x # xs) = (acc + x) # cumsum_from (acc + x) xs"

definition cumsum :: "int list \<Rightarrow> int list" where
  "cumsum = cumsum_from 0"

text \<open>
  \<open>out[a:b] = vs\<close> on tensors: the lengths must agree, or the right-hand side holds one element,
  which is broadcast.
\<close>

definition assign_slice :: "int list \<Rightarrow> int \<Rightarrow> int \<Rightarrow> int list \<Rightarrow> py_error + int list" where
  "assign_slice out a b vs =
     (let k = length (slice out a b); p = py_bound a out
      in if length vs = k then Inr (write_at out p vs)
         else if length vs = 1 then Inr (write_at out p (replicate k (hd vs)))
         else Inl RuntimeError)"

definition naive_request ::
  "int list \<Rightarrow> int list \<Rightarrow> int list \<Rightarrow> int list \<Rightarrow> int \<Rightarrow> nat \<Rightarrow> int list \<Rightarrow> py_error + int list" where
  "naive_request prefix_lens seq_lens last_loc free_page page_size i out_indices =
     (let extend_lens = map2 (-) seq_lens prefix_lens;
          end_pos = cumsum extend_lens;
          start_pos = map2 (-) end_pos extend_lens;
          num_new_pages = map2 (\<lambda>s p. (s + page_size - 1) div page_size
                                      - (p + page_size - 1) div page_size) seq_lens prefix_lens;
          num_full_new_pages = map2 (\<lambda>s p. s div page_size
                                      - (p + page_size - 1) div page_size) seq_lens prefix_lens;
          need_page = map2 (-) num_new_pages num_full_new_pages;
          end_new_pages = cumsum num_new_pages;
          start_new_pages = map2 (-) end_new_pages num_new_pages;
          pos_in_page = [0..page_size - 1];
          num1 = min (seq_lens ! i)
                   ((prefix_lens ! i + page_size - 1) div page_size * page_size) - prefix_lens ! i
      in case (if num1 \<noteq> 0
               then assign_slice out_indices (start_pos ! i) (start_pos ! i + num1)
                      (map (\<lambda>off. last_loc ! i + 1 + off) (slice_to pos_in_page num1))
               else Inr out_indices) of
           Inl e \<Rightarrow> Inl e
         | Inr out1 \<Rightarrow>
             if prefix_lens ! i + num1 = seq_lens ! i then Inr out1
             else
               let num2 = (seq_lens ! i div page_size
                           - (prefix_lens ! i + page_size - 1) div page_size) * page_size
               in case (if num2 \<noteq> 0
                        then assign_slice out1 (start_pos ! i + num1) (start_pos ! i + num1 + num2)
                               (concat (map (\<lambda>p. map (\<lambda>off. p * page_size + off) pos_in_page)
                                  (slice free_page (start_new_pages ! i)
                                     (end_new_pages ! i - need_page ! i))))
                        else Inr out1) of
                    Inl e \<Rightarrow> Inl e
                  | Inr out2 \<Rightarrow>
                      if prefix_lens ! i + num1 + num2 = seq_lens ! i then Inr out2
                      else
                        let num3 = seq_lens ! i - seq_lens ! i div page_size * page_size
                        in if num3 \<noteq> 0
                           then assign_slice out2 (end_pos ! i - num3) (end_pos ! i)
                                  (map (\<lambda>off. free_page ! nat (end_new_pages ! i - 1) * page_size + off)
                                     (slice_to pos_in_page num3))
                           else Inr out2)"

fun bind_error :: "py_error + 'a \<Rightarrow> ('a \<Rightarrow> py_error + 'b) \<Rightarrow> py_error + 'b" where
  "bind_error (Inl e) f = Inl e"
| "bind_error (Inr x) f = f x"

definition alloc_extend_naive ::
  "int list \<Rightarrow> int list \<Rightarrow> int list \<Rightarrow> int list \<Rightarrow> int list \<Rightarrow> int \<Rightarrow> py_error + int list" where
  "alloc_extend_naive prefix_lens seq_lens last_loc free_page out_indices page_size =
     fold (\<lambda>i r. bind_error r (naive_request prefix_lens seq_lens last_loc free_page page_size i))
       [0..<length prefix_lens] (Inr out_indices)"

section \<open>The allocator's batch operations\<close>

text \<open>
  \<open>junk\<close> is the content of the uninitialised tensor \<open>torch.empty\<close>; the kernel launch runs one
  program per request.
\<close>

definition launch :: "nat \<Rightarrow> (nat \<Rightarrow> int list \<Rightarrow> int list) \<Rightarrow> int list \<Rightarrow> int list" where
  "launch bs prog out = fold prog [0..<bs] out"

definition alloc_extend ::
  "allocator \<Rightarrow> int list \<Rightarrow> int list \<Rightarrow> int list \<Rightarrow> int \<Rightarrow> int option \<Rightarrow> int list \<Rightarrow>
     py_error + (int list option \<times> allocator)" where
  "alloc_extend a prefix_lens seq_lens last_loc extend_num_tokens num_new_pages junk =
     (let ps = al_page_size a in
      if al_debug_mode a \<and> \<not> list_all2 (\<lambda>l p. (l + 1) mod ps = p mod ps) last_loc prefix_lens
      then Inl AssertionError
      else
        let bs = length prefix_lens;
            a = (if al_need_sort a \<and>
                    extend_num_tokens div ps + int bs + 1 > int (length (free_pages a))
                 then merge_and_sort_free a else a);
            out_indices = launch bs
              (alloc_extend_kernel prefix_lens seq_lens last_loc (free_pages a) ps) junk
        in if al_debug_mode a \<and> length (torch_unique out_indices) \<noteq> length out_indices
           then Inl AssertionError
           else
             bind_error
               (case num_new_pages of Some n \<Rightarrow> Inr n
                | None \<Rightarrow> get_num_new_pages seq_lens ps (Some prefix_lens) False)
               (\<lambda>n. if n > int (length (free_pages a)) then Inr (None, a)
                    else Inr (Some out_indices, a\<lparr>free_pages := slice_from (free_pages a) n\<rparr>)))"

definition alloc_decode ::
  "allocator \<Rightarrow> int list \<Rightarrow> int list \<Rightarrow> int list \<Rightarrow> py_error + (int list option \<times> allocator)" where
  "alloc_decode a seq_lens last_loc junk =
     (let ps = al_page_size a in
      if al_debug_mode a \<and> \<not> list_all2 (\<lambda>l s. (l + 2) mod ps = s mod ps) last_loc seq_lens
      then Inl AssertionError
      else
        let bs = length seq_lens;
            a = (if al_need_sort a \<and> int bs > int (length (free_pages a))
                 then merge_and_sort_free a else a);
            out_indices = launch bs
              (alloc_decode_kernel seq_lens last_loc (free_pages a) ps) junk
        in if al_debug_mode a \<and> length (torch_unique out_indices) \<noteq> length out_indices
           then Inl AssertionError
           else
             bind_error (get_num_new_pages seq_lens ps None True)
               (\<lambda>n. if n > int (length (free_pages a)) then Inr (None, a)
                    else Inr (Some out_indices, a\<lparr>free_pages := slice_from (free_pages a) n\<rparr>)))"

section \<open>A program writes the slots of its request\<close>

lemma upto_nat_snoc: "[0..int (Suc m) - 1] = [0..int m - 1] @ [int m]"
  by (simp add: upto_rec2)

lemma tl_store_write:
  assumes "0 \<le> base" and "0 \<le> k" and "base + k \<le> int (length out)"
  shows "tl_store out base [0..int m - 1] val (\<lambda>off. off < k) =
         write_at out (nat base) (map val [0..min (int m) k - 1])"
proof (induction m)
  case 0
  then show ?case using assms by (simp add: tl_store_def)
next
  case (Suc m)
  have snoc: "tl_store out base [0..int (Suc m) - 1] val (\<lambda>off. off < k) =
     (let o' = tl_store out base [0..int m - 1] val (\<lambda>off. off < k)
      in if int m < k then o'[nat (base + int m) := val (int m)] else o')"
    unfolding upto_nat_snoc by (simp add: tl_store_def)
  show ?case
  proof (cases "int m < k")
    case True
    have eq: "[0..min (int (Suc m)) k - 1] = [0..int m - 1] @ [int m]" "min (int m) k = int m"
      using True upto_nat_snoc[of m] by (simp_all add: min_absorb1)
    have "nat (base + int m) = nat base + length (map val [0..int m - 1])"
      using assms by (simp add: nat_add_distrib)
    moreover have "nat base + length (map val [0..int m - 1]) < length out"
      using True assms by simp
    ultimately show ?thesis
      using True Suc.IH write_at_snoc[of "nat base" "map val [0..int m - 1]" out "val (int m)"]
      unfolding snoc eq by (simp add: Let_def)
  next
    case False
    then have "min (int (Suc m)) k = k" "min (int m) k = k" by auto
    with False Suc.IH show ?thesis unfolding snoc by (simp add: Let_def)
  qed
qed

lemma tl_store_block:
  assumes "0 \<le> base" and "0 \<le> k" and "base + k \<le> int (length out)" and "k \<le> n"
  shows "tl_store out base [0..n - 1] val (\<lambda>off. off < k) = write_at out (nat base) (map val [0..k - 1])"
  using tl_store_write[OF assms(1-3), of "nat n" val] assms(2,4) by (simp add: min_absorb2)

lemma tl_store_append:
  "tl_store out base (xs @ ys) val lane_on = tl_store (tl_store out base xs val lane_on) base ys val lane_on"
  by (simp add: tl_store_def)

lemma upto_shift: "map (\<lambda>off. a + off) [0..n - 1] = [a..a + n - 1]"
proof (rule nth_equalityI)
  show "map (\<lambda>off. a + off) [0..n - 1] ! i = [a..a + n - 1] ! i"
    if "i < length (map (\<lambda>off. a + off) [0..n - 1])" for i
    using that by (simp add: nth_upto)
qed simp

lemma upto_append: "a \<le> b \<Longrightarrow> b \<le> c \<Longrightarrow> [a..c - 1] = [a..b - 1] @ [b..c - 1]" for a b c :: int
proof -
  assume "a \<le> b" "b \<le> c"
  show ?thesis
  proof (cases "b = c")
    case False
    with \<open>a \<le> b\<close> \<open>b \<le> c\<close> show ?thesis using upto_split1[of a b "c - 1"] by simp
  qed simp
qed

lemma tl_store_blocks:
  assumes "0 < B"
  shows "fold (\<lambda>b out. tl_store out base (map (\<lambda>off. b * B + off) [0..B - 1]) val lane_on)
           [0..int m - 1] out = tl_store out base [0..int m * B - 1] val lane_on"
proof (induction m)
  case 0
  then show ?case by (simp add: tl_store_def)
next
  case (Suc m)
  have "[0..int (Suc m) * B - 1] = [0..int m * B - 1] @ [int m * B..int (Suc m) * B - 1]"
    using assms by (intro upto_append) (simp_all add: algebra_simps)
  moreover have "map (\<lambda>off. int m * B + off) [0..B - 1] = [int m * B..int (Suc m) * B - 1]"
    using upto_shift[of "int m * B" B] by (simp add: distrib_right add.commute)
  ultimately show ?case
    using Suc.IH unfolding upto_nat_snoc by (simp add: tl_store_append del: of_nat_Suc)
qed

lemma write_at_append:
  assumes "p + length xs + length ys \<le> length out" and "q = p + length xs"
  shows "write_at (write_at out p xs) q ys = write_at out p (xs @ ys)"
  using assms by (simp add: write_at_def add_ac)

lemma map_upto_shift:
  "map f [a..b - 1] = map (\<lambda>off. f (a + off)) [0..(b - a) - 1]"
proof -
  have "[a..b - 1] = map (\<lambda>off. a + off) [0..(b - a) - 1]" by (simp add: upto_shift)
  then show ?thesis by (simp add: o_def)
qed

lemma ceil_div_bounds:
  assumes "0 < ps"
  shows "x \<le> ceil_div x ps * ps" and "ceil_div x ps * ps < x + ps"
  using int_ceil_div[OF assms, of x] by (simp_all add: ceil_div_def)

lemma extend_slots_old_page:
  assumes "pre \<le> seq" and "seq \<le> ceil_div pre ps * ps"
  shows "extend_slots ps pre seq loc page_at = map (\<lambda>off. loc + 1 + off) [0..(seq - pre) - 1]"
  unfolding extend_slots_def
  by (subst map_upto_shift) (use assms in \<open>simp add: token_slot_def\<close>)

lemma extend_slots_split:
  assumes ps: "0 < ps" and le: "pre \<le> seq" and c: "c = ceil_div pre ps * ps" "c \<le> seq"
    and q: "q = seq div ps * ps"
  shows "c \<le> q" and "extend_slots ps pre seq loc page_at =
     map (\<lambda>off. loc + 1 + off) [0..(c - pre) - 1] @
     map (\<lambda>off. page_at (off div ps) * ps + off mod ps) [0..(q - c) - 1] @
     map (\<lambda>off. page_at (seq div ps - ceil_div pre ps) * ps + off) [0..(seq - q) - 1]"
proof -
  have "ceil_div pre ps \<le> seq div ps"
    using c ps by (metis zdiv_mono1 nonzero_mult_div_cancel_right order_less_irrefl)
  then show cq: "c \<le> q" using ps by (simp add: c q)
  have pc: "pre \<le> c" using ceil_div_bounds(1)[OF ps] c by simp
  have qs: "q \<le> seq" using ps by (simp add: q minus_mod_eq_div_mult[symmetric])
  have qm: "seq - q < ps" using ps by (simp add: q minus_div_mult_eq_mod)
  have "[pre..seq - 1] = [pre..c - 1] @ [c..q - 1] @ [q..seq - 1]"
    using upto_append[of pre c seq] upto_append[of c q seq] pc cq qs by simp
  moreover have "map (token_slot ps pre loc page_at) [pre..c - 1] =
      map (\<lambda>off. loc + 1 + off) [0..(c - pre) - 1]"
    by (subst map_upto_shift) (auto simp: token_slot_def c)
  moreover have "map (token_slot ps pre loc page_at) [c..q - 1] =
      map (\<lambda>off. page_at (off div ps) * ps + off mod ps) [0..(q - c) - 1]"
    by (subst map_upto_shift) (use ps in \<open>auto simp: token_slot_def c\<close>)
  moreover have "map (token_slot ps pre loc page_at) [q..seq - 1] =
      map (\<lambda>off. page_at (seq div ps - ceil_div pre ps) * ps + off) [0..(seq - q) - 1]"
  proof (subst map_upto_shift, rule map_cong [OF refl])
    fix off assume "off \<in> set [0..(seq - q) - 1]"
    then have "0 \<le> off" "off < ps" "\<not> q + off < ceil_div pre ps * ps"
      using qm cq by (simp_all add: c)
    then show "token_slot ps pre loc page_at (q + off) = page_at (seq div ps - ceil_div pre ps) * ps + off"
      using ps by (simp add: token_slot_def q div_pos_pos_trivial)
  qed
  ultimately show "extend_slots ps pre seq loc page_at =
     map (\<lambda>off. loc + 1 + off) [0..(c - pre) - 1] @
     map (\<lambda>off. page_at (off div ps) * ps + off mod ps) [0..(q - c) - 1] @
     map (\<lambda>off. page_at (seq div ps - ceil_div pre ps) * ps + off) [0..(seq - q) - 1]"
    by (simp add: extend_slots_def)
qed

lemma tl_sum_upto_minus: "pid < length xs \<Longrightarrow> tl_sum_upto xs pid - xs ! pid = sum_list (take pid xs)"
  by (simp add: tl_sum_upto_def take_Suc_conv_app_nth)

definition out_start :: "int list \<Rightarrow> int list \<Rightarrow> nat \<Rightarrow> int" where
  "out_start pre_lens seq_lens i = sum_list (take i (map2 (-) seq_lens pre_lens))"

lemma map2_new_pages:
  assumes "length pre_lens = length seq_lens"
  shows "map2 (-) (map (\<lambda>s. ceil_div s ps) seq_lens) (map (\<lambda>p. ceil_div p ps) pre_lens) =
         map2 (new_pages ps) pre_lens seq_lens"
  using assms by (intro nth_equalityI) (simp_all add: new_pages_def)

lemma kernel_program:
  assumes ps: "0 < ps" and len: "length pre_lens = length seq_lens" "pid < length seq_lens"
    and pre: "0 \<le> pre_lens ! pid" "pre_lens ! pid \<le> seq_lens ! pid"
    and st: "0 \<le> out_start pre_lens seq_lens pid"
      "out_start pre_lens seq_lens pid + (seq_lens ! pid - pre_lens ! pid) \<le> int (length out)"
  shows "alloc_extend_kernel pre_lens seq_lens last_locs free_page ps pid out =
    write_at out (nat (out_start pre_lens seq_lens pid))
      (request_slots ps pre_lens seq_lens last_locs free_page pid)"
proof -
  define pr se lo where v: "pr = pre_lens ! pid" "se = seq_lens ! pid" "lo = last_locs ! pid"
  define s0 where "s0 = out_start pre_lens seq_lens pid"
  define p0 where "p0 = page_start ps pre_lens seq_lens pid"
  define c q where cq: "c = ceil_div pr ps * ps" "q = se div ps * ps"
  have e: "tl_sum_upto (map2 (-) seq_lens pre_lens) pid - (se - pr) = s0"
    using len tl_sum_upto_minus[of pid "map2 (-) seq_lens pre_lens"]
    by (simp add: v s0_def out_start_def)
  have n: "tl_sum_upto (map2 (new_pages ps) pre_lens seq_lens) pid
            - (ceil_div se ps - ceil_div pr ps) = p0"
    using len tl_sum_upto_minus[of pid "map2 (new_pages ps) pre_lens seq_lens"]
    by (simp add: v p0_def page_start_def new_pages_def)
  have pc: "pr \<le> c" "c < pr + ps" using ceil_div_bounds[OF ps, of pr] by (simp_all add: cq)
  let ?page = "\<lambda>k. free_page ! nat (p0 + k)"
  have goal: "request_slots ps pre_lens seq_lens last_locs free_page pid = extend_slots ps pr se lo ?page"
    by (simp add: request_slots_def v p0_def)
  have K: "alloc_extend_kernel pre_lens seq_lens last_locs free_page ps pid out =
    (let n1 = min se c - pr;
         out1 = tl_store out s0 [0..ps - 1] (\<lambda>off. lo + 1 + off) (\<lambda>off. off < n1)
     in if pr + n1 = se then out1
        else let n2 = q - c;
                 out2 = fold (\<lambda>b out. tl_store out (s0 + n1)
                          (map (\<lambda>off. b * BLOCK_EXTEND + off) [0..BLOCK_EXTEND - 1])
                          (\<lambda>off. free_page ! nat (p0 + off div ps) * ps + off mod ps)
                          (\<lambda>off. off < n2))
                        [0..ceil_div n2 BLOCK_EXTEND - 1] out1
             in if pr + n1 + n2 = se then out2
                else tl_store out2 (s0 + n1 + n2) [0..ps - 1]
                       (\<lambda>off. free_page ! nat (p0 + (ceil_div se ps - ceil_div pr ps) - 1) * ps + off)
                       (\<lambda>off. off < se - q))"
    unfolding alloc_extend_kernel_def Let_def map2_new_pages[OF len(1)] v(1,2,3)[symmetric]
      ceil_div_def[symmetric] e n cq[symmetric] by (rule refl)
  show ?thesis
  proof (cases "se \<le> c")
    case True
    have "alloc_extend_kernel pre_lens seq_lens last_locs free_page ps pid out =
        tl_store out s0 [0..ps - 1] (\<lambda>off. lo + 1 + off) (\<lambda>off. off < se - pr)"
      using True by (simp add: K)
    also have "\<dots> = write_at out (nat s0) (map (\<lambda>off. lo + 1 + off) [0..(se - pr) - 1])"
      using st pre pc True by (intro tl_store_block) (simp_all add: v s0_def)
    finally show ?thesis
      using extend_slots_old_page[of pr se ps lo ?page] True pre goal by (simp add: v cq s0_def)
  next
    case False
    define n1 n2 n3 where ns: "n1 = c - pr" "n2 = q - c" "n3 = se - q"
    let ?A = "map (\<lambda>off. lo + 1 + off) [0..n1 - 1]"
    let ?B = "map (\<lambda>off. ?page (off div ps) * ps + off mod ps) [0..n2 - 1]"
    let ?C = "map (\<lambda>off. ?page (se div ps - ceil_div pr ps) * ps + off) [0..n3 - 1]"
    have le: "pr \<le> se" "c \<le> se" using pre False by (simp_all add: v)
    note split = extend_slots_split(1)[OF ps le(1) cq(1) le(2) cq(2)]
      extend_slots_split(2)[OF ps le(1) cq(1) le(2) cq(2), of lo ?page]
    have qs: "q \<le> se" "se - q < ps"
      using ps by (simp_all add: cq minus_mod_eq_div_mult[symmetric] minus_div_mult_eq_mod)
    have nn: "0 \<le> n1" "n1 \<le> ps" "0 \<le> n2" "0 \<le> n3" "n3 \<le> ps" "n1 + n2 + n3 = se - pr"
      using pc qs split(1) by (simp_all add: ns)
    have s0: "0 \<le> s0" "s0 + (n1 + n2 + n3) \<le> int (length out)"
      using st nn by (simp_all add: s0_def v)
    have A: "tl_store out s0 [0..ps - 1] (\<lambda>off. lo + 1 + off) (\<lambda>off. off < n1) = write_at out (nat s0) ?A"
      using s0 nn by (intro tl_store_block) simp_all
    have lA: "length (write_at out (nat s0) ?A) = length out" using s0 nn by simp
    have m: "int (nat (ceil_div n2 BLOCK_EXTEND)) = ceil_div n2 BLOCK_EXTEND"
      "n2 \<le> ceil_div n2 BLOCK_EXTEND * BLOCK_EXTEND"
      using nn ceil_div_bounds[of BLOCK_EXTEND n2] by (simp_all add: ceil_div_def BLOCK_EXTEND_def)
    have "fold (\<lambda>b out. tl_store out (s0 + n1)
                (map (\<lambda>off. b * BLOCK_EXTEND + off) [0..BLOCK_EXTEND - 1])
                (\<lambda>off. free_page ! nat (p0 + off div ps) * ps + off mod ps) (\<lambda>off. off < n2))
            [0..ceil_div n2 BLOCK_EXTEND - 1] (write_at out (nat s0) ?A) =
        tl_store (write_at out (nat s0) ?A) (s0 + n1) [0..ceil_div n2 BLOCK_EXTEND * BLOCK_EXTEND - 1]
          (\<lambda>off. free_page ! nat (p0 + off div ps) * ps + off mod ps) (\<lambda>off. off < n2)"
      using tl_store_blocks[of BLOCK_EXTEND "s0 + n1" _ _ "nat (ceil_div n2 BLOCK_EXTEND)"] m
      by (simp add: BLOCK_EXTEND_def)
    also have "\<dots> = write_at (write_at out (nat s0) ?A) (nat (s0 + n1)) ?B"
      using s0 nn m by (intro tl_store_block) (simp_all add: lA)
    also have "\<dots> = write_at out (nat s0) (?A @ ?B)"
      using s0 nn by (intro write_at_append) (simp_all add: nat_add_distrib)
    finally have B: "fold (\<lambda>b out. tl_store out (s0 + n1)
                (map (\<lambda>off. b * BLOCK_EXTEND + off) [0..BLOCK_EXTEND - 1])
                (\<lambda>off. free_page ! nat (p0 + off div ps) * ps + off mod ps) (\<lambda>off. off < n2))
            [0..ceil_div n2 BLOCK_EXTEND - 1] (write_at out (nat s0) ?A) =
          write_at out (nat s0) (?A @ ?B)" .
    have n1: "min se c - pr = n1" and ne: "pr + n1 \<noteq> se" using False by (simp_all add: ns)
    have K2: "alloc_extend_kernel pre_lens seq_lens last_locs free_page ps pid out =
        (if pr + n1 + n2 = se then write_at out (nat s0) (?A @ ?B)
         else tl_store (write_at out (nat s0) (?A @ ?B)) (s0 + n1 + n2) [0..ps - 1]
                (\<lambda>off. free_page ! nat (p0 + (ceil_div se ps - ceil_div pr ps) - 1) * ps + off)
                (\<lambda>off. off < n3))"
      unfolding K Let_def n1 ns(2,3)[symmetric] if_not_P[OF ne] A B by (rule refl)
    have goal': "request_slots ps pre_lens seq_lens last_locs free_page pid = ?A @ ?B @ ?C"
      unfolding goal split(2) ns by (rule refl)
    show ?thesis
    proof (cases "pr + n1 + n2 = se")
      case True
      then have "?C = []" using nn by simp
      with True show ?thesis by (simp add: K2 goal' s0_def del: upto_Nil2)
    next
      case False': False
      have "ceil_div se ps = se div ps + 1"
      proof -
        have "se mod ps = se - q" by (simp add: cq minus_div_mult_eq_mod)
        then have "0 < se mod ps" using False' qs(1) by (simp add: ns)
        then have "se + ps - 1 = ps * (se div ps + 1) + (se mod ps - 1)" "0 \<le> se mod ps - 1" "se mod ps - 1 < ps"
          using pos_mod_bound[OF ps, of se] by (simp_all add: algebra_simps)
        then show ?thesis unfolding ceil_div_def by (rule int_div_pos_eq)
      qed
      then have page: "p0 + (ceil_div se ps - ceil_div pr ps) - 1 = p0 + (se div ps - ceil_div pr ps)"
        by simp
      have l: "length (write_at out (nat s0) (?A @ ?B)) = length out" using s0 nn by simp
      have "alloc_extend_kernel pre_lens seq_lens last_locs free_page ps pid out =
          write_at (write_at out (nat s0) (?A @ ?B)) (nat (s0 + n1 + n2)) ?C"
        unfolding K2 if_not_P[OF False'] page
        using s0 nn by (intro tl_store_block) (simp_all only: l)
      also have "\<dots> = write_at out (nat s0) ((?A @ ?B) @ ?C)"
        using s0 nn by (intro write_at_append) (simp_all add: nat_add_distrib)
      finally show ?thesis by (simp add: goal' s0_def)
    qed
  qed
qed

section \<open>A launch writes the slots of the whole batch\<close>

text \<open>A well-formed batch: one entry per request in each tensor, and no request shrinks.\<close>

definition batch_ok :: "int list \<Rightarrow> int list \<Rightarrow> bool" where
  "batch_ok pre_lens seq_lens \<longleftrightarrow> list_all2 (\<lambda>p s. 0 \<le> p \<and> p \<le> s) pre_lens seq_lens"

lemma batch_okD:
  assumes "batch_ok pre_lens seq_lens"
  shows "length pre_lens = length seq_lens"
    and "i < length seq_lens \<Longrightarrow> 0 \<le> pre_lens ! i" and "i < length seq_lens \<Longrightarrow> pre_lens ! i \<le> seq_lens ! i"
  using assms by (auto simp: batch_ok_def list_all2_conv_all_nth)

lemma length_extend_slots: "pre \<le> seq \<Longrightarrow> int (length (extend_slots ps pre seq loc pg)) = seq - pre"
  by (simp add: extend_slots_def)

lemma length_request_slots:
  assumes "batch_ok pre_lens seq_lens" and "i < length seq_lens"
  shows "int (length (request_slots ps pre_lens seq_lens ll fp i)) = seq_lens ! i - pre_lens ! i"
  using batch_okD[OF assms(1)] assms(2) by (simp add: request_slots_def length_extend_slots)

lemma out_start_length:
  assumes "batch_ok pre_lens seq_lens" and "i \<le> length seq_lens"
  shows "out_start pre_lens seq_lens i =
         int (length (concat (map (request_slots ps pre_lens seq_lens ll fp) [0..<i])))"
  using assms(2)
proof (induction i)
  case (Suc i)
  then have "i < length (map2 (-) seq_lens pre_lens)" using batch_okD(1)[OF assms(1)] by simp
  then show ?case
    using Suc length_request_slots[OF assms(1), of i ps ll fp]
    by (simp add: out_start_def take_Suc_conv_app_nth batch_okD(1)[OF assms(1)])
qed (simp add: out_start_def)

lemma length_concat_upt_mono:
  "i \<le> n \<Longrightarrow> length (concat (map B [0..<i])) \<le> length (concat (map B [0..<n]))"
proof -
  assume "i \<le> n"
  then have "[0..<n] = [0..<i] @ [i..<n]" using upt_add_eq_append[of 0 i "n - i"] by simp
  then show ?thesis by simp
qed

lemma fold_blocks:
  assumes step: "\<And>i out. i < n \<Longrightarrow> length out = length junk \<Longrightarrow>
      prog i out = write_at out (length (concat (map B [0..<i]))) (B i)"
    and fits: "length (concat (map B [0..<n])) \<le> length junk" and m: "m \<le> n"
  shows "fold prog [0..<m] junk = write_at junk 0 (concat (map B [0..<m]))"
  using m
proof (induction m)
  case (Suc m)
  let ?C = "concat (map B [0..<m])"
  have l: "length (?C @ B m) \<le> length junk"
    using length_concat_upt_mono[OF Suc.prems, of B] fits by simp
  then have w: "length (write_at junk 0 ?C) = length junk" by simp
  have "fold prog [0..<Suc m] junk = prog m (write_at junk 0 ?C)" using Suc by simp
  also have "\<dots> = write_at (write_at junk 0 ?C) (length ?C) (B m)"
    using Suc.prems by (intro step) (simp_all only: w Suc_le_eq)
  also have "\<dots> = write_at junk 0 (?C @ B m)" using l by (intro write_at_append) simp_all
  finally show ?case by simp
qed simp

lemma write_at_all: "length vs = length xs \<Longrightarrow> write_at xs 0 vs = vs"
  by (simp add: write_at_def)

lemma out_start_fits:
  assumes b: "batch_ok pre_lens seq_lens" and i: "i < length seq_lens"
    and t: "sum_list (map2 (-) seq_lens pre_lens) \<le> int L"
  shows "0 \<le> out_start pre_lens seq_lens i"
    and "out_start pre_lens seq_lens i + (seq_lens ! i - pre_lens ! i) \<le> int L"
proof -
  let ?B = "request_slots 1 pre_lens seq_lens [] []"
  show "0 \<le> out_start pre_lens seq_lens i"
    using out_start_length[OF b, of i 1 "[]" "[]"] i by simp
  have "out_start pre_lens seq_lens (Suc i) \<le> out_start pre_lens seq_lens (length seq_lens)"
    using out_start_length[OF b, of "Suc i" 1 "[]" "[]"] i
      out_start_length[OF b, of "length seq_lens" 1 "[]" "[]"]
      length_concat_upt_mono[of "Suc i" "length seq_lens" ?B] by simp
  also have "out_start pre_lens seq_lens (length seq_lens) \<le> int L"
    using t batch_okD(1)[OF b] by (simp add: out_start_def)
  also have "out_start pre_lens seq_lens (Suc i) = out_start pre_lens seq_lens i + (seq_lens ! i - pre_lens ! i)"
    using i batch_okD(1)[OF b] by (simp add: out_start_def take_Suc_conv_app_nth)
  finally show "out_start pre_lens seq_lens i + (seq_lens ! i - pre_lens ! i) \<le> int L" by simp
qed

lemma launch_extend:
  assumes ps: "0 < ps" and b: "batch_ok pre_lens seq_lens"
    and total: "sum_list (map2 (-) seq_lens pre_lens) = int (length junk)"
  shows "launch (length pre_lens) (alloc_extend_kernel pre_lens seq_lens last_locs free_page ps) junk =
         batch_slots ps pre_lens seq_lens last_locs free_page"
proof -
  let ?B = "request_slots ps pre_lens seq_lens last_locs free_page"
  let ?n = "length seq_lens"
  have len: "length pre_lens = ?n" using batch_okD(1)[OF b] .
  have L: "length (concat (map ?B [0..<?n])) = length junk"
    using out_start_length[OF b, of ?n ps last_locs free_page] total len by (simp add: out_start_def)
  have "launch (length pre_lens) (alloc_extend_kernel pre_lens seq_lens last_locs free_page ps) junk =
      write_at junk 0 (concat (map ?B [0..<?n]))"
    unfolding launch_def len
  proof (rule fold_blocks[where n = ?n])
    fix i and out :: "int list" assume i: "i < ?n" and lo: "length out = length junk"
    show "alloc_extend_kernel pre_lens seq_lens last_locs free_page ps i out =
        write_at out (length (concat (map ?B [0..<i]))) (?B i)"
      using kernel_program[OF ps len i, of out last_locs free_page] batch_okD(2,3)[OF b i]
        out_start_fits[OF b i, of "length junk"] total lo
        out_start_length[OF b, of i ps last_locs free_page] i by simp
  qed (simp_all add: L)
  then show ?thesis by (simp add: batch_slots_def len L write_at_all)
qed

section \<open>The tensor routine computes the same slots\<close>

lemma length_cumsum_from: "length (cumsum_from acc xs) = length xs"
  by (induction xs arbitrary: acc) simp_all

lemma cumsum_from_nth: "i < length xs \<Longrightarrow> cumsum_from acc xs ! i = acc + sum_list (take (Suc i) xs)"
proof (induction xs arbitrary: acc i)
  case (Cons x xs)
  then show ?case by (cases i) (simp_all add: add.assoc)
qed simp

lemma length_cumsum [simp]: "length (cumsum xs) = length xs"
  by (simp add: cumsum_def length_cumsum_from)

lemma cumsum_nth: "i < length xs \<Longrightarrow> cumsum xs ! i = sum_list (take i xs) + xs ! i"
  by (simp add: cumsum_def cumsum_from_nth take_Suc_conv_app_nth)

lemma assign_slice_block:
  assumes "0 \<le> a" and "a \<le> b" and "b \<le> int (length out)" and "int (length vs) = b - a"
  shows "assign_slice out a b vs = Inr (write_at out (nat a) vs)"
proof -
  have "length (slice out a b) = length vs" using assms by (simp add: slice_nonneg)
  then show ?thesis using assms by (simp add: assign_slice_def Let_def py_bound_nonneg)
qed

lemma concat_pages_map:
  assumes ps: "0 < ps"
  shows "concat (map (\<lambda>p. map (\<lambda>off. p * ps + off) [0..ps - 1]) pages) =
         map (\<lambda>off. pages ! nat (off div ps) * ps + off mod ps) [0..int (length pages) * ps - 1]"
proof (induction pages rule: rev_induct)
  case (snoc p pages)
  let ?n = "int (length pages) * ps"
  let ?f = "\<lambda>off. (pages @ [p]) ! nat (off div ps) * ps + off mod ps"
  have eq: "[0..int (length (pages @ [p])) * ps - 1] = [0..?n - 1] @ [?n..int (length (pages @ [p])) * ps - 1]"
    using ps by (intro upto_append) (simp_all add: algebra_simps)
  have m1: "map ?f [0..?n - 1] = map (\<lambda>off. pages ! nat (off div ps) * ps + off mod ps) [0..?n - 1]"
  proof (rule map_cong[OF refl])
    fix off assume "off \<in> set [0..?n - 1]"
    then have "0 \<le> off" "off < ?n" by simp_all
    have "off div ps * ps \<le> off"
      using pos_mod_sign[OF ps, of off] by (simp add: minus_mod_eq_div_mult[symmetric])
    then have "off div ps * ps < int (length pages) * ps" using \<open>off < ?n\<close> by linarith
    then have "off div ps < int (length pages)" using ps by (simp add: mult_less_cancel_right)
    moreover have "0 \<le> off div ps" using \<open>0 \<le> off\<close> ps by (simp add: pos_imp_zdiv_nonneg_iff)
    ultimately have "nat (off div ps) < length pages" by linarith
    then show "?f off = pages ! nat (off div ps) * ps + off mod ps" by (simp add: nth_append)
  qed
  have m2: "map ?f [?n..int (length (pages @ [p])) * ps - 1] = map (\<lambda>off. p * ps + off) [0..ps - 1]"
  proof -
    have "int (length (pages @ [p])) * ps - ?n = ps" by (simp add: algebra_simps)
    then show ?thesis by (subst map_upto_shift) (use ps in \<open>auto simp: nth_append div_pos_pos_trivial\<close>)
  qed
  show ?case by (simp only: eq map_append m1 m2 snoc concat_append list.map concat.simps append_Nil2)
qed simp

lemma page_start_Suc:
  assumes "length pre_lens = length seq_lens" and "i < length seq_lens"
  shows "page_start ps pre_lens seq_lens (Suc i) =
         page_start ps pre_lens seq_lens i + new_pages ps (pre_lens ! i) (seq_lens ! i)"
  using assms by (simp add: page_start_def take_Suc_conv_app_nth)

lemma ceil_div_mono: "0 < ps \<Longrightarrow> x \<le> y \<Longrightarrow> ceil_div x ps \<le> ceil_div y ps"
  unfolding ceil_div_def by (intro zdiv_mono1) simp_all

lemma page_start_mono:
  assumes ps: "0 < ps" and b: "batch_ok pre_lens seq_lens" and "i \<le> j" and "j \<le> length seq_lens"
  shows "page_start ps pre_lens seq_lens i \<le> page_start ps pre_lens seq_lens j"
  using assms(3,4)
proof (induction j rule: dec_induct)
  case (step j)
  then show ?case
    using page_start_Suc[OF batch_okD(1)[OF b], of j ps] batch_okD(3)[OF b, of j]
      ceil_div_mono[OF ps, of "pre_lens ! j" "seq_lens ! j"] by (simp add: new_pages_def)
qed simp

lemma ceil_div_Suc: "0 < ps \<Longrightarrow> ceil_div x ps = (if x mod ps = 0 then x div ps else x div ps + 1)"
proof -
  assume ps: "0 < ps"
  have x: "x = ps * (x div ps) + x mod ps" by simp
  show ?thesis
  proof (cases "x mod ps = 0")
    case True
    have "x + ps - 1 = ps * (x div ps) + (ps - 1)" using True x by linarith
    then have "ceil_div x ps = x div ps" unfolding ceil_div_def
      by (rule int_div_pos_eq) (use ps in simp_all)
    with True show ?thesis by simp
  next
    case False
    then have r: "0 \<le> x mod ps - 1" "x mod ps - 1 < ps"
      using pos_mod_sign[OF ps, of x] pos_mod_bound[OF ps, of x] by linarith+
    have "x + ps - 1 = ps * (x div ps + 1) + (x mod ps - 1)" by (simp add: distrib_left)
    then have "ceil_div x ps = x div ps + 1" unfolding ceil_div_def
      by (rule int_div_pos_eq) (use r in simp_all)
    with False show ?thesis by simp
  qed
qed

lemma slice_nth_map: "slice fp a b = map (\<lambda>k. fp ! nat k) [a..b - 1]"
  if "0 \<le> a" "a \<le> b" "b \<le> int (length fp)" for fp :: "int list"
proof (rule nth_equalityI)
  show "length (slice fp a b) = length (map (\<lambda>k. fp ! nat k) [a..b - 1])"
    using that by (simp add: slice_nonneg nat_diff_distrib)
  fix i assume "i < length (slice fp a b)"
  then show "slice fp a b ! i = map (\<lambda>k. fp ! nat k) [a..b - 1] ! i"
    using that nth_upto[of a i "b - 1"] by (simp add: slice_nonneg nat_add_distrib)
qed

lemma slice_to_upto: "0 \<le> n \<Longrightarrow> n \<le> ps \<Longrightarrow> slice_to [0..ps - 1] n = [0..n - 1]"
  using upto_append[of 0 n ps] by (simp add: slice_to_nonneg)

lemma naive_request_ok:
  assumes ps: "0 < ps" and b: "batch_ok pre_lens seq_lens" and i: "i < length seq_lens"
    and st: "0 \<le> out_start pre_lens seq_lens i"
      "out_start pre_lens seq_lens i + (seq_lens ! i - pre_lens ! i) \<le> int (length out)"
    and pages: "page_start ps pre_lens seq_lens (Suc i) \<le> int (length fp)"
  shows "naive_request pre_lens seq_lens ll fp ps i out =
    Inr (write_at out (nat (out_start pre_lens seq_lens i))
          (request_slots ps pre_lens seq_lens ll fp i))"
proof -
  have len: "length pre_lens = length seq_lens" using batch_okD(1)[OF b] .
  define pr se lo where v: "pr = pre_lens ! i" "se = seq_lens ! i" "lo = ll ! i"
  define s0 where "s0 = out_start pre_lens seq_lens i"
  define p0 where "p0 = page_start ps pre_lens seq_lens i"
  define c q where cq: "c = ceil_div pr ps * ps" "q = se div ps * ps"
  have pre: "0 \<le> pr" "pr \<le> se" using batch_okD(2,3)[OF b i] by (simp_all add: v)
  have p0: "0 \<le> p0" "p0 + (ceil_div se ps - ceil_div pr ps) \<le> int (length fp)"
    using page_start_mono[OF ps b, of 0 i] i pages page_start_Suc[OF len i, of ps]
    by (simp_all add: p0_def v new_pages_def page_start_def)
  have m1: "map2 (\<lambda>s p. ceil_div s ps - ceil_div p ps) seq_lens pre_lens = map2 (new_pages ps) pre_lens seq_lens"
    using len by (intro nth_equalityI) (simp_all add: new_pages_def)
  define np where "np = map2 (new_pages ps) pre_lens seq_lens"
  define ext where "ext = map2 (-) seq_lens pre_lens"
  have e: "cumsum ext ! i = s0 + (se - pr)" "map2 (-) (cumsum ext) ext ! i = s0"
    "cumsum np ! i = p0 + (ceil_div se ps - ceil_div pr ps)" "map2 (-) (cumsum np) np ! i = p0"
    "map2 (-) np (map2 (\<lambda>s p. s div ps - ceil_div p ps) seq_lens pre_lens) ! i =
       (ceil_div se ps - ceil_div pr ps) - (se div ps - ceil_div pr ps)"
    using i len by (simp_all add: cumsum_nth s0_def out_start_def v p0_def page_start_def
        new_pages_def np_def ext_def)
  have K: "naive_request pre_lens seq_lens ll fp ps i out =
    (let n1 = min se c - pr
     in case (if n1 \<noteq> 0 then assign_slice out s0 (s0 + n1)
                               (map (\<lambda>off. lo + 1 + off) (slice_to [0..ps - 1] n1))
              else Inr out) of
          Inl e \<Rightarrow> Inl e
        | Inr out1 \<Rightarrow>
            if pr + n1 = se then Inr out1
            else let n2 = (se div ps - ceil_div pr ps) * ps
                 in case (if n2 \<noteq> 0 then assign_slice out1 (s0 + n1) (s0 + n1 + n2)
                             (concat (map (\<lambda>p. map (\<lambda>off. p * ps + off) [0..ps - 1])
                               (slice fp p0 (p0 + (ceil_div se ps - ceil_div pr ps) -
                                  ((ceil_div se ps - ceil_div pr ps) - (se div ps - ceil_div pr ps))))))
                          else Inr out1) of
                      Inl e \<Rightarrow> Inl e
                    | Inr out2 \<Rightarrow>
                        if pr + n1 + n2 = se then Inr out2
                        else if se - q \<noteq> 0
                             then assign_slice out2 (s0 + (se - pr) - (se - q)) (s0 + (se - pr))
                                    (map (\<lambda>off. fp ! nat (p0 + (ceil_div se ps - ceil_div pr ps) - 1) * ps + off)
                                       (slice_to [0..ps - 1] (se - q)))
                             else Inr out2)"
    unfolding naive_request_def Let_def ceil_div_def[symmetric] m1 np_def[symmetric] ext_def[symmetric]
      e v[symmetric] cq[symmetric] by (rule refl)
  have pc: "pr \<le> c" "c < pr + ps" using ceil_div_bounds[OF ps, of pr] by (simp_all add: cq)
  let ?page = "\<lambda>k. fp ! nat (p0 + k)"
  have goal: "request_slots ps pre_lens seq_lens ll fp i = extend_slots ps pr se lo ?page"
    by (simp add: request_slots_def v p0_def)
  have write0: "0 \<le> a \<Longrightarrow> a + n \<le> int (length out') \<Longrightarrow> 0 \<le> n \<Longrightarrow> length vs = nat n \<Longrightarrow>
      (if n \<noteq> 0 then assign_slice out' a (a + n) vs else Inr out') = Inr (write_at out' (nat a) vs)"
    for a n out' vs
    by (auto intro!: assign_slice_block)
  show ?thesis
  proof (cases "se \<le> c")
    case True
    have sl: "slice_to [0..ps - 1] (se - pr) = [0..(se - pr) - 1]"
      using True pre pc by (intro slice_to_upto) simp_all
    have n1: "min se c - pr = se - pr" and eq: "(pr + (se - pr) = se) = True" using True by simp_all
    have W: "(if se - pr \<noteq> 0 then assign_slice out s0 (s0 + (se - pr)) (map (\<lambda>off. lo + 1 + off) [0..se - pr - 1])
              else Inr out) = Inr (write_at out (nat s0) (map (\<lambda>off. lo + 1 + off) [0..se - pr - 1]))"
      using pre st by (intro write0) (simp_all add: v s0_def)
    have "naive_request pre_lens seq_lens ll fp ps i out =
        Inr (write_at out (nat s0) (map (\<lambda>off. lo + 1 + off) [0..(se - pr) - 1]))"
      by (simp only: K Let_def n1 sl W sum.case eq if_True)
    then show ?thesis
      using extend_slots_old_page[of pr se ps lo ?page] True pre goal by (simp add: v cq s0_def)
  next
    case False
    define n1 n2 n3 where ns: "n1 = c - pr" "n2 = q - c" "n3 = se - q"
    let ?A = "map (\<lambda>off. lo + 1 + off) [0..n1 - 1]"
    let ?B = "map (\<lambda>off. ?page (off div ps) * ps + off mod ps) [0..n2 - 1]"
    let ?C = "map (\<lambda>off. ?page (se div ps - ceil_div pr ps) * ps + off) [0..n3 - 1]"
    have le: "pr \<le> se" "c \<le> se" using pre False by simp_all
    note split = extend_slots_split(1)[OF ps le(1) cq(1) le(2) cq(2)]
      extend_slots_split(2)[OF ps le(1) cq(1) le(2) cq(2), of lo ?page]
    have qs: "q \<le> se" "se - q < ps"
      using ps by (simp_all add: cq minus_mod_eq_div_mult[symmetric] minus_div_mult_eq_mod)
    have nn: "0 \<le> n1" "n1 \<le> ps" "0 \<le> n2" "0 \<le> n3" "n3 \<le> ps" "n1 + n2 + n3 = se - pr"
      using pc qs split(1) by (simp_all add: ns)
    have s0: "0 \<le> s0" "s0 + (n1 + n2 + n3) \<le> int (length out)"
      using st nn by (simp_all add: s0_def v)
    have k: "0 \<le> se div ps - ceil_div pr ps" using split(1) ps by (simp add: cq)
    have n1: "min se c - pr = n1" and ne: "(pr + n1 = se) = False" using le False by (simp_all add: ns)
    have n2: "(se div ps - ceil_div pr ps) * ps = n2" by (simp add: ns cq algebra_simps)
    have cse: "se div ps \<le> ceil_div se ps" using ceil_div_Suc[OF ps, of se] by (simp split: if_splits)
    have sl: "slice_to [0..ps - 1] n1 = [0..n1 - 1]" "slice_to [0..ps - 1] n3 = [0..n3 - 1]"
      using nn by (simp_all add: slice_to_upto)
    have pidx: "p0 + (ceil_div se ps - ceil_div pr ps) -
        ((ceil_div se ps - ceil_div pr ps) - (se div ps - ceil_div pr ps)) = p0 + (se div ps - ceil_div pr ps)"
      by simp
    have SB: "concat (map (\<lambda>p. map (\<lambda>off. p * ps + off) [0..ps - 1])
          (slice fp p0 (p0 + (se div ps - ceil_div pr ps)))) = ?B"
    proof -
      let ?P = "slice fp p0 (p0 + (se div ps - ceil_div pr ps))"
      have P: "?P = map (\<lambda>k. fp ! nat k) [p0..p0 + (se div ps - ceil_div pr ps) - 1]"
        using p0 k cse by (intro slice_nth_map) simp_all
      have "int (length ?P) * ps = n2" using k n2 by (simp add: P)
      moreover have "?P ! nat (off div ps) = ?page (off div ps)" if "off \<in> set [0..n2 - 1]" for off
      proof -
        have "0 \<le> off div ps" "off div ps * ps \<le> off"
          using that ps pos_mod_sign[OF ps, of off]
          by (simp_all add: pos_imp_zdiv_nonneg_iff minus_mod_eq_div_mult[symmetric])
        moreover from this(2) have "off div ps * ps < (se div ps - ceil_div pr ps) * ps"
          using that unfolding n2 by simp
        then have "off div ps < se div ps - ceil_div pr ps" using ps by (simp add: mult_less_cancel_right)
        ultimately show ?thesis by (simp add: P nth_upto)
      qed
      ultimately show ?thesis unfolding concat_pages_map[OF ps] by (intro map_cong) simp_all
    qed
    have W1: "(if n1 \<noteq> 0 then assign_slice out s0 (s0 + n1) ?A else Inr out) = Inr (write_at out (nat s0) ?A)"
      using nn s0 by (intro write0) simp_all
    have lA: "length (write_at out (nat s0) ?A) = length out" using s0 nn by simp
    have W2: "(if n2 \<noteq> 0 then assign_slice (write_at out (nat s0) ?A) (s0 + n1) (s0 + n1 + n2) ?B
               else Inr (write_at out (nat s0) ?A)) = Inr (write_at out (nat s0) (?A @ ?B))"
    proof -
      have "write_at (write_at out (nat s0) ?A) (nat (s0 + n1)) ?B = write_at out (nat s0) (?A @ ?B)"
        using s0 nn by (intro write_at_append) (simp_all add: nat_add_distrib)
      then show ?thesis using write0[of "s0 + n1" n2 "write_at out (nat s0) ?A" ?B] s0 nn
        by (simp only: lA) simp
    qed
    have lAB: "length (write_at out (nat s0) (?A @ ?B)) = length out" using s0 nn by simp
    have goal': "request_slots ps pre_lens seq_lens ll fp i = ?A @ ?B @ ?C"
      unfolding goal split(2) ns by (rule refl)
    show ?thesis
    proof (cases "n3 = 0")
      case True
      then have eq: "(pr + n1 + n2 = se) = True" using nn by simp
      have "naive_request pre_lens seq_lens ll fp ps i out = Inr (write_at out (nat s0) (?A @ ?B))"
        by (simp only: K Let_def n1 n2 pidx sl SB W1 W2 sum.case eq ne if_True if_False)
      moreover have "?C = []" using True by simp
      ultimately show ?thesis by (simp only: goal' s0_def append_Nil2)
    next
      case F3: False
      then have eq: "(pr + n1 + n2 = se) = False" using nn by simp
      have "se mod ps \<noteq> 0" using F3 by (simp add: ns cq minus_div_mult_eq_mod)
      then have page: "p0 + (ceil_div se ps - ceil_div pr ps) - 1 = p0 + (se div ps - ceil_div pr ps)"
        using ceil_div_Suc[OF ps, of se] by simp
      have n3: "s0 + n1 + n2 + n3 - n3 = s0 + n1 + n2" "s0 + (se - pr) = s0 + n1 + n2 + n3" using nn by simp_all
      have W3: "(if n3 \<noteq> 0 then assign_slice (write_at out (nat s0) (?A @ ?B)) (s0 + n1 + n2) (s0 + n1 + n2 + n3) ?C
               else Inr (write_at out (nat s0) (?A @ ?B))) = Inr (write_at out (nat s0) (?A @ ?B @ ?C))"
      proof -
        have "write_at (write_at out (nat s0) (?A @ ?B)) (nat (s0 + n1 + n2)) ?C = write_at out (nat s0) ((?A @ ?B) @ ?C)"
          using s0 nn by (intro write_at_append) (simp_all add: nat_add_distrib)
        then show ?thesis using write0[of "s0 + n1 + n2" n3 "write_at out (nat s0) (?A @ ?B)" ?C] s0 nn
          by (simp only: lAB) simp
      qed
      have "naive_request pre_lens seq_lens ll fp ps i out = Inr (write_at out (nat s0) (?A @ ?B @ ?C))"
        by (simp only: K Let_def n1 n2 ns(3)[symmetric] n3 pidx page sl SB W1 W2 W3 sum.case eq ne if_False)
      then show ?thesis by (simp only: goal' s0_def)
    qed
  qed
qed

lemma fold_blocks_error:
  assumes step: "\<And>i out. i < n \<Longrightarrow> length out = length junk \<Longrightarrow>
      prog i out = Inr (write_at out (length (concat (map B [0..<i]))) (B i))"
    and fits: "length (concat (map B [0..<n])) \<le> length junk" and m: "m \<le> n"
  shows "fold (\<lambda>i r. bind_error r (prog i)) [0..<m] (Inr junk) =
         Inr (write_at junk 0 (concat (map B [0..<m])))"
  using m
proof (induction m)
  case (Suc m)
  let ?C = "concat (map B [0..<m])"
  have l: "length (?C @ B m) \<le> length junk"
    using length_concat_upt_mono[OF Suc.prems, of B] fits by simp
  then have w: "length (write_at junk 0 ?C) = length junk" by simp
  have "fold (\<lambda>i r. bind_error r (prog i)) [0..<Suc m] (Inr junk) = prog m (write_at junk 0 ?C)"
    using Suc by simp
  also have "\<dots> = Inr (write_at (write_at junk 0 ?C) (length ?C) (B m))"
    using Suc.prems by (intro step) (simp_all only: w Suc_le_eq)
  also have "\<dots> = Inr (write_at junk 0 (?C @ B m))" using l by (simp add: write_at_append)
  finally show ?case by simp
qed simp

lemma naive_batch:
  assumes ps: "0 < ps" and b: "batch_ok pre_lens seq_lens"
    and total: "sum_list (map2 (-) seq_lens pre_lens) = int (length junk)"
    and pages: "page_start ps pre_lens seq_lens (length seq_lens) \<le> int (length free_page)"
  shows "alloc_extend_naive pre_lens seq_lens last_locs free_page junk ps =
         Inr (batch_slots ps pre_lens seq_lens last_locs free_page)"
proof -
  let ?B = "request_slots ps pre_lens seq_lens last_locs free_page"
  let ?n = "length seq_lens"
  have len: "length pre_lens = ?n" using batch_okD(1)[OF b] .
  have L: "length (concat (map ?B [0..<?n])) = length junk"
    using out_start_length[OF b, of ?n ps last_locs free_page] total len by (simp add: out_start_def)
  have "alloc_extend_naive pre_lens seq_lens last_locs free_page junk ps =
      Inr (write_at junk 0 (concat (map ?B [0..<?n])))"
    unfolding alloc_extend_naive_def len
  proof (rule fold_blocks_error[where n = ?n])
    fix i and out :: "int list" assume i: "i < ?n" and lo: "length out = length junk"
    have "page_start ps pre_lens seq_lens (Suc i) \<le> int (length free_page)"
      using page_start_mono[OF ps b, of "Suc i" ?n] i pages by simp
    then show "naive_request pre_lens seq_lens last_locs free_page ps i out =
        Inr (write_at out (length (concat (map ?B [0..<i]))) (?B i))"
      using naive_request_ok[OF ps b i, of out free_page last_locs]
        out_start_fits[OF b i, of "length junk"] total lo
        out_start_length[OF b, of i ps last_locs free_page] i by simp
  qed (simp_all add: L)
  then show ?thesis by (simp add: batch_slots_def len L write_at_all)
qed

section \<open>Decoding: every request grows by one token\<close>

lemma new_pages_decode:
  assumes ps: "1 < ps"
  shows "new_pages ps (s - 1) s = (if s mod ps = 1 then 1 else 0)"
proof -
  have m: "0 \<le> s mod ps" "s mod ps < ps" using ps by simp_all
  have s: "s = ps * (s div ps) + s mod ps" by simp
  have c: "ceil_div (s - 1) ps = (s - 1 + ps - 1) div ps" by (simp add: ceil_div_def)
  show ?thesis
  proof (cases "s mod ps \<le> 1")
    case True
    have "s - 1 + ps - 1 = ps * (s div ps) + (ps - 2 + s mod ps)" using s by linarith
    then have "ceil_div (s - 1) ps = s div ps"
      unfolding c by (rule int_div_pos_eq) (use True m ps in linarith)+
    moreover have "s mod ps = 0 \<or> s mod ps = 1" using True m by linarith
    ultimately show ?thesis using ceil_div_Suc[of ps s] ps by (auto simp: new_pages_def)
  next
    case False
    have "s - 1 + ps - 1 = ps * (s div ps + 1) + (s mod ps - 2)" using s by (simp add: distrib_left)
    then have "ceil_div (s - 1) ps = s div ps + 1"
      unfolding c by (rule int_div_pos_eq) (use False m ps in linarith)+
    then show ?thesis using False m ceil_div_Suc[of ps s] ps by (simp add: new_pages_def)
  qed
qed

lemma batch_ok_decode: "\<forall>s \<in> set seq_lens. 1 \<le> s \<Longrightarrow> batch_ok (map (\<lambda>s. s - 1) seq_lens) seq_lens"
  unfolding batch_ok_def list_all2_map1 list_all2_same by force

lemma map2_map1: "map2 f (map g xs) xs = map (\<lambda>x. f (g x) x) xs"
  by (induction xs) simp_all

lemma request_slots_decode:
  assumes "i < length seq_lens"
  shows "request_slots ps (map (\<lambda>s. s - 1) seq_lens) seq_lens ll fp i =
    [token_slot ps (seq_lens ! i - 1) (ll ! i)
      (\<lambda>k. fp ! nat (page_start ps (map (\<lambda>s. s - 1) seq_lens) seq_lens i + k)) (seq_lens ! i - 1)]"
  using assms by (simp add: request_slots_def extend_slots_def)

lemma decode_old_page:
  assumes ps: "0 < ps"
  shows "ceil_div se ps - ceil_div (se - 1) ps = 0 \<longleftrightarrow> se - 1 < ceil_div (se - 1) ps * ps"
proof
  assume "ceil_div se ps - ceil_div (se - 1) ps = 0"
  then show "se - 1 < ceil_div (se - 1) ps * ps" using ceil_div_bounds(1)[OF ps, of se] by simp
next
  assume *: "se - 1 < ceil_div (se - 1) ps * ps"
  have "ceil_div se ps * ps < (ceil_div (se - 1) ps + 1) * ps"
    using ceil_div_bounds(2)[OF ps, of se] * by (simp add: distrib_right)
  then have "ceil_div se ps \<le> ceil_div (se - 1) ps" using ps by (simp add: mult_less_cancel_right)
  then show "ceil_div se ps - ceil_div (se - 1) ps = 0"
    using ceil_div_mono[OF ps, of "se - 1" se] by simp
qed

lemma decode_program:
  assumes ps: "0 < ps" and i: "i < length seq_lens" "length out = length seq_lens"
  shows "alloc_decode_kernel seq_lens ll fp ps i out =
    write_at out i (request_slots ps (map (\<lambda>s. s - 1) seq_lens) seq_lens ll fp i)"
proof -
  define se where "se = seq_lens ! i"
  define p0 where "p0 = page_start ps (map (\<lambda>s. s - 1) seq_lens) seq_lens i"
  let ?np = "map (\<lambda>s. ceil_div s ps - ceil_div (s - 1) ps) seq_lens"
  have n: "tl_sum_upto ?np i - (ceil_div se ps - ceil_div (se - 1) ps) = p0"
    using tl_sum_upto_minus[of i ?np] i
    by (simp add: p0_def page_start_def map2_map1 new_pages_def se_def take_map)
  have w: "write_at out i [v] = out[i := v]" for v
    using i by (simp add: write_at_def upd_conv_take_nth_drop)
  have K: "alloc_decode_kernel seq_lens ll fp ps i out =
    (if ceil_div se ps - ceil_div (se - 1) ps = 0 then out[i := ll ! i + 1] else out[i := fp ! nat p0 * ps])"
    unfolding alloc_decode_kernel_def Let_def ceil_div_def[symmetric] se_def[symmetric] n by (rule refl)
  have le: "se - 1 \<le> ceil_div (se - 1) ps * ps" "ceil_div (se - 1) ps * ps < se - 1 + ps"
    using ceil_div_bounds[OF ps, of "se - 1"] by simp_all
  note eq = decode_old_page[OF ps, of se]
  have z: "(se - 1) div ps = ceil_div (se - 1) ps \<and> (se - 1) mod ps = 0" if "se - 1 = ceil_div (se - 1) ps * ps"
    using that ps by (metis mod_mult_self2_is_0 nonzero_mult_div_cancel_right order_less_irrefl)
  show ?thesis
    using le eq z unfolding request_slots_decode[OF i(1)] w K token_slot_def
    by (auto simp: se_def[symmetric] p0_def[symmetric])
qed

lemma launch_decode:
  assumes ps: "0 < ps" and l: "length junk = length seq_lens"
  shows "launch (length seq_lens) (alloc_decode_kernel seq_lens last_locs free_page ps) junk =
         batch_slots ps (map (\<lambda>s. s - 1) seq_lens) seq_lens last_locs free_page"
proof -
  let ?B = "request_slots ps (map (\<lambda>s. s - 1) seq_lens) seq_lens last_locs free_page"
  have L: "length (concat (map ?B [0..<i])) = i" if "i \<le> length seq_lens" for i
    using that by (induction i) (simp_all add: request_slots_decode)
  have "launch (length seq_lens) (alloc_decode_kernel seq_lens last_locs free_page ps) junk =
      write_at junk 0 (concat (map ?B [0..<length seq_lens]))"
    unfolding launch_def
    by (rule fold_blocks[where n = "length seq_lens"]) (simp_all add: L decode_program[OF ps] l)
  then show ?thesis by (simp add: batch_slots_def L l write_at_all)
qed

section \<open>Correctness of the batch operations\<close>

definition extend_threshold :: "allocator \<Rightarrow> int list \<Rightarrow> int \<Rightarrow> int" where
  "extend_threshold a pre_lens n = n div al_page_size a + int (length pre_lens) + 1"

lemma get_num_new_pages_extend:
  "length pre_lens = length seq_lens \<Longrightarrow> get_num_new_pages seq_lens ps (Some pre_lens) False =
     Inr (page_start ps pre_lens seq_lens (length seq_lens))"
proof -
  assume l: "length pre_lens = length seq_lens"
  have "map2 (\<lambda>s p. ceil_div s ps - ceil_div p ps) seq_lens pre_lens = map2 (new_pages ps) pre_lens seq_lens"
    using l by (intro nth_equalityI) (simp_all add: new_pages_def)
  then show ?thesis using l
    unfolding get_num_new_pages_def ceil_div_def[symmetric] by (simp add: page_start_def)
qed

lemma get_num_new_pages_decode:
  assumes "1 < ps"
  shows "get_num_new_pages seq_lens ps None True =
     Inr (page_start ps (map (\<lambda>s. s - 1) seq_lens) seq_lens (length seq_lens))"
  by (simp add: get_num_new_pages_def page_start_def map2_map1 new_pages_decode[OF assms])

lemma alloc_extend_result:
  assumes ps: "0 < al_page_size a" and nd: "\<not> al_debug_mode a" and b: "batch_ok pre_lens seq_lens"
    and t: "sum_list (map2 (-) seq_lens pre_lens) = int (length junk)"
  defines "m \<equiv> maybe_merge a (extend_threshold a pre_lens (int (length junk)))"
    and "n \<equiv> page_start (al_page_size a) pre_lens seq_lens (length seq_lens)"
  shows "alloc_extend a pre_lens seq_lens last_loc (int (length junk)) None junk =
    (if n > int (length (free_pages m)) then Inr (None, m)
     else Inr (Some (batch_slots (al_page_size a) pre_lens seq_lens last_loc (free_pages m)),
               m\<lparr>free_pages := slice_from (free_pages m) n\<rparr>))"
proof -
  have m: "(if al_need_sort a \<and> int (length junk) div al_page_size a + int (length pre_lens) + 1
             > int (length (free_pages a)) then merge_and_sort_free a else a) = m"
    by (simp add: m_def maybe_merge_def extend_threshold_def)
  have d: "al_debug_mode m = False" using nd by (simp add: m_def maybe_merge_def)
  show ?thesis
    unfolding alloc_extend_def Let_def m launch_extend[OF ps b t]
      get_num_new_pages_extend[OF batch_okD(1)[OF b]] d
    using nd by (simp add: n_def)
qed

lemma alloc_decode_result:
  assumes ps: "1 < al_page_size a" and nd: "\<not> al_debug_mode a" and l: "length junk = length seq_lens"
  defines "m \<equiv> maybe_merge a (int (length seq_lens))"
    and "n \<equiv> page_start (al_page_size a) (map (\<lambda>s. s - 1) seq_lens) seq_lens (length seq_lens)"
  shows "alloc_decode a seq_lens last_loc junk =
    (if n > int (length (free_pages m)) then Inr (None, m)
     else Inr (Some (batch_slots (al_page_size a) (map (\<lambda>s. s - 1) seq_lens) seq_lens last_loc (free_pages m)),
               m\<lparr>free_pages := slice_from (free_pages m) n\<rparr>))"
proof -
  have m: "(if al_need_sort a \<and> int (length seq_lens) > int (length (free_pages a))
            then merge_and_sort_free a else a) = m"
    by (simp add: m_def maybe_merge_def)
  have d: "al_debug_mode m = False" using nd by (simp add: m_def maybe_merge_def)
  have p: "0 < al_page_size a" using ps by simp
  show ?thesis
    unfolding alloc_decode_def Let_def m launch_decode[OF p l] get_num_new_pages_decode[OF ps] d
    using nd by (simp add: n_def)
qed

section \<open>The new slots are fresh and pairwise different\<close>

text \<open>
  \<open>token_page\<close>: the page of token \<open>j\<close>.  On the old page the slot is at the offset its position
  demands as soon as \<open>last_loc\<close> is (the assertion the debug mode makes).
\<close>

definition token_page :: "int \<Rightarrow> int \<Rightarrow> int \<Rightarrow> (int \<Rightarrow> int) \<Rightarrow> int \<Rightarrow> int" where
  "token_page ps pre loc page_at j =
     (if j < ceil_div pre ps * ps then loc div ps else page_at (j div ps - ceil_div pre ps))"

lemma token_slot_page:
  assumes ps: "0 < ps" and al: "(loc + 1) mod ps = pre mod ps" and j: "pre \<le> j"
  shows "token_slot ps pre loc page_at j = token_page ps pre loc page_at j * ps + j mod ps"
    and "j < ceil_div pre ps * ps \<Longrightarrow> j div ps = pre div ps \<and> 0 < pre mod ps"
proof -
  have old: "j div ps = pre div ps \<and> 0 < pre mod ps \<and> loc + 1 + (j - pre) = loc div ps * ps + j mod ps"
    if c: "j < ceil_div pre ps * ps"
  proof -
    have m: "0 < pre mod ps"
    proof (rule ccontr)
      assume "\<not> 0 < pre mod ps"
      then have "pre mod ps = 0" using pos_mod_sign[OF ps, of pre] by linarith
      then have "ceil_div pre ps * ps = pre" using ps by (auto simp: ceil_div_Suc)
      with c j show False by simp
    qed
    have p: "pre = ps * (pre div ps) + pre mod ps" by simp
    have "ceil_div pre ps * ps = ps * (pre div ps) + ps" using m ps by (simp add: ceil_div_Suc algebra_simps)
    then have r: "0 \<le> pre mod ps + (j - pre)" "pre mod ps + (j - pre) < ps"
      "j = ps * (pre div ps) + (pre mod ps + (j - pre))"
      using c j m p by linarith+
    have jd: "j div ps = pre div ps" using r(3,1,2) by (rule int_div_pos_eq)
    have jm: "j mod ps = pre mod ps + (j - pre)" using r(3,1,2) by (rule int_mod_pos_eq)
    have "loc = ps * ((loc + 1) div ps) + (pre mod ps - 1)"
      using al by (metis (no_types) add_diff_eq diff_add_cancel mult_div_mod_eq diff_add_eq add.commute)
    moreover have "0 \<le> pre mod ps - 1" "pre mod ps - 1 < ps" using m pos_mod_bound[OF ps, of pre] by linarith+
    ultimately have "loc div ps = (loc + 1) div ps" by (rule int_div_pos_eq)
    with \<open>loc = _\<close> have "loc = loc div ps * ps + (pre mod ps - 1)" by (simp add: mult.commute)
    with jd jm m show ?thesis by linarith
  qed
  show "token_slot ps pre loc page_at j = token_page ps pre loc page_at j * ps + j mod ps"
    using old by (auto simp: token_slot_def token_page_def)
  show "j < ceil_div pre ps * ps \<Longrightarrow> j div ps = pre div ps \<and> 0 < pre mod ps"
    using old by blast
qed

definition old_requests :: "int \<Rightarrow> int list \<Rightarrow> nat list" where
  "old_requests ps pre_lens = filter (\<lambda>i. 0 < pre_lens ! i mod ps) [0..<length pre_lens]"

definition old_pages :: "int \<Rightarrow> int list \<Rightarrow> int list \<Rightarrow> int list" where
  "old_pages ps pre_lens last_locs = map (\<lambda>i. last_locs ! i div ps) (old_requests ps pre_lens)"

definition last_aligned :: "int \<Rightarrow> int list \<Rightarrow> int list \<Rightarrow> bool" where
  "last_aligned ps pre_lens last_locs \<longleftrightarrow> list_all2 (\<lambda>l p. (l + 1) mod ps = p mod ps) last_locs pre_lens"

lemma request_token_cases:
  assumes ps: "0 < ps" and b: "batch_ok pre_lens seq_lens" and al: "last_aligned ps pre_lens last_locs"
    and i: "i < length seq_lens" and j: "pre_lens ! i \<le> j" "j < seq_lens ! i"
    and x: "x = token_slot ps (pre_lens ! i) (last_locs ! i)
               (\<lambda>k. fp ! nat (page_start ps pre_lens seq_lens i + k)) j"
  shows "x mod ps = j mod ps" and
    "(x div ps = last_locs ! i div ps \<and> j div ps = pre_lens ! i div ps \<and> i \<in> set (old_requests ps pre_lens))
     \<or> (\<exists>k. x div ps = fp ! nat k \<and> k = page_start ps pre_lens seq_lens i + (j div ps - ceil_div (pre_lens ! i) ps)
          \<and> page_start ps pre_lens seq_lens i \<le> k \<and> k < page_start ps pre_lens seq_lens (Suc i))"
proof -
  let ?pre = "pre_lens ! i" and ?p0 = "page_start ps pre_lens seq_lens i"
  have len: "length pre_lens = length seq_lens" using batch_okD(1)[OF b] .
  have a: "(last_locs ! i + 1) mod ps = ?pre mod ps"
    using al i len by (simp add: last_aligned_def list_all2_conv_all_nth)
  note tp = token_slot_page[OF ps a j(1)]
  have m: "0 \<le> j mod ps" "j mod ps < ps" using ps by simp_all
  have xx: "x = ps * token_page ps ?pre (last_locs ! i) (\<lambda>k. fp ! nat (?p0 + k)) j + j mod ps"
    unfolding x tp(1) by (simp add: mult.commute)
  have xd: "x div ps = token_page ps ?pre (last_locs ! i) (\<lambda>k. fp ! nat (?p0 + k)) j"
    using xx m by (rule int_div_pos_eq)
  show "x mod ps = j mod ps" using xx m by (rule int_mod_pos_eq)
  show "(x div ps = last_locs ! i div ps \<and> j div ps = ?pre div ps \<and> i \<in> set (old_requests ps pre_lens))
     \<or> (\<exists>k. x div ps = fp ! nat k \<and> k = ?p0 + (j div ps - ceil_div ?pre ps)
          \<and> ?p0 \<le> k \<and> k < page_start ps pre_lens seq_lens (Suc i))"
  proof (cases "j < ceil_div ?pre ps * ps")
    case True
    then show ?thesis using tp(2)[OF True] i len xd by (simp add: token_page_def old_requests_def)
  next
    case False
    then have "ceil_div ?pre ps * ps div ps \<le> j div ps" by (intro zdiv_mono1 ps) simp
    then have lo: "ceil_div ?pre ps \<le> j div ps" using ps by simp
    have "j div ps * ps \<le> j" using m by (simp add: minus_mod_eq_div_mult[symmetric])
    also have "j < ceil_div (seq_lens ! i) ps * ps" using j ceil_div_bounds(1)[OF ps, of "seq_lens ! i"] by simp
    finally have "j div ps < ceil_div (seq_lens ! i) ps" using ps by (simp add: mult_less_cancel_right)
    with lo False xd show ?thesis
      using page_start_Suc[OF len i, of ps] by (simp add: token_page_def new_pages_def)
  qed
qed

lemma distinct_concat_upt:
  assumes "\<And>i. i < n \<Longrightarrow> distinct (B i)"
    and "\<And>i k x. i < n \<Longrightarrow> k < i \<Longrightarrow> x \<in> set (B k) \<Longrightarrow> x \<in> set (B i) \<Longrightarrow> False"
  shows "distinct (concat (map B [0..<n]))"
  using assms
proof (induction n)
  case (Suc n)
  have "set (B k) \<inter> set (B n) = {}" if "k < n" for k
    using Suc.prems(2)[of n k] that by blast
  then have "set (concat (map B [0..<n])) \<inter> set (B n) = {}" by (auto simp: disjoint_iff)
  moreover have "distinct (concat (map B [0..<n]))"
    by (rule Suc.IH) (use Suc.prems less_SucI in blast)+
  ultimately show ?case using Suc.prems(1)[of n] by simp
qed simp

lemma old_page_inj:
  assumes "distinct (old_pages ps pre_lens last_locs)"
    and "i \<in> set (old_requests ps pre_lens)" and "k \<in> set (old_requests ps pre_lens)"
    and "last_locs ! i div ps = last_locs ! k div ps"
  shows "i = k"
  using assms by (auto simp: old_pages_def distinct_map inj_on_def)

lemma same_slot_same_token:
  assumes ps: "0 < ps" and b: "batch_ok pre_lens seq_lens" and al: "last_aligned ps pre_lens last_locs"
    and fp: "distinct fp" "page_start ps pre_lens seq_lens (length seq_lens) \<le> int (length fp)"
    and old: "distinct (old_pages ps pre_lens last_locs)"
      "set (old_pages ps pre_lens last_locs) \<inter> set fp = {}"
    and i: "i < length seq_lens" "pre_lens ! i \<le> j" "j < seq_lens ! i"
      "x = token_slot ps (pre_lens ! i) (last_locs ! i) (\<lambda>k. fp ! nat (page_start ps pre_lens seq_lens i + k)) j"
    and k: "k < length seq_lens" "pre_lens ! k \<le> l" "l < seq_lens ! k"
      "x = token_slot ps (pre_lens ! k) (last_locs ! k) (\<lambda>m. fp ! nat (page_start ps pre_lens seq_lens k + m)) l"
  shows "i = k \<and> j = l"
proof -
  let ?P = "page_start ps pre_lens seq_lens"
  note I = request_token_cases[OF ps b al i] and K = request_token_cases[OF ps b al k]
  have P0: "0 \<le> ?P m" if "m \<le> length seq_lens" for m
    using page_start_mono[OF ps b, of 0 m] that by (simp add: page_start_def)
  have lt: "nat n < length fp" if "?P m \<le> n" "n < ?P (Suc m)" "m < length seq_lens" for m n
    using that page_start_mono[OF ps b, of "Suc m" "length seq_lens"] fp(2) P0[of m] by simp
  have same: "i = k" if "?P i \<le> n" "n < ?P (Suc i)" "?P k \<le> n" "n < ?P (Suc k)" for n
  proof (rule ccontr)
    assume "i \<noteq> k"
    then have "Suc i \<le> k \<or> Suc k \<le> i" by linarith
    then show False
      using that page_start_mono[OF ps b, of "Suc i" k] page_start_mono[OF ps b, of "Suc k" i] i(1) k(1)
      by (auto simp: not_less)
  qed
  have oldfp: "last_locs ! m div ps \<noteq> fp ! n" if "m \<in> set (old_requests ps pre_lens)" "n < length fp" for m n
    using that old(2) by (auto simp: old_pages_def disjoint_iff) 
  have "i = k \<and> j div ps = l div ps"
    using I(2) K(2)
  proof (elim disjE exE conjE)
    assume "x div ps = last_locs ! i div ps" "j div ps = pre_lens ! i div ps" "i \<in> set (old_requests ps pre_lens)"
      "x div ps = last_locs ! k div ps" "l div ps = pre_lens ! k div ps" "k \<in> set (old_requests ps pre_lens)"
    then show ?thesis using old_page_inj[OF old(1), of i k] by simp
  next
    fix n n'
    assume *: "x div ps = fp ! nat n" "n = ?P i + (j div ps - ceil_div (pre_lens ! i) ps)" "?P i \<le> n" "n < ?P (Suc i)"
      "x div ps = fp ! nat n'" "n' = ?P k + (l div ps - ceil_div (pre_lens ! k) ps)" "?P k \<le> n'" "n' < ?P (Suc k)"
    then have "nat n = nat n'"
      using fp(1) lt[of i n] lt[of k n'] i(1) k(1) by (simp add: nth_eq_iff_index_eq)
    then have "n = n'" using *(3,7) P0[of i] P0[of k] i(1) k(1) by simp
    with * same[of n] show ?thesis by auto
  qed (use lt oldfp i(1) k(1) in \<open>metis\<close>)+
  moreover have "j mod ps = l mod ps" using I(1) K(1) by simp
  ultimately show ?thesis by (metis div_mult_mod_eq)
qed

lemma batch_slots_distinct:
  assumes ps: "0 < ps" and b: "batch_ok pre_lens seq_lens" and al: "last_aligned ps pre_lens last_locs"
    and fp: "distinct fp" "page_start ps pre_lens seq_lens (length seq_lens) \<le> int (length fp)"
    and old: "distinct (old_pages ps pre_lens last_locs)"
      "set (old_pages ps pre_lens last_locs) \<inter> set fp = {}"
  shows "distinct (batch_slots ps pre_lens seq_lens last_locs fp)"
    and "set (batch_slots ps pre_lens seq_lens last_locs fp) \<subseteq>
         slots_of ps (set (old_pages ps pre_lens last_locs) \<union>
                      set (take (nat (page_start ps pre_lens seq_lens (length seq_lens))) fp))"
proof -
  have len: "length pre_lens = length seq_lens" using batch_okD(1)[OF b] .
  let ?B = "request_slots ps pre_lens seq_lens last_locs fp"
  note same = same_slot_same_token[OF ps b al fp old]
  show "distinct (batch_slots ps pre_lens seq_lens last_locs fp)"
    unfolding batch_slots_def
  proof (rule distinct_concat_upt)
    fix i assume "i < length pre_lens"
    then show "distinct (?B i)"
      using same[of i _ _ i] len by (auto simp: request_slots_def extend_slots_def distinct_map intro!: inj_onI)
  next
    fix i k x
    assume ik: "i < length pre_lens" "k < i" and x: "x \<in> set (?B k)" "x \<in> set (?B i)"
    obtain j where j: "pre_lens ! k \<le> j" "j < seq_lens ! k"
      "x = token_slot ps (pre_lens ! k) (last_locs ! k) (\<lambda>m. fp ! nat (page_start ps pre_lens seq_lens k + m)) j"
      using x(1) by (auto simp: request_slots_def extend_slots_def)
    obtain l where l: "pre_lens ! i \<le> l" "l < seq_lens ! i"
      "x = token_slot ps (pre_lens ! i) (last_locs ! i) (\<lambda>m. fp ! nat (page_start ps pre_lens seq_lens i + m)) l"
      using x(2) by (auto simp: request_slots_def extend_slots_def)
    show False using same[OF _ j _ l] ik len by simp
  qed
  show "set (batch_slots ps pre_lens seq_lens last_locs fp) \<subseteq>
         slots_of ps (set (old_pages ps pre_lens last_locs) \<union>
                      set (take (nat (page_start ps pre_lens seq_lens (length seq_lens))) fp))"
  proof
    fix x assume "x \<in> set (batch_slots ps pre_lens seq_lens last_locs fp)"
    then obtain i j where ij: "i < length seq_lens" "pre_lens ! i \<le> j" "j < seq_lens ! i"
      "x = token_slot ps (pre_lens ! i) (last_locs ! i) (\<lambda>k. fp ! nat (page_start ps pre_lens seq_lens i + k)) j"
      using len by (auto simp: batch_slots_def request_slots_def extend_slots_def)
    have "x div ps \<in> set (take (nat (page_start ps pre_lens seq_lens (length seq_lens))) fp)"
      if "x div ps = fp ! nat k" "page_start ps pre_lens seq_lens i \<le> k" "k < page_start ps pre_lens seq_lens (Suc i)" for k
    proof -
      have "0 \<le> k" "k < page_start ps pre_lens seq_lens (length seq_lens)"
        using that page_start_mono[OF ps b, of 0 i] page_start_mono[OF ps b, of "Suc i" "length seq_lens"] ij(1)
        by (simp_all add: page_start_def)
      then show ?thesis using that(1) fp(2) by (auto simp: in_set_conv_nth intro!: exI[of _ "nat k"])
    qed
    then show "x \<in> slots_of ps (set (old_pages ps pre_lens last_locs) \<union>
                      set (take (nat (page_start ps pre_lens seq_lens (length seq_lens))) fp))"
      using request_token_cases(2)[OF ps b al ij] by (auto simp: slots_of_def old_pages_def)
  qed
qed

section \<open>Properties of the batch operations\<close>

text \<open>C9: The Triton kernel (one program per request, each writing its part of the output in up to
  three stores) and the tensor routine \<open>alloc_extend_naive\<close> compute the same slots, whatever the
  output tensor held before, for every batch the free list has pages for.\<close>

theorem naive_equals_kernel:
  assumes "0 < ps" and "batch_ok pre_lens seq_lens"
    and "sum_list (map2 (-) seq_lens pre_lens) = int (length junk)"
    and "get_num_new_pages seq_lens ps (Some pre_lens) False = Inr n" and "n \<le> int (length free_page)"
  shows "alloc_extend_naive pre_lens seq_lens last_locs free_page junk ps =
     Inr (launch (length pre_lens) (alloc_extend_kernel pre_lens seq_lens last_locs free_page ps) junk)"
  using assms get_num_new_pages_extend[OF batch_okD(1)[OF assms(2)], of ps]
  by (simp add: launch_extend naive_batch)

lemma naive_equals_kernel_witness:
  "alloc_extend_naive [2, 0] [9, 3] [5, 0] [7, 8, 9] (replicate 10 (-1)) 4 =
     Inr (launch 2 (alloc_extend_kernel [2, 0] [9, 3] [5, 0] [7, 8, 9] 4) (replicate 10 (-1)))"
  using naive_equals_kernel[of 4 "[2, 0]" "[9, 3]" "replicate 10 (-1)" 3 "[7, 8, 9]" "[5, 0]"]
  by (simp add: batch_ok_def get_num_new_pages_def numeral_2_eq_2)

lemma length_batch_slots:
  assumes "batch_ok pre_lens seq_lens"
  shows "int (length (batch_slots ps pre_lens seq_lens last_locs fp)) = sum_list (map2 (-) seq_lens pre_lens)"
  using out_start_length[OF assms, of "length seq_lens" ps last_locs fp] batch_okD(1)[OF assms]
  by (simp add: batch_slots_def out_start_def)

text \<open>The requests' old partial pages are held: no two requests share one, and none is free.\<close>

definition old_pages_held :: "allocator \<Rightarrow> int list \<Rightarrow> int list \<Rightarrow> bool" where
  "old_pages_held a pre_lens last_locs \<longleftrightarrow>
     distinct (old_pages (al_page_size a) pre_lens last_locs) \<and>
     set (old_pages (al_page_size a) pre_lens last_locs) \<inter> (set (free_pages a) \<union> set (release_pages a)) = {}"

text \<open>C10: \<open>alloc_extend\<close> never hands out a slot twice.  When the batch is well formed and the partial
  page of every request is its own, either too few pages are free, and the allocator offers the
  same slots as before, or the result holds one slot per new token, all different, each on the
  request's old page or on a page taken off the free list, and exactly those pages stop being free.\<close>

theorem alloc_extend_fresh:
  assumes i: "paged_inv sz ps a" and nd: "\<not> al_debug_mode a" and b: "batch_ok pre_lens seq_lens"
    and al: "last_aligned ps pre_lens last_locs" and old: "old_pages_held a pre_lens last_locs"
    and t: "sum_list (map2 (-) seq_lens pre_lens) = int (length junk)"
  shows "\<exists>r a'. alloc_extend a pre_lens seq_lens last_locs (int (length junk)) None junk = Inr (r, a') \<and>
    paged_inv sz ps a' \<and>
    (case r of None \<Rightarrow> paged_free_slots ps a' = paged_free_slots ps a
     | Some out \<Rightarrow> length out = length junk \<and> distinct out \<and>
         (\<exists>taken. set taken \<subseteq> set (free_pages a) \<union> set (release_pages a) \<and>
            set out \<subseteq> slots_of ps (set (old_pages ps pre_lens last_locs) \<union> set taken) \<and>
            int (length taken) = page_start ps pre_lens seq_lens (length seq_lens) \<and>
            paged_free_slots ps a' = paged_free_slots ps a - slots_of ps (set taken)))"
proof -
  define m where "m = maybe_merge a (extend_threshold a pre_lens (int (length junk)))"
  define n where "n = page_start ps pre_lens seq_lens (length seq_lens)"
  have ps: "0 < ps" "al_page_size a = ps" using i by (simp_all add: paged_inv_def)
  have m: "paged_inv sz ps m" "paged_free_slots ps m = paged_free_slots ps a"
    using i by (simp_all add: m_def paged_inv_merge paged_slots_merge)
  have mp: "set (free_pages m) \<union> set (release_pages m) = set (free_pages a) \<union> set (release_pages a)"
    using merge_facts(1)[of a] by (simp add: m_def maybe_merge_def)
  have n0: "0 \<le> n" using page_start_mono[OF ps(1) b, of 0 "length seq_lens"] by (simp add: n_def page_start_def)
  note res = alloc_extend_result[OF _ nd b t, of last_locs, unfolded ps(2), OF ps(1), folded m_def n_def]
  show ?thesis
  proof (cases "n > int (length (free_pages m))")
    case True
    then show ?thesis using res m by auto
  next
    case False
    define taken rest where "taken = take (nat n) (free_pages m)" and "rest = drop (nat n) (free_pages m)"
    let ?out = "batch_slots ps pre_lens seq_lens last_locs (free_pages m)"
    have d: "distinct (free_pages m @ release_pages m)" "set (free_pages m @ release_pages m) \<subseteq> {1..sz div ps}"
      using m(1) by (auto simp: paged_inv_def)
    note f = take_split_facts[OF d, of "nat n", folded taken_def rest_def]
    have o: "distinct (old_pages ps pre_lens last_locs)"
      "set (old_pages ps pre_lens last_locs) \<inter> set (free_pages m) = {}"
      using old mp by (auto simp: old_pages_held_def ps(2))
    have le: "page_start ps pre_lens seq_lens (length seq_lens) \<le> int (length (free_pages m))"
      using False by (simp add: n_def)
    have df: "distinct (free_pages m)" using d by simp
    note bs = batch_slots_distinct[OF ps(1) b al df le o, folded n_def taken_def]
    have "length ?out = length junk" using length_batch_slots[OF b, of ps last_locs "free_pages m"] t by simp
    moreover have "alloc_extend a pre_lens seq_lens last_locs (int (length junk)) None junk =
        Inr (Some ?out, m\<lparr>free_pages := rest\<rparr>)"
      using res False n0 by (simp add: rest_def slice_simps)
    moreover have "paged_inv sz ps (m\<lparr>free_pages := rest\<rparr>)"
      using m(1) f(2,3) by (simp add: paged_inv_def)
    moreover have "paged_free_slots ps (m\<lparr>free_pages := rest\<rparr>) = paged_free_slots ps a - slots_of ps (set taken)"
      using f(5) mp unfolding paged_free_slots_def slots_of_Diff[symmetric] by simp
    moreover have "set taken \<subseteq> set (free_pages a) \<union> set (release_pages a)" using f(4) mp by auto
    moreover have "int (length taken) = page_start ps pre_lens seq_lens (length seq_lens)"
      using False n0 by (simp add: taken_def n_def)
    ultimately show ?thesis using bs by auto
  qed
qed

definition demo_pool :: allocator where
  "demo_pool = (paged_init 20 4 True False)\<lparr>free_pages := [2, 3], release_pages := [5, 4]\<rparr>"

lemma alloc_extend_fresh_witness:
  "\<exists>r a'. alloc_extend demo_pool [2, 0] [9, 3] [5, -1] (int (length (replicate 10 (0::int)))) None (replicate 10 0) = Inr (r, a') \<and>
    paged_inv 20 4 a' \<and>
    (case r of None \<Rightarrow> paged_free_slots 4 a' = paged_free_slots 4 demo_pool
     | Some out \<Rightarrow> length out = length (replicate 10 (0::int)) \<and> distinct out \<and>
         (\<exists>taken. set taken \<subseteq> set (free_pages demo_pool) \<union> set (release_pages demo_pool) \<and>
            set out \<subseteq> slots_of 4 (set (old_pages 4 [2, 0] [5, -1]) \<union> set taken) \<and>
            int (length taken) = page_start 4 [2, 0] [9, 3] (length [9, 3 :: int]) \<and>
            paged_free_slots 4 a' = paged_free_slots 4 demo_pool - slots_of 4 (set taken)))"
  by (rule alloc_extend_fresh)
    (simp_all add: demo_pool_def paged_inv_def paged_init_def paged_clear_def batch_ok_def last_aligned_def
      old_pages_held_def old_pages_def old_requests_def upt_rec)

text \<open>C11: \<open>alloc_decode\<close> gives every request the slot of its next token: the slot after its last one
  while the old page has room, otherwise the first slot of a page of its own from the free list; it
  takes off the free list exactly as many pages as requests that start a page.\<close>

theorem alloc_decode_slots:
  assumes ps: "1 < al_page_size a" and nd: "\<not> al_debug_mode a" and l: "length junk = length seq_lens"
    and s: "\<forall>s \<in> set seq_lens. 1 \<le> s"
    and r: "alloc_decode a seq_lens last_locs junk = Inr (Some out, a')"
  defines "m \<equiv> maybe_merge a (int (length seq_lens))"
    and "starts \<equiv> \<lambda>i. length (filter (\<lambda>s. s mod al_page_size a = 1) (take i seq_lens))"
  shows "length out = length seq_lens \<and>
     (\<forall>i < length seq_lens. out ! i =
        (if seq_lens ! i mod al_page_size a = 1 then free_pages m ! starts i * al_page_size a
         else last_locs ! i + 1)) \<and>
     free_pages a' = drop (starts (length seq_lens)) (free_pages m)"
proof -
  let ?ps = "al_page_size a" and ?pre = "map (\<lambda>s. s - 1) seq_lens"
  have starts: "page_start ?ps ?pre seq_lens i = int (starts i)" for i
  proof -
    have "sum_list (map (\<lambda>s. if s mod ?ps = 1 then 1 else 0) xs) =
        int (length (filter (\<lambda>s. s mod ?ps = 1) xs))" for xs
      by (induction xs) auto
    then show ?thesis
      by (simp add: page_start_def starts_def map2_map1 new_pages_decode[OF ps] take_map)
  qed
  have out: "out = batch_slots ?ps ?pre seq_lens last_locs (free_pages m)"
    "a' = m\<lparr>free_pages := slice_from (free_pages m) (int (starts (length seq_lens)))\<rparr>"
    using r alloc_decode_result[OF ps nd l, of last_locs] starts
    by (auto simp: m_def[symmetric] split: if_splits)
  have seg: "request_slots ?ps ?pre seq_lens last_locs (free_pages m) i =
      [if seq_lens ! i mod ?ps = 1 then free_pages m ! starts i * ?ps else last_locs ! i + 1]"
    if i: "i < length seq_lens" for i
  proof -
    let ?s = "seq_lens ! i"
    have old: "?s - 1 < ceil_div (?s - 1) ?ps * ?ps \<longleftrightarrow> ?s mod ?ps \<noteq> 1"
      using decode_old_page[of ?ps ?s] new_pages_decode[OF ps, of ?s] ps by (simp add: new_pages_def split: if_splits)
    have first: "(?s - 1) div ?ps = ceil_div (?s - 1) ?ps \<and> (?s - 1) mod ?ps = 0" if "?s mod ?ps = 1"
      using that ps ceil_div_Suc[of ?ps "?s - 1"] by (simp add: mod_diff_left_eq[symmetric, of ?s])
    show ?thesis using old first by (auto simp: request_slots_decode[OF i] token_slot_def starts)
  qed
  have "out = map (\<lambda>i. if seq_lens ! i mod ?ps = 1 then free_pages m ! starts i * ?ps else last_locs ! i + 1)
      [0..<length seq_lens]"
    unfolding out(1) batch_slots_def length_map
    by (subst concat_map_singleton[symmetric], rule arg_cong[where f = concat], rule map_cong) (simp_all add: seg)
  then show ?thesis using out(2) by (simp add: slice_simps)
qed

lemma alloc_decode_slots_witness:
  "\<exists>a'. alloc_decode demo_pool [9, 6] [12, 9] [0, 0] = Inr (Some [8, 10], a') \<and> free_pages a' = [3]"
proof -
  have r: "alloc_decode demo_pool [9, 6] [12, 9] [0, 0] = Inr (Some [8, 10], demo_pool\<lparr>free_pages := [3]\<rparr>)"
    by code_simp
  have "free_pages (demo_pool\<lparr>free_pages := [3]\<rparr>) = drop 1 (free_pages (maybe_merge demo_pool 2))"
    using alloc_decode_slots[OF _ _ _ _ r]
    by (simp add: demo_pool_def paged_init_def paged_clear_def)
  then show ?thesis using r by simp
qed

end
