(* ===== verification/RadixKey.thy ===== *)
theory RadixKey
  imports Sgl_Prelude "HOL-Library.Sublist"
begin

text \<open>
  Keys of the radix cache (class \<open>RadixKey\<close> of \<open>srt/mem_cache/radix_cache.py\<close>).  A key is a sequence
  of token ids with an optional namespace; in the bigram view of speculative decoding its logical
  units are the pairs of neighbouring tokens.  \<open>units\<close> is the abstract sequence a key stands for,
  every unit tagged with the namespace; slicing, matching and the dictionary keys of children are
  proved to be the obvious operations on it.
\<close>

section \<open>The class\<close>

record radix_key =
  token_ids :: "int list"
  extra_key :: "string option"
  is_bigram :: bool

definition RadixKey :: "int list \<Rightarrow> string option \<Rightarrow> bool \<Rightarrow> radix_key" where
  "RadixKey toks ek big = \<lparr>token_ids = toks, extra_key = ek, is_bigram = big\<rparr>"

definition rk_len :: "radix_key \<Rightarrow> nat" where
  "rk_len k = (if is_bigram k
     then (let n = length (token_ids k) in if n > 0 then n - 1 else 0)
     else length (token_ids k))"

text \<open>What \<open>__iter__\<close> yields: the tokens, or the pairs of neighbours.\<close>

definition rk_iter :: "radix_key \<Rightarrow> int list list" where
  "rk_iter k = (let t = token_ids k in
     if is_bigram k then map (\<lambda>i. [t ! i, t ! (i + 1)]) [0..<length t - 1]
     else map (\<lambda>x. [x]) t)"

text \<open>The slice \<open>k[start:stop]\<close> after \<open>idx.indices\<close> has clipped the bounds to the length.\<close>

definition rk_slice_raw :: "radix_key \<Rightarrow> nat \<Rightarrow> nat \<Rightarrow> radix_key" where
  "rk_slice_raw k start stop =
     (if is_bigram k then
        (let raw = (if stop > start then drop start (take (stop + 1) (token_ids k)) else [])
         in RadixKey raw (extra_key k) True)
      else RadixKey (drop start (take stop (token_ids k))) (extra_key k) False)"

definition rk_slice :: "radix_key \<Rightarrow> int \<Rightarrow> int \<Rightarrow> radix_key" where
  "rk_slice k i j =
     (let clip = (\<lambda>b. if b < 0 then nat (max 0 (b + int (rk_len k))) else min (nat b) (rk_len k))
      in rk_slice_raw k (clip i) (clip j))"

definition rk_getitem :: "radix_key \<Rightarrow> int \<Rightarrow> radix_key option" where
  "rk_getitem k i =
     (let i = (if i < 0 then i + int (rk_len k) else i)
      in if i < 0 \<or> i \<ge> int (rk_len k) then None else Some (rk_slice k i (i + 1)))"

abbreviation rk_from :: "radix_key \<Rightarrow> nat \<Rightarrow> radix_key" where
  "rk_from k i \<equiv> rk_slice k (int i) (int (rk_len k))"

abbreviation rk_to :: "radix_key \<Rightarrow> nat \<Rightarrow> radix_key" where
  "rk_to k j \<equiv> rk_slice k 0 (int j)"

definition page_aligned :: "radix_key \<Rightarrow> nat \<Rightarrow> radix_key" where
  "page_aligned k page_size =
     (if page_size = 1 then k else rk_to k (rk_len k div page_size * page_size))"

definition maybe_to_bigram_view ::
  "radix_key \<Rightarrow> bool \<Rightarrow> int list option \<Rightarrow> radix_key \<times> int list option" where
  "maybe_to_bigram_view k is_eagle value =
     (if is_eagle \<and> \<not> is_bigram k then
        (let k = k\<lparr>is_bigram := True\<rparr> in (k, map_option (take (rk_len k)) value))
      else (k, value))"

text \<open>The \<open>zip\<close> loop: the number of leading positions at which both sequences agree.\<close>

fun zip_match :: "'a list \<Rightarrow> 'a list \<Rightarrow> nat" where
  "zip_match (a # t0) (b # t1) = (if a \<noteq> b then 0 else Suc (zip_match t0 t1))"
| "zip_match _ _ = 0"

text \<open>The page loop; a page size is at least 1 (with 0 the loop would not end).\<close>

function match_pages :: "nat \<Rightarrow> 'a list \<Rightarrow> 'a list \<Rightarrow> nat \<Rightarrow> nat \<Rightarrow> nat" where
  "match_pages page_size t0 t1 min_len i =
     (if i < min_len \<and> 0 < page_size then
        (if take page_size (drop i t0) \<noteq> take page_size (drop i t1) then i
         else match_pages page_size t0 t1 min_len (i + page_size))
      else i)"
  by pat_completeness auto
termination by (relation "measure (\<lambda>(ps, t0, t1, n, i). n - i)") auto

declare match_pages.simps [simp del]

text \<open>\<open>None\<close> is the \<open>ValueError\<close> of keys of different namespaces.\<close>

definition rk_match :: "radix_key \<Rightarrow> radix_key \<Rightarrow> nat \<Rightarrow> nat option" where
  "rk_match k other page_size =
     (if extra_key k \<noteq> extra_key other then None
      else
        let t0 = token_ids k; t1 = token_ids other
        in if is_bigram k then
             (let i = zip_match t0 t1;
                  matched = min (i - 1) (min (rk_len k) (rk_len other))
              in Some (if page_size > 1 then matched div page_size * page_size else matched))
           else if page_size = 1 then Some (zip_match t0 t1)
           else Some (match_pages page_size t0 t1 (min (rk_len k) (rk_len other)) 0))"

text \<open>
  The dictionary key of a child: a token, or a tuple of tokens or of pairs (a single pair is the
  tuple of its two tokens), under the namespace when there is one.
\<close>

datatype plain_key = Tok int | Toks "int list" | Pairs "(int \<times> int) list"

type_synonym ckey = "string option \<times> plain_key"

definition child_key :: "radix_key \<Rightarrow> nat \<Rightarrow> ckey option" where
  "child_key k page_size =
     (let t = token_ids k
      in if is_bigram k then
           (if page_size = 1 then
              (if length t < 2 then None else Some (extra_key k, Toks [t ! 0, t ! 1]))
            else if 0 < page_size \<and> length t < page_size + 1 then None
            else Some (extra_key k, Pairs (map (\<lambda>j. (t ! j, t ! (j + 1))) [0..<page_size])))
         else if page_size = 1 then
           (if t = [] then None else Some (extra_key k, Tok (t ! 0)))
         else Some (extra_key k, Toks (take page_size t)))"

section \<open>The abstract sequence of a key\<close>

type_synonym unit_id = "string option \<times> int list"

definition units :: "radix_key \<Rightarrow> unit_id list" where
  "units k = map (Pair (extra_key k)) (rk_iter k)"

lemma length_rk_iter: "length (rk_iter k) = rk_len k"
  by (simp add: rk_iter_def rk_len_def Let_def)

lemma length_units [simp]: "length (units k) = rk_len k"
  by (simp add: units_def length_rk_iter)

lemma rk_iter_bigram: "is_bigram k \<Longrightarrow> rk_iter k = map2 (\<lambda>a b. [a, b]) (token_ids k) (tl (token_ids k))"
  by (intro nth_equalityI) (auto simp: rk_iter_def Let_def nth_tl)

lemma rk_slice_nonneg:
  "rk_slice k (int i) (int j) = rk_slice_raw k (min i (rk_len k)) (min j (rk_len k))"
  by (simp add: rk_slice_def)

lemma slice_raw_fields [simp]:
  "extra_key (rk_slice_raw k i j) = extra_key k" "is_bigram (rk_slice_raw k i j) = is_bigram k"
  by (simp_all add: rk_slice_raw_def RadixKey_def Let_def)

lemma rk_iter_slice_raw:
  assumes "i \<le> j" "j \<le> rk_len k"
  shows "rk_iter (rk_slice_raw k i j) = drop i (take j (rk_iter k))"
proof (cases "is_bigram k")
  case True
  show ?thesis
  proof (cases "i < j")
    case ij: True
    then have "j + 1 \<le> length (token_ids k)" using assms True by (auto simp: rk_len_def Let_def split: if_splits)
    with True ij show ?thesis
      by (intro nth_equalityI) (auto simp: rk_iter_def rk_slice_raw_def RadixKey_def Let_def)
  next
    case False
    with assms True show ?thesis by (simp add: rk_iter_def rk_slice_raw_def RadixKey_def Let_def)
  qed
next
  case False
  then show ?thesis using assms
    by (simp add: rk_iter_def rk_slice_raw_def RadixKey_def Let_def take_map drop_map)
qed

lemma units_slice_raw:
  "i \<le> j \<Longrightarrow> j \<le> rk_len k \<Longrightarrow> units (rk_slice_raw k i j) = drop i (take j (units k))"
  by (simp add: units_def rk_iter_slice_raw take_map drop_map)

lemma slice_fields [simp]:
  "extra_key (rk_slice k i j) = extra_key k" "is_bigram (rk_slice k i j) = is_bigram k"
  by (simp_all add: rk_slice_def Let_def)

lemma units_from [simp]: "units (rk_from k i) = drop i (units k)"
  by (simp add: rk_slice_nonneg units_slice_raw min_def)

lemma units_to [simp]: "units (rk_to k j) = take j (units k)"
  using rk_slice_nonneg[of k 0 j] by (simp add: units_slice_raw min_def)

lemma rk_len_from [simp]: "rk_len (rk_from k i) = rk_len k - i"
  by (metis length_drop length_units units_from)

lemma rk_len_to [simp]: "rk_len (rk_to k j) = min j (rk_len k)"
  by (metis length_take length_units units_to min.commute)

lemma units_page_aligned:
  "0 < ps \<Longrightarrow> units (page_aligned k ps) = take (rk_len k div ps * ps) (units k)"
  by (simp add: page_aligned_def del: of_nat_mult)

lemma rk_len_page_aligned: "0 < ps \<Longrightarrow> rk_len (page_aligned k ps) = rk_len k div ps * ps"
  by (simp add: page_aligned_def min_def del: of_nat_mult)

lemma page_aligned_fields [simp]:
  "extra_key (page_aligned k ps) = extra_key k" "is_bigram (page_aligned k ps) = is_bigram k"
  by (simp_all add: page_aligned_def)

section \<open>Matching finds the common whole pages\<close>

lemma zip_match_iff:
  "n \<le> zip_match xs ys \<longleftrightarrow> n \<le> length xs \<and> n \<le> length ys \<and> take n xs = take n ys"
proof (induction xs ys arbitrary: n rule: zip_match.induct)
  case (1 a t0 b t1)
  then show ?case by (cases n) auto
qed auto

lemma zip_match_le: "zip_match xs ys \<le> length xs" "zip_match xs ys \<le> length ys"
  using zip_match_iff[of "zip_match xs ys" xs ys] by simp_all

lemma zip_match_take: "take (zip_match xs ys) xs = take (zip_match xs ys) ys"
  using zip_match_iff[of "zip_match xs ys" xs ys] by simp

lemma zip_match_map: "inj f \<Longrightarrow> zip_match (map f xs) (map f ys) = zip_match xs ys"
  by (induction xs ys rule: zip_match.induct) (auto dest: injD)

lemma zip_match_pairs:
  "zip_match (map2 (\<lambda>a b. [a, b]) t0 (tl t0)) (map2 (\<lambda>a b. [a, b]) t1 (tl t1)) = zip_match t0 t1 - 1"
proof (induction t0 t1 rule: zip_match.induct)
  case (1 a t0 b t1)
  then show ?case by (cases t0; cases t1) auto
qed auto

lemma zip_match_iter:
  assumes "is_bigram k = is_bigram other"
  shows "zip_match (rk_iter k) (rk_iter other) =
     (if is_bigram k then zip_match (token_ids k) (token_ids other) - 1
      else zip_match (token_ids k) (token_ids other))"
proof (cases "is_bigram k")
  case True
  then show ?thesis using assms by (simp add: rk_iter_bigram zip_match_pairs)
next
  case False
  have "inj (\<lambda>x::int. [x])" by (simp add: inj_on_def)
  from zip_match_map[OF this] False assms show ?thesis by (simp add: rk_iter_def)
qed

lemma zip_match_units:
  assumes "is_bigram k = is_bigram other" and "extra_key k = extra_key other"
  shows "zip_match (units k) (units other) = zip_match (rk_iter k) (rk_iter other)"
proof -
  have "inj (Pair (extra_key k))" by (simp add: inj_on_def)
  from zip_match_map[OF this] show ?thesis by (simp add: units_def assms(2))
qed

lemma take_add_eq:
  assumes "take i xs = take i ys" and "take n (drop i xs) = take n (drop i ys)"
  shows "take (i + n) xs = take (i + n) ys"
  using assms by (simp add: take_add)

lemma dvd_step: "d dvd n \<Longrightarrow> d dvd i \<Longrightarrow> i < n \<Longrightarrow> i + d \<le> n" for d n i :: nat
  using dvd_imp_le[of d "n - i"] dvd_diff_nat[of d n i] by simp

lemma match_pages_floor:
  assumes ps: "0 < ps" and d: "ps dvd length t0" "ps dvd length t1" and i: "ps dvd i" "i \<le> zip_match t0 t1"
  shows "match_pages ps t0 t1 (min (length t0) (length t1)) i = zip_match t0 t1 div ps * ps"
  using i
proof (induction "length t0 - i" arbitrary: i rule: less_induct)
  case less
  let ?z = "zip_match t0 t1" and ?n = "min (length t0) (length t1)"
  have ti: "take i t0 = take i t1" "i \<le> ?n" using zip_match_iff[of i t0 t1] less.prems(2) by simp_all
  have floor: "?z div ps * ps = i" if "?z < i + ps"
  proof -
    obtain q where q: "i = q * ps" using less.prems(1) by (metis dvdE mult.commute)
    have "q \<le> ?z div ps" using less.prems(2) q ps by (simp add: less_eq_div_iff_mult_less_eq)
    moreover have "?z div ps < Suc q" using that q ps by (simp add: div_less_iff_less_mult)
    ultimately show ?thesis using q by simp
  qed
  show ?case
  proof (cases "i < ?n")
    case True
    then have le: "i + ps \<le> ?n"
      using dvd_step[OF d(1) less.prems(1)] dvd_step[OF d(2) less.prems(1)] by simp
    show ?thesis
    proof (cases "take ps (drop i t0) = take ps (drop i t1)")
      case eq: True
      have "i + ps \<le> ?z" using zip_match_iff[of "i + ps" t0 t1] take_add_eq[OF ti(1) eq] le by simp
      moreover have "length t0 - (i + ps) < length t0 - i" using True ps by auto
      ultimately show ?thesis
        using less.hyps[of "i + ps"] True ps less.prems(1) eq by (subst match_pages.simps) simp
    next
      case ne: False
      have "\<not> i + ps \<le> ?z"
        using zip_match_iff[of "i + ps" t0 t1] ne by (auto simp: take_add ti(1) dest: arg_cong[where f = "drop i"])
      then show ?thesis using floor True ne ps by (subst match_pages.simps) simp
    qed
  next
    case False
    have "?z \<le> ?n" using zip_match_le[of t0 t1] by simp
    then have "?z < i + ps" using False ps by linarith
    then show ?thesis using floor False by (subst match_pages.simps) auto
  qed
qed

lemma rk_match_units:
  assumes ps: "0 < ps" and e: "extra_key k = extra_key other" and b: "is_bigram k = is_bigram other"
    and d: "ps dvd rk_len k" "ps dvd rk_len other"
  shows "rk_match k other ps = Some (zip_match (units k) (units other) div ps * ps)"
proof -
  let ?z = "zip_match (units k) (units other)"
  have z: "?z = (if is_bigram k then zip_match (token_ids k) (token_ids other) - 1
                 else zip_match (token_ids k) (token_ids other))"
    using zip_match_units[OF b e] zip_match_iter[OF b] by simp
  show ?thesis
  proof (cases "is_bigram k")
    case True
    have "?z \<le> rk_len k" "?z \<le> rk_len other" using zip_match_le[of "units k" "units other"] by simp_all
    then have m: "min (zip_match (token_ids k) (token_ids other) - 1) (min (rk_len k) (rk_len other)) = ?z"
      using z True by simp
    show ?thesis unfolding rk_match_def Let_def m using True e ps by (cases "ps = 1") auto
  next
    case False
    then have l: "rk_len k = length (token_ids k)" "rk_len other = length (token_ids other)"
      using b by (simp_all add: rk_len_def)
    show ?thesis
      using match_pages_floor[OF ps, of "token_ids k" "token_ids other" 0] False e d z
      by (simp add: rk_match_def l Let_def)
  qed
qed

section \<open>Dictionary keys stand for the first page\<close>

lemma take_units_eq_iff:
  assumes "0 < ps" and "ps \<le> rk_len k" and "ps \<le> rk_len l"
  shows "take ps (units k) = take ps (units l) \<longleftrightarrow>
    extra_key k = extra_key l \<and> take ps (rk_iter k) = take ps (rk_iter l)"
proof -
  have m: "map (Pair a) xs = map (Pair b) ys \<longleftrightarrow> a = b \<and> xs = ys" if "xs \<noteq> []"
    for a b :: "string option" and xs ys :: "int list list"
  proof -
    have "inj (Pair b :: int list \<Rightarrow> unit_id)" by (simp add: inj_on_def)
    then show ?thesis using that by (cases xs; cases ys) (auto simp: inj_map_eq_map)
  qed
  have "take ps (rk_iter k) \<noteq> []" using assms length_rk_iter[of k] by auto
  from m[OF this] show ?thesis by (simp add: units_def take_map)
qed

definition plain_of :: "radix_key \<Rightarrow> nat \<Rightarrow> plain_key" where
  "plain_of k ps = (let t = token_ids k in
     if is_bigram k then
       (if ps = 1 then Toks [t ! 0, t ! 1] else Pairs (map (\<lambda>j. (t ! j, t ! (j + 1))) [0..<ps]))
     else if ps = 1 then Tok (t ! 0) else Toks (take ps t))"

lemma child_key_Some:
  assumes "0 < ps" and "ps \<le> rk_len k"
  shows "child_key k ps = Some (extra_key k, plain_of k ps)"
  using assms by (auto simp: child_key_def plain_of_def Let_def rk_len_def split: if_splits)

lemma plain_of_eq_iff:
  assumes "0 < ps" and "ps \<le> rk_len k" and "ps \<le> rk_len l" and "is_bigram k = is_bigram l"
  shows "plain_of k ps = plain_of l ps \<longleftrightarrow> take ps (rk_iter k) = take ps (rk_iter l)"
proof (cases "is_bigram k")
  case True
  then have n: "ps \<le> length (token_ids k) - 1" "ps \<le> length (token_ids l) - 1"
    using assms by (auto simp: rk_len_def Let_def split: if_splits)
  have t: "take ps (rk_iter x) = map (\<lambda>i. [token_ids x ! i, token_ids x ! (i + 1)]) [0..<ps]"
    if "is_bigram x" "ps \<le> length (token_ids x) - 1" for x
    using that by (simp add: rk_iter_def take_map Let_def)
  show ?thesis using True assms(4) t[of k] t[of l] n
    by (cases "ps = 1") (auto simp: plain_of_def Let_def)
next
  case False
  have i: "inj (\<lambda>x::int. [x])" by (simp add: inj_on_def)
  show ?thesis
  proof (cases "ps = 1")
    case True
    then obtain x xs y ys where "token_ids k = x # xs" "token_ids l = y # ys"
      using False assms by (cases "token_ids k"; cases "token_ids l") (auto simp: rk_len_def)
    with True False assms(4) show ?thesis by (simp add: plain_of_def rk_iter_def)
  next
    case ps: False
    have "map (\<lambda>x. [x]) (take ps (token_ids k)) = map (\<lambda>x. [x]) (take ps (token_ids l)) \<longleftrightarrow>
        take ps (token_ids k) = take ps (token_ids l)"
      using i by (rule inj_map_eq_map)
    then show ?thesis using ps False assms(4) by (simp add: plain_of_def rk_iter_def take_map)
  qed
qed

lemma child_key_eq_iff:
  assumes "0 < ps" and "ps \<le> rk_len k" and "ps \<le> rk_len l" and "is_bigram k = is_bigram l"
  shows "child_key k ps = child_key l ps \<longleftrightarrow> take ps (units k) = take ps (units l)"
  using assms by (simp add: child_key_Some plain_of_eq_iff take_units_eq_iff)

lemma first_unit_extra_key: "u \<in> set (units k) \<Longrightarrow> fst u = extra_key k"
  by (auto simp: units_def)

end
