(* ===== verification/ReqPool.thy ===== *)
theory ReqPool
  imports Sgl_Prelude
begin

text \<open>
  Requests as the memory layer sees them (\<open>managers/schedule_batch.py\<close>, class \<open>Req\<close>) and the pool
  that maps a request to the slots of its tokens (class \<open>ReqToTokenPool\<close> of
  \<open>srt/mem_cache/memory_pool.py\<close>).  Row 0 of the table is padding; the pool hands out the rows
  \<open>1 .. size\<close>.
\<close>

section \<open>Requests\<close>

type_synonym nid = nat

record request =
  req_pool_idx :: "nat option"
  origin_input_ids :: "int list"
  output_ids :: "int list"
  fill_ids :: "int list"
  req_extra_key :: "string option"
  req_priority :: "int option"
  cache_protected_len :: int
  last_node :: "nid option"
  prefix_indices :: "int list"
  kv_committed_len :: int
  kv_allocated_len :: int
  kv_committed_freed :: bool
  kv_overallocated_freed :: bool
  reasoning_tokens :: int
  inflight_middle_chunks :: int
  skip_radix_cache_insert :: bool

definition cache_commit_len :: "bool \<Rightarrow> 'a request_scheme \<Rightarrow> int" where
  "cache_commit_len strip_thinking_cache r =
     (if strip_thinking_cache \<and> reasoning_tokens r > 0
      then min (kv_committed_len r) (int (length (origin_input_ids r)))
      else kv_committed_len r)"

definition pop_committed_kv_cache :: "bool \<Rightarrow> 'a request_scheme \<Rightarrow> (int \<times> 'a request_scheme) option" where
  "pop_committed_kv_cache strip r =
     (if kv_committed_freed r then None
      else Some (cache_commit_len strip r, r\<lparr>kv_committed_freed := True\<rparr>))"

definition pop_overallocated_kv_cache :: "bool \<Rightarrow> 'a request_scheme \<Rightarrow> ((int \<times> int) \<times> 'a request_scheme) option" where
  "pop_overallocated_kv_cache strip r =
     (if kv_overallocated_freed r then None
      else Some ((cache_commit_len strip r, kv_allocated_len r), r\<lparr>kv_overallocated_freed := True\<rparr>))"

section \<open>The pool\<close>

record req_pool =
  rp_size :: nat
  rp_max_context_len :: nat
  req_to_token :: "int list list"
  rp_free_slots :: "nat list"

definition pool_init :: "nat \<Rightarrow> nat \<Rightarrow> req_pool" where
  "pool_init sz max_context_len =
     \<lparr>rp_size = sz, rp_max_context_len = max_context_len,
      req_to_token = replicate (sz + 1) (replicate max_context_len 0),
      rp_free_slots = [1..<sz + 1]\<rparr>"

text \<open>
  \<open>req_to_token[row, a:b] = values\<close>: the slice is clipped to the row, and the values must fill it
  exactly or be a single one, which is repeated.  \<open>req_to_token[row, :n]\<close> is the read.
\<close>

definition pool_write :: "req_pool \<Rightarrow> nat \<Rightarrow> int \<Rightarrow> int \<Rightarrow> int list \<Rightarrow> req_pool option" where
  "pool_write p idx a b vs =
     (if idx < length (req_to_token p) then
        let row = req_to_token p ! idx;
            k = length (slice row a b);
            out = (if length vs = k then Some vs
                   else if length vs = 1 then Some (replicate k (hd vs)) else None)
        in map_option (\<lambda>vs. p\<lparr>req_to_token :=
             (req_to_token p)[idx := write_at row (py_bound a row) vs]\<rparr>) out
      else None)"

definition pool_read :: "req_pool \<Rightarrow> nat \<Rightarrow> int \<Rightarrow> int list option" where
  "pool_read p idx n =
     (if idx < length (req_to_token p) then Some (slice_to (req_to_token p ! idx) n) else None)"

definition pool_available_size :: "req_pool \<Rightarrow> nat" where
  "pool_available_size p = length (rp_free_slots p)"

text \<open>The loop that hands the selected rows to the requests without one.\<close>

fun assign_rows :: "'a request_scheme list \<Rightarrow> nat list \<Rightarrow> 'a request_scheme list" where
  "assign_rows [] sel = []"
| "assign_rows (r # rs) sel =
     (if req_pool_idx r = None then r\<lparr>req_pool_idx := Some (hd sel)\<rparr> # assign_rows rs (tl sel)
      else r # assign_rows rs sel)"

text \<open>\<open>Some (None, \<dots>)\<close>: the pool is short of rows; \<open>None\<close>: the assertion on reusing requests fails.\<close>

definition pool_alloc :: "req_pool \<Rightarrow> 'a request_scheme list \<Rightarrow> (nat list option \<times> 'a request_scheme list \<times> req_pool) option" where
  "pool_alloc p reqs =
     (let reusing = filter (\<lambda>r. req_pool_idx r \<noteq> None) reqs
      in if \<not> list_all (\<lambda>r. inflight_middle_chunks r > 0 \<or> kv_committed_len r > 0) reusing then None
         else
           let need_size = length reqs - length reusing
           in if need_size > length (rp_free_slots p) then Some (None, reqs, p)
              else
                let select_index = take need_size (rp_free_slots p);
                    p = p\<lparr>rp_free_slots := drop need_size (rp_free_slots p)\<rparr>;
                    reqs = assign_rows reqs select_index
                in Some (Some (map (the \<circ> req_pool_idx) reqs), reqs, p))"

definition pool_free :: "req_pool \<Rightarrow> 'a request_scheme \<Rightarrow> (req_pool \<times> 'a request_scheme) option" where
  "pool_free p r =
     (case req_pool_idx r of None \<Rightarrow> None
      | Some i \<Rightarrow> Some (p\<lparr>rp_free_slots := rp_free_slots p @ [i]\<rparr>, r\<lparr>req_pool_idx := None\<rparr>))"

definition pool_clear :: "req_pool \<Rightarrow> req_pool" where
  "pool_clear p = p\<lparr>rp_free_slots := [1..<rp_size p + 1]\<rparr>"

section \<open>Rows are handed out once\<close>

definition rows_of :: "'a request_scheme list \<Rightarrow> nat list" where
  "rows_of reqs = List.map_filter req_pool_idx reqs"

text \<open>The rows the live requests hold and the free rows are exactly \<open>1 .. size\<close>, each once.\<close>

definition pool_inv :: "req_pool \<Rightarrow> 'a request_scheme list \<Rightarrow> bool" where
  "pool_inv p live \<longleftrightarrow> distinct (rows_of live @ rp_free_slots p) \<and>
     set (rows_of live @ rp_free_slots p) = {1..rp_size p}"

lemma rows_of_simps [simp]:
  "rows_of [] = []" "rows_of (r # rs) = (case req_pool_idx r of None \<Rightarrow> [] | Some i \<Rightarrow> [i]) @ rows_of rs"
  "rows_of (xs @ ys) = rows_of xs @ rows_of ys"
  by (simp_all add: rows_of_def List.map_filter_def split: option.splits)

lemma assign_rows_mset:
  "length sel = length (filter (\<lambda>r. req_pool_idx r = None) reqs) \<Longrightarrow>
     mset (rows_of (assign_rows reqs sel)) = mset (rows_of reqs) + mset sel"
proof (induction reqs sel rule: assign_rows.induct)
  case (2 r rs sel)
  then show ?case by (cases sel) (auto split: option.splits)
qed simp

lemma assign_rows_idx: "list_all (\<lambda>r. req_pool_idx r \<noteq> None) (assign_rows reqs sel)"
  by (induction reqs sel rule: assign_rows.induct) simp_all

lemma assign_rows_keeps:
  "list_all2 (\<lambda>r r'. req_pool_idx r \<noteq> None \<longrightarrow> r' = r) reqs (assign_rows reqs sel)"
  by (induction reqs sel rule: assign_rows.induct) auto

lemma rows_all: "\<forall>r \<in> set reqs. req_pool_idx r \<noteq> None \<Longrightarrow> map (the \<circ> req_pool_idx) reqs = rows_of reqs"
  by (induction reqs) auto

definition all_rows :: "nat \<Rightarrow> nat list" where
  "all_rows sz = [1..<sz + 1]"

lemma pool_inv_mset:
  "pool_inv p live \<longleftrightarrow> mset (rows_of live) + mset (rp_free_slots p) = mset (all_rows (rp_size p))"
proof -
  have "mset (rows_of live) + mset (rp_free_slots p) = mset [1..<rp_size p + 1] \<longleftrightarrow>
      mset (rows_of live @ rp_free_slots p) = mset [1..<rp_size p + 1]" by simp
  also have "\<dots> \<longleftrightarrow> pool_inv p live"
  proof
    assume m: "mset (rows_of live @ rp_free_slots p) = mset [1..<rp_size p + 1]"
    then have "distinct (rows_of live @ rp_free_slots p)" 
      using mset_eq_imp_distinct_iff[OF m] distinct_upt by blast
    moreover have "set (rows_of live @ rp_free_slots p) = {1..rp_size p}"
      unfolding mset_eq_setD[OF m] by auto
    ultimately show "pool_inv p live" by (simp add: pool_inv_def)
  next
    assume "pool_inv p live"
    then have "distinct (rows_of live @ rp_free_slots p)" "set (rows_of live @ rp_free_slots p) = set [1..<rp_size p + 1]"
      by (auto simp: pool_inv_def)
    then show "mset (rows_of live @ rp_free_slots p) = mset [1..<rp_size p + 1]"
      using set_eq_iff_mset_eq_distinct[of "rows_of live @ rp_free_slots p" "[1..<rp_size p + 1]"] by simp
  qed
  finally show ?thesis by (simp only: all_rows_def)
qed

lemma pool_inv_init: "pool_inv (pool_init sz n) []"
  by (simp add: pool_inv_mset pool_init_def all_rows_def)

lemma filter_length_split: "length xs - length (filter P xs) = length (filter (\<lambda>x. \<not> P x) xs)"
  using sum_length_filter_compl[of P xs] by simp

text \<open>C18: Allocating rows for a batch never gives a row to two requests: while the rows of the live
  requests (those of the batch and others) and the free rows are \<open>1 .. size\<close> without repetition, they
  stay so; every request of the batch then has a row, a request that had one keeps it and is not
  changed, and the call fails only when fewer rows are free than requests without a row.\<close>

theorem pool_alloc_rows:
  assumes inv: "pool_inv p (others @ reqs)" and call: "pool_alloc p reqs = Some (res, reqs', p')"
  shows "pool_inv p' (others @ reqs') \<and>
    list_all2 (\<lambda>r r'. req_pool_idx r \<noteq> None \<longrightarrow> r' = r) reqs reqs' \<and>
    (case res of None \<Rightarrow> reqs' = reqs \<and> p' = p \<and>
         pool_available_size p < length (filter (\<lambda>r. req_pool_idx r = None) reqs)
     | Some rows \<Rightarrow> rows = rows_of reqs' \<and> (\<forall>r \<in> set reqs'. req_pool_idx r \<noteq> None) \<and>
         distinct rows \<and> set rows \<subseteq> {1..rp_size p})"
proof -
  define need where "need = length (filter (\<lambda>r. req_pool_idx r = None) reqs)"
  have need: "length reqs - length (filter (\<lambda>r. req_pool_idx r \<noteq> None) reqs) = need"
    using filter_length_split[of reqs "\<lambda>r. req_pool_idx r \<noteq> None"] by (simp add: need_def)
  show ?thesis
  proof (cases "need > length (rp_free_slots p)")
    case True
    then have "res = None" "reqs' = reqs" "p' = p"
      using call need by (auto simp: pool_alloc_def Let_def split: if_splits)
    then show ?thesis using inv True by (auto simp: need_def pool_available_size_def list_all2_same)
  next
    case False
    define sel where "sel = take need (rp_free_slots p)"
    have eq: "res = Some (map (the \<circ> req_pool_idx) (assign_rows reqs sel))" "reqs' = assign_rows reqs sel"
      "p' = p\<lparr>rp_free_slots := drop need (rp_free_slots p)\<rparr>"
      using call need False by (auto simp: pool_alloc_def Let_def sel_def split: if_splits)
    have ls: "length sel = length (filter (\<lambda>r. req_pool_idx r = None) reqs)"
      using False by (simp add: sel_def need_def)
    have "mset (rp_free_slots p) = mset sel + mset (drop need (rp_free_slots p))"
      by (metis append_take_drop_id mset_append sel_def)
    then have i': "pool_inv p' (others @ reqs')"
      using inv eq assign_rows_mset[OF ls] by (simp add: pool_inv_mset ac_simps)
    then have "distinct (rows_of reqs')" "set (rows_of reqs') \<subseteq> {1..rp_size p}"
      using eq(3) by (auto simp: pool_inv_def)
    moreover have "\<forall>r \<in> set reqs'. req_pool_idx r \<noteq> None" using assign_rows_idx[of reqs sel] eq(2) by (simp add: list_all_iff)
    ultimately show ?thesis using i' eq(1,2) rows_all[of reqs'] assign_rows_keeps[of reqs sel] by simp
  qed
qed

definition demo_req :: request where
  "demo_req = \<lparr>req_pool_idx = None, origin_input_ids = [1, 2, 3], output_ids = [], fill_ids = [1, 2, 3],
     req_extra_key = None, req_priority = None, cache_protected_len = 0, last_node = None,
     prefix_indices = [], kv_committed_len = 0, kv_allocated_len = 0, kv_committed_freed = False,
     kv_overallocated_freed = False, reasoning_tokens = 0, inflight_middle_chunks = 1, skip_radix_cache_insert = False\<rparr>"

lemma pool_alloc_rows_witness:
  "\<exists>p' reqs'. pool_alloc (pool_init 3 8) [demo_req, demo_req] = Some (Some [1, 2], reqs', p') \<and>
     pool_inv p' ([] @ reqs')"
proof -
  obtain reqs' p' where c: "pool_alloc (pool_init 3 8) [demo_req, demo_req] = Some (Some [1, 2], reqs', p')"
    by (simp add: pool_alloc_def pool_init_def demo_req_def numeral_eq_Suc upt_rec)
  have "pool_inv (pool_init 3 8) ([] @ [demo_req, demo_req])"
    by (simp add: pool_inv_mset pool_init_def demo_req_def all_rows_def)
  from pool_alloc_rows[OF this c] c show ?thesis by blast
qed

lemma pool_free_inv:
  assumes "pool_inv p (others @ [r])" and "pool_free p r = Some (p', r')"
  shows "pool_inv p' (others @ [r'])"
  using assms by (cases "req_pool_idx r") (auto simp: pool_free_def pool_inv_mset)

end
