(* ===== verification/RadixTree.thy ===== *)
theory RadixTree
  imports RadixKey KvAllocator ReqPool "HOL-Library.List_Lexorder"
begin

text \<open>
  The radix cache (\<open>srt/mem_cache/radix_cache.py\<close>, \<open>evict_policy.py\<close>, \<open>events.py\<close> and the helpers of
  \<open>utils.py\<close>).  Nodes live in a heap and refer to each other by address, so that parent pointers,
  the sharing of a node by several requests and nodes that left the tree are all visible.
  The environment enters through two fields: \<open>rc_times\<close>, the successive readings of
  \<open>time.monotonic\<close>, and \<open>rc_sha256\<close>, the hash function on byte lists.  \<^const>\<open>None\<close> is a raised
  exception.  The allocator and the request table the cache works on are fields of its state.
\<close>

section \<open>Nodes and state\<close>

type_synonym digest = "nat list"

record tree_node =
  children :: "(ckey, nid) dict"
  parent :: "nid option"
  node_key :: radix_key
  node_value :: "int list option"
  lock_ref :: int
  last_access_time :: int
  creation_time :: int
  hit_count :: int
  host_ref_counter :: int
  host_value :: "int list option"
  hash_value :: "digest list option"
  node_priority :: int

datatype eviction_strategy = LRU | LFU | FIFO | MRU | FILO | PriorityStrategy | SLRU int

datatype storage_medium = GPU | CPU_PINNED | DISK | EXTERNAL

datatype kv_event =
    BlockStored (block_hash: int) (parent_block_hash: "int option") (event_tokens: "int list list")
      (block_size: nat) storage_medium
  | BlockRemoved int storage_medium
  | AllBlocksCleared

record radix_cache =
  rc_disable :: bool
  rc_page_size :: nat
  rc_is_eagle :: bool
  disable_finished_insert :: bool
  enable_kv_cache_events :: bool
  eviction_policy :: eviction_strategy
  kv_event_queue :: "kv_event list"
  heap :: "nid \<Rightarrow> tree_node option"
  root_node :: nid
  node_counter :: nat
  rc_times :: "nat \<Rightarrow> int"
  rc_reads :: nat
  rc_sha256 :: "nat list \<Rightarrow> digest"
  evictable_size :: int
  protected_size :: int
  evictable_leaves :: "nid list"
  rc_alloc :: allocator
  rc_pool :: req_pool
  rc_strip_thinking :: bool

section \<open>Eviction strategies\<close>

text \<open>
  The value a strategy sorts by: a time, or a tuple; both are compared as lists, and the smallest is
  evicted first.
\<close>

fun get_priority :: "eviction_strategy \<Rightarrow> tree_node \<Rightarrow> int list" where
  "get_priority LRU nd = [last_access_time nd]"
| "get_priority LFU nd = [hit_count nd, last_access_time nd]"
| "get_priority FIFO nd = [creation_time nd]"
| "get_priority MRU nd = [- last_access_time nd]"
| "get_priority FILO nd = [- creation_time nd]"
| "get_priority PriorityStrategy nd = [node_priority nd, last_access_time nd]"
| "get_priority (SLRU protected_threshold) nd =
     [if hit_count nd \<ge> protected_threshold then 1 else 0, last_access_time nd]"

definition lower_ascii :: "string \<Rightarrow> string" where
  "lower_ascii s = map (\<lambda>c. let n = (of_char c :: nat) in if 65 \<le> n \<and> n \<le> 90 then char_of (n + 32) else c) s"

definition get_eviction_strategy :: "string \<Rightarrow> py_error + eviction_strategy" where
  "get_eviction_strategy policy =
     (case map_of [(''lru'', LRU), (''lfu'', LFU), (''fifo'', FIFO), (''mru'', MRU), (''filo'', FILO),
                   (''priority'', PriorityStrategy), (''slru'', SLRU 2)] (lower_ascii policy) of
        Some st \<Rightarrow> Inr st | None \<Rightarrow> Inl ValueError)"

section \<open>Page hashes and events\<close>

definition to_bytes4 :: "int \<Rightarrow> nat list option" where
  "to_bytes4 t =
     (if 0 \<le> t \<and> t < 4294967296
      then Some (map nat [t mod 256, t div 256 mod 256, t div 65536 mod 256, t div 16777216])
      else None)"

fun concat_bytes :: "int list \<Rightarrow> nat list option" where
  "concat_bytes [] = Some []"
| "concat_bytes (t # ts) =
     (case to_bytes4 t of None \<Rightarrow> None
      | Some b \<Rightarrow> (case concat_bytes ts of None \<Rightarrow> None | Some bs \<Rightarrow> Some (b @ bs)))"

definition hash_page ::
  "(nat list \<Rightarrow> digest) \<Rightarrow> radix_key \<Rightarrow> nat \<Rightarrow> nat \<Rightarrow> digest option \<Rightarrow> digest option" where
  "hash_page sha k start stop prior_hash =
     (let t = token_ids k;
          prior = (case prior_hash of None \<Rightarrow> [] | Some h \<Rightarrow> h);
          toks = (if is_bigram k then concat (map (\<lambda>j. [t ! j, t ! (j + 1)]) [start..<stop])
                  else map (\<lambda>j. t ! j) [start..<stop])
      in map_option (\<lambda>bs. sha (prior @ bs)) (concat_bytes toks))"

text \<open>\<open>hash_str_to_int64\<close>: the first 8 bytes, most significant first, as a signed 64-bit integer.\<close>

definition hash_str_to_int64 :: "digest \<Rightarrow> int" where
  "hash_str_to_int64 h =
     (let uint64_val = foldl (\<lambda>acc b. acc * 256 + int b) 0 (take 8 h)
      in if uint64_val \<ge> 2 ^ 63 then uint64_val - 2 ^ 64 else uint64_val)"

text \<open>The pages \<open>[start, end)\<close> of a key: \<open>range(0, n, page_size)\<close>, the last one cut at \<open>n\<close>.\<close>

definition page_ranges :: "nat \<Rightarrow> nat \<Rightarrow> (nat \<times> nat) list" where
  "page_ranges n ps =
     map (\<lambda>i. (i * ps, min (i * ps + ps) n)) [0..<(n + ps - 1) div ps]"

fun hash_pages :: "(nat list \<Rightarrow> digest) \<Rightarrow> radix_key \<Rightarrow> (nat \<times> nat) list \<Rightarrow> digest option \<Rightarrow> digest list option" where
  "hash_pages sha k [] prior = Some []"
| "hash_pages sha k ((s, e) # rs) prior =
     (case hash_page sha k s e prior of None \<Rightarrow> None
      | Some h \<Rightarrow> (case hash_pages sha k rs (Some h) of None \<Rightarrow> None | Some hs \<Rightarrow> Some (h # hs)))"

definition compute_node_hash_values :: "radix_cache \<Rightarrow> tree_node \<Rightarrow> digest list option" where
  "compute_node_hash_values c nd =
     (let parent_hash = (case parent nd of None \<Rightarrow> None
        | Some p \<Rightarrow> (case heap c p of None \<Rightarrow> None
           | Some pd \<Rightarrow> (case hash_value pd of None \<Rightarrow> None
              | Some hs \<Rightarrow> (if rk_len (node_key pd) > 0 \<and> hs \<noteq> [] then Some (List.last hs) else None))))
      in hash_pages (rc_sha256 c) (node_key nd) (page_ranges (rk_len (node_key nd)) (rc_page_size c)) parent_hash)"

definition split_node_hash_value ::
  "digest list option \<Rightarrow> nat \<Rightarrow> nat \<Rightarrow> digest list option \<times> digest list option" where
  "split_node_hash_value child_hash_value split_len page_size =
     (case child_hash_value of None \<Rightarrow> (None, None)
      | Some hs \<Rightarrow>
          let split_pages = (if page_size = 1 then split_len else split_len div page_size)
          in (Some (take split_pages hs), Some (drop split_pages hs)))"

definition upd_node :: "nid \<Rightarrow> (tree_node \<Rightarrow> tree_node) \<Rightarrow> radix_cache \<Rightarrow> radix_cache" where
  "upd_node n f c = c\<lparr>heap := (heap c)(n := map_option f (heap c n))\<rparr>"

definition page_tokens :: "radix_key \<Rightarrow> nat \<Rightarrow> nat \<Rightarrow> int list list" where
  "page_tokens k s e = map (\<lambda>j. if is_bigram k then [token_ids k ! j, token_ids k ! (j + 1)]
                                 else [token_ids k ! j]) [s..<e]"

fun store_events :: "radix_key \<Rightarrow> digest list \<Rightarrow> (nat \<times> nat) list \<Rightarrow> int option \<Rightarrow> storage_medium \<Rightarrow> kv_event list option" where
  "store_events k hs [] par md = Some []"
| "store_events k [] (r # rs) par md = None"
| "store_events k (h # hs) ((s, e) # rs) par md =
     (let bh = hash_str_to_int64 h
      in map_option ((#) (BlockStored bh par (page_tokens k s e) (e - s) md))
           (store_events k hs rs (Some bh) md))"

text \<open>The hash of a node is computed when the first event needs it.\<close>

definition ensure_hash :: "radix_cache \<Rightarrow> nid \<Rightarrow> (radix_cache \<times> tree_node \<times> digest list) option" where
  "ensure_hash c n =
     (case heap c n of None \<Rightarrow> None
      | Some nd \<Rightarrow>
          (case hash_value nd of Some hs \<Rightarrow> Some (c, nd, hs)
           | None \<Rightarrow>
               (case compute_node_hash_values c nd of None \<Rightarrow> None
                | Some hs \<Rightarrow> Some (upd_node n (\<lambda>nd. nd\<lparr>hash_value := Some hs\<rparr>) c, nd, hs))))"

definition record_store_event :: "nid \<Rightarrow> radix_cache \<Rightarrow> radix_cache option" where
  "record_store_event n c =
     (if \<not> enable_kv_cache_events c then Some c
      else
        (case ensure_hash c n of None \<Rightarrow> None
         | Some (c, nd, hs) \<Rightarrow>
             let par = (case parent nd of None \<Rightarrow> None
                | Some p \<Rightarrow> if p = root_node c then None
                    else (case heap c p of None \<Rightarrow> None
                       | Some pd \<Rightarrow> (case hash_value pd of None \<Rightarrow> None
                          | Some phs \<Rightarrow> (if phs \<noteq> [] then Some (hash_str_to_int64 (List.last phs)) else None))))
             in map_option (\<lambda>evs. c\<lparr>kv_event_queue := kv_event_queue c @ evs\<rparr>)
                  (store_events (node_key nd) hs (page_ranges (rk_len (node_key nd)) (rc_page_size c)) par GPU)))"

definition record_remove_event :: "nid \<Rightarrow> radix_cache \<Rightarrow> radix_cache option" where
  "record_remove_event n c =
     (if \<not> enable_kv_cache_events c then Some c
      else
        (case ensure_hash c n of None \<Rightarrow> None
         | Some (c, nd, hs) \<Rightarrow>
             let k = length (page_ranges (rk_len (node_key nd)) (rc_page_size c))
             in if length hs < k then None
                else Some (c\<lparr>kv_event_queue := kv_event_queue c @
                       map (\<lambda>h. BlockRemoved (hash_str_to_int64 h) GPU) (take k hs)\<rparr>)))"

definition record_all_cleared_event :: "radix_cache \<Rightarrow> radix_cache" where
  "record_all_cleared_event c =
     (if enable_kv_cache_events c then c\<lparr>kv_event_queue := kv_event_queue c @ [AllBlocksCleared]\<rparr> else c)"

definition take_events :: "radix_cache \<Rightarrow> kv_event list \<times> radix_cache" where
  "take_events c =
     (if \<not> enable_kv_cache_events c then ([], c)
      else (kv_event_queue c, c\<lparr>kv_event_queue := []\<rparr>))"

section \<open>Creating nodes\<close>

definition monotonic :: "radix_cache \<Rightarrow> int \<times> radix_cache" where
  "monotonic c = (rc_times c (rc_reads c), c\<lparr>rc_reads := Suc (rc_reads c)\<rparr>)"

text \<open>The key of a new node is set by its creator before anything reads it.\<close>

definition tree_node_init :: "int \<Rightarrow> radix_cache \<Rightarrow> nid \<times> radix_cache" where
  "tree_node_init prio c =
     (let (t1, c) = monotonic c;
          (t2, c) = monotonic c;
          n = node_counter c
      in (n, c\<lparr>node_counter := Suc n,
               heap := (heap c)(n \<mapsto> \<lparr>children = [], parent = None, node_key = RadixKey [] None False,
                 node_value = None, lock_ref = 0, last_access_time = t1, creation_time = t2,
                 hit_count = 0, host_ref_counter = 0, host_value = None, hash_value = None,
                 node_priority = prio\<rparr>)\<rparr>))"

definition evicted :: "tree_node \<Rightarrow> bool" where
  "evicted nd \<longleftrightarrow> node_value nd = None"

definition backuped :: "tree_node \<Rightarrow> bool" where
  "backuped nd \<longleftrightarrow> host_value nd \<noteq> None"

definition protect_host :: "tree_node \<Rightarrow> tree_node" where
  "protect_host nd = nd\<lparr>host_ref_counter := host_ref_counter nd + 1\<rparr>"

definition release_host :: "tree_node \<Rightarrow> py_error + tree_node" where
  "release_host nd =
     (if host_ref_counter nd > 0 then Inr (nd\<lparr>host_ref_counter := host_ref_counter nd - 1\<rparr>)
      else Inl RuntimeError)"

definition sys_maxsize :: int where
  "sys_maxsize = 9223372036854775807"

definition radix_reset :: "radix_cache \<Rightarrow> radix_cache" where
  "radix_reset c =
     (let (r, c) = tree_node_init (- sys_maxsize) c;
          c = upd_node r (\<lambda>nd. nd\<lparr>node_key := RadixKey [] None False, node_value := Some [],
                 host_value := Some [], lock_ref := 1, hash_value := Some []\<rparr>) c
      in record_all_cleared_event
           (c\<lparr>root_node := r, evictable_size := 0, protected_size := 0, evictable_leaves := []\<rparr>))"

definition radix_init :: "bool \<Rightarrow> nat \<Rightarrow> bool \<Rightarrow> bool \<Rightarrow> bool \<Rightarrow> string \<Rightarrow> bool \<Rightarrow>
    (nat \<Rightarrow> int) \<Rightarrow> (nat list \<Rightarrow> digest) \<Rightarrow> allocator \<Rightarrow> req_pool \<Rightarrow> py_error + radix_cache" where
  "radix_init disable page_size is_eagle no_finished_insert events policy strip clock sha a p =
     (case get_eviction_strategy (lower_ascii policy) of Inl e \<Rightarrow> Inl e
      | Inr st \<Rightarrow> Inr (radix_reset
          \<lparr>rc_disable = disable, rc_page_size = page_size, rc_is_eagle = is_eagle,
           disable_finished_insert = no_finished_insert, enable_kv_cache_events = events,
           eviction_policy = st, kv_event_queue = [], heap = (\<lambda>_. None), root_node = 0,
           node_counter = 0, rc_times = clock, rc_reads = 0, rc_sha256 = sha, evictable_size = 0,
           protected_size = 0, evictable_leaves = [], rc_alloc = a, rc_pool = p,
           rc_strip_thinking = strip\<rparr>))"

section \<open>The evictable leaves\<close>

definition discard_leaf :: "nid \<Rightarrow> radix_cache \<Rightarrow> radix_cache" where
  "discard_leaf n c = c\<lparr>evictable_leaves := removeAll n (evictable_leaves c)\<rparr>"

definition update_leaf_status :: "nid \<Rightarrow> radix_cache \<Rightarrow> radix_cache option" where
  "update_leaf_status n c =
     (case heap c n of None \<Rightarrow> None
      | Some nd \<Rightarrow>
          if evicted nd \<or> lock_ref nd > 0 then Some (discard_leaf n c)
          else if list_ex (\<lambda>m. case heap c m of None \<Rightarrow> False | Some cd \<Rightarrow> \<not> evicted cd)
                    (dict_values (children nd))
          then Some (discard_leaf n c)
          else if n \<notin> set (evictable_leaves c)
          then Some (c\<lparr>evictable_leaves := evictable_leaves c @ [n]\<rparr>)
          else Some c)"

section \<open>Splitting a node\<close>

definition split_node :: "radix_key \<Rightarrow> nid \<Rightarrow> nat \<Rightarrow> radix_cache \<Rightarrow> (nid \<times> radix_cache) option" where
  "split_node key child split_len c =
     (let ps = rc_page_size c in
      case (heap c child, child_key (rk_from key split_len) ps, child_key key ps) of
        (Some cd, Some rest_ck, Some ck) \<Rightarrow>
          (case (node_value cd, parent cd) of
             (Some v, Some p) \<Rightarrow>
               let (new, c) = tree_node_init (node_priority cd) c;
                   (new_hash, child_hash) = split_node_hash_value (hash_value cd) split_len ps;
                   c = upd_node new (\<lambda>nd. nd\<lparr>hit_count := hit_count cd, children := [(rest_ck, child)],
                         parent := Some p, lock_ref := lock_ref cd,
                         node_key := rk_to (node_key cd) split_len, node_value := Some (take split_len v),
                         hash_value := new_hash\<rparr>) c;
                   c = upd_node child (\<lambda>nd. nd\<lparr>parent := Some new,
                         node_key := rk_from (node_key cd) split_len,
                         node_value := Some (drop split_len v), hash_value := child_hash\<rparr>) c;
                   c = upd_node p (\<lambda>nd. nd\<lparr>children := dict_set ck new (children nd)\<rparr>) c
               in Some (new, c)
           | _ \<Rightarrow> None)
      | _ \<Rightarrow> None)"

section \<open>Matching a prefix\<close>

type_synonym match_state = "radix_cache \<times> nid \<times> radix_key \<times> ckey \<times> int list"

text \<open>One round of the loop of \<open>_match_prefix_helper\<close>; the values found so far are concatenated.\<close>

fun match_step :: "int \<Rightarrow> match_state \<Rightarrow> (((int list \<times> nid) \<times> radix_cache) + match_state) option" where
  "match_step access_time (c, node, key, ck, value) =
     (case heap c node of None \<Rightarrow> None
      | Some nd \<Rightarrow>
          (case (if rk_len key > 0 then dict_get (children nd) ck else None) of
             None \<Rightarrow> Some (Inl ((value, node), c))
           | Some child \<Rightarrow>
               let c = upd_node child (\<lambda>nd. nd\<lparr>last_access_time := access_time\<rparr>) c
               in (case heap c child of None \<Rightarrow> None
                   | Some cd \<Rightarrow>
                       (case rk_match (node_key cd) key (rc_page_size c) of None \<Rightarrow> None
                        | Some prefix_len \<Rightarrow>
                            if prefix_len < rk_len (node_key cd) then
                              (case split_node (node_key cd) child prefix_len c of None \<Rightarrow> None
                               | Some (new, c) \<Rightarrow>
                                   (case heap c new of None \<Rightarrow> None
                                    | Some newd \<Rightarrow>
                                        (case node_value newd of None \<Rightarrow> None
                                         | Some v \<Rightarrow> Some (Inl ((value @ v, new), c)))))
                            else
                              (case node_value cd of None \<Rightarrow> None
                               | Some v \<Rightarrow>
                                   let key = rk_from key prefix_len
                                   in if rk_len key > 0
                                      then (case child_key key (rc_page_size c) of None \<Rightarrow> None
                                            | Some ck \<Rightarrow> Some (Inr (c, child, key, ck, value @ v)))
                                      else Some (Inr (c, child, key, ck, value @ v)))))))"

definition match_prefix_helper :: "nid \<Rightarrow> radix_key \<Rightarrow> radix_cache \<Rightarrow> ((int list \<times> nid) \<times> radix_cache) option" where
  "match_prefix_helper node key c =
     (let (access_time, c) = monotonic c;
          c = upd_node node (\<lambda>nd. nd\<lparr>last_access_time := access_time\<rparr>) c
      in case child_key key (rc_page_size c) of None \<Rightarrow> None
         | Some ck \<Rightarrow> iterate (match_step access_time) (c, node, key, ck, []))"

text \<open>The result: the slots of the longest cached prefix and the node where it ends.\<close>

definition match_prefix :: "radix_key \<Rightarrow> radix_cache \<Rightarrow> ((int list \<times> nid) \<times> radix_cache) option" where
  "match_prefix key c =
     (let (key, _) = maybe_to_bigram_view key (rc_is_eagle c) None
      in if rc_disable c \<or> rk_len key = 0 then Some (([], root_node c), c)
         else
           let key = page_aligned key (rc_page_size c)
           in if rk_len key = 0 then Some (([], root_node c), c)
              else match_prefix_helper (root_node c) key c)"

section \<open>Inserting\<close>

definition inc_hit_count :: "bool \<Rightarrow> tree_node \<Rightarrow> tree_node" where
  "inc_hit_count chunked nd = (if chunked then nd else nd\<lparr>hit_count := hit_count nd + 1\<rparr>)"

definition raise_priority :: "int \<Rightarrow> tree_node \<Rightarrow> tree_node" where
  "raise_priority prio nd = nd\<lparr>node_priority := max (node_priority nd) prio\<rparr>"

type_synonym insert_state = "radix_cache \<times> nid \<times> radix_key \<times> int list \<times> ckey \<times> nat"

fun insert_step :: "int \<Rightarrow> int \<Rightarrow> bool \<Rightarrow> insert_state \<Rightarrow> (insert_state + insert_state) option" where
  "insert_step access_time prio chunked (c, node, key, value, ck, total_prefix_length) =
     (case heap c node of None \<Rightarrow> None
      | Some nd \<Rightarrow>
          (case (if rk_len key > 0 then dict_get (children nd) ck else None) of
             None \<Rightarrow> Some (Inl (c, node, key, value, ck, total_prefix_length))
           | Some child \<Rightarrow>
               let c = upd_node child (\<lambda>nd. nd\<lparr>last_access_time := access_time\<rparr>) c
               in (case heap c child of None \<Rightarrow> None
                   | Some cd \<Rightarrow>
                       (case rk_match (node_key cd) key (rc_page_size c) of None \<Rightarrow> None
                        | Some prefix_len \<Rightarrow>
                            let matched = total_prefix_length + prefix_len;
                                key = rk_from key prefix_len;
                                value = drop prefix_len value
                            in (case (if prefix_len < rk_len (node_key cd)
                                      then split_node (node_key cd) child prefix_len c
                                      else Some (child, c)) of None \<Rightarrow> None
                                | Some (node, c) \<Rightarrow>
                                    let c = upd_node node (\<lambda>nd. inc_hit_count chunked (raise_priority prio nd)) c
                                    in if rk_len key > 0
                                       then (case child_key key (rc_page_size c) of None \<Rightarrow> None
                                             | Some ck \<Rightarrow> Some (Inr (c, node, key, value, ck, matched)))
                                       else Some (Inr (c, node, key, value, ck, matched)))))))"

text \<open>The new leaf for the part of the key that was not cached.\<close>

definition add_leaf :: "nid \<Rightarrow> radix_key \<Rightarrow> int list \<Rightarrow> ckey \<Rightarrow> int \<Rightarrow> bool \<Rightarrow> radix_cache \<Rightarrow> radix_cache option" where
  "add_leaf node key value ck prio chunked c =
     (let (new, c) = tree_node_init prio c;
          c = upd_node new (\<lambda>nd. inc_hit_count chunked
                (nd\<lparr>parent := Some node, node_key := key, node_value := Some value\<rparr>)) c;
          c = upd_node node (\<lambda>nd. nd\<lparr>children := dict_set ck new (children nd)\<rparr>) c;
          c = c\<lparr>evictable_size := evictable_size c + int (rk_len key)\<rparr>
      in (case update_leaf_status node c of None \<Rightarrow> None
          | Some c \<Rightarrow>
              (case update_leaf_status new c of None \<Rightarrow> None
               | Some c \<Rightarrow> record_store_event new c)))"

definition insert_helper ::
  "nid \<Rightarrow> radix_key \<Rightarrow> int list \<Rightarrow> int option \<Rightarrow> bool \<Rightarrow> radix_cache \<Rightarrow> (nat \<times> radix_cache) option" where
  "insert_helper node key value priority chunked c =
     (let prio = (case priority of None \<Rightarrow> 0 | Some p \<Rightarrow> p);
          (access_time, c) = monotonic c;
          c = upd_node node (\<lambda>nd. raise_priority prio (nd\<lparr>last_access_time := access_time\<rparr>)) c
      in if rk_len key = 0 then Some (0, c)
         else
           (case child_key key (rc_page_size c) of None \<Rightarrow> None
            | Some ck \<Rightarrow>
                (case iterate (insert_step access_time prio chunked) (c, node, key, value, ck, 0) of
                   None \<Rightarrow> None
                 | Some (c, node, key, value, ck, matched) \<Rightarrow>
                     if rk_len key > 0
                     then map_option (Pair matched) (add_leaf node key value ck prio chunked c)
                     else Some (matched, c))))"

text \<open>Without values the token ids themselves are stored, as the tests do.\<close>

definition radix_insert :: "radix_key \<Rightarrow> int list option \<Rightarrow> int option \<Rightarrow> bool \<Rightarrow> radix_cache \<Rightarrow> (nat \<times> radix_cache) option" where
  "radix_insert key value priority chunked c =
     (if rc_disable c then Some (0, c)
      else
        let (key, value) = maybe_to_bigram_view key (rc_is_eagle c) value;
            key = page_aligned key (rc_page_size c);
            value = (case value of Some v \<Rightarrow> take (rk_len key) v
                     | None \<Rightarrow> take (rk_len key) (token_ids key))
        in insert_helper (root_node c) key value priority chunked c)"

section \<open>Locks\<close>

text \<open>
  One round of the walks towards the root; \<open>delta\<close> is the change of the evictable size.  \<open>None\<close> for
  a node means the walk left the tree (a request holding a node of another tree).
\<close>

fun inc_lock_step :: "radix_cache \<times> nid option \<times> int \<Rightarrow>
    ((int \<times> radix_cache) + (radix_cache \<times> nid option \<times> int)) option" where
  "inc_lock_step (c, node, delta) =
     (if node = Some (root_node c) then Some (Inl (delta, c))
      else
        (case node of None \<Rightarrow> None
         | Some n \<Rightarrow>
             (case heap c n of None \<Rightarrow> None
              | Some nd \<Rightarrow>
                  let l = int (rk_len (node_key nd));
                      (c, delta) =
                        (if lock_ref nd = 0
                         then (c\<lparr>evictable_size := evictable_size c - l,
                                 protected_size := protected_size c + l\<rparr>, delta - l)
                         else (c, delta));
                      c = upd_node n (\<lambda>nd. nd\<lparr>lock_ref := lock_ref nd + 1\<rparr>) c
                  in map_option (\<lambda>c. Inr (c, parent nd, delta)) (update_leaf_status n c))))"

definition inc_lock_ref :: "nid \<Rightarrow> radix_cache \<Rightarrow> (int \<times> radix_cache) option" where
  "inc_lock_ref node c = (if rc_disable c then Some (0, c) else iterate inc_lock_step (c, Some node, 0))"

fun dec_lock_step :: "radix_cache \<times> nid option \<times> int \<Rightarrow>
    ((int \<times> radix_cache) + (radix_cache \<times> nid option \<times> int)) option" where
  "dec_lock_step (c, node, delta) =
     (if node = Some (root_node c) then Some (Inl (delta, c))
      else
        (case node of None \<Rightarrow> None
         | Some n \<Rightarrow>
             (case heap c n of None \<Rightarrow> None
              | Some nd \<Rightarrow>
                  let l = int (rk_len (node_key nd));
                      (c, delta) =
                        (if lock_ref nd = 1
                         then (c\<lparr>evictable_size := evictable_size c + l,
                                 protected_size := protected_size c - l\<rparr>, delta + l)
                         else (c, delta));
                      c = upd_node n (\<lambda>nd. nd\<lparr>lock_ref := lock_ref nd - 1\<rparr>) c
                  in (case update_leaf_status n c of None \<Rightarrow> None
                      | Some c \<Rightarrow>
                          if parent nd = None \<and> n \<noteq> root_node c then None
                          else Some (Inr (c, parent nd, delta))))))"

definition dec_lock_ref :: "nid \<Rightarrow> radix_cache \<Rightarrow> (int \<times> radix_cache) option" where
  "dec_lock_ref node c = (if rc_disable c then Some (0, c) else iterate dec_lock_step (c, Some node, 0))"

section \<open>Evicting\<close>

definition delete_leaf :: "nid \<Rightarrow> radix_cache \<Rightarrow> radix_cache option" where
  "delete_leaf n c =
     (case heap c n of None \<Rightarrow> None
      | Some nd \<Rightarrow>
          (case (child_key (node_key nd) (rc_page_size c), parent nd) of
             (Some key, Some p) \<Rightarrow>
               (case heap c p of None \<Rightarrow> None
                | Some pd \<Rightarrow>
                    let v = dict_get (children pd) key;
                        c = upd_node p (\<lambda>pd. pd\<lparr>children := dict_pop key (children pd)\<rparr>) c
                    in if v \<noteq> Some n then None
                       else update_leaf_status p (discard_leaf n
                              (c\<lparr>evictable_size := evictable_size c - int (rk_len (node_key nd))\<rparr>)))
           | _ \<Rightarrow> None))"

text \<open>
  The heap of candidates: an entry is the priority and the node; entries of equal priority are
  ordered by \<open>TreeNode.__lt__\<close>, the access time (fixed while the eviction runs), and the pop takes
  a smallest entry.
\<close>

type_synonym evict_entry = "int list \<times> nid"

definition evict_entry :: "radix_cache \<Rightarrow> nid \<Rightarrow> evict_entry option" where
  "evict_entry c n =
     map_option (\<lambda>nd. (get_priority (eviction_policy c) nd @ [last_access_time nd], n)) (heap c n)"

fun min_entry :: "evict_entry \<Rightarrow> evict_entry list \<Rightarrow> evict_entry" where
  "min_entry m [] = m"
| "min_entry m (e # es) = min_entry (if fst e < fst m then e else m) es"

fun heappop :: "evict_entry list \<Rightarrow> (evict_entry \<times> evict_entry list) option" where
  "heappop [] = None"
| "heappop (e # es) = (let m = min_entry e es in Some (m, remove1 m (e # es)))"

type_synonym evict_state = "radix_cache \<times> evict_entry list \<times> int"

fun evict_step :: "int \<Rightarrow> evict_state \<Rightarrow> ((int \<times> radix_cache) + evict_state) option" where
  "evict_step num_tokens (c, eviction_heap, num_evicted) =
     (case (if num_evicted < num_tokens then heappop eviction_heap else None) of
        None \<Rightarrow> Some (Inl (num_evicted, c))
      | Some ((_, x), eviction_heap) \<Rightarrow>
          (case heap c x of None \<Rightarrow> None
           | Some xd \<Rightarrow>
               (case (node_value xd, parent xd) of
                  (Some v, Some p) \<Rightarrow>
                    (case allocator_free (rc_alloc c) v of Inl _ \<Rightarrow> None
                     | Inr a \<Rightarrow>
                         (case delete_leaf x (c\<lparr>rc_alloc := a\<rparr>) of None \<Rightarrow> None
                          | Some c \<Rightarrow>
                              (case heap c p of None \<Rightarrow> None
                               | Some pd \<Rightarrow>
                                   (case (if children pd = [] \<and> lock_ref pd = 0
                                          then map_option (\<lambda>e. e # eviction_heap) (evict_entry c p)
                                          else Some eviction_heap) of None \<Rightarrow> None
                                    | Some eviction_heap \<Rightarrow>
                                        map_option (\<lambda>c. Inr (c, eviction_heap, num_evicted + int (length v)))
                                          (record_remove_event x c)))))
                | _ \<Rightarrow> None)))"

definition radix_evict :: "int \<Rightarrow> radix_cache \<Rightarrow> (int \<times> radix_cache) option" where
  "radix_evict num_tokens c =
     (if rc_disable c then Some (0, c)
      else
        (case those (map (evict_entry c) (evictable_leaves c)) of None \<Rightarrow> None
         | Some eviction_heap \<Rightarrow> iterate (evict_step num_tokens) (c, eviction_heap, 0)))"

end
