(* ===== verification/RadixInv.thy ===== *)
theory RadixInv
  imports RadixTree
begin

text \<open>
  The invariant of the radix cache.  \<open>tree c N P\<close> says that the nodes \<open>N\<close> form a tree under the root
  in which \<open>P n\<close> is the path to \<open>n\<close>: the logical units of the keys from the root to \<open>n\<close>, each with the
  slot that caches it.  \<open>accounts c N P H\<close> ties the counters to it, for the multiset \<open>H\<close> of nodes that
  requests hold: a node's \<open>lock_ref\<close> counts the holders at or below it, \<open>evictable_size\<close> and
  \<open>protected_size\<close> are the sizes of the unlocked and of the locked nodes, and the evictable leaves are
  the unlocked nodes without children.
\<close>

section \<open>The tree\<close>

type_synonym slot_unit = "unit_id \<times> int"

definition at :: "radix_cache \<Rightarrow> nid \<Rightarrow> tree_node" where
  "at c n = the (heap c n)"

definition pairs :: "tree_node \<Rightarrow> slot_unit list" where
  "pairs nd = zip (units (node_key nd)) (the (node_value nd))"

definition key_ok :: "radix_cache \<Rightarrow> tree_node \<Rightarrow> bool" where
  "key_ok c nd \<longleftrightarrow> node_value nd \<noteq> None \<and> length (the (node_value nd)) = rk_len (node_key nd) \<and>
     0 < rk_len (node_key nd) \<and> rc_page_size c dvd rk_len (node_key nd) \<and>
     is_bigram (node_key nd) = rc_is_eagle c"

definition children_ok :: "radix_cache \<Rightarrow> nid set \<Rightarrow> nid \<Rightarrow> bool" where
  "children_ok c N n \<longleftrightarrow> dict_wf (children (at c n)) \<and>
     (\<forall>ck m. dict_get (children (at c n)) ck = Some m \<longrightarrow>
        m \<in> N \<and> m \<noteq> root_node c \<and> parent (at c m) = Some n \<and>
        child_key (node_key (at c m)) (rc_page_size c) = Some ck)"

definition parent_ok :: "radix_cache \<Rightarrow> nid set \<Rightarrow> (nid \<Rightarrow> slot_unit list) \<Rightarrow> nid \<Rightarrow> bool" where
  "parent_ok c N P n \<longleftrightarrow> (\<exists>p ck. p \<in> N \<and> parent (at c n) = Some p \<and>
     dict_get (children (at c p)) ck = Some n \<and> P n = P p @ pairs (at c n))"

definition tree :: "radix_cache \<Rightarrow> nid set \<Rightarrow> (nid \<Rightarrow> slot_unit list) \<Rightarrow> bool" where
  "tree c N P \<longleftrightarrow> 0 < rc_page_size c \<and> finite N \<and> root_node c \<in> N \<and> P (root_node c) = [] \<and>
     node_value (at c (root_node c)) \<noteq> None \<and> lock_ref (at c (root_node c)) = 1 \<and>
     (\<forall>n \<in> N. n < node_counter c \<and> heap c n \<noteq> None \<and> children_ok c N n) \<and>
     (\<forall>n \<in> N - {root_node c}. key_ok c (at c n) \<and> parent_ok c N P n)"

definition holders_below :: "(nid \<Rightarrow> slot_unit list) \<Rightarrow> nid multiset \<Rightarrow> nid \<Rightarrow> int" where
  "holders_below P H n = int (size (filter_mset (\<lambda>h. prefix (P n) (P h)) H))"

definition node_len :: "radix_cache \<Rightarrow> nid \<Rightarrow> int" where
  "node_len c n = int (rk_len (node_key (at c n)))"

definition inner :: "radix_cache \<Rightarrow> nid set \<Rightarrow> nid set" where
  "inner c N = N - {root_node c}"

definition unlocked :: "radix_cache \<Rightarrow> nid set \<Rightarrow> nid set" where
  "unlocked c N = {n \<in> inner c N. lock_ref (at c n) = 0}"

definition locked :: "radix_cache \<Rightarrow> nid set \<Rightarrow> nid set" where
  "locked c N = {n \<in> inner c N. lock_ref (at c n) \<noteq> 0}"

definition locks_ok :: "radix_cache \<Rightarrow> nid set \<Rightarrow> (nid \<Rightarrow> slot_unit list) \<Rightarrow> nid multiset \<Rightarrow> bool" where
  "locks_ok c N P H \<longleftrightarrow> set_mset H \<subseteq> N \<and> (\<forall>n \<in> inner c N. lock_ref (at c n) = holders_below P H n)"

definition sizes_ok :: "radix_cache \<Rightarrow> nid set \<Rightarrow> bool" where
  "sizes_ok c N \<longleftrightarrow> evictable_size c = sum (node_len c) (unlocked c N) \<and>
     protected_size c = sum (node_len c) (locked c N)"

definition leaves_ok :: "radix_cache \<Rightarrow> nid set \<Rightarrow> bool" where
  "leaves_ok c N \<longleftrightarrow> distinct (evictable_leaves c) \<and>
     set (evictable_leaves c) = {n \<in> unlocked c N. children (at c n) = []}"

definition accounts :: "radix_cache \<Rightarrow> nid set \<Rightarrow> (nid \<Rightarrow> slot_unit list) \<Rightarrow> nid multiset \<Rightarrow> bool" where
  "accounts c N P H \<longleftrightarrow> locks_ok c N P H \<and> sizes_ok c N \<and> leaves_ok c N"

lemma parent_okI:
  "p \<in> N \<Longrightarrow> parent (at c n) = Some p \<Longrightarrow> dict_get (children (at c p)) ck = Some n \<Longrightarrow>
     P n = P p @ pairs (at c n) \<Longrightarrow> parent_ok c N P n"
  unfolding parent_ok_def by blast

lemma children_okI:
  assumes "dict_wf (children (at c n))"
    and "\<And>ck m. dict_get (children (at c n)) ck = Some m \<Longrightarrow> m \<in> N \<and> m \<noteq> root_node c \<and>
       parent (at c m) = Some n \<and> child_key (node_key (at c m)) (rc_page_size c) = Some ck"
  shows "children_ok c N n"
  using assms unfolding children_ok_def by blast

lemma treeD:
  assumes "tree c N P"
  shows tree_ps: "0 < rc_page_size c" and tree_finite: "finite N" and tree_root: "root_node c \<in> N"
    and tree_P_root: "P (root_node c) = []" and tree_root_lock: "lock_ref (at c (root_node c)) = 1"
    and tree_root_value: "node_value (at c (root_node c)) \<noteq> None"
    and tree_heap: "n \<in> N \<Longrightarrow> heap c n = Some (at c n)"
    and tree_fresh: "n \<in> N \<Longrightarrow> n < node_counter c"
    and tree_children: "n \<in> N \<Longrightarrow> children_ok c N n"
    and tree_key: "n \<in> N \<Longrightarrow> n \<noteq> root_node c \<Longrightarrow> key_ok c (at c n)"
    and tree_parent: "n \<in> N \<Longrightarrow> n \<noteq> root_node c \<Longrightarrow> parent_ok c N P n"
  using assms by (auto simp: tree_def at_def)

lemma tree_childD:
  assumes "tree c N P" and "n \<in> N" and "dict_get (children (at c n)) ck = Some m"
  shows "m \<in> N" "m \<noteq> root_node c" "parent (at c m) = Some n"
    "child_key (node_key (at c m)) (rc_page_size c) = Some ck"
  using tree_children[OF assms(1,2)] assms(3) unfolding children_ok_def by blast+

lemma tree_upE:
  assumes "tree c N P" and "n \<in> N" and "n \<noteq> root_node c"
  obtains p ck where "p \<in> N" "parent (at c n) = Some p" "dict_get (children (at c p)) ck = Some n"
    "child_key (node_key (at c n)) (rc_page_size c) = Some ck" "P n = P p @ pairs (at c n)"
proof -
  from tree_parent[OF assms] obtain p ck where p: "p \<in> N" "parent (at c n) = Some p"
    "dict_get (children (at c p)) ck = Some n" "P n = P p @ pairs (at c n)"
    unfolding parent_ok_def by blast
  show ?thesis by (rule that[OF p(1-3) tree_childD(4)[OF assms(1) p(1,3)] p(4)])
qed

lemma tree_child_path:
  assumes "tree c N P" and "n \<in> N" and "dict_get (children (at c n)) ck = Some m"
  shows "P m = P n @ pairs (at c m)"
proof -
  note m = tree_childD[OF assms]
  from tree_upE[OF assms(1) m(1,2)] obtain p ck' where "parent (at c m) = Some p" "P m = P p @ pairs (at c m)"
    by metis
  with m(3) show ?thesis by simp
qed

lemma length_pairs: "key_ok c nd \<Longrightarrow> length (pairs nd) = rk_len (node_key nd)"
  by (simp add: pairs_def key_ok_def)

lemma map_fst_pairs: "key_ok c nd \<Longrightarrow> map fst (pairs nd) = units (node_key nd)"
  by (simp add: pairs_def key_ok_def)

lemma map_snd_pairs: "key_ok c nd \<Longrightarrow> map snd (pairs nd) = the (node_value nd)"
  by (simp add: pairs_def key_ok_def)

section \<open>Paths determine nodes\<close>

definition up :: "radix_cache \<Rightarrow> nid set \<Rightarrow> (nid \<times> nid) set" where
  "up c N = {(n, p). n \<in> N \<and> n \<noteq> root_node c \<and> parent (at c n) = Some p}"

abbreviation U :: "(nid \<Rightarrow> slot_unit list) \<Rightarrow> nid \<Rightarrow> unit_id list" where
  "U P n \<equiv> map fst (P n)"

lemma upD:
  assumes "tree c N P" and "(n, p) \<in> up c N"
  shows "n \<in> N" "p \<in> N" "n \<noteq> root_node c" "P n = P p @ pairs (at c n)" "length (P p) < length (P n)"
    "\<exists>ck. dict_get (children (at c p)) ck = Some n"
proof -
  have n: "n \<in> N" "n \<noteq> root_node c" "parent (at c n) = Some p" using assms(2) by (auto simp: up_def)
  from tree_upE[OF assms(1) n(1,2)] n(3) have p: "p \<in> N" "P n = P p @ pairs (at c n)"
    "\<exists>ck. dict_get (children (at c p)) ck = Some n" by (metis option.inject)+
  moreover have "0 < length (pairs (at c n))"
    using length_pairs[OF tree_key[OF assms(1) n(1,2)]] tree_key[OF assms(1) n(1,2)]
    by (simp add: key_ok_def)
  ultimately show "n \<in> N" "p \<in> N" "n \<noteq> root_node c" "P n = P p @ pairs (at c n)" "length (P p) < length (P n)"
    "\<exists>ck. dict_get (children (at c p)) ck = Some n" using n by auto
qed

lemma up_exists:
  assumes "tree c N P" and "n \<in> N" and "n \<noteq> root_node c"
  shows "\<exists>p. (n, p) \<in> up c N"
  by (rule tree_upE[OF assms]) (auto simp: up_def assms)

lemma up_child:
  assumes "tree c N P" and "n \<in> N" and "dict_get (children (at c n)) ck = Some m"
  shows "(m, n) \<in> up c N"
  using tree_childD[OF assms] by (simp add: up_def)

lemma up_rtrancl:
  assumes "tree c N P" and "(n, x) \<in> (up c N)\<^sup>*" and "n \<in> N"
  shows "x \<in> N \<and> prefix (P x) (P n)"
  using assms(2,3)
proof (induction rule: rtrancl_induct)
  case (step y z)
  then show ?case using upD[OF assms(1) step(2)] by (auto simp: prefix_def)
qed simp

lemma up_root:
  assumes "tree c N P" and "n \<in> N"
  shows "(n, root_node c) \<in> (up c N)\<^sup>*"
  using assms(2)
proof (induction "length (P n)" arbitrary: n rule: less_induct)
  case less
  show ?case
  proof (cases "n = root_node c")
    case False
    then obtain p where p: "(n, p) \<in> up c N" using up_exists[OF assms(1) less.prems] by blast
    from less.hyps[OF upD(5)[OF assms(1) p] upD(2)[OF assms(1) p]] p show ?thesis
      by (rule converse_rtrancl_into_rtrancl[rotated])
  qed simp
qed

lemma siblings_first_page:
  assumes t: "tree c N P" and a: "(a, x) \<in> up c N" and b: "(b, x) \<in> up c N"
    and e: "take (rc_page_size c) (units (node_key (at c a))) = take (rc_page_size c) (units (node_key (at c b)))"
  shows "a = b"
proof -
  let ?ps = "rc_page_size c" and ?ka = "node_key (at c a)" and ?kb = "node_key (at c b)"
  note A = upD[OF t a] and B = upD[OF t b]
  have k: "key_ok c (at c a)" "key_ok c (at c b)" using tree_key[OF t] A B by auto
  then have "?ps \<le> rk_len ?ka" "?ps \<le> rk_len ?kb" by (auto simp: key_ok_def dvd_imp_le)
  then have eq: "child_key ?ka ?ps = child_key ?kb ?ps"
    using child_key_eq_iff[OF tree_ps[OF t]] e k by (simp add: key_ok_def)
  obtain ka kb where g: "dict_get (children (at c x)) ka = Some a" "dict_get (children (at c x)) kb = Some b"
    using A(6) B(6) by blast
  have "Some ka = Some kb"
    unfolding tree_childD(4)[OF t A(2) g(1), symmetric] tree_childD(4)[OF t A(2) g(2), symmetric] by (rule eq)
  with g show ?thesis by simp
qed

lemma child_first_page:
  assumes t: "tree c N P" and a: "(a, x) \<in> up c N" and p: "prefix (U P a) us"
  shows "take (rc_page_size c) (units (node_key (at c a))) = take (rc_page_size c) (drop (length (P x)) us)"
proof -
  note A = upD[OF t a]
  have k: "key_ok c (at c a)" using tree_key[OF t] A by auto
  then have le: "rc_page_size c \<le> rk_len (node_key (at c a))" by (auto simp: key_ok_def dvd_imp_le)
  from p obtain zs where "us = U P a @ zs" by (auto simp: prefix_def)
  then have "drop (length (P x)) us = units (node_key (at c a)) @ zs"
    using A(4) map_fst_pairs[OF k] by simp
  then show ?thesis using le by simp
qed

lemma rtrancl_child:
  assumes "(n, x) \<in> (up c N)\<^sup>*" and "n \<noteq> x"
  obtains ch where "(ch, x) \<in> up c N" "(n, ch) \<in> (up c N)\<^sup>*"
  using assms by (metis rtranclE)

text \<open>A node whose path starts with the units of another node's path lies below that node.\<close>

lemma path_prefix_below:
  assumes t: "tree c N P" and x: "x \<in> N" and n: "n \<in> N" and p: "prefix (U P x) (U P n)"
  shows "(n, x) \<in> (up c N)\<^sup>*"
  using x p
proof (induction "length (P x)" arbitrary: x rule: less_induct)
  case less
  show ?case
  proof (cases "x = root_node c")
    case True
    then show ?thesis using up_root[OF t n] by simp
  next
    case False
    then obtain y where y: "(x, y) \<in> up c N" using up_exists[OF t less.prems(1)] by blast
    note Y = upD[OF t y]
    have "prefix (U P y) (U P x)" using Y(4) by simp
    with less.prems(2) have "prefix (U P y) (U P n)" by (rule prefix_order.order_trans[rotated])
    from less.hyps[OF Y(5) Y(2) this] have ny: "(n, y) \<in> (up c N)\<^sup>*" .
    have "n \<noteq> y"
    proof
      assume "n = y"
      then have "length (P x) \<le> length (P y)" using prefix_length_le[OF less.prems(2)] by simp
      with Y(5) show False by simp
    qed
    from rtrancl_child[OF ny this] obtain ch where ch: "(ch, y) \<in> up c N" "(n, ch) \<in> (up c N)\<^sup>*" .
    have "prefix (U P ch) (U P n)"
      using up_rtrancl[OF t ch(2) n] by (auto simp: prefix_def)
    from child_first_page[OF t ch(1) this] child_first_page[OF t y less.prems(2)]
    have "ch = x" by (intro siblings_first_page[OF t ch(1) y]) simp
    with ch show ?thesis by simp
  qed
qed

lemma path_inj:
  assumes t: "tree c N P" and x: "x \<in> N" and n: "n \<in> N" and e: "U P x = U P n"
  shows "x = n"
proof (rule ccontr)
  assume ne: "x \<noteq> n"
  have "(n, x) \<in> (up c N)\<^sup>*" using path_prefix_below[OF t x n] e by simp
  from rtrancl_child[OF this] ne obtain ch where ch: "(ch, x) \<in> up c N" "(n, ch) \<in> (up c N)\<^sup>*" by blast
  have "length (P ch) \<le> length (P n)" using up_rtrancl[OF t ch(2) n] prefix_length_le by blast
  with upD(5)[OF t ch(1)] show False using arg_cong[OF e, of length] by simp
qed

lemma prefix_iff_below:
  assumes "tree c N P" and "x \<in> N" and "n \<in> N"
  shows "prefix (P x) (P n) \<longleftrightarrow> (n, x) \<in> (up c N)\<^sup>*"
proof
  assume "prefix (P x) (P n)"
  then have "prefix (U P x) (U P n)" by (auto simp: prefix_def)
  then show "(n, x) \<in> (up c N)\<^sup>*" using path_prefix_below[OF assms] by simp
qed (use up_rtrancl assms in blast)

lemma path_of_child:
  assumes t: "tree c N P" and x: "x \<in> N" and n: "n \<in> N" and p: "prefix (U P x) (U P n)" "n \<noteq> x"
  obtains ch where "(ch, x) \<in> up c N" "prefix (P ch) (P n)" "ch \<in> N"
proof -
  from rtrancl_child[OF path_prefix_below[OF t x n p(1)] p(2)] obtain ch where
    ch: "(ch, x) \<in> up c N" "(n, ch) \<in> (up c N)\<^sup>*" .
  then show ?thesis using that up_rtrancl[OF t ch(2) n] by blast
qed

section \<open>Bookkeeping that the invariant does not see\<close>

definition core :: "tree_node \<Rightarrow> (ckey, nid) dict \<times> nid option \<times> radix_key \<times> int list option \<times> int" where
  "core nd = (children nd, parent nd, node_key nd, node_value nd, lock_ref nd)"

definition heap_only :: "radix_cache \<Rightarrow> radix_cache \<Rightarrow> bool" where
  "heap_only c c' \<longleftrightarrow> c' = c\<lparr>heap := heap c', node_counter := node_counter c', rc_reads := rc_reads c'\<rparr>"

lemma heap_onlyD:
  assumes "heap_only c c'"
  shows "root_node c' = root_node c" "rc_page_size c' = rc_page_size c" "rc_is_eagle c' = rc_is_eagle c"
    "evictable_size c' = evictable_size c" "protected_size c' = protected_size c"
    "evictable_leaves c' = evictable_leaves c" "rc_alloc c' = rc_alloc c" "rc_pool c' = rc_pool c"
    "rc_disable c' = rc_disable c" "enable_kv_cache_events c' = enable_kv_cache_events c"
    "eviction_policy c' = eviction_policy c"
  by (subst assms[unfolded heap_only_def], simp)+

lemma heap_only_refl [simp]: "heap_only c c"
  by (simp add: heap_only_def)

lemma heap_only_trans: "heap_only a b \<Longrightarrow> heap_only b c \<Longrightarrow> heap_only a c"
  unfolding heap_only_def by (cases a; cases b; cases c) simp

definition same_core :: "nid set \<Rightarrow> radix_cache \<Rightarrow> radix_cache \<Rightarrow> bool" where
  "same_core N c c' \<longleftrightarrow> heap_only c c' \<and> node_counter c \<le> node_counter c' \<and>
     (\<forall>n \<in> N. heap c' n \<noteq> None \<and> core (at c' n) = core (at c n))"

lemma same_coreD:
  assumes "same_core N c c'" and "n \<in> N"
  shows "children (at c' n) = children (at c n)" "parent (at c' n) = parent (at c n)"
    "node_key (at c' n) = node_key (at c n)" "node_value (at c' n) = node_value (at c n)"
    "lock_ref (at c' n) = lock_ref (at c n)"
  using assms by (auto simp: same_core_def core_def)

lemma same_core_children:
  assumes s: "same_core N c c'" and t: "tree c N P" and n: "n \<in> N"
  shows "children_ok c' N n"
  unfolding children_ok_def
proof (intro conjI allI impI)
  note f = same_coreD[OF s] and h = heap_onlyD[of c c']
  have ho: "heap_only c c'" using s by (simp add: same_core_def)
  show "dict_wf (children (at c' n))" using tree_children[OF t n] by (simp add: f(1)[OF n] children_ok_def)
  fix ck m assume "dict_get (children (at c' n)) ck = Some m"
  then have g: "dict_get (children (at c n)) ck = Some m" by (simp add: f(1)[OF n])
  note m = tree_childD[OF t n g]
  show "m \<in> N" "m \<noteq> root_node c'" "parent (at c' m) = Some n"
    "child_key (node_key (at c' m)) (rc_page_size c') = Some ck"
    using m f[OF m(1)] h[OF ho] by simp_all
qed

lemma same_core_parent:
  assumes s: "same_core N c c'" and t: "tree c N P" and n: "n \<in> N" "n \<noteq> root_node c"
  shows "parent_ok c' N P n"
proof -
  note f = same_coreD[OF s]
  from tree_upE[OF t n] obtain p ck where p: "p \<in> N" "parent (at c n) = Some p"
    "dict_get (children (at c p)) ck = Some n" "P n = P p @ pairs (at c n)" by metis
  have "pairs (at c' n) = pairs (at c n)" using f[OF n(1)] by (simp add: pairs_def)
  then show ?thesis using p f[OF n(1)] f[OF p(1)] unfolding parent_ok_def by metis
qed

lemma same_core_tree:
  assumes s: "same_core N c c'" and t: "tree c N P"
  shows "tree c' N P"
proof -
  have ho: "heap_only c c'" and le: "node_counter c \<le> node_counter c'" using s by (auto simp: same_core_def)
  note f = same_coreD[OF s] and h = heap_onlyD[OF ho]
  have k: "key_ok c' (at c' n)" if "n \<in> N" "n \<noteq> root_node c" for n
    using tree_key[OF t that] f[OF that(1)] h by (simp add: key_ok_def)
  have "n < node_counter c'" "heap c' n \<noteq> None" if "n \<in> N" for n
    using tree_fresh[OF t that] le s that by (auto simp: same_core_def)
  then show ?thesis
    using treeD(1-6)[OF t] f[OF tree_root[OF t]] h k same_core_children[OF s t] same_core_parent[OF s t]
    by (simp add: tree_def)
qed

lemma same_core_sets:
  assumes s: "same_core N c c'"
  shows "inner c' N = inner c N" "unlocked c' N = unlocked c N" "locked c' N = locked c N"
    "n \<in> N \<Longrightarrow> node_len c' n = node_len c n"
  using same_coreD[OF s] s heap_onlyD(1)[of c c']
  by (auto simp: inner_def unlocked_def locked_def node_len_def same_core_def)

lemma same_core_accounts:
  assumes s: "same_core N c c'" and a: "accounts c N P H"
  shows "accounts c' N P H"
proof -
  have ho: "heap_only c c'" using s by (auto simp: same_core_def)
  note h = heap_onlyD[OF ho] and S = same_core_sets[OF s]
  have sub: "unlocked c N \<subseteq> N" "locked c N \<subseteq> N" "inner c N \<subseteq> N"
    by (auto simp: unlocked_def locked_def inner_def)
  have "sum (node_len c') (unlocked c N) = sum (node_len c) (unlocked c N)"
    "sum (node_len c') (locked c N) = sum (node_len c) (locked c N)"
    using sub S(4) by (auto intro!: sum.cong)
  moreover have "{n \<in> unlocked c N. children (at c' n) = []} = {n \<in> unlocked c N. children (at c n) = []}"
    using sub same_coreD(1)[OF s] by auto
  moreover have "\<forall>n \<in> inner c N. lock_ref (at c' n) = lock_ref (at c n)"
    using sub same_coreD(5)[OF s] by auto
  ultimately show ?thesis
    using a by (simp add: accounts_def locks_ok_def sizes_ok_def leaves_ok_def S h)
qed

lemma same_core_refl [simp]: "tree c N P \<Longrightarrow> same_core N c c"
  using tree_heap by (fastforce simp: same_core_def)

lemma same_core_trans: "same_core N a b \<Longrightarrow> same_core N b c \<Longrightarrow> same_core N a c"
  using heap_only_trans by (fastforce simp: same_core_def)

lemma at_upd_node: "heap c n \<noteq> None \<Longrightarrow> at (upd_node n f c) m = (if m = n then f (at c n) else at c m)"
  by (auto simp: at_def upd_node_def)

lemma heap_upd_node: "heap (upd_node n f c) m = (if m = n then map_option f (heap c n) else heap c m)"
  by (simp add: upd_node_def)

lemma heap_only_upd_node [simp]: "heap_only c (upd_node n f c)"
  by (simp add: heap_only_def upd_node_def)

lemma node_counter_upd_node [simp]: "node_counter (upd_node n f c) = node_counter c"
  by (simp add: upd_node_def)

lemma same_core_upd_node:
  assumes "tree c N P" and "\<And>nd. core (f nd) = core nd"
  shows "same_core N c (upd_node n f c)"
proof -
  have "heap (upd_node n f c) m \<noteq> None \<and> core (at (upd_node n f c) m) = core (at c m)" if m: "m \<in> N" for m
  proof -
    obtain nd where "heap c m = Some nd" using tree_heap[OF assms(1) m] by blast
    then show ?thesis using assms(2) by (cases "m = n") (simp_all add: heap_upd_node at_def)
  qed
  then show ?thesis by (simp add: same_core_def)
qed

lemma heap_monotonic [simp]: "heap (snd (monotonic c)) = heap c" "node_counter (snd (monotonic c)) = node_counter c"
  by (simp_all add: monotonic_def)

lemma same_core_monotonic: "tree c N P \<Longrightarrow> same_core N c (snd (monotonic c))"
  using tree_heap by (fastforce simp: same_core_def heap_only_def at_def monotonic_def)

end
