(* ===== verification/RadixSplit.thy ===== *)
theory RadixSplit
  imports RadixInv
begin

text \<open>
  Splitting a node keeps the tree, the path of every node, the locks and the counters: the new upper
  half takes the place of the node among its parent's children and inherits its lock count.
\<close>

section \<open>The heap after a split\<close>

lemma split_node_result:
  assumes ch: "heap c child = Some cd" and p: "heap c p = Some pd" "parent cd = Some p" "p \<noteq> child"
    and v: "node_value cd = Some v" and fresh: "child < node_counter c" "p < node_counter c"
    and cks: "child_key (rk_from key s) (rc_page_size c) = Some rck" "child_key key (rc_page_size c) = Some ck"
  defines "new \<equiv> node_counter c"
  obtains c' where "split_node key child s c = Some (new, c')" and "heap_only c c'"
    and "node_counter c' = Suc new"
    and "\<And>n. n \<notin> {new, child, p} \<Longrightarrow> heap c' n = heap c n"
    and "heap c' new \<noteq> None" "core (at c' new) =
       ([(rck, child)], Some p, rk_to (node_key cd) s, Some (take s v), lock_ref cd)"
    and "heap c' child \<noteq> None" "core (at c' child) =
       (children cd, Some new, rk_from (node_key cd) s, Some (drop s v), lock_ref cd)"
    and "heap c' p \<noteq> None" "core (at c' p) =
       (dict_set ck new (children pd), parent pd, node_key pd, node_value pd, lock_ref pd)"
proof -
  obtain nh chh where hs: "split_node_hash_value (hash_value cd) s (rc_page_size c) = (nh, chh)" by fastforce
  define c' where "c' = snd (the (split_node key child s c))"
  have ne: "new \<noteq> child" "new \<noteq> p" using fresh by (auto simp: new_def)
  have eq: "split_node key child s c = Some (new, c')"
    using assms hs by (simp add: split_node_def c'_def tree_node_init_def monotonic_def Let_def)
  show thesis
  proof (rule that[of c'])
    show "split_node key child s c = Some (new, c')" by (rule eq)
  qed (use assms hs ne in \<open>auto simp: c'_def split_node_def tree_node_init_def monotonic_def Let_def
        heap_only_def upd_node_def at_def core_def\<close>)
qed

section \<open>A split keeps the invariant\<close>

text \<open>The situation of a split: the node \<open>child\<close> under \<open>p\<close> is cut after \<open>s\<close> units.\<close>

definition split_site :: "radix_cache \<Rightarrow> nid set \<Rightarrow> (nid \<Rightarrow> slot_unit list) \<Rightarrow> nid \<Rightarrow> nid \<Rightarrow> nat \<Rightarrow> bool" where
  "split_site c N P child p s \<longleftrightarrow> tree c N P \<and> (child, p) \<in> up c N \<and> 0 < s \<and>
     s < rk_len (node_key (at c child)) \<and> rc_page_size c dvd s"

text \<open>What the heap looks like afterwards.\<close>

definition split_done :: "radix_cache \<Rightarrow> radix_cache \<Rightarrow> nid set \<Rightarrow> nid \<Rightarrow> nid \<Rightarrow> nat \<Rightarrow> nid \<Rightarrow> ckey \<Rightarrow> ckey \<Rightarrow> bool" where
  "split_done c c' N child p s new ck rck \<longleftrightarrow> heap_only c c' \<and> new = node_counter c \<and>
     node_counter c' = Suc new \<and> (\<forall>n. n \<notin> {new, child, p} \<longrightarrow> heap c' n = heap c n) \<and>
     (\<forall>n \<in> Set.insert new N. heap c' n \<noteq> None) \<and>
     core (at c' new) = ([(rck, child)], Some p, rk_to (node_key (at c child)) s,
        Some (take s (the (node_value (at c child)))), lock_ref (at c child)) \<and>
     core (at c' child) = (children (at c child), Some new, rk_from (node_key (at c child)) s,
        Some (drop s (the (node_value (at c child)))), lock_ref (at c child)) \<and>
     core (at c' p) = (dict_set ck new (children (at c p)), parent (at c p), node_key (at c p),
        node_value (at c p), lock_ref (at c p)) \<and>
     child_key (rk_from (node_key (at c child)) s) (rc_page_size c) = Some rck \<and>
     child_key (node_key (at c child)) (rc_page_size c) = Some ck"

lemma split_siteD:
  assumes "split_site c N P child p s"
  shows "tree c N P" "child \<in> N" "p \<in> N" "child \<noteq> root_node c" "child \<noteq> p" "parent (at c child) = Some p"
    "P child = P p @ pairs (at c child)" "key_ok c (at c child)"
    "rc_page_size c \<le> s" "s + rc_page_size c \<le> rk_len (node_key (at c child))"
proof -
  have t: "tree c N P" and u: "(child, p) \<in> up c N" using assms by (auto simp: split_site_def)
  note k = tree_key[OF t upD(1,3)[OF t u]] and up = upD[OF t u]
  show "tree c N P" "child \<in> N" "p \<in> N" "child \<noteq> root_node c" "child \<noteq> p" "parent (at c child) = Some p"
    "P child = P p @ pairs (at c child)" "key_ok c (at c child)" "rc_page_size c \<le> s"
    "s + rc_page_size c \<le> rk_len (node_key (at c child))"
    using up k assms t by (auto simp: split_site_def up_def key_ok_def dvd_imp_le dvd_step)
qed

lemma split_runs:
  assumes "split_site c N P child p s"
  shows "\<exists>new c' ck rck. split_node (node_key (at c child)) child s c = Some (new, c') \<and>
     split_done c c' N child p s new ck rck"
proof -
  note S = split_siteD[OF assms]
  have ps: "0 < rc_page_size c" using tree_ps[OF S(1)] .
  obtain rck where rck: "child_key (rk_from (node_key (at c child)) s) (rc_page_size c) = Some rck"
    using child_key_Some[OF ps, of "rk_from (node_key (at c child)) s"] S(10) by auto
  obtain ck where ck: "child_key (node_key (at c child)) (rc_page_size c) = Some ck"
    using child_key_Some[OF ps, of "node_key (at c child)"] S(10) by auto
  obtain v where v: "node_value (at c child) = Some v" using S(8) by (auto simp: key_ok_def)
  from split_node_result[OF tree_heap[OF S(1,2)] tree_heap[OF S(1,3)] S(6) S(5)[symmetric] v
      tree_fresh[OF S(1,2)] tree_fresh[OF S(1,3)] rck ck]
  obtain c' where c': "split_node (node_key (at c child)) child s c = Some (node_counter c, c')"
    "heap_only c c'" "node_counter c' = Suc (node_counter c)"
    "\<And>n. n \<notin> {node_counter c, child, p} \<Longrightarrow> heap c' n = heap c n"
    "heap c' (node_counter c) \<noteq> None" "core (at c' (node_counter c)) =
       ([(rck, child)], Some p, rk_to (node_key (at c child)) s, Some (take s v), lock_ref (at c child))"
    "heap c' child \<noteq> None" "core (at c' child) =
       (children (at c child), Some (node_counter c), rk_from (node_key (at c child)) s, Some (drop s v),
        lock_ref (at c child))"
    "heap c' p \<noteq> None" "core (at c' p) = (dict_set ck (node_counter c) (children (at c p)),
        parent (at c p), node_key (at c p), node_value (at c p), lock_ref (at c p))" by metis
  have "heap c' n \<noteq> None" if "n \<in> N" for n
    using c'(4)[of n] c'(5,7,9) tree_heap[OF S(1) that] by fastforce
  with c' rck ck v have "split_done c c' N child p s (node_counter c) ck rck" by (simp add: split_done_def)
  with c'(1) show ?thesis by blast
qed

lemma split_doneD:
  assumes st: "split_site c N P child p s" and d: "split_done c c' N child p s new ck rck"
  shows "new \<notin> N" and "heap_only c c'"
    and "children (at c' new) = [(rck, child)]" "parent (at c' new) = Some p"
      "node_key (at c' new) = rk_to (node_key (at c child)) s"
      "node_value (at c' new) = Some (take s (the (node_value (at c child))))"
      "lock_ref (at c' new) = lock_ref (at c child)"
    and "node_key (at c' child) = rk_from (node_key (at c child)) s"
      "node_value (at c' child) = Some (drop s (the (node_value (at c child))))"
    and "n \<in> N \<Longrightarrow> lock_ref (at c' n) = lock_ref (at c n)"
    and "n \<in> N \<Longrightarrow> parent (at c' n) = (if n = child then Some new else parent (at c n))"
    and "n \<in> N \<Longrightarrow> n \<noteq> child \<Longrightarrow> node_key (at c' n) = node_key (at c n)"
    and "n \<in> N \<Longrightarrow> n \<noteq> child \<Longrightarrow> node_value (at c' n) = node_value (at c n)"
    and "n \<in> N \<Longrightarrow> children (at c' n) = (if n = p then dict_set ck new (children (at c p)) else children (at c n))"
    and "dict_get (children (at c p)) ck = Some child"
proof -
  note S = split_siteD[OF st]
  show fresh: "new \<notin> N" using d tree_fresh[OF S(1), of new] by (auto simp: split_done_def)
  have same: "at c' n = at c n" if "n \<in> N" "n \<noteq> child" "n \<noteq> p" for n
  proof -
    have "n \<noteq> new" using that(1) fresh by blast
    then show ?thesis using d that by (simp add: split_done_def at_def)
  qed
  show "heap_only c c'" using d by (simp add: split_done_def)
  have cores: "core (at c' new) = ([(rck, child)], Some p, rk_to (node_key (at c child)) s,
        Some (take s (the (node_value (at c child)))), lock_ref (at c child))"
     "core (at c' child) = (children (at c child), Some new, rk_from (node_key (at c child)) s,
        Some (drop s (the (node_value (at c child)))), lock_ref (at c child))"
    using d unfolding split_done_def by blast+
  show "children (at c' new) = [(rck, child)]" "parent (at c' new) = Some p"
      "node_key (at c' new) = rk_to (node_key (at c child)) s"
      "node_value (at c' new) = Some (take s (the (node_value (at c child))))"
      "lock_ref (at c' new) = lock_ref (at c child)"
      "node_key (at c' child) = rk_from (node_key (at c child)) s"
      "node_value (at c' child) = Some (drop s (the (node_value (at c child))))"
    using cores by (simp_all add: core_def)
  have cn: "core (at c' n) = (if n = p then dict_set ck new (children (at c p)) else children (at c n),
      if n = child then Some new else parent (at c n),
      if n = child then rk_from (node_key (at c child)) s else node_key (at c n),
      if n = child then Some (drop s (the (node_value (at c child)))) else node_value (at c n),
      lock_ref (at c n))" if n: "n \<in> N"
  proof (cases "n = child \<or> n = p")
    case True
    then show ?thesis using d S(5) by (auto simp: split_done_def)
  next
    case False
    then show ?thesis using same[OF n] by (simp add: core_def)
  qed
  show "n \<in> N \<Longrightarrow> lock_ref (at c' n) = lock_ref (at c n)"
    "n \<in> N \<Longrightarrow> parent (at c' n) = (if n = child then Some new else parent (at c n))"
    "n \<in> N \<Longrightarrow> n \<noteq> child \<Longrightarrow> node_key (at c' n) = node_key (at c n)"
    "n \<in> N \<Longrightarrow> n \<noteq> child \<Longrightarrow> node_value (at c' n) = node_value (at c n)"
    "n \<in> N \<Longrightarrow> children (at c' n) = (if n = p then dict_set ck new (children (at c p)) else children (at c n))"
    using cn by (simp_all add: core_def)
  have "(child, p) \<in> up c N" using st by (simp add: split_site_def)
  from upD(6)[OF S(1) this] obtain k where k: "dict_get (children (at c p)) k = Some child" by blast
  moreover have "k = ck" using tree_childD(4)[OF S(1,3) k] d by (simp add: split_done_def)
  ultimately show "dict_get (children (at c p)) ck = Some child" by simp
qed

definition split_path :: "(nid \<Rightarrow> slot_unit list) \<Rightarrow> radix_cache \<Rightarrow> nid \<Rightarrow> nid \<Rightarrow> nat \<Rightarrow> nid \<Rightarrow> nid \<Rightarrow> slot_unit list" where
  "split_path P c child p s new = P(new := P p @ take s (pairs (at c child)))"

lemma split_children:
  assumes st: "split_site c N P child p s" and d: "split_done c c' N child p s new ck rck"
    and n: "n \<in> Set.insert new N"
  shows "children_ok c' (Set.insert new N) n"
proof (rule children_okI)
  note S = split_siteD[OF st] and D = split_doneD[OF st d] and h = heap_onlyD[OF split_doneD(2)[OF st d]]
  have dk: "child_key (rk_from (node_key (at c child)) s) (rc_page_size c) = Some rck"
    "child_key (node_key (at c child)) (rc_page_size c) = Some ck" using d by (simp_all add: split_done_def)
  show "dict_wf (children (at c' n))"
    using n D(3) D(14)[of n] tree_children[OF S(1), of n] S(3)
    by (cases "n = new") (auto simp: children_ok_def)
  have ckto: "child_key (rk_to (node_key (at c child)) s) (rc_page_size c) = Some ck"
    using child_key_eq_iff[OF tree_ps[OF S(1)], of "rk_to (node_key (at c child)) s" "node_key (at c child)"]
      S(9,10) dk(2) by (simp add: min_def)
  fix k m assume g: "dict_get (children (at c' n)) k = Some m"
  consider "n = new" | "n = p" "n \<in> N" "k = ck" | "n \<in> N" "n \<noteq> p \<or> k \<noteq> ck" using n by blast
  then show "m \<in> Set.insert new N \<and> m \<noteq> root_node c' \<and> parent (at c' m) = Some n \<and>
      child_key (node_key (at c' m)) (rc_page_size c') = Some k"
  proof cases
    case 1
    then have "m = child" "k = rck" using g D(3) by (auto split: if_splits)
    then show ?thesis
      using S(2,4) D(8,11) 1 h dk by simp
  next
    case 2
    then have "m = new" using g D(14)[of p] by (simp add: dict_simps)
    then show ?thesis
      using D(1,4,5) 2 h ckto tree_root[OF S(1)] by auto
  next
    case 3
    then have g': "dict_get (children (at c n)) k = Some m"
      using g D(14)[of n] by (auto simp: dict_simps split: if_splits)
    note M = tree_childD[OF S(1) 3(1) g']
    have "m \<noteq> child"
    proof
      assume m: "m = child"
      then have "n = p" using M(3) S(6) by simp
      moreover have "k = ck" using M(4) dk(2) m by simp
      ultimately show False using 3 by simp
    qed
    then show ?thesis
      using M D(11,12)[OF M(1)] h by simp
  qed
qed

lemma take_zip_split: "length xs = length ys \<Longrightarrow> zip (take s xs) (take s ys) = take s (zip xs ys)"
  by (simp add: take_zip)

lemma split_parents:
  assumes st: "split_site c N P child p s" and d: "split_done c c' N child p s new ck rck"
    and n: "n \<in> Set.insert new N" "n \<noteq> root_node c"
  shows "parent_ok c' (Set.insert new N) (split_path P c child p s new) n \<and> key_ok c' (at c' n)"
proof -
  note S = split_siteD[OF st] and D = split_doneD[OF st d] and h = heap_onlyD[OF split_doneD(2)[OF st d]]
  let ?P = "split_path P c child p s new"
  have PN: "?P m = P m" if "m \<in> N" for m using that D(1) by (auto simp: split_path_def)
  have pn: "pairs (at c' new) = take s (pairs (at c child))" and pc: "pairs (at c' child) = drop s (pairs (at c child))"
    by (simp_all add: pairs_def D(5,6,8,9) take_zip drop_zip)
  have dps: "rc_page_size c dvd s" "0 < s" "s < rk_len (node_key (at c child))" using st by (simp_all add: split_site_def)
  consider "n = new" | "n = child" | "n \<in> N" "n \<noteq> child" using n by blast
  then show ?thesis
  proof cases
    case 1
    have "dict_get (children (at c' p)) ck = Some new" using D(14)[OF S(3)] by (simp add: dict_simps)
    moreover have "key_ok c' (at c' new)"
      using S(8) dps D(5,6) h by (auto simp: key_ok_def)
    ultimately show ?thesis using 1 D(4) S(3) pn PN[OF S(3)]
      by (auto simp: split_path_def intro!: parent_okI[of p])
  next
    case 2
    have "dict_get (children (at c' new)) rck = Some child" using D(3) by simp
    moreover have "key_ok c' (at c' child)"
      using S(8) dps D(8,9) h by (auto simp: key_ok_def intro: dvd_diff_nat)
    moreover have "?P child = ?P new @ pairs (at c' child)"
      using PN[OF S(2)] S(7) pc by (simp add: split_path_def)
    ultimately show ?thesis using 2 D(11)[OF S(2)] by (auto intro!: parent_okI[of new])
  next
    case 3
    from tree_upE[OF S(1) 3(1) n(2)] obtain q k where q: "q \<in> N" "parent (at c n) = Some q"
      "dict_get (children (at c q)) k = Some n" "P n = P q @ pairs (at c n)" by metis
    have "dict_get (children (at c' q)) k = Some n"
      using D(14)[OF q(1)] q(3) D(15) 3(2) by (auto simp: dict_simps)
    moreover have "pairs (at c' n) = pairs (at c n)" using D(12,13)[OF 3] by (simp add: pairs_def)
    moreover have "key_ok c' (at c' n)" using tree_key[OF S(1) 3(1) n(2)] D(12,13)[OF 3] h by (simp add: key_ok_def)
    ultimately show ?thesis using q 3 D(11)[OF 3(1)] PN by (auto intro!: parent_okI[of q])
  qed
qed

lemma split_tree:
  assumes st: "split_site c N P child p s" and d: "split_done c c' N child p s new ck rck"
  shows "tree c' (Set.insert new N) (split_path P c child p s new)"
proof -
  note S = split_siteD[OF st] and D = split_doneD[OF st d] and h = heap_onlyD[OF split_doneD(2)[OF st d]]
  have r: "root_node c \<in> N" "root_node c \<noteq> child" using tree_root[OF S(1)] S(4) by auto
  have "n < node_counter c' \<and> heap c' n \<noteq> None" if "n \<in> Set.insert new N" for n
    using that d tree_fresh[OF S(1), of n] by (auto simp: split_done_def)
  moreover have "split_path P c child p s new (root_node c) = []"
    using tree_P_root[OF S(1)] r D(1) by (auto simp: split_path_def)
  ultimately show ?thesis
    using treeD(1,2,3,5,6)[OF S(1)] h D(10,13) r split_children[OF st d] split_parents[OF st d]
    by (simp add: tree_def)
qed

text \<open>The holders below the new node are exactly those below the node it was cut from.\<close>

lemma split_holders:
  assumes st: "split_site c N P child p s" and d: "split_done c c' N child p s new ck rck"
    and h: "h \<in> N"
  shows "prefix (P p @ take s (pairs (at c child))) (P h) \<longleftrightarrow> prefix (P child) (P h)"
proof
  note S = split_siteD[OF st]
  let ?ps = "rc_page_size c" and ?top = "P p @ take s (pairs (at c child))"
  have lp: "length (pairs (at c child)) = rk_len (node_key (at c child))" using length_pairs[OF S(8)] .
  have u: "(child, p) \<in> up c N" using st by (simp add: split_site_def)
  show "prefix ?top (P h)" if pre: "prefix (P child) (P h)"
    using prefix_order.order_trans[OF _ pre, of ?top] S(7) take_is_prefix[of s "pairs (at c child)"] by simp
  assume top: "prefix ?top (P h)"
  then have pp: "prefix (P p) (P h)" by (metis append_prefixD)
  have lt: "length ?top \<le> length (P h)" "0 < ?ps" using prefix_length_le[OF top] tree_ps[OF S(1)] by auto
  then have "h \<noteq> p" using S(9,10) lp by auto
  moreover have "prefix (U P p) (U P h)" using pp by (auto simp: prefix_def)
  ultimately obtain ch where ch: "(ch, p) \<in> up c N" "prefix (P ch) (P h)" "ch \<in> N"
    using path_of_child[OF S(1,3) h] by blast
  have "prefix (U P ch) (U P h)" using ch(2) by (auto simp: prefix_def)
  note cf = child_first_page[OF S(1) ch(1) this]
  from top obtain zs where "P h = ?top @ zs" by (auto simp: prefix_def)
  then have "drop (length (P p)) (U P h) = take s (units (node_key (at c child))) @ map fst zs"
    using map_fst_pairs[OF S(8)] by (simp add: take_map[symmetric])
  then have "take ?ps (drop (length (P p)) (U P h)) = take ?ps (units (node_key (at c child)))"
    using S(9,10) by (simp add: min_def)
  with cf have "ch = child" by (intro siblings_first_page[OF S(1) ch(1) u]) simp
  with ch show "prefix (P child) (P h)" by simp
qed

lemma sum_insert_split:
  fixes f g :: "nid \<Rightarrow> int"
  assumes "finite A" "a \<in> A" "x \<notin> A" "g x + g a = f a" "\<And>y. y \<in> A \<Longrightarrow> y \<noteq> a \<Longrightarrow> g y = f y"
  shows "sum g (Set.insert x A) = sum f A"
proof -
  have "sum g (A - {a}) = sum f (A - {a})" using assms(5) by (intro sum.cong) auto
  then show ?thesis
    using sum.remove[OF assms(1,2), of g] sum.remove[OF assms(1,2), of f] assms(1,3,4) by simp
qed

lemma split_sizes:
  assumes st: "split_site c N P child p s" and d: "split_done c c' N child p s new ck rck"
    and a: "sizes_ok c N"
  shows "sizes_ok c' (Set.insert new N)"
proof -
  note S = split_siteD[OF st] and D = split_doneD[OF st d] and h = heap_onlyD[OF split_doneD(2)[OF st d]]
  have r: "new \<noteq> root_node c" using D(1) tree_root[OF S(1)] by auto
  have l: "node_len c' new + node_len c' child = node_len c child"
    "\<And>n. n \<in> N \<Longrightarrow> n \<noteq> child \<Longrightarrow> node_len c' n = node_len c n"
    using D(5,8,12) S(10) by (auto simp: node_len_def min_def)
  have same: "sum (node_len c') A = sum (node_len c) A" if "A \<subseteq> N" "child \<notin> A" for A
    using that l(2) by (intro sum.cong) auto
  have spl: "sum (node_len c') (Set.insert new A) = sum (node_len c) A" if "A \<subseteq> N" "child \<in> A" for A
    using that l D(1) tree_finite[OF S(1)] by (intro sum_insert_split) (auto intro: finite_subset)
  have sub: "unlocked c N \<subseteq> N" "locked c N \<subseteq> N" by (auto simp: unlocked_def locked_def inner_def)
  show ?thesis
  proof (cases "lock_ref (at c child) = 0")
    case True
    then have "unlocked c' (Set.insert new N) = Set.insert new (unlocked c N)" "locked c' (Set.insert new N) = locked c N"
      "child \<in> unlocked c N" "child \<notin> locked c N"
      using r D(1,7,10) h S(2,4) by (auto simp: unlocked_def locked_def inner_def)
    then show ?thesis using a spl[OF sub(1)] same[OF sub(2)] h by (simp add: sizes_ok_def)
  next
    case False
    then have "locked c' (Set.insert new N) = Set.insert new (locked c N)" "unlocked c' (Set.insert new N) = unlocked c N"
      "child \<in> locked c N" "child \<notin> unlocked c N"
      using r D(1,7,10) h S(2,4) by (auto simp: unlocked_def locked_def inner_def)
    then show ?thesis using a spl[OF sub(2)] same[OF sub(1)] h by (simp add: sizes_ok_def)
  qed
qed

lemma update_nonempty: "AList.update k v d \<noteq> []"
  by (cases d) (auto split: if_splits)

lemma split_leaves:
  assumes st: "split_site c N P child p s" and d: "split_done c c' N child p s new ck rck"
    and a: "leaves_ok c N"
  shows "leaves_ok c' (Set.insert new N)"
proof -
  note S = split_siteD[OF st] and D = split_doneD[OF st d] and h = heap_onlyD[OF split_doneD(2)[OF st d]]
  have "children (at c p) \<noteq> []" using D(15) by auto
  then have "children (at c' n) = [] \<longleftrightarrow> children (at c n) = []" if "n \<in> N" for n
    using D(14)[OF that] update_nonempty by (auto split: if_splits)
  then have "{n \<in> unlocked c' (Set.insert new N). children (at c' n) = []} = {n \<in> unlocked c N. children (at c n) = []}"
    using D(1,3,10) h by (auto simp: unlocked_def inner_def)
  then show ?thesis using a h by (simp add: leaves_ok_def)
qed

lemma split_accounts:
  assumes st: "split_site c N P child p s" and d: "split_done c c' N child p s new ck rck"
    and a: "accounts c N P H"
  shows "accounts c' (Set.insert new N) (split_path P c child p s new) H"
proof -
  note S = split_siteD[OF st] and D = split_doneD[OF st d] and h = heap_onlyD[OF split_doneD(2)[OF st d]]
  let ?P = "split_path P c child p s new"
  have H: "set_mset H \<subseteq> N" and L: "\<forall>n \<in> inner c N. lock_ref (at c n) = holders_below P H n"
    using a by (simp_all add: accounts_def locks_ok_def)
  have PN: "?P m = P m" if "m \<in> N" for m using that D(1) by (auto simp: split_path_def)
  have same: "holders_below ?P H n = holders_below P H n" if "n \<in> N" for n
    using PN[OF that] PN H by (auto simp: holders_below_def intro!: arg_cong[where f = size] filter_mset_cong)
  have new: "holders_below ?P H new = holders_below P H child"
  proof -
    have "prefix (?P new) (?P x) \<longleftrightarrow> prefix (P child) (P x)" if "x \<in># H" for x
      using split_holders[OF st d, of x] PN[of x] H that by (auto simp: split_path_def)
    then show ?thesis
      by (auto simp: holders_below_def intro!: arg_cong[where f = size] filter_mset_cong)
  qed
  have "lock_ref (at c' n) = holders_below ?P H n" if "n \<in> inner c' (Set.insert new N)" for n
  proof (cases "n = new")
    case True
    then show ?thesis using D(7) new L S(2,4) by (simp add: inner_def)
  next
    case False
    then show ?thesis using that D(10)[of n] same[of n] L h by (auto simp: inner_def)
  qed
  then have "locks_ok c' (Set.insert new N) ?P H" using H by (auto simp: locks_ok_def)
  then show ?thesis using a split_sizes[OF st d] split_leaves[OF st d] by (simp add: accounts_def)
qed

end
