(* ===== verification/RadixMatch.thy ===== *)
theory RadixMatch
  imports RadixSplit
begin

text \<open>
  \<open>match_prefix\<close> finds the longest cached prefix: it returns the slots along the path to a node whose
  path spells the prefix, splits at most one node to make such a node exist, and changes nothing the
  cache stands for.
\<close>

section \<open>The same content\<close>

text \<open>
  \<open>same_content\<close>: the old nodes keep their paths, and a new node's path is part of an old one, so
  the cached prefixes are the same.
\<close>

definition same_content :: "nid set \<Rightarrow> (nid \<Rightarrow> slot_unit list) \<Rightarrow> nid set \<Rightarrow> (nid \<Rightarrow> slot_unit list) \<Rightarrow> bool" where
  "same_content N P N' P' \<longleftrightarrow> N \<subseteq> N' \<and> (\<forall>n \<in> N. P' n = P n) \<and> (\<forall>m \<in> N'. \<exists>n \<in> N. prefix (P' m) (P n))"

lemma same_content_refl [simp]: "same_content N P N P"
  by (auto simp: same_content_def)

lemma same_content_trans:
  assumes "same_content N P N1 P1" and "same_content N1 P1 N2 P2"
  shows "same_content N P N2 P2"
proof -
  have "\<exists>n \<in> N. prefix (P2 m) (P n)" if "m \<in> N2" for m
  proof -
    from assms(2) that obtain x where x: "x \<in> N1" "prefix (P2 m) (P1 x)" by (auto simp: same_content_def)
    from assms(1) x(1) obtain n where "n \<in> N" "prefix (P1 x) (P n)" by (auto simp: same_content_def)
    with x(2) show ?thesis using prefix_order.order_trans by blast
  qed
  with assms show ?thesis by (auto simp: same_content_def)
qed

lemma split_content:
  assumes st: "split_site c N P child p s" and d: "split_done c c' N child p s new ck rck"
  shows "same_content N P (Set.insert new N) (split_path P c child p s new)"
proof -
  have "prefix (P p @ take s (pairs (at c child))) (P child)"
    using split_siteD(7)[OF st] by (simp add: take_is_prefix)
  then show ?thesis using split_doneD(1)[OF st d] split_siteD(2)[OF st]
    by (auto simp: same_content_def split_path_def)
qed

section \<open>Descending\<close>

lemma tree_path_dvd:
  assumes t: "tree c N P" and n: "n \<in> N"
  shows "rc_page_size c dvd length (P n)"
  using n
proof (induction "length (P n)" arbitrary: n rule: less_induct)
  case less
  show ?case
  proof (cases "n = root_node c")
    case True
    then show ?thesis using tree_P_root[OF t] by simp
  next
    case False
    then obtain p where p: "(n, p) \<in> up c N" using up_exists[OF t less.prems] by blast
    note u = upD[OF t p] and k = tree_key[OF t upD(1,3)[OF t p]]
    show ?thesis using less.hyps[OF u(5,2)] u(4) k length_pairs[OF k] by (simp add: key_ok_def)
  qed
qed

text \<open>The key that is still to be matched at a node reached by the key's first units.\<close>

definition rest_ok :: "radix_cache \<Rightarrow> nid set \<Rightarrow> (nid \<Rightarrow> slot_unit list) \<Rightarrow> unit_id list \<Rightarrow> nid \<Rightarrow> radix_key \<Rightarrow> ckey \<Rightarrow> bool" where
  "rest_ok c N P us node key ck \<longleftrightarrow> node \<in> N \<and> us = U P node @ units key \<and>
     rc_page_size c dvd rk_len key \<and> is_bigram key = rc_is_eagle c \<and>
     (0 < rk_len key \<longrightarrow> child_key key (rc_page_size c) = Some ck)"

lemma rest_len: "rest_ok c N P us node key ck \<Longrightarrow> tree c N P \<Longrightarrow> 0 < rk_len key \<Longrightarrow> rc_page_size c \<le> rk_len key"
  by (auto simp: rest_ok_def dvd_imp_le)

text \<open>A cached path that shares a further page with the key goes through a child with that page.\<close>

lemma deeper_child:
  assumes t: "tree c N P" and r: "rest_ok c N P us node key ck" and n: "n \<in> N"
    and k: "rc_page_size c dvd k" "k \<le> length us" "prefix (take k us) (U P n)" "length (P node) < k"
  shows "0 < rk_len key \<and> (\<exists>ch. (ch, node) \<in> up c N \<and> prefix (P ch) (P n) \<and> dict_get (children (at c node)) ck = Some ch)"
proof -
  let ?ps = "rc_page_size c" and ?L = "length (P node)"
  have r': "node \<in> N" "us = U P node @ units key" "is_bigram key = rc_is_eagle c" using r by (simp_all add: rest_ok_def)
  have len: "0 < rk_len key" using k(2,4) r'(2) by auto
  have le: "?L + ?ps \<le> k" using dvd_step[OF k(1) tree_path_dvd[OF t r'(1)] k(4)] .
  have psk: "?ps \<le> rk_len key" using rest_len[OF r t len] .
  from k(3) obtain zs where zs: "U P n = take k us @ zs" by (auto simp: prefix_def)
  have "prefix (U P node) (take k us)" using r'(2) k(4) by simp
  then have pre: "prefix (U P node) (U P n)" using zs by simp
  have "n \<noteq> node"
  proof
    assume "n = node"
    then have "length (take k us) \<le> ?L" using prefix_length_le[OF k(3)] by simp
    with k(2,4) show False by simp
  qed
  from path_of_child[OF t r'(1) n pre this] obtain ch where ch: "(ch, node) \<in> up c N" "prefix (P ch) (P n)" "ch \<in> N" .
  have "prefix (U P ch) (U P n)" using ch(2) by (auto simp: prefix_def)
  from child_first_page[OF t ch(1) this]
  have "take ?ps (units (node_key (at c ch))) = take ?ps (drop ?L (U P n))" .
  also have "\<dots> = take ?ps (units key)"
  proof -
    have "?ps \<le> k - ?L" using le by linarith
    then show ?thesis using zs le r'(2) k(2) psk by (simp add: min_def)
  qed
  finally have pg: "take ?ps (units (node_key (at c ch))) = take ?ps (units key)" .
  note C = upD[OF t ch(1)] and kc = tree_key[OF t upD(1,3)[OF t ch(1)]]
  obtain k' where k': "dict_get (children (at c node)) k' = Some ch" using C(6) by blast
  have "child_key (node_key (at c ch)) ?ps = child_key key ?ps"
    using child_key_eq_iff[OF tree_ps[OF t], of "node_key (at c ch)" key] pg kc psk r'(3)
    by (auto simp: key_ok_def dvd_imp_le)
  then have "k' = ck" using tree_childD(4)[OF t r'(1) k'] r len by (simp add: rest_ok_def)
  with k' ch len show ?thesis by blast
qed

lemma found_child:
  assumes t: "tree c N P" and r: "rest_ok c N P us node key ck" and len: "0 < rk_len key"
    and g: "dict_get (children (at c node)) ck = Some child"
  shows "(child, node) \<in> up c N" and "key_ok c (at c child)"
    and "rk_match (node_key (at c child)) key (rc_page_size c) =
      Some (zip_match (units (node_key (at c child))) (units key) div rc_page_size c * rc_page_size c)"
    and "rc_page_size c \<le> zip_match (units (node_key (at c child))) (units key)"
proof -
  let ?ps = "rc_page_size c" and ?k = "node_key (at c child)"
  have r': "node \<in> N" "us = U P node @ units key" "is_bigram key = rc_is_eagle c" "child_key key ?ps = Some ck"
    "?ps dvd rk_len key" using r len by (simp_all add: rest_ok_def)
  show u: "(child, node) \<in> up c N" using up_child[OF t r'(1) g] .
  show ko: "key_ok c (at c child)" using tree_key[OF t] upD[OF t u] by blast
  have l: "?ps \<le> rk_len ?k" "?ps \<le> rk_len key" using ko rest_len[OF r t len] by (auto simp: key_ok_def dvd_imp_le)
  have ck: "child_key ?k ?ps = child_key key ?ps" using tree_childD(4)[OF t r'(1) g] r'(4) by simp
  have b: "is_bigram ?k = is_bigram key" using ko r'(3) by (simp add: key_ok_def)
  have e: "take ?ps (units ?k) = take ?ps (units key)" using ck child_key_eq_iff[OF tree_ps[OF t] l b] by simp
  have x: "extra_key ?k = extra_key key"
    using ck child_key_Some[OF tree_ps[OF t] l(1)] child_key_Some[OF tree_ps[OF t] l(2)] by simp
  show "rk_match ?k key ?ps = Some (zip_match (units ?k) (units key) div ?ps * ?ps)"
    using rk_match_units[OF tree_ps[OF t] x b] ko r'(5) by (simp add: key_ok_def)
  show "?ps \<le> zip_match (units ?k) (units key)" using zip_match_iff[of ?ps "units ?k" "units key"] l e by simp
qed

section \<open>One round\<close>

text \<open>\<open>longest\<close>: no cached path shares more whole pages with the key than the first \<open>len\<close> units.\<close>

definition longest :: "nat \<Rightarrow> nid set \<Rightarrow> (nid \<Rightarrow> slot_unit list) \<Rightarrow> unit_id list \<Rightarrow> nat \<Rightarrow> bool" where
  "longest ps N P us len \<longleftrightarrow>
     (\<forall>n \<in> N. \<forall>k. ps dvd k \<and> k \<le> length us \<and> prefix (take k us) (U P n) \<longrightarrow> k \<le> len)"

lemma longest_stuck:
  assumes t: "tree c N P" and r: "rest_ok c N P us node key ck"
    and none: "0 < rk_len key \<Longrightarrow> dict_get (children (at c node)) ck = None"
  shows "longest (rc_page_size c) N P us (length (P node))"
  unfolding longest_def
proof (intro ballI allI impI)
  fix n k assume "n \<in> N" and "rc_page_size c dvd k \<and> k \<le> length us \<and> prefix (take k us) (U P n)"
  then show "k \<le> length (P node)"
    using deeper_child[OF t r, of n k] none by (cases "length (P node) < k") auto
qed

lemma longest_split:
  assumes t: "tree c N P" and r: "rest_ok c N P us node key ck" and len: "0 < rk_len key"
    and g: "dict_get (children (at c node)) ck = Some child"
    and m: "m = zip_match (units (node_key (at c child))) (units key) div rc_page_size c * rc_page_size c"
    and lt: "m < rk_len (node_key (at c child))"
  shows "longest (rc_page_size c) N P us (length (P node) + m)"
  unfolding longest_def
proof (intro ballI allI impI, rule ccontr)
  fix n k assume n: "n \<in> N" and k: "rc_page_size c dvd k \<and> k \<le> length us \<and> prefix (take k us) (U P n)"
    and gt: "\<not> k \<le> length (P node) + m"
  let ?ps = "rc_page_size c" and ?k = "node_key (at c child)" and ?L = "length (P node)"
  note F = found_child[OF t r len g]
  have r': "node \<in> N" "us = U P node @ units key" using r by (simp_all add: rest_ok_def)
  have "?L < k" using gt by linarith
  with deeper_child[OF t r n, of k] k obtain ch where
    ch: "prefix (P ch) (P n)" "dict_get (children (at c node)) ck = Some ch" by blast
  have dm: "?ps dvd ?L + m" using tree_path_dvd[OF t r'(1)] m by simp
  have le: "?L + m + ?ps \<le> k" using dvd_step[OF _ dm] k gt by simp
  have "?ps dvd rk_len ?k" "?ps dvd m" using F(2) m by (simp_all add: key_ok_def)
  then have lk: "m + ?ps \<le> rk_len ?k" using dvd_step lt by blast
  have "prefix (U P child) (U P n)" using ch g by (auto simp: prefix_def)
  then obtain zs where "U P n = U P node @ units ?k @ zs"
    using upD(4)[OF t F(1)] map_fst_pairs[OF F(2)] by (auto simp: prefix_def)
  moreover from k obtain ys where "U P n = take k us @ ys" by (auto simp: prefix_def)
  ultimately have "take (?L + (m + ?ps)) (U P node @ units ?k @ zs) = take (?L + (m + ?ps)) (take k us @ ys)" by simp
  then have eq: "take (m + ?ps) (units ?k) = take (m + ?ps) (units key)" "m + ?ps \<le> rk_len key"
    using le lk k r'(2) by (auto simp: min_def)
  then have "m + ?ps \<le> zip_match (units ?k) (units key)"
    using zip_match_iff[of "m + ?ps" "units ?k" "units key"] lk by simp
  then have "(m + ?ps) div ?ps * ?ps \<le> m" unfolding m by (intro mult_le_mono1 div_le_mono)
  then show False using m tree_ps[OF t] by simp
qed

section \<open>The walk\<close>

definition match_inv :: "radix_cache \<Rightarrow> nid set \<Rightarrow> (nid \<Rightarrow> slot_unit list) \<Rightarrow> unit_id list \<Rightarrow> match_state \<Rightarrow> bool" where
  "match_inv c0 N P us st \<longleftrightarrow> (case st of (c, node, key, ck, value) \<Rightarrow>
     same_core N c0 c \<and> tree c N P \<and> rest_ok c N P us node key ck \<and> value = map snd (P node))"

definition match_done :: "radix_cache \<Rightarrow> nid set \<Rightarrow> (nid \<Rightarrow> slot_unit list) \<Rightarrow> unit_id list \<Rightarrow>
    ((int list \<times> nid) \<times> radix_cache) \<Rightarrow> bool" where
  "match_done c0 N P us r \<longleftrightarrow> (case r of ((value, node), c) \<Rightarrow> heap_only c0 c \<and>
     (\<exists>N' P'. tree c N' P' \<and> same_content N P N' P' \<and> (\<forall>H. accounts c0 N P H \<longrightarrow> accounts c N' P' H) \<and>
        node \<in> N' \<and> value = map snd (P' node) \<and> prefix (U P' node) us \<and>
        longest (rc_page_size c0) N P us (length (P' node))))"

lemma rest_step:
  assumes t: "tree c N P" and r: "rest_ok c N P us node key ck" and u: "(child, node) \<in> up c N"
    and m: "rk_match (node_key (at c child)) key (rc_page_size c) = Some (rk_len (node_key (at c child)))"
    and z: "rk_len (node_key (at c child)) \<le> zip_match (units (node_key (at c child))) (units key)"
    and ck: "0 < rk_len (rk_from key (rk_len (node_key (at c child)))) \<Longrightarrow>
      child_key (rk_from key (rk_len (node_key (at c child)))) (rc_page_size c) = Some ck'"
  shows "rest_ok c N P us child (rk_from key (rk_len (node_key (at c child)))) ck'"
proof -
  let ?k = "node_key (at c child)"
  note C = upD[OF t u] and ko = tree_key[OF t upD(1,3)[OF t u]]
  have "take (rk_len ?k) (units key) = units ?k"
    using zip_match_iff[of "rk_len ?k" "units ?k" "units key"] z by simp
  then have "units key = units ?k @ drop (rk_len ?k) (units key)" by (metis append_take_drop_id)
  then have "us = U P child @ units (rk_from key (rk_len ?k))"
    using r C(4) map_fst_pairs[OF ko] by (simp add: rest_ok_def)
  then show ?thesis using r ck C(1) ko by (auto simp: rest_ok_def key_ok_def intro: dvd_diff_nat)
qed

lemma child_key_total: "tree c N P \<Longrightarrow> rc_page_size c dvd rk_len key \<Longrightarrow> 0 < rk_len key \<Longrightarrow>
    \<exists>ck. child_key key (rc_page_size c) = Some ck"
  using child_key_Some[of "rc_page_size c" key] tree_ps[of c N P] by (auto simp: dvd_imp_le)

text \<open>Refreshing the access time of the child does not move anything.\<close>

lemma rest_ok_core:
  assumes "same_core N c c'" and "rest_ok c N P us node key ck"
  shows "rest_ok c' N P us node key ck"
  using assms heap_onlyD[of c c'] by (simp add: rest_ok_def same_core_def)

lemma match_step_ok:
  assumes i: "match_inv c0 N P us st"
  shows "(\<exists>r. match_step access_time st = Some (Inl r) \<and> match_done c0 N P us r) \<or>
    (\<exists>st'. match_step access_time st = Some (Inr st') \<and> match_inv c0 N P us st' \<and>
       (case st' of (_, _, key, _) \<Rightarrow> rk_len key) < (case st of (_, _, key, _) \<Rightarrow> rk_len key))"
proof -
  obtain c node key ck vals where st: "st = (c, node, key, ck, vals)" by (cases st)
  have sc: "same_core N c0 c" and t: "tree c N P" and r: "rest_ok c N P us node key ck"
    and v: "vals = map snd (P node)" using i by (simp_all add: match_inv_def st)
  have nN: "node \<in> N" and us: "us = U P node @ units key" using r by (simp_all add: rest_ok_def)
  have hn: "heap c node = Some (at c node)" using tree_heap[OF t nN] .
  have ps0: "rc_page_size c = rc_page_size c0" using heap_onlyD(2)[of c0 c] sc by (simp add: same_core_def)
  show ?thesis
  proof (cases "if rk_len key > 0 then dict_get (children (at c node)) ck else None")
    case None
    then have "longest (rc_page_size c) N P us (length (P node))"
      using longest_stuck[OF t r] by (simp split: if_splits)
    then have "match_done c0 N P us ((vals, node), c)"
      using sc t v nN us ps0 same_core_accounts[OF sc]
      by (auto simp: match_done_def same_core_def intro!: exI[of _ N] exI[of _ P])
    then show ?thesis using None hn by (simp add: st)
  next
    case (Some child)
    then have len: "0 < rk_len key" and g: "dict_get (children (at c node)) ck = Some child"
      by (simp_all split: if_splits)
    define c1 where "c1 = upd_node child (\<lambda>nd. nd\<lparr>last_access_time := access_time\<rparr>) c"
    have s1: "same_core N c c1" unfolding c1_def by (rule same_core_upd_node[OF t]) (simp add: core_def)
    note t1 = same_core_tree[OF s1 t] and r1 = rest_ok_core[OF s1 r]
    have g1: "dict_get (children (at c1 node)) ck = Some child" using g same_coreD(1)[OF s1 nN] by simp
    note F = found_child[OF t1 r1 len g1]
    let ?ps = "rc_page_size c1"  and ?k = "node_key (at c1 child)"
    define m where "m = zip_match (units ?k) (units key) div ?ps * ?ps"
    have mm: "rk_match ?k key ?ps = Some m" using F(3) by (simp add: m_def)
    have cN: "child \<in> N" using upD(1)[OF t1 F(1)] .
    have hc: "heap c1 child = Some (at c1 child)" using tree_heap[OF t1 cN] .
    have s01: "same_core N c0 c1" using same_core_trans[OF sc s1] .
    have pm: "?ps \<le> m"
      unfolding m_def using div_le_mono[OF F(4), of ?ps] tree_ps[OF t1]
      by (metis One_nat_def div_self less_nat_zero_code mult_le_mono1 nat_mult_1 neq0_conv)
    obtain w where w: "node_value (at c1 child) = Some w" using F(2) by (auto simp: key_ok_def)
    have step: "match_step access_time st =
      (if m < rk_len ?k then
         (case split_node ?k child m c1 of None \<Rightarrow> None
          | Some (new, c) \<Rightarrow> (case heap c new of None \<Rightarrow> None
             | Some newd \<Rightarrow> (case node_value newd of None \<Rightarrow> None
                | Some v \<Rightarrow> Some (Inl ((vals @ v, new), c)))))
       else
         (case node_value (at c1 child) of None \<Rightarrow> None
          | Some v \<Rightarrow>
              (if rk_len (rk_from key m) > 0
               then (case child_key (rk_from key m) ?ps of None \<Rightarrow> None
                     | Some ck \<Rightarrow> Some (Inr (c1, child, rk_from key m, ck, vals @ v)))
               else Some (Inr (c1, child, rk_from key m, ck, vals @ v)))))"
      using hn Some hc mm unfolding st match_step.simps Let_def by (simp add: c1_def[symmetric] w cong del: option.case_cong_weak)
    show ?thesis
    proof (cases "m < rk_len ?k")
      case True
      have site: "split_site c1 N P child node m"
        using t1 F(1) True pm tree_ps[OF t1] by (auto simp: split_site_def m_def)
      from split_runs[OF site] obtain new c2 ck2 rck2 where
        sp: "split_node ?k child m c1 = Some (new, c2)" "split_done c1 c2 N child node m new ck2 rck2" by blast
      note D = split_doneD[OF site sp(2)] and S = split_siteD[OF site]
      let ?N = "Set.insert new N" and ?P = "split_path P c1 child node m new"
      have t2: "tree c2 ?N ?P" using split_tree[OF site sp(2)] .
      have hnew: "heap c2 new = Some (at c2 new)" using tree_heap[OF t2] by simp
      have Pn: "?P new = P node @ take m (pairs (at c1 child))" by (simp add: split_path_def)
      have lp: "length (?P new) = length (P node) + m"
        using length_pairs[OF F(2)] True by (simp add: Pn)
      have tk: "take m (units ?k) = take m (units key)"
        using zip_match_iff[of m "units ?k" "units key"] by (simp add: m_def)
      have "prefix (U ?P new) us"
        using us tk map_fst_pairs[OF F(2)] by (simp add: Pn take_map[symmetric] take_is_prefix)
      moreover have "vals @ take m w = map snd (?P new)"
        using v w map_snd_pairs[OF F(2)] by (simp add: Pn take_map[symmetric])
      moreover have "longest (rc_page_size c0) N P us (length (?P new))"
        using longest_split[OF t1 r1 len g1 m_def True] lp ps0 heap_onlyD(2)[of c c1] s1
        by (simp add: same_core_def)
      moreover have "heap_only c0 c2"
        using heap_only_trans[OF _ D(2)] s01 by (simp add: same_core_def)
      moreover have "\<forall>H. accounts c0 N P H \<longrightarrow> accounts c2 ?N ?P H"
        using same_core_accounts[OF s01] split_accounts[OF site sp(2)] by blast
      ultimately have "match_done c0 N P us ((vals @ take m w, new), c2)"
        using t2 split_content[OF site sp(2)]
        by (auto simp: match_done_def intro!: exI[of _ ?N] exI[of _ ?P])
      then show ?thesis using step True sp(1) hnew D(6) w by simp
    next
      case False
      have mk: "m = rk_len ?k"
        using False zip_match_le(1)[of "units ?k" "units key"] by (simp add: m_def le_antisym not_less)
          (metis div_times_less_eq_dividend le_antisym le_trans)
      have zl: "rk_len ?k \<le> zip_match (units ?k) (units key)" using mk by (metis div_times_less_eq_dividend m_def)
      have pv: "vals @ w = map snd (P child)"
        using v w map_snd_pairs[OF F(2)] upD(4)[OF t1 F(1)] by simp
      have dv: "?ps dvd rk_len (rk_from key m)"
        using r1 F(2) mk by (auto simp: rest_ok_def key_ok_def intro: dvd_diff_nat)
      define ck' where "ck' = (if 0 < rk_len (rk_from key m) then the (child_key (rk_from key m) ?ps) else ck)"
      have ck': "child_key (rk_from key m) ?ps = Some ck'" if "0 < rk_len (rk_from key m)"
        using child_key_total[OF t1 dv that] that by (auto simp: ck'_def)
      from rest_step[OF t1 r1 F(1) mm[unfolded mk] zl ck'[unfolded mk]]
      have "match_inv c0 N P us (c1, child, rk_from key m, ck', vals @ w)"
        using s01 t1 pv by (simp add: match_inv_def mk)
      moreover have "rk_len (rk_from key m) < rk_len key" using len pm tree_ps[OF t1] by simp
      moreover have "match_step access_time st = Some (Inr (c1, child, rk_from key m, ck', vals @ w))"
      proof (cases "0 < rk_len (rk_from key m)")
        case True
        then show ?thesis unfolding step using False w ck'[OF True] by simp
      next
        case no: False
        then have "ck' = ck" unfolding ck'_def by (rule if_not_P)
        with no show ?thesis unfolding step using False w by simp
      qed
      ultimately show ?thesis
        by (intro disjI2 exI[of _ "(c1, child, rk_from key m, ck', vals @ w)"]) (simp add: st)
    qed
  qed
qed

section \<open>The result of a lookup\<close>

text \<open>The units of the key that take part: its whole pages.\<close>

definition lookup_units :: "radix_cache \<Rightarrow> radix_key \<Rightarrow> unit_id list" where
  "lookup_units c key =
     (let k = fst (maybe_to_bigram_view key (rc_is_eagle c) None)
      in take (rk_len k div rc_page_size c * rc_page_size c) (units k))"

definition key_fits :: "radix_cache \<Rightarrow> radix_key \<Rightarrow> bool" where
  "key_fits c key \<longleftrightarrow> (is_bigram key \<longrightarrow> rc_is_eagle c)"

lemma bigram_view_fits: "key_fits c key \<Longrightarrow> is_bigram (fst (maybe_to_bigram_view key (rc_is_eagle c) v)) = rc_is_eagle c"
  by (auto simp: maybe_to_bigram_view_def key_fits_def Let_def)

lemma bigram_view_fst: "fst (maybe_to_bigram_view key e v) = fst (maybe_to_bigram_view key e None)"
  by (simp add: maybe_to_bigram_view_def Let_def)

lemma match_helper_done:
  assumes t: "tree c N P" and k: "0 < rk_len key" "rc_page_size c dvd rk_len key" "is_bigram key = rc_is_eagle c"
  shows "\<exists>r. match_prefix_helper (root_node c) key c = Some r \<and> match_done c N P (units key) r"
proof -
  define tm c1 where "tm = fst (monotonic c)" and "c1 = snd (monotonic c)"
  define c2 where "c2 = upd_node (root_node c) (\<lambda>nd. nd\<lparr>last_access_time := tm\<rparr>) c1"
  have s1: "same_core N c c1" unfolding c1_def by (rule same_core_monotonic[OF t])
  have s2: "same_core N c1 c2" unfolding c2_def
    by (rule same_core_upd_node[OF same_core_tree[OF s1 t]]) (simp add: core_def)
  note s = same_core_trans[OF s1 s2]
  have ho: "heap_only c c2" using s by (simp add: same_core_def)
  obtain ck where ck: "child_key key (rc_page_size c2) = Some ck"
    using child_key_total[OF t k(2,1)] heap_onlyD(2)[OF ho] by auto
  have "rest_ok c N P (units key) (root_node c) key ck"
    using treeD(3,4)[OF t] k ck heap_onlyD(2)[OF ho] by (simp add: rest_ok_def)
  then have i: "match_inv c N P (units key) (c2, root_node c, key, ck, [])"
    using s same_core_tree[OF s t] rest_ok_core[OF s] tree_P_root[OF t] by (simp add: match_inv_def)
  have "match_prefix_helper (root_node c) key c = iterate (match_step tm) (c2, root_node c, key, ck, [])"
    using ck by (simp add: match_prefix_helper_def c2_def c1_def tm_def split_beta)
  then show ?thesis
    using iterate_total[where I = "match_inv c N P (units key)" and m = "\<lambda>st. case st of (_, _, key, _) \<Rightarrow> rk_len key",
        OF i match_step_ok] by simp
qed

lemma match_done_root:
  assumes t: "tree c N P"
  shows "match_done c N P [] (([], root_node c), c)"
  using t treeD(3,4)[OF t]
  by (auto simp: match_done_def longest_def intro!: exI[of _ N] exI[of _ P])

lemma match_prefix_done:
  assumes t: "tree c N P" and nd: "\<not> rc_disable c" and k: "key_fits c key"
  shows "\<exists>r. match_prefix key c = Some r \<and> match_done c N P (lookup_units c key) r"
proof -
  define v where "v = fst (maybe_to_bigram_view key (rc_is_eagle c) None)"
  have b: "is_bigram v = rc_is_eagle c" unfolding v_def by (rule bigram_view_fits[OF k])
  let ?a = "page_aligned v (rc_page_size c)"
  have lu: "units ?a = lookup_units c key"
    using units_page_aligned[OF tree_ps[OF t]] by (simp add: lookup_units_def v_def Let_def)
  have mp: "match_prefix key c = (if rk_len v = 0 then Some (([], root_node c), c)
      else if rk_len ?a = 0 then Some (([], root_node c), c) else match_prefix_helper (root_node c) ?a c)"
    using nd by (simp add: match_prefix_def v_def split_beta Let_def)
  show ?thesis
  proof (cases "rk_len ?a = 0")
    case True
    then have "lookup_units c key = []" using lu by (metis length_0_conv length_units)
    then show ?thesis using mp True match_done_root[OF t] by (simp split: if_splits)
  next
    case False
    then have "rk_len v \<noteq> 0" using rk_len_page_aligned[OF tree_ps[OF t], of v] by (cases "rk_len v") simp_all
    then show ?thesis using mp False match_helper_done[OF t, of ?a] b lu
      by (simp add: rk_len_page_aligned[OF tree_ps[OF t]])
  qed
qed

end
