(* ===== verification/RadixInsert.thy ===== *)
theory RadixInsert
  imports RadixMatch
begin

text \<open>
  \<open>insert\<close> stores a key: afterwards a path spells the key's whole pages, its first part (of the
  returned length) is what was cached before, the rest carries the given slots, and nothing else
  becomes cached.
\<close>

section \<open>The leaf status\<close>

lemma leaf_status:
  assumes n: "heap c n = Some nd" "node_value nd \<noteq> None"
    and m: "\<And>m. m \<in> set (dict_values (children nd)) \<Longrightarrow> \<exists>cd. heap c m = Some cd \<and> node_value cd \<noteq> None"
  shows "\<exists>L. update_leaf_status n c = Some (c\<lparr>evictable_leaves := L\<rparr>) \<and>
     (distinct (evictable_leaves c) \<longrightarrow> distinct L) \<and>
     set L = (if lock_ref nd > 0 \<or> children nd \<noteq> [] then set (evictable_leaves c) - {n}
              else Set.insert n (set (evictable_leaves c)))"
proof -
  have ex: "list_ex (\<lambda>m. case heap c m of None \<Rightarrow> False | Some cd \<Rightarrow> \<not> evicted cd) (dict_values (children nd))
      \<longleftrightarrow> children nd \<noteq> []"
  proof (cases "children nd")
    case (Cons a list)
    then obtain cd where "heap c (snd a) = Some cd" "node_value cd \<noteq> None" using m[of "snd a"] by auto
    then show ?thesis using Cons by (simp add: evicted_def)
  qed simp
  have dis: "discard_leaf n c = c\<lparr>evictable_leaves := removeAll n (evictable_leaves c)\<rparr>"
    by (simp add: discard_leaf_def)
  have e: "\<not> evicted nd" using n(2) by (simp add: evicted_def)
  consider "lock_ref nd > 0 \<or> children nd \<noteq> []" | "\<not> lock_ref nd > 0" "children nd = []" "n \<in> set (evictable_leaves c)"
    | "\<not> lock_ref nd > 0" "children nd = []" "n \<notin> set (evictable_leaves c)" by blast
  then show ?thesis
  proof cases
    case 1
    then have "update_leaf_status n c = Some (c\<lparr>evictable_leaves := removeAll n (evictable_leaves c)\<rparr>)"
      using n(1) e ex dis by (auto simp: update_leaf_status_def)
    with 1 show ?thesis by (intro exI[of _ "removeAll n (evictable_leaves c)"]) (auto simp: distinct_removeAll)
  next
    case 2
    then have "update_leaf_status n c = Some c" using n(1) e by (simp add: update_leaf_status_def)
    with 2 show ?thesis by (intro exI[of _ "evictable_leaves c"]) auto
  next
    case 3
    then have "update_leaf_status n c = Some (c\<lparr>evictable_leaves := evictable_leaves c @ [n]\<rparr>)"
      using n(1) e by (simp add: update_leaf_status_def)
    with 3 show ?thesis by (intro exI[of _ "evictable_leaves c @ [n]"]) auto
  qed
qed

lemma dict_value_get: "dict_wf d \<Longrightarrow> m \<in> set (dict_values d) \<Longrightarrow> \<exists>k. dict_get d k = Some m"
  using dict_values_get[of d m] by blast

lemma tree_node_value: "tree c N P \<Longrightarrow> n \<in> N \<Longrightarrow> node_value (at c n) \<noteq> None"
  using tree_root_value[of c N P] tree_key[of c N P n] by (cases "n = root_node c") (auto simp: key_ok_def)

lemma tree_child_values:
  assumes t: "tree c N P" and n: "n \<in> N" and m: "m \<in> set (dict_values (children (at c n)))"
  shows "m \<in> N \<and> (\<exists>cd. heap c m = Some cd \<and> node_value cd \<noteq> None)"
proof -
  have "dict_wf (children (at c n))" using tree_children[OF t n] by (simp add: children_ok_def)
  from dict_value_get[OF this m] obtain k where "dict_get (children (at c n)) k = Some m" by blast
  from tree_childD(1)[OF t n this] tree_heap[OF t] tree_node_value[OF t] show ?thesis by blast
qed

section \<open>What no operation touches\<close>

definition keeps :: "radix_cache \<Rightarrow> radix_cache \<Rightarrow> bool" where
  "keeps c c' \<longleftrightarrow> root_node c' = root_node c \<and> rc_page_size c' = rc_page_size c \<and>
     rc_is_eagle c' = rc_is_eagle c \<and> rc_disable c' = rc_disable c \<and>
     enable_kv_cache_events c' = enable_kv_cache_events c \<and>
     disable_finished_insert c' = disable_finished_insert c \<and> eviction_policy c' = eviction_policy c \<and>
     rc_pool c' = rc_pool c \<and> rc_strip_thinking c' = rc_strip_thinking c \<and>
     al_size (rc_alloc c') = al_size (rc_alloc c)"

lemma keeps_refl [simp]: "keeps c c"
  by (simp add: keeps_def)

lemma keeps_trans: "keeps a b \<Longrightarrow> keeps b c \<Longrightarrow> keeps a c"
  by (simp add: keeps_def)

lemma heap_only_keeps: "heap_only c c' \<Longrightarrow> keeps c c'"
  by (cases c; cases c') (simp add: heap_only_def keeps_def)

section \<open>Adding a leaf\<close>

text \<open>The situation: the rest of the key has no child to go to.\<close>

definition leaf_site :: "radix_cache \<Rightarrow> nid set \<Rightarrow> (nid \<Rightarrow> slot_unit list) \<Rightarrow> unit_id list \<Rightarrow> nid \<Rightarrow> radix_key \<Rightarrow> ckey \<Rightarrow> int list \<Rightarrow> bool" where
  "leaf_site c N P us node key ck v \<longleftrightarrow> tree c N P \<and> rest_ok c N P us node key ck \<and> 0 < rk_len key \<and>
     length v = rk_len key \<and> dict_get (children (at c node)) ck = None"

definition leaf_added :: "radix_cache \<Rightarrow> radix_cache \<Rightarrow> nid set \<Rightarrow> nid \<Rightarrow> nid \<Rightarrow> radix_key \<Rightarrow> ckey \<Rightarrow> int list \<Rightarrow> bool" where
  "leaf_added c c' N node new key ck v \<longleftrightarrow> keeps c c' \<and> rc_alloc c' = rc_alloc c \<and> new = node_counter c \<and>
     node_counter c' = Suc new \<and> evictable_size c' = evictable_size c + int (rk_len key) \<and>
     protected_size c' = protected_size c \<and>
     (\<forall>n. n \<notin> {new, node} \<longrightarrow> heap c' n = heap c n) \<and> (\<forall>n \<in> Set.insert new N. heap c' n \<noteq> None) \<and>
     core (at c' new) = ([], Some node, key, Some v, 0) \<and>
     core (at c' node) = (dict_set ck new (children (at c node)), parent (at c node), node_key (at c node),
        node_value (at c node), lock_ref (at c node)) \<and>
     (distinct (evictable_leaves c) \<longrightarrow> distinct (evictable_leaves c')) \<and>
     set (evictable_leaves c') = Set.insert new (set (evictable_leaves c) - {node})"

lemma leaf_siteD:
  assumes "leaf_site c N P us node key ck v"
  shows "tree c N P" "rest_ok c N P us node key ck" "node \<in> N" "us = U P node @ units key"
    "0 < rk_len key" "rc_page_size c dvd rk_len key" "is_bigram key = rc_is_eagle c"
    "child_key key (rc_page_size c) = Some ck" "dict_get (children (at c node)) ck = None" "length v = rk_len key"
  using assms by (auto simp: leaf_site_def rest_ok_def)

lemma leaf_addedD:
  assumes st: "leaf_site c N P us node key ck v" and d: "leaf_added c c' N node new key ck v"
  shows "new \<notin> N" and "root_node c' = root_node c" "rc_page_size c' = rc_page_size c" "rc_is_eagle c' = rc_is_eagle c"
    and "children (at c' new) = []" "parent (at c' new) = Some node" "node_key (at c' new) = key"
      "node_value (at c' new) = Some v" "lock_ref (at c' new) = 0"
    and "n \<in> N \<Longrightarrow> lock_ref (at c' n) = lock_ref (at c n)" and "n \<in> N \<Longrightarrow> parent (at c' n) = parent (at c n)"
    and "n \<in> N \<Longrightarrow> node_key (at c' n) = node_key (at c n)" and "n \<in> N \<Longrightarrow> node_value (at c' n) = node_value (at c n)"
    and "n \<in> N \<Longrightarrow> children (at c' n) = (if n = node then dict_set ck new (children (at c node)) else children (at c n))"
proof -
  note S = leaf_siteD[OF st]
  show fresh: "new \<notin> N" using d tree_fresh[OF S(1), of new] by (auto simp: leaf_added_def)
  show "root_node c' = root_node c" "rc_page_size c' = rc_page_size c" "rc_is_eagle c' = rc_is_eagle c"
    using d by (simp_all add: leaf_added_def keeps_def)
  have cores: "core (at c' new) = ([], Some node, key, Some v, 0)"
    "core (at c' node) = (dict_set ck new (children (at c node)), parent (at c node), node_key (at c node),
        node_value (at c node), lock_ref (at c node))" using d unfolding leaf_added_def by blast+
  then show "children (at c' new) = []" "parent (at c' new) = Some node" "node_key (at c' new) = key"
    "node_value (at c' new) = Some v" "lock_ref (at c' new) = 0" by (simp_all add: core_def)
  have "core (at c' n) = (if n = node then dict_set ck new (children (at c node)) else children (at c n),
     parent (at c n), node_key (at c n), node_value (at c n), lock_ref (at c n))" if n: "n \<in> N"
  proof (cases "n = node")
    case False
    moreover have "n \<noteq> new" using n fresh by blast
    ultimately have "heap c' n = heap c n" using d unfolding leaf_added_def by blast
    then show ?thesis using False by (simp add: at_def core_def)
  qed (simp add: cores)
  then show "n \<in> N \<Longrightarrow> lock_ref (at c' n) = lock_ref (at c n)" "n \<in> N \<Longrightarrow> parent (at c' n) = parent (at c n)"
    "n \<in> N \<Longrightarrow> node_key (at c' n) = node_key (at c n)" "n \<in> N \<Longrightarrow> node_value (at c' n) = node_value (at c n)"
    "n \<in> N \<Longrightarrow> children (at c' n) = (if n = node then dict_set ck new (children (at c node)) else children (at c n))"
    by (simp_all add: core_def)
qed

definition leaf_path :: "(nid \<Rightarrow> slot_unit list) \<Rightarrow> nid \<Rightarrow> nid \<Rightarrow> radix_key \<Rightarrow> int list \<Rightarrow> nid \<Rightarrow> slot_unit list" where
  "leaf_path P node new key v = P(new := P node @ zip (units key) v)"

lemma leaf_tree:
  assumes st: "leaf_site c N P us node key ck v" and d: "leaf_added c c' N node new key ck v"
  shows "tree c' (Set.insert new N) (leaf_path P node new key v)"
proof -
  note S = leaf_siteD[OF st] and D = leaf_addedD[OF st d]
  let ?N = "Set.insert new N" and ?P = "leaf_path P node new key v"
  have r: "root_node c \<in> N" "new \<noteq> root_node c" using tree_root[OF S(1)] D(1) by auto
  have PN: "?P n = P n" if "n \<in> N" for n using that D(1) by (auto simp: leaf_path_def)
  have ch: "children_ok c' ?N n" if n: "n \<in> ?N" for n
  proof (rule children_okI)
    show "dict_wf (children (at c' n))"
      using n D(5) D(14)[of n] tree_children[OF S(1), of n] by (cases "n = new") (auto simp: children_ok_def)
    fix k m assume g: "dict_get (children (at c' n)) k = Some m"
    then have nN: "n \<in> N" using n D(5) by auto
    show "m \<in> ?N \<and> m \<noteq> root_node c' \<and> parent (at c' m) = Some n \<and>
        child_key (node_key (at c' m)) (rc_page_size c') = Some k"
    proof (cases "n = node \<and> k = ck")
      case True
      then have "m = new" using g D(14)[OF nN] by (simp add: dict_simps)
      then show ?thesis using True D(2,3,6,7) S(8) r by simp
    next
      case False
      then have "dict_get (children (at c n)) k = Some m"
        using g D(14)[OF nN] by (auto simp: dict_simps split: if_splits)
      note M = tree_childD[OF S(1) nN this]
      show ?thesis using M D(2,3) D(11,12)[OF M(1)] by simp
    qed
  qed
  have pa: "parent_ok c' ?N ?P n \<and> key_ok c' (at c' n)" if n: "n \<in> ?N" "n \<noteq> root_node c" for n
  proof (cases "n = new")
    case True
    have "dict_get (children (at c' node)) ck = Some new" using D(14)[OF S(3)] by (simp add: dict_simps)
    moreover have "?P new = ?P node @ pairs (at c' new)"
      using PN[OF S(3)] D(7,8) by (simp add: leaf_path_def pairs_def)
    moreover have "key_ok c' (at c' new)" using S(5,6,7,10) D(3,4,7,8) by (simp add: key_ok_def)
    ultimately show ?thesis using True D(6) S(3) by (auto intro!: parent_okI[of node])
  next
    case False
    then have nN: "n \<in> N" using n by simp
    from tree_upE[OF S(1) nN n(2)] obtain q k where q: "q \<in> N" "parent (at c n) = Some q"
      "dict_get (children (at c q)) k = Some n" "P n = P q @ pairs (at c n)" by metis
    have "dict_get (children (at c' q)) k = Some n"
      using D(14)[OF q(1)] q(3) S(9) by (auto simp: dict_simps)
    moreover have "pairs (at c' n) = pairs (at c n)" using D(12,13)[OF nN] by (simp add: pairs_def)
    moreover have "key_ok c' (at c' n)" using tree_key[OF S(1) nN n(2)] D(3,4) D(12,13)[OF nN] by (simp add: key_ok_def)
    ultimately show ?thesis using q nN D(11)[OF nN] PN by (auto intro!: parent_okI[of q])
  qed
  have "n < node_counter c' \<and> heap c' n \<noteq> None" if "n \<in> ?N" for n
    using that d tree_fresh[OF S(1), of n] by (auto simp: leaf_added_def)
  then show ?thesis
    using treeD(1,2,3,5,6)[OF S(1)] D(2,3,10,13) r ch pa PN[OF r(1)] tree_P_root[OF S(1)] by (simp add: tree_def)
qed

lemma leaf_accounts:
  assumes st: "leaf_site c N P us node key ck v" and d: "leaf_added c c' N node new key ck v"
    and a: "accounts c N P H"
  shows "accounts c' (Set.insert new N) (leaf_path P node new key v) H"
proof -
  note S = leaf_siteD[OF st] and D = leaf_addedD[OF st d]
  let ?N = "Set.insert new N" and ?P = "leaf_path P node new key v" and ?ps = "rc_page_size c"
  have r: "root_node c \<in> N" "new \<noteq> root_node c" using tree_root[OF S(1)] D(1) by auto
  have PN: "?P n = P n" if "n \<in> N" for n using that D(1) by (auto simp: leaf_path_def)
  have H: "set_mset H \<subseteq> N" and L: "\<forall>n \<in> inner c N. lock_ref (at c n) = holders_below P H n"
    using a by (simp_all add: accounts_def locks_ok_def)
  have same: "holders_below ?P H n = holders_below P H n" if "n \<in> N" for n
    using PN[OF that] PN H by (auto simp: holders_below_def intro!: arg_cong[where f = size] filter_mset_cong)
  have "\<not> prefix (?P new) (P h)" if h: "h \<in> N" for h
  proof
    assume "prefix (?P new) (P h)"
    then have "prefix us (U P h)" using S(4,10) by (auto simp: leaf_path_def prefix_def)
    moreover have "?ps dvd length us" using tree_path_dvd[OF S(1,3)] S(4,6) by simp
    ultimately show False using deeper_child[OF S(1,2) h, of "length us"] S(4,5,9) by auto
  qed
  then have new: "holders_below ?P H new = 0"
    using H PN by (auto simp: holders_below_def filter_mset_eq_conv)
  have "lock_ref (at c' n) = holders_below ?P H n" if "n \<in> inner c' ?N" for n
    using that D(2,9) D(10)[of n] new same[of n] L by (cases "n = new") (auto simp: inner_def)
  then have locks: "locks_ok c' ?N ?P H" using H by (auto simp: locks_ok_def)
  have sets: "unlocked c' ?N = Set.insert new (unlocked c N)" "locked c' ?N = locked c N"
    using r D(1,2,9,10) by (auto simp: unlocked_def locked_def inner_def)
  have nl: "node_len c' new = int (rk_len key)" "\<And>n. n \<in> N \<Longrightarrow> node_len c' n = node_len c n"
    using D(7,12) by (simp_all add: node_len_def)
  have sub: "unlocked c N \<subseteq> N" "locked c N \<subseteq> N" by (auto simp: unlocked_def locked_def inner_def)
  then have fin: "finite (unlocked c N)" "new \<notin> unlocked c N"
    using tree_finite[OF S(1)] D(1) finite_subset by blast+
  have sums: "sum (node_len c') (unlocked c N) = sum (node_len c) (unlocked c N)"
    "sum (node_len c') (locked c N) = sum (node_len c) (locked c N)"
    using sub nl(2) by (auto intro!: sum.cong)
  have d': "evictable_size c' = evictable_size c + int (rk_len key)" "protected_size c' = protected_size c"
    "distinct (evictable_leaves c) \<longrightarrow> distinct (evictable_leaves c')"
    "set (evictable_leaves c') = Set.insert new (set (evictable_leaves c) - {node})"
    using d by (simp_all add: leaf_added_def)
  have sizes: "sizes_ok c' ?N"
    using a d'(1,2) sums fin nl(1) by (simp add: accounts_def sizes_ok_def sets)
  have chn: "children (at c' n) = [] \<longleftrightarrow> n \<noteq> node \<and> children (at c n) = []" if "n \<in> N" for n
    using D(14)[OF that] update_nonempty by auto
  have "{n \<in> unlocked c' ?N. children (at c' n) = []} = Set.insert new ({n \<in> unlocked c N. children (at c n) = []} - {node})"
    using sub D(1,5) chn by (auto simp: sets)
  then have "leaves_ok c' ?N" using a d'(3,4) by (simp add: accounts_def leaves_ok_def)
  with locks sizes show ?thesis by (simp add: accounts_def)
qed

lemma core_inc_hit [simp]: "core (inc_hit_count chunked nd) = core nd"
  by (simp add: core_def inc_hit_count_def)

lemma core_raise [simp]: "core (raise_priority prio nd) = core nd"
  by (simp add: core_def raise_priority_def)

lemma node_value_inc_hit [simp]: "node_value (inc_hit_count chunked nd) = node_value nd"
  "children (inc_hit_count chunked nd) = children nd" "lock_ref (inc_hit_count chunked nd) = lock_ref nd"
  by (simp_all add: inc_hit_count_def)

lemma heap_leaves_update [simp]: "heap (c\<lparr>evictable_leaves := L\<rparr>) = heap c"
  "at (c\<lparr>evictable_leaves := L\<rparr>) = at c"
  by (simp_all add: at_def fun_eq_iff)

lemma add_leaf_runs:
  assumes st: "leaf_site c N P us node key ck v" and ev: "\<not> enable_kv_cache_events c"
  shows "\<exists>c'. add_leaf node key v ck prio chunked c = Some c' \<and> leaf_added c c' N node (node_counter c) key ck v"
proof -
  note S = leaf_siteD[OF st]
  define new where "new = node_counter c"
  have fresh: "n < new" if "n \<in> N" for n using tree_fresh[OF S(1) that] by (simp add: new_def)
  then have ne: "node \<noteq> new" using S(3) by blast
  obtain c1 where c1: "tree_node_init prio c = (new, c1)"
    by (simp add: tree_node_init_def monotonic_def new_def Let_def)
  define c2 where "c2 = upd_node new (\<lambda>nd. inc_hit_count chunked
      (nd\<lparr>parent := Some node, node_key := key, node_value := Some v\<rparr>)) c1"
  define c3 where "c3 = upd_node node (\<lambda>nd. nd\<lparr>children := dict_set ck new (children nd)\<rparr>) c2"
  define c4 where "c4 = c3\<lparr>evictable_size := evictable_size c3 + int (rk_len key)\<rparr>"
  have c1f: "heap c1 n = heap c n" if "n \<noteq> new" for n
    using c1 that by (auto simp: tree_node_init_def monotonic_def new_def Let_def)
  have n0: "\<exists>nd. heap c1 new = Some nd \<and> children nd = [] \<and> lock_ref nd = 0"
    using c1 by (auto simp: tree_node_init_def monotonic_def new_def Let_def)
  have k1: "keeps c c1" "rc_alloc c1 = rc_alloc c" "node_counter c1 = Suc new" "evictable_size c1 = evictable_size c"
    "protected_size c1 = protected_size c" "evictable_leaves c1 = evictable_leaves c"
    using c1 by (auto simp: tree_node_init_def monotonic_def new_def Let_def keeps_def)
  have h4n: "\<exists>nd. heap c4 new = Some nd \<and> core nd = ([], Some node, key, Some v, 0)"
  proof -
    obtain nd where nd: "heap c1 new = Some nd" "children nd = []" "lock_ref nd = 0" using n0 by blast
    show ?thesis
      by (rule exI[of _ "inc_hit_count chunked (nd\<lparr>parent := Some node, node_key := key, node_value := Some v\<rparr>)"])
        (use nd ne in \<open>simp add: c4_def c3_def c2_def heap_upd_node\<close>, simp add: nd core_def)
  qed
  have h4p: "heap c4 node = Some ((at c node)\<lparr>children := dict_set ck new (children (at c node))\<rparr>)"
    using c1f[of node] ne tree_heap[OF S(1,3)] by (simp add: c4_def c3_def c2_def heap_upd_node)
  have h4: "heap c4 n = heap c n" if "n \<notin> {new, node}" for n
    using that c1f by (simp add: c4_def c3_def c2_def heap_upd_node)
  have k4: "keeps c c4" "rc_alloc c4 = rc_alloc c" "node_counter c4 = Suc new"
    "evictable_size c4 = evictable_size c + int (rk_len key)" "protected_size c4 = protected_size c"
    "evictable_leaves c4 = evictable_leaves c"
    using k1 by (simp_all add: c4_def c3_def c2_def upd_node_def keeps_def)
  obtain nd4 where nd4: "heap c4 new = Some nd4" "core nd4 = ([], Some node, key, Some v, 0)" using h4n by blast
  have nf4: "children nd4 = []" "node_value nd4 = Some v" "lock_ref nd4 = 0"
    using nd4(2) by (simp_all add: core_def)
  let ?pd = "(at c node)\<lparr>children := dict_set ck new (children (at c node))\<rparr>"
  have wf: "dict_wf (children (at c node))" using tree_children[OF S(1,3)] by (simp add: children_ok_def)
  have node4: "heap c4 node = Some ?pd" "node_value ?pd \<noteq> None" "children ?pd \<noteq> []"
    using h4p tree_node_value[OF S(1,3)] update_nonempty by auto
  have vals: "\<exists>cd. heap c4 m = Some cd \<and> node_value cd \<noteq> None" if m: "m \<in> set (dict_values (children ?pd))" for m
  proof -
    have "m \<in> set (dict_values (dict_set ck new (children (at c node))))" using m by simp
    from dict_value_get[OF dict_wf_set[OF wf] this] obtain k where
      k: "dict_get (dict_set ck new (children (at c node))) k = Some m" by blast
    show ?thesis
    proof (cases "k = ck")
      case True
      then show ?thesis using k nd4 nf4 by (simp add: dict_simps)
    next
      case False
      then have "dict_get (children (at c node)) k = Some m" using k by (simp add: dict_simps)
      then have mN: "m \<in> N" using tree_childD(1)[OF S(1,3)] by blast
      then have "m \<noteq> new" using fresh by blast
      then show ?thesis using h4[of m] tree_heap[OF S(1) mN] tree_node_value[OF S(1) mN] node4
        by (cases "m = node") auto
    qed
  qed
  from leaf_status[OF node4(1,2) vals] node4(3) obtain L where L:
    "update_leaf_status node c4 = Some (c4\<lparr>evictable_leaves := L\<rparr>)"
    "distinct (evictable_leaves c4) \<longrightarrow> distinct L" "set L = set (evictable_leaves c4) - {node}" by auto
  let ?c5 = "c4\<lparr>evictable_leaves := L\<rparr>"
  have "heap ?c5 new = Some nd4" "node_value nd4 \<noteq> None" using nd4(1) nf4 by simp_all
  from leaf_status[OF this] nf4 obtain M where M:
    "update_leaf_status new ?c5 = Some (?c5\<lparr>evictable_leaves := M\<rparr>)"
    "distinct L \<longrightarrow> distinct M" "set M = Set.insert new (set L)" by auto
  define c6 where "c6 = c4\<lparr>evictable_leaves := M\<rparr>"
  have k6: "keeps c c6" "rc_alloc c6 = rc_alloc c" "node_counter c6 = Suc new"
    "evictable_size c6 = evictable_size c + int (rk_len key)" "protected_size c6 = protected_size c"
    "evictable_leaves c6 = M" "heap c6 = heap c4" "at c6 = at c4"
    using k4 by (simp_all add: c6_def keeps_def at_def fun_eq_iff)
  have ev6: "\<not> enable_kv_cache_events c6" using k6(1) ev by (simp add: keeps_def)
  have run: "add_leaf node key v ck prio chunked c = Some c6"
    using L(1) M(1) ev6
    by (simp add: add_leaf_def c1 c2_def[symmetric] c3_def[symmetric] c4_def[symmetric] c6_def[symmetric]
        record_store_event_def Let_def)
  have "leaf_added c c6 N node new key ck v"
    unfolding leaf_added_def
  proof (intro conjI)
    show "\<forall>n. n \<notin> {new, node} \<longrightarrow> heap c6 n = heap c n" using h4 k6(7) by simp
    show "\<forall>n \<in> Set.insert new N. heap c6 n \<noteq> None"
      using h4 nd4(1) node4(1) tree_heap[OF S(1)] k6(7) by (metis insertE option.distinct(1) singletonD)
    show "core (at c6 new) = ([], Some node, key, Some v, 0)" using nd4 k6(7) by (simp add: at_def)
    show "core (at c6 node) = (dict_set ck new (children (at c node)), parent (at c node), node_key (at c node),
        node_value (at c node), lock_ref (at c node))" using node4(1) k6(7) by (simp add: at_def core_def)
    show "distinct (evictable_leaves c) \<longrightarrow> distinct (evictable_leaves c6)" using L(2) M(2) k4(6) k6(6) by simp
    show "set (evictable_leaves c6) = Set.insert new (set (evictable_leaves c) - {node})"
      using L(3) M(3) k4(6) k6(6) by simp
  qed (simp_all add: k6 new_def)
  with run show ?thesis by (auto simp: new_def)
qed

section \<open>The walk of an insertion\<close>

definition walk_inv :: "radix_cache \<Rightarrow> nid set \<Rightarrow> (nid \<Rightarrow> slot_unit list) \<Rightarrow> unit_id list \<Rightarrow> int list \<Rightarrow>
    insert_state \<Rightarrow> nid set \<Rightarrow> (nid \<Rightarrow> slot_unit list) \<Rightarrow> bool" where
  "walk_inv c0 N0 P0 us val0 st N P \<longleftrightarrow> (case st of (c, node, key, v, ck, matched) \<Rightarrow>
     heap_only c0 c \<and> tree c N P \<and> same_content N0 P0 N P \<and>
     (\<forall>H. accounts c0 N0 P0 H \<longrightarrow> accounts c N P H) \<and> rest_ok c N P us node key ck \<and>
     matched = length (P node) \<and> v = drop matched val0)"

definition walk_end :: "insert_state \<Rightarrow> bool" where
  "walk_end st \<longleftrightarrow> (case st of (c, node, key, v, ck, matched) \<Rightarrow>
     0 < rk_len key \<longrightarrow> dict_get (children (at c node)) ck = None)"

lemma walk_inv_core:
  assumes "walk_inv c0 N0 P0 us val0 (c, node, key, v, ck, k) N P" and s: "same_core N c c'"
  shows "walk_inv c0 N0 P0 us val0 (c', node, key, v, ck, k) N P"
  using assms heap_only_trans[of c0 c c'] same_core_tree[OF s] same_core_accounts[OF s] rest_ok_core[OF s]
  by (auto simp: walk_inv_def same_core_def)

definition next_ck :: "radix_key \<Rightarrow> nat \<Rightarrow> ckey \<Rightarrow> ckey" where
  "next_ck key ps ck = (if rk_len key > 0 then the (child_key key ps) else ck)"

lemma next_ck_eq:
  assumes "tree c N P" and "rc_page_size c dvd rk_len key"
  shows "(if rk_len key > 0 then (case child_key key (rc_page_size c) of None \<Rightarrow> None | Some ck \<Rightarrow> Some (f ck))
          else Some (f ck)) = Some (f (next_ck key (rc_page_size c) ck))"
    and "0 < rk_len key \<Longrightarrow> child_key key (rc_page_size c) = Some (next_ck key (rc_page_size c) ck)"
proof -
  show 2: "0 < rk_len key \<Longrightarrow> child_key key (rc_page_size c) = Some (next_ck key (rc_page_size c) ck)"
    using child_key_total[OF assms] by (auto simp: next_ck_def)
  show "(if rk_len key > 0 then (case child_key key (rc_page_size c) of None \<Rightarrow> None | Some ck \<Rightarrow> Some (f ck))
          else Some (f ck)) = Some (f (next_ck key (rc_page_size c) ck))"
  proof (cases "0 < rk_len key")
    case True
    then show ?thesis by (simp add: 2)
  qed (simp add: next_ck_def)
qed

lemma insert_step_ok:
  assumes i: "walk_inv c0 N0 P0 us val0 st N P"
  shows "(\<exists>r. insert_step access_time prio chunked st = Some (Inl r) \<and> walk_inv c0 N0 P0 us val0 r N P \<and> walk_end r) \<or>
    (\<exists>st' N' P'. insert_step access_time prio chunked st = Some (Inr st') \<and> walk_inv c0 N0 P0 us val0 st' N' P' \<and>
       (case st' of (_, _, key, _) \<Rightarrow> rk_len key) < (case st of (_, _, key, _) \<Rightarrow> rk_len key))"
proof -
  obtain c node key v ck k where st: "st = (c, node, key, v, ck, k)" by (cases st)
  have t: "tree c N P" and r: "rest_ok c N P us node key ck" and v: "k = length (P node)" "v = drop k val0"
    using i by (simp_all add: walk_inv_def st)
  have nN: "node \<in> N" using r by (simp add: rest_ok_def)
  have hn: "heap c node = Some (at c node)" using tree_heap[OF t nN] .
  show ?thesis
  proof (cases "if rk_len key > 0 then dict_get (children (at c node)) ck else None")
    case None
    then have "insert_step access_time prio chunked st = Some (Inl st)" "walk_end st"
      using hn by (simp_all add: st walk_end_def split: if_splits)
    then show ?thesis using i by blast
  next
    case (Some child)
    then have len: "0 < rk_len key" and g: "dict_get (children (at c node)) ck = Some child"
      by (simp_all split: if_splits)
    define c1 where "c1 = upd_node child (\<lambda>nd. nd\<lparr>last_access_time := access_time\<rparr>) c"
    have s1: "same_core N c c1" unfolding c1_def by (rule same_core_upd_node[OF t]) (simp add: core_def)
    note t1 = same_core_tree[OF s1 t] and r1 = rest_ok_core[OF s1 r]
    have i1: "walk_inv c0 N0 P0 us val0 (c1, node, key, v, ck, k) N P" using walk_inv_core[OF i[unfolded st] s1] .
    have g1: "dict_get (children (at c1 node)) ck = Some child" using g same_coreD(1)[OF s1 nN] by simp
    note F = found_child[OF t1 r1 len g1]
    let ?ps = "rc_page_size c1" and ?k = "node_key (at c1 child)"
    define m where "m = zip_match (units ?k) (units key) div ?ps * ?ps"
    have mm: "rk_match ?k key ?ps = Some m" using F(3) by (simp add: m_def)
    have cN: "child \<in> N" using upD(1)[OF t1 F(1)] .
    have hc: "heap c1 child = Some (at c1 child)" using tree_heap[OF t1 cN] .
    have pm: "?ps \<le> m"
      unfolding m_def using div_le_mono[OF F(4), of ?ps] tree_ps[OF t1]
      by (metis One_nat_def div_self less_nat_zero_code mult_le_mono1 nat_mult_1 neq0_conv)
    have smaller: "rk_len (rk_from key m) < rk_len key" using len pm tree_ps[OF t1] by simp
    define bump where "bump = (\<lambda>nd. inc_hit_count chunked (raise_priority prio nd))"
    have bump: "core (bump nd) = core nd" for nd by (simp add: bump_def)
    define go where "go = (\<lambda>(n, c). let c = upd_node n bump c in
      if rk_len (rk_from key m) > 0
      then (case child_key (rk_from key m) (rc_page_size c) of None \<Rightarrow> None
            | Some ck \<Rightarrow> Some (Inr (c, n, rk_from key m, drop m v, ck, k + m) :: insert_state + insert_state))
      else Some (Inr (c, n, rk_from key m, drop m v, ck, k + m)))"
    have step: "insert_step access_time prio chunked st =
      (case (if m < rk_len ?k then split_node ?k child m c1 else Some (child, c1)) of None \<Rightarrow> None | Some nc \<Rightarrow> go nc)"
      using hn Some hc mm unfolding st insert_step.simps Let_def
      by (simp add: c1_def[symmetric] go_def bump_def Let_def split: option.split)
    have "?ps dvd m" "?ps dvd rk_len key" using r1 by (simp_all add: m_def rest_ok_def)
    then have dv: "?ps dvd rk_len (rk_from key m)" by simp
    have finish: "insert_step access_time prio chunked st =
          Some (Inr (upd_node n bump c2, n, rk_from key m, drop m v, next_ck (rk_from key m) ?ps ck, k + m)) \<and>
        walk_inv c0 N0 P0 us val0
          (upd_node n bump c2, n, rk_from key m, drop m v, next_ck (rk_from key m) ?ps ck, k + m) N2 P2"
      if n: "(if m < rk_len ?k then split_node ?k child m c1 else Some (child, c1)) = Some (n, c2)"
        and w: "walk_inv c0 N0 P0 us val0 (c2, n, rk_from key m, drop m v, next_ck (rk_from key m) ?ps ck, k + m) N2 P2"
        and ps2: "rc_page_size c2 = ?ps" for n c2 N2 P2
    proof -
      have t2: "tree c2 N2 P2" using w by (simp add: walk_inv_def)
      have s2: "same_core N2 c2 (upd_node n bump c2)" by (rule same_core_upd_node[OF t2 bump])
      note w2 = walk_inv_core[OF w s2]
      have t3: "tree (upd_node n bump c2) N2 P2" using w2 by (simp add: walk_inv_def)
      have ps3: "rc_page_size (upd_node n bump c2) = ?ps" using ps2 by (simp add: upd_node_def)
      have "go (n, c2) = Some (Inr (upd_node n bump c2, n, rk_from key m, drop m v, next_ck (rk_from key m) ?ps ck, k + m))"
        unfolding go_def prod.case Let_def
        using next_ck_eq(1)[OF t3, of "rk_from key m" "\<lambda>ck. Inr (upd_node n bump c2, n, rk_from key m, drop m v, ck, k + m)" ck]
          dv ps3 by simp
      then show ?thesis using step n w2 by simp
    qed
    show ?thesis
    proof (cases "m < rk_len ?k")
      case True
      have site: "split_site c1 N P child node m"
        using t1 F(1) True pm tree_ps[OF t1] by (auto simp: split_site_def m_def)
      from split_runs[OF site] obtain new c2 ck2 rck2 where
        sp: "split_node ?k child m c1 = Some (new, c2)" "split_done c1 c2 N child node m new ck2 rck2" by blast
      note D = split_doneD[OF site sp(2)] and h2 = heap_onlyD[OF split_doneD(2)[OF site sp(2)]]
      let ?N = "Set.insert new N" and ?P = "split_path P c1 child node m new"
      have t2: "tree c2 ?N ?P" using split_tree[OF site sp(2)] .
      have Pn: "?P new = P node @ take m (pairs (at c1 child))" by (simp add: split_path_def)
      have lp: "length (?P new) = length (P node) + m" using length_pairs[OF F(2)] True by (simp add: Pn)
      have tk: "take m (units ?k) = take m (units key)"
        using zip_match_iff[of m "units ?k" "units key"] by (simp add: m_def)
      have us: "us = U ?P new @ units (rk_from key m)"
        using r1 tk map_fst_pairs[OF F(2)] by (simp add: Pn take_map[symmetric] rest_ok_def)
      have "rest_ok c2 ?N ?P us new (rk_from key m) (next_ck (rk_from key m) ?ps ck)"
        using us dv r1 next_ck_eq(2)[OF t1 dv] h2 by (simp add: rest_ok_def)
      then have "walk_inv c0 N0 P0 us val0 (c2, new, rk_from key m, drop m v, next_ck (rk_from key m) ?ps ck, k + m) ?N ?P"
        using i1 t2 lp v heap_only_trans[OF _ D(2)] same_content_trans[OF _ split_content[OF site sp(2)]]
          split_accounts[OF site sp(2)]
        by (auto simp: walk_inv_def add.commute)
      from finish[OF _ this h2(2)] sp(1) True smaller show ?thesis by (simp add: st) blast
    next
      case False
      have mk: "m = rk_len ?k"
        using False zip_match_le(1)[of "units ?k" "units key"] by (simp add: m_def le_antisym not_less)
          (metis div_times_less_eq_dividend le_antisym le_trans)
      have zl: "rk_len ?k \<le> zip_match (units ?k) (units key)" using mk by (metis div_times_less_eq_dividend m_def)
      have "rest_ok c1 N P us child (rk_from key m) (next_ck (rk_from key m) ?ps ck)"
        using rest_step[OF t1 r1 F(1) mm[unfolded mk] zl next_ck_eq(2)[OF t1 dv, unfolded mk]] by (simp add: mk)
      then have "walk_inv c0 N0 P0 us val0 (c1, child, rk_from key m, drop m v, next_ck (rk_from key m) ?ps ck, k + m) N P"
        using i1 v mk upD(4)[OF t1 F(1)] length_pairs[OF F(2)] by (simp add: walk_inv_def add.commute)
      from finish[OF _ this refl] False smaller show ?thesis by (simp add: st) blast
    qed
  qed
qed

section \<open>The result of an insertion\<close>

definition insert_done :: "radix_cache \<Rightarrow> nid set \<Rightarrow> (nid \<Rightarrow> slot_unit list) \<Rightarrow> unit_id list \<Rightarrow> int list \<Rightarrow>
    nat \<times> radix_cache \<Rightarrow> nid set \<Rightarrow> (nid \<Rightarrow> slot_unit list) \<Rightarrow> bool" where
  "insert_done c0 N0 P0 us val0 r N P \<longleftrightarrow> (case r of (matched, c) \<Rightarrow>
     keeps c0 c \<and> rc_alloc c = rc_alloc c0 \<and> tree c N P \<and> (\<forall>H. accounts c0 N0 P0 H \<longrightarrow> accounts c N P H) \<and>
     N0 \<subseteq> N \<and> (\<forall>n \<in> N0. P n = P0 n) \<and> matched \<le> length us \<and>
     longest (rc_page_size c0) N0 P0 us matched \<and>
     (\<exists>n \<in> N. U P n = us \<and> map snd (drop matched (P n)) = drop matched val0 \<and>
        (\<exists>m \<in> N0. prefix (take matched (P n)) (P0 m))) \<and>
     (\<forall>m \<in> N. (\<exists>n \<in> N0. prefix (P m) (P0 n)) \<or> U P m = us) \<and>
     evictable_size c = evictable_size c0 + int (length us - matched))"

lemma longest_content:
  assumes "same_content N0 P0 N P" and "longest ps N P us k"
  shows "longest ps N0 P0 us k"
  using assms by (auto simp: longest_def same_content_def)

lemma content_covered: "same_content N0 P0 N P \<Longrightarrow> m \<in> N \<Longrightarrow> \<exists>n \<in> N0. prefix (P m) (P0 n)"
  by (simp add: same_content_def)

text \<open>Where the walk ends: the key is exhausted, or a leaf for its rest is added.\<close>

lemma walk_finish:
  assumes w: "walk_inv c0 N0 P0 us val0 (c, node, key, v, ck, k) N P"
    and e: "walk_end (c, node, key, v, ck, k)" and l: "length val0 = length us"
    and ev: "\<not> enable_kv_cache_events c0"
  shows "\<exists>r N' P'. (if rk_len key > 0 then map_option (Pair k) (add_leaf node key v ck prio chunked c)
      else Some (k, c)) = Some r \<and> insert_done c0 N0 P0 us val0 r N' P'"
proof -
  have ho: "heap_only c0 c" and t: "tree c N P" and sc: "same_content N0 P0 N P"
    and ac: "\<forall>H. accounts c0 N0 P0 H \<longrightarrow> accounts c N P H" and r: "rest_ok c N P us node key ck"
    and k: "k = length (P node)" and v: "v = drop k val0" using w by (simp_all add: walk_inv_def)
  note h = heap_onlyD[OF ho] and kp = heap_only_keeps[OF ho]
  have nN: "node \<in> N" and us: "us = U P node @ units key" using r by (simp_all add: rest_ok_def)
  have none: "0 < rk_len key \<Longrightarrow> dict_get (children (at c node)) ck = None" using e by (simp add: walk_end_def)
  have lg: "longest (rc_page_size c0) N0 P0 us k"
    using longest_content[OF sc longest_stuck[OF t r none]] h k by simp
  have ex: "\<exists>m \<in> N0. prefix (P node) (P0 m)" using content_covered[OF sc nN] .
  have kl: "k \<le> length us" using us k by simp
  have old: "N0 \<subseteq> N" "\<forall>n \<in> N0. P n = P0 n" using sc by (simp_all add: same_content_def)
  show ?thesis
  proof (cases "rk_len key > 0")
    case False
    then have "units key = []" by (metis length_0_conv length_units neq0_conv)
    then have usn: "U P node = us" "k = length us" using us k by simp_all
    then have "insert_done c0 N0 P0 us val0 (k, c) N P"
      using kp h t ac old lg ex l nN content_covered[OF sc] k by (auto simp: insert_done_def)
    then show ?thesis using False by auto
  next
    case True
    have site: "leaf_site c N P us node key ck v"
      using t r True none v l us k by (simp add: leaf_site_def)
    from add_leaf_runs[OF site, of prio chunked] ev h(10) obtain c' where
      c': "add_leaf node key v ck prio chunked c = Some c'"
        "leaf_added c c' N node (node_counter c) key ck v" by auto
    let ?N = "Set.insert (node_counter c) N" and ?P = "leaf_path P node (node_counter c) key v"
    note D = leaf_addedD[OF site c'(2)]
    have PN: "?P n = P n" if "n \<in> N" for n using that D(1) by (auto simp: leaf_path_def)
    have Pn: "?P (node_counter c) = P node @ zip (units key) v" by (simp add: leaf_path_def)
    have lv: "length v = rk_len key" using site by (simp add: leaf_site_def)
    have newU: "U ?P (node_counter c) = us" "map snd (drop k (?P (node_counter c))) = drop k val0"
      "take k (?P (node_counter c)) = P node"
      using Pn us lv k v by simp_all
    have "evictable_size c' = evictable_size c0 + int (length us - k)"
      using c'(2) h us k by (simp add: leaf_added_def)
    moreover have "keeps c0 c'" "rc_alloc c' = rc_alloc c0"
      using c'(2) kp h keeps_trans by (auto simp: leaf_added_def)
    moreover have "\<forall>m \<in> ?N. (\<exists>n \<in> N0. prefix (?P m) (P0 n)) \<or> U ?P m = us"
      using newU(1) PN content_covered[OF sc] by auto
    moreover have "\<forall>H. accounts c0 N0 P0 H \<longrightarrow> accounts c' ?N ?P H"
      using ac leaf_accounts[OF site c'(2)] by blast
    moreover have "N0 \<subseteq> ?N" "\<forall>n \<in> N0. ?P n = P0 n" using old PN by auto
    ultimately have "insert_done c0 N0 P0 us val0 (k, c') ?N ?P"
      using leaf_tree[OF site c'(2)] kl lg ex newU by (auto simp: insert_done_def)
    then show ?thesis using True c'(1) by auto
  qed
qed

lemma insert_helper_done:
  assumes t: "tree c N P" and ev: "\<not> enable_kv_cache_events c"
    and k: "rc_page_size c dvd rk_len key" "is_bigram key = rc_is_eagle c" and l: "length v = rk_len key"
  shows "\<exists>r N' P'. insert_helper (root_node c) key v priority chunked c = Some r \<and>
    insert_done c N P (units key) v r N' P'"
proof -
  define prio where "prio = (case priority of None \<Rightarrow> 0 | Some p \<Rightarrow> p)"
  define tm c1 where "tm = fst (monotonic c)" and "c1 = snd (monotonic c)"
  define c2 where "c2 = upd_node (root_node c) (\<lambda>nd. raise_priority prio (nd\<lparr>last_access_time := tm\<rparr>)) c1"
  have s1: "same_core N c c1" unfolding c1_def by (rule same_core_monotonic[OF t])
  have s2: "same_core N c1 c2" unfolding c2_def
    by (rule same_core_upd_node[OF same_core_tree[OF s1 t]]) (simp add: core_def raise_priority_def)
  note s = same_core_trans[OF s1 s2]
  have ho: "heap_only c c2" using s by (simp add: same_core_def)
  define ck where "ck = the (child_key key (rc_page_size c2))"
  have ck: "0 < rk_len key \<Longrightarrow> child_key key (rc_page_size c2) = Some ck"
    using child_key_total[OF t k(1)] heap_onlyD(2)[OF ho] by (auto simp: ck_def)
  have "rest_ok c N P (units key) (root_node c) key ck"
    using treeD(3,4)[OF t] k ck heap_onlyD(2)[OF ho] by (simp add: rest_ok_def)
  then have i: "walk_inv c N P (units key) v (c2, root_node c, key, v, ck, 0) N P"
    using s same_core_tree[OF s t] rest_ok_core[OF s] tree_P_root[OF t] same_core_accounts[OF s]
    by (simp add: walk_inv_def same_core_def)
  have lu: "length v = length (units key)" using l by simp
  let ?fin = "\<lambda>(c, node, key, v, ck, k). if rk_len key > 0
      then map_option (Pair k) (add_leaf node key v ck prio chunked c) else Some (k, c)"
  show ?thesis
  proof (cases "rk_len key = 0")
    case True
    have "walk_end (c2, root_node c, key, v, ck, 0)" using True by (simp add: walk_end_def)
    from walk_finish[OF i this lu ev] True show ?thesis
      by (simp add: insert_helper_def Let_def split_beta c1_def[symmetric] tm_def[symmetric] prio_def[symmetric]
          c2_def[symmetric])
  next
    case False
    have run: "insert_helper (root_node c) key v priority chunked c =
      (case iterate (insert_step tm prio chunked) (c2, root_node c, key, v, ck, 0) of None \<Rightarrow> None | Some st \<Rightarrow> ?fin st)"
      using False ck by (simp add: insert_helper_def Let_def split_beta c1_def[symmetric] tm_def[symmetric]
          prio_def[symmetric] c2_def[symmetric])
    let ?I = "\<lambda>st. \<exists>N' P'. walk_inv c N P (units key) v st N' P'"
    have "\<exists>r. iterate (insert_step tm prio chunked) (c2, root_node c, key, v, ck, 0) = Some r \<and> (?I r \<and> walk_end r)"
    proof (rule iterate_total[where I = ?I and m = "\<lambda>st. case st of (_, _, key, _) \<Rightarrow> rk_len key"])
      show "?I (c2, root_node c, key, v, ck, 0)" using i by blast
      fix st assume "?I st"
      then obtain N' P' where "walk_inv c N P (units key) v st N' P'" by blast
      from insert_step_ok[OF this, of tm prio chunked]
      show "(\<exists>r. insert_step tm prio chunked st = Some (Inl r) \<and> (?I r \<and> walk_end r)) \<or>
        (\<exists>st'. insert_step tm prio chunked st = Some (Inr st') \<and> ?I st' \<and>
          (case st' of (_, _, key, _) \<Rightarrow> rk_len key) < (case st of (_, _, key, _) \<Rightarrow> rk_len key))"
        by blast
    qed
    then obtain c3 n3 key3 v3 ck3 k3 N' P' where
      it: "iterate (insert_step tm prio chunked) (c2, root_node c, key, v, ck, 0) = Some (c3, n3, key3, v3, ck3, k3)"
      and w: "walk_inv c N P (units key) v (c3, n3, key3, v3, ck3, k3) N' P'" "walk_end (c3, n3, key3, v3, ck3, k3)"
      by (metis prod_cases6)
    from walk_finish[OF w lu ev] show ?thesis unfolding run it by simp
  qed
qed

lemma radix_insert_done:
  assumes t: "tree c N P" and ev: "\<not> enable_kv_cache_events c" and nd: "\<not> rc_disable c" and k: "key_fits c key"
    and l: "length (lookup_units c key) \<le> length vs"
  shows "\<exists>r N' P'. radix_insert key (Some vs) priority chunked c = Some r \<and>
    insert_done c N P (lookup_units c key) (take (length (lookup_units c key)) vs) r N' P'"
proof -
  define b where "b = fst (maybe_to_bigram_view key (rc_is_eagle c) None)"
  let ?a = "page_aligned b (rc_page_size c)"
  have bb: "is_bigram b = rc_is_eagle c" unfolding b_def by (rule bigram_view_fits[OF k])
  have lu: "units ?a = lookup_units c key"
    using units_page_aligned[OF tree_ps[OF t]] by (simp add: lookup_units_def b_def Let_def)
  then have la: "rk_len ?a = length (lookup_units c key)" by (metis length_units)
  have lb: "rk_len ?a \<le> rk_len b" using rk_len_page_aligned[OF tree_ps[OF t], of b] by simp
  have v: "\<exists>w. maybe_to_bigram_view key (rc_is_eagle c) (Some vs) = (b, Some w) \<and> take (rk_len ?a) w = take (rk_len ?a) vs"
    using lb unfolding b_def maybe_to_bigram_view_def by (auto simp: Let_def min_def)
  then obtain w where w: "maybe_to_bigram_view key (rc_is_eagle c) (Some vs) = (b, Some w)"
    "take (rk_len ?a) w = take (rk_len ?a) vs" by blast
  have run: "radix_insert key (Some vs) priority chunked c =
      insert_helper (root_node c) ?a (take (rk_len ?a) vs) priority chunked c"
    using nd w by (simp add: radix_insert_def Let_def)
  have dvd: "rc_page_size c dvd rk_len ?a" by (simp add: rk_len_page_aligned[OF tree_ps[OF t]])
  have big: "is_bigram ?a = rc_is_eagle c" by (simp add: bb)
  have len: "length (take (rk_len ?a) vs) = rk_len ?a" using l la by simp
  from insert_helper_done[OF t ev dvd big len, of priority chunked] show ?thesis
    unfolding run lu la .
qed

end
