(* ===== verification/RadixLock.thy ===== *)
theory RadixLock
  imports RadixInsert
begin

text \<open>
  \<open>inc_lock_ref\<close> and \<open>dec_lock_ref\<close> walk from a node to the root; both return and move the sizes of the
  nodes whose count leaves or reaches zero between \<open>evictable_size\<close> and \<open>protected_size\<close>.
\<close>

section \<open>Changing one lock count\<close>

text \<open>\<open>relock cur l' c\<close>: the count of \<open>cur\<close> becomes \<open>l'\<close>, the two sizes follow.\<close>

definition relock :: "nid \<Rightarrow> int \<Rightarrow> radix_cache \<Rightarrow> radix_cache" where
  "relock cur l' c = (let l = lock_ref (at c cur);
       d = (if l = 0 \<and> l' \<noteq> 0 then - node_len c cur else if l \<noteq> 0 \<and> l' = 0 then node_len c cur else 0)
     in upd_node cur (\<lambda>nd. nd\<lparr>lock_ref := l'\<rparr>)
          (c\<lparr>evictable_size := evictable_size c + d, protected_size := protected_size c - d\<rparr>))"

lemma heap_relock: "heap (relock cur l' c) m = (if m = cur then map_option (\<lambda>nd. nd\<lparr>lock_ref := l'\<rparr>) (heap c cur) else heap c m)"
  by (simp add: relock_def Let_def heap_upd_node)

lemma at_relock: "heap c cur \<noteq> None \<Longrightarrow> at (relock cur l' c) m = (if m = cur then (at c cur)\<lparr>lock_ref := l'\<rparr> else at c m)"
  by (auto simp: at_def heap_relock)

lemma relock_fields [simp]:
  "root_node (relock cur l' c) = root_node c" "rc_page_size (relock cur l' c) = rc_page_size c"
  "rc_is_eagle (relock cur l' c) = rc_is_eagle c" "node_counter (relock cur l' c) = node_counter c"
  "evictable_leaves (relock cur l' c) = evictable_leaves c" "rc_alloc (relock cur l' c) = rc_alloc c"
  "keeps c (relock cur l' c)"
  by (simp_all add: relock_def Let_def upd_node_def keeps_def)

definition shape_eq :: "radix_cache \<Rightarrow> radix_cache \<Rightarrow> nid \<Rightarrow> bool" where
  "shape_eq c c' n \<longleftrightarrow> heap c' n \<noteq> None \<and> children (at c' n) = children (at c n) \<and> parent (at c' n) = parent (at c n) \<and>
     node_key (at c' n) = node_key (at c n) \<and> node_value (at c' n) = node_value (at c n)"

text \<open>The tree part of the invariant does not look at lock counts, except the root's.\<close>

lemma tree_shape:
  assumes t: "tree c N P" and s: "\<And>n. n \<in> N \<Longrightarrow> shape_eq c c' n"
    and f: "root_node c' = root_node c" "rc_page_size c' = rc_page_size c" "rc_is_eagle c' = rc_is_eagle c"
      "node_counter c \<le> node_counter c'" "lock_ref (at c' (root_node c)) = 1"
  shows "tree c' N P"
proof -
  note S = s[unfolded shape_eq_def]
  have ch: "children_ok c' N n" if n: "n \<in> N" for n
  proof (rule children_okI)
    show "dict_wf (children (at c' n))" using tree_children[OF t n] S[OF n] by (simp add: children_ok_def)
    fix ck m assume "dict_get (children (at c' n)) ck = Some m"
    then have g: "dict_get (children (at c n)) ck = Some m" using S[OF n] by simp
    note m = tree_childD[OF t n g]
    show "m \<in> N \<and> m \<noteq> root_node c' \<and> parent (at c' m) = Some n \<and>
        child_key (node_key (at c' m)) (rc_page_size c') = Some ck"
      using m S[OF m(1)] f by simp
  qed
  have pa: "parent_ok c' N P n \<and> key_ok c' (at c' n)" if n: "n \<in> N" "n \<noteq> root_node c" for n
  proof -
    from tree_upE[OF t n] obtain p ck where p: "p \<in> N" "parent (at c n) = Some p"
      "dict_get (children (at c p)) ck = Some n" "P n = P p @ pairs (at c n)" by metis
    have "pairs (at c' n) = pairs (at c n)" using S[OF n(1)] by (simp add: pairs_def)
    moreover have "key_ok c' (at c' n)" using tree_key[OF t n] S[OF n(1)] f by (simp add: key_ok_def)
    ultimately show ?thesis using p S[OF n(1)] S[OF p(1)] by (auto intro!: parent_okI[of p])
  qed
  have "n < node_counter c' \<and> heap c' n \<noteq> None" if "n \<in> N" for n
    using tree_fresh[OF t that] S[OF that] f(4) by simp
  then show ?thesis
    using treeD(1,2,3,4,6)[OF t] S[OF tree_root[OF t]] f ch pa by (simp add: tree_def)
qed

lemma relock_shape: "tree c N P \<Longrightarrow> cur \<in> N \<Longrightarrow> n \<in> N \<Longrightarrow> shape_eq c (relock cur l' c) n"
  using tree_heap[of c N P n] tree_heap[of c N P cur] by (simp add: shape_eq_def heap_relock at_relock)

lemma sum_move:
  fixes f :: "nid \<Rightarrow> int"
  assumes "finite A" "x \<notin> A"
  shows "sum f (Set.insert x A) = sum f A + f x"
  using assms by simp

lemma relock_sizes:
  assumes t: "tree c N P" and s: "sizes_ok c N" and n: "cur \<in> inner c N"
  shows "sizes_ok (relock cur l' c) N"
proof -
  let ?c = "relock cur l' c" and ?l = "lock_ref (at c cur)"
  have cN: "cur \<in> N" "cur \<noteq> root_node c" using n by (simp_all add: inner_def)
  have h: "heap c cur \<noteq> None" using tree_heap[OF t cN(1)] by simp
  note A = at_relock[OF h, of l']
  have nl: "node_len ?c m = node_len c m" for m by (simp add: node_len_def A)
  have nl': "sum (node_len ?c) X = sum (node_len c) X" for X by (simp add: nl)
  have fin: "finite (unlocked c N)" "finite (locked c N)"
    using tree_finite[OF t] by (auto simp: unlocked_def locked_def inner_def)
  have u: "unlocked ?c N = (if l' = 0 then Set.insert cur (unlocked c N) else unlocked c N - {cur})"
    "locked ?c N = (if l' = 0 then locked c N - {cur} else Set.insert cur (locked c N))"
    using n by (auto simp: unlocked_def locked_def inner_def A)
  have m: "cur \<in> unlocked c N \<longleftrightarrow> ?l = 0" "cur \<in> locked c N \<longleftrightarrow> ?l \<noteq> 0"
    using n by (auto simp: unlocked_def locked_def)
  have ev: "evictable_size ?c = evictable_size c + (if ?l = 0 \<and> l' \<noteq> 0 then - node_len c cur
        else if ?l \<noteq> 0 \<and> l' = 0 then node_len c cur else 0)"
    "protected_size ?c = protected_size c - (if ?l = 0 \<and> l' \<noteq> 0 then - node_len c cur
        else if ?l \<noteq> 0 \<and> l' = 0 then node_len c cur else 0)"
    by (simp_all add: relock_def Let_def upd_node_def)
  have S: "evictable_size c = sum (node_len c) (unlocked c N)" "protected_size c = sum (node_len c) (locked c N)"
    using s by (simp_all add: sizes_ok_def)
  consider "?l = 0" "l' = 0" | "?l = 0" "l' \<noteq> 0" | "?l \<noteq> 0" "l' = 0" | "?l \<noteq> 0" "l' \<noteq> 0" by blast
  then show ?thesis
    unfolding sizes_ok_def nl' u ev S
    by cases (use m fin in \<open>simp_all add: sum_diff1 insert_absorb\<close>)
qed

lemma relock_leaf_update:
  assumes t: "tree c N P" and l: "leaves_ok c N" and n: "cur \<in> inner c N" and l': "0 \<le> l'"
  shows "\<exists>L. update_leaf_status cur (relock cur l' c) = Some ((relock cur l' c)\<lparr>evictable_leaves := L\<rparr>) \<and>
     leaves_ok ((relock cur l' c)\<lparr>evictable_leaves := L\<rparr>) N"
proof -
  let ?c = "relock cur l' c"
  have cN: "cur \<in> N" "cur \<noteq> root_node c" using n by (simp_all add: inner_def)
  have h: "heap c cur \<noteq> None" using tree_heap[OF t cN(1)] by simp
  note A = at_relock[OF h, of l']
  have hc: "heap ?c cur = Some ((at c cur)\<lparr>lock_ref := l'\<rparr>)" using tree_heap[OF t cN(1)] by (simp add: heap_relock)
  have v: "node_value ((at c cur)\<lparr>lock_ref := l'\<rparr>) \<noteq> None" using tree_node_value[OF t cN(1)] by simp
  have "\<exists>cd. heap ?c m = Some cd \<and> node_value cd \<noteq> None"
    if "m \<in> set (dict_values (children ((at c cur)\<lparr>lock_ref := l'\<rparr>)))" for m
    using tree_child_values[OF t cN(1), of m] that by (auto simp: heap_relock)
  from leaf_status[OF hc v this] obtain L where L:
    "update_leaf_status cur ?c = Some (?c\<lparr>evictable_leaves := L\<rparr>)"
    "distinct (evictable_leaves ?c) \<longrightarrow> distinct L"
    "set L = (if lock_ref ((at c cur)\<lparr>lock_ref := l'\<rparr>) > 0 \<or> children ((at c cur)\<lparr>lock_ref := l'\<rparr>) \<noteq> []
        then set (evictable_leaves ?c) - {cur} else Set.insert cur (set (evictable_leaves ?c)))" by blast
  have "unlocked (?c\<lparr>evictable_leaves := L\<rparr>) N = (if l' = 0 then Set.insert cur (unlocked c N) else unlocked c N - {cur})"
    using n by (auto simp: unlocked_def inner_def A)
  then have "{m \<in> unlocked (?c\<lparr>evictable_leaves := L\<rparr>) N. children (at (?c\<lparr>evictable_leaves := L\<rparr>) m) = []} = set L"
    using l l' n unfolding L(3) by (auto simp: leaves_ok_def A unlocked_def)
  then have "leaves_ok (?c\<lparr>evictable_leaves := L\<rparr>) N" using l L(2) by (simp add: leaves_ok_def)
  with L(1) show ?thesis by blast
qed

text \<open>One step of either walk.\<close>

lemma relock_step:
  assumes t: "tree c N P" and s: "sizes_ok c N" and l: "leaves_ok c N" and n: "cur \<in> inner c N" and l': "0 \<le> l'"
  shows "\<exists>c'. update_leaf_status cur (relock cur l' c) = Some c' \<and> tree c' N P \<and> sizes_ok c' N \<and> leaves_ok c' N \<and>
     keeps c c' \<and> rc_alloc c' = rc_alloc c \<and> (\<forall>m. lock_ref (at c' m) = (if m = cur then l' else lock_ref (at c m))) \<and>
     (\<forall>m \<in> N. parent (at c' m) = parent (at c m) \<and> node_key (at c' m) = node_key (at c m)) \<and> evictable_size c' = evictable_size (relock cur l' c) \<and>
     protected_size c' = protected_size (relock cur l' c)"
proof -
  from relock_leaf_update[OF t l n l'] obtain L where L:
    "update_leaf_status cur (relock cur l' c) = Some ((relock cur l' c)\<lparr>evictable_leaves := L\<rparr>)"
    "leaves_ok ((relock cur l' c)\<lparr>evictable_leaves := L\<rparr>) N" by blast
  let ?c = "(relock cur l' c)\<lparr>evictable_leaves := L\<rparr>"
  have cN: "cur \<in> N" "cur \<noteq> root_node c" using n by (simp_all add: inner_def)
  have h: "heap c cur \<noteq> None" using tree_heap[OF t cN(1)] by simp
  note A = at_relock[OF h, of l']
  have sh: "shape_eq c ?c m" if "m \<in> N" for m
    using relock_shape[OF t cN(1) that, of l'] by (simp add: shape_eq_def)
  have t': "tree ?c N P"
    by (rule tree_shape[OF t sh]) (use cN(2) treeD(5)[OF t] in \<open>simp_all add: A\<close>)
  have "sizes_ok ?c N" using relock_sizes[OF t s n, of l']
    by (simp add: sizes_ok_def unlocked_def locked_def inner_def node_len_def[abs_def])
  moreover have "keeps c ?c" using relock_fields(7)[of c cur l'] by (simp add: keeps_def)
  ultimately show ?thesis using L t' sh by (auto simp: A shape_eq_def)
qed

section \<open>The walk to the root\<close>

definition walked :: "radix_cache \<Rightarrow> nid set \<Rightarrow> (nid \<Rightarrow> slot_unit list) \<Rightarrow> nid \<Rightarrow> int \<Rightarrow>
    radix_cache \<times> nid option \<times> int \<Rightarrow> bool" where
  "walked c0 N P n amount st \<longleftrightarrow> (case st of (c, node, delta) \<Rightarrow> \<exists>k. node = Some k \<and> k \<in> N \<and> prefix (P k) (P n) \<and>
     tree c N P \<and> sizes_ok c N \<and> leaves_ok c N \<and> keeps c0 c \<and> rc_alloc c = rc_alloc c0 \<and>
     (\<forall>m \<in> inner c0 N. lock_ref (at c m) =
        lock_ref (at c0 m) + (if prefix (P m) (P n) \<and> \<not> prefix (P m) (P k) then amount else 0)) \<and>
     (\<forall>m \<in> N. parent (at c m) = parent (at c0 m) \<and> node_key (at c m) = node_key (at c0 m)) \<and>
     evictable_size c = evictable_size c0 + delta \<and> protected_size c = protected_size c0 - delta)"

lemma prefix_parent:
  assumes t: "tree c N P" and u: "(k, p) \<in> up c N" and m: "m \<in> N"
  shows "prefix (P m) (P k) \<longleftrightarrow> m = k \<or> prefix (P m) (P p)"
proof -
  note K = upD[OF t u]
  have "(k, m) \<in> (up c N)\<^sup>* \<longleftrightarrow> m = k \<or> (p, m) \<in> (up c N)\<^sup>*"
  proof
    assume "(k, m) \<in> (up c N)\<^sup>*"
    then show "m = k \<or> (p, m) \<in> (up c N)\<^sup>*"
    proof (cases rule: converse_rtranclE)
      case (step y)
      then have "y = p" using u by (simp add: up_def)
      with step show ?thesis by simp
    qed simp
  next
    assume "m = k \<or> (p, m) \<in> (up c N)\<^sup>*"
    then show "(k, m) \<in> (up c N)\<^sup>*"
      using converse_rtrancl_into_rtrancl[OF u] by blast
  qed
  then show ?thesis using prefix_iff_below[OF t m K(1)] prefix_iff_below[OF t m K(2)] by simp
qed

text \<open>What either step does to a node that is not the root.\<close>

definition lock_step_ok :: "int \<Rightarrow> (radix_cache \<times> nid option \<times> int \<Rightarrow>
    ((int \<times> radix_cache) + (radix_cache \<times> nid option \<times> int)) option) \<Rightarrow> bool" where
  "lock_step_ok amount stp \<longleftrightarrow>
     (\<forall>c n delta c' p. n \<noteq> root_node c \<longrightarrow> heap c n \<noteq> None \<longrightarrow> 0 \<le> lock_ref (at c n) \<longrightarrow> 0 \<le> lock_ref (at c n) + amount \<longrightarrow>
        parent (at c n) = Some p \<longrightarrow> update_leaf_status n (relock n (lock_ref (at c n) + amount) c) = Some c' \<longrightarrow>
        stp (c, Some n, delta) = Some (Inr (c', Some p,
          delta + evictable_size (relock n (lock_ref (at c n) + amount) c) - evictable_size c))) \<and>
     (\<forall>c delta. stp (c, Some (root_node c), delta) = Some (Inl (delta, c)))"

lemma relock_evictable: "evictable_size (relock n l' c) = evictable_size c +
    (if lock_ref (at c n) = 0 \<and> l' \<noteq> 0 then - node_len c n else if lock_ref (at c n) \<noteq> 0 \<and> l' = 0 then node_len c n else 0)"
  "protected_size (relock n l' c) = protected_size c -
    (if lock_ref (at c n) = 0 \<and> l' \<noteq> 0 then - node_len c n else if lock_ref (at c n) \<noteq> 0 \<and> l' = 0 then node_len c n else 0)"
  by (simp_all add: relock_def Let_def upd_node_def)

lemma inc_lock_step_ok: "lock_step_ok 1 inc_lock_step"
  unfolding lock_step_ok_def
proof (intro conjI allI impI)
  fix c :: radix_cache and n delta c' p
  assume n: "n \<noteq> root_node c" "heap c n \<noteq> None" "0 \<le> lock_ref (at c n)" "parent (at c n) = Some p"
    and u: "update_leaf_status n (relock n (lock_ref (at c n) + 1) c) = Some c'"
  obtain nd where nd: "heap c n = Some nd" "at c n = nd" using n(2) by (auto simp: at_def)
  show "inc_lock_step (c, Some n, delta) = Some (Inr (c', Some p,
      delta + evictable_size (relock n (lock_ref (at c n) + 1) c) - evictable_size c))"
  proof (cases "lock_ref nd = 0")
    case True
    have "upd_node n (\<lambda>nd. nd\<lparr>lock_ref := lock_ref nd + 1\<rparr>) (c\<lparr>evictable_size := evictable_size c - int (rk_len (node_key nd)),
        protected_size := protected_size c + int (rk_len (node_key nd))\<rparr>) = relock n (lock_ref nd + 1) c"
      using True nd by (simp add: relock_def Let_def node_len_def upd_node_def)
    then show ?thesis using u n nd True by (simp add: relock_evictable node_len_def)
  next
    case False
    have "upd_node n (\<lambda>nd. nd\<lparr>lock_ref := lock_ref nd + 1\<rparr>) c = relock n (lock_ref nd + 1) c"
      using False n(3) nd by (simp add: relock_def Let_def upd_node_def)
    then show ?thesis using u n nd False by (simp add: relock_evictable)
  qed
qed simp

lemma dec_lock_step_ok: "lock_step_ok (-1) dec_lock_step"
  unfolding lock_step_ok_def
proof (intro conjI allI impI)
  fix c :: radix_cache and n delta c' p
  assume n: "n \<noteq> root_node c" "heap c n \<noteq> None" "0 \<le> lock_ref (at c n)" "0 \<le> lock_ref (at c n) + -1"
      "parent (at c n) = Some p"
    and u: "update_leaf_status n (relock n (lock_ref (at c n) + -1) c) = Some c'"
  obtain nd where nd: "heap c n = Some nd" "at c n = nd" using n(2) by (auto simp: at_def)
  show "dec_lock_step (c, Some n, delta) = Some (Inr (c', Some p,
      delta + evictable_size (relock n (lock_ref (at c n) + -1) c) - evictable_size c))"
  proof (cases "lock_ref nd = 1")
    case True
    have "upd_node n (\<lambda>nd. nd\<lparr>lock_ref := lock_ref nd - 1\<rparr>) (c\<lparr>evictable_size := evictable_size c + int (rk_len (node_key nd)),
        protected_size := protected_size c - int (rk_len (node_key nd))\<rparr>) = relock n (lock_ref nd + -1) c"
      using True nd by (simp add: relock_def Let_def node_len_def upd_node_def)
    then show ?thesis using u n nd True by (simp add: relock_evictable node_len_def)
  next
    case False
    have "upd_node n (\<lambda>nd. nd\<lparr>lock_ref := lock_ref nd - 1\<rparr>) c = relock n (lock_ref nd + -1) c"
      using False n(4) nd by (simp add: relock_def Let_def upd_node_def)
    then show ?thesis using u n nd False by (simp add: relock_evictable)
  qed
qed simp

lemma walk_step:
  assumes so: "lock_step_ok amount stp" and w: "walked c0 N P n amount st"
    and pos: "\<And>m. m \<in> inner c0 N \<Longrightarrow> prefix (P m) (P n) \<Longrightarrow> 0 \<le> lock_ref (at c0 m) \<and> 0 \<le> lock_ref (at c0 m) + amount"
  shows "(\<exists>r. stp st = Some (Inl r) \<and> walked c0 N P n amount (snd r, Some (root_node c0), fst r)) \<or>
    (\<exists>st'. stp st = Some (Inr st') \<and> walked c0 N P n amount st' \<and>
       length (P (the (fst (snd st')))) < length (P (the (fst (snd st)))))"
proof -
  obtain c k delta where st: "st = (c, Some k, delta)" using w by (cases st) (auto simp: walked_def)
  have W: "k \<in> N" "prefix (P k) (P n)" "tree c N P" "sizes_ok c N" "leaves_ok c N" "keeps c0 c" "rc_alloc c = rc_alloc c0"
    "\<And>m. m \<in> inner c0 N \<Longrightarrow> lock_ref (at c m) =
        lock_ref (at c0 m) + (if prefix (P m) (P n) \<and> \<not> prefix (P m) (P k) then amount else 0)"
    "\<And>m. m \<in> N \<Longrightarrow> parent (at c m) = parent (at c0 m) \<and> node_key (at c m) = node_key (at c0 m)"
    "evictable_size c = evictable_size c0 + delta" "protected_size c = protected_size c0 - delta"
    using w by (auto simp: walked_def st)
  have r: "root_node c = root_node c0" using W(6) by (simp add: keeps_def)
  show ?thesis
  proof (cases "k = root_node c")
    case True
    then have "stp st = Some (Inl (delta, c))" using so by (simp add: lock_step_ok_def st)
    then show ?thesis using w True r by (simp add: st)
  next
    case False
    from up_exists[OF W(3,1) False] obtain p where u: "(k, p) \<in> up c N" by blast
    note K = upD[OF W(3) u]
    have pk: "parent (at c k) = Some p" using u by (simp add: up_def)
    have ik: "k \<in> inner c N" "k \<in> inner c0 N" using W(1) False r by (simp_all add: inner_def)
    have lk: "lock_ref (at c k) = lock_ref (at c0 k)" using W(8)[OF ik(2)] by simp
    note pp = pos[OF ik(2) W(2)]
    from relock_step[OF W(3,4,5) ik(1), of "lock_ref (at c k) + amount"] pp lk obtain c' where c':
      "update_leaf_status k (relock k (lock_ref (at c k) + amount) c) = Some c'" "tree c' N P" "sizes_ok c' N" "leaves_ok c' N"
      "keeps c c'" "rc_alloc c' = rc_alloc c"
      "\<And>m. lock_ref (at c' m) = (if m = k then lock_ref (at c k) + amount else lock_ref (at c m))"
      "\<And>m. m \<in> N \<Longrightarrow> parent (at c' m) = parent (at c m) \<and> node_key (at c' m) = node_key (at c m)"
      "evictable_size c' = evictable_size (relock k (lock_ref (at c k) + amount) c)"
      "protected_size c' = protected_size (relock k (lock_ref (at c k) + amount) c)" by auto
    let ?d = "delta + evictable_size (relock k (lock_ref (at c k) + amount) c) - evictable_size c"
    have "heap c k \<noteq> None" using tree_heap[OF W(3,1)] by simp
    moreover have pp': "0 \<le> lock_ref (at c k)" "0 \<le> lock_ref (at c k) + amount" using pp lk by simp_all
    ultimately have step: "stp st = Some (Inr (c', Some p, ?d))"
      using so False pk c'(1) pp' unfolding lock_step_ok_def st by blast
    have pre: "prefix (P p) (P n)" using W(2) K(4) by (metis append_prefixD)
    have "lock_ref (at c' m) = lock_ref (at c0 m) + (if prefix (P m) (P n) \<and> \<not> prefix (P m) (P p) then amount else 0)"
      if m: "m \<in> inner c0 N" for m
    proof -
      have mN: "m \<in> N" using m by (simp add: inner_def)
      have kp: "\<not> prefix (P k) (P p)" using K(5) prefix_length_le by (metis leD)
      show ?thesis using c'(7)[of m] W(8)[OF m] W(2) lk prefix_parent[OF W(3) u mN] kp by auto
    qed
    moreover have "evictable_size c' = evictable_size c0 + ?d" using c'(9) W(10) by simp
    moreover have "protected_size c' = protected_size c0 - ?d"
      using c'(10) W(10,11) by (simp add: relock_evictable)
    ultimately have "walked c0 N P n amount (c', Some p, ?d)"
      using c' W K(2) pre keeps_trans[OF W(6) c'(5)] by (auto simp: walked_def)
    then show ?thesis using step K(5) by (simp add: st)
  qed
qed

lemma walk_total:
  assumes so: "lock_step_ok amount stp" and t: "tree c N P" and a: "sizes_ok c N" "leaves_ok c N" and n: "n \<in> N"
    and pos: "\<And>m. m \<in> inner c N \<Longrightarrow> prefix (P m) (P n) \<Longrightarrow> 0 \<le> lock_ref (at c m) \<and> 0 \<le> lock_ref (at c m) + amount"
  shows "\<exists>d c'. iterate stp (c, Some n, 0) = Some (d, c') \<and> tree c' N P \<and> sizes_ok c' N \<and> leaves_ok c' N \<and>
    keeps c c' \<and> rc_alloc c' = rc_alloc c \<and>
    (\<forall>m \<in> inner c N. lock_ref (at c' m) = lock_ref (at c m) + (if prefix (P m) (P n) then amount else 0)) \<and>
    (\<forall>m \<in> N. node_key (at c' m) = node_key (at c m)) \<and>
    evictable_size c' = evictable_size c + d \<and> protected_size c' = protected_size c - d"
proof -
  have "walked c N P n amount (c, Some n, 0)" using t a n by (simp add: walked_def)
  from iterate_total[where I = "walked c N P n amount" and m = "\<lambda>st. length (P (the (fst (snd st))))", OF this
      walk_step[OF so _ pos]]
  obtain d c' where r: "iterate stp (c, Some n, 0) = Some (d, c')" "walked c N P n amount (c', Some (root_node c), d)"
    by auto
  have "prefix (P m) (P n) \<and> \<not> prefix (P m) (P (root_node c)) \<longleftrightarrow> prefix (P m) (P n)" if "m \<in> inner c N" for m
  proof -
    from that up_exists[OF t, of m] obtain p where "(m, p) \<in> up c N" by (auto simp: inner_def)
    from upD(5)[OF t this] have "P m \<noteq> []" by auto
    then show ?thesis using treeD(4)[OF t] by simp
  qed
  with r show ?thesis by (auto simp: walked_def)
qed

section \<open>Locking and unlocking\<close>

lemma holders_add: "holders_below P (add_mset n H) m = holders_below P H m + (if prefix (P m) (P n) then 1 else 0)"
  by (simp add: holders_below_def)

lemma holders_nonneg: "0 \<le> holders_below P H m"
  by (simp add: holders_below_def)

lemma inc_lock_ref_ok:
  assumes t: "tree c N P" and a: "accounts c N P H" and nd: "\<not> rc_disable c" and n: "n \<in> N"
  shows "\<exists>d c'. inc_lock_ref n c = Some (d, c') \<and> tree c' N P \<and> accounts c' N P (add_mset n H) \<and> keeps c c' \<and>
    rc_alloc c' = rc_alloc c \<and> evictable_size c' = evictable_size c + d \<and> protected_size c' = protected_size c - d \<and>
    (\<forall>m \<in> N. node_key (at c' m) = node_key (at c m))"
proof -
  have L: "\<And>m. m \<in> inner c N \<Longrightarrow> lock_ref (at c m) = holders_below P H m" "set_mset H \<subseteq> N"
    and s: "sizes_ok c N" "leaves_ok c N" using a by (simp_all add: accounts_def locks_ok_def)
  have pos: "0 \<le> lock_ref (at c m) \<and> 0 \<le> lock_ref (at c m) + 1" if "m \<in> inner c N" for m
    using L(1)[OF that] holders_nonneg[of P H m] by simp
  from walk_total[OF inc_lock_step_ok t s n pos] obtain d c' where r:
    "iterate inc_lock_step (c, Some n, 0) = Some (d, c')" "tree c' N P" "sizes_ok c' N" "leaves_ok c' N"
    "keeps c c'" "rc_alloc c' = rc_alloc c"
    "\<forall>m \<in> inner c N. lock_ref (at c' m) = lock_ref (at c m) + (if prefix (P m) (P n) then 1 else 0)"
    "evictable_size c' = evictable_size c + d" "protected_size c' = protected_size c - d"
    "\<forall>m \<in> N. node_key (at c' m) = node_key (at c m)" by blast
  have "inner c' N = inner c N" using r(5) by (simp add: keeps_def inner_def)
  then have "accounts c' N P (add_mset n H)"
    using r L n by (simp add: accounts_def locks_ok_def holders_add)
  then show ?thesis using r nd by (simp add: inc_lock_ref_def)
qed

lemma dec_lock_ref_ok:
  assumes t: "tree c N P" and a: "accounts c N P (add_mset n H)" and nd: "\<not> rc_disable c"
  shows "\<exists>d c'. dec_lock_ref n c = Some (d, c') \<and> tree c' N P \<and> accounts c' N P H \<and> keeps c c' \<and>
    rc_alloc c' = rc_alloc c \<and> evictable_size c' = evictable_size c + d \<and> protected_size c' = protected_size c - d \<and>
    (\<forall>m \<in> N. node_key (at c' m) = node_key (at c m))"
proof -
  have L: "\<And>m. m \<in> inner c N \<Longrightarrow> lock_ref (at c m) = holders_below P H m + (if prefix (P m) (P n) then 1 else 0)"
    and n: "n \<in> N" "set_mset H \<subseteq> N"
    and s: "sizes_ok c N" "leaves_ok c N" using a by (simp_all add: accounts_def locks_ok_def holders_add)
  have pos: "0 \<le> lock_ref (at c m) \<and> 0 \<le> lock_ref (at c m) + -1" if "m \<in> inner c N" "prefix (P m) (P n)" for m
    using L[OF that(1)] that(2) holders_nonneg[of P H m] by simp
  from walk_total[OF dec_lock_step_ok t s n(1) pos] obtain d c' where r:
    "iterate dec_lock_step (c, Some n, 0) = Some (d, c')" "tree c' N P" "sizes_ok c' N" "leaves_ok c' N"
    "keeps c c'" "rc_alloc c' = rc_alloc c"
    "\<forall>m \<in> inner c N. lock_ref (at c' m) = lock_ref (at c m) + (if prefix (P m) (P n) then -1 else 0)"
    "evictable_size c' = evictable_size c + d" "protected_size c' = protected_size c - d"
    "\<forall>m \<in> N. node_key (at c' m) = node_key (at c m)" by blast
  have "inner c' N = inner c N" using r(5) by (simp add: keeps_def inner_def)
  then have "accounts c' N P H"
    using r L n by (simp add: accounts_def locks_ok_def)
  then show ?thesis using r nd by (simp add: dec_lock_ref_def)
qed

end
