(* ===== verification/RadixEvict.thy ===== *)
theory RadixEvict
  imports RadixLock
begin

text \<open>
  Eviction: it returns, removes unlocked leaves only, gives exactly the slots of the removed nodes
  back to the allocator, and stops when enough tokens are freed or nothing unlocked is left.
\<close>

section \<open>The allocator seen through its class\<close>

definition alloc_inv :: "allocator \<Rightarrow> bool" where
  "alloc_inv a = (if al_paged a then paged_inv (al_size a) (al_page_size a) a else token_inv (al_size a) a)"

definition alloc_free_slots :: "allocator \<Rightarrow> int set" where
  "alloc_free_slots a = (if al_paged a then paged_free_slots (al_page_size a) a else token_free_slots a)"

definition alloc_universe :: "allocator \<Rightarrow> int set" where
  "alloc_universe a = (if al_paged a then slots_of (al_page_size a) {1..al_size a div al_page_size a} else {1..al_size a})"

definition alloc_whole :: "allocator \<Rightarrow> int list \<Rightarrow> bool" where
  "alloc_whole a xs = (al_paged a \<longrightarrow> whole_pages (al_page_size a) xs)"

definition same_class :: "allocator \<Rightarrow> allocator \<Rightarrow> bool" where
  "same_class a b \<longleftrightarrow> al_paged b = al_paged a \<and> al_size b = al_size a \<and> al_page_size b = al_page_size a"

lemma same_class_trans: "same_class a b \<Longrightarrow> same_class b c \<Longrightarrow> same_class a c"
  by (simp add: same_class_def)

lemma same_class_refl [simp]: "same_class a a"
  by (simp add: same_class_def)

lemma allocator_free_ok:
  assumes i: "alloc_inv a" and w: "alloc_whole a xs" and d: "distinct xs"
    and s: "set xs \<subseteq> alloc_universe a - alloc_free_slots a"
  shows "\<exists>a'. allocator_free a xs = Inr a' \<and> alloc_inv a' \<and> same_class a a' \<and>
    alloc_free_slots a' = alloc_free_slots a \<union> set xs"
proof (cases "al_paged a")
  case True
  then obtain a' where a': "paged_free a xs = Inr a'" "paged_inv (al_size a) (al_page_size a) a'"
    "paged_free_slots (al_page_size a) a' = paged_free_slots (al_page_size a) a \<union> set xs"
    using paged.free_ok[of "al_size a" "al_page_size a" a xs] assms
    by (auto simp: alloc_inv_def alloc_whole_def alloc_universe_def alloc_free_slots_def)
  moreover from this(2) have "same_class a a'" using True by (simp add: paged_inv_def same_class_def)
  ultimately show ?thesis using True
    by (simp add: allocator_free_def alloc_inv_def alloc_free_slots_def same_class_def)
next
  case False
  then have "token_inv (al_size a) (token_free a xs)"
    "token_free_slots (token_free a xs) = token_free_slots a \<union> set xs"
    using token.free_ok[of "al_size a" a xs] assms
    by (auto simp: alloc_inv_def alloc_whole_def alloc_universe_def alloc_free_slots_def)
  moreover from this(1) have "same_class a (token_free a xs)"
    using False i by (simp add: token_inv_def same_class_def alloc_inv_def)
  ultimately show ?thesis using False
    by (simp add: allocator_free_def alloc_inv_def alloc_free_slots_def same_class_def)
qed

section \<open>Who owns which slot\<close>

definition slots_at :: "radix_cache \<Rightarrow> nid \<Rightarrow> int list" where
  "slots_at c n = the (node_value (at c n))"

definition cached_slots :: "radix_cache \<Rightarrow> nid set \<Rightarrow> int set" where
  "cached_slots c N = (\<Union>n \<in> inner c N. set (slots_at c n))"

text \<open>
  The cached slots are those of whole pages, no slot is cached twice, and none is free.
\<close>

definition owns_slots :: "radix_cache \<Rightarrow> nid set \<Rightarrow> bool" where
  "owns_slots c N \<longleftrightarrow> alloc_inv (rc_alloc c) \<and>
     (\<forall>n \<in> inner c N. alloc_whole (rc_alloc c) (slots_at c n) \<and> distinct (slots_at c n)) \<and>
     (\<forall>n \<in> inner c N. \<forall>m \<in> inner c N. n \<noteq> m \<longrightarrow> set (slots_at c n) \<inter> set (slots_at c m) = {}) \<and>
     cached_slots c N \<subseteq> alloc_universe (rc_alloc c) - alloc_free_slots (rc_alloc c)"

section \<open>Deleting a leaf\<close>

definition cut_site :: "radix_cache \<Rightarrow> nid set \<Rightarrow> (nid \<Rightarrow> slot_unit list) \<Rightarrow> nid multiset \<Rightarrow> nid \<Rightarrow> nid \<Rightarrow> bool" where
  "cut_site c N P H x p \<longleftrightarrow> tree c N P \<and> accounts c N P H \<and> x \<in> set (evictable_leaves c) \<and> (x, p) \<in> up c N"

definition cut_done :: "radix_cache \<Rightarrow> radix_cache \<Rightarrow> nid \<Rightarrow> nid \<Rightarrow> ckey \<Rightarrow> bool" where
  "cut_done c c' x p ck \<longleftrightarrow> keeps c c' \<and> rc_alloc c' = rc_alloc c \<and> node_counter c' = node_counter c \<and>
     evictable_size c' = evictable_size c - node_len c x \<and> protected_size c' = protected_size c \<and>
     heap c' = (heap c)(p := Some ((at c p)\<lparr>children := dict_pop ck (children (at c p))\<rparr>)) \<and>
     dict_get (children (at c p)) ck = Some x \<and>
     (distinct (evictable_leaves c) \<longrightarrow> distinct (evictable_leaves c')) \<and>
     set (evictable_leaves c') =
       (if lock_ref (at c p) > 0 \<or> dict_pop ck (children (at c p)) \<noteq> [] then set (evictable_leaves c) - {x, p}
        else Set.insert p (set (evictable_leaves c) - {x}))"

lemma cut_siteD:
  assumes "cut_site c N P H x p"
  shows "tree c N P" "accounts c N P H" "x \<in> N" "x \<noteq> root_node c" "p \<in> N" "p \<noteq> x" "lock_ref (at c x) = 0"
    "children (at c x) = []" "parent (at c x) = Some p" "x \<in> unlocked c N" "(x, p) \<in> up c N"
proof -
  have t: "tree c N P" and a: "accounts c N P H" and x: "x \<in> set (evictable_leaves c)" and u: "(x, p) \<in> up c N"
    using assms by (simp_all add: cut_site_def)
  have "x \<in> unlocked c N" "children (at c x) = []"
    using a x by (auto simp: accounts_def leaves_ok_def)
  then show "tree c N P" "accounts c N P H" "x \<in> N" "x \<noteq> root_node c" "p \<in> N" "p \<noteq> x" "lock_ref (at c x) = 0"
    "children (at c x) = []" "parent (at c x) = Some p" "x \<in> unlocked c N" "(x, p) \<in> up c N"
    using t a u upD[OF t u] by (auto simp: unlocked_def inner_def up_def)
qed

lemma delete_leaf_runs:
  assumes st: "cut_site c N P H x p"
  shows "\<exists>c' ck. delete_leaf x c = Some c' \<and> cut_done c c' x p ck"
proof -
  note S = cut_siteD[OF st]
  obtain ck where g: "dict_get (children (at c p)) ck = Some x" using upD(6)[OF S(1,11)] by blast
  have ck: "child_key (node_key (at c x)) (rc_page_size c) = Some ck" using tree_childD(4)[OF S(1,5) g] .
  have hx: "heap c x = Some (at c x)" and hp: "heap c p = Some (at c p)" using tree_heap[OF S(1)] S(3,5) by auto
  define c1 where "c1 = discard_leaf x ((upd_node p (\<lambda>pd. pd\<lparr>children := dict_pop ck (children pd)\<rparr>) c)
      \<lparr>evictable_size := evictable_size c - node_len c x\<rparr>)"
  let ?pd = "(at c p)\<lparr>children := dict_pop ck (children (at c p))\<rparr>"
  have h1: "heap c1 = (heap c)(p := Some ?pd)" using hp by (simp add: c1_def discard_leaf_def upd_node_def)
  have hp1: "heap c1 p = Some ?pd" "node_value ?pd \<noteq> None"
    using tree_node_value[OF S(1,5)] by (simp_all add: h1)
  have wf: "dict_wf (children (at c p))" using tree_children[OF S(1,5)] by (simp add: children_ok_def)
  have vals: "\<exists>cd. heap c1 m = Some cd \<and> node_value cd \<noteq> None" if m: "m \<in> set (dict_values (children ?pd))" for m
  proof -
    have "m \<in> set (dict_values (dict_pop ck (children (at c p))))" using m by simp
    from dict_value_get[OF dict_wf_pop[OF wf] this] obtain k where
      "dict_get (dict_pop ck (children (at c p))) k = Some m" by blast
    then have "dict_get (children (at c p)) k = Some m" by (simp add: dict_simps split: if_splits)
    then have mN: "m \<in> N" using tree_childD(1)[OF S(1,5)] by blast
    then show ?thesis using tree_heap[OF S(1) mN] tree_node_value[OF S(1) mN] hp1(2) by (cases "m = p") (auto simp: h1)
  qed
  from leaf_status[OF hp1 vals] obtain L where L:
    "update_leaf_status p c1 = Some (c1\<lparr>evictable_leaves := L\<rparr>)"
    "distinct (evictable_leaves c1) \<longrightarrow> distinct L"
    "set L = (if lock_ref ?pd > 0 \<or> children ?pd \<noteq> [] then set (evictable_leaves c1) - {p}
       else Set.insert p (set (evictable_leaves c1)))" by blast
  have l1: "evictable_leaves c1 = removeAll x (evictable_leaves c)"
    by (simp add: c1_def discard_leaf_def upd_node_def)
  have run: "delete_leaf x c = update_leaf_status p c1"
    using hx hp ck g S(9) by (simp add: delete_leaf_def c1_def node_len_def upd_node_def)
  have "cut_done c (c1\<lparr>evictable_leaves := L\<rparr>) x p ck"
    unfolding cut_done_def
  proof (intro conjI)
    show "distinct (evictable_leaves c) \<longrightarrow> distinct (evictable_leaves (c1\<lparr>evictable_leaves := L\<rparr>))"
      using L(2) by (simp add: l1 distinct_removeAll)
    show "set (evictable_leaves (c1\<lparr>evictable_leaves := L\<rparr>)) =
       (if lock_ref (at c p) > 0 \<or> dict_pop ck (children (at c p)) \<noteq> [] then set (evictable_leaves c) - {x, p}
        else Set.insert p (set (evictable_leaves c) - {x}))"
      using L(3) by (simp add: l1) (auto split: if_splits)
  qed (simp_all add: h1 g, simp_all add: c1_def discard_leaf_def upd_node_def keeps_def)
  then show ?thesis using run L(1) by metis
qed

lemma at_cut: "cut_done c c' x p ck \<Longrightarrow>
    at c' m = (if m = p then (at c p)\<lparr>children := dict_pop ck (children (at c p))\<rparr> else at c m)"
  by (simp add: cut_done_def at_def)

lemma cut_tree:
  assumes st: "cut_site c N P H x p" and d: "cut_done c c' x p ck"
  shows "tree c' (N - {x}) P"
proof -
  note S = cut_siteD[OF st] and A = at_cut[OF d]
  have k: "root_node c' = root_node c" "rc_page_size c' = rc_page_size c" "rc_is_eagle c' = rc_is_eagle c"
    "node_counter c' = node_counter c" "dict_get (children (at c p)) ck = Some x"
    using d by (simp_all add: cut_done_def keeps_def)
  have wf: "dict_wf (children (at c n))" if "n \<in> N" for n using tree_children[OF S(1) that] by (simp add: children_ok_def)
  have ch: "children_ok c' (N - {x}) n" if n: "n \<in> N - {x}" for n
  proof (rule children_okI)
    show "dict_wf (children (at c' n))" using n wf[of n] by (cases "n = p") (simp_all add: A)
    fix q m assume g': "dict_get (children (at c' n)) q = Some m"
    then have g: "dict_get (children (at c n)) q = Some m"
      by (auto simp: A dict_simps split: if_splits)
    have nN: "n \<in> N" using n by simp
    note M = tree_childD[OF S(1) nN g]
    have "m \<noteq> x"
    proof
      assume m: "m = x"
      then have "n = p" using M(3) S(9) by simp
      moreover have "q = ck" using M(4) tree_childD(4)[OF S(1,5) k(5)] m by simp
      ultimately show False using g' by (simp add: A dict_simps)
    qed
    then show "m \<in> N - {x} \<and> m \<noteq> root_node c' \<and> parent (at c' m) = Some n \<and>
        child_key (node_key (at c' m)) (rc_page_size c') = Some q"
      using M k by (cases "m = p") (simp_all add: A)
  qed
  have pa: "parent_ok c' (N - {x}) P n \<and> key_ok c' (at c' n)" if n: "n \<in> N - {x}" "n \<noteq> root_node c" for n
  proof -
    have nN: "n \<in> N" "n \<noteq> x" using n by auto
    from tree_upE[OF S(1) nN(1) n(2)] obtain q kk where q: "q \<in> N" "parent (at c n) = Some q"
      "dict_get (children (at c q)) kk = Some n" "P n = P q @ pairs (at c n)" by metis
    have "q \<noteq> x" using q(3) S(8) by auto
    moreover have "dict_get (children (at c' q)) kk = Some n" using q(3) k(5) nN(2) by (auto simp: A dict_simps)
    moreover have "pairs (at c' n) = pairs (at c n)" by (simp add: A pairs_def)
    moreover have "key_ok c' (at c' n)" using tree_key[OF S(1) nN(1) n(2)] k by (cases "n = p") (simp_all add: key_ok_def A)
    moreover have "parent (at c' n) = Some q" using q(2) by (cases "n = p") (simp_all add: A)
    ultimately show ?thesis using q by (auto intro!: parent_okI[of q])
  qed
  have "n < node_counter c' \<and> heap c' n \<noteq> None" if "n \<in> N" for n
    using tree_fresh[OF S(1) that] tree_heap[OF S(1) that] d by (auto simp: cut_done_def)
  then show ?thesis using treeD(1-6)[OF S(1)] k S(4) ch pa by (auto simp: tree_def A)
qed

lemma cut_accounts:
  assumes st: "cut_site c N P H x p" and d: "cut_done c c' x p ck"
  shows "accounts c' (N - {x}) P H"
proof -
  note S = cut_siteD[OF st] and A = at_cut[OF d]
  have r: "root_node c' = root_node c" using d by (simp add: cut_done_def keeps_def)
  have L: "\<And>n. n \<in> inner c N \<Longrightarrow> lock_ref (at c n) = holders_below P H n" "set_mset H \<subseteq> N"
    "sizes_ok c N" "leaves_ok c N" using S(2) by (simp_all add: accounts_def locks_ok_def)
  have "x \<notin># H"
  proof
    assume "x \<in># H"
    then have "x \<in># filter_mset (\<lambda>h. prefix (P x) (P h)) H" by simp
    then have "0 < holders_below P H x"
      unfolding holders_below_def by (metis of_nat_0_less_iff size_eq_0_iff_empty empty_iff set_mset_empty neq0_conv)
    then show False using L(1)[of x] S(3,4,7) by (simp add: inner_def)
  qed
  then have H: "set_mset H \<subseteq> N - {x}" using L(2) by auto
  have inn: "inner c' (N - {x}) = inner c N - {x}" by (auto simp: inner_def r)
  have lk: "lock_ref (at c' n) = lock_ref (at c n)" for n by (simp add: A)
  have sets: "unlocked c' (N - {x}) = unlocked c N - {x}" "locked c' (N - {x}) = locked c N"
    using S(7) by (auto simp: unlocked_def locked_def inn lk)
  have nl: "node_len c' = node_len c" by (simp add: node_len_def A fun_eq_iff)
  have fin: "finite (unlocked c N)" using tree_finite[OF S(1)] by (simp add: unlocked_def inner_def)
  have d': "evictable_size c' = evictable_size c - node_len c x" "protected_size c' = protected_size c"
    "distinct (evictable_leaves c) \<longrightarrow> distinct (evictable_leaves c')"
    "set (evictable_leaves c') =
       (if lock_ref (at c p) > 0 \<or> dict_pop ck (children (at c p)) \<noteq> [] then set (evictable_leaves c) - {x, p}
        else Set.insert p (set (evictable_leaves c) - {x}))"
    using d unfolding cut_done_def by blast+
  have "sizes_ok c' (N - {x})"
    using L(3) d'(1,2) sum_diff1[of "unlocked c N" "node_len c" x] fin S(10) by (simp add: sizes_ok_def sets nl)
  moreover have "locks_ok c' (N - {x}) P H" using L(1) H by (simp add: locks_ok_def inn lk)
  moreover have "leaves_ok c' (N - {x})"
  proof -
    have pl: "0 \<le> lock_ref (at c p)" "p = root_node c \<Longrightarrow> lock_ref (at c p) = 1"
      using L(1)[of p] S(5) treeD(5)[OF S(1)] holders_nonneg[of P H p] by (cases "p = root_node c"; simp add: inner_def)+
    have "children (at c p) \<noteq> []" using d by (auto simp: cut_done_def)
    then have ch: "children (at c' n) = [] \<longleftrightarrow> (if n = p then dict_pop ck (children (at c p)) = [] else children (at c n) = [])"
      "n = p \<Longrightarrow> children (at c n) \<noteq> []" for n by (simp_all add: A)
    have "{n \<in> unlocked c' (N - {x}). children (at c' n) = []} =
       (if lock_ref (at c p) > 0 \<or> dict_pop ck (children (at c p)) \<noteq> []
        then {n \<in> unlocked c N. children (at c n) = []} - {x, p}
        else Set.insert p ({n \<in> unlocked c N. children (at c n) = []} - {x}))"
      using pl S(5,6) ch unfolding sets by (auto simp: unlocked_def inner_def split: if_splits)
    then show ?thesis using L(4) d'(3,4) by (simp add: leaves_ok_def)
  qed
  ultimately show ?thesis by (simp add: accounts_def)
qed

section \<open>The eviction loop\<close>

lemma min_entry_in: "min_entry m es \<in> Set.insert m (set es)"
  by (induction es arbitrary: m) auto

lemma heappop_Some:
  assumes "heappop es = Some (e, es')"
  shows "e \<in> set es \<and> es' = remove1 e es"
proof (cases es)
  case (Cons a as)
  then have "e = min_entry a as" "es' = remove1 e es" using assms by (auto simp: Let_def)
  then show ?thesis using min_entry_in[of a as] Cons by simp
qed (use assms in simp)

text \<open>The popped entry is a smallest one.\<close>

lemma min_entry_le: "fst (min_entry m es) \<le> fst m \<and> (\<forall>e \<in> set es. fst (min_entry m es) \<le> fst e)"
proof (induction es arbitrary: m)
  case (Cons e es)
  define m' where "m' = (if fst e < fst m then e else m)"
  have "fst m' \<le> fst m" "fst m' \<le> fst e" by (auto simp: m'_def)
  moreover have "fst (min_entry m' es) \<le> fst m'" "\<forall>e \<in> set es. fst (min_entry m' es) \<le> fst e"
    using Cons.IH[of m'] by auto
  ultimately show ?case by (auto simp: m'_def[symmetric] intro: order.trans)
qed simp

lemma owns_cut:
  assumes st: "cut_site c N P H x p" and o: "owns_slots c N"
    and c1: "\<And>n. node_value (at c1 n) = node_value (at c n)" "root_node c1 = root_node c"
    and a: "alloc_inv (rc_alloc c1)" "same_class (rc_alloc c) (rc_alloc c1)"
      "alloc_free_slots (rc_alloc c1) = alloc_free_slots (rc_alloc c) \<union> set (slots_at c x)"
  shows "owns_slots c1 (N - {x})" and "cached_slots c1 (N - {x}) = cached_slots c N - set (slots_at c x)"
proof -
  note S = cut_siteD[OF st]
  have sl: "slots_at c1 n = slots_at c n" for n by (simp add: slots_at_def c1)
  have inn: "inner c1 (N - {x}) = inner c N - {x}" by (auto simp: inner_def c1)
  have x: "x \<in> inner c N" using S(3,4) by (simp add: inner_def)
  have dis: "set (slots_at c n) \<inter> set (slots_at c x) = {}" if "n \<in> inner c N - {x}" for n
    using o that x by (auto simp: owns_slots_def)
  show cs: "cached_slots c1 (N - {x}) = cached_slots c N - set (slots_at c x)"
    using dis x by (auto simp: cached_slots_def inn sl)
  have w: "alloc_whole (rc_alloc c1) xs = alloc_whole (rc_alloc c) xs" "alloc_universe (rc_alloc c1) = alloc_universe (rc_alloc c)" for xs
    using a(2) by (simp_all add: same_class_def alloc_whole_def alloc_universe_def)
  show "owns_slots c1 (N - {x})"
    using o a(1,3) unfolding owns_slots_def cs w inn sl by auto
qed

definition leaving :: "radix_cache \<Rightarrow> nid set \<Rightarrow> nid set \<Rightarrow> int set" where
  "leaving c N N' = (\<Union>n \<in> N - N'. set (slots_at c n))"

definition evict_inv :: "radix_cache \<Rightarrow> nid set \<Rightarrow> (nid \<Rightarrow> slot_unit list) \<Rightarrow> nid multiset \<Rightarrow> evict_state \<Rightarrow> nid set \<Rightarrow> bool" where
  "evict_inv c0 N0 P H st N \<longleftrightarrow> (case st of (c, eh, num) \<Rightarrow>
     tree c N P \<and> accounts c N P H \<and> owns_slots c N \<and> keeps c0 c \<and> N \<subseteq> N0 \<and>
     (\<forall>n \<in> N0 - N. n \<noteq> root_node c0 \<and> lock_ref (at c0 n) = 0) \<and>
     (\<forall>n. node_value (at c n) = node_value (at c0 n) \<and> lock_ref (at c n) = lock_ref (at c0 n)) \<and>
     same_class (rc_alloc c0) (rc_alloc c) \<and>
     alloc_free_slots (rc_alloc c) = alloc_free_slots (rc_alloc c0) \<union> leaving c0 N0 N \<and>
     set (map snd eh) = set (evictable_leaves c) \<and> distinct (map snd eh) \<and>
     num = evictable_size c0 - evictable_size c \<and> protected_size c = protected_size c0)"

lemma cut_remaining:
  assumes "distinct (map snd es)" and "e \<in> set es"
  shows "set (map snd (remove1 e es)) = set (map snd es) - {snd e} \<and> distinct (map snd (remove1 e es))"
proof -
  have d: "distinct es" "inj_on snd (set es)" using assms(1) by (simp_all add: distinct_map)
  have s: "set (remove1 e es) = set es - {e}" using d(1) by (rule set_remove1_eq)
  then have "snd ` set (remove1 e es) = snd ` set es - {snd e}"
    using inj_on_image_set_diff[OF d(2), of "set es" "{e}"] assms(2) by simp
  moreover have "inj_on snd (set (remove1 e es))" using d(2) by (rule inj_on_subset) (auto simp: s)
  ultimately show ?thesis using d(1) by (simp add: distinct_map)
qed

lemma evict_step_ok:
  assumes i: "evict_inv c0 N0 P H st N" and ev: "\<not> enable_kv_cache_events c0"
  shows "(\<exists>n c. evict_step num_tokens st = Some (Inl (n, c)) \<and> evict_inv c0 N0 P H (c, fst (snd st), n) N \<and>
       (num_tokens \<le> n \<or> evictable_leaves c = [])) \<or>
    (\<exists>st' N'. evict_step num_tokens st = Some (Inr st') \<and> evict_inv c0 N0 P H st' N' \<and> card N' < card N)"
proof -
  obtain c eh num where st: "st = (c, eh, num)" by (cases st)
  have I: "tree c N P" "accounts c N P H" "owns_slots c N" "keeps c0 c" "N \<subseteq> N0"
     "\<forall>n \<in> N0 - N. n \<noteq> root_node c0 \<and> lock_ref (at c0 n) = 0"
     "\<And>n. node_value (at c n) = node_value (at c0 n)" "\<And>n. lock_ref (at c n) = lock_ref (at c0 n)"
     "same_class (rc_alloc c0) (rc_alloc c)"
     "alloc_free_slots (rc_alloc c) = alloc_free_slots (rc_alloc c0) \<union> leaving c0 N0 N"
     "set (map snd eh) = set (evictable_leaves c)" "distinct (map snd eh)"
     "num = evictable_size c0 - evictable_size c" "protected_size c = protected_size c0"
    using i by (simp_all add: evict_inv_def st)
  show ?thesis
  proof (cases "if num < num_tokens then heappop eh else None")
    case None
    have "num_tokens \<le> num \<or> evictable_leaves c = []"
      using None I(11) by (cases eh) (auto simp: Let_def split: if_splits)
    then show ?thesis using None i by (simp add: st)
  next
    case (Some e)
    then obtain pr x eh' where e: "e = ((pr, x), eh')" and hp: "heappop eh = Some ((pr, x), eh')"
      by (cases e) (auto split: if_splits)
    note hs = heappop_Some[OF hp]
    have xl: "x \<in> set (evictable_leaves c)" using hs I(11) by force
    then have xu: "x \<in> unlocked c N" "x \<in> N" "x \<noteq> root_node c"
      using I(2) by (auto simp: accounts_def leaves_ok_def unlocked_def inner_def)
    from up_exists[OF I(1) xu(2,3)] obtain p where u: "(x, p) \<in> up c N" by blast
    have st1: "cut_site c N P H x p" using I(1,2) xl u by (simp add: cut_site_def)
    note S = cut_siteD[OF st1]
    obtain v where v: "node_value (at c x) = Some v" "length v = rk_len (node_key (at c x))"
      using tree_key[OF I(1) S(3,4)] by (auto simp: key_ok_def)
    have sv: "slots_at c x = v" by (simp add: slots_at_def v)
    have xi: "x \<in> inner c N" using S(3,4) by (simp add: inner_def)
    have "alloc_inv (rc_alloc c)" "alloc_whole (rc_alloc c) v" "distinct v"
      "set v \<subseteq> alloc_universe (rc_alloc c) - alloc_free_slots (rc_alloc c)"
      using I(3) xi sv by (auto simp: owns_slots_def cached_slots_def)
    from allocator_free_ok[OF this] obtain a where a: "allocator_free (rc_alloc c) v = Inr a" "alloc_inv a"
      "same_class (rc_alloc c) a" "alloc_free_slots a = alloc_free_slots (rc_alloc c) \<union> set v" by blast
    define c1 where "c1 = c\<lparr>rc_alloc := a\<rparr>"
    have c1: "heap c1 = heap c" "at c1 = at c" "keeps c c1" "evictable_size c1 = evictable_size c"
      "root_node c1 = root_node c" "protected_size c1 = protected_size c"
      using a(3) by (simp_all add: c1_def at_def fun_eq_iff keeps_def same_class_def)
    have st2: "cut_site c1 N P H x p"
    proof -
      have "tree c1 N P"
        by (rule tree_shape[OF I(1)]) (use tree_heap[OF I(1)] treeD(5)[OF I(1)] in \<open>auto simp: shape_eq_def c1_def at_def\<close>)
      moreover have "accounts c1 N P H"
        using I(2) by (simp add: accounts_def locks_ok_def sizes_ok_def leaves_ok_def unlocked_def locked_def inner_def
            node_len_def[abs_def] c1_def at_def)
      ultimately show ?thesis using xl u by (simp add: cut_site_def up_def c1) (simp add: c1_def)
    qed
    from delete_leaf_runs[OF st2] obtain c2 ck where del: "delete_leaf x c1 = Some c2" and d: "cut_done c1 c2 x p ck" by blast
    note A = at_cut[OF d] and T2 = cut_tree[OF st2 d] and AC2 = cut_accounts[OF st2 d]
    have pN: "p \<in> N - {x}" using S(5,6) by simp
    have hp2: "heap c2 p = Some (at c2 p)" using tree_heap[OF T2 pN] .
    have pl: "0 \<le> lock_ref (at c p)" "p = root_node c \<Longrightarrow> lock_ref (at c p) = 1"
      using I(2) S(5) treeD(5)[OF I(1)] holders_nonneg[of P H p]
      by (cases "p = root_node c"; simp add: inner_def accounts_def locks_ok_def)+
    have push: "children (at c2 p) = [] \<and> lock_ref (at c2 p) = 0 \<longleftrightarrow>
        \<not> (lock_ref (at c p) > 0 \<or> dict_pop ck (children (at c p)) \<noteq> [])"
      using pl by (auto simp: A c1)
    have pnl: "p \<notin> set (evictable_leaves c)"
      using upD(6)[OF I(1) u] I(2) by (auto simp: accounts_def leaves_ok_def)
    have rem: "set (map snd eh') = set (evictable_leaves c) - {x}" "distinct (map snd eh')"
      using cut_remaining[OF I(12), of "(pr, x)"] hs I(11) by simp_all
    obtain e2 where e2: "evict_entry c2 p = Some e2" "snd e2 = p" using hp2 by (auto simp: evict_entry_def)
    define eh2 where "eh2 = (if children (at c2 p) = [] \<and> lock_ref (at c2 p) = 0 then e2 # eh' else eh')"
    have k2: "keeps c c2" using d keeps_trans[OF c1(3)] by (auto simp: cut_done_def)
    have ev2: "\<not> enable_kv_cache_events c2" using ev I(4) k2 by (simp add: keeps_def)
    have step: "evict_step num_tokens st = Some (Inr (c2, eh2, num + int (length v)))"
      using Some e tree_heap[OF I(1) S(3)] v(1) S(9) a(1) del hp2 e2 ev2
      by (simp add: st c1_def[symmetric] eh2_def record_remove_event_def)
    have leaves2: "set (map snd eh2) = set (evictable_leaves c2)" "distinct (map snd eh2)"
    proof -
      have l1: "evictable_leaves c1 = evictable_leaves c" by (simp add: c1_def)
      have ls: "set (evictable_leaves c2) =
         (if lock_ref (at c p) > 0 \<or> dict_pop ck (children (at c p)) \<noteq> [] then set (evictable_leaves c) - {x, p}
          else Set.insert p (set (evictable_leaves c) - {x}))"
        using d unfolding cut_done_def c1(2) l1 by blast
      have px: "set (evictable_leaves c) - {x, p} = set (evictable_leaves c) - {x}" using pnl by blast
      have pe: "p \<notin> set (map snd eh')" using rem(1) pnl by blast
      show "set (map snd eh2) = set (evictable_leaves c2)"
        using rem(1) e2(2) unfolding ls px eh2_def push by simp
      show "distinct (map snd eh2)" using rem(2) pe e2(2) by (simp add: eh2_def)
    qed
    have a2: "rc_alloc c2 = a" using d by (simp add: cut_done_def c1_def)
    have val2: "node_value (at c2 n) = node_value (at c n)" "lock_ref (at c2 n) = lock_ref (at c n)" for n
      by (simp_all add: A c1)
    have o2: "owns_slots c2 (N - {x})"
      by (rule owns_cut[OF st1 I(3) val2(1)]) (use k2 a a2 sv in \<open>simp_all add: keeps_def\<close>)
    have lv: "leaving c0 N0 (N - {x}) = leaving c0 N0 N \<union> set v"
      using I(5,7) S(3) sv by (auto simp: leaving_def slots_at_def)
    have es2: "evictable_size c2 = evictable_size c - int (length v)" "protected_size c2 = protected_size c"
      using d v(2) by (simp_all add: cut_done_def node_len_def c1)
    have "evict_inv c0 N0 P H (c2, eh2, num + int (length v)) (N - {x})"
      unfolding evict_inv_def prod.case
    proof (intro conjI)
      show "tree c2 (N - {x}) P" "accounts c2 (N - {x}) P H" "owns_slots c2 (N - {x})"
        "set (map snd eh2) = set (evictable_leaves c2)" "distinct (map snd eh2)" using T2 AC2 o2 leaves2 by simp_all
      show "keeps c0 c2" using keeps_trans[OF I(4) k2] .
      show "N - {x} \<subseteq> N0" using I(5) by blast
      show "\<forall>n \<in> N0 - (N - {x}). n \<noteq> root_node c0 \<and> lock_ref (at c0 n) = 0"
        using I(4,6,8) S(4,7) by (auto simp: keeps_def)
      show "\<forall>n. node_value (at c2 n) = node_value (at c0 n) \<and> lock_ref (at c2 n) = lock_ref (at c0 n)"
        using val2 I(7,8) by simp
      show "same_class (rc_alloc c0) (rc_alloc c2)" using same_class_trans[OF I(9)] a(3) a2 by simp
      show "alloc_free_slots (rc_alloc c2) = alloc_free_slots (rc_alloc c0) \<union> leaving c0 N0 (N - {x})"
        using I(10) a(4) a2 lv by blast
      show "num + int (length v) = evictable_size c0 - evictable_size c2" "protected_size c2 = protected_size c0"
        using I(13,14) es2 by simp_all
    qed
    moreover have "card (N - {x}) < card N"
      using S(3) tree_finite[OF I(1)] by (rule card_Diff1_less[rotated])
    ultimately show ?thesis using step by blast
  qed
qed

text \<open>While a node is unlocked, so is a leaf below it.\<close>

lemma unlocked_leaf:
  assumes t: "tree c N P" and a: "accounts c N P H" and e: "evictable_leaves c = []"
  shows "unlocked c N = {}"
proof (rule ccontr)
  assume ne: "unlocked c N \<noteq> {}"
  have fin: "finite (unlocked c N)" using tree_finite[OF t] by (simp add: unlocked_def inner_def)
  define M where "M = Max ((\<lambda>n. length (P n)) ` unlocked c N)"
  have "M \<in> (\<lambda>n. length (P n)) ` unlocked c N" unfolding M_def using fin ne by (intro Max_in) auto
  then obtain n where n: "n \<in> unlocked c N" "length (P n) = M" by auto
  have nN: "n \<in> N" and n0: "lock_ref (at c n) = 0" "n \<in> inner c N" using n by (auto simp: unlocked_def inner_def)
  have "children (at c n) \<noteq> []" using a e n by (auto simp: accounts_def leaves_ok_def)
  then obtain m where m: "m \<in> set (dict_values (children (at c n)))" by (cases "children (at c n)") auto
  have "dict_wf (children (at c n))" using tree_children[OF t nN] by (simp add: children_ok_def)
  from dict_value_get[OF this m] obtain k where g: "dict_get (children (at c n)) k = Some m" by blast
  have u: "(m, n) \<in> up c N" using up_child[OF t nN g] .
  have mi: "m \<in> inner c N" using upD[OF t u] by (simp add: inner_def)
  have nm: "prefix (P n) (P m)" using upD(4)[OF t u] by simp
  have "filter_mset (\<lambda>h. prefix (P m) (P h)) H \<subseteq># filter_mset (\<lambda>h. prefix (P n) (P h)) H"
    by (rule filter_mset_mono_strong) (use nm prefix_order.order_trans in blast)+
  then have "holders_below P H m \<le> holders_below P H n"
    unfolding holders_below_def by (simp add: size_mset_mono)
  then have "lock_ref (at c m) = 0"
    using a mi n0 holders_nonneg[of P H m] by (auto simp: accounts_def locks_ok_def)
  then have "m \<in> unlocked c N" using mi by (simp add: unlocked_def)
  then have "length (P m) \<le> M" unfolding M_def using fin by (intro Max_ge) auto
  with upD(5)[OF t u] n(2) show False by simp
qed

lemma radix_evict_ok:
  assumes t: "tree c N P" and a: "accounts c N P H" and o: "owns_slots c N" and nd: "\<not> rc_disable c"
    and ev: "\<not> enable_kv_cache_events c"
  shows "\<exists>num c' N'. radix_evict num_tokens c = Some (num, c') \<and> tree c' N' P \<and> accounts c' N' P H \<and>
    owns_slots c' N' \<and> keeps c c' \<and> N' \<subseteq> N \<and> (\<forall>n \<in> N - N'. n \<noteq> root_node c \<and> lock_ref (at c n) = 0) \<and>
    (\<forall>n. node_value (at c' n) = node_value (at c n)) \<and> same_class (rc_alloc c) (rc_alloc c') \<and>
    alloc_free_slots (rc_alloc c') = alloc_free_slots (rc_alloc c) \<union> leaving c N N' \<and>
    num = evictable_size c - evictable_size c' \<and> protected_size c' = protected_size c \<and>
    (num_tokens \<le> num \<or> evictable_size c' = 0)"
proof -
  have ld: "distinct (evictable_leaves c)" "\<And>n. n \<in> set (evictable_leaves c) \<Longrightarrow> n \<in> N"
    using a by (auto simp: accounts_def leaves_ok_def unlocked_def inner_def)
  define es where "es = map (\<lambda>n. (get_priority (eviction_policy c) (at c n) @ [last_access_time (at c n)], n)) (evictable_leaves c)"
  have "map (evict_entry c) (evictable_leaves c) = map Some es"
    using ld(2) tree_heap[OF t] by (simp add: es_def evict_entry_def)
  then have th: "those (map (evict_entry c) (evictable_leaves c)) = Some es"
  proof -
    have "those (map Some es) = Some es" by (induction es) simp_all
    with \<open>map (evict_entry c) (evictable_leaves c) = map Some es\<close> show ?thesis by simp
  qed
  have sn: "map snd es = evictable_leaves c" by (simp add: es_def comp_def)
  have i: "evict_inv c N P H (c, es, 0) N"
  proof -
    have "set (map snd es) = set (evictable_leaves c)" "distinct (map snd es)" using ld(1) by (simp_all only: sn)
    then show ?thesis unfolding evict_inv_def prod.case using t a o by (simp add: leaving_def)
  qed
  let ?I = "\<lambda>st. \<exists>N'. evict_inv c N P H st N'"
  let ?post = "\<lambda>r. \<exists>N' eh. evict_inv c N P H (snd r, eh, fst r) N' \<and> (num_tokens \<le> fst r \<or> evictable_leaves (snd r) = [])"
  have "\<exists>r. iterate (evict_step num_tokens) (c, es, 0) = Some r \<and> ?post r"
  proof (rule iterate_total[where I = ?I and m = "\<lambda>st. card (SOME N'. evict_inv c N P H st N')"])
    show "?I (c, es, 0)" using i by blast
    fix st assume "?I st"
    then have some: "evict_inv c N P H st (SOME N'. evict_inv c N P H st N')" by (rule someI_ex)
    have uniq: "N1 = N2" if "evict_inv c N P H st' N1" "evict_inv c N P H st' N2" for st' N1 N2
    proof -
      obtain c1 eh1 n1 where s: "st' = (c1, eh1, n1)" by (cases st')
      have t1: "tree c1 N1 P" "tree c1 N2 P" using that by (simp_all add: evict_inv_def s)
      have "X \<subseteq> Y" if "tree c1 X P" "tree c1 Y P" for X Y
      proof
        fix n assume "n \<in> X"
        then show "n \<in> Y"
        proof (induction "length (P n)" arbitrary: n rule: less_induct)
          case less
          show ?case
          proof (cases "n = root_node c1")
            case True
            then show ?thesis using tree_root[OF that(2)] by simp
          next
            case False
            from up_exists[OF that(1) less.prems False] obtain p where u: "(n, p) \<in> up c1 X" by blast
            note U = upD[OF that(1) u]
            from U(6) obtain k where "dict_get (children (at c1 p)) k = Some n" by blast
            then show ?thesis using tree_childD(1)[OF that(2) less.hyps[OF U(5,2)]] by blast
          qed
        qed
      qed
      then show ?thesis using t1 by blast
    qed
    let ?goal = "(\<exists>r. evict_step num_tokens st = Some (Inl r) \<and> ?post r) \<or>
      (\<exists>st'. evict_step num_tokens st = Some (Inr st') \<and> ?I st' \<and>
        card (SOME N'. evict_inv c N P H st' N') < card (SOME N'. evict_inv c N P H st N'))"
    from evict_step_ok[OF some ev, of num_tokens]
    consider n c1 where "evict_step num_tokens st = Some (Inl (n, c1))"
        "evict_inv c N P H (c1, fst (snd st), n) (SOME N'. evict_inv c N P H st N')"
        "num_tokens \<le> n \<or> evictable_leaves c1 = []"
      | st' N' where "evict_step num_tokens st = Some (Inr st')" "evict_inv c N P H st' N'"
        "card N' < card (SOME N'. evict_inv c N P H st N')" by blast
    then show ?goal
    proof cases
      case (1 n c1)
      then show ?thesis by (intro disjI1 exI[of _ "(n, c1)"]) auto
    next
      case (2 st' N')
      have "(SOME N'. evict_inv c N P H st' N') = N'" using uniq[OF someI[of "evict_inv c N P H st'", OF 2(2)] 2(2)] .
      with 2 show ?thesis by auto
    qed
  qed
  then obtain num c' N' eh where r: "iterate (evict_step num_tokens) (c, es, 0) = Some (num, c')"
    "evict_inv c N P H (c', eh, num) N'" "num_tokens \<le> num \<or> evictable_leaves c' = []" by auto
  have R: "tree c' N' P" "accounts c' N' P H" using r(2) by (simp_all add: evict_inv_def)
  have "evictable_size c' = 0" if "evictable_leaves c' = []"
    using unlocked_leaf[OF R that] R(2) by (simp add: accounts_def sizes_ok_def)
  moreover have "radix_evict num_tokens c = Some (num, c')" using nd th r(1) by (simp add: radix_evict_def)
  ultimately show ?thesis using r(2,3) by (auto simp: evict_inv_def)
qed

end
