(* ===== verification/RadixProps.thy ===== *)
theory RadixProps
  imports RadixEvict
begin

text \<open>
  The contract of the radix cache, stated without the ghost tree: \<open>path_of c n xs\<close> follows the children
  from the root, \<open>cached c xs\<close> says that the cache holds the sequence \<open>xs\<close> of units with their slots,
  and \<open>radix_inv c H\<close> is the invariant for the multiset \<open>H\<close> of nodes that requests hold.
\<close>

section \<open>The abstract content\<close>

inductive path_of :: "radix_cache \<Rightarrow> nid \<Rightarrow> slot_unit list \<Rightarrow> bool" for c where
  root: "path_of c (root_node c) []"
| child: "path_of c p xs \<Longrightarrow> dict_get (children (at c p)) ck = Some n \<Longrightarrow> path_of c n (xs @ pairs (at c n))"

inductive_cases path_ofE: "path_of c n xs"

definition cached :: "radix_cache \<Rightarrow> slot_unit list \<Rightarrow> bool" where
  "cached c xs \<longleftrightarrow> (\<exists>n ys. path_of c n ys \<and> prefix xs ys)"

definition radix_inv :: "radix_cache \<Rightarrow> nid multiset \<Rightarrow> bool" where
  "radix_inv c H \<longleftrightarrow> (\<exists>N P. tree c N P \<and> accounts c N P H)"

definition plain_config :: "radix_cache \<Rightarrow> bool" where
  "plain_config c \<longleftrightarrow> \<not> rc_disable c \<and> \<not> enable_kv_cache_events c"

lemma path_of_tree:
  assumes t: "tree c N P"
  shows "path_of c n xs \<longleftrightarrow> n \<in> N \<and> xs = P n"
proof
  assume "path_of c n xs"
  then show "n \<in> N \<and> xs = P n"
  proof induction
    case root
    then show ?case using treeD(3,4)[OF t] by simp
  next
    case (child p xs ck n)
    then show ?case using tree_childD(1)[OF t _ child.hyps(2)] tree_child_path[OF t _ child.hyps(2)] by simp
  qed
next
  assume "n \<in> N \<and> xs = P n"
  then have "n \<in> N" "xs = P n" by simp_all
  then show "path_of c n xs"
  proof (induction "length (P n)" arbitrary: n xs rule: less_induct)
    case less
    show ?case
    proof (cases "n = root_node c")
      case True
      then show ?thesis using less.prems treeD(4)[OF t] path_of.root by simp
    next
      case False
      from up_exists[OF t less.prems(1) False] obtain p where u: "(n, p) \<in> up c N" by blast
      note K = upD[OF t u]
      from K(6) obtain ck where "dict_get (children (at c p)) ck = Some n" by blast
      from path_of.child[OF less.hyps[OF K(5,2) refl] this] show ?thesis using K(4) less.prems(2) by simp
    qed
  qed
qed

lemma cached_tree: "tree c N P \<Longrightarrow> cached c xs \<longleftrightarrow> (\<exists>n \<in> N. prefix xs (P n))"
  by (auto simp: cached_def path_of_tree)

lemma cached_same_content:
  assumes "tree c N P" and "tree c' N' P'" and "same_content N P N' P'"
  shows "cached c' xs = cached c xs"
proof -
  have "\<exists>n \<in> N. prefix xs (P n)" if "m \<in> N'" "prefix xs (P' m)" for m
    using assms(3) that unfolding same_content_def by (meson prefix_order.order_trans)
  moreover have "\<exists>n \<in> N'. prefix xs (P' n)" if "m \<in> N" "prefix xs (P m)" for m
    using assms(3) that unfolding same_content_def by (metis subsetD)
  ultimately show ?thesis by (auto simp: cached_tree[OF assms(1)] cached_tree[OF assms(2)])
qed

section \<open>Lookup\<close>

lemma match_prefix_spec:
  assumes "radix_inv c H" and "plain_config c" and "key_fits c key"
  shows "\<exists>slots n c' xs. match_prefix key c = Some ((slots, n), c') \<and> radix_inv c' H \<and>
    keeps c c' \<and> rc_alloc c' = rc_alloc c \<and> evictable_size c' = evictable_size c \<and> (\<forall>m ys. path_of c m ys \<longrightarrow> path_of c' m ys) \<and>
    (\<forall>ys. cached c' ys = cached c ys) \<and> path_of c' n xs \<and> cached c xs \<and>
    slots = map snd xs \<and> prefix (map fst xs) (lookup_units c key) \<and>
    (\<forall>ys. cached c ys \<and> rc_page_size c dvd length ys \<and> prefix (map fst ys) (lookup_units c key) \<longrightarrow>
       length ys \<le> length slots)"
proof -
  obtain N P where t: "tree c N P" and a: "accounts c N P H" using assms(1) by (auto simp: radix_inv_def)
  let ?us = "lookup_units c key"
  from match_prefix_done[OF t _ assms(3)] assms(2) obtain slots n c' where
    m: "match_prefix key c = Some ((slots, n), c')" "match_done c N P ?us ((slots, n), c')"
    by (auto simp: plain_config_def)
  then obtain N' P' where d: "tree c' N' P'" "same_content N P N' P'" "accounts c' N' P' H" "n \<in> N'"
    "slots = map snd (P' n)" "prefix (U P' n) ?us" "longest (rc_page_size c) N P ?us (length (P' n))"
    "heap_only c c'"
    using a by (auto simp: match_done_def)
  have same: "cached c' ys = cached c ys" for ys using cached_same_content[OF t d(1,2)] .
  have long: "length ys \<le> length slots"
    if ys: "cached c ys" "rc_page_size c dvd length ys" "prefix (map fst ys) ?us" for ys
  proof -
    from ys(1) obtain m where mN: "m \<in> N" "prefix ys (P m)" by (auto simp: cached_tree[OF t])
    have "take (length ys) ?us = map fst ys" "length ys \<le> length ?us"
      using ys(3) prefix_length_le[OF ys(3)] by (auto simp: prefix_def)
    moreover have "prefix (map fst ys) (U P m)" using mN(2) by (auto simp: prefix_def)
    ultimately show ?thesis using d(5,7) mN(1) ys(2) by (auto simp: longest_def)
  qed
  have "path_of c' n (P' n)" using d(4) path_of_tree[OF d(1)] by simp
  moreover have "cached c (P' n)" using same d(4) cached_tree[OF d(1)] by blast
  moreover have "path_of c' m ys" if "path_of c m ys" for m ys
    using that d(2) by (auto simp: path_of_tree[OF t] path_of_tree[OF d(1)] same_content_def)
  moreover have "radix_inv c' H" using d(1,3) by (auto simp: radix_inv_def)
  ultimately show ?thesis using m(1) same d(5,6) long heap_only_keeps[OF d(8)] heap_onlyD(4,7)[OF d(8)]
    by (intro exI[of _ slots] exI[of _ n] exI[of _ c'] exI[of _ "P' n"]) auto
qed

section \<open>Insertion\<close>

lemma insert_spec:
  assumes "radix_inv c H" and "plain_config c" and "key_fits c key"
    and "length (lookup_units c key) \<le> length vs"
  shows "\<exists>k c' xs. radix_insert key (Some vs) priority chunked c = Some (k, c') \<and> radix_inv c' H \<and>
    keeps c c' \<and> rc_alloc c' = rc_alloc c \<and> (\<forall>m ys. path_of c m ys \<longrightarrow> path_of c' m ys) \<and>
    k \<le> length xs \<and> cached c' xs \<and> map fst xs = lookup_units c key \<and> cached c (take k xs) \<and>
    map snd (drop k xs) = drop k (take (length xs) vs) \<and>
    (\<forall>ys. cached c ys \<and> rc_page_size c dvd length ys \<and> prefix (map fst ys) (lookup_units c key) \<longrightarrow> length ys \<le> k) \<and>
    (\<forall>ys. cached c' ys \<longleftrightarrow> cached c ys \<or> prefix ys xs) \<and>
    evictable_size c' = evictable_size c + int (length xs - k)"
proof -
  obtain N P where t: "tree c N P" and a: "accounts c N P H" using assms(1) by (auto simp: radix_inv_def)
  let ?us = "lookup_units c key"
  from radix_insert_done[OF t _ _ assms(3,4), of priority chunked] assms(2) obtain k c' N' P' where
    m: "radix_insert key (Some vs) priority chunked c = Some (k, c')"
    "insert_done c N P ?us (take (length ?us) vs) (k, c') N' P'" by (auto simp: plain_config_def)
  have d: "tree c' N' P'" "accounts c' N' P' H" "N \<subseteq> N'" "\<forall>n \<in> N. P' n = P n" "k \<le> length ?us"
    "longest (rc_page_size c) N P ?us k" "\<forall>m \<in> N'. (\<exists>n \<in> N. prefix (P' m) (P n)) \<or> U P' m = ?us"
    "evictable_size c' = evictable_size c + int (length ?us - k)" "keeps c c'" "rc_alloc c' = rc_alloc c"
    using m(2) a by (auto simp: insert_done_def)
  from m(2) obtain n z where n: "n \<in> N'" "U P' n = ?us" "map snd (drop k (P' n)) = drop k (take (length ?us) vs)"
    "z \<in> N" "prefix (take k (P' n)) (P z)"
    by (auto simp: insert_done_def)
  have len: "length (P' n) = length ?us" using n(2) by (metis length_map)
  have grow: "cached c' ys \<longleftrightarrow> cached c ys \<or> prefix ys (P' n)" for ys
  proof
    assume "cached c' ys"
    then obtain m where m: "m \<in> N'" "prefix ys (P' m)" by (auto simp: cached_tree[OF d(1)])
    from d(7) m(1) consider w where "w \<in> N" "prefix (P' m) (P w)" | "U P' m = ?us" by blast
    then show "cached c ys \<or> prefix ys (P' n)"
    proof cases
      case 1
      then show ?thesis using m(2) prefix_order.order_trans by (auto simp: cached_tree[OF t])
    next
      case 2
      then have "m = n" using path_inj[OF d(1) m(1) n(1)] n(2) by simp
      then show ?thesis using m(2) by simp
    qed
  next
    assume "cached c ys \<or> prefix ys (P' n)"
    then show "cached c' ys"
      using d(3,4) n(1) unfolding cached_tree[OF t] cached_tree[OF d(1)] by (metis subsetD)
  qed
  have long: "length ys \<le> k"
    if ys: "cached c ys" "rc_page_size c dvd length ys" "prefix (map fst ys) ?us" for ys
  proof -
    from ys(1) obtain m where mN: "m \<in> N" "prefix ys (P m)" by (auto simp: cached_tree[OF t])
    have "take (length ys) ?us = map fst ys" "length ys \<le> length ?us"
      using ys(3) prefix_length_le[OF ys(3)] by (auto simp: prefix_def)
    moreover have "prefix (map fst ys) (U P m)" using mN(2) by (auto simp: prefix_def)
    ultimately show ?thesis using d(6) mN(1) ys(2) by (auto simp: longest_def)
  qed
  have "cached c (take k (P' n))" using n(4,5) by (auto simp: cached_tree[OF t])
  moreover have "cached c' (P' n)" using grow by blast
  moreover have "path_of c' m ys" if "path_of c m ys" for m ys
    using that d(3,4) by (auto simp: path_of_tree[OF t] path_of_tree[OF d(1)])
  moreover have "radix_inv c' H" using d(1,2) by (auto simp: radix_inv_def)
  ultimately show ?thesis using m(1) n(2,3) d(5,8,9,10) len grow long
    by (intro exI[of _ k] exI[of _ c'] exI[of _ "P' n"]) auto
qed

section \<open>Locking\<close>

lemma lock_unlock_spec:
  assumes "radix_inv c H" and "plain_config c" and "path_of c n xs"
  shows "\<exists>d c' d' c''. inc_lock_ref n c = Some (d, c') \<and> radix_inv c' (add_mset n H) \<and>
    evictable_size c' = evictable_size c + d \<and> protected_size c' = protected_size c - d \<and>
    (\<forall>ys. cached c' ys = cached c ys) \<and>
    dec_lock_ref n c' = Some (d', c'') \<and> radix_inv c'' H \<and> d' = - d \<and>
    evictable_size c'' = evictable_size c \<and> protected_size c'' = protected_size c"
proof -
  obtain N P where t: "tree c N P" and a: "accounts c N P H" using assms(1) by (auto simp: radix_inv_def)
  have n: "n \<in> N" using assms(3) path_of_tree[OF t] by simp
  from inc_lock_ref_ok[OF t a _ n] assms(2) obtain d c' where i: "inc_lock_ref n c = Some (d, c')" "tree c' N P"
    "accounts c' N P (add_mset n H)" "keeps c c'" "evictable_size c' = evictable_size c + d"
    "protected_size c' = protected_size c - d" "\<forall>m \<in> N. node_key (at c' m) = node_key (at c m)"
    by (auto simp: plain_config_def)
  have "\<not> rc_disable c'" using i(4) assms(2) by (simp add: keeps_def plain_config_def)
  from dec_lock_ref_ok[OF i(2,3) this] obtain d' c'' where j: "dec_lock_ref n c' = Some (d', c'')" "tree c'' N P"
    "accounts c'' N P H" "keeps c' c''" "evictable_size c'' = evictable_size c' + d'"
    "protected_size c'' = protected_size c' - d'" "\<forall>m \<in> N. node_key (at c'' m) = node_key (at c' m)" by auto
  have inn: "inner c'' N = inner c N" using i(4) j(4) by (simp add: keeps_def inner_def)
  have l: "lock_ref (at c'' m) = lock_ref (at c m)" if "m \<in> inner c N" for m
    using a j(3) that inn by (auto simp: accounts_def locks_ok_def)
  have nl: "node_len c'' m = node_len c m" if "m \<in> inner c N" for m
    using that i(7) j(7) by (simp add: node_len_def inner_def)
  have "unlocked c'' N = unlocked c N" using l inn by (auto simp: unlocked_def)
  then have "sum (node_len c'') (unlocked c'' N) = sum (node_len c) (unlocked c N)"
    using nl by (auto simp: unlocked_def intro!: sum.cong)
  then have "evictable_size c'' = evictable_size c" using a j(3) by (simp add: accounts_def sizes_ok_def)
  moreover have "cached c' ys = cached c ys" for ys by (simp add: cached_tree[OF t] cached_tree[OF i(2)])
  ultimately show ?thesis using i j by (auto simp: radix_inv_def)
qed

section \<open>Eviction\<close>

definition slots_owned :: "radix_cache \<Rightarrow> bool" where
  "slots_owned c \<longleftrightarrow> alloc_inv (rc_alloc c) \<and>
     (\<forall>n xs. path_of c n xs \<and> n \<noteq> root_node c \<longrightarrow>
        alloc_whole (rc_alloc c) (slots_at c n) \<and> distinct (slots_at c n) \<and>
        set (slots_at c n) \<subseteq> alloc_universe (rc_alloc c) - alloc_free_slots (rc_alloc c) \<and>
        (\<forall>m ys. path_of c m ys \<and> m \<noteq> root_node c \<and> m \<noteq> n \<longrightarrow> set (slots_at c n) \<inter> set (slots_at c m) = {}))"

definition slots_cached :: "radix_cache \<Rightarrow> int set" where
  "slots_cached c = {s. \<exists>xs. cached c xs \<and> s \<in> snd ` set xs}"

lemma slots_owned_tree:
  assumes "tree c N P"
  shows "slots_owned c \<longleftrightarrow> owns_slots c N"
  unfolding slots_owned_def owns_slots_def path_of_tree[OF assms] cached_slots_def inner_def by blast

lemma path_slots:
  assumes t: "tree c N P" and n: "n \<in> N"
  shows "snd ` set (P n) \<subseteq> cached_slots c N"
  using n
proof (induction "length (P n)" arbitrary: n rule: less_induct)
  case less
  show ?case
  proof (cases "n = root_node c")
    case True
    then show ?thesis using treeD(4)[OF t] by simp
  next
    case False
    from up_exists[OF t less.prems(1) False] obtain p where u: "(n, p) \<in> up c N" by blast
    note K = upD[OF t u]
    have "snd ` set (pairs (at c n)) = set (slots_at c n)"
      using map_snd_pairs[OF tree_key[OF t K(1,3)]] by (metis set_map slots_at_def)
    moreover have "n \<in> inner c N" using K by (simp add: inner_def)
    ultimately show ?thesis using less.hyps[OF K(5,2)] K(4) by (auto simp: cached_slots_def)
  qed
qed

lemma slots_cached_tree:
  assumes t: "tree c N P"
  shows "slots_cached c = cached_slots c N"
proof
  show "slots_cached c \<subseteq> cached_slots c N"
    using path_slots[OF t] by (fastforce simp: slots_cached_def cached_tree[OF t] prefix_def)
  show "cached_slots c N \<subseteq> slots_cached c"
  proof
    fix s assume "s \<in> cached_slots c N"
    then obtain n where n: "n \<in> N" "n \<noteq> root_node c" "s \<in> set (slots_at c n)"
      by (auto simp: cached_slots_def inner_def)
    from up_exists[OF t n(1,2)] obtain p where u: "(n, p) \<in> up c N" by blast
    note K = upD[OF t u]
    have "s \<in> snd ` set (pairs (at c n))"
      using map_snd_pairs[OF tree_key[OF t K(1,3)]] n(3) by (metis set_map slots_at_def)
    then have "s \<in> snd ` set (P n)" using K(4) by auto
    moreover have "cached c (P n)" using n(1) by (auto simp: cached_tree[OF t])
    ultimately show "s \<in> slots_cached c" by (auto simp: slots_cached_def)
  qed
qed

lemma evict_spec:
  assumes "radix_inv c H" and "plain_config c" and "slots_owned c"
  shows "\<exists>num c'. radix_evict num_tokens c = Some (num, c') \<and> radix_inv c' H \<and> slots_owned c' \<and>
    keeps c c' \<and> same_class (rc_alloc c) (rc_alloc c') \<and>
    (\<forall>ys. cached c' ys \<longrightarrow> cached c ys) \<and> (\<forall>h \<in># H. \<forall>xs. path_of c h xs \<longrightarrow> path_of c' h xs) \<and>
    alloc_free_slots (rc_alloc c') = alloc_free_slots (rc_alloc c) \<union> (slots_cached c - slots_cached c') \<and>
    num = evictable_size c - evictable_size c' \<and> protected_size c' = protected_size c \<and>
    (num_tokens \<le> num \<or> evictable_size c' = 0)"
proof -
  obtain N P where t: "tree c N P" and a: "accounts c N P H" using assms(1) by (auto simp: radix_inv_def)
  have o: "owns_slots c N" using assms(3) slots_owned_tree[OF t] by simp
  have cfg: "\<not> rc_disable c" "\<not> enable_kv_cache_events c" using assms(2) by (simp_all add: plain_config_def)
  from radix_evict_ok[OF t a o cfg, of num_tokens] obtain num c' N' where e:
    "radix_evict num_tokens c = Some (num, c')" "tree c' N' P" "accounts c' N' P H"
    "owns_slots c' N'" "keeps c c'" "N' \<subseteq> N" "\<forall>n \<in> N - N'. n \<noteq> root_node c \<and> lock_ref (at c n) = 0"
    "alloc_free_slots (rc_alloc c') = alloc_free_slots (rc_alloc c) \<union> leaving c N N'"
    "num = evictable_size c - evictable_size c'" "protected_size c' = protected_size c"
    "num_tokens \<le> num \<or> evictable_size c' = 0" "\<forall>n. node_value (at c' n) = node_value (at c n)"
    "same_class (rc_alloc c) (rc_alloc c')" by blast
  have "cached c ys" if "cached c' ys" for ys
    using that e(6) by (auto simp: cached_tree[OF t] cached_tree[OF e(2)])
  moreover have "path_of c' h xs" if "h \<in># H" "path_of c h xs" for h xs
    using e(3) that by (auto simp: path_of_tree[OF t] path_of_tree[OF e(2)] accounts_def locks_ok_def)
  moreover have "leaving c N N' = slots_cached c - slots_cached c'"
  proof -
    have r: "root_node c' = root_node c" "root_node c \<in> N'"
      using e(5) tree_root[OF e(2)] by (simp_all add: keeps_def)
    have "slots_cached c' = (\<Union>n \<in> inner c N'. set (slots_at c n))"
      using e(12) r by (simp add: slots_cached_tree[OF e(2)] cached_slots_def inner_def slots_at_def)
    moreover have "slots_cached c = (\<Union>n \<in> inner c N'. set (slots_at c n)) \<union> leaving c N N'"
    proof -
      have "inner c N = inner c N' \<union> (N - N')" using e(6) r by (auto simp: inner_def)
      then show ?thesis unfolding slots_cached_tree[OF t] cached_slots_def leaving_def by blast
    qed
    moreover have "(\<Union>n \<in> inner c N'. set (slots_at c n)) \<inter> leaving c N N' = {}"
    proof -
      have "set (slots_at c n) \<inter> set (slots_at c m) = {}" if "n \<in> inner c N'" "m \<in> N - N'" for n m
      proof -
        have dj: "\<forall>n \<in> inner c N. \<forall>m \<in> inner c N. n \<noteq> m \<longrightarrow> set (slots_at c n) \<inter> set (slots_at c m) = {}"
          using o by (simp add: owns_slots_def)
        have "n \<in> inner c N" "m \<in> inner c N" "n \<noteq> m" using that e(6) r by (auto simp: inner_def)
        with dj show ?thesis by blast
      qed
      then show ?thesis unfolding leaving_def by blast
    qed
    ultimately show ?thesis by blast
  qed
  ultimately show ?thesis using e slots_owned_tree[OF e(2)]
    by (intro exI[of _ num] exI[of _ c']) (auto simp: radix_inv_def)
qed

end
