(* ===== verification/RadixClient.thy ===== *)
theory RadixClient
  imports RadixProps
begin

text \<open>
  Clients of the radix cache.  A client stores keys with slots it took from the allocator, looks keys
  up and locks what it found, unlocks, and asks for eviction; \<open>client_run\<close> runs any sequence of such
  requests from an empty cache.  Together with the single operations' contracts this shows that no
  reachable call fails and that every slot is always either free or cached, never both.
\<close>

section \<open>Changing the allocator only\<close>

lemma alloc_update [simp]:
  "heap (c\<lparr>rc_alloc := a\<rparr>) = heap c" "at (c\<lparr>rc_alloc := a\<rparr>) = at c" "root_node (c\<lparr>rc_alloc := a\<rparr>) = root_node c"
  "keeps c (c\<lparr>rc_alloc := a\<rparr>) \<longleftrightarrow> al_size a = al_size (rc_alloc c)"
  by (simp_all add: at_def fun_eq_iff keeps_def)

lemma tree_alloc: "tree c N P \<Longrightarrow> tree (c\<lparr>rc_alloc := a\<rparr>) N P"
  by (rule tree_shape) (auto simp: shape_eq_def treeD(5) tree_heap)

lemma accounts_alloc: "accounts c N P H \<Longrightarrow> accounts (c\<lparr>rc_alloc := a\<rparr>) N P H"
  by (simp add: accounts_def locks_ok_def sizes_ok_def leaves_ok_def unlocked_def locked_def inner_def node_len_def[abs_def])

lemma radix_inv_alloc: "radix_inv c H \<Longrightarrow> radix_inv (c\<lparr>rc_alloc := a\<rparr>) H"
  unfolding radix_inv_def by (elim exE conjE) (blast intro: tree_alloc accounts_alloc)

lemma cached_alloc:
  assumes "radix_inv c H"
  shows "cached (c\<lparr>rc_alloc := a\<rparr>) ys = cached c ys"
proof -
  obtain N P where t: "tree c N P" using assms by (auto simp: radix_inv_def)
  show ?thesis by (simp add: cached_tree[OF t] cached_tree[OF tree_alloc[OF t]])
qed

section \<open>Locks on their own\<close>

text \<open>The same nodes with the same keys at the same places.\<close>

definition same_nodes :: "radix_cache \<Rightarrow> radix_cache \<Rightarrow> bool" where
  "same_nodes c c' \<longleftrightarrow> root_node c' = root_node c \<and> path_of c' = path_of c \<and>
     (\<forall>m xs. path_of c m xs \<longrightarrow> node_key (at c' m) = node_key (at c m))"

lemma same_nodes_refl [simp]: "same_nodes c c"
  by (simp add: same_nodes_def)

lemma same_nodes_trans: "same_nodes a b \<Longrightarrow> same_nodes b c \<Longrightarrow> same_nodes a c"
  by (simp add: same_nodes_def)

lemma same_nodes_sym: "same_nodes a b \<Longrightarrow> same_nodes b a"
  by (simp add: same_nodes_def)

lemma same_nodesI:
  assumes "tree c N P" and "tree c' N P" and "keeps c c'" and "\<forall>m \<in> N. node_key (at c' m) = node_key (at c m)"
  shows "same_nodes c c'"
  using assms by (auto simp: same_nodes_def path_of_tree[OF assms(1)] path_of_tree[OF assms(2)] fun_eq_iff keeps_def)

text \<open>The evictable size depends only on the nodes and on who holds them.\<close>

lemma evictable_determined:
  assumes s: "same_nodes c c'" and i: "radix_inv c H" and i': "radix_inv c' H"
  shows "evictable_size c' = evictable_size c"
proof -
  obtain N P where t: "tree c N P" and a: "accounts c N P H" using i by (auto simp: radix_inv_def)
  obtain N' P' where t': "tree c' N' P'" and a': "accounts c' N' P' H" using i' by (auto simp: radix_inv_def)
  have p: "path_of c' = path_of c" and r: "root_node c' = root_node c" using s by (simp_all add: same_nodes_def)
  have NP: "n \<in> N' \<and> xs = P' n \<longleftrightarrow> n \<in> N \<and> xs = P n" for n xs
    using p by (simp add: path_of_tree[OF t, symmetric] path_of_tree[OF t', symmetric])
  have N: "N' = N" and P: "\<And>n. n \<in> N \<Longrightarrow> P' n = P n" using NP by blast+
  have HN: "set_mset H \<subseteq> N" using a by (simp add: accounts_def locks_ok_def)
  have hb: "holders_below P' H n = holders_below P H n" if "n \<in> N" for n
  proof -
    have "filter_mset (\<lambda>h. prefix (P' n) (P' h)) H = filter_mset (\<lambda>h. prefix (P n) (P h)) H"
      by (rule filter_mset_cong) (use HN P that in auto)
    then show ?thesis by (simp add: holders_below_def)
  qed
  have inn: "inner c' N' = inner c N" by (simp add: inner_def N r)
  have l: "lock_ref (at c' n) = lock_ref (at c n)" if "n \<in> inner c N" for n
    using a a' that hb[of n] unfolding accounts_def locks_ok_def inn by (simp add: inner_def)
  have u: "unlocked c' N' = unlocked c N" using l unfolding unlocked_def inn by auto
  have "sum (node_len c') (unlocked c N) = sum (node_len c) (unlocked c N)"
  proof (rule sum.cong[OF refl])
    fix n assume "n \<in> unlocked c N"
    then have "path_of c n (P n)" by (simp add: unlocked_def inner_def path_of_tree[OF t])
    then show "node_len c' n = node_len c n" using s by (auto simp: same_nodes_def node_len_def)
  qed
  then show ?thesis using a a' by (simp add: accounts_def sizes_ok_def u)
qed

lemma inc_spec:
  assumes "radix_inv c H" and "plain_config c" and "path_of c n xs"
  shows "\<exists>d c'. inc_lock_ref n c = Some (d, c') \<and> radix_inv c' (add_mset n H) \<and> keeps c c' \<and>
    rc_alloc c' = rc_alloc c \<and> same_nodes c c' \<and> (\<forall>m. path_of c' m = path_of c m) \<and> (\<forall>ys. cached c' ys = cached c ys)"
proof -
  obtain N P where t: "tree c N P" and a: "accounts c N P H" using assms(1) by (auto simp: radix_inv_def)
  have n: "n \<in> N" and nd: "\<not> rc_disable c"
    using assms(2,3) path_of_tree[OF t] by (simp_all add: plain_config_def)
  from inc_lock_ref_ok[OF t a nd n] obtain d c' where i: "inc_lock_ref n c = Some (d, c')" "tree c' N P"
    "accounts c' N P (add_mset n H)" "keeps c c'" "rc_alloc c' = rc_alloc c" "same_nodes c c'"
    using same_nodesI[OF t] by blast
  have "cached c' ys = cached c ys" for ys by (simp add: cached_tree[OF t] cached_tree[OF i(2)])
  moreover have "path_of c' m = path_of c m" for m by (simp add: path_of_tree[OF t] path_of_tree[OF i(2)] fun_eq_iff)
  ultimately show ?thesis using i by (auto simp: radix_inv_def)
qed

lemma dec_spec:
  assumes "radix_inv c (add_mset n H)" and "plain_config c"
  shows "\<exists>d c'. dec_lock_ref n c = Some (d, c') \<and> radix_inv c' H \<and> keeps c c' \<and>
    rc_alloc c' = rc_alloc c \<and> same_nodes c c' \<and> (\<forall>m. path_of c' m = path_of c m) \<and> (\<forall>ys. cached c' ys = cached c ys)"
proof -
  obtain N P where t: "tree c N P" and a: "accounts c N P (add_mset n H)" using assms(1) by (auto simp: radix_inv_def)
  have nd: "\<not> rc_disable c" using assms(2) by (simp add: plain_config_def)
  from dec_lock_ref_ok[OF t a nd] obtain d c' where i: "dec_lock_ref n c = Some (d, c')" "tree c' N P"
    "accounts c' N P H" "keeps c c'" "rc_alloc c' = rc_alloc c" "same_nodes c c'"
    using same_nodesI[OF t] by blast
  have "cached c' ys = cached c ys" for ys by (simp add: cached_tree[OF t] cached_tree[OF i(2)])
  moreover have "path_of c' m = path_of c m" for m by (simp add: path_of_tree[OF t] path_of_tree[OF i(2)] fun_eq_iff)
  ultimately show ?thesis using i by (auto simp: radix_inv_def)
qed

lemma keeps_plain: "keeps c c' \<Longrightarrow> plain_config c \<Longrightarrow> plain_config c'"
  by (simp add: keeps_def plain_config_def)

lemma keeps_lookup: "keeps c c' \<Longrightarrow> lookup_units c' key = lookup_units c key"
  by (simp add: keeps_def lookup_units_def)

lemma keeps_fits: "keeps c c' \<Longrightarrow> key_fits c' key = key_fits c key"
  by (simp add: keeps_def key_fits_def)

section \<open>The empty cache\<close>

lemma radix_init_facts:
  assumes "radix_init False ps eagle nf False policy strip clock sha a p = Inr c" and "0 < ps"
  shows "radix_inv c {#}" and "plain_config c" and "cached c xs \<longleftrightarrow> xs = []" and "rc_alloc c = a"
    and "rc_is_eagle c = eagle" and "rc_page_size c = ps"
proof -
  have c: "rc_is_eagle c = eagle" "rc_page_size c = ps" "rc_alloc c = a" "\<not> rc_disable c" "\<not> enable_kv_cache_events c"
    "root_node c = 0" "node_counter c = 1" "evictable_size c = 0" "protected_size c = 0" "evictable_leaves c = []"
    "lock_ref (at c 0) = 1" "children (at c 0) = []" "node_value (at c 0) = Some []" "heap c 0 \<noteq> None"
    using assms(1) by (auto simp: radix_init_def radix_reset_def tree_node_init_def monotonic_def upd_node_def
        record_all_cleared_event_def at_def Let_def split: sum.splits)
  have t: "tree c {0} (\<lambda>_. [])"
    using assms(2) c by (simp add: tree_def children_ok_def)
  have inn: "inner c {0} = {}" using c(6) by (auto simp: inner_def)
  have ac: "accounts c {0} (\<lambda>_. []) {#}"
    using c by (simp add: accounts_def locks_ok_def sizes_ok_def leaves_ok_def unlocked_def locked_def inn)
  show "radix_inv c {#}" using t ac by (auto simp: radix_inv_def)
  show "cached c xs \<longleftrightarrow> xs = []" by (simp add: cached_tree[OF t])
  show "plain_config c" "rc_alloc c = a" "rc_is_eagle c = eagle" "rc_page_size c = ps"
    using c by (simp_all add: plain_config_def)
qed

section \<open>Slots are cached once\<close>

definition slots_unique :: "radix_cache \<Rightarrow> bool" where
  "slots_unique c \<longleftrightarrow> (\<forall>xs ys u v s. cached c (xs @ [(u, s)]) \<and> cached c (ys @ [(v, s)]) \<longrightarrow> xs = ys \<and> u = v)"

lemma cached_at:
  assumes t: "tree c N P" and u: "(n, p) \<in> up c N" and i: "i < length (slots_at c n)"
  shows "cached c ((P p @ take i (pairs (at c n))) @ [(units (node_key (at c n)) ! i, slots_at c n ! i)])"
proof -
  note K = upD[OF t u] and k = tree_key[OF t upD(1,3)[OF t u]]
  have l: "length (slots_at c n) = length (units (node_key (at c n)))" using k by (simp add: key_ok_def slots_at_def)
  then have p: "pairs (at c n) ! i = (units (node_key (at c n)) ! i, slots_at c n ! i)" "i < length (pairs (at c n))"
    using i by (simp_all add: pairs_def slots_at_def)
  have e: "take (Suc i) (pairs (at c n)) = take i (pairs (at c n)) @ [pairs (at c n) ! i]"
    using p(2) by (rule take_Suc_conv_app_nth)
  have "prefix (P p @ take (Suc i) (pairs (at c n))) (P n)"
    unfolding K(4) by (simp add: take_is_prefix)
  then have "prefix ((P p @ take i (pairs (at c n))) @ [pairs (at c n) ! i]) (P n)" by (simp add: e)
  then show ?thesis using K(1) p(1) by (auto simp: cached_tree[OF t])
qed

lemma claimed_first_unit:
  assumes "w = U P p @ take (Suc i) us" and "i < length us" and "length (P p) < length w"
  shows "take 1 (drop (length (P p)) w) = take 1 us"
  using assms by (cases us) auto

lemma claimed_node_le:
  assumes t: "tree c N P" and ps: "rc_page_size c = 1" and n: "(n, p) \<in> up c N" and m: "(m, q) \<in> up c N"
    and wn: "w = U P p @ take (Suc i) (units (node_key (at c n)))" "i < length (units (node_key (at c n)))"
    and wm: "w = U P q @ take (Suc j) (units (node_key (at c m)))" "j < length (units (node_key (at c m)))"
    and le: "length (P p) \<le> length (P q)"
  shows "n = m"
proof -
  note K = upD[OF t n] and L = upD[OF t m]
  have pq: "prefix (U P p) (U P q)"
  proof (rule prefix_length_prefix[of _ w])
    show "prefix (U P p) w" unfolding wn(1) by simp
    show "prefix (U P q) w" unfolding wm(1) by simp
  qed (use le in simp)
  note below = path_prefix_below[OF t K(2) L(2) pq]
  have fn: "take 1 (drop (length (P p)) w) = take 1 (units (node_key (at c n)))"
    using claimed_first_unit[where P = P and p = p, OF wn] wn by simp
  show ?thesis
  proof (cases "q = p")
    case True
    have fm: "take 1 (drop (length (P p)) w) = take 1 (units (node_key (at c m)))"
      unfolding True[symmetric] using claimed_first_unit[where P = P and p = q, OF wm] wm by simp
    show ?thesis using siblings_first_page[OF t n, of m] m True fn fm ps by simp
  next
    case False
    from rtrancl_child[OF below False] obtain ch where ch: "(ch, p) \<in> up c N" "(q, ch) \<in> (up c N)\<^sup>*" .
    have pc: "prefix (P ch) (P q)" using up_rtrancl[OF t ch(2) L(2)] by simp
    then have "prefix (U P ch) w" using wm(1) by (auto simp: prefix_def)
    from child_first_page[OF t ch(1) this] have "ch = n"
      using siblings_first_page[OF t ch(1) n] fn ps by simp
    then have "length (P n) \<le> length (P q)" using pc prefix_length_le by auto
    moreover have "length w = length (P p) + Suc i" using arg_cong[OF wn(1), of length] wn(2) by simp
    moreover have "length w = length (P q) + Suc j" using arg_cong[OF wm(1), of length] wm(2) by simp
    moreover have "length (P n) = length (P p) + length (units (node_key (at c n)))"
      using K(4) length_pairs[OF tree_key[OF t K(1,3)]] by simp
    ultimately show ?thesis using wn(2) by simp
  qed
qed

lemma claimed_node_unique:
  assumes t: "tree c N P" and ps: "rc_page_size c = 1" and n: "(n, p) \<in> up c N" and m: "(m, q) \<in> up c N"
    and wn: "w = U P p @ take (Suc i) (units (node_key (at c n)))" "i < length (units (node_key (at c n)))"
    and wm: "w = U P q @ take (Suc j) (units (node_key (at c m)))" "j < length (units (node_key (at c m)))"
  shows "n = m \<and> i = j"
proof -
  have "n = m"
  proof (cases "length (P p) \<le> length (P q)")
    case True
    show ?thesis by (rule claimed_node_le[OF t ps n m wn wm True])
  next
    case False
    then show ?thesis using claimed_node_le[OF t ps m n wm wn] by simp
  qed
  moreover from this have "p = q" using n m by (simp add: up_def)
  moreover have "length w = length (P p) + Suc i" using arg_cong[OF wn(1), of length] wn(2) by simp
  moreover have "length w = length (P q) + Suc j" using arg_cong[OF wm(1), of length] wm(2) by simp
  ultimately show ?thesis by simp
qed

lemma unique_owns:
  assumes t: "tree c N P" and ps: "rc_page_size c = 1" and u: "slots_unique c"
    and a: "alloc_inv (rc_alloc c)" "\<not> al_paged (rc_alloc c)"
    and f: "slots_cached c \<subseteq> alloc_universe (rc_alloc c) - alloc_free_slots (rc_alloc c)"
  shows "slots_owned c"
proof -
  have same: "n = m \<and> i = j" if nm: "n \<in> inner c N" "m \<in> inner c N"
      and ij: "i < length (slots_at c n)" "j < length (slots_at c m)" "slots_at c n ! i = slots_at c m ! j" for n m i j
  proof -
    obtain p where p: "(n, p) \<in> up c N" using up_exists[OF t, of n] nm by (auto simp: inner_def)
    obtain q where q: "(m, q) \<in> up c N" using up_exists[OF t, of m] nm by (auto simp: inner_def)
    note A = cached_at[OF t p ij(1)] and B = cached_at[OF t q ij(2)]
    have e: "P p @ take i (pairs (at c n)) = P q @ take j (pairs (at c m))"
      "units (node_key (at c n)) ! i = units (node_key (at c m)) ! j"
      using u A B ij(3) unfolding slots_unique_def by metis+
    note k = tree_key[OF t upD(1,3)[OF t p]] and l = tree_key[OF t upD(1,3)[OF t q]]
    have lens: "i < length (units (node_key (at c n)))" "j < length (units (node_key (at c m)))"
      using ij k l by (auto simp: key_ok_def slots_at_def)
    have "U P p @ take i (units (node_key (at c n))) = U P q @ take j (units (node_key (at c m)))"
      using arg_cong[OF e(1), of "map fst"] map_fst_pairs[OF k] map_fst_pairs[OF l] by (simp add: take_map[symmetric])
    then have "U P p @ take (Suc i) (units (node_key (at c n))) = U P q @ take (Suc j) (units (node_key (at c m)))"
      unfolding take_Suc_conv_app_nth[OF lens(1)] take_Suc_conv_app_nth[OF lens(2)] e(2) append_assoc[symmetric] by simp
    from claimed_node_unique[OF t ps p q refl lens(1) this lens(2)] show ?thesis .
  qed
  have "distinct (slots_at c n)" if "n \<in> inner c N" for n
    using same[OF that that] by (auto simp: distinct_conv_nth)
  moreover have "set (slots_at c n) \<inter> set (slots_at c m) = {}" if "n \<in> inner c N" "m \<in> inner c N" "n \<noteq> m" for n m
  proof (rule ccontr)
    assume "set (slots_at c n) \<inter> set (slots_at c m) \<noteq> {}"
    then obtain s where "s \<in> set (slots_at c n)" "s \<in> set (slots_at c m)" by blast
    then show False using same[OF that(1,2)] that(3) by (metis in_set_conv_nth)
  qed
  ultimately show ?thesis
    using a f unfolding slots_owned_tree[OF t] owns_slots_def slots_cached_tree[OF t] by (simp add: alloc_whole_def)
qed

end
