(* ===== verification/KvOwner.thy ===== *)
theory KvOwner
  imports RadixClient
begin

text \<open>
  Ownership of the KV slots.  \<open>kv_inv c H R\<close> says of a radix cache on a token allocator (page size 1):
  the tree is well formed and locked by the nodes in \<open>H\<close>, no slot is cached twice, and every slot of
  the pool is in exactly one of three places - free, cached, or in the set \<open>R\<close> of slots that running
  requests hold for themselves.  Each operation of the cache moves slots between the places.
\<close>

definition kv_inv :: "radix_cache \<Rightarrow> nid multiset \<Rightarrow> int set \<Rightarrow> bool" where
  "kv_inv c H R \<longleftrightarrow> radix_inv c H \<and> plain_config c \<and> rc_page_size c = 1 \<and>
     \<not> al_paged (rc_alloc c) \<and> alloc_inv (rc_alloc c) \<and> slots_unique c \<and>
     alloc_free_slots (rc_alloc c) \<union> slots_cached c \<union> R = alloc_universe (rc_alloc c) \<and>
     alloc_free_slots (rc_alloc c) \<inter> slots_cached c = {} \<and>
     alloc_free_slots (rc_alloc c) \<inter> R = {} \<and> slots_cached c \<inter> R = {}"

lemma kv_invD:
  assumes "kv_inv c H R"
  shows "radix_inv c H" "plain_config c" "rc_page_size c = 1" "\<not> al_paged (rc_alloc c)"
    "alloc_inv (rc_alloc c)" "slots_unique c"
    "alloc_free_slots (rc_alloc c) \<union> slots_cached c \<union> R = alloc_universe (rc_alloc c)"
    "alloc_free_slots (rc_alloc c) \<inter> slots_cached c = {}"
    "alloc_free_slots (rc_alloc c) \<inter> R = {}" "slots_cached c \<inter> R = {}"
  using assms unfolding kv_inv_def by blast+

lemma kv_invI:
  assumes "kv_inv c H R" and "radix_inv c' H'" and "keeps c c'" and "same_class (rc_alloc c) (rc_alloc c')"
    and "alloc_inv (rc_alloc c')" and "slots_unique c'"
    and "alloc_free_slots (rc_alloc c') \<union> slots_cached c' \<union> R' = alloc_universe (rc_alloc c)"
    and "alloc_free_slots (rc_alloc c') \<inter> slots_cached c' = {}"
    and "alloc_free_slots (rc_alloc c') \<inter> R' = {}" and "slots_cached c' \<inter> R' = {}"
  shows "kv_inv c' H' R'"
proof -
  note A = kv_invD[OF assms(1)]
  have "rc_page_size c' = 1" using assms(3) A(3) by (simp add: keeps_def)
  moreover have "\<not> al_paged (rc_alloc c')" using assms(4) A(4) by (simp add: same_class_def)
  moreover have "alloc_universe (rc_alloc c') = alloc_universe (rc_alloc c)"
    using assms(4) by (simp add: same_class_def alloc_universe_def)
  ultimately show ?thesis
    unfolding kv_inv_def using assms(2,5-10) keeps_plain[OF assms(3) A(2)] by simp
qed

lemma slots_cached_cong: "(\<And>ys. cached c' ys = cached c ys) \<Longrightarrow> slots_cached c' = slots_cached c"
  by (simp add: slots_cached_def)

lemma slots_unique_cong: "(\<And>ys. cached c' ys = cached c ys) \<Longrightarrow> slots_unique c' = slots_unique c"
  by (simp add: slots_unique_def)

text \<open>A cache with the same content and the same allocator has the same owners.\<close>

lemma kv_inv_same:
  assumes "kv_inv c H R" and "radix_inv c' H'" and "keeps c c'" and "rc_alloc c' = rc_alloc c"
    and "\<And>ys. cached c' ys = cached c ys"
  shows "kv_inv c' H' R"
  by (rule kv_invI[OF assms(1,2,3)])
    (use kv_invD[OF assms(1)] assms(4) slots_cached_cong[OF assms(5)] slots_unique_cong[OF assms(5)] in simp_all)

section \<open>Looking up and locking\<close>

lemma kv_match:
  assumes "kv_inv c H R" and "key_fits c key"
  shows "\<exists>slots n c' xs. match_prefix key c = Some ((slots, n), c') \<and> kv_inv c' H R \<and> keeps c c' \<and>
    rc_alloc c' = rc_alloc c \<and> evictable_size c' = evictable_size c \<and>
    (\<forall>m ys. path_of c m ys \<longrightarrow> path_of c' m ys) \<and> (\<forall>ys. cached c' ys = cached c ys) \<and>
    path_of c' n xs \<and> slots = map snd xs \<and> prefix (map fst xs) (lookup_units c key) \<and>
    (\<forall>ys. cached c ys \<and> prefix (map fst ys) (lookup_units c key) \<longrightarrow> length ys \<le> length slots)"
proof -
  note A = kv_invD[OF assms(1)]
  from match_prefix_spec[OF A(1,2) assms(2)] obtain slots n c' xs where m:
    "match_prefix key c = Some ((slots, n), c')" "radix_inv c' H" "keeps c c'" "rc_alloc c' = rc_alloc c"
    "\<forall>m ys. path_of c m ys \<longrightarrow> path_of c' m ys" "\<And>ys. cached c' ys = cached c ys" "path_of c' n xs"
    "slots = map snd xs" "prefix (map fst xs) (lookup_units c key)" "evictable_size c' = evictable_size c"
    "\<forall>ys. cached c ys \<and> rc_page_size c dvd length ys \<and> prefix (map fst ys) (lookup_units c key) \<longrightarrow>
       length ys \<le> length slots" by blast
  have "kv_inv c' H R" by (rule kv_inv_same[OF assms(1) m(2-4,6)])
  with m A(3) show ?thesis by (intro exI[of _ slots] exI[of _ n] exI[of _ c'] exI[of _ xs]) simp
qed

lemma kv_lock:
  assumes "kv_inv c H R" and "path_of c n xs"
  shows "\<exists>d c'. inc_lock_ref n c = Some (d, c') \<and> kv_inv c' (add_mset n H) R \<and> keeps c c' \<and>
    rc_alloc c' = rc_alloc c \<and> same_nodes c c' \<and> (\<forall>m. path_of c' m = path_of c m) \<and> (\<forall>ys. cached c' ys = cached c ys)"
proof -
  note A = kv_invD[OF assms(1)]
  from inc_spec[OF A(1,2) assms(2)] obtain d c' where m: "inc_lock_ref n c = Some (d, c')"
    "radix_inv c' (add_mset n H)" "keeps c c'" "rc_alloc c' = rc_alloc c" "same_nodes c c'"
    "\<forall>m. path_of c' m = path_of c m" "\<And>ys. cached c' ys = cached c ys" by blast
  have "kv_inv c' (add_mset n H) R" by (rule kv_inv_same[OF assms(1) m(2-4,7)])
  with m show ?thesis by blast
qed

lemma kv_unlock:
  assumes "kv_inv c (add_mset n H) R"
  shows "\<exists>d c'. dec_lock_ref n c = Some (d, c') \<and> kv_inv c' H R \<and> keeps c c' \<and>
    rc_alloc c' = rc_alloc c \<and> same_nodes c c' \<and> (\<forall>m. path_of c' m = path_of c m) \<and> (\<forall>ys. cached c' ys = cached c ys)"
proof -
  note A = kv_invD[OF assms(1)]
  from dec_spec[OF A(1,2)] obtain d c' where m: "dec_lock_ref n c = Some (d, c')"
    "radix_inv c' H" "keeps c c'" "rc_alloc c' = rc_alloc c" "same_nodes c c'"
    "\<forall>m. path_of c' m = path_of c m" "\<And>ys. cached c' ys = cached c ys" by blast
  have "kv_inv c' H R" by (rule kv_inv_same[OF assms(1) m(2-4,7)])
  with m show ?thesis by blast
qed

section \<open>Freeing, allocating, evicting\<close>

lemma kv_free:
  assumes i: "kv_inv c H R" and s: "set xs \<subseteq> R" and d: "distinct xs"
  shows "\<exists>a. allocator_free (rc_alloc c) xs = Inr a \<and> kv_inv (c\<lparr>rc_alloc := a\<rparr>) H (R - set xs) \<and>
    keeps c (c\<lparr>rc_alloc := a\<rparr>) \<and> (\<forall>ys. cached (c\<lparr>rc_alloc := a\<rparr>) ys = cached c ys) \<and>
    (\<forall>m. path_of (c\<lparr>rc_alloc := a\<rparr>) m = path_of c m)"
proof -
  note A = kv_invD[OF i]
  have "set xs \<subseteq> alloc_universe (rc_alloc c) - alloc_free_slots (rc_alloc c)" using A(7,9) s by blast
  from allocator_free_ok[OF A(5) _ d this] A(4) obtain a where a: "allocator_free (rc_alloc c) xs = Inr a"
    "alloc_inv a" "same_class (rc_alloc c) a" "alloc_free_slots a = alloc_free_slots (rc_alloc c) \<union> set xs"
    by (auto simp: alloc_whole_def)
  let ?c = "c\<lparr>rc_alloc := a\<rparr>"
  have ca: "cached ?c ys = cached c ys" for ys by (rule cached_alloc[OF A(1)])
  obtain N P where t: "tree c N P" using A(1) by (auto simp: radix_inv_def)
  have pa: "path_of ?c m = path_of c m" for m
    by (simp add: path_of_tree[OF t] path_of_tree[OF tree_alloc[OF t]] fun_eq_iff)
  have "kv_inv ?c H (R - set xs)"
    by (rule kv_invI[OF i radix_inv_alloc[OF A(1)]])
      (use A a s slots_unique_cong[OF ca] slots_cached_cong[OF ca] in \<open>auto simp: same_class_def\<close>)
  moreover have "keeps c ?c" using a(3) by (simp add: same_class_def)
  ultimately show ?thesis using a(1) ca pa by blast
qed

lemma alloc_token: "alloc_inv a \<Longrightarrow> \<not> al_paged a \<Longrightarrow> token_inv (al_size a) a \<and> alloc_free_slots a = token_free_slots a"
  by (simp add: alloc_inv_def alloc_free_slots_def)

lemma kv_alloc:
  assumes i: "kv_inv c H R" and n: "0 \<le> n" and c: "token_alloc (rc_alloc c) n = (r, a)"
  shows "\<exists>xs. (case r of None \<Rightarrow> xs = [] \<and> int (card (alloc_free_slots (rc_alloc c))) < n
      | Some ys \<Rightarrow> xs = ys \<and> int (length xs) = n) \<and> distinct xs \<and> set xs \<inter> R = {} \<and>
    kv_inv (c\<lparr>rc_alloc := a\<rparr>) H (R \<union> set xs) \<and> keeps c (c\<lparr>rc_alloc := a\<rparr>) \<and>
    (\<forall>ys. cached (c\<lparr>rc_alloc := a\<rparr>) ys = cached c ys) \<and> (\<forall>m. path_of (c\<lparr>rc_alloc := a\<rparr>) m = path_of c m)"
proof -
  note A = kv_invD[OF i]
  let ?a = "rc_alloc c" and ?c = "c\<lparr>rc_alloc := a\<rparr>"
  note T = alloc_token[OF A(5,4)]
  obtain xs where x: "case r of None \<Rightarrow> xs = [] \<and> int (card (token_free_slots ?a)) < n
      | Some ys \<Rightarrow> xs = ys \<and> int (length xs) = n"
    "token_inv (al_size ?a) a" "distinct xs" "set xs \<subseteq> token_free_slots ?a"
    "token_free_slots a = token_free_slots ?a - set xs"
  proof (cases r)
    case None
    then show ?thesis using that[of "[]"] token_alloc_None[of "al_size ?a" ?a n a] T c by simp
  next
    case (Some ys)
    then show ?thesis using that[of ys] token_alloc_Some[of "al_size ?a" ?a n ys a] T c n by simp
  qed
  have s: "same_class ?a a" "alloc_inv a" "alloc_free_slots a = token_free_slots a"
    using x(2) T by (auto simp: token_inv_def same_class_def alloc_inv_def alloc_free_slots_def)
  have ca: "cached ?c ys = cached c ys" for ys by (rule cached_alloc[OF A(1)])
  obtain N P where t: "tree c N P" using A(1) by (auto simp: radix_inv_def)
  have pa: "path_of ?c m = path_of c m" for m
    by (simp add: path_of_tree[OF t] path_of_tree[OF tree_alloc[OF t]] fun_eq_iff)
  have "kv_inv ?c H (R \<union> set xs)"
    by (rule kv_invI[OF i radix_inv_alloc[OF A(1)]])
      (use A s T x slots_unique_cong[OF ca] slots_cached_cong[OF ca] in \<open>auto simp: same_class_def\<close>)
  moreover have "set xs \<inter> R = {}" using A(9) T x(4) by auto
  moreover have "case r of None \<Rightarrow> xs = [] \<and> int (card (alloc_free_slots ?a)) < n
      | Some ys \<Rightarrow> xs = ys \<and> int (length xs) = n"
    using x(1) T by (cases r) simp_all
  moreover have "keeps c ?c" using s(1) by (simp add: same_class_def)
  ultimately show ?thesis using x(3) ca pa by (intro exI[of _ xs]) simp
qed

lemma kv_slots_owned:
  assumes "kv_inv c H R"
  shows "slots_owned c"
proof -
  note A = kv_invD[OF assms]
  obtain N P where t: "tree c N P" using A(1) by (auto simp: radix_inv_def)
  show ?thesis by (rule unique_owns[OF t A(3,6,5,4)]) (use A(7,8) in blast)
qed

lemma kv_evict:
  assumes i: "kv_inv c H R"
  shows "\<exists>num c'. radix_evict num_tokens c = Some (num, c') \<and> kv_inv c' H R \<and> keeps c c' \<and>
    (\<forall>ys. cached c' ys \<longrightarrow> cached c ys) \<and> (\<forall>h \<in># H. \<forall>xs. path_of c h xs \<longrightarrow> path_of c' h xs) \<and>
    alloc_free_slots (rc_alloc c') = alloc_free_slots (rc_alloc c) \<union> (slots_cached c - slots_cached c') \<and>
    num = evictable_size c - evictable_size c' \<and> protected_size c' = protected_size c \<and>
    (num_tokens \<le> num \<or> evictable_size c' = 0)"
proof -
  note A = kv_invD[OF i]
  from evict_spec[OF A(1,2) kv_slots_owned[OF i], of num_tokens] obtain num c' where e:
    "radix_evict num_tokens c = Some (num, c')" "radix_inv c' H" "slots_owned c'" "keeps c c'"
    "same_class (rc_alloc c) (rc_alloc c')" "\<forall>ys. cached c' ys \<longrightarrow> cached c ys"
    "\<forall>h \<in># H. \<forall>xs. path_of c h xs \<longrightarrow> path_of c' h xs"
    "alloc_free_slots (rc_alloc c') = alloc_free_slots (rc_alloc c) \<union> (slots_cached c - slots_cached c')"
    "num = evictable_size c - evictable_size c'" "protected_size c' = protected_size c"
    "num_tokens \<le> num \<or> evictable_size c' = 0" by blast
  have sub: "slots_cached c' \<subseteq> slots_cached c" using e(6) by (auto simp: slots_cached_def)
  have "slots_unique c'" using A(6) e(6) unfolding slots_unique_def by blast
  moreover have "alloc_inv (rc_alloc c')" using e(3) by (simp add: slots_owned_def)
  ultimately have "kv_inv c' H R"
    by (intro kv_invI[OF i e(2,4,5)]) (use A(7-10) e(8) sub in blast)+
  with e show ?thesis by blast
qed

section \<open>Inserting\<close>

text \<open>
  The slots given for the part of the key that is not cached yet move from the request to the cache;
  the given slots for the part that was cached already stay with the request.
\<close>

lemma unique_insert:
  assumes u: "slots_unique c" and ca: "\<And>ys. cached c' ys \<longleftrightarrow> cached c ys \<or> prefix ys xs"
    and k: "cached c (take k xs)" and d: "distinct (map snd (drop k xs))"
    and f: "snd ` set (drop k xs) \<inter> slots_cached c = {}"
  shows "slots_unique c'"
  unfolding slots_unique_def
proof (intro allI impI)
  fix as bs u v s assume h: "cached c' (as @ [(u, s)]) \<and> cached c' (bs @ [(v, s)])"
  have new: "cached c (ys @ [(w, s)]) \<or> (\<exists>j \<ge> k. j < length xs \<and> ys = take j xs \<and> xs ! j = (w, s))"
    if "cached c' (ys @ [(w, s)])" for ys w
  proof (cases "cached c (ys @ [(w, s)])")
    case False
    then have p: "prefix (ys @ [(w, s)]) xs" using that ca by blast
    then have j: "length ys < length xs" "ys = take (length ys) xs" "xs ! length ys = (w, s)"
      by (auto simp: prefix_def nth_append)
    have "k \<le> length ys"
    proof (rule ccontr)
      assume "\<not> k \<le> length ys"
      then have "prefix (ys @ [(w, s)]) (take k xs)"
        using p j(1) prefix_length_prefix[of "ys @ [(w, s)]" xs "take k xs"] take_is_prefix[of k xs] by simp
      then show False using k False unfolding cached_def using prefix_order.order_trans by blast
    qed
    with j show ?thesis by blast
  qed simp
  have out: "(w, s) \<notin> set (drop k xs)" if "cached c (ys @ [(z, s)])" for ys w z
    using that f unfolding slots_cached_def by force
  have inn: "(w, s) \<in> set (drop k xs)" if "k \<le> j" "j < length xs" "xs ! j = (w, s)" for j w
    using nth_mem[of "j - k" "drop k xs"] that by simp
  from new[of as u] new[of bs v] h consider
      "cached c (as @ [(u, s)])" "cached c (bs @ [(v, s)])"
    | j l where "j \<ge> k" "j < length xs" "as = take j xs" "xs ! j = (u, s)"
        "l \<ge> k" "l < length xs" "bs = take l xs" "xs ! l = (v, s)"
    using out inn by metis
  then show "as = bs \<and> u = v"
  proof cases
    case 1
    with u show ?thesis unfolding slots_unique_def by blast
  next
    case 2
    have "map snd (drop k xs) ! (j - k) = map snd (drop k xs) ! (l - k)" using 2 by simp
    then have "j = l" using d 2 by (metis diff_less_mono eq_diff_iff length_drop length_map nth_eq_iff_index_eq)
    with 2 show ?thesis by simp
  qed
qed

lemma kv_insert:
  assumes i: "kv_inv c H R" and f: "key_fits c key" and l: "length vs = length (lookup_units c key)"
    and known: "cached c ys" "prefix (map fst ys) (lookup_units c key)"
    and own: "set (drop (length ys) vs) \<subseteq> R" "distinct (drop (length ys) vs)"
  shows "\<exists>k c' xs. radix_insert key (Some vs) priority chunked c = Some (k, c') \<and>
    kv_inv c' H (R - set (drop k vs)) \<and> keeps c c' \<and> rc_alloc c' = rc_alloc c \<and>
    (\<forall>m ys. path_of c m ys \<longrightarrow> path_of c' m ys) \<and> length ys \<le> k \<and> k \<le> length vs \<and>
    cached c' xs \<and> map fst xs = lookup_units c key \<and> (\<forall>ys. cached c ys \<longrightarrow> cached c' ys)"
proof -
  note A = kv_invD[OF i]
  from insert_spec[OF A(1,2) f, of vs priority chunked] l obtain k c' xs where n:
    "radix_insert key (Some vs) priority chunked c = Some (k, c')" "radix_inv c' H" "keeps c c'"
    "rc_alloc c' = rc_alloc c" "\<forall>m ys. path_of c m ys \<longrightarrow> path_of c' m ys" "k \<le> length xs" "cached c' xs"
    "map fst xs = lookup_units c key" "cached c (take k xs)" "map snd (drop k xs) = drop k (take (length xs) vs)"
    "\<forall>ys. cached c ys \<and> rc_page_size c dvd length ys \<and> prefix (map fst ys) (lookup_units c key) \<longrightarrow> length ys \<le> k"
    "\<And>ys. cached c' ys \<longleftrightarrow> cached c ys \<or> prefix ys xs" by auto
  have lx: "length xs = length vs" using l n(8) by (metis length_map)
  then have sv: "map snd (drop k xs) = drop k vs" using n(10) by simp
  have yk: "length ys \<le> k" using n(11) known A(3) by simp
  have sub: "set (drop k vs) \<subseteq> R" using own(1) set_drop_subset_set_drop[OF yk, of vs] by simp
  have dis: "distinct (drop k vs)"
    using own(2) distinct_drop[of "drop (length ys) vs" "k - length ys"] yk by simp
  have si: "snd ` set (drop k xs) = set (drop k vs)" using arg_cong[OF sv, of set] by simp
  have sc: "slots_cached c' = slots_cached c \<union> set (drop k vs)"
  proof -
    have "slots_cached c' = slots_cached c \<union> snd ` set xs"
    proof
      show "slots_cached c' \<subseteq> slots_cached c \<union> snd ` set xs"
        using set_mono_prefix unfolding slots_cached_def n(12) by blast
      show "slots_cached c \<union> snd ` set xs \<subseteq> slots_cached c'" unfolding slots_cached_def n(12) by blast
    qed
    moreover have "snd ` set (take k xs) \<subseteq> slots_cached c" using n(9) by (auto simp: slots_cached_def)
    moreover have "set xs = set (take k xs) \<union> set (drop k xs)" by (metis append_take_drop_id set_append)
    ultimately show ?thesis using si by auto
  qed
  have "slots_unique c'"
    by (rule unique_insert[OF A(6) n(12,9)]) (use sv dis si sub A(10) in auto)
  have "kv_inv c' H (R - set (drop k vs))"
  proof (rule kv_invI[OF i n(2,3) _ _ \<open>slots_unique c'\<close>])
    show "alloc_free_slots (rc_alloc c') \<union> slots_cached c' \<union> (R - set (drop k vs)) = alloc_universe (rc_alloc c)"
      unfolding n(4) sc using A(7) sub by blast
    show "alloc_free_slots (rc_alloc c') \<inter> slots_cached c' = {}" unfolding n(4) sc using A(8,9) sub by blast
    show "alloc_free_slots (rc_alloc c') \<inter> (R - set (drop k vs)) = {}" unfolding n(4) using A(9) by blast
    show "slots_cached c' \<inter> (R - set (drop k vs)) = {}" unfolding sc using A(10) by blast
  qed (use A(5) n(4) in simp_all)
  then show ?thesis using n lx yk by (intro exI[of _ k] exI[of _ c'] exI[of _ xs]) auto
qed

section \<open>The start\<close>

lemma kv_inv_init:
  assumes "radix_init False 1 eagle nf False policy strip clock sha (token_init sz ns) p = Inr c"
  shows "kv_inv c {#} {}"
proof -
  note F = radix_init_facts[OF assms]
  have "\<not> al_paged (token_init sz ns)" "al_size (token_init sz ns) = sz"
    using token_inv_init[of sz ns] by (simp_all add: token_inv_def)
  moreover have "slots_cached c = {}" "slots_unique c" by (auto simp: slots_cached_def slots_unique_def F)
  ultimately show ?thesis
    using F token_inv_init[of sz ns] token_free_slots_init[of sz ns]
    by (simp add: kv_inv_def alloc_inv_def alloc_free_slots_def alloc_universe_def)
qed

end
