(* ===== verification/ReqCache.thy ===== *)
theory ReqCache
  imports KvOwner
begin

text \<open>
  Where a request meets the radix cache: \<open>cache_finished_req\<close> and \<open>cache_unfinished_req\<close> of
  \<open>radix_cache.py\<close> and \<open>release_kv_cache\<close> of \<open>mem_cache/common.py\<close>.  The lemmas say which slots
  change hands: what a request stored goes to the cache, duplicates and the tail go back to the
  allocator, and nothing else moves.
\<close>

section \<open>The operations\<close>

definition free_kv :: "int list \<Rightarrow> radix_cache \<Rightarrow> radix_cache option" where
  "free_kv xs c = (case allocator_free (rc_alloc c) xs of Inl _ \<Rightarrow> None | Inr a \<Rightarrow> Some (c\<lparr>rc_alloc := a\<rparr>))"

definition req_radix_key :: "radix_cache \<Rightarrow> 'a request_scheme \<Rightarrow> int list \<Rightarrow> radix_key" where
  "req_radix_key c r toks = page_aligned (RadixKey toks (req_extra_key r) (rc_is_eagle c)) (rc_page_size c)"

definition req_prio :: "'a request_scheme \<Rightarrow> int" where
  "req_prio r = (case req_priority r of None \<Rightarrow> 0 | Some p \<Rightarrow> p)"

definition cache_finished_req :: "'a request_scheme \<Rightarrow> bool \<Rightarrow> radix_cache \<Rightarrow> ('a request_scheme \<times> radix_cache) option" where
  "cache_finished_req r is_insert c =
     (let is_insert = (if disable_finished_insert c then False else is_insert) in
      do {
        (committed, r) \<leftarrow> pop_committed_kv_cache (rc_strip_thinking c) r;
        idx \<leftarrow> req_pool_idx r;
        if rc_disable c then do {
          kv \<leftarrow> pool_read (rc_pool c) idx committed;
          c \<leftarrow> free_kv kv c;
          Some (r, c)
        } else do {
          let toks = slice_to (origin_input_ids r @ output_ids r) committed;
          kv \<leftarrow> pool_read (rc_pool c) idx (int (length toks));
          let key = req_radix_key c r toks;
          let key_len = rk_len key;
          let vs = take key_len kv;
          c \<leftarrow> (if is_insert then do {
                  (prefix_len, c) \<leftarrow> radix_insert key (Some vs) (Some (req_prio r)) False c;
                  free_kv (slice kv (cache_protected_len r) (int prefix_len)) c
                } else free_kv (slice kv (cache_protected_len r) (int key_len)) c);
          c \<leftarrow> free_kv (drop key_len kv) c;
          (case last_node r of None \<Rightarrow> Some (r, c)
           | Some n \<Rightarrow> map_option (\<lambda>(_, c). (r, c)) (dec_lock_ref n c))
        }
      })"

definition cache_unfinished_req :: "'a request_scheme \<Rightarrow> bool \<Rightarrow> radix_cache \<Rightarrow> ('a request_scheme \<times> radix_cache) option" where
  "cache_unfinished_req r chunked c =
     (if rc_disable c then Some (r, c)
      else do {
        let toks = fill_ids r;
        idx \<leftarrow> req_pool_idx r;
        kv \<leftarrow> pool_read (rc_pool c) idx (int (length toks));
        let key = req_radix_key c r toks;
        let vs = take (rk_len key) kv;
        (new_prefix_len, c) \<leftarrow> radix_insert key (Some vs) (Some (req_prio r)) chunked c;
        c \<leftarrow> free_kv (slice kv (cache_protected_len r) (int new_prefix_len)) c;
        ((new_indices, new_last_node), c) \<leftarrow> match_prefix key c;
        assert_that (length new_indices = rk_len key);
        p \<leftarrow> pool_write (rc_pool c) idx (cache_protected_len r) (int (length new_indices))
               (slice_from new_indices (cache_protected_len r));
        let c = c\<lparr>rc_pool := p\<rparr>;
        let r = r\<lparr>cache_protected_len := int (length new_indices)\<rparr>;
        old \<leftarrow> last_node r;
        (_, c) \<leftarrow> dec_lock_ref old c;
        (_, c) \<leftarrow> inc_lock_ref new_last_node c;
        let r = r\<lparr>prefix_indices :=
          (if length new_indices < length kv then new_indices @ drop (length new_indices) kv else new_indices)\<rparr>;
        Some (r\<lparr>last_node := Some new_last_node\<rparr>, c)
      })"

definition ceil_align :: "int \<Rightarrow> int \<Rightarrow> int" where
  "ceil_align x align = (x + align - 1) div align * align"

definition release_kv_cache :: "bool \<Rightarrow> 'a request_scheme \<Rightarrow> bool \<Rightarrow> radix_cache \<Rightarrow> ('a request_scheme \<times> radix_cache) option" where
  "release_kv_cache speculative r is_insert c =
     (if req_pool_idx r = None then None
      else do {
        (r, c) \<leftarrow> cache_finished_req r (is_insert \<and> \<not> skip_radix_cache_insert r) c;
        ((start_p, end_p), r) \<leftarrow> pop_overallocated_kv_cache (rc_strip_thinking c) r;
        assert_that (speculative \<or> rc_strip_thinking c \<or> start_p = end_p);
        let start_p = (if rc_page_size c > 1 then ceil_align start_p (int (rc_page_size c)) else start_p);
        idx \<leftarrow> req_pool_idx r;
        c \<leftarrow> (if start_p < end_p then do {
                row \<leftarrow> (if idx < length (req_to_token (rc_pool c)) then Some (req_to_token (rc_pool c) ! idx) else None);
                free_kv (slice row start_p end_p) c
              } else Some c);
        (p, r) \<leftarrow> pool_free (rc_pool c) r;
        Some (r, c\<lparr>rc_pool := p\<rparr>)
      })"

section \<open>What a request holds\<close>

text \<open>
  A request holds the row \<open>kv\<close> of slots: the first \<open>cache_protected_len\<close> of them are those cached on
  the path of its locked node, the others are its own.
\<close>

definition req_own :: "'a request_scheme \<Rightarrow> int list \<Rightarrow> int list" where
  "req_own r kv = drop (nat (cache_protected_len r)) kv"

definition req_holds :: "radix_cache \<Rightarrow> 'a request_scheme \<Rightarrow> nid \<Rightarrow> unit_id list \<Rightarrow> int list \<Rightarrow> bool" where
  "req_holds c r n us kv \<longleftrightarrow> last_node r = Some n \<and>
     (\<exists>ys. path_of c n ys \<and> prefix (map fst ys) us \<and> cache_protected_len r = int (length ys) \<and>
        map snd ys = take (length ys) kv)"

lemma req_holdsE:
  assumes "req_holds c r n us kv"
  obtains ys where "last_node r = Some n" "path_of c n ys" "prefix (map fst ys) us"
    "cache_protected_len r = int (length ys)" "map snd ys = take (length ys) kv" "req_own r kv = drop (length ys) kv"
  using assms unfolding req_holds_def req_own_def by force

lemma path_cached: "path_of c n ys \<Longrightarrow> cached c ys"
  unfolding cached_def by blast

lemma cut3:
  assumes "i \<le> j" and "j \<le> k"
  shows "drop i xs = drop i (take j xs) @ drop j (take k xs) @ drop k xs"
proof -
  have "drop i (take k xs) = drop i (take j xs) @ drop j (take k xs)"
    by (rule nth_equalityI) (use assms in \<open>auto simp: nth_append min_def add.commute\<close>)
  moreover have "drop i xs = drop i (take k xs) @ drop k xs"
    by (rule nth_equalityI) (use assms in \<open>auto simp: nth_append min_def add.commute\<close>)
  ultimately show ?thesis by simp
qed

lemma rk_len_RadixKey: "rk_len (RadixKey toks e b) \<le> length toks"
  by (simp add: rk_len_def RadixKey_def)

lemma req_key_facts:
  assumes "rc_page_size c = 1"
  shows "key_fits c (req_radix_key c r toks)" "lookup_units c (req_radix_key c r toks) = units (req_radix_key c r toks)"
    "rk_len (req_radix_key c r toks) \<le> length toks"
proof -
  let ?k = "req_radix_key c r toks"
  have b: "is_bigram ?k = rc_is_eagle c" by (simp add: req_radix_key_def RadixKey_def)
  then show "key_fits c ?k" by (simp add: key_fits_def)
  have "fst (maybe_to_bigram_view ?k (rc_is_eagle c) None) = ?k"
    using b by (simp add: maybe_to_bigram_view_def Let_def)
  then show "lookup_units c ?k = units ?k" using assms by (simp add: lookup_units_def Let_def)
  show "rk_len ?k \<le> length toks"
    using rk_len_RadixKey[of toks "req_extra_key r" "rc_is_eagle c"] assms
    by (simp add: req_radix_key_def rk_len_page_aligned)
qed

lemma units_key_prefix:
  assumes "rc_page_size c = 1" and "prefix xs ys"
  shows "prefix (units (req_radix_key c r xs)) (units (req_radix_key c r ys))"
proof -
  obtain zs where ys: "ys = xs @ zs" using assms(2) by (auto simp: prefix_def)
  have e: "units (req_radix_key c r ts) = map (Pair (req_extra_key r)) (rk_iter (RadixKey ts (req_extra_key r) (rc_is_eagle c)))" for ts
    using assms(1) by (simp add: req_radix_key_def page_aligned_def units_def) (simp add: RadixKey_def)
  have "prefix (rk_iter (RadixKey xs ek eg)) (rk_iter (RadixKey ys ek eg))" for ek eg
  proof (cases eg)
    case True
    have e1: "[0..<length ys - 1] = [0..<length xs - 1] @ [length xs - 1..<length ys - 1]"
    proof -
      have "length xs - 1 \<le> length ys - 1" by (simp add: ys)
      then obtain d where d: "length ys - 1 = length xs - 1 + d" by (auto simp: le_iff_add)
      show ?thesis unfolding d by (rule upt_add_eq_append) simp
    qed
    have e2: "map (\<lambda>i. [ys ! i, ys ! (i + 1)]) [0..<length xs - 1] = map (\<lambda>i. [xs ! i, xs ! (i + 1)]) [0..<length xs - 1]"
      by (auto simp: ys nth_append)
    have it: "rk_iter (RadixKey ts ek eg) = map (\<lambda>i. [ts ! i, ts ! (i + 1)]) [0..<length ts - 1]" for ts
      using True by (simp add: rk_iter_def RadixKey_def Let_def)
    show ?thesis unfolding it e1 map_append e2 by simp
  qed (simp add: rk_iter_def RadixKey_def ys)
  then show ?thesis unfolding e by (rule map_mono_prefix)
qed

definition token_seq :: "'a request_scheme \<Rightarrow> int list" where
  "token_seq r = origin_input_ids r @ output_ids r"

lemma free_kv_ok:
  assumes "kv_inv c H R" and "set xs \<subseteq> R" and "distinct xs"
  shows "\<exists>c'. free_kv xs c = Some c' \<and> kv_inv c' H (R - set xs) \<and> keeps c c' \<and>
    (\<forall>ys. cached c' ys = cached c ys) \<and> (\<forall>m. path_of c' m = path_of c m)"
  using kv_free[OF assms] by (auto simp: free_kv_def)

section \<open>A finished request\<close>

text \<open>Storing the committed tokens, freeing the duplicates.\<close>

lemma store_committed:
  assumes i: "kv_inv c H R" and l: "rk_len key \<le> length kv" and key: "key = req_radix_key c r toks"
    and ys: "cached c ys" "prefix (map fst ys) (units key)" "cache_protected_len r = int (length ys)"
    and own: "set (drop (length ys) kv) \<subseteq> R" "distinct (drop (length ys) kv)"
  shows "\<exists>k c1 c2 xs. radix_insert key (Some (take (rk_len key) kv)) priority chunked c = Some (k, c1) \<and>
    length ys \<le> k \<and> k \<le> rk_len key \<and>
    free_kv (slice kv (cache_protected_len r) (int k)) c1 = Some c2 \<and>
    kv_inv c2 H (R - set (drop (length ys) (take (rk_len key) kv))) \<and> keeps c c2 \<and>
    (\<forall>m ys. path_of c m ys \<longrightarrow> path_of c2 m ys) \<and> (\<forall>ys. cached c ys \<longrightarrow> cached c2 ys) \<and>
    cached c2 xs \<and> map fst xs = units key"
proof -
  let ?kl = "rk_len key" and ?l = "length ys"
  note K = req_key_facts[OF kv_invD(3)[OF i], of r toks, folded key]
  have lv: "length (take ?kl kv) = length (lookup_units c key)" using l K(2) by simp
  have le: "?l \<le> ?kl" using prefix_length_le[OF ys(2)] by simp
  have cut: "drop ?l kv = drop ?l (take ?kl kv) @ drop ?kl kv" using cut3[of ?l ?l ?kl kv] le by simp
  then have o: "set (drop ?l (take ?kl kv)) \<subseteq> R" "distinct (drop ?l (take ?kl kv))" using own by auto
  from kv_insert[OF i K(1) lv ys(1) _ o] ys(2) K(2) obtain k c1 xs where n:
    "radix_insert key (Some (take ?kl kv)) priority chunked c = Some (k, c1)"
    "kv_inv c1 H (R - set (drop k (take ?kl kv)))" "keeps c c1" "\<forall>m ys. path_of c m ys \<longrightarrow> path_of c1 m ys"
    "?l \<le> k" "k \<le> length (take ?kl kv)" "cached c1 xs" "map fst xs = units key" "\<forall>ys. cached c ys \<longrightarrow> cached c1 ys"
    by (metis (no_types, lifting))
  have kk: "k \<le> ?kl" using n(6) l by simp
  have sl: "slice kv (cache_protected_len r) (int k) = drop ?l (take k kv)"
    by (simp add: ys(3) slice_nonneg)
  have p: "drop ?l (take ?kl kv) = drop ?l (take k kv) @ drop k (take ?kl kv)"
    using cut3[of ?l k ?kl "take ?kl kv"] n(5) kk by (simp add: min_def)
  have d: "set (drop ?l (take k kv)) \<subseteq> R - set (drop k (take ?kl kv))" "distinct (drop ?l (take k kv))"
    using o unfolding p by auto
  from free_kv_ok[OF n(2) d] obtain c2 where f: "free_kv (drop ?l (take k kv)) c1 = Some c2"
    "kv_inv c2 H (R - set (drop k (take ?kl kv)) - set (drop ?l (take k kv)))" "keeps c1 c2"
    "\<forall>ys. cached c2 ys = cached c1 ys" "\<forall>m. path_of c2 m = path_of c1 m" by blast
  have "R - set (drop k (take ?kl kv)) - set (drop ?l (take k kv)) = R - set (drop ?l (take ?kl kv))"
    unfolding p by auto
  with f n kk sl show ?thesis using keeps_trans[OF n(3) f(3)]
    by (intro exI[of _ k] exI[of _ c1] exI[of _ c2] exI[of _ xs]) simp
qed

lemma cache_finished_ok:
  assumes i: "kv_inv c (add_mset n H) R" and own: "set (req_own r kv) \<subseteq> R" "distinct (req_own r kv)"
    and pop: "pop_committed_kv_cache (rc_strip_thinking c) r = Some (committed, r1)"
    and toks: "toks = slice_to (origin_input_ids r @ output_ids r) committed"
    and row: "req_pool_idx r = Some idx" "pool_read (rc_pool c) idx (int (length toks)) = Some kv" "length kv = length toks"
    and hold: "req_holds c r n (units (req_radix_key c r toks)) kv"
  shows "\<exists>c'. cache_finished_req r ins c = Some (r1, c') \<and> kv_inv c' H (R - set (req_own r kv)) \<and> keeps c c' \<and>
    (\<forall>m ys. path_of c m ys \<longrightarrow> path_of c' m ys) \<and> (\<forall>ys. cached c ys \<longrightarrow> cached c' ys) \<and>
    (ins \<and> \<not> disable_finished_insert c \<longrightarrow>
       (\<exists>xs. cached c' xs \<and> map fst xs = units (req_radix_key c r toks)))"
proof -
  let ?key = "req_radix_key c r toks"
  let ?kl = "rk_len ?key"
  from hold obtain ys where h: "last_node r = Some n" "path_of c n ys" "prefix (map fst ys) (units ?key)"
    "cache_protected_len r = int (length ys)" "map snd ys = take (length ys) kv" "req_own r kv = drop (length ys) kv"
    by (rule req_holdsE)
  let ?l = "length ys"
  note A = kv_invD[OF i] and K = req_key_facts[OF kv_invD(3)[OF i], of r toks]
  have nd: "\<not> rc_disable c" using A(2) by (simp add: plain_config_def)
  have r1: "r1 = r\<lparr>kv_committed_freed := True\<rparr>" using pop by (auto simp: pop_committed_kv_cache_def split: if_splits)
  have kl: "?kl \<le> length kv" using K(3) row(3) by simp
  have le: "?l \<le> ?kl" using prefix_length_le[OF h(3)] by simp
  have cut: "drop ?l kv = drop ?l (take ?kl kv) @ drop ?kl kv" using cut3[of ?l ?l ?kl kv] le by simp
  note own = own[unfolded h(6)]
  let ?ins = "if disable_finished_insert c then False else ins"
  have "\<exists>c2. (if ?ins then do {
          (prefix_len, c) \<leftarrow> radix_insert ?key (Some (take ?kl kv)) (Some (req_prio r)) False c;
          free_kv (slice kv (cache_protected_len r) (int prefix_len)) c
        } else free_kv (slice kv (cache_protected_len r) (int ?kl)) c) = Some c2 \<and>
      kv_inv c2 (add_mset n H) (R - set (drop ?l (take ?kl kv))) \<and> keeps c c2 \<and>
      (\<forall>m ys. path_of c m ys \<longrightarrow> path_of c2 m ys) \<and> (\<forall>ys. cached c ys \<longrightarrow> cached c2 ys) \<and>
      (?ins \<longrightarrow> (\<exists>xs. cached c2 xs \<and> map fst xs = units ?key))"
  proof (cases ?ins)
    case True
    from store_committed[OF i kl refl path_cached[OF h(2)] h(3,4) own, of "Some (req_prio r)" False]
    obtain k c1 c2 xs where "radix_insert ?key (Some (take ?kl kv)) (Some (req_prio r)) False c = Some (k, c1)"
      "free_kv (slice kv (cache_protected_len r) (int k)) c1 = Some c2"
      "kv_inv c2 (add_mset n H) (R - set (drop ?l (take ?kl kv)))" "keeps c c2"
      "\<forall>m ys. path_of c m ys \<longrightarrow> path_of c2 m ys" "\<forall>ys. cached c ys \<longrightarrow> cached c2 ys"
      "cached c2 xs" "map fst xs = units ?key" by blast
    then show ?thesis unfolding if_P[OF True] by auto
  next
    case False
    have o: "set (drop ?l (take ?kl kv)) \<subseteq> R" "distinct (drop ?l (take ?kl kv))" using own unfolding cut by auto
    have sl: "slice kv (cache_protected_len r) (int ?kl) = drop ?l (take ?kl kv)"
      by (simp add: h(4) slice_nonneg)
    from free_kv_ok[OF i o] show ?thesis unfolding if_not_P[OF False] sl using False by auto
  qed
  then obtain c2 where c2: "(if ?ins then do {
          (prefix_len, c) \<leftarrow> radix_insert ?key (Some (take ?kl kv)) (Some (req_prio r)) False c;
          free_kv (slice kv (cache_protected_len r) (int prefix_len)) c
        } else free_kv (slice kv (cache_protected_len r) (int ?kl)) c) = Some c2"
      "kv_inv c2 (add_mset n H) (R - set (drop ?l (take ?kl kv)))" "keeps c c2"
      "\<forall>m ys. path_of c m ys \<longrightarrow> path_of c2 m ys" "\<forall>ys. cached c ys \<longrightarrow> cached c2 ys"
      "?ins \<longrightarrow> (\<exists>xs. cached c2 xs \<and> map fst xs = units ?key)" by blast
  have "set (drop ?kl kv) \<subseteq> R - set (drop ?l (take ?kl kv))" "distinct (drop ?kl kv)" using own unfolding cut by auto
  from free_kv_ok[OF c2(2) this] obtain c3 where c3: "free_kv (drop ?kl kv) c2 = Some c3"
    "kv_inv c3 (add_mset n H) (R - set (drop ?l (take ?kl kv)) - set (drop ?kl kv))" "keeps c2 c3"
    "\<forall>ys. cached c3 ys = cached c2 ys" "\<forall>m. path_of c3 m = path_of c2 m" by blast
  have R: "R - set (drop ?l (take ?kl kv)) - set (drop ?kl kv) = R - set (req_own r kv)"
    unfolding h(6) cut by auto
  from kv_unlock[OF c3(2)[unfolded R]] obtain d c4 where c4: "dec_lock_ref n c3 = Some (d, c4)"
    "kv_inv c4 H (R - set (req_own r kv))" "keeps c3 c4" "\<forall>m. path_of c4 m = path_of c3 m"
    "\<forall>ys. cached c4 ys = cached c3 ys" by blast
  have r1f: "req_pool_idx r1 = Some idx" "origin_input_ids r1 = origin_input_ids r" "output_ids r1 = output_ids r"
    "cache_protected_len r1 = cache_protected_len r" "last_node r1 = Some n" "req_prio r1 = req_prio r"
    "req_radix_key c r1 toks = ?key"
    using row(1) h(1) by (simp_all add: r1 req_prio_def req_radix_key_def)
  have "cache_finished_req r ins c = Some (r1, c4)"
    unfolding cache_finished_req_def Let_def pop
    by (simp add: r1f(1,2,3,4,5,6,7) nd toks[symmetric] row(2) c2(1)[unfolded if_bool_eq_conj] c2(1) c3(1) c4(1) del: if_split cong: if_cong)
  moreover have "keeps c c4" using c2(3) c3(3) c4(3) by (blast intro: keeps_trans)
  ultimately show ?thesis using c2 c3 c4 by (intro exI[of _ c4]) auto
qed

section \<open>An unfinished request\<close>

lemma pool_update [simp]:
  "heap (c\<lparr>rc_pool := p\<rparr>) = heap c" "at (c\<lparr>rc_pool := p\<rparr>) = at c" "root_node (c\<lparr>rc_pool := p\<rparr>) = root_node c"
  by (simp_all add: at_def fun_eq_iff)

lemma tree_pool: "tree c N P \<Longrightarrow> tree (c\<lparr>rc_pool := p\<rparr>) N P"
  by (simp add: tree_def children_ok_def parent_ok_def key_ok_def)

lemma accounts_pool: "accounts c N P H \<Longrightarrow> accounts (c\<lparr>rc_pool := p\<rparr>) N P H"
  by (simp add: accounts_def locks_ok_def sizes_ok_def leaves_ok_def unlocked_def locked_def inner_def
      node_len_def[abs_def])

lemma kv_pool:
  assumes "kv_inv c H R"
  shows "kv_inv (c\<lparr>rc_pool := p\<rparr>) H R" "cached (c\<lparr>rc_pool := p\<rparr>) = cached c" "path_of (c\<lparr>rc_pool := p\<rparr>) = path_of c"
proof -
  note A = kv_invD[OF assms]
  let ?c = "c\<lparr>rc_pool := p\<rparr>"
  obtain N P where t: "tree c N P" "accounts c N P H" using A(1) by (auto simp: radix_inv_def)
  show ca: "cached ?c = cached c" by (simp add: fun_eq_iff cached_tree[OF t(1)] cached_tree[OF tree_pool[OF t(1)]])
  show "path_of ?c = path_of c"
    by (simp add: fun_eq_iff path_of_tree[OF t(1)] path_of_tree[OF tree_pool[OF t(1)]])
  have "radix_inv ?c H" using tree_pool[OF t(1)] accounts_pool[OF t(2)] by (auto simp: radix_inv_def)
  moreover have "plain_config ?c" using A(2) by (simp add: plain_config_def)
  moreover have "slots_cached ?c = slots_cached c" "slots_unique ?c = slots_unique c"
    by (simp_all add: slots_cached_def slots_unique_def ca)
  ultimately show "kv_inv ?c H R" unfolding kv_inv_def using A by simp
qed

lemma path_prefix:
  assumes i: "radix_inv c H" and n: "path_of c n ys" and m: "path_of c m zs" and p: "prefix (map fst ys) (map fst zs)"
  shows "prefix ys zs"
proof -
  obtain N P where t: "tree c N P" using i by (auto simp: radix_inv_def)
  have nm: "n \<in> N" "ys = P n" "m \<in> N" "zs = P m" using n m path_of_tree[OF t] by simp_all
  from path_prefix_below[OF t nm(1,3)] p nm(2,4) have "(m, n) \<in> (up c N)\<^sup>*" by simp
  then show ?thesis using up_rtrancl[OF t _ nm(3)] nm(2,4) by simp
qed

definition row_len :: "radix_cache \<Rightarrow> nat \<Rightarrow> nat" where
  "row_len c idx = length (req_to_token (rc_pool c) ! idx)"

lemma pool_write_row:
  assumes "idx < length (req_to_token p)" and "l \<le> k" and "k \<le> length (req_to_token p ! idx)" and "length vs = k - l"
  shows "\<exists>p'. pool_write p idx (int l) (int k) vs = Some p' \<and>
    req_to_token p' = (req_to_token p)[idx := take l (req_to_token p ! idx) @ vs @ drop k (req_to_token p ! idx)] \<and>
    rp_free_slots p' = rp_free_slots p \<and> rp_size p' = rp_size p \<and> rp_max_context_len p' = rp_max_context_len p"
  using assms by (auto simp: pool_write_def Let_def slice_nonneg py_bound_nonneg write_at_def)

lemma cache_unfinished_ok:
  assumes i: "kv_inv c (add_mset n H) R" and own: "set (req_own r kv) \<subseteq> R" "distinct (req_own r kv)"
    and row: "req_pool_idx r = Some idx" "idx < length (req_to_token (rc_pool c))"
      "length (fill_ids r) \<le> length (req_to_token (rc_pool c) ! idx)"
      "kv = take (length (fill_ids r)) (req_to_token (rc_pool c) ! idx)"
    and key: "key = req_radix_key c r (fill_ids r)"
    and hold: "req_holds c r n (units key) kv"
  shows "\<exists>r' c' n' zs. cache_unfinished_req r chunked c = Some (r', c') \<and>
    map fst zs = units key \<and> path_of c' n' zs \<and>
    r' = r\<lparr>cache_protected_len := int (length zs),
           prefix_indices := map snd zs @ drop (length zs) kv, last_node := Some n'\<rparr> \<and>
    kv_inv c' (add_mset n' H) (R - set (drop (nat (cache_protected_len r)) (take (length zs) kv))) \<and>
    req_to_token (rc_pool c') = (req_to_token (rc_pool c))[idx :=
      map snd zs @ drop (length zs) (req_to_token (rc_pool c) ! idx)] \<and>
    rp_free_slots (rc_pool c') = rp_free_slots (rc_pool c) \<and> rp_size (rc_pool c') = rp_size (rc_pool c) \<and>
    rp_max_context_len (rc_pool c') = rp_max_context_len (rc_pool c) \<and>
    keeps (c\<lparr>rc_pool := rc_pool c'\<rparr>) c' \<and> (\<forall>m ys. path_of c m ys \<longrightarrow> path_of c' m ys)"
proof -
  let ?kl = "rk_len key" and ?row = "req_to_token (rc_pool c) ! idx"
  from hold obtain ys where h: "last_node r = Some n" "path_of c n ys" "prefix (map fst ys) (units key)"
    "cache_protected_len r = int (length ys)" "map snd ys = take (length ys) kv" "req_own r kv = drop (length ys) kv"
    by (rule req_holdsE)
  let ?l = "length ys"
  note A = kv_invD[OF i] and K = req_key_facts[OF kv_invD(3)[OF i], of r "fill_ids r", folded key]
  have nd: "\<not> rc_disable c" using A(2) by (simp add: plain_config_def)
  have lkv: "length kv = length (fill_ids r)" using row(3,4) by simp
  have kl: "?kl \<le> length kv" using K(3) lkv by simp
  have le: "?l \<le> ?kl" using prefix_length_le[OF h(3)] by simp
  from store_committed[OF i kl key path_cached[OF h(2)] h(3,4) own[unfolded h(6)], of "Some (req_prio r)" chunked]
  obtain k c1 c2 xs where s: "radix_insert key (Some (take ?kl kv)) (Some (req_prio r)) chunked c = Some (k, c1)"
    "free_kv (slice kv (cache_protected_len r) (int k)) c1 = Some c2"
    "kv_inv c2 (add_mset n H) (R - set (drop ?l (take ?kl kv)))" "keeps c c2"
    "\<forall>m ys. path_of c m ys \<longrightarrow> path_of c2 m ys" "cached c2 xs" "map fst xs = units key" by blast
  have "key = req_radix_key c2 r (fill_ids r)" using s(4) key by (simp add: keeps_def req_radix_key_def)
  note K2 = req_key_facts[OF kv_invD(3)[OF s(3)], of r "fill_ids r", folded this]
  from kv_match[OF s(3) K2(1)] K2(2) obtain slots n' c3 zs where m: "match_prefix key c2 = Some ((slots, n'), c3)"
    "kv_inv c3 (add_mset n H) (R - set (drop ?l (take ?kl kv)))" "keeps c2 c3"
    "\<forall>m ys. path_of c2 m ys \<longrightarrow> path_of c3 m ys" "path_of c3 n' zs" "slots = map snd zs" "prefix (map fst zs) (units key)"
    "\<forall>ys. cached c2 ys \<and> prefix (map fst ys) (units key) \<longrightarrow> length ys \<le> length slots" by auto
  have "length xs = ?kl" using s(7) by (metis length_map length_units)
  then have lz: "length zs = ?kl"
    using m(6,8) s(6,7) prefix_length_le[OF m(7)] by (metis (no_types, lifting) le_antisym length_map length_units prefix_order.refl)
  obtain w where w: "units key = map fst zs @ w" using m(7) by (auto simp: prefix_def)
  then have "rk_len key = length zs + length w" by (metis length_append length_map length_units)
  then have zs: "map fst zs = units key" using w lz by simp
  have "path_of c3 n ys" using s(5) m(4) h(2) by blast
  from path_prefix[OF kv_invD(1)[OF m(2)] this m(5)] zs h(3) have yz: "prefix ys zs" by simp
  have ls: "length slots = ?kl" by (simp add: m(6) lz)
  have pool3: "rc_pool c3 = rc_pool c" using s(4) m(3) by (simp add: keeps_def)
  have "length (drop ?l slots) = ?kl - ?l" by (simp add: ls)
  from pool_write_row[OF row(2) le _ this] kl row(3) lkv obtain p' where p: "pool_write (rc_pool c) idx (int ?l) (int ?kl) (drop ?l slots) = Some p'"
    "req_to_token p' = (req_to_token (rc_pool c))[idx := take ?l ?row @ drop ?l slots @ drop ?kl ?row]"
    "rp_free_slots p' = rp_free_slots (rc_pool c)" "rp_size p' = rp_size (rc_pool c)"
    "rp_max_context_len p' = rp_max_context_len (rc_pool c)" by auto
  have "take ?l ?row = take ?l kv" using row(4) le kl lkv by (simp add: min_def)
  then have "take ?l ?row = take ?l slots" using h(5) yz m(6) le kl by (auto simp: prefix_def)
  then have rw: "take ?l ?row @ drop ?l slots @ drop ?kl ?row = map snd zs @ drop ?kl ?row"
    using m(6) by (metis append_assoc append_take_drop_id)
  note C4 = kv_pool[OF m(2), of p']
  let ?c4 = "c3\<lparr>rc_pool := p'\<rparr>"
  from kv_unlock[OF C4(1)] obtain d c5 where c5: "dec_lock_ref n ?c4 = Some (d, c5)"
    "kv_inv c5 H (R - set (drop ?l (take ?kl kv)))" "keeps ?c4 c5" "\<forall>m. path_of c5 m = path_of ?c4 m" by blast
  have "path_of c5 n' zs" using c5(4) C4(3) m(5) by simp
  from kv_lock[OF c5(2) this] obtain d' c6 where c6: "inc_lock_ref n' c5 = Some (d', c6)"
    "kv_inv c6 (add_mset n' H) (R - set (drop ?l (take ?kl kv)))" "keeps c5 c6" "\<forall>m. path_of c6 m = path_of c5 m" by blast
  have rd: "pool_read (rc_pool c) idx (int (length (fill_ids r))) = Some kv"
    using row by (simp add: pool_read_def slice_to_nonneg)
  have pw: "pool_write (rc_pool c3) idx (cache_protected_len r) (int (length slots)) (slice_from slots (cache_protected_len r)) = Some p'"
    using p(1) by (simp add: pool3 h(4) ls slice_from_nonneg)
  let ?r' = "r\<lparr>cache_protected_len := int (length zs), prefix_indices := map snd zs @ drop (length zs) kv, last_node := Some n'\<rparr>"
  have "(if length slots < length kv then slots @ drop (length slots) kv else slots) = map snd zs @ drop (length zs) kv"
    using m(6) lz by simp
  then have "cache_unfinished_req r chunked c = Some (?r', c6)"
    unfolding cache_unfinished_req_def Let_def key[symmetric]
    by (simp add: nd row(1) rd s(1,2) m(1) ls pw[unfolded ls] h(1) c5(1) c6(1) lz cong: if_cong)
  moreover have "keeps (c\<lparr>rc_pool := rc_pool c6\<rparr>) c6"
    using s(4) m(3) c5(3) c6(3) by (simp add: keeps_def)
  moreover have "rc_pool c6 = p'" using c5(3) c6(3) by (simp add: keeps_def)
  moreover have "path_of c6 n' zs" "\<forall>m ys. path_of c m ys \<longrightarrow> path_of c6 m ys"
    using s(5) m(4,5) C4(3) c5(4) c6(4) by simp_all
  ultimately show ?thesis using zs c6(2) p rw lz h(4)
    by (intro exI[of _ ?r'] exI[of _ c6] exI[of _ n'] exI[of _ zs]) simp
qed

end
