(* ===== verification/RadixClaims.thy ===== *)
theory RadixClaims
  imports ReqCache
begin

text \<open>
  The properties of the radix cache and of the requests that use it, each derived from the contract
  of the operation, and a small concrete cache on which each of them applies.
\<close>

section \<open>A small cache\<close>

definition demo_pool_rows :: req_pool where
  "demo_pool_rows = (pool_init 2 4)\<lparr>req_to_token := [[0, 0, 0, 0], [1, 2, 3, 0], [0, 0, 0, 0]],
     rp_free_slots := [2]\<rparr>"

definition demo_radix :: "py_error + radix_cache" where
  "demo_radix = radix_init False 1 False False False ''lru'' False int (\<lambda>bs. bs) (token_init 4 False) demo_pool_rows"

definition demo_key :: radix_key where
  "demo_key = RadixKey [7, 8, 9] None False"

lemma demo_radix_Inr: "\<exists>c. demo_radix = Inr c"
proof -
  have "get_eviction_strategy (lower_ascii ''lru'') = Inr LRU" by code_simp
  then show ?thesis by (simp add: demo_radix_def radix_init_def)
qed

lemma demo_start:
  obtains c where "demo_radix = Inr c" "kv_inv c {#} {}" "rc_is_eagle c = False" "rc_alloc c = token_init 4 False"
    "cached c []" "path_of c (root_node c) []" "rc_pool c = demo_pool_rows" "rc_strip_thinking c = False"
    "disable_finished_insert c = False"
proof -
  obtain c where c: "demo_radix = Inr c" using demo_radix_Inr by blast
  note d = c[unfolded demo_radix_def]
  note F = radix_init_facts[OF d]
  have "kv_inv c {#} {}" by (rule kv_inv_init[OF d])
  moreover have "rc_pool c = demo_pool_rows" "rc_strip_thinking c = False" "disable_finished_insert c = False"
    using d by (auto simp: radix_init_def radix_reset_def tree_node_init_def monotonic_def upd_node_def
        record_all_cleared_event_def Let_def split: sum.splits)
  ultimately show ?thesis using that c F path_of.root by simp
qed

lemma demo_units: "rc_is_eagle c = False \<Longrightarrow> rc_page_size c = 1 \<Longrightarrow> lookup_units c demo_key = map (\<lambda>t. (None, [t])) [7, 8, 9]"
  by (simp add: lookup_units_def maybe_to_bigram_view_def demo_key_def RadixKey_def units_def rk_iter_def rk_len_def Let_def)

lemma demo_fits: "key_fits c demo_key"
  by (simp add: key_fits_def demo_key_def RadixKey_def)

section \<open>The cache\<close>

text \<open>C12: \<open>match_prefix\<close> returns (no exception, no endless loop) and finds the longest cached prefix: the
  slots it returns are those cached for the first units of the key, no cached sequence shares more
  whole pages with the key, the node it returns is where that prefix ends, and although the lookup
  may split a node it changes neither what is cached nor the invariant, whatever nodes requests
  hold.\<close>

theorem match_prefix_longest:
  assumes "radix_inv c H" and "plain_config c" and "key_fits c key"
  shows "\<exists>slots n c' xs. match_prefix key c = Some ((slots, n), c') \<and> radix_inv c' H \<and>
    (\<forall>ys. cached c' ys = cached c ys) \<and> path_of c' n xs \<and> cached c xs \<and>
    slots = map snd xs \<and> prefix (map fst xs) (lookup_units c key) \<and>
    (\<forall>ys. cached c ys \<and> rc_page_size c dvd length ys \<and> prefix (map fst ys) (lookup_units c key) \<longrightarrow>
       length ys \<le> length slots)"
  using match_prefix_spec[OF assms] by blast

lemma match_prefix_longest_witness:
  "\<exists>c0 k c1 slots n c2. demo_radix = Inr c0 \<and> radix_insert demo_key (Some [1, 2, 3]) (Some 0) False c0 = Some (k, c1) \<and>
     match_prefix demo_key c1 = Some ((slots, n), c2) \<and> length slots = 3"
proof -
  obtain c where c: "demo_radix = Inr c" "kv_inv c {#} {}" "rc_is_eagle c = False" by (rule demo_start) blast
  note A = kv_invD[OF c(2)]
  note u = demo_units[OF c(3) A(3)]
  have "length (lookup_units c demo_key) \<le> length [1, 2, 3 :: int]" using u by simp
  from insert_spec[OF A(1,2) demo_fits this, of "Some 0" False] obtain k c1 xs where i:
    "radix_insert demo_key (Some [1, 2, 3]) (Some 0) False c = Some (k, c1)" "radix_inv c1 {#}" "keeps c c1"
    "cached c1 xs" "map fst xs = lookup_units c demo_key" by blast
  have l: "lookup_units c1 demo_key = lookup_units c demo_key" using keeps_lookup[OF i(3)] .
  from match_prefix_longest[OF i(2) keeps_plain[OF i(3) A(2)] demo_fits] obtain slots n c2 zs where m:
    "match_prefix demo_key c1 = Some ((slots, n), c2)" "slots = map snd zs" "prefix (map fst zs) (lookup_units c1 demo_key)"
    "\<forall>ys. cached c1 ys \<and> rc_page_size c1 dvd length ys \<and> prefix (map fst ys) (lookup_units c1 demo_key) \<longrightarrow> length ys \<le> length slots"
    by blast
  have "length xs = 3" using arg_cong[OF i(5), of length] u by simp
  moreover have "rc_page_size c1 = 1" using i(3) A(3) by (simp add: keeps_def)
  ultimately have "3 \<le> length slots" using m(4)[rule_format, of xs] i(4,5) l by simp
  moreover have "length slots \<le> 3" using prefix_length_le[OF m(3)] m(2) l u by simp
  ultimately show ?thesis using c(1) i(1) m(1) by (metis le_antisym)
qed

text \<open>C13: \<open>insert\<close> returns and adds exactly the key: afterwards the key's whole pages are cached, the part
  that was cached before (of the returned length, the longest such part) with its old slots and the
  rest with the given slots; a sequence is cached afterwards only if it was before or is a part of
  the key; the evictable size grows by the length of the new part.\<close>

theorem insert_adds_key:
  assumes "radix_inv c H" and "plain_config c" and "key_fits c key"
    and "length (lookup_units c key) \<le> length vs"
  shows "\<exists>k c' xs. radix_insert key (Some vs) priority chunked c = Some (k, c') \<and> radix_inv c' H \<and>
    k \<le> length xs \<and> cached c' xs \<and> map fst xs = lookup_units c key \<and> cached c (take k xs) \<and>
    map snd (drop k xs) = drop k (take (length xs) vs) \<and>
    (\<forall>ys. cached c ys \<and> rc_page_size c dvd length ys \<and> prefix (map fst ys) (lookup_units c key) \<longrightarrow> length ys \<le> k) \<and>
    (\<forall>ys. cached c' ys \<longleftrightarrow> cached c ys \<or> prefix ys xs) \<and>
    evictable_size c' = evictable_size c + int (length xs - k)"
  using insert_spec[OF assms, of priority chunked] by blast

lemma insert_adds_key_witness:
  "\<exists>c0 k c1. demo_radix = Inr c0 \<and> radix_insert demo_key (Some [1, 2, 3]) (Some 0) False c0 = Some (k, c1) \<and> radix_inv c1 {#}"
proof -
  obtain c where c: "demo_radix = Inr c" "kv_inv c {#} {}" "rc_is_eagle c = False" by (rule demo_start) blast
  note A = kv_invD[OF c(2)]
  have "length (lookup_units c demo_key) \<le> length [1, 2, 3 :: int]" using demo_units[OF c(3) A(3)] by simp
  from insert_adds_key[OF A(1,2) demo_fits this, of "Some 0" False] c(1) show ?thesis by blast
qed

text \<open>C15: Locking a node of the tree returns, adds one holder and moves exactly the newly locked tokens
  from the evictable to the protected size (the returned delta); unlocking a held node undoes it: the
  walk returns without an exception, and both sizes are exact again for the remaining holders.\<close>

theorem lock_unlock_accounting:
  assumes "radix_inv c H" and "plain_config c" and "path_of c n xs"
  shows "\<exists>d c' d' c''. inc_lock_ref n c = Some (d, c') \<and> radix_inv c' (add_mset n H) \<and>
    evictable_size c' = evictable_size c + d \<and> protected_size c' = protected_size c - d \<and>
    (\<forall>ys. cached c' ys = cached c ys) \<and>
    dec_lock_ref n c' = Some (d', c'') \<and> radix_inv c'' H \<and> d' = - d \<and>
    evictable_size c'' = evictable_size c \<and> protected_size c'' = protected_size c"
  by (rule lock_unlock_spec[OF assms])

lemma lock_unlock_accounting_witness:
  "\<exists>c0 d c1 d' c2. demo_radix = Inr c0 \<and> inc_lock_ref (root_node c0) c0 = Some (d, c1) \<and>
     dec_lock_ref (root_node c0) c1 = Some (d', c2) \<and> radix_inv c2 {#}"
proof -
  obtain c where c: "demo_radix = Inr c" "kv_inv c {#} {}" "path_of c (root_node c) []" by (rule demo_start) blast
  from lock_unlock_accounting[OF kv_invD(1,2)[OF c(2)] c(3)] c(1) show ?thesis by blast
qed

text \<open>C14: \<open>evict\<close> returns; it gives back to the allocator exactly the slots that stop being cached, never
  one that is still cached or one below a node a request holds (the paths of held nodes stay
  cached), reports the number of freed tokens, which is also how much the evictable size shrinks,
  and stops short of the request only when nothing evictable is left.\<close>

theorem evict_frees_unlocked:
  assumes "radix_inv c H" and "plain_config c" and "slots_owned c"
  shows "\<exists>num c'. radix_evict num_tokens c = Some (num, c') \<and> radix_inv c' H \<and> slots_owned c' \<and>
    (\<forall>ys. cached c' ys \<longrightarrow> cached c ys) \<and> (\<forall>h \<in># H. \<forall>xs. path_of c h xs \<longrightarrow> path_of c' h xs) \<and>
    alloc_free_slots (rc_alloc c') = alloc_free_slots (rc_alloc c) \<union> (slots_cached c - slots_cached c') \<and>
    num = evictable_size c - evictable_size c' \<and> protected_size c' = protected_size c \<and>
    (num_tokens \<le> num \<or> evictable_size c' = 0)"
  using evict_spec[OF assms, of num_tokens] by blast

lemma evict_frees_unlocked_witness:
  "\<exists>c0 num c1. demo_radix = Inr c0 \<and> radix_evict 2 c0 = Some (num, c1) \<and> slots_owned c1"
proof -
  obtain c where c: "demo_radix = Inr c" "kv_inv c {#} {}" by (rule demo_start) blast
  from evict_frees_unlocked[OF kv_invD(1,2)[OF c(2)] kv_slots_owned[OF c(2)], of 2] c(1) show ?thesis by blast
qed

section \<open>Requests\<close>

text \<open>C16: When a request finishes, no KV slot is lost and none is given back twice.  Take a cache in which
  every slot is either free, cached or held by a running request (\<open>kv_inv\<close> with the held set \<open>R\<close>), and a
  request whose row holds the cached slots of its locked prefix followed by slots of its own.  Then
  \<open>cache_finished_req\<close> returns, the request's own slots leave the held set (each is now cached or
  free, never both), its lock is released, and, when insertion is on, its committed tokens are
  cached.\<close>

theorem finished_req_returns_slots:
  assumes "kv_inv c (add_mset n H) R" and "set (req_own r kv) \<subseteq> R" and "distinct (req_own r kv)"
    and "pop_committed_kv_cache (rc_strip_thinking c) r = Some (committed, r1)"
    and "toks = slice_to (origin_input_ids r @ output_ids r) committed"
    and "req_pool_idx r = Some idx" and "pool_read (rc_pool c) idx (int (length toks)) = Some kv"
    and "length kv = length toks" and "req_holds c r n (units (req_radix_key c r toks)) kv"
  shows "\<exists>c'. cache_finished_req r ins c = Some (r1, c') \<and> kv_inv c' H (R - set (req_own r kv)) \<and>
    (\<forall>ys. cached c ys \<longrightarrow> cached c' ys) \<and>
    (ins \<and> \<not> disable_finished_insert c \<longrightarrow>
       (\<exists>xs. cached c' xs \<and> map fst xs = units (req_radix_key c r toks)))"
  using cache_finished_ok[OF assms, of ins] by blast

definition demo_running :: "nid \<Rightarrow> request" where
  "demo_running n = demo_req\<lparr>req_pool_idx := Some 1, origin_input_ids := [7, 8], output_ids := [9],
     fill_ids := [7, 8, 9], last_node := Some n, kv_committed_len := 3, kv_allocated_len := 3\<rparr>"

text \<open>The state of the example: the request holds the slots 1, 2, 3 and has locked the root.\<close>

lemma demo_running_state:
  obtains c0 c n where "demo_radix = Inr c0" "kv_inv c {#n#} {1, 2, 3}" "rc_pool c = demo_pool_rows" "rc_strip_thinking c = False"
    "\<And>us. req_holds c (demo_running n) n us [1, 2, 3]" "rc_is_eagle c = False" "disable_finished_insert c = False"
proof -
  obtain c0 where c: "demo_radix = Inr c0" "kv_inv c0 {#} {}" "rc_is_eagle c0 = False" "rc_alloc c0 = token_init 4 False"
    "path_of c0 (root_node c0) []" "rc_pool c0 = demo_pool_rows" "rc_strip_thinking c0 = False" "disable_finished_insert c0 = False"
    by (rule demo_start) blast
  from kv_lock[OF c(2,5)] obtain d c1 where l: "inc_lock_ref (root_node c0) c0 = Some (d, c1)" "kv_inv c1 {#root_node c0#} {}"
    "keeps c0 c1" "rc_alloc c1 = rc_alloc c0" "\<forall>m. path_of c1 m = path_of c0 m" by blast
  obtain a where "token_alloc (token_init 4 False) 3 = (Some [1, 2, 3], a)"
    by (simp add: token_alloc_def token_init_def token_clear_def upto_rec1 slice_to_nonneg numeral_3_eq_3)
  then have a: "token_alloc (rc_alloc c1) 3 = (Some [1, 2, 3], a)" by (simp add: l(4) c(4))
  from kv_alloc[OF l(2) _ a] have k: "kv_inv (c1\<lparr>rc_alloc := a\<rparr>) {#root_node c0#} {1, 2, 3}"
    "\<forall>m. path_of (c1\<lparr>rc_alloc := a\<rparr>) m = path_of c1 m" by auto
  show ?thesis
    by (rule that[OF c(1) k(1)])
      (use k(2) l(3,5) c(3,5-8) in \<open>auto simp: keeps_def req_holds_def demo_running_def demo_req_def intro!: exI[of _ "[]"]\<close>)
qed

lemma demo_read: "pool_read demo_pool_rows 1 3 = Some [1, 2, 3]"
  by (simp add: pool_read_def demo_pool_rows_def slice_to_nonneg numeral_3_eq_3)

lemma demo_running_units:
  assumes "rc_is_eagle c = False" and "rc_page_size c = 1"
  shows "units (req_radix_key c (demo_running n) [7, 8, 9]) = [(None, [7]), (None, [8]), (None, [9])]"
  unfolding req_radix_key_def assms
  by (subst units_page_aligned) (simp_all add: demo_running_def demo_req_def RadixKey_def units_def rk_iter_def rk_len_def)

lemma demo_own: "req_own (demo_running n) [1, 2, 3] = [1, 2, 3]"
  by (simp add: req_own_def demo_running_def demo_req_def)

lemma finished_req_returns_slots_witness:
  "\<exists>n c r' c'. cache_finished_req (demo_running n) True c = Some (r', c') \<and> kv_inv c {#n#} {1, 2, 3} \<and> kv_inv c' {#} {} \<and>
     (\<exists>xs. cached c' xs \<and> map fst xs = [(None, [7]), (None, [8]), (None, [9])])"
proof -
  obtain c0 c n where c: "demo_radix = Inr c0" "kv_inv c {#n#} {1, 2, 3}" "rc_pool c = demo_pool_rows" "rc_strip_thinking c = False"
    "req_holds c (demo_running n) n (units (req_radix_key c (demo_running n) [7, 8, 9])) [1, 2, 3]"
    "rc_is_eagle c = False" "disable_finished_insert c = False"
    by (rule demo_running_state) blast
  have u: "units (req_radix_key c (demo_running n) [7, 8, 9]) = [(None, [7]), (None, [8]), (None, [9])]"
    by (rule demo_running_units[OF c(6) kv_invD(3)[OF c(2)]])
  have p: "pop_committed_kv_cache (rc_strip_thinking c) (demo_running n) =
      Some (3, (demo_running n)\<lparr>kv_committed_freed := True\<rparr>)"
    by (simp add: pop_committed_kv_cache_def cache_commit_len_def c(4) demo_running_def demo_req_def)
  have t: "[7, 8, 9] = slice_to (origin_input_ids (demo_running n) @ output_ids (demo_running n)) 3"
    by (simp add: demo_running_def demo_req_def slice_to_nonneg numeral_3_eq_3)
  have i: "req_pool_idx (demo_running n) = Some 1" by (simp add: demo_running_def)
  have o: "set (req_own (demo_running n) [1, 2, 3]) \<subseteq> {1, 2, 3}" "distinct (req_own (demo_running n) [1, 2, 3])"
    by (simp_all add: demo_own)
  have rd: "pool_read (rc_pool c) 1 (int (length [7, 8, 9 :: int])) = Some [1, 2, 3]"
    using demo_read by (simp add: c(3))
  have len: "length [1, 2, 3 :: int] = length [7, 8, 9 :: int]" by simp
  from finished_req_returns_slots[OF c(2) o p t i rd len c(5), of True] obtain c' where e:
    "cache_finished_req (demo_running n) True c = Some ((demo_running n)\<lparr>kv_committed_freed := True\<rparr>, c')"
    "kv_inv c' {#} ({1, 2, 3} - set (req_own (demo_running n) [1, 2, 3]))"
    "\<exists>xs. cached c' xs \<and> map fst xs = units (req_radix_key c (demo_running n) [7, 8, 9])"
    using c(7) by blast
  have "kv_inv c' {#} {}" using e(2) by (simp add: demo_own)
  then show ?thesis using e(1,3) c(2) u by metis
qed

text \<open>C17: While a request runs, \<open>cache_unfinished_req\<close> moves what the request computed so far into the cache
  and hands it back as a locked prefix: the call returns (its assertion on the matched length
  holds), the key is cached and its path ends at the request's new node, which is locked instead of
  the old one; the request's row now reads the cached slots followed by the part of the row behind
  the key, only that row of the table changes, and the slots that left the request's ownership are
  cached or free, never lost.\<close>

theorem unfinished_req_keeps_slots:
  assumes "kv_inv c (add_mset n H) R" and "set (req_own r kv) \<subseteq> R" and "distinct (req_own r kv)"
    and "req_pool_idx r = Some idx" and "idx < length (req_to_token (rc_pool c))"
    and "length (fill_ids r) \<le> length (req_to_token (rc_pool c) ! idx)"
    and "kv = take (length (fill_ids r)) (req_to_token (rc_pool c) ! idx)"
    and "key = req_radix_key c r (fill_ids r)" and "req_holds c r n (units key) kv"
  shows "\<exists>r' c' n' zs. cache_unfinished_req r chunked c = Some (r', c') \<and>
    map fst zs = units key \<and> path_of c' n' zs \<and>
    r' = r\<lparr>cache_protected_len := int (length zs),
           prefix_indices := map snd zs @ drop (length zs) kv, last_node := Some n'\<rparr> \<and>
    kv_inv c' (add_mset n' H) (R - set (drop (nat (cache_protected_len r)) (take (length zs) kv))) \<and>
    req_to_token (rc_pool c') = (req_to_token (rc_pool c))[idx :=
      map snd zs @ drop (length zs) (req_to_token (rc_pool c) ! idx)]"
  using cache_unfinished_ok[OF assms, of chunked] by blast

lemma unfinished_req_keeps_slots_witness:
  "\<exists>n c r' c' n' zs. cache_unfinished_req (demo_running n) False c = Some (r', c') \<and> kv_inv c {#n#} {1, 2, 3} \<and>
     path_of c' n' zs \<and> length zs = 3 \<and> kv_inv c' {#n'#} {}"
proof -
  obtain c0 c n where c: "demo_radix = Inr c0" "kv_inv c {#n#} {1, 2, 3}" "rc_pool c = demo_pool_rows"
    "req_holds c (demo_running n) n (units (req_radix_key c (demo_running n) (fill_ids (demo_running n)))) [1, 2, 3]"
    "rc_is_eagle c = False"
    by (rule demo_running_state) blast
  have u: "units (req_radix_key c (demo_running n) (fill_ids (demo_running n))) = [(None, [7]), (None, [8]), (None, [9])]"
    using demo_running_units[OF c(5) kv_invD(3)[OF c(2)]] by (simp add: demo_running_def)
  have i: "req_pool_idx (demo_running n) = Some 1" "length (fill_ids (demo_running n)) = 3" "cache_protected_len (demo_running n) = 0"
    by (simp_all add: demo_running_def demo_req_def)
  have row: "1 < length (req_to_token (rc_pool c))" "3 \<le> length (req_to_token (rc_pool c) ! 1)"
    "[1, 2, 3] = take 3 (req_to_token (rc_pool c) ! 1)"
    by (simp_all add: c(3) demo_pool_rows_def numeral_3_eq_3)
  have o: "set (req_own (demo_running n) [1, 2, 3]) \<subseteq> {1, 2, 3}" "distinct (req_own (demo_running n) [1, 2, 3])"
    by (simp_all add: demo_own)
  from unfinished_req_keeps_slots[OF c(2) o i(1) row(1) row(2)[folded i(2)] row(3)[folded i(2)] refl c(4), of False]
  obtain r' c' n' zs where e: "cache_unfinished_req (demo_running n) False c = Some (r', c')"
    "map fst zs = units (req_radix_key c (demo_running n) (fill_ids (demo_running n)))" "path_of c' n' zs"
    "kv_inv c' {#n'#} ({1, 2, 3} - set (drop (nat (cache_protected_len (demo_running n))) (take (length zs) [1, 2, 3])))"
    by blast
  have l: "length zs = 3" using arg_cong[OF e(2), of length] u by simp
  have "kv_inv c' {#n'#} {}" using e(4) unfolding l i(3) by (simp add: numeral_3_eq_3)
  with e(1,3) l c(2) show ?thesis by blast
qed

end
