(* ===== verification/TokenSlots.thy ===== *)
theory TokenSlots
  imports ReqCache
begin

text \<open>
  Slots for a batch from allocator and cache together (\<open>alloc_token_slots\<close> and
  \<open>evict_from_tree_cache\<close> of \<open>mem_cache/common.py\<close>): when the free slots do not suffice the cache is
  asked to evict.  Free plus evictable slots are a budget that the allocation can always draw on.
\<close>

section \<open>The operations\<close>

definition evict_from_tree_cache :: "int \<Rightarrow> radix_cache \<Rightarrow> radix_cache option" where
  "evict_from_tree_cache num_tokens c =
     (if allocator_available_size (rc_alloc c) < num_tokens
      then map_option snd (radix_evict num_tokens c) else Some c)"

text \<open>\<open>alloc_token_slots\<close>: the state the allocator had before is returned when asked for; \<open>None\<close> is the
  out-of-memory exception.\<close>

definition alloc_token_slots :: "int \<Rightarrow> bool \<Rightarrow> radix_cache \<Rightarrow> ((int list \<times> (int list \<times> int list) option) \<times> radix_cache) option" where
  "alloc_token_slots num_tokens backup c = do {
     c \<leftarrow> evict_from_tree_cache num_tokens c;
     let state = (if backup then Some (backup_state (rc_alloc c)) else None);
     let (out, a) = token_alloc (rc_alloc c) num_tokens;
     case out of None \<Rightarrow> None | Some xs \<Rightarrow> Some ((xs, state), c\<lparr>rc_alloc := a\<rparr>)
   }"

definition kv_budget :: "radix_cache \<Rightarrow> int" where
  "kv_budget c = allocator_available_size (rc_alloc c) + evictable_size c"

section \<open>Sizes count slots\<close>

lemma kv_sizes:
  assumes i: "kv_inv c H R"
  shows "evictable_size c + protected_size c = int (card (slots_cached c))"
    and "allocator_available_size (rc_alloc c) = int (card (alloc_free_slots (rc_alloc c)))"
proof -
  note A = kv_invD[OF i]
  obtain N P where t: "tree c N P" and a: "accounts c N P H" using A(1) by (auto simp: radix_inv_def)
  have o: "owns_slots c N" using kv_slots_owned[OF i] slots_owned_tree[OF t] by simp
  have fin: "finite (inner c N)" using tree_finite[OF t] by (simp add: inner_def)
  have len: "node_len c n = int (card (set (slots_at c n)))" if "n \<in> inner c N" for n
  proof -
    have "key_ok c (at c n)" using tree_key[OF t] that by (simp add: inner_def)
    then have "rk_len (node_key (at c n)) = length (slots_at c n)" by (simp add: key_ok_def slots_at_def)
    moreover have "distinct (slots_at c n)" using o that by (simp add: owns_slots_def)
    ultimately show ?thesis by (simp add: node_len_def distinct_card)
  qed
  have "int (card (cached_slots c N)) = int (\<Sum>n \<in> inner c N. card (set (slots_at c n)))"
    unfolding cached_slots_def using o by (subst card_UN_disjoint) (auto simp: fin owns_slots_def)
  also have "\<dots> = sum (node_len c) (inner c N)" using len by simp
  also have "\<dots> = sum (node_len c) (unlocked c N) + sum (node_len c) (locked c N)"
  proof -
    have "finite (unlocked c N)" "finite (locked c N)" "unlocked c N \<inter> locked c N = {}"
      "inner c N = unlocked c N \<union> locked c N"
      using fin by (auto simp: unlocked_def locked_def)
    then show ?thesis by (simp add: sum.union_disjoint)
  qed
  finally show "evictable_size c + protected_size c = int (card (slots_cached c))"
    using a by (simp add: slots_cached_tree[OF t] accounts_def sizes_ok_def)
  have "token_inv (al_size (rc_alloc c)) (rc_alloc c)" "alloc_free_slots (rc_alloc c) = token_free_slots (rc_alloc c)"
    using alloc_token[OF A(5,4)] by simp_all
  then have "card (alloc_free_slots (rc_alloc c)) = length (free_pages (rc_alloc c) @ release_pages (rc_alloc c))"
    using distinct_card[of "free_pages (rc_alloc c) @ release_pages (rc_alloc c)"]
    by (simp add: token_inv_def token_free_slots_def)
  then show "allocator_available_size (rc_alloc c) = int (card (alloc_free_slots (rc_alloc c)))"
    using A(4) by (simp add: allocator_available_size_def token_available_size_def)
qed

lemma evictable_nonneg:
  assumes "kv_inv c H R"
  shows "0 \<le> evictable_size c"
proof -
  obtain N P where "accounts c N P H" using kv_invD(1)[OF assms] by (auto simp: radix_inv_def)
  then have "evictable_size c = sum (node_len c) (unlocked c N)" by (simp add: accounts_def sizes_ok_def)
  then show ?thesis by (simp add: node_len_def sum_nonneg)
qed

lemma finite_slots:
  assumes "kv_inv c H R"
  shows "finite (slots_cached c)" "finite (alloc_free_slots (rc_alloc c))"
proof -
  note A = kv_invD[OF assms]
  have "finite (alloc_universe (rc_alloc c))" using A(4) by (simp add: alloc_universe_def)
  then show "finite (slots_cached c)" "finite (alloc_free_slots (rc_alloc c))"
    using A(7) by (metis finite_Un)+
qed

text \<open>Evicting moves slots inside the budget.\<close>

lemma evict_from_any:
  assumes i: "kv_inv c H R"
  shows "\<exists>c'. evict_from_tree_cache n c = Some c' \<and> kv_inv c' H R \<and> keeps c c' \<and> kv_budget c' = kv_budget c \<and>
    (n \<le> allocator_available_size (rc_alloc c') \<longleftrightarrow> n \<le> kv_budget c) \<and>
    (\<forall>ys. cached c' ys \<longrightarrow> cached c ys) \<and> (\<forall>h \<in># H. \<forall>xs. path_of c h xs \<longrightarrow> path_of c' h xs)"
proof (cases "allocator_available_size (rc_alloc c) < n")
  case True
  from kv_evict[OF i, of n] obtain num c' where e: "radix_evict n c = Some (num, c')" "kv_inv c' H R" "keeps c c'"
    "\<forall>ys. cached c' ys \<longrightarrow> cached c ys" "\<forall>h \<in># H. \<forall>xs. path_of c h xs \<longrightarrow> path_of c' h xs"
    "alloc_free_slots (rc_alloc c') = alloc_free_slots (rc_alloc c) \<union> (slots_cached c - slots_cached c')"
    "num = evictable_size c - evictable_size c'" "protected_size c' = protected_size c"
    "n \<le> num \<or> evictable_size c' = 0" by blast
  note S = kv_sizes[OF i] kv_sizes[OF e(2)] and F = finite_slots[OF i] finite_slots[OF e(2)]
  have sub: "slots_cached c' \<subseteq> slots_cached c" using e(4) by (auto simp: slots_cached_def)
  have "card (slots_cached c - slots_cached c') = card (slots_cached c) - card (slots_cached c')"
    using F(3) sub by (simp add: card_Diff_subset)
  moreover have "card (slots_cached c') \<le> card (slots_cached c)" using F(1) sub by (rule card_mono)
  moreover have "card (alloc_free_slots (rc_alloc c')) = card (alloc_free_slots (rc_alloc c)) + card (slots_cached c - slots_cached c')"
    unfolding e(6) using kv_invD(8)[OF i] F by (intro card_Un_disjoint) auto
  ultimately have b: "kv_budget c' = kv_budget c" and m: "allocator_available_size (rc_alloc c') = allocator_available_size (rc_alloc c) + num"
    using S e(7,8) by (simp_all add: kv_budget_def)
  have "0 \<le> allocator_available_size (rc_alloc c)" "0 \<le> evictable_size c'" using S(2) evictable_nonneg[OF e(2)] by simp_all
  then have "n \<le> allocator_available_size (rc_alloc c') \<longleftrightarrow> n \<le> kv_budget c" using m b e(9) by (auto simp: kv_budget_def)
  then show ?thesis using True e b by (simp add: evict_from_tree_cache_def)
next
  case False
  then show ?thesis using i evictable_nonneg[OF i] by (simp add: evict_from_tree_cache_def kv_budget_def)
qed

lemma evict_from_ok:
  assumes i: "kv_inv c H R" and n: "n \<le> kv_budget c"
  shows "\<exists>c'. evict_from_tree_cache n c = Some c' \<and> kv_inv c' H R \<and> keeps c c' \<and> kv_budget c' = kv_budget c \<and>
    n \<le> allocator_available_size (rc_alloc c') \<and>
    (\<forall>ys. cached c' ys \<longrightarrow> cached c ys) \<and> (\<forall>h \<in># H. \<forall>xs. path_of c h xs \<longrightarrow> path_of c' h xs)"
  using evict_from_any[OF i, of n] n by blast

lemma alloc_token_slots_ok:
  assumes i: "kv_inv c H R" and n: "0 \<le> n" "n \<le> kv_budget c"
  shows "\<exists>xs st c'. alloc_token_slots n backup c = Some ((xs, st), c') \<and> int (length xs) = n \<and> distinct xs \<and>
    set xs \<inter> R = {} \<and> kv_inv c' H (R \<union> set xs) \<and> keeps c c' \<and> kv_budget c' = kv_budget c - n \<and>
    (\<forall>ys. cached c' ys \<longrightarrow> cached c ys) \<and> (\<forall>h \<in># H. \<forall>xs. path_of c h xs \<longrightarrow> path_of c' h xs)"
proof -
  from evict_from_ok[OF i n(2)] obtain c1 where e: "evict_from_tree_cache n c = Some c1" "kv_inv c1 H R" "keeps c c1"
    "kv_budget c1 = kv_budget c" "n \<le> allocator_available_size (rc_alloc c1)"
    "\<forall>ys. cached c1 ys \<longrightarrow> cached c ys" "\<forall>h \<in># H. \<forall>xs. path_of c h xs \<longrightarrow> path_of c1 h xs" by blast
  obtain r a where t: "token_alloc (rc_alloc c1) n = (r, a)" by fastforce
  from kv_alloc[OF e(2) n(1) t] obtain xs where k: "case r of None \<Rightarrow> xs = [] \<and> int (card (alloc_free_slots (rc_alloc c1))) < n
      | Some ys \<Rightarrow> xs = ys \<and> int (length xs) = n" "distinct xs" "set xs \<inter> R = {}"
    "kv_inv (c1\<lparr>rc_alloc := a\<rparr>) H (R \<union> set xs)" "keeps c1 (c1\<lparr>rc_alloc := a\<rparr>)"
    "\<forall>ys. cached (c1\<lparr>rc_alloc := a\<rparr>) ys = cached c1 ys" "\<forall>m. path_of (c1\<lparr>rc_alloc := a\<rparr>) m = path_of c1 m" by blast
  have r: "r = Some xs" "int (length xs) = n" using k(1) e(5) kv_sizes(2)[OF e(2)] by (auto split: option.splits)
  let ?c = "c1\<lparr>rc_alloc := a\<rparr>"
  have "alloc_token_slots n backup c = Some ((xs, if backup then Some (backup_state (rc_alloc c1)) else None), ?c)"
    by (simp add: alloc_token_slots_def e(1) t r(1))
  moreover have "kv_budget ?c = kv_budget c - n"
  proof -
    have "slots_cached ?c = slots_cached c1" using k(6) by (simp add: slots_cached_def)
    moreover have "alloc_universe a = alloc_universe (rc_alloc c1)"
      using kv_invD(4,5)[OF k(4)] kv_invD(4,5)[OF e(2)] t token_alloc_Some[of "al_size (rc_alloc c1)" "rc_alloc c1" n xs a]
        alloc_token[of "rc_alloc c1"] r n by (auto simp: alloc_universe_def token_inv_def)
    ultimately have "alloc_free_slots a \<union> set xs = alloc_free_slots (rc_alloc c1)"
      using kv_invD(7-10)[OF k(4)] kv_invD(7-10)[OF e(2)] k(3) by auto
    moreover have "alloc_free_slots a \<inter> set xs = {}" using kv_invD(9)[OF k(4)] by auto
    ultimately have "card (alloc_free_slots (rc_alloc c1)) = card (alloc_free_slots a) + length xs"
      using finite_slots(2)[OF k(4)] k(2) card_Un_disjoint[of "alloc_free_slots a" "set xs"] distinct_card[of xs] by simp
    then show ?thesis using kv_sizes(2)[OF k(4)] kv_sizes(2)[OF e(2)] e(4) r(2) by (simp add: kv_budget_def)
  qed
  ultimately show ?thesis using r(2) k e keeps_trans[OF e(3) k(5)] by (intro exI[of _ xs]) auto
qed

end
