(* ===== verification/PrefillDelayer.thy ===== *)
theory PrefillDelayer
  imports Sgl_Prelude Complex_Main
begin

text \<open>
  Delaying prefill until the ranks agree (\<open>managers/prefill_delayer.py\<close>), and skipping receives
  (\<open>managers/scheduler_recv_skipper.py\<close>).  The all-gather appears as its result, the list of rows of
  the data-parallel ranks (at least one); \<open>now\<close> is the reading of the rank's clock in the call (the
  code reads it at most once).  Floats are exact rationals.
\<close>

section \<open>State and configuration\<close>

record delay_state =
  delayed_count :: int
  start_time :: rat

definition new_delay_state :: "rat \<Rightarrow> delay_state" where
  "new_delay_state now = \<lparr>delayed_count = 0, start_time = now\<rparr>"

definition bump_delayed_count :: "delay_state \<Rightarrow> delay_state" where
  "bump_delayed_count s = s\<lparr>delayed_count := delayed_count s + 1\<rparr>"

datatype prefillable_status = All_prefillable | None_prefillable | Mixed_prefillable

datatype output_reason = Reason_delay | Reason_wait_success | Reason_no_wait | Reason_wait_timeout |
  Reason_token_watermark | Reason_empty

record negotiate_output =
  next_state :: "delay_state option"
  input_estimation :: prefillable_status
  output_allow :: bool
  out_reason :: output_reason
  num_prefillable :: int
  num_token_watermark_force_allow :: int

record prefill_delayer =
  max_delay_passes :: int
  token_usage_low_watermark :: "rat option"
  queue_min_ratio :: "rat option"
  max_delay_ms :: rat
  pd_dp_size :: int
  enable_dp_attention :: bool
  curr_state :: "delay_state option"
  skip_first_delayer :: bool

definition delayer_init :: "int \<Rightarrow> int \<Rightarrow> rat option \<Rightarrow> rat option \<Rightarrow> rat option \<Rightarrow> bool \<Rightarrow> prefill_delayer" where
  "delayer_init dp_size passes watermark ratio delay_ms dp_attention =
     \<lparr>max_delay_passes = passes, token_usage_low_watermark = watermark, queue_min_ratio = ratio,
      max_delay_ms = (case delay_ms of None \<Rightarrow> 5000 | Some x \<Rightarrow> x), pd_dp_size = dp_size,
      enable_dp_attention = dp_attention, curr_state = None, skip_first_delayer = True\<rparr>"

text \<open>A row of the gathered tensor.\<close>

record rank_info =
  ri_prefillable :: int
  ri_watermark :: int
  ri_running_batch :: int
  ri_max_prefill_bs :: int
  ri_waiting_queue_len :: int

text \<open>The arguments of a call on one rank.\<close>

record negotiate_args =
  na_prefillable :: bool
  na_token_usage :: rat
  na_running_batch :: int
  na_max_prefill_bs :: int
  na_max_running_requests :: int
  na_waiting_queue_len :: int

definition local_info :: "prefill_delayer \<Rightarrow> negotiate_args \<Rightarrow> rank_info" where
  "local_info d x =
     (let force_allow = na_prefillable x \<and>
            (case token_usage_low_watermark d of None \<Rightarrow> False | Some w \<Rightarrow> na_token_usage x < w)
      in \<lparr>ri_prefillable = of_bool (na_prefillable x), ri_watermark = of_bool force_allow,
          ri_running_batch = na_running_batch x, ri_max_prefill_bs = na_max_prefill_bs x,
          ri_waiting_queue_len = na_waiting_queue_len x\<rparr>)"

section \<open>The decision\<close>

abbreviation col_max :: "(rank_info \<Rightarrow> int) \<Rightarrow> rank_info list \<Rightarrow> int" where
  "col_max f rows \<equiv> Max (set (map f rows))"

definition prefill_status :: "rank_info list \<Rightarrow> prefillable_status" where
  "prefill_status rows =
     (if Min (set (map ri_prefillable rows)) > 0 then All_prefillable
      else if col_max ri_prefillable rows = 0 then None_prefillable
      else Mixed_prefillable)"

definition watermark_force_allow :: "rank_info list \<Rightarrow> bool" where
  "watermark_force_allow rows \<longleftrightarrow> col_max ri_watermark rows > 0"

definition trunc_rat :: "rat \<Rightarrow> int" where
  "trunc_rat x = (if 0 \<le> x then floor x else ceiling x)"

definition make_output :: "rank_info list \<Rightarrow> delay_state option \<Rightarrow> bool \<Rightarrow> output_reason \<Rightarrow> negotiate_output" where
  "make_output rows st allow why =
     \<lparr>next_state = st, input_estimation = prefill_status rows, output_allow = allow, out_reason = why,
      num_prefillable = sum_list (map ri_prefillable rows),
      num_token_watermark_force_allow = sum_list (map ri_watermark rows)\<rparr>"

definition delay_output :: "rank_info list \<Rightarrow> rat \<Rightarrow> delay_state option \<Rightarrow> negotiate_output" where
  "delay_output rows now prev =
     make_output rows (Some (bump_delayed_count (case prev of None \<Rightarrow> new_delay_state now | Some s \<Rightarrow> s)))
       False Reason_delay"

definition queue_condition :: "prefill_delayer \<Rightarrow> rank_info list \<Rightarrow> rat \<Rightarrow> delay_state option \<Rightarrow> bool" where
  "queue_condition d rows now prev =
     (case queue_min_ratio d of None \<Rightarrow> False
      | Some ratio \<Rightarrow>
          if col_max ri_running_batch rows > 0 then
            let queue_min = min (trunc_rat (of_int (col_max ri_running_batch rows) * ratio)) (col_max ri_max_prefill_bs rows)
            in queue_min > 0 \<and> col_max ri_waiting_queue_len rows < queue_min \<and>
               (case prev of None \<Rightarrow> True | Some s \<Rightarrow> \<not> (now - start_time s) * 1000 \<ge> max_delay_ms d)
          else False)"

definition slot_condition :: "prefill_delayer \<Rightarrow> rank_info list \<Rightarrow> int \<Rightarrow> bool" where
  "slot_condition d rows max_running =
     (let m = (if enable_dp_attention d then max_running else (max_running + pd_dp_size d - 1) div pd_dp_size d)
      in m - col_max ri_running_batch rows < col_max ri_max_prefill_bs rows)"

text \<open>The output and the new value of \<open>skip_first_delayer\<close>.\<close>

definition negotiate_pure ::
  "prefill_delayer \<Rightarrow> rank_info list \<Rightarrow> rat \<Rightarrow> int \<Rightarrow> delay_state option \<Rightarrow> negotiate_output \<times> bool" where
  "negotiate_pure d rows now max_running prev =
     (case prefill_status rows of
        All_prefillable \<Rightarrow>
          if watermark_force_allow rows
          then (make_output rows None True Reason_token_watermark, skip_first_delayer d)
          else
            let hold = slot_condition d rows max_running \<or> queue_condition d rows now prev;
                go = make_output rows None True (if prev \<noteq> None then Reason_wait_success else Reason_no_wait)
            in if hold \<and> skip_first_delayer d then (go, False)
               else if hold then (delay_output rows now prev, skip_first_delayer d)
               else (go, skip_first_delayer d)
      | None_prefillable \<Rightarrow> (make_output rows None True Reason_empty, skip_first_delayer d)
      | Mixed_prefillable \<Rightarrow>
          if watermark_force_allow rows
          then (make_output rows None True Reason_token_watermark, skip_first_delayer d)
          else if (case prev of None \<Rightarrow> 0 | Some s \<Rightarrow> delayed_count s) < max_delay_passes d - 1
          then (delay_output rows now prev, skip_first_delayer d)
          else (make_output rows None True Reason_wait_timeout, skip_first_delayer d))"

definition negotiate :: "prefill_delayer \<Rightarrow> rank_info list \<Rightarrow> rat \<Rightarrow> int \<Rightarrow> negotiate_output \<times> prefill_delayer" where
  "negotiate d rows now max_running =
     (let (out, skip) = negotiate_pure d rows now max_running (curr_state d)
      in (out, d\<lparr>curr_state := next_state out, skip_first_delayer := skip\<rparr>))"

text \<open>One scheduling pass negotiates at most once: the first result is kept and repeated.\<close>

definition pass_negotiate ::
  "negotiate_output option \<Rightarrow> prefill_delayer \<Rightarrow> rank_info list \<Rightarrow> rat \<Rightarrow> int \<Rightarrow> bool \<times> negotiate_output option \<times> prefill_delayer" where
  "pass_negotiate res d rows now max_running =
     (case res of Some out \<Rightarrow> (output_allow out, res, d)
      | None \<Rightarrow> (let (out, d) = negotiate d rows now max_running in (output_allow out, Some out, d)))"

definition pass_finalize ::
  "negotiate_output option \<Rightarrow> prefill_delayer \<Rightarrow> rank_info list \<Rightarrow> rat \<Rightarrow> negotiate_output \<times> prefill_delayer" where
  "pass_finalize res d rows now =
     (case res of Some out \<Rightarrow> (out, d) | None \<Rightarrow> negotiate d rows now 0)"

section \<open>A delay ends\<close>

fun negotiate_run :: "prefill_delayer \<Rightarrow> (rank_info list \<times> rat \<times> int) list \<Rightarrow> negotiate_output list \<times> prefill_delayer" where
  "negotiate_run d [] = ([], d)"
| "negotiate_run d ((rows, now, mr) # xs) =
     (let (out, d) = negotiate d rows now mr; (outs, d) = negotiate_run d xs in (out # outs, d))"

definition waited :: "prefill_delayer \<Rightarrow> int" where
  "waited d = (case curr_state d of None \<Rightarrow> 0 | Some s \<Rightarrow> delayed_count s)"

lemma delay_output_fields [simp]:
  "output_allow (delay_output rows now prev) = False"
  "(case next_state (delay_output rows now prev) of None \<Rightarrow> 0 | Some s \<Rightarrow> delayed_count s) =
     (case prev of None \<Rightarrow> 0 | Some s \<Rightarrow> delayed_count s) + 1"
  by (auto simp: delay_output_def make_output_def bump_delayed_count_def new_delay_state_def split: option.splits)

lemma negotiate_mixed:
  assumes "prefill_status rows = Mixed_prefillable" and "negotiate d rows now mr = (out, d')" and "\<not> output_allow out"
  shows "waited d' = waited d + 1 \<and> waited d < max_delay_passes d - 1 \<and> max_delay_passes d' = max_delay_passes d"
  using assms
  by (auto simp: negotiate_def negotiate_pure_def make_output_def waited_def split: if_splits prod.splits)

text \<open>C22: A delay always ends: while some ranks can prefill and others cannot, a rank is held back at most
  \<open>max_delay_passes - 1\<close> times in a row, whatever it had waited before and whatever the other ranks report.\<close>

theorem delay_is_bounded:
  assumes "\<forall>(rows, now, mr) \<in> set xs. prefill_status rows = Mixed_prefillable"
    and "\<forall>out \<in> set (fst (negotiate_run d xs)). \<not> output_allow out" and "0 \<le> waited d"
  shows "int (length xs) \<le> max 0 (max_delay_passes d - 1)"
proof -
  have "xs = [] \<or> waited d + int (length xs) \<le> max_delay_passes d - 1" using assms
  proof (induction xs arbitrary: d)
    case (Cons x xs)
    obtain rows now mr where x: "x = (rows, now, mr)" by (cases x) auto
    obtain out d1 where n: "negotiate d rows now mr = (out, d1)" by fastforce
    have o: "\<not> output_allow out" and rest: "\<forall>out \<in> set (fst (negotiate_run d1 xs)). \<not> output_allow out"
      using Cons.prems(2) by (auto simp: x n Let_def split: prod.splits)
    have m: "prefill_status rows = Mixed_prefillable" using Cons.prems(1) x by auto
    note A = negotiate_mixed[OF m n o]
    from Cons.IH[OF _ rest] Cons.prems(1,3) A have
      "xs = [] \<or> waited d1 + int (length xs) \<le> max_delay_passes d1 - 1" by auto
    with A show ?case by auto
  qed simp
  with assms(3) show ?thesis by auto
qed

definition mixed_rows :: "rank_info list" where
  "mixed_rows = [\<lparr>ri_prefillable = 1, ri_watermark = 0, ri_running_batch = 0, ri_max_prefill_bs = 4, ri_waiting_queue_len = 1\<rparr>,
                 \<lparr>ri_prefillable = 0, ri_watermark = 0, ri_running_batch = 2, ri_max_prefill_bs = 4, ri_waiting_queue_len = 0\<rparr>]"

lemma delay_is_bounded_witness:
  "map output_allow (fst (negotiate_run (delayer_init 2 3 None None None True) (replicate 4 (mixed_rows, 0, 8)))) =
     [False, False, True, False] \<and>
   int (length (replicate 2 (mixed_rows, 0 :: rat, 8 :: int))) \<le> max 0 (max_delay_passes (delayer_init 2 3 None None None True) - 1)"
proof -
  let ?d = "delayer_init 2 3 None None None True"
  have m: "prefill_status mixed_rows = Mixed_prefillable" "\<not> watermark_force_allow mixed_rows"
    by (simp_all add: prefill_status_def watermark_force_allow_def mixed_rows_def)
  note sims = negotiate_def negotiate_pure_def m delay_output_def make_output_def bump_delayed_count_def
    new_delay_state_def delayer_init_def numeral_eq_Suc
  have a: "map output_allow (fst (negotiate_run ?d (replicate 4 (mixed_rows, 0, 8)))) = [False, False, True, False]"
    by (simp add: sims)
  have "\<forall>out \<in> set (fst (negotiate_run ?d (replicate 2 (mixed_rows, 0, 8)))). \<not> output_allow out" by (simp add: sims)
  from delay_is_bounded[OF _ this] m a show ?thesis by (simp add: waited_def delayer_init_def)
qed

section \<open>The ranks agree\<close>

text \<open>
  What a rank does in a scheduling pass: for every request it tries, \<open>add_one_req\<close> asks first, and for a
  request that ignores EOS \<open>add_one_req_ignore_eos\<close> asks again, with the default arguments; a refusal ends
  the pass.  \<open>finalize\<close> asks, also with default arguments, when nobody has.
\<close>

record add_call =
  ac_running_batch :: int
  ac_max_prefill_bs :: int
  ac_waiting_queue_len :: int
  ac_ignore_eos :: bool

definition add_one_req_args :: "rat \<Rightarrow> int \<Rightarrow> add_call \<Rightarrow> negotiate_args" where
  "add_one_req_args usage max_running a =
     \<lparr>na_prefillable = True, na_token_usage = usage, na_running_batch = ac_running_batch a,
      na_max_prefill_bs = ac_max_prefill_bs a, na_max_running_requests = max_running,
      na_waiting_queue_len = ac_waiting_queue_len a\<rparr>"

definition default_args :: "bool \<Rightarrow> rat \<Rightarrow> negotiate_args" where
  "default_args prefillable usage =
     \<lparr>na_prefillable = prefillable, na_token_usage = usage, na_running_batch = 0, na_max_prefill_bs = 0,
      na_max_running_requests = 0, na_waiting_queue_len = 0\<rparr>"

text \<open>The answers to all calls, the kept result and the delayer.\<close>

fun adder_pass ::
  "negotiate_output option \<Rightarrow> prefill_delayer \<Rightarrow> rank_info list \<Rightarrow> rat \<Rightarrow> int \<Rightarrow> add_call list \<Rightarrow>
   bool list \<times> negotiate_output option \<times> prefill_delayer" where
  "adder_pass res d rows now mr [] = ([], res, d)"
| "adder_pass res d rows now mr (a # calls) =
     (let (ok, res, d) = pass_negotiate res d rows now mr
      in if \<not> ok then ([ok], res, d)
         else if ac_ignore_eos a then
           (let (ok', res, d) = pass_negotiate res d rows now 0
            in if \<not> ok' then ([ok, ok'], res, d)
               else (let (oks, res, d) = adder_pass res d rows now mr calls in (ok # ok' # oks, res, d)))
         else (let (oks, res, d) = adder_pass res d rows now mr calls in (ok # oks, res, d)))"

definition run_pass ::
  "prefill_delayer \<Rightarrow> rank_info list \<Rightarrow> rat \<Rightarrow> int \<Rightarrow> add_call list \<Rightarrow> bool list \<times> negotiate_output \<times> prefill_delayer" where
  "run_pass d rows now mr calls =
     (let (oks, res, d) = adder_pass None d rows now mr calls; (out, d) = pass_finalize res d rows now in (oks, out, d))"

text \<open>The row that the first call of the pass contributes.\<close>

definition pass_info :: "prefill_delayer \<Rightarrow> rat \<Rightarrow> int \<Rightarrow> add_call list \<Rightarrow> rank_info" where
  "pass_info d usage mr calls =
     local_info d (case calls of [] \<Rightarrow> default_args False usage | a # _ \<Rightarrow> add_one_req_args usage mr a)"

text \<open>A round of all data-parallel ranks: every rank contributes its row and decides on all rows.  A rank's pass is
  its token usage, its clock and its calls; \<open>mr\<close> is the configured \<open>max_running_requests\<close>.\<close>

type_synonym rank_pass = "rat \<times> rat \<times> add_call list"

definition negotiate_round ::
  "int \<Rightarrow> prefill_delayer list \<Rightarrow> rank_pass list \<Rightarrow> (bool list \<times> negotiate_output \<times> prefill_delayer) list" where
  "negotiate_round mr ds ps =
     (let rows = map2 (\<lambda>d (usage, _, calls). pass_info d usage mr calls) ds ps
      in map2 (\<lambda>d (_, now, calls). run_pass d rows now mr calls) ds ps)"

fun negotiate_rounds :: "int \<Rightarrow> prefill_delayer list \<Rightarrow> rank_pass list list \<Rightarrow> (bool list \<times> negotiate_output) list list" where
  "negotiate_rounds mr ds [] = []"
| "negotiate_rounds mr ds (ps # pss) =
     (let r = negotiate_round mr ds ps
      in map (\<lambda>(oks, out, _). (oks, out)) r # negotiate_rounds mr (map (\<lambda>(_, _, d). d) r) pss)"

text \<open>Two ranks in step: the same configuration and the same state up to the clock.\<close>

definition in_step :: "prefill_delayer \<Rightarrow> prefill_delayer \<Rightarrow> bool" where
  "in_step d e \<longleftrightarrow> map_option delayed_count (curr_state e) = map_option delayed_count (curr_state d) \<and>
     e\<lparr>curr_state := None\<rparr> = d\<lparr>curr_state := None\<rparr>"

lemma in_step_fields:
  assumes "in_step d e"
  shows "max_delay_passes e = max_delay_passes d" "queue_min_ratio e = queue_min_ratio d"
    "pd_dp_size e = pd_dp_size d" "enable_dp_attention e = enable_dp_attention d"
    "skip_first_delayer e = skip_first_delayer d" "waited e = waited d"
    "curr_state e = None \<longleftrightarrow> curr_state d = None"
proof -
  have c: "map_option delayed_count (curr_state e) = map_option delayed_count (curr_state d)"
    and r: "e\<lparr>curr_state := None\<rparr> = d\<lparr>curr_state := None\<rparr>" using assms by (simp_all add: in_step_def)
  show "max_delay_passes e = max_delay_passes d" using arg_cong[OF r, of max_delay_passes] by simp
  show "queue_min_ratio e = queue_min_ratio d" using arg_cong[OF r, of queue_min_ratio] by simp
  show "pd_dp_size e = pd_dp_size d" using arg_cong[OF r, of pd_dp_size] by simp
  show "enable_dp_attention e = enable_dp_attention d" using arg_cong[OF r, of enable_dp_attention] by simp
  show "skip_first_delayer e = skip_first_delayer d" using arg_cong[OF r, of skip_first_delayer] by simp
  show "waited e = waited d" "curr_state e = None \<longleftrightarrow> curr_state d = None"
    using c by (cases "curr_state d"; cases "curr_state e"; simp add: waited_def)+
qed

lemma in_step_update:
  assumes "in_step d e" and "map_option delayed_count s' = map_option delayed_count s"
  shows "in_step (d\<lparr>curr_state := s, skip_first_delayer := b\<rparr>) (e\<lparr>curr_state := s', skip_first_delayer := b\<rparr>)"
proof -
  have r: "e\<lparr>curr_state := None\<rparr> = d\<lparr>curr_state := None\<rparr>" using assms(1) by (simp add: in_step_def)
  have "e\<lparr>curr_state := None\<rparr>\<lparr>skip_first_delayer := b\<rparr> = d\<lparr>curr_state := None\<rparr>\<lparr>skip_first_delayer := b\<rparr>"
    by (simp only: r)
  then show ?thesis using assms(2) by (cases d; cases e) (simp add: in_step_def)
qed

lemma delay_outputs_agree:
  assumes "map_option delayed_count s' = map_option delayed_count s"
  shows "map_option delayed_count (next_state (delay_output rows now' s')) = map_option delayed_count (next_state (delay_output rows now s))"
  using assms by (cases s; cases s') (auto simp: delay_output_def make_output_def bump_delayed_count_def new_delay_state_def)

definition same_decision :: "negotiate_output \<Rightarrow> negotiate_output \<Rightarrow> bool" where
  "same_decision o1 o2 \<longleftrightarrow> output_allow o2 = output_allow o1 \<and> out_reason o2 = out_reason o1 \<and>
     input_estimation o2 = input_estimation o1"

lemma negotiate_agrees:
  assumes s: "in_step d e" and q: "queue_min_ratio d = None"
    and n: "negotiate d rows now mr = (o1, d')" "negotiate e rows now' mr = (o2, e')"
  shows "same_decision o1 o2 \<and> in_step d' e' \<and> queue_min_ratio d' = None"
proof -
  note f = in_step_fields[OF s]
  have qc: "queue_condition d rows now p = False" "queue_condition e rows now' p = False" for p
    using q f(2) by (simp_all add: queue_condition_def)
  have sc: "slot_condition e rows mr = slot_condition d rows mr" using f(3,4) by (simp add: slot_condition_def)
  have c: "map_option delayed_count (curr_state e) = map_option delayed_count (curr_state d)" using s by (simp add: in_step_def)
  obtain p1 b1 where n1: "negotiate_pure d rows now mr (curr_state d) = (p1, b1)" by fastforce
  obtain p2 b2 where n2: "negotiate_pure e rows now' mr (curr_state e) = (p2, b2)" by fastforce
  have w: "(case curr_state e of None \<Rightarrow> 0 | Some s \<Rightarrow> delayed_count s) = (case curr_state d of None \<Rightarrow> 0 | Some s \<Rightarrow> delayed_count s)"
    using f(6) by (simp add: waited_def)
  have "same_decision p1 p2 \<and> b2 = b1 \<and> map_option delayed_count (next_state p2) = map_option delayed_count (next_state p1)"
  proof (cases "p1 = delay_output rows now (curr_state d) \<and> p2 = delay_output rows now' (curr_state e)")
    case True
    then have "same_decision p1 p2" by (simp add: same_decision_def delay_output_def make_output_def)
    moreover have "b2 = b1"
      using n1 n2 f(5) unfolding negotiate_pure_def qc sc w Let_def by (auto split: if_splits prefillable_status.splits)
    ultimately show ?thesis using True delay_outputs_agree[OF c] by simp
  next
    case False
    then show ?thesis
      using n1 n2 f(1,5,7) unfolding negotiate_pure_def qc sc w Let_def
      by (auto simp: same_decision_def make_output_def split: if_splits prefillable_status.splits)
  qed
  moreover have "o1 = p1" "o2 = p2" "d' = d\<lparr>curr_state := next_state p1, skip_first_delayer := b1\<rparr>"
    "e' = e\<lparr>curr_state := next_state p2, skip_first_delayer := b2\<rparr>"
    using n n1 n2 by (auto simp: negotiate_def)
  ultimately show ?thesis using in_step_update[OF s] q by simp
qed

text \<open>Only the first call of a pass counts, and \<open>max_running_requests\<close> matters only when all ranks can prefill.\<close>

lemma adder_pass_kept:
  "\<exists>oks. adder_pass (Some out) d rows now mr calls = (oks, Some out, d) \<and> set oks \<subseteq> {output_allow out}"
  by (induction calls) (auto simp: pass_negotiate_def Let_def split: prod.splits)

lemma run_pass_first:
  assumes n: "negotiate d rows now (if calls = [] then 0 else mr) = (out, d')"
  shows "\<exists>oks. run_pass d rows now mr calls = (oks, out, d') \<and> set oks \<subseteq> {output_allow out}"
proof (cases calls)
  case Nil
  then show ?thesis using n by (simp add: run_pass_def pass_finalize_def)
next
  case (Cons a rest)
  from adder_pass_kept[of out d' rows now mr rest] obtain oks where
    "adder_pass (Some out) d' rows now mr rest = (oks, Some out, d')" "set oks \<subseteq> {output_allow out}" by blast
  then show ?thesis using n Cons by (auto simp: run_pass_def pass_finalize_def pass_negotiate_def Let_def)
qed

lemma negotiate_any_limit:
  assumes "prefill_status rows \<noteq> All_prefillable"
  shows "negotiate d rows now mr = negotiate d rows now mr'"
  using assms by (cases "prefill_status rows") (simp_all add: negotiate_def negotiate_pure_def)

lemma finalizing_rank:
  assumes "pass_info d usage mr [] \<in> set rows"
  shows "prefill_status rows \<noteq> All_prefillable"
proof -
  have "ri_prefillable (pass_info d usage mr []) = 0" by (simp add: pass_info_def local_info_def default_args_def)
  then have "0 \<in> set (map ri_prefillable rows)" using assms by (metis image_eqI image_set)
  then have "Min (set (map ri_prefillable rows)) \<le> 0" by (intro Min_le) simp_all
  then show ?thesis by (simp add: prefill_status_def)
qed

text \<open>C23: When the queue trigger is off (\<open>queue_min_ratio\<close> unset; its timeout reads the rank's own clock), all ranks
  take the same decision in every scheduling pass.  They start with the same configuration; in each pass a rank
  may try any requests, ones that ignore EOS included, or none, with any token usage, load, queue and
  clock.  Still every call on every rank, the later ones with default arguments and the one of \<open>finalize\<close>
  included, gets the same answer, to prefill or to delay, for the same reason, over any number of passes.\<close>

theorem ranks_decide_alike:
  assumes "\<forall>ps \<in> set pss. length ps = k" and "queue_min_ratio d = None"
    and "outs \<in> set (negotiate_rounds mr (replicate k d) pss)" and "i < k" and "j < k"
  shows "output_allow (snd (outs ! i)) = output_allow (snd (outs ! j)) \<and> out_reason (snd (outs ! i)) = out_reason (snd (outs ! j)) \<and>
    (\<forall>answer \<in> set (fst (outs ! i)). answer = output_allow (snd (outs ! j)))"
proof -
  have "same_decision (snd (outs ! i)) (snd (outs ! j)) \<and> set (fst (outs ! i)) \<subseteq> {output_allow (snd (outs ! i))}"
    if "\<forall>a < k. \<forall>b < k. in_step (ds ! a) (ds ! b)" "\<forall>a < k. queue_min_ratio (ds ! a) = None" "length ds = k"
      "outs \<in> set (negotiate_rounds mr ds pss)" "\<forall>ps \<in> set pss. length ps = k" for ds
    using that
  proof (induction pss arbitrary: ds)
    case (Cons ps pss)
    let ?rows = "map2 (\<lambda>d (usage, _, calls). pass_info d usage mr calls) ds ps"
    let ?r = "negotiate_round mr ds ps" and ?calls = "\<lambda>a. snd (snd (ps ! a))" and ?now = "\<lambda>a. fst (snd (ps ! a))"
    let ?n = "\<lambda>a. negotiate (ds ! a) ?rows (?now a) mr"
    have lx: "length ps = k" using Cons.prems(5) by simp
    have lr: "length ?r = k" using lx Cons.prems(3) by (simp add: negotiate_round_def Let_def)
    have at: "\<exists>oks. ?r ! a = (oks, fst (?n a), snd (?n a)) \<and> set oks \<subseteq> {output_allow (fst (?n a))}" if a: "a < k" for a
    proof -
      have e: "?r ! a = run_pass (ds ! a) ?rows (?now a) mr (?calls a)"
        using a lx Cons.prems(3) by (simp add: negotiate_round_def Let_def case_prod_beta)
      have "negotiate (ds ! a) ?rows (?now a) (if ?calls a = [] then 0 else mr) = ?n a"
      proof (cases "?calls a = []")
        case True
        have "?rows ! a = pass_info (ds ! a) (fst (ps ! a)) mr []"
          using a lx Cons.prems(3) True by (simp add: case_prod_beta)
        moreover have "?rows ! a \<in> set ?rows" using a lx Cons.prems(3) by (intro nth_mem) simp
        ultimately have "prefill_status ?rows \<noteq> All_prefillable" by (metis finalizing_rank)
        then show ?thesis by (rule negotiate_any_limit)
      qed simp
      then have "negotiate (ds ! a) ?rows (?now a) (if ?calls a = [] then 0 else mr) = (fst (?n a), snd (?n a))" by simp
      from run_pass_first[OF this] show ?thesis unfolding e .
    qed
    have ag: "same_decision (fst (?n a)) (fst (?n b)) \<and> in_step (snd (?n a)) (snd (?n b)) \<and> queue_min_ratio (snd (?n a)) = None"
      if "a < k" "b < k" for a b
      by (rule negotiate_agrees[of "ds ! a" "ds ! b" ?rows "?now a" mr _ _ "?now b"]) (use Cons.prems(1,2) that in \<open>auto\<close>)
    have out: "snd (map (\<lambda>(oks, out, _). (oks, out)) ?r ! a) = fst (?n a)" "(map (\<lambda>(_, _, d). d) ?r) ! a = snd (?n a)"
      "set (fst (map (\<lambda>(oks, out, _). (oks, out)) ?r ! a)) \<subseteq> {output_allow (fst (?n a))}" if "a < k" for a
      using at[OF that] lr that by (auto simp: case_prod_beta)
    from Cons.prems(4) consider "outs = map (\<lambda>(oks, out, _). (oks, out)) ?r"
      | "outs \<in> set (negotiate_rounds mr (map (\<lambda>(_, _, d). d) ?r) pss)" by (auto simp: Let_def)
    then show ?case
    proof cases
      case 1
      then show ?thesis using ag[OF assms(4,5)] out[OF assms(4)] out[OF assms(5)] by simp
    next
      case 2
      show ?thesis by (rule Cons.IH[OF _ _ _ 2]) (use ag out lr Cons.prems(5) in auto)
    qed
  qed simp
  from this[of "replicate k d"] assms show ?thesis by (auto simp: in_step_def same_decision_def)
qed

text \<open>One rank tries a request that ignores EOS, the other has none: both wait.\<close>

definition demo_passes :: "rank_pass list" where
  "demo_passes = [(1/2, 0, [\<lparr>ac_running_batch = 3, ac_max_prefill_bs = 4, ac_waiting_queue_len = 2, ac_ignore_eos = True\<rparr>]), (1/2, 1, [])]"

lemma ranks_decide_alike_witness:
  "\<exists>outs. negotiate_rounds 8 (replicate 2 (delayer_init 2 3 None None None True)) [demo_passes] = [outs] \<and>
     map (\<lambda>(oks, out). (oks, output_allow out)) outs = [([False], False), ([], False)] \<and>
     out_reason (snd (outs ! 0)) = out_reason (snd (outs ! 1)) \<and>
     (\<forall>answer \<in> set (fst (outs ! 0)). answer = output_allow (snd (outs ! 1)))"
proof -
  let ?d = "delayer_init 2 3 None None None True"
  obtain outs where o: "negotiate_rounds 8 (replicate 2 ?d) [demo_passes] = [outs]" by (simp add: Let_def)
  have a: "\<forall>ps \<in> set [demo_passes]. length ps = 2" by (simp add: demo_passes_def)
  have q: "queue_min_ratio ?d = None" by (simp add: delayer_init_def)
  have m: "outs \<in> set (negotiate_rounds 8 (replicate 2 ?d) [demo_passes])" unfolding o by simp
  have v: "map (\<lambda>(oks, out). (oks, output_allow out)) outs = [([False], False), ([], False)]"
    using o by (auto simp: demo_passes_def negotiate_round_def run_pass_def pass_negotiate_def pass_finalize_def negotiate_def negotiate_pure_def
        pass_info_def local_info_def default_args_def add_one_req_args_def prefill_status_def watermark_force_allow_def delay_output_def
        make_output_def delayer_init_def numeral_2_eq_2 Let_def)
  show ?thesis using o v ranks_decide_alike[OF a q m, of 0 1] by (intro exI[of _ outs]) simp
qed

section \<open>Skipping receives\<close>

datatype forward_mode = Mode_decode | Mode_target_verify | Mode_none | Mode_other

record recv_skipper =
  rs_counter :: int
  rs_threshold :: int
  weight_default :: int
  weight_decode :: int
  weight_target_verify :: int
  weight_none :: int

definition mode_weight :: "recv_skipper \<Rightarrow> forward_mode \<Rightarrow> int" where
  "mode_weight s md = (case md of Mode_decode \<Rightarrow> weight_decode s | Mode_target_verify \<Rightarrow> weight_target_verify s
     | Mode_none \<Rightarrow> weight_none s | Mode_other \<Rightarrow> weight_default s)"

definition skipper_handle :: "recv_skipper \<Rightarrow> forward_mode \<Rightarrow> bool \<times> recv_skipper" where
  "skipper_handle s md =
     (let s = s\<lparr>rs_counter := rs_counter s + mode_weight s md\<rparr>
      in if rs_counter s \<ge> rs_threshold s then (True, s\<lparr>rs_counter := 0\<rparr>) else (False, s))"

fun skipper_run :: "recv_skipper \<Rightarrow> forward_mode list \<Rightarrow> bool list \<times> recv_skipper" where
  "skipper_run s [] = ([], s)"
| "skipper_run s (md # mds) =
     (let (r, s) = skipper_handle s md; (rs, s) = skipper_run s mds in (r # rs, s))"

lemma skipper_run_append:
  "skipper_run s (xs @ ys) = (let (r1, s) = skipper_run s xs; (r2, s) = skipper_run s ys in (r1 @ r2, s))"
  by (induction xs arbitrary: s) (auto simp: Let_def split: prod.splits)

lemma skipper_run_length [simp]: "length (fst (skipper_run s mds)) = length mds"
  by (induction mds arbitrary: s) (simp_all add: Let_def case_prod_beta)

lemma skipper_run_options:
  "rs_threshold (snd (skipper_run s mds)) = rs_threshold s \<and> mode_weight (snd (skipper_run s mds)) = mode_weight s"
proof (induction mds arbitrary: s)
  case (Cons md mds)
  have "mode_weight (s\<lparr>rs_counter := k\<rparr>) = mode_weight s" for k by (rule ext) (simp add: mode_weight_def split: forward_mode.split)
  then have "rs_threshold (snd (skipper_handle s md)) = rs_threshold s \<and> mode_weight (snd (skipper_handle s md)) = mode_weight s"
    by (simp add: skipper_handle_def Let_def)
  then show ?case using Cons.IH[of "snd (skipper_handle s md)"] by (simp add: Let_def case_prod_beta)
qed simp

lemma skipper_run_silent:
  "\<forall>r \<in> set (fst (skipper_run s mds)). \<not> r \<Longrightarrow> rs_counter (snd (skipper_run s mds)) = rs_counter s + sum_list (map (mode_weight s) mds)"
proof (induction mds arbitrary: s)
  case (Cons md mds)
  let ?s = "s\<lparr>rs_counter := rs_counter s + mode_weight s md\<rparr>"
  have h: "skipper_handle s md = (False, ?s)"
    using Cons.prems by (auto simp: skipper_handle_def Let_def split: prod.splits if_splits)
  have w: "mode_weight ?s = mode_weight s" by (rule ext) (simp add: mode_weight_def split: forward_mode.split)
  have "\<forall>r \<in> set (fst (skipper_run ?s mds)). \<not> r" using Cons.prems h by (auto simp: Let_def split: prod.splits)
  from Cons.IH[OF this] show ?case unfolding w by (simp add: h Let_def case_prod_beta)
qed simp

text \<open>The decision after a silent run, and the counter after a receive.\<close>

lemma skipper_run_next:
  assumes "\<forall>r \<in> set (fst (skipper_run s mds)). \<not> r"
  shows "fst (skipper_run s (mds @ [md])) ! length mds \<longleftrightarrow> rs_threshold s \<le> rs_counter s + sum_list (map (mode_weight s) (mds @ [md]))"
  using skipper_run_silent[OF assms] skipper_run_options[of s mds]
  by (simp add: skipper_run_append Let_def case_prod_beta nth_append skipper_handle_def)

lemma skipper_run_received:
  "fst (skipper_run s (mds @ [md])) ! length mds \<Longrightarrow> rs_counter (snd (skipper_run s (mds @ [md]))) = 0"
  by (auto simp: skipper_run_append Let_def case_prod_beta nth_append skipper_handle_def split: if_splits)

lemma positive_weights:
  fixes f :: "'a \<Rightarrow> int"
  assumes "\<forall>x \<in> set xs. w \<le> f x"
  shows "int (length xs) * w \<le> sum_list (map f xs)"
  using assms by (induction xs) (auto simp: distrib_right)

text \<open>The scheduler never goes without receiving for long.  After a receive (the count starts again from 0), and at
  the start, the next receive comes exactly when the weights of the forward modes passed since reach the
  threshold.  So when every mode has a weight of at least \<open>w > 0\<close> (by default 1), at most
  \<open>threshold / w\<close> receives in a row are skipped: fewer than the threshold with the default weights.\<close>

theorem skipped_receives_bounded:
  assumes "j \<le> i" and "i < length mds" and "\<forall>k. j \<le> k \<and> k < i \<longrightarrow> \<not> fst (skipper_run s mds) ! k"
    and "j = 0 \<and> c = rs_counter s \<or> 0 < j \<and> fst (skipper_run s mds) ! (j - 1) \<and> c = 0"
  shows "(fst (skipper_run s mds) ! i \<longleftrightarrow> rs_threshold s \<le> c + sum_list (map (mode_weight s) (take (Suc i - j) (drop j mds)))) \<and>
    (0 \<le> c \<and> (\<forall>md. w \<le> mode_weight s md) \<and> \<not> fst (skipper_run s mds) ! i \<longrightarrow> int (Suc i - j) * w < rs_threshold s)"
proof -
  define t where "t = snd (skipper_run s (take j mds))"
  let ?ys = "take (i - j) (drop j mds)" and ?out = "fst (skipper_run s mds)"
  have jl: "j \<le> length mds" using assms(1,2) by simp
  have out: "?out = fst (skipper_run s (take j mds)) @ fst (skipper_run t (drop j mds))"
    using skipper_run_append[of s "take j mds" "drop j mds"] by (simp add: t_def Let_def case_prod_beta)
  have d: "drop j mds = (?ys @ [mds ! i]) @ drop (Suc i) mds"
    using assms(1,2) id_take_nth_drop[of "i - j" "drop j mds"] by simp
  have yl: "length ?ys = i - j" using assms(1,2) by simp
  have run: "fst (skipper_run t (drop j mds)) = fst (skipper_run t (?ys @ [mds ! i])) @ fst (skipper_run (snd (skipper_run t (?ys @ [mds ! i]))) (drop (Suc i) mds))"
    using arg_cong[OF d, of "\<lambda>xs. fst (skipper_run t xs)"] unfolding skipper_run_append[of t "?ys @ [mds ! i]"]
    by (simp only: Let_def case_prod_beta fst_conv snd_conv)
  have at: "?out ! (j + m) = fst (skipper_run t (?ys @ [mds ! i])) ! m" if "m \<le> i - j" for m
    unfolding out run using jl that yl by (simp add: nth_append)
  have "fst (skipper_run t ?ys) ! m = fst (skipper_run t (?ys @ [mds ! i])) ! m" if "m < i - j" for m
    using that yl by (simp add: skipper_run_append Let_def case_prod_beta nth_append)
  then have "\<not> fst (skipper_run t ?ys) ! m" if "m < i - j" for m using at[of m] assms(3) that by simp
  then have silent: "\<forall>r \<in> set (fst (skipper_run t ?ys)). \<not> r" using yl by (auto simp: in_set_conv_nth)
  have tc: "rs_counter t = c"
  proof (cases "j = 0")
    case False
    then obtain m where m: "j = Suc m" by (cases j) auto
    have mm: "take j mds = take m mds @ [mds ! m]" "length (take m mds) = m" using jl m by (simp_all add: take_Suc_conv_app_nth)
    have "fst (skipper_run s (take j mds)) ! m" using assms(4) m jl unfolding out by (simp add: nth_append)
    then have "fst (skipper_run s (take m mds @ [mds ! m])) ! length (take m mds)" unfolding mm(2) mm(1)[symmetric] .
    from skipper_run_received[OF this] show ?thesis unfolding t_def mm(1) using assms(4) False by simp
  qed (use assms(4) in \<open>simp add: t_def\<close>)
  have opt: "rs_threshold t = rs_threshold s" "mode_weight t = mode_weight s" using skipper_run_options[of s "take j mds"] by (simp_all add: t_def)
  have seg: "?ys @ [mds ! i] = take (Suc i - j) (drop j mds)" using assms(1,2) by (simp add: Suc_diff_le take_Suc_conv_app_nth)
  have iff: "?out ! i \<longleftrightarrow> rs_threshold s \<le> c + sum_list (map (mode_weight s) (take (Suc i - j) (drop j mds)))"
    using skipper_run_next[OF silent, of "mds ! i"] at[of "i - j"] assms(1) yl unfolding seg opt tc by simp
  moreover have "int (Suc i - j) * w < rs_threshold s" if "0 \<le> c" "\<forall>md. w \<le> mode_weight s md" "\<not> ?out ! i"
  proof -
    have l: "length (take (Suc i - j) (drop j mds)) = Suc i - j" using assms(1,2) by simp
    have "int (Suc i - j) * w \<le> sum_list (map (mode_weight s) (take (Suc i - j) (drop j mds)))"
      using positive_weights[of "take (Suc i - j) (drop j mds)" w "mode_weight s"] that(2) unfolding l by blast
    then show ?thesis using that(1,3) iff by linarith
  qed
  ultimately show ?thesis by blast
qed

definition demo_skipper :: recv_skipper where
  "demo_skipper = \<lparr>rs_counter = 0, rs_threshold = 3, weight_default = 1000, weight_decode = 1, weight_target_verify = 1, weight_none = 1\<rparr>"

lemma skipped_receives_bounded_witness:
  "fst (skipper_run demo_skipper (replicate 6 Mode_decode)) = [False, False, True, False, False, True] \<and>
   int (Suc 4 - 3) * 1 < rs_threshold demo_skipper"
proof -
  have r: "fst (skipper_run demo_skipper (replicate 6 Mode_decode)) = [False, False, True, False, False, True]"
    by (simp add: demo_skipper_def numeral_eq_Suc skipper_handle_def mode_weight_def)
  have p: "\<forall>md. 1 \<le> mode_weight demo_skipper md" by (simp add: mode_weight_def demo_skipper_def split: forward_mode.split)
  have k: "\<forall>k. 3 \<le> k \<and> k < 4 \<longrightarrow> \<not> fst (skipper_run demo_skipper (replicate 6 Mode_decode)) ! k"
  proof (intro allI impI)
    fix k :: nat assume "3 \<le> k \<and> k < 4"
    then have "k = 3" by simp
    then show "\<not> fst (skipper_run demo_skipper (replicate 6 Mode_decode)) ! k" unfolding r by simp
  qed
  have "int (Suc 4 - 3) * 1 < rs_threshold demo_skipper"
    using skipped_receives_bounded[OF _ _ k, of 0 1, unfolded r] p by (simp add: numeral_eq_Suc)
  with r show ?thesis by blast
qed

end
