(* ===== verification/PrefillAdder.thy ===== *)
theory PrefillAdder
  imports TokenSlots PrefillDelayer
begin

text \<open>
  Admitting waiting requests to a prefill batch (class \<open>PrefillAdder\<close> of
  \<open>managers/schedule_policy.py\<close>), on a radix cache with a plain allocator: no sliding-window or mamba
  pool and no diffusion model, so the branches for those are absent.  The tree cache and allocator
  are the state of the theory \<open>RadixTree\<close>.  Parameters: \<open>load_back\<close>, the cache's \<open>init_load_back\<close>,
  used only for requests with a host hit; the answer of the pass's prefill delayer, which is asked
  once and then fixed, is the field \<open>delayer_allows\<close>.  Floats are exact rationals.
\<close>

section \<open>Requests and the adder\<close>

datatype finish_reason = FINISH_MATCHED_TOKEN int | FINISH_MATCHED_STR string | FINISHED_MATCHED_REGEX string |
  FINISH_LENGTH int | FINISH_ABORT string

text \<open>\<open>tokenizer\<close> holds the end-of-sequence token and the additional stop tokens of the tokenizer.\<close>

record sched_req = request +
  rid :: string
  extend_input_len :: int
  max_new_tokens :: int
  ignore_eos :: bool
  host_hit_length :: int
  retracted_stain :: bool
  finished_reason :: "finish_reason option"
  routing_key :: "string option"
  wait_queue_entry_time :: rat
  return_logprob :: bool
  logprob_start_len :: int
  extend_logprob_start_len :: int
  has_embed_overrides :: bool
  to_finish :: "finish_reason option"
  finished_len :: "int option"
  eos_token_ids :: "int list"
  stop_token_ids :: "int list"
  tokenizer :: "(int \<times> int list) option"
  vocab_size :: int
  stop_strs :: "string list"
  stop_regex_strs :: "string list"
  stop_str_max_len :: int
  stop_regex_max_len :: int
  decoded_text :: string
  require_reasoning :: bool
  is_reasoning_over :: bool

definition set_extend_input_len :: "int \<Rightarrow> sched_req \<Rightarrow> sched_req" where
  "set_extend_input_len n r =
     (let start = (if logprob_start_len r = -1 then int (length (fill_ids r))
                   else max (logprob_start_len r) (int (length (prefix_indices r))))
      in r\<lparr>extend_input_len := n,
           extend_logprob_start_len := min (start - int (length (prefix_indices r))) n\<rparr>)"

text \<open>At least one token is left to compute, so that there are logits.\<close>

definition compute_max_prefix_len :: "sched_req \<Rightarrow> int \<Rightarrow> int" where
  "compute_max_prefix_len r input_len =
     (let m = input_len - 1;
          m = (if return_logprob r \<and> logprob_start_len r \<ge> 0 then min m (logprob_start_len r) else m)
      in max m 0)"

definition init_next_round_input :: "sched_req \<Rightarrow> radix_cache \<Rightarrow> (sched_req \<times> radix_cache) option" where
  "init_next_round_input r c = do {
     let r = r\<lparr>fill_ids := origin_input_ids r @ output_ids r\<rparr>;
     let ids = slice_to (fill_ids r) (compute_max_prefix_len r (int (length (fill_ids r))));
     let ids = (if has_embed_overrides r then [] else ids);
     ((slots, n), c) \<leftarrow> match_prefix (RadixKey ids (req_extra_key r) False) c;
     let r = r\<lparr>prefix_indices := slots, last_node := Some n, host_hit_length := 0,
               cache_protected_len := int (length slots)\<rparr>;
     Some (set_extend_input_len (int (length (fill_ids r)) - int (length (prefix_indices r))) r, c)
   }"

datatype add_req_result = CONTINUE | NO_TOKEN | OTHER

record prefill_adder =
  pa_page_size :: int
  clip_max_new_tokens :: int
  running_reqs :: "sched_req list option"
  new_token_ratio :: rat
  rem_input_tokens :: int
  rem_chunk_tokens :: "int option"
  rem_total_token_offset :: rat
  cur_rem_token_offset :: int
  req_states :: "(rat \<times> int) list option"
  can_run_list :: "sched_req list"
  preempt_list :: "sched_req list"
  new_chunked_req :: "sched_req option"
  log_hit_tokens :: int
  log_input_tokens :: int
  reprocessed_log_hit_tokens :: int
  reprocessed_log_input_tokens :: int
  cp_in_seq_split :: bool
  prefill_max_requests :: "nat option"
  delayer_allows :: bool
  preemption_threshold :: int

definition running_token_offset :: "int \<Rightarrow> rat \<Rightarrow> sched_req \<Rightarrow> rat" where
  "running_token_offset clip ratio r =
     of_int (min (max_new_tokens r - int (length (output_ids r))) clip) * ratio"

definition adder_init :: "int \<Rightarrow> int \<Rightarrow> sched_req list option \<Rightarrow> rat \<Rightarrow> int \<Rightarrow> int option \<Rightarrow> int \<Rightarrow> int \<Rightarrow>
    nat option \<Rightarrow> bool \<Rightarrow> bool \<Rightarrow> prefill_adder" where
  "adder_init page_size clip running ratio rem_input rem_chunk num_mixed_decode_tokens threshold max_reqs cp allows =
     \<lparr>pa_page_size = page_size, clip_max_new_tokens = clip, running_reqs = running, new_token_ratio = ratio,
      rem_input_tokens = rem_input - num_mixed_decode_tokens,
      rem_chunk_tokens = map_option (\<lambda>x. x - num_mixed_decode_tokens) rem_chunk,
      rem_total_token_offset = of_int num_mixed_decode_tokens +
        (case running of None \<Rightarrow> 0 | Some rs \<Rightarrow> sum_list (map (running_token_offset clip ratio) rs)),
      cur_rem_token_offset = num_mixed_decode_tokens, req_states = None, can_run_list = [],
      preempt_list = [], new_chunked_req = None, log_hit_tokens = 0, log_input_tokens = 0,
      reprocessed_log_hit_tokens = 0, reprocessed_log_input_tokens = 0, cp_in_seq_split = cp,
      prefill_max_requests = max_reqs, delayer_allows = allows, preemption_threshold = threshold\<rparr>"

section \<open>The budget\<close>

definition rem_total_tokens :: "prefill_adder \<Rightarrow> radix_cache \<Rightarrow> rat" where
  "rem_total_tokens p c = of_int (kv_budget c) - rem_total_token_offset p"

definition cur_rem_tokens :: "prefill_adder \<Rightarrow> radix_cache \<Rightarrow> int" where
  "cur_rem_tokens p c = kv_budget c - cur_rem_token_offset p"

definition ceil_paged_tokens :: "prefill_adder \<Rightarrow> int \<Rightarrow> int" where
  "ceil_paged_tokens p tokens = - ((- tokens) div pa_page_size p) * pa_page_size p"

definition budget_state :: "prefill_adder \<Rightarrow> radix_cache \<Rightarrow> add_req_result" where
  "budget_state p c =
     (if rem_total_tokens p c \<le> 0 \<or> cur_rem_tokens p c \<le> 0 then NO_TOKEN
      else if rem_input_tokens p \<le> 0 then OTHER
      else (case rem_chunk_tokens p of Some x \<Rightarrow> if x \<le> 0 then OTHER else CONTINUE | None \<Rightarrow> CONTINUE))"

definition update_prefill_budget :: "int \<Rightarrow> int \<Rightarrow> int \<Rightarrow> bool \<Rightarrow> prefill_adder \<Rightarrow> prefill_adder" where
  "update_prefill_budget prefix_len input_len max_new retracted p =
     (let input_len = ceil_paged_tokens p input_len;
          page_overhead = pa_page_size p
      in p\<lparr>rem_total_token_offset := rem_total_token_offset p + of_int (input_len + max_new + page_overhead),
           cur_rem_token_offset := cur_rem_token_offset p + input_len + page_overhead,
           rem_input_tokens := rem_input_tokens p - input_len,
           rem_chunk_tokens := map_option (\<lambda>x. x - input_len) (rem_chunk_tokens p),
           log_hit_tokens := log_hit_tokens p + prefix_len,
           log_input_tokens := log_input_tokens p + input_len,
           reprocessed_log_hit_tokens := reprocessed_log_hit_tokens p + (if retracted then prefix_len else 0),
           reprocessed_log_input_tokens := reprocessed_log_input_tokens p + (if retracted then input_len else 0)\<rparr>)"

definition append_can_run :: "sched_req \<Rightarrow> prefill_adder \<Rightarrow> prefill_adder" where
  "append_can_run r p = p\<lparr>can_run_list := can_run_list p @ [r]\<rparr>"

section \<open>Continuing a chunked request\<close>

text \<open>The request is returned when its prefill is still not complete.\<close>

definition add_chunked_req :: "sched_req \<Rightarrow> prefill_adder \<Rightarrow> radix_cache \<Rightarrow> (sched_req option \<times> sched_req \<times> prefill_adder) option" where
  "add_chunked_req r p c =
     (case rem_chunk_tokens p of None \<Rightarrow> None
      | Some chunk \<Rightarrow>
          let rem = min chunk (trunc_rat (rem_total_tokens p c));
              rem = (if rem \<le> 0 then chunk else rem);
              truncated = extend_input_len r > rem;
              r = set_extend_input_len (min (extend_input_len r) rem) r;
              r = r\<lparr>fill_ids := slice_to (fill_ids r) (int (length (prefix_indices r)) + extend_input_len r)\<rparr>;
              p = append_can_run r p;
              p = update_prefill_budget 0 (extend_input_len r)
                    (if truncated then 0 else min (max_new_tokens r) (clip_max_new_tokens p)) (retracted_stain r) p
          in Some (if truncated then Some r else None, r, p))"

section \<open>Requests that ignore the end of sequence\<close>

definition IGNORE_EOS_RESERVE_TOKENS :: int where
  "IGNORE_EOS_RESERVE_TOKENS = 1"

definition req_state_of :: "prefill_adder \<Rightarrow> sched_req \<Rightarrow> (rat \<times> int) option" where
  "req_state_of p r =
     (let ratio = (if ignore_eos r then 1 else new_token_ratio p);
          tokens_left = of_int (max_new_tokens r) * ratio - of_nat (length (output_ids r));
          tokens_occupied = int (length (origin_input_ids r)) + int (length (output_ids r))
      in if tokens_left \<le> 0 then None else Some (tokens_left, tokens_occupied))"

text \<open>
  The insertion of \<open>add_req_state(req, insert_sort=True)\<close>: the loop variable \<open>i\<close> stops at the first entry
  that is not smaller and otherwise keeps the last index it had.
\<close>

fun insert_index :: "rat \<Rightarrow> (rat \<times> int) list \<Rightarrow> nat \<Rightarrow> nat" where
  "insert_index t [] i = i"
| "insert_index t (s # ss) i = (if t \<le> fst s then i else if ss = [] then i else insert_index t ss (Suc i))"

definition insert_req_state :: "rat \<times> int \<Rightarrow> (rat \<times> int) list \<Rightarrow> (rat \<times> int) list" where
  "insert_req_state s ss = (let i = insert_index (fst s) ss 0 in take i ss @ [s] @ drop i ss)"

definition init_req_states :: "prefill_adder \<Rightarrow> sched_req \<Rightarrow> (rat \<times> int) list" where
  "init_req_states p r = sort_key fst (List.map_filter (req_state_of p)
     ([r] @ (case running_reqs p of None \<Rightarrow> [] | Some rs \<Rightarrow> rs) @ can_run_list p))"

text \<open>The simulated decoding: when entry \<open>i\<close> finishes, the later ones still run and its tokens are freed.\<close>

fun enough_tokens :: "rat \<Rightarrow> rat \<Rightarrow> (rat \<times> int) list \<Rightarrow> bool" where
  "enough_tokens cur_rem freed [] = True"
| "enough_tokens cur_rem freed ((tokens_left, tokens_occupied) # ss) =
     (let bs = of_nat (Suc (length ss)) in
      if cur_rem + freed - tokens_left * bs \<le> of_int IGNORE_EOS_RESERVE_TOKENS * bs then False
      else enough_tokens cur_rem (freed + of_int tokens_occupied) ss)"

definition add_one_req_ignore_eos :: "sched_req \<Rightarrow> prefill_adder \<Rightarrow> radix_cache \<Rightarrow> add_req_result \<times> sched_req \<times> prefill_adder" where
  "add_one_req_ignore_eos r p c =
     (if of_int (ceil_paged_tokens p (extend_input_len r)) > min (of_int (cur_rem_tokens p c)) (rem_total_tokens p c)
      then (NO_TOKEN, r, p)
      else
        let p = (case req_states p of
                   None \<Rightarrow> p\<lparr>req_states := Some (init_req_states p r)\<rparr>
                 | Some ss \<Rightarrow> (case req_state_of p r of None \<Rightarrow> p
                     | Some s \<Rightarrow> p\<lparr>req_states := Some (insert_req_state s ss)\<rparr>));
            cur_rem = of_int (cur_rem_tokens p c - ceil_paged_tokens p (extend_input_len r))
        in if \<not> enough_tokens cur_rem 0 (the (req_states p)) then (NO_TOKEN, r, p)
           else if \<not> delayer_allows p then (OTHER, r, p)
           else if (case rem_chunk_tokens p of None \<Rightarrow> True | Some x \<Rightarrow> extend_input_len r \<le> x) then
             let p = append_can_run r p;
                 p = update_prefill_budget 0 (extend_input_len r)
                       (min (max_new_tokens r) (clip_max_new_tokens p)) (retracted_stain r) p
             in (budget_state p c, r, p)
           else
             let trunc_len = the (rem_chunk_tokens p)
             in if trunc_len \<le> 0 then (OTHER, r, p)
                else
                  let r = set_extend_input_len trunc_len r;
                      r = r\<lparr>fill_ids := slice_to (fill_ids r) trunc_len\<rparr>;
                      p = (append_can_run r p)\<lparr>new_chunked_req := Some r\<rparr>;
                      p = update_prefill_budget 0 trunc_len 0 (retracted_stain r) p
                  in (budget_state p c, r, p))"

section \<open>Admitting a request\<close>

text \<open>
  The length of a truncated chunk: whole pages of what is left of the chunk budget, aligned to the
  attention split size when one is given, and such that the whole prefix ends on a page.
\<close>

definition chunk_trunc_len :: "prefill_adder \<Rightarrow> sched_req \<Rightarrow> int \<Rightarrow> int option \<Rightarrow> int option" where
  "chunk_trunc_len p r chunk align =
     (let ps = pa_page_size p;
          t = chunk div ps * ps
      in if t \<le> 0 then None
         else
           (case (case align of None \<Rightarrow> Some t | Some al \<Rightarrow> if t < al then None else Some (al * (t div al))) of
              None \<Rightarrow> None
            | Some t \<Rightarrow>
                let prefix_len = int (length (prefix_indices r));
                    t = (t + prefix_len) div ps * ps - prefix_len
                in if t \<le> 0 then None else Some t))"

text \<open>
  The body of the \<open>with\<close> block, entered with the request's node locked: \<open>Inl\<close> is an early return,
  \<open>Inr\<close> continues to the final \<open>budget_state\<close>.
\<close>

definition admit_locked ::
  "(radix_cache \<Rightarrow> sched_req \<Rightarrow> (int list \<times> nid \<times> radix_cache) option) \<Rightarrow> sched_req \<Rightarrow> int option \<Rightarrow> int \<Rightarrow> int \<Rightarrow>
   prefill_adder \<Rightarrow> radix_cache \<Rightarrow> ((add_req_result + unit) \<times> sched_req \<times> prefill_adder \<times> radix_cache) option" where
  "admit_locked load_back r align total_tokens prefix_len p c =
     (if of_int total_tokens \<ge> rem_total_tokens p c then Some (Inl NO_TOKEN, r, p, c)
      else do {
        (r, prefix_len, c) \<leftarrow>
          (if host_hit_length r > 0 then do {
             (new_indices, n, c) \<leftarrow> load_back c r;
             let r = r\<lparr>last_node := Some n, prefix_indices := prefix_indices r @ new_indices\<rparr>;
             let r = set_extend_input_len (int (length (fill_ids r)) - int (length (prefix_indices r))) r;
             Some (r\<lparr>cache_protected_len := int (length (prefix_indices r))\<rparr>, int (length (prefix_indices r)), c)
           } else Some (r, prefix_len, c));
        let input_tokens = ceil_paged_tokens p (extend_input_len r);
        if rem_chunk_tokens p = None \<and> can_run_list p \<noteq> [] \<and> input_tokens \<ge> rem_input_tokens p
        then Some (Inl OTHER, r, p, c)
        else if (case rem_chunk_tokens p of None \<Rightarrow> True | Some x \<Rightarrow> input_tokens \<le> x) then do {
          n \<leftarrow> last_node r;
          (_, c) \<leftarrow> inc_lock_ref n c;
          let p = append_can_run r p;
          let p = update_prefill_budget prefix_len input_tokens (min (max_new_tokens r) (clip_max_new_tokens p)) (retracted_stain r) p;
          Some (Inr (), r, p, c)
        } else
          (case chunk_trunc_len p r (the (rem_chunk_tokens p)) align of
             None \<Rightarrow> Some (Inl OTHER, r, p, c)
           | Some trunc_len \<Rightarrow> do {
               let r = set_extend_input_len trunc_len r;
               let r = r\<lparr>fill_ids := slice_to (fill_ids r) (int (length (prefix_indices r)) + trunc_len)\<rparr>;
               n \<leftarrow> last_node r;
               (_, c) \<leftarrow> inc_lock_ref n c;
               let p = (append_can_run r p)\<lparr>new_chunked_req := Some r\<rparr>;
               let p = update_prefill_budget prefix_len trunc_len 0 (retracted_stain r) p;
               Some (Inr (), r, p, c)
             })
      })"

definition add_one_req ::
  "(radix_cache \<Rightarrow> sched_req \<Rightarrow> (int list \<times> nid \<times> radix_cache) option) \<Rightarrow> sched_req \<Rightarrow> int option \<Rightarrow>
   prefill_adder \<Rightarrow> radix_cache \<Rightarrow> (add_req_result \<times> sched_req \<times> prefill_adder \<times> radix_cache) option" where
  "add_one_req load_back r align p c =
     (if \<not> delayer_allows p then Some (OTHER, r, p, c)
      else if cp_in_seq_split p \<and> can_run_list p \<noteq> [] then Some (OTHER, r, p, c)
      else if (case prefill_max_requests p of None \<Rightarrow> False | Some x \<Rightarrow> length (can_run_list p) \<ge> x) then Some (OTHER, r, p, c)
      else if ignore_eos r \<and> rc_disable c then
        (case add_one_req_ignore_eos r p c of (res, r, p) \<Rightarrow> Some (res, r, p, c))
      else
        let max_new = min (max (max_new_tokens r - int (length (output_ids r))) 0) (clip_max_new_tokens p);
            total_tokens = extend_input_len r + max_new + pa_page_size p;
            real_input_tokens = ceil_paged_tokens p (extend_input_len r - host_hit_length r);
            prefix_len = int (length (prefix_indices r))
        in if of_int total_tokens \<ge> rem_total_tokens p c then Some (NO_TOKEN, r, p, c)
           else if rem_chunk_tokens p = None \<and> can_run_list p \<noteq> [] \<and> real_input_tokens \<ge> rem_input_tokens p
           then Some (OTHER, r, p, c)
           else do {
             n \<leftarrow> last_node r;
             (_, c) \<leftarrow> inc_lock_ref n c;
             (res, r, p, c) \<leftarrow> admit_locked load_back r align total_tokens prefix_len p c;
             (_, c) \<leftarrow> dec_lock_ref n c;
             Some (case res of Inl x \<Rightarrow> x | Inr _ \<Rightarrow> budget_state p c, r, p, c)
           })"

text \<open>
  The scheduler's loop over the waiting queue: match the request against the cache, try to admit it,
  stop at the first answer other than \<open>CONTINUE\<close>.
\<close>

fun add_reqs ::
  "(radix_cache \<Rightarrow> sched_req \<Rightarrow> (int list \<times> nid \<times> radix_cache) option) \<Rightarrow> sched_req list \<Rightarrow> int option \<Rightarrow>
   prefill_adder \<Rightarrow> radix_cache \<Rightarrow> (prefill_adder \<times> radix_cache) option" where
  "add_reqs lb [] align p c = Some (p, c)"
| "add_reqs lb (r # rs) align p c = do {
     (r, c) \<leftarrow> init_next_round_input r c;
     (res, r, p, c) \<leftarrow> add_one_req lb r align p c;
     if res = CONTINUE then add_reqs lb rs align p c else Some (p, c)
   }"

section \<open>The batch fits\<close>

definition batch_tokens :: "prefill_adder \<Rightarrow> int" where
  "batch_tokens p = sum_list (map extend_input_len (can_run_list p))"

text \<open>
  With pages of one token, the offset of the adder is what the admitted requests will allocate and
  one token more for each of them; once a request is admitted the cache's budget covers it.
\<close>

definition adder_ok :: "int \<Rightarrow> prefill_adder \<Rightarrow> radix_cache \<Rightarrow> bool" where
  "adder_ok mixed p c \<longleftrightarrow> pa_page_size p = 1 \<and> 0 \<le> clip_max_new_tokens p \<and>
     of_int (cur_rem_token_offset p) \<le> rem_total_token_offset p \<and>
     cur_rem_token_offset p = mixed + batch_tokens p + int (length (can_run_list p)) \<and>
     (\<forall>r \<in> set (can_run_list p). 0 \<le> extend_input_len r) \<and>
     (can_run_list p \<noteq> [] \<longrightarrow> cur_rem_token_offset p \<le> kv_budget c)"

lemma ceil_page_1: "pa_page_size p = 1 \<Longrightarrow> ceil_paged_tokens p n = n"
  by (simp add: ceil_paged_tokens_def)

lemma set_extend_fields [simp]:
  "extend_input_len (set_extend_input_len n r) = n" "last_node (set_extend_input_len n r) = last_node r"
  "max_new_tokens (set_extend_input_len n r) = max_new_tokens r"
  "prefix_indices (set_extend_input_len n r) = prefix_indices r"
  "host_hit_length (set_extend_input_len n r) = host_hit_length r"
  "ignore_eos (set_extend_input_len n r) = ignore_eos r"
  by (simp_all add: set_extend_input_len_def Let_def)

text \<open>A request cut to a chunk of \<open>t\<close> new tokens.\<close>

definition chunk_of :: "int \<Rightarrow> sched_req \<Rightarrow> sched_req" where
  "chunk_of t r = (set_extend_input_len t r)
     \<lparr>fill_ids := slice_to (fill_ids (set_extend_input_len t r)) (int (length (prefix_indices r)) + t)\<rparr>"

definition whole_or_chunk :: "sched_req \<Rightarrow> sched_req \<Rightarrow> bool" where
  "whole_or_chunk r r' \<longleftrightarrow> r' = r \<or> (\<exists>t. 0 < t \<and> t < extend_input_len r \<and> r' = chunk_of t r)"

lemma adder_ok_admit:
  assumes a: "adder_ok mixed p c0" and l: "0 \<le> l" "0 \<le> m" and e: "extend_input_len r = l"
    and f: "of_int (l + 1) < rem_total_tokens p c"
  shows "adder_ok mixed (update_prefill_budget k l m st (append_can_run r p)) c"
    and "adder_ok mixed (update_prefill_budget k l m st ((append_can_run r p)\<lparr>new_chunked_req := x\<rparr>)) c"
proof -
  have ps: "pa_page_size p = 1" using a by (simp add: adder_ok_def)
  have "of_int (cur_rem_token_offset p + l + 1) < (of_int (kv_budget c) :: rat)"
    using a f by (simp add: adder_ok_def rem_total_tokens_def)
  then have b: "cur_rem_token_offset p + l + 1 \<le> kv_budget c" by (simp only: of_int_less_iff)
  have ce: "ceil_paged_tokens (append_can_run r p) l = l" "ceil_paged_tokens ((append_can_run r p)\<lparr>new_chunked_req := x\<rparr>) l = l"
    by (simp_all add: ceil_page_1 ps append_can_run_def)
  show "adder_ok mixed (update_prefill_budget k l m st (append_can_run r p)) c"
    "adder_ok mixed (update_prefill_budget k l m st ((append_can_run r p)\<lparr>new_chunked_req := x\<rparr>)) c"
    using a b l e unfolding update_prefill_budget_def Let_def ce
    by (auto simp: adder_ok_def append_can_run_def batch_tokens_def ps)
qed

lemma trunc_len_bounds:
  assumes "chunk_trunc_len p r chunk align = Some t" and "pa_page_size p = 1" and "\<forall>al. align = Some al \<longrightarrow> 0 < al"
  shows "0 < t \<and> t \<le> chunk"
proof (cases align)
  case None
  then show ?thesis using assms by (auto simp: chunk_trunc_len_def Let_def split: if_splits)
next
  case (Some al)
  have "0 \<le> chunk mod al" using assms(3) Some by simp
  then have "al * (chunk div al) \<le> chunk" using minus_mod_eq_mult_div[of chunk al] by simp
  then show ?thesis using assms(1,2) Some by (auto simp: chunk_trunc_len_def Let_def split: if_splits)
qed

lemma admit_locked_ok:
  assumes i: "kv_inv c H R" and n: "last_node r = Some n" "path_of c n xs" and h: "host_hit_length r = 0"
    and a: "adder_ok mixed p c0" and al: "\<forall>al. align = Some al \<longrightarrow> 0 < al"
    and l: "0 \<le> extend_input_len r" "0 \<le> max_new_tokens r"
    and t: "extend_input_len r + 1 \<le> tot"
  shows "\<exists>res r' p' c'. admit_locked lb r align tot k p c = Some (res, r', p', c') \<and> keeps c c' \<and>
    rc_alloc c' = rc_alloc c \<and> same_nodes c c' \<and> (\<forall>ys. cached c' ys = cached c ys) \<and>
    (case res of Inl _ \<Rightarrow> p' = p \<and> c' = c \<and> r' = r
     | Inr _ \<Rightarrow> kv_inv c' (add_mset n H) R \<and> adder_ok mixed p' c \<and> can_run_list p' = can_run_list p @ [r'] \<and> last_node r' = Some n \<and>
         (\<forall>m. path_of c' m = path_of c m) \<and> whole_or_chunk r r' \<and>
         (rem_chunk_tokens p = None \<longrightarrow> r' = r \<and> rem_chunk_tokens p' = None))"
proof (cases "of_int tot \<ge> rem_total_tokens p c")
  case True
  then show ?thesis by (simp add: admit_locked_def)
next
  case False
  have ps: "pa_page_size p = 1" and cl: "0 \<le> clip_max_new_tokens p" using a by (simp_all add: adder_ok_def)
  let ?l = "extend_input_len r"
  have ce: "ceil_paged_tokens p ?l = ?l" using ps by (rule ceil_page_1)
  have f: "of_int (j + 1) < rem_total_tokens p c" if "j \<le> ?l" for j
  proof -
    have "(of_int (j + 1) :: rat) \<le> of_int tot" using t that by (simp only: of_int_le_iff)
    then show ?thesis using False by simp
  qed
  from kv_lock[OF i n(2)] obtain d c1 where k: "inc_lock_ref n c = Some (d, c1)" "kv_inv c1 (add_mset n H) R" "keeps c c1"
    "rc_alloc c1 = rc_alloc c" "same_nodes c c1" "\<forall>ys. cached c1 ys = cached c ys" "\<forall>m. path_of c1 m = path_of c m" by blast
  note K = k(3-7)
  consider (full) "rem_chunk_tokens p = None \<and> can_run_list p \<noteq> [] \<and> ?l \<ge> rem_input_tokens p"
    | (whole) "\<not> (rem_chunk_tokens p = None \<and> can_run_list p \<noteq> [] \<and> ?l \<ge> rem_input_tokens p)"
        "case rem_chunk_tokens p of None \<Rightarrow> True | Some x \<Rightarrow> ?l \<le> x"
    | (chunk) x where "rem_chunk_tokens p = Some x" "x < ?l"
    by (cases "rem_chunk_tokens p") (simp_all, blast, meson not_le)
  then show ?thesis
  proof cases
    case full
    then show ?thesis using False h ce by (simp add: admit_locked_def)
  next
    case whole
    let ?p = "update_prefill_budget k ?l (min (max_new_tokens r) (clip_max_new_tokens p)) (retracted_stain r) (append_can_run r p)"
    have "admit_locked lb r align tot k p c = Some (Inr (), r, ?p, c1)"
      unfolding admit_locked_def Let_def using False h ce whole n(1) k(1)
      by (simp add: append_can_run_def cong del: option.case_cong_weak)
    moreover have "adder_ok mixed ?p c" by (rule adder_ok_admit(1)[OF a l(1) _ refl f]) (use l(2) cl in simp_all)
    moreover have "can_run_list ?p = can_run_list p @ [r]" by (simp add: update_prefill_budget_def append_can_run_def Let_def)
    moreover have "whole_or_chunk r r" by (simp add: whole_or_chunk_def)
    moreover have "rem_chunk_tokens p = None \<longrightarrow> rem_chunk_tokens ?p = None"
      by (simp add: update_prefill_budget_def append_can_run_def Let_def)
    ultimately show ?thesis using K k(2) n(1) by (intro exI conjI) auto
  next
    case chunk
    show ?thesis
    proof (cases "chunk_trunc_len p r x align")
      case None
      then show ?thesis unfolding admit_locked_def Let_def using False h ce chunk
        by (simp cong del: option.case_cong_weak)
    next
      case (Some tl)
      have tl: "0 < tl" "tl \<le> x" using trunc_len_bounds[OF Some ps] al by simp_all
      let ?r = "(set_extend_input_len tl r)\<lparr>fill_ids := slice_to (fill_ids (set_extend_input_len tl r)) (int (length (prefix_indices r)) + tl)\<rparr>"
      let ?p = "update_prefill_budget k tl 0 (retracted_stain ?r) ((append_can_run ?r p)\<lparr>new_chunked_req := Some ?r\<rparr>)"
      have "admit_locked lb r align tot k p c = Some (Inr (), ?r, ?p, c1)"
        unfolding admit_locked_def Let_def using False h ce chunk Some n(1) k(1)
        by (simp cong del: option.case_cong_weak)
      moreover have "adder_ok mixed ?p c"
        by (rule adder_ok_admit(2)[OF a _ _ _ f]) (use tl chunk(2) in simp_all)
      moreover have "can_run_list ?p = can_run_list p @ [?r]" by (simp add: update_prefill_budget_def append_can_run_def Let_def)
      moreover have "whole_or_chunk r ?r" using tl chunk(2)
        unfolding whole_or_chunk_def by (intro disjI2 exI[of _ tl]) (simp add: chunk_of_def)
      ultimately show ?thesis using K k(2) n(1) chunk(1) by (intro exI conjI) auto
    qed
  qed
qed

lemma admit_locked_refuses:
  "admit_locked lb r align tot k p c = Some (Inl x, r', p', c') \<Longrightarrow> x \<noteq> CONTINUE"
  by (auto simp: admit_locked_def Let_def split: if_splits bind_splits option.splits)

lemma kv_budget_same:
  assumes "same_nodes c c'" and "radix_inv c H" and "radix_inv c' H" and "rc_alloc c' = rc_alloc c"
  shows "kv_budget c' = kv_budget c"
  using evictable_determined[OF assms(1-3)] assms(4) by (simp add: kv_budget_def)

lemma adder_ok_budget:
  assumes "adder_ok mixed p c" and "kv_budget c' = kv_budget c"
  shows "adder_ok mixed p c'"
  using assms(1) unfolding adder_ok_def assms(2) by blast

lemma add_one_req_ok:
  assumes i: "kv_inv c H R" and n: "last_node r = Some n" "path_of c n xs" and h: "host_hit_length r = 0"
    and a: "adder_ok mixed p c" and al: "\<forall>al. align = Some al \<longrightarrow> 0 < al"
    and l: "0 \<le> extend_input_len r" "0 \<le> max_new_tokens r"
  shows "\<exists>res r' p' c' H'. add_one_req lb r align p c = Some (res, r', p', c') \<and> kv_inv c' H' R \<and> adder_ok mixed p' c' \<and>
    keeps c c' \<and> (\<forall>ys. cached c' ys = cached c ys) \<and> (\<forall>m. path_of c' m = path_of c m) \<and> whole_or_chunk r r' \<and>
    (can_run_list p' = can_run_list p \<and> H' = H \<and> res \<noteq> CONTINUE \<or>
     can_run_list p' = can_run_list p @ [r'] \<and> H' = add_mset n H \<and> last_node r' = Some n) \<and>
    (rem_chunk_tokens p = None \<longrightarrow> r' = r \<and> rem_chunk_tokens p' = None)"
proof -
  let ?goal = ?thesis
  have nd: "\<not> rc_disable c" using kv_invD(2)[OF i] by (simp add: plain_config_def)
  have stay: ?goal if "add_one_req lb r align p c = Some (res, r, p, c)" "res \<noteq> CONTINUE" for res
    using that i a by (intro exI[of _ res] exI[of _ r] exI[of _ p] exI[of _ c] exI[of _ H]) (auto simp: whole_or_chunk_def)
  have ps: "pa_page_size p = 1" and cl: "0 \<le> clip_max_new_tokens p" using a by (simp_all add: adder_ok_def)
  let ?tot = "extend_input_len r + min (max (max_new_tokens r - int (length (output_ids r))) 0) (clip_max_new_tokens p) + pa_page_size p"
  have ce: "ceil_paged_tokens p x = x" for x using ps by (rule ceil_page_1)
  consider (early) res where "add_one_req lb r align p c = Some (res, r, p, c)" "res \<noteq> CONTINUE"
    | (go) "add_one_req lb r align p c = do {
             (_, c) \<leftarrow> inc_lock_ref n c;
             (res, r, p, c) \<leftarrow> admit_locked lb r align ?tot (int (length (prefix_indices r))) p c;
             (_, c) \<leftarrow> dec_lock_ref n c;
             Some (case res of Inl x \<Rightarrow> x | Inr _ \<Rightarrow> budget_state p c, r, p, c)
           }"
  proof (cases "\<not> delayer_allows p \<or> cp_in_seq_split p \<and> can_run_list p \<noteq> [] \<or>
      (case prefill_max_requests p of None \<Rightarrow> False | Some x \<Rightarrow> length (can_run_list p) \<ge> x) \<or>
      of_int ?tot \<ge> rem_total_tokens p c \<or>
      rem_chunk_tokens p = None \<and> can_run_list p \<noteq> [] \<and> ceil_paged_tokens p (extend_input_len r - host_hit_length r) \<ge> rem_input_tokens p")
    case True
    then have "\<exists>res. add_one_req lb r align p c = Some (res, r, p, c) \<and> res \<noteq> CONTINUE"
      unfolding add_one_req_def Let_def using nd by auto
    then show ?thesis using that(1) by blast
  next
    case False
    then show ?thesis by (intro that(2)) (auto simp: add_one_req_def Let_def nd n(1))
  qed
  then show ?goal
  proof cases
    case early
    then show ?goal by (rule stay)
  next
    case go
    from kv_lock[OF i n(2)] obtain d c1 where k: "inc_lock_ref n c = Some (d, c1)" "kv_inv c1 (add_mset n H) R" "keeps c c1"
      "rc_alloc c1 = rc_alloc c" "same_nodes c c1" "\<forall>m. path_of c1 m = path_of c m" "\<forall>ys. cached c1 ys = cached c ys" by blast
    have p1: "path_of c1 n xs" using k(6) n(2) by simp
    have tot: "extend_input_len r + 1 \<le> ?tot" using ps cl by simp
    from admit_locked_ok[OF k(2) n(1) p1 h a al l tot, where lb = lb and k = "int (length (prefix_indices r))"] obtain res r' p' c2 where m:
      "admit_locked lb r align ?tot (int (length (prefix_indices r))) p c1 = Some (res, r', p', c2)" "keeps c1 c2"
      "rc_alloc c2 = rc_alloc c1" "same_nodes c1 c2" "\<forall>ys. cached c2 ys = cached c1 ys"
      "case res of Inl _ \<Rightarrow> p' = p \<and> c2 = c1 \<and> r' = r
       | Inr _ \<Rightarrow> kv_inv c2 (add_mset n (add_mset n H)) R \<and> adder_ok mixed p' c1 \<and> can_run_list p' = can_run_list p @ [r'] \<and>
           last_node r' = Some n \<and> (\<forall>m. path_of c2 m = path_of c1 m) \<and> whole_or_chunk r r' \<and>
           (rem_chunk_tokens p = None \<longrightarrow> r' = r \<and> rem_chunk_tokens p' = None)"
      by blast
    have wc: "whole_or_chunk r r'" using m(6) by (cases res) (auto simp: whole_or_chunk_def)
    have refuse: "x \<noteq> CONTINUE" if "res = Inl x" for x
      using m(1) unfolding that by (rule admit_locked_refuses)
    define H2 where "H2 = (case res of Inl _ \<Rightarrow> H | Inr _ \<Rightarrow> add_mset n H)"
    have k2: "kv_inv c2 (add_mset n H2) R" using m(6) k(2) by (auto simp: H2_def split: sum.splits)
    from kv_unlock[OF k2] obtain d' c3 where u: "dec_lock_ref n c2 = Some (d', c3)" "kv_inv c3 H2 R" "keeps c2 c3"
      "rc_alloc c3 = rc_alloc c2" "same_nodes c2 c3" "\<forall>ys. cached c3 ys = cached c2 ys" "\<forall>m. path_of c3 m = path_of c2 m" by blast
    have sn: "same_nodes c1 c3" "same_nodes c c3" using same_nodes_trans k(5) m(4) u(5) by blast+
    have al3: "rc_alloc c3 = rc_alloc c1" "rc_alloc c3 = rc_alloc c" using u(4) m(3) k(4) by simp_all
    have "adder_ok mixed p' c3"
    proof (cases res)
      case (Inl x)
      have "kv_budget c3 = kv_budget c"
        by (rule kv_budget_same[OF sn(2) kv_invD(1)[OF i] _ al3(2)]) (use kv_invD(1)[OF u(2)] Inl in \<open>simp add: H2_def\<close>)
      then show ?thesis using adder_ok_budget[OF a] m(6) Inl by simp
    next
      case (Inr x)
      have "kv_budget c3 = kv_budget c1"
        by (rule kv_budget_same[OF sn(1) kv_invD(1)[OF k(2)] _ al3(1)]) (use kv_invD(1)[OF u(2)] Inr in \<open>simp add: H2_def\<close>)
      moreover have "adder_ok mixed p' c1" using m(6) Inr by simp
      ultimately show ?thesis using adder_ok_budget by blast
    qed
    moreover have "keeps c c3" using k(3) m(2) u(3) keeps_trans by blast
    moreover have "\<forall>ys. cached c3 ys = cached c ys" using k(7) m(5) u(6) by simp
    moreover have "\<forall>m. path_of c3 m = path_of c m" using m(6) u(7) k(6) by (cases res) auto
    moreover define x where "x = (case res of Inl x \<Rightarrow> x | Inr _ \<Rightarrow> budget_state p' c3)"
    moreover have "add_one_req lb r align p c = Some (x, r', p', c3)" unfolding go by (simp add: k(1) m(1) u(1) x_def)
    moreover have "can_run_list p' = can_run_list p \<and> H2 = H \<and> x \<noteq> CONTINUE \<or>
      can_run_list p' = can_run_list p @ [r'] \<and> H2 = add_mset n H \<and> last_node r' = Some n"
      using m(6) refuse by (cases res) (auto simp: H2_def x_def)
    moreover have "rem_chunk_tokens p = None \<longrightarrow> r' = r \<and> rem_chunk_tokens p' = None" using m(6) by (cases res) auto
    ultimately show ?goal using u(2) wc
      by (intro exI[of _ x] exI[of _ r'] exI[of _ p'] exI[of _ c3] exI[of _ H2]) simp
  qed
qed

lemma lookup_units_le: "length (lookup_units c (RadixKey ids e b)) \<le> length ids"
proof -
  let ?k = "fst (maybe_to_bigram_view (RadixKey ids e b) (rc_is_eagle c) None)"
  have "rk_len ?k \<le> length ids" by (auto simp: maybe_to_bigram_view_def RadixKey_def rk_len_def Let_def)
  moreover have "length (lookup_units c (RadixKey ids e b)) \<le> rk_len ?k" by (simp add: lookup_units_def Let_def)
  ultimately show ?thesis by simp
qed

text \<open>
  A request that is ready for its prefill: its prefix is the cached path of its locked node, followed
  for a chunked request by slots of its own.
\<close>

definition staged :: "radix_cache \<Rightarrow> sched_req \<Rightarrow> bool" where
  "staged c r \<longleftrightarrow> (\<exists>n. req_holds c r n (units (req_radix_key c r (fill_ids r))) (prefix_indices r)) \<and>
     int (length (fill_ids r)) - int (length (prefix_indices r)) = extend_input_len r \<and> 0 \<le> extend_input_len r \<and>
     prefix (fill_ids r) (token_seq r)"

text \<open>What admission does not change of a request.\<close>

definition same_request :: "sched_req \<Rightarrow> sched_req \<Rightarrow> bool" where
  "same_request r' r \<longleftrightarrow> req_pool_idx r' = req_pool_idx r \<and> token_seq r' = token_seq r \<and> rid r' = rid r \<and>
     kv_committed_freed r' = kv_committed_freed r \<and> kv_overallocated_freed r' = kv_overallocated_freed r \<and>
     max_new_tokens r' = max_new_tokens r \<and> inflight_middle_chunks r' = inflight_middle_chunks r \<and>
     origin_input_ids r' = origin_input_ids r \<and> output_ids r' = output_ids r \<and> finished_reason r' = finished_reason r \<and>
     req_priority r' = req_priority r"

definition lock_nodes :: "'a request_scheme list \<Rightarrow> nid multiset" where
  "lock_nodes rs = mset (map (the \<circ> last_node) rs)"

lemma lock_nodes_simps [simp]:
  "lock_nodes [] = {#}" "lock_nodes (r # rs) = add_mset (the (last_node r)) (lock_nodes rs)"
  "lock_nodes (xs @ ys) = lock_nodes xs + lock_nodes ys"
  by (simp_all add: lock_nodes_def)

lemma key_keeps: "keeps c c' \<Longrightarrow> req_radix_key c' r ts = req_radix_key c r ts"
  by (simp add: keeps_def req_radix_key_def)

lemma staged_mono:
  assumes "staged c r" and "keeps c c'" and "\<And>m ys. path_of c m ys \<Longrightarrow> path_of c' m ys"
  shows "staged c' r"
  using assms(1,3) unfolding staged_def req_holds_def key_keeps[OF assms(2)] by blast

lemma chunk_fields [simp]:
  "prefix_indices (chunk_of t r) = prefix_indices r" "last_node (chunk_of t r) = last_node r"
  "extend_input_len (chunk_of t r) = t" "cache_protected_len (chunk_of t r) = cache_protected_len r"
  "token_seq (chunk_of t r) = token_seq r" "req_radix_key c (chunk_of t r) ts = req_radix_key c r ts"
  "fill_ids (chunk_of t r) = slice_to (fill_ids r) (int (length (prefix_indices r)) + t)"
  by (simp_all add: chunk_of_def set_extend_input_len_def Let_def token_seq_def req_radix_key_def)

lemma same_request_chunk:
  assumes "whole_or_chunk r r'" and "same_request r r0"
  shows "same_request r' r0"
  using assms by (auto simp: whole_or_chunk_def same_request_def chunk_of_def set_extend_input_len_def Let_def token_seq_def)

lemma units_len_le:
  assumes "rc_page_size c = 1"
  shows "length ts - 1 \<le> length (units (req_radix_key c r ts))"
  using assms by (simp add: req_radix_key_def page_aligned_def rk_len_def RadixKey_def)

lemma staged_chunk:
  assumes s: "staged c r" and w: "whole_or_chunk r r'" and ps: "rc_page_size c = 1"
  shows "staged c r'"
proof (cases "r' = r")
  case False
  then obtain t where t: "0 < t" "t < extend_input_len r" "r' = chunk_of t r" using w by (auto simp: whole_or_chunk_def)
  from s obtain n where n: "req_holds c r n (units (req_radix_key c r (fill_ids r))) (prefix_indices r)"
    "int (length (fill_ids r)) - int (length (prefix_indices r)) = extend_input_len r" "prefix (fill_ids r) (token_seq r)"
    unfolding staged_def by blast
  let ?k = "length (prefix_indices r) + nat t"
  have f: "fill_ids r' = take ?k (fill_ids r)" using t(1,3) by (simp add: slice_to_nonneg nat_add_distrib)
  have lf: "length (fill_ids r') = ?k" unfolding f using n(2) t by simp
  from n(1) obtain ys where ys: "last_node r = Some n" "path_of c n ys" "prefix (map fst ys) (units (req_radix_key c r (fill_ids r)))"
    "cache_protected_len r = int (length ys)" "map snd ys = take (length ys) (prefix_indices r)" unfolding req_holds_def by blast
  have "length ys \<le> length (prefix_indices r)" using arg_cong[OF ys(5), of length] by simp
  then have "length (map fst ys) \<le> length (units (req_radix_key c r (fill_ids r')))"
    using units_len_le[OF ps, of "fill_ids r'" r] lf t(1) by simp
  moreover have "prefix (units (req_radix_key c r (fill_ids r'))) (units (req_radix_key c r (fill_ids r)))"
    by (rule units_key_prefix[OF ps]) (simp add: f take_is_prefix)
  ultimately have "prefix (map fst ys) (units (req_radix_key c r (fill_ids r')))"
    using ys(3) prefix_length_prefix by blast
  then have "req_holds c r' n (units (req_radix_key c r' (fill_ids r'))) (prefix_indices r')"
    unfolding req_holds_def t(3) using ys by auto
  moreover have "prefix (fill_ids r') (token_seq r')"
    using prefix_order.order_trans[OF take_is_prefix n(3), of ?k] unfolding f[symmetric] by (simp add: t(3))
  moreover have "int (length (fill_ids r')) - int (length (prefix_indices r')) = extend_input_len r'"
    unfolding lf using t(1) by (simp add: t(3))
  ultimately show ?thesis unfolding staged_def using t(1,3) by auto
qed (use s in simp)

lemma lookup_plain_key:
  assumes "rc_page_size c = 1"
  shows "lookup_units c (RadixKey ts (req_extra_key r) False) = units (req_radix_key c r ts)"
  using assms by (auto simp: lookup_units_def maybe_to_bigram_view_def req_radix_key_def page_aligned_def RadixKey_def Let_def units_def
      rk_iter_def rk_len_def)

lemma next_round_ok:
  assumes i: "kv_inv c H R" and a: "adder_ok mixed p c"
  shows "\<exists>r' c' n xs. init_next_round_input r c = Some (r', c') \<and> kv_inv c' H R \<and> adder_ok mixed p c' \<and> keeps c c' \<and>
    last_node r' = Some n \<and> path_of c' n xs \<and> host_hit_length r' = 0 \<and> max_new_tokens r' = max_new_tokens r \<and>
    0 \<le> extend_input_len r' \<and> (\<forall>ys. cached c' ys = cached c ys) \<and> (\<forall>m ys. path_of c m ys \<longrightarrow> path_of c' m ys) \<and>
    staged c' r' \<and> same_request r' r \<and> fill_ids r' = token_seq r \<and>
    cache_protected_len r' = int (length (prefix_indices r'))"
proof -
  let ?fill = "origin_input_ids r @ output_ids r"
  let ?r0 = "r\<lparr>fill_ids := ?fill\<rparr>"
  let ?ids0 = "slice_to ?fill (compute_max_prefix_len ?r0 (int (length ?fill)))"
  let ?ids = "if has_embed_overrides r then [] else ?ids0"
  let ?key = "RadixKey ?ids (req_extra_key r) False"
  have "key_fits c ?key" by (simp add: key_fits_def RadixKey_def)
  from kv_match[OF i this] obtain slots n c' xs where m: "match_prefix ?key c = Some ((slots, n), c')" "kv_inv c' H R"
    "keeps c c'" "rc_alloc c' = rc_alloc c" "evictable_size c' = evictable_size c" "\<forall>m ys. path_of c m ys \<longrightarrow> path_of c' m ys"
    "\<forall>ys. cached c' ys = cached c ys" "path_of c' n xs" "slots = map snd xs" "prefix (map fst xs) (lookup_units c ?key)" by blast
  have "length slots \<le> length (lookup_units c ?key)" using prefix_length_le[OF m(10)] m(9) by simp
  also have "\<dots> \<le> length ?ids" by (rule lookup_units_le)
  also have "\<dots> \<le> length ?fill" by (auto simp: slice_to_def)
  finally have le: "length slots \<le> length ?fill" .
  have "kv_budget c' = kv_budget c" using m(4,5) by (simp add: kv_budget_def)
  then have "adder_ok mixed p c'" by (rule adder_ok_budget[OF a])
  moreover
  let ?r1 = "?r0\<lparr>prefix_indices := slots, last_node := Some n, host_hit_length := 0, cache_protected_len := int (length slots)\<rparr>"
  have "init_next_round_input r c = Some (set_extend_input_len (int (length ?fill) - int (length slots)) ?r1, c')"
    using m(1) by (simp add: init_next_round_input_def Let_def split del: if_split cong: if_cong)
  moreover let ?r2 = "set_extend_input_len (int (length ?fill) - int (length slots)) ?r1"
  have "staged c' ?r2"
  proof -
    have ps: "rc_page_size c = 1" by (rule kv_invD(3)[OF i])
    have "prefix (map fst xs) (units (req_radix_key c r ?ids))" using m(10) unfolding lookup_plain_key[OF ps] .
    moreover have "prefix ?ids ?fill" unfolding slice_to_def by (cases "has_embed_overrides r") (simp_all only: if_True if_False take_is_prefix Nil_prefix)
    ultimately have "prefix (map fst xs) (units (req_radix_key c r ?fill))"
      using units_key_prefix[OF ps] prefix_order.order_trans by blast
    then have "req_holds c' ?r2 n (units (req_radix_key c r ?fill)) slots"
      using m(8,9) unfolding req_holds_def
      by (intro conjI exI[of _ xs]) (simp_all add: set_extend_input_len_def Let_def)
    moreover have "req_radix_key c' ?r2 (fill_ids ?r2) = req_radix_key c r ?fill"
      unfolding key_keeps[OF m(3)] by (simp add: set_extend_input_len_def Let_def req_radix_key_def)
    moreover have "prefix_indices ?r2 = slots" by simp
    ultimately have "req_holds c' ?r2 n (units (req_radix_key c' ?r2 (fill_ids ?r2))) (prefix_indices ?r2)" by (simp only:)
    moreover have "int (length (fill_ids ?r2)) - int (length (prefix_indices ?r2)) = extend_input_len ?r2"
      "0 \<le> extend_input_len ?r2" "prefix (fill_ids ?r2) (token_seq ?r2)"
      using le by (simp_all add: set_extend_input_len_def Let_def token_seq_def)
    ultimately show ?thesis unfolding staged_def by blast
  qed
  moreover have "same_request ?r2 r"
    by (simp add: same_request_def set_extend_input_len_def Let_def token_seq_def)
  moreover have "fill_ids ?r2 = token_seq r" "cache_protected_len ?r2 = int (length (prefix_indices ?r2))"
    by (simp_all add: set_extend_input_len_def Let_def token_seq_def)
  ultimately show ?thesis using m le
    by (intro exI[of _ ?r2] exI[of _ c'] exI[of _ n] exI[of _ xs]) simp
qed

text \<open>One request of the waiting queue: matched, then admitted with a lock on its node, or refused.\<close>

lemma admit_one_ok:
  assumes "kv_inv c H R" and "adder_ok mixed p c" and "\<forall>al. align = Some al \<longrightarrow> 0 < al" and "0 \<le> max_new_tokens r"
  shows "\<exists>r1 c1 res r2 p2 c2 one. init_next_round_input r c = Some (r1, c1) \<and> add_one_req lb r1 align p c1 = Some (res, r2, p2, c2) \<and>
    kv_inv c2 (H + lock_nodes one) R \<and> adder_ok mixed p2 c2 \<and> keeps c c2 \<and> (\<forall>ys. cached c2 ys = cached c ys) \<and>
    (\<forall>m ys. path_of c m ys \<longrightarrow> path_of c2 m ys) \<and> can_run_list p2 = can_run_list p @ one \<and>
    (\<forall>x \<in> set one. staged c2 x \<and> same_request x r) \<and> (one = [] \<and> res \<noteq> CONTINUE \<or> length one = 1) \<and> same_request r2 r \<and>
    (rem_chunk_tokens p = None \<longrightarrow> rem_chunk_tokens p2 = None \<and>
      (\<forall>x \<in> set one. fill_ids x = token_seq r \<and> cache_protected_len x = int (length (prefix_indices x))))"
proof -
  from next_round_ok[OF assms(1,2), of r] obtain r' c1 n xs where a: "init_next_round_input r c = Some (r', c1)"
    "kv_inv c1 H R" "adder_ok mixed p c1" "keeps c c1" "last_node r' = Some n" "path_of c1 n xs" "host_hit_length r' = 0"
    "max_new_tokens r' = max_new_tokens r" "0 \<le> extend_input_len r'" "\<forall>ys. cached c1 ys = cached c ys"
    "\<forall>m ys. path_of c m ys \<longrightarrow> path_of c1 m ys" "staged c1 r'" "same_request r' r" "fill_ids r' = token_seq r"
    "cache_protected_len r' = int (length (prefix_indices r'))" by blast
  have mx: "0 \<le> max_new_tokens r'" using a(8) assms(4) by simp
  from add_one_req_ok[where align = align and lb = lb, OF a(2,5,6,7,3) assms(3) a(9) mx] obtain res r2 p2 c2 H2 where b:
    "add_one_req lb r' align p c1 = Some (res, r2, p2, c2)" "kv_inv c2 H2 R" "adder_ok mixed p2 c2" "keeps c1 c2"
    "\<forall>ys. cached c2 ys = cached c1 ys" "\<forall>m. path_of c2 m = path_of c1 m" "whole_or_chunk r' r2"
    "can_run_list p2 = can_run_list p \<and> H2 = H \<and> res \<noteq> CONTINUE \<or>
     can_run_list p2 = can_run_list p @ [r2] \<and> H2 = add_mset n H \<and> last_node r2 = Some n"
    "rem_chunk_tokens p = None \<longrightarrow> r2 = r' \<and> rem_chunk_tokens p2 = None"
    by (elim exE conjE) (rule that)
  have w: "staged c1 r2" "same_request r2 r"
    using staged_chunk[OF a(12) b(7) kv_invD(3)[OF a(2)]] same_request_chunk[OF b(7) a(13)] by simp_all
  from b(8) obtain one where one: "can_run_list p2 = can_run_list p @ one" "H2 = H + lock_nodes one"
    "\<forall>x \<in> set one. x = r2" "one = [] \<and> res \<noteq> CONTINUE \<or> length one = 1"
  proof (elim disjE conjE)
    assume "can_run_list p2 = can_run_list p" "H2 = H" "res \<noteq> CONTINUE"
    then show ?thesis by (intro that[of "[]"]) simp_all
  next
    assume "can_run_list p2 = can_run_list p @ [r2]" "H2 = add_mset n H" "last_node r2 = Some n"
    then show ?thesis by (intro that[of "[r2]"]) simp_all
  qed
  have "staged c2 r2" using w(1) staged_mono[OF _ b(4)] b(6) by simp
  moreover have r2: "x = r2" if "x \<in> set one" for x using one(3) that by (rule bspec)
  ultimately have "staged c2 x \<and> same_request x r" if "x \<in> set one" for x using r2[OF that] w(2) by simp
  then have "\<forall>x \<in> set one. staged c2 x \<and> same_request x r" by blast
  moreover have "rem_chunk_tokens p = None \<longrightarrow> rem_chunk_tokens p2 = None \<and>
      (\<forall>x \<in> set one. fill_ids x = token_seq r \<and> cache_protected_len x = int (length (prefix_indices x)))"
    using b(9) r2 a(14,15) by metis
  ultimately show ?thesis using a(1,10,11) b(1-3,5,6) one(1,2,4) keeps_trans[OF a(4) b(4)] w(2)
    by (intro exI[of _ r'] exI[of _ c1] exI[of _ res] exI[of _ r2] exI[of _ p2] exI[of _ c2] exI[of _ one]) simp
qed

lemma add_reqs_ok:
  assumes "kv_inv c H R" and "adder_ok mixed p c" and "\<forall>al. align = Some al \<longrightarrow> 0 < al"
    and "\<forall>r \<in> set rs. 0 \<le> max_new_tokens r"
  shows "\<exists>p' c' news. add_reqs lb rs align p c = Some (p', c') \<and> kv_inv c' (H + lock_nodes news) R \<and>
    adder_ok mixed p' c' \<and> keeps c c' \<and> (\<forall>ys. cached c' ys = cached c ys) \<and> (\<forall>m ys. path_of c m ys \<longrightarrow> path_of c' m ys) \<and>
    can_run_list p' = can_run_list p @ news \<and> (\<forall>r \<in> set news. staged c' r) \<and>
    length news \<le> length rs \<and> list_all2 same_request news (take (length news) rs)"
  using assms(1,2,4)
proof (induction rs arbitrary: c p H)
  case Nil
  then show ?case by (intro exI[of _ p] exI[of _ c] exI[of _ "[]"]) simp
next
  case (Cons r rs)
  have mr: "0 \<le> max_new_tokens r" using Cons.prems(3) by simp
  from admit_one_ok[where align = align and lb = lb, OF Cons.prems(1,2) assms(3) mr] obtain r1 c1 res r2 p2 c2 one where b:
    "init_next_round_input r c = Some (r1, c1)" "add_one_req lb r1 align p c1 = Some (res, r2, p2, c2)"
    "kv_inv c2 (H + lock_nodes one) R" "adder_ok mixed p2 c2" "keeps c c2" "\<forall>ys. cached c2 ys = cached c ys"
    "\<forall>m ys. path_of c m ys \<longrightarrow> path_of c2 m ys" "can_run_list p2 = can_run_list p @ one"
    "\<forall>x \<in> set one. staged c2 x \<and> same_request x r" "one = [] \<and> res \<noteq> CONTINUE \<or> length one = 1" by blast
  show ?case
  proof (cases "res = CONTINUE")
    case True
    from Cons.IH[OF b(3,4)] Cons.prems(3) obtain p3 c3 news where e: "add_reqs lb rs align p2 c2 = Some (p3, c3)"
      "kv_inv c3 (H + lock_nodes one + lock_nodes news) R" "adder_ok mixed p3 c3" "keeps c2 c3" "\<forall>ys. cached c3 ys = cached c2 ys"
      "\<forall>m ys. path_of c2 m ys \<longrightarrow> path_of c3 m ys" "can_run_list p3 = can_run_list p2 @ news" "\<forall>r \<in> set news. staged c3 r"
      "length news \<le> length rs" "list_all2 same_request news (take (length news) rs)" by auto
    obtain x where x: "one = [x]" using b(10) True by (cases one) auto
    have "add_reqs lb (r # rs) align p c = Some (p3, c3)" using b(1,2) e(1) True by simp
    moreover have "staged c3 x" using b(9) x staged_mono[OF _ e(4)] e(6) by simp
    moreover have "kv_inv c3 (H + lock_nodes (x # news)) R" using e(2) unfolding x by simp
    ultimately show ?thesis using keeps_trans[OF b(5) e(4)] b(6-9) e x
      by (intro exI[of _ p3] exI[of _ c3] exI[of _ "x # news"]) simp
  next
    case False
    then have "add_reqs lb (r # rs) align p c = Some (p2, c2)" using b(1,2) by simp
    moreover have "list_all2 same_request one (take (length one) (r # rs))" using b(9,10) by (cases one) auto
    ultimately show ?thesis using b
      by (intro exI[of _ p2] exI[of _ c2] exI[of _ one]) auto
  qed
qed

lemma adder_ok_init:
  assumes "0 \<le> mixed" and "0 \<le> clip" and "0 \<le> ratio"
    and "\<forall>rs. running = Some rs \<longrightarrow> (\<forall>r \<in> set rs. int (length (output_ids r)) \<le> max_new_tokens r)"
  shows "adder_ok mixed (adder_init 1 clip running ratio rem_input chunk mixed threshold max_reqs cp allows) c"
proof -
  have "0 \<le> running_token_offset clip ratio r" if "int (length (output_ids r)) \<le> max_new_tokens r" for r
    using that assms(2,3) by (simp add: running_token_offset_def)
  then have "0 \<le> (case running of None \<Rightarrow> 0 | Some rs \<Rightarrow> sum_list (map (running_token_offset clip ratio) rs))"
    using assms(4) by (auto split: option.split intro!: sum_list_nonneg)
  then show ?thesis using assms(2) by (simp add: adder_ok_def adder_init_def batch_tokens_def)
qed

text \<open>C19: An admitted prefill batch always gets its KV slots.  Start from a consistent cache (every slot free,
  cached or held by a running request) with pages of one token and admit requests from the waiting
  queue one after the other - each is matched against the cache, locks its prefix and is admitted,
  truncated to a chunk or refused.  The loop does not fail, it neither loses nor adds cached content;
  the admitted requests are the first ones of the queue, each ready for its prefill and holding one lock
  on the node of its cached prefix, and no other lock is left behind.  If the loop
  admitted any request, then \<open>alloc_token_slots\<close> for the whole batch, mixed decode tokens included, succeeds on the cache as it then is: it returns that many distinct slots, none of them held
  by a running request, and keeps the cache consistent.\<close>

theorem admitted_batch_fits:
  assumes "kv_inv c H R" and "0 \<le> mixed" and "0 \<le> clip" and "0 \<le> ratio"
    and "\<forall>rs. running = Some rs \<longrightarrow> (\<forall>r \<in> set rs. int (length (output_ids r)) \<le> max_new_tokens r)"
    and "\<forall>r \<in> set waiting. 0 \<le> max_new_tokens r" and "\<forall>al. align = Some al \<longrightarrow> 0 < al"
  shows "\<exists>p' c' H'. add_reqs load_back waiting align
      (adder_init 1 clip running ratio rem_input chunk mixed threshold max_reqs cp allows) c = Some (p', c') \<and>
    kv_inv c' H' R \<and> H' = H + lock_nodes (can_run_list p') \<and> (\<forall>ys. cached c' ys = cached c ys) \<and>
    (\<forall>r \<in> set (can_run_list p'). staged c' r) \<and>
    list_all2 same_request (can_run_list p') (take (length (can_run_list p')) waiting) \<and>
    (can_run_list p' \<noteq> [] \<longrightarrow>
       (\<exists>xs st c''. alloc_token_slots (mixed + batch_tokens p') False c' = Some ((xs, st), c'') \<and>
          int (length xs) = mixed + batch_tokens p' \<and> distinct xs \<and> set xs \<inter> R = {} \<and> kv_inv c'' H' (R \<union> set xs)))"
proof -
  let ?p = "adder_init 1 clip running ratio rem_input chunk mixed threshold max_reqs cp allows"
  have a: "adder_ok mixed ?p c" by (rule adder_ok_init[OF assms(2-5)])
  from add_reqs_ok[OF assms(1) a, where align = align and rs = waiting and lb = load_back] assms(6,7) obtain p' c' news where s:
    "add_reqs load_back waiting align ?p c = Some (p', c')" "kv_inv c' (H + lock_nodes news) R" "adder_ok mixed p' c'"
    "\<forall>ys. cached c' ys = cached c ys" "can_run_list p' = can_run_list ?p @ news" "\<forall>r \<in> set news. staged c' r"
    "list_all2 same_request news (take (length news) waiting)" by auto
  have cr: "can_run_list p' = news" using s(5) by (simp add: adder_init_def)
  have "0 \<le> batch_tokens p'" using s(3) by (auto simp: adder_ok_def batch_tokens_def intro!: sum_list_nonneg)
  then have n: "0 \<le> mixed + batch_tokens p'" using assms(2) by simp
  have "mixed + batch_tokens p' \<le> kv_budget c'" if "can_run_list p' \<noteq> []"
    using s(3) that by (auto simp: adder_ok_def)
  with alloc_token_slots_ok[OF s(2) n, of False] s cr show ?thesis by blast
qed

definition demo_waiting :: sched_req where
  "demo_waiting = request.extend demo_req
     \<lparr>rid = ''r1'', extend_input_len = 0, max_new_tokens = 1, ignore_eos = False, host_hit_length = 0,
      retracted_stain = False, finished_reason = None, routing_key = None, wait_queue_entry_time = 0,
      return_logprob = False, logprob_start_len = -1, extend_logprob_start_len = 0, has_embed_overrides = False,
      to_finish = None, finished_len = None, eos_token_ids = [], stop_token_ids = [], tokenizer = None, vocab_size = 100,
      stop_strs = [], stop_regex_strs = [], stop_str_max_len = 0, stop_regex_max_len = 0, decoded_text = [],
      require_reasoning = False, is_reasoning_over = False\<rparr>"

lemma kv_demo:
  obtains c where "radix_init False 1 False False False ''lru'' False int (\<lambda>bs. bs) (token_init 8 False) (pool_init 2 8) = Inr c"
    "kv_inv c {#} {}"
proof -
  have "get_eviction_strategy (lower_ascii ''lru'') = Inr LRU" by code_simp
  then obtain c where c: "radix_init False 1 False False False ''lru'' False int (\<lambda>bs. bs) (token_init 8 False) (pool_init 2 8) = Inr c"
    by (simp add: radix_init_def)
  from that[OF c kv_inv_init[OF c]] show ?thesis .
qed

lemma admitted_batch_fits_witness:
  "\<exists>c p' c'. radix_init False 1 False False False ''lru'' False int (\<lambda>bs. bs) (token_init 8 False) (pool_init 2 8) = Inr c \<and>
     add_reqs (\<lambda>_ _. None) [demo_waiting, demo_waiting] None (adder_init 1 4096 None (1/2) 100 None 0 0 None False True) c = Some (p', c') \<and>
     (can_run_list p' \<noteq> [] \<longrightarrow> (\<exists>xs st c''. alloc_token_slots (0 + batch_tokens p') False c' = Some ((xs, st), c'')))"
proof -
  obtain c where c: "radix_init False 1 False False False ''lru'' False int (\<lambda>bs. bs) (token_init 8 False) (pool_init 2 8) = Inr c"
    "kv_inv c {#} {}" by (rule kv_demo)
  have w: "\<forall>r \<in> set [demo_waiting, demo_waiting]. 0 \<le> max_new_tokens r" by (simp add: demo_waiting_def request.defs)
  from admitted_batch_fits[OF c(2) order_refl, of 4096 "1/2" None "[demo_waiting, demo_waiting]" None "\<lambda>_ _. None" 100 None 0 None False True] w c(1)
  show ?thesis by auto
qed

section \<open>The order of the decode states\<close>

lemma insert_index_split:
  "insert_index t ss i = i + (if \<exists>e \<in> set ss. t \<le> fst e then length (takeWhile (\<lambda>e. fst e < t) ss) else length ss - 1)"
proof (induction ss arbitrary: i)
  case (Cons s ss)
  then show ?case by (cases ss) auto
qed simp

lemma insert_req_state_mset: "mset (insert_req_state s ss) = add_mset s (mset ss)"
  by (simp add: insert_req_state_def Let_def) (metis append_take_drop_id mset_append union_commute)

lemma sorted_insert_mid:
  fixes s :: "rat \<times> int"
  assumes "sorted (map fst (T @ D))" and "\<forall>e \<in> set T. fst e < fst s" and "\<forall>e \<in> set D. fst s \<le> fst e"
  shows "sorted (map fst (T @ [s] @ D))"
  using assms by (fastforce simp: sorted_append)

text \<open>C29: Inserting a decode state into the sorted, non-empty list keeps it sorted exactly when some entry is
  not smaller than the new one: a request with more tokens left than all others goes before the last
  entry instead of behind it, and the list the budget simulation walks through is out of order.\<close>

theorem insert_req_state_sorted_iff:
  assumes "sorted (map fst ss)" and "ss \<noteq> []"
  shows "sorted (map fst (insert_req_state s ss)) \<longleftrightarrow> (\<exists>e \<in> set ss. fst s \<le> fst e)"
proof (cases "\<exists>e \<in> set ss. fst s \<le> fst e")
  case True
  let ?T = "takeWhile (\<lambda>e. fst e < fst s) ss" and ?D = "dropWhile (\<lambda>e. fst e < fst s) ss"
  have "take (length ?T) ss = ?T" "drop (length ?T) ss = ?D"
    by (metis append_eq_conv_conj takeWhile_dropWhile_id)+
  then have i: "insert_req_state s ss = ?T @ [s] @ ?D" using True by (simp add: insert_req_state_def insert_index_split Let_def)
  have st: "sorted (map fst (?T @ ?D))" using assms(1) by simp
  have T: "\<forall>e \<in> set ?T. fst e < fst s" by (auto dest: set_takeWhileD)
  have D: "\<forall>e \<in> set ?D. fst s \<le> fst e"
  proof (cases ?D)
    case (Cons d ds)
    then have "\<not> fst d < fst s" by (metis hd_dropWhile list.distinct(1) list.sel(1))
    then show ?thesis using st Cons by (auto simp: sorted_append)
  next
    case Nil
    then show ?thesis by (metis empty_iff empty_set)
  qed
  have "sorted (map fst (insert_req_state s ss))" unfolding i by (rule sorted_insert_mid[OF st T D])
  with True show ?thesis by simp
next
  case False
  then have "fst (List.last ss) < fst s" using assms(2) by (meson last_in_set not_le)
  moreover have "insert_req_state s ss = butlast ss @ [s, List.last ss]"
  proof -
    have "insert_index (fst s) ss 0 = length ss - 1" using False by (simp add: insert_index_split)
    moreover have "drop (length ss - 1) ss = [List.last ss]" using assms(2)
      by (metis append_butlast_last_id append_eq_conv_conj length_butlast)
    ultimately show ?thesis by (simp add: insert_req_state_def Let_def butlast_conv_take)
  qed
  ultimately show ?thesis using False by (auto simp: sorted_append)
qed

lemma insert_req_state_sorted_iff_witness:
  "insert_req_state (5, 1) [(1, 7), (3, 2)] = [(1, 7), (5, 1), (3, 2)] \<and>
   \<not> sorted (map fst (insert_req_state (5, 1) [(1 :: rat, 7), (3, 2)]))"
proof -
  have "sorted (map fst [(1 :: rat, 7 :: int), (3, 2)])" by simp
  from insert_req_state_sorted_iff[OF this, of "(5, 1)"] show ?thesis by (simp add: insert_req_state_def Let_def)
qed

end
