(* ===== verification/SchedulePolicy.thy ===== *)
theory SchedulePolicy
  imports "HOL-Library.Product_Lexorder" "HOL-Library.List_Lexorder" "HOL-Library.Char_ord" PrefillAdder
begin

text \<open>
  Ordering the waiting queue (class \<open>SchedulePolicy\<close> of \<open>managers/schedule_policy.py\<close>).  The policy sees
  the radix cache, the requests and, for in-batch prefix caching, a second radix tree over the queue.
  Python's sort is stable, as \<^const>\<open>sort_key\<close> is.  \<open>random.shuffle\<close> is the parameter \<open>shuffle\<close>.
  The depth-first walks recurse over the cache; their fuel is the number of nodes ever created, which
  bounds the depth.
\<close>

section \<open>Policies\<close>

datatype sched_policy = LPM | DFS_WEIGHT | FCFS | LOF | RANDOM | ROUTING_KEY

definition policy_of_name :: "string \<Rightarrow> sched_policy option" where
  "policy_of_name s = map_of [(''lpm'', LPM), (''dfs-weight'', DFS_WEIGHT), (''fcfs'', FCFS), (''lof'', LOF),
     (''random'', RANDOM), (''routing-key'', ROUTING_KEY)] s"

definition cache_aware :: "sched_policy \<Rightarrow> bool" where
  "cache_aware p \<longleftrightarrow> p = LPM \<or> p = DFS_WEIGHT"

definition validate_and_adjust_policy :: "string \<Rightarrow> radix_cache \<Rightarrow> py_error + sched_policy" where
  "validate_and_adjust_policy name c =
     (case policy_of_name name of None \<Rightarrow> Inl ValueError
      | Some p \<Rightarrow> Inr (if cache_aware p \<and> rc_disable c then FCFS else p))"

record schedule_policy =
  sp_policy :: sched_policy
  enable_priority_scheduling :: bool
  low_priority_values_first :: bool
  check_threshold :: int
  deprioritize_threshold :: int

definition priority_sign :: "schedule_policy \<Rightarrow> int" where
  "priority_sign sp = (if low_priority_values_first sp then 1 else -1)"

definition determine_active_policy :: "schedule_policy \<Rightarrow> sched_req list \<Rightarrow> sched_policy" where
  "determine_active_policy sp q = (if sp_policy sp = LPM \<and> length q > 128 then FCFS else sp_policy sp)"

section \<open>Prefix matches\<close>

definition match_prefix_for_req :: "sched_req \<Rightarrow> int list \<Rightarrow> radix_cache \<Rightarrow> (sched_req \<times> radix_cache) option" where
  "match_prefix_for_req r ids c = do {
     ((slots, n), c) \<leftarrow> match_prefix (RadixKey ids (req_extra_key r) False) c;
     Some (r\<lparr>prefix_indices := slots, last_node := Some n, host_hit_length := 0\<rparr>, c)
   }"

text \<open>
  A request with a short match waits when an earlier one of the queue shares enough of its prefix;
  otherwise its tokens enter the tree over the queue.
\<close>

definition full_key :: "sched_req \<Rightarrow> radix_key" where
  "full_key r = RadixKey (origin_input_ids r @ output_ids r) (req_extra_key r) False"

definition check_in_batch :: "schedule_policy \<Rightarrow> sched_req \<Rightarrow> radix_cache \<Rightarrow> (string list \<times> radix_cache) option" where
  "check_in_batch sp r w =
     (if int (length (prefix_indices r)) \<le> check_threshold sp then do {
        ((slots, _), w) \<leftarrow> match_prefix (full_key r) w;
        if int (length slots) \<ge> deprioritize_threshold sp then Some ([rid r], w)
        else do {
          (_, w) \<leftarrow> radix_insert (full_key r) (Some (replicate (length (origin_input_ids r @ output_ids r)) 0)) (Some 0) False w;
          Some ([], w)
        }
      } else Some ([], w))"

text \<open>The requests with their matches, the deprioritized ones, the cache and the tree over the queue.\<close>

fun compute_prefix_matches ::
  "schedule_policy \<Rightarrow> sched_req list \<Rightarrow> radix_cache \<Rightarrow> radix_cache \<Rightarrow>
   (sched_req list \<times> string list \<times> radix_cache \<times> radix_cache) option" where
  "compute_prefix_matches sp [] c w = Some ([], [], c, w)"
| "compute_prefix_matches sp (r # rs) c w = do {
     (r, c) \<leftarrow> match_prefix_for_req r (origin_input_ids r @ output_ids r) c;
     (dep, w) \<leftarrow> check_in_batch sp r w;
     (rs, deps, c, w) \<leftarrow> compute_prefix_matches sp rs c w;
     Some (r # rs, dep @ deps, c, w)
   }"

section \<open>The sorts\<close>

text \<open>The key of a deprioritized request is infinite.\<close>

definition longest_prefix_key :: "string list \<Rightarrow> sched_req \<Rightarrow> bool \<times> int" where
  "longest_prefix_key deps r = (if rid r \<in> set deps then (True, 0) else (False, - int (length (prefix_indices r))))"

definition sort_by_longest_prefix :: "string list \<Rightarrow> sched_req list \<Rightarrow> sched_req list" where
  "sort_by_longest_prefix deps q = sort_key (longest_prefix_key deps) q"

text \<open>Python computes the key of every request before it sorts: \<open>None * sign\<close> raises (here the result \<open>None\<close>).\<close>

definition priorities_given :: "sched_req list \<Rightarrow> bool" where
  "priorities_given q = list_all (\<lambda>r. req_priority r \<noteq> None) q"

definition priority_fcfs_key :: "int \<Rightarrow> sched_req \<Rightarrow> int \<times> rat" where
  "priority_fcfs_key sg r = (the (req_priority r) * sg, wait_queue_entry_time r)"

definition sort_by_priority_and_fcfs :: "int \<Rightarrow> sched_req list \<Rightarrow> sched_req list option" where
  "sort_by_priority_and_fcfs sg q = do {
     assert_that (priorities_given q);
     Some (sort_key (priority_fcfs_key sg) q)
   }"

definition priority_output_key :: "int \<Rightarrow> sched_req \<Rightarrow> int \<times> int" where
  "priority_output_key sg r = (the (req_priority r) * sg, - max_new_tokens r)"

definition sort_by_longest_output :: "bool \<Rightarrow> int \<Rightarrow> sched_req list \<Rightarrow> sched_req list option" where
  "sort_by_longest_output prio sg q =
     (if prio then do {
        assert_that (priorities_given q);
        Some (sort_key (priority_output_key sg) q)
      }
      else Some (sort_key (\<lambda>r. - max_new_tokens r) q))"

definition routing_key_count :: "sched_req list \<Rightarrow> string \<Rightarrow> int" where
  "routing_key_count running k = int (length (filter (\<lambda>r. routing_key r = Some k \<and> k \<noteq> []) running))"

definition routing_sort_key :: "sched_req list \<Rightarrow> sched_req \<Rightarrow> int \<times> int \<times> string" where
  "routing_sort_key running r =
     (let k = (case routing_key r of None \<Rightarrow> [] | Some k \<Rightarrow> k); n = routing_key_count running k
      in if n > 0 then (0, - n, k) else (1, 0, k))"

definition sort_by_routing_key :: "sched_req list \<Rightarrow> sched_req list \<Rightarrow> sched_req list" where
  "sort_by_routing_key running q =
     (if \<forall>r \<in> set running. routing_key r = None \<or> routing_key r = Some [] then q
      else sort_key (routing_sort_key running) q)"

fun weigh_children :: "(nid \<Rightarrow> (nid \<Rightarrow> nat) \<Rightarrow> (nid \<Rightarrow> nat) option) \<Rightarrow> nid \<Rightarrow> nid list \<Rightarrow> (nid \<Rightarrow> nat) \<Rightarrow> (nid \<Rightarrow> nat) option" where
  "weigh_children f n [] w = Some w"
| "weigh_children f n (ch # chs) w = do { w \<leftarrow> f ch w; weigh_children f n chs (w(n := w n + w ch)) }"

primrec calc_weight :: "nat \<Rightarrow> radix_cache \<Rightarrow> nid \<Rightarrow> (nid \<Rightarrow> nat) \<Rightarrow> (nid \<Rightarrow> nat) option" where
  "calc_weight 0 c n w = None"
| "calc_weight (Suc k) c n w =
     (case heap c n of None \<Rightarrow> None
      | Some nd \<Rightarrow> weigh_children (calc_weight k c) n (dict_values (children nd)) w)"

primrec get_dfs_priority ::
  "nat \<Rightarrow> radix_cache \<Rightarrow> (nid \<Rightarrow> nat) \<Rightarrow> (nid \<Rightarrow> sched_req list) \<Rightarrow> nid \<Rightarrow> sched_req list option" where
  "get_dfs_priority 0 c w reqs n = None"
| "get_dfs_priority (Suc k) c w reqs n =
     (case heap c n of None \<Rightarrow> None
      | Some nd \<Rightarrow>
          map_option (\<lambda>qs. concat qs @ reqs n)
            (those (map (get_dfs_priority k c w reqs) (sort_key (\<lambda>x. - int (w x)) (dict_values (children nd))))))"

definition reqs_at :: "sched_req list \<Rightarrow> nid \<Rightarrow> sched_req list" where
  "reqs_at q n = filter (\<lambda>r. last_node r = Some n) q"

definition sort_by_dfs_weight :: "radix_cache \<Rightarrow> sched_req list \<Rightarrow> sched_req list option" where
  "sort_by_dfs_weight c q = do {
     w \<leftarrow> calc_weight (node_counter c) c (root_node c) (\<lambda>n. length (reqs_at q n));
     get_dfs_priority (node_counter c) c w (reqs_at q) (root_node c)
   }"

section \<open>Ordering the queue\<close>

definition calc_priority ::
  "(sched_req list \<Rightarrow> sched_req list) \<Rightarrow> schedule_policy \<Rightarrow> sched_req list \<Rightarrow> sched_req list option \<Rightarrow>
   radix_cache \<Rightarrow> radix_cache \<Rightarrow> (sched_req list \<times> radix_cache \<times> radix_cache) option" where
  "calc_priority shuffle sp q running c w =
     (if sp_policy sp = FCFS
      then do {
        q \<leftarrow> (if enable_priority_scheduling sp then sort_by_priority_and_fcfs (priority_sign sp) q else Some q);
        Some (q, c, w)
      }
      else
        let pol = determine_active_policy sp q
        in if cache_aware pol then do {
             (q, deps, c, w) \<leftarrow> compute_prefix_matches sp q c (radix_reset w);
             q \<leftarrow> (if pol = LPM then Some (sort_by_longest_prefix deps q) else sort_by_dfs_weight c q);
             Some (q, c, w)
           }
           else do {
             q \<leftarrow> (case pol of
                LOF \<Rightarrow> sort_by_longest_output (enable_priority_scheduling sp) (priority_sign sp) q
              | RANDOM \<Rightarrow> Some (shuffle q)
              | ROUTING_KEY \<Rightarrow> Some (case running of None \<Rightarrow> q | Some rs \<Rightarrow> sort_by_routing_key rs q)
              | _ \<Rightarrow> Some q);
             Some (q, c, w)
           })"

text \<open>The policies that read the priorities, and the order that each policy promises.\<close>

definition reads_priorities :: "schedule_policy \<Rightarrow> bool" where
  "reads_priorities sp \<longleftrightarrow> enable_priority_scheduling sp \<and> (sp_policy sp = FCFS \<or> sp_policy sp = LOF)"

definition in_policy_order :: "schedule_policy \<Rightarrow> sched_req list \<Rightarrow> radix_cache \<Rightarrow> radix_cache \<Rightarrow> sched_req list \<Rightarrow> bool" where
  "in_policy_order sp q c w q' \<longleftrightarrow>
     (case determine_active_policy sp q of
        LPM \<Rightarrow> (\<exists>q1 deps c1 w1. compute_prefix_matches sp q c (radix_reset w) = Some (q1, deps, c1, w1) \<and>
                 mset q' = mset q1 \<and> sorted (map (longest_prefix_key deps) q'))
      | FCFS \<Rightarrow> (if reads_priorities sp then sorted (map (priority_fcfs_key (priority_sign sp)) q') else q' = q)
      | LOF \<Rightarrow> (if reads_priorities sp then sorted (map (priority_output_key (priority_sign sp)) q')
                else sorted (map (\<lambda>r. - max_new_tokens r) q'))
      | _ \<Rightarrow> True)"

section \<open>The walks cover the tree\<close>

definition below :: "nid set \<Rightarrow> (nid \<Rightarrow> slot_unit list) \<Rightarrow> nid \<Rightarrow> nid set" where
  "below N P n = {m \<in> N. prefix (P n) (P m)}"

lemma below_self: "n \<in> N \<Longrightarrow> n \<in> below N P n"
  by (simp add: below_def)

lemma child_list:
  assumes t: "tree c N P" and n: "n \<in> N"
  shows "distinct (dict_values (children (RadixInv.at c n)))"
    and "ch \<in> set (dict_values (children (RadixInv.at c n))) \<longleftrightarrow> (ch, n) \<in> up c N"
proof -
  have wf: "dict_wf (children (RadixInv.at c n))" using tree_children[OF t n] by (simp add: children_ok_def)
  have get: "dict_get (children (RadixInv.at c n)) ck = Some m" if "(ck, m) \<in> set (children (RadixInv.at c n))" for ck m
    using wf that by simp
  have "inj_on snd (set (children (RadixInv.at c n)))"
  proof (rule inj_onI)
    fix x y assume x: "x \<in> set (children (RadixInv.at c n))" and y: "y \<in> set (children (RadixInv.at c n))" and e: "snd x = snd y"
    obtain k1 m where x': "x = (k1, m)" by fastforce
    obtain k2 where y': "y = (k2, m)" using e x' by (metis prod.collapse snd_conv)
    have "Some k1 = Some k2"
      using tree_childD(4)[OF t n get] x y unfolding x' y' by metis
    then show "x = y" by (simp add: x' y')
  qed
  moreover have "distinct (children (RadixInv.at c n))" using wf by (metis distinct_map)
  ultimately show "distinct (dict_values (children (RadixInv.at c n)))" by (simp add: distinct_map)
  show "ch \<in> set (dict_values (children (RadixInv.at c n))) \<longleftrightarrow> (ch, n) \<in> up c N"
  proof
    assume "ch \<in> set (dict_values (children (RadixInv.at c n)))"
    then obtain ck where "(ck, ch) \<in> set (children (RadixInv.at c n))" by auto
    from up_child[OF t n get[OF this]] show "(ch, n) \<in> up c N" .
  next
    assume "(ch, n) \<in> up c N"
    from upD(6)[OF t this] obtain ck where "dict_get (children (RadixInv.at c n)) ck = Some ch" by blast
    then have "(ck, ch) \<in> set (children (RadixInv.at c n))" by (meson map_of_SomeD)
    then show "ch \<in> set (dict_values (children (RadixInv.at c n)))" by force
  qed
qed

lemma below_child:
  assumes t: "tree c N P" and u: "(ch, n) \<in> up c N"
  shows "below N P ch \<subset> below N P n"
proof -
  note K = upD[OF t u]
  have "prefix (P n) (P ch)" using K(4) by simp
  then have "below N P ch \<subseteq> below N P n" unfolding below_def using prefix_order.order_trans by blast
  moreover have "n \<notin> below N P ch" using K(5) prefix_length_le[of "P ch" "P n"] by (auto simp: below_def)
  ultimately show ?thesis using below_self[OF K(2), of P] by blast
qed

lemma below_unfold:
  assumes t: "tree c N P" and n: "n \<in> N"
  shows "below N P n = Set.insert n (\<Union>ch \<in> {ch. (ch, n) \<in> up c N}. below N P ch)"
proof
  show "below N P n \<subseteq> Set.insert n (\<Union>ch \<in> {ch. (ch, n) \<in> up c N}. below N P ch)"
  proof
    fix m assume m: "m \<in> below N P n"
    show "m \<in> Set.insert n (\<Union>ch \<in> {ch. (ch, n) \<in> up c N}. below N P ch)"
    proof (cases "m = n")
      case False
      have mN: "m \<in> N" and p: "prefix (U P n) (U P m)" using m by (auto simp: below_def prefix_def)
      from path_of_child[OF t n mN p False] obtain ch where "(ch, n) \<in> up c N" "prefix (P ch) (P m)" by blast
      then show ?thesis using mN by (auto simp: below_def)
    qed simp
  qed
  show "Set.insert n (\<Union>ch \<in> {ch. (ch, n) \<in> up c N}. below N P ch) \<subseteq> below N P n"
    using below_self[OF n] below_child[OF t] by blast
qed

lemma below_disjoint:
  assumes t: "tree c N P" and a: "(a, n) \<in> up c N" and b: "(b, n) \<in> up c N" and ne: "a \<noteq> b"
  shows "below N P a \<inter> below N P b = {}"
proof (rule ccontr)
  assume "below N P a \<inter> below N P b \<noteq> {}"
  then obtain m where "prefix (P a) (P m)" "prefix (P b) (P m)" by (auto simp: below_def)
  then have m: "prefix (U P a) (U P m)" "prefix (U P b) (U P m)" by (simp_all add: map_mono_prefix)
  from child_first_page[OF t a m(1)] child_first_page[OF t b m(2)] show False
    using siblings_first_page[OF t a b] ne by simp
qed

lemma sum_children:
  fixes f :: "nid \<Rightarrow> 'b :: comm_monoid_add"
  assumes t: "tree c N P" and n: "n \<in> N"
  shows "sum f (below N P n) = f n + (\<Sum>ch \<leftarrow> dict_values (children (RadixInv.at c n)). sum f (below N P ch))"
proof -
  let ?C = "{ch. (ch, n) \<in> up c N}"
  have fin: "finite (below N P x)" for x using tree_finite[OF t] by (simp add: below_def)
  have C: "set (dict_values (children (RadixInv.at c n))) = ?C" using child_list(2)[OF t n] by blast
  then have fC: "finite ?C" by (metis List.finite_set)
  have "n \<notin> (\<Union>ch \<in> ?C. below N P ch)" using upD(5)[OF t] prefix_length_le by (fastforce simp: below_def)
  then have "sum f (below N P n) = f n + sum f (\<Union>ch \<in> ?C. below N P ch)"
    unfolding below_unfold[OF t n] using fC fin by simp
  also have "sum f (\<Union>ch \<in> ?C. below N P ch) = (\<Sum>ch \<in> ?C. sum f (below N P ch))"
    by (rule sum.UNION_disjoint) (use fC fin below_disjoint[OF t] in auto)
  also have "\<dots> = (\<Sum>ch \<leftarrow> dict_values (children (RadixInv.at c n)). sum f (below N P ch))"
    using C child_list(1)[OF t n] by (metis sum_list_distinct_conv_sum_set)
  finally show ?thesis .
qed

lemma weigh_children_total:
  "(\<And>ch w. ch \<in> set chs \<Longrightarrow> \<exists>w'. f ch w = Some w') \<Longrightarrow> \<exists>w'. weigh_children f n chs w = Some w'"
proof (induction chs arbitrary: w)
  case (Cons ch chs)
  from Cons.prems[of ch w] obtain w1 where "f ch w = Some w1" by auto
  with Cons show ?case by simp
qed simp

lemma fuel_child:
  assumes t: "tree c N P" and u: "(ch, n) \<in> up c N" and k: "card (below N P n) \<le> Suc k"
  shows "card (below N P ch) \<le> k"
  using psubset_card_mono[OF _ below_child[OF t u]] tree_finite[OF t] k by (simp add: below_def)

lemma fuel_positive: "tree c N P \<Longrightarrow> n \<in> N \<Longrightarrow> card (below N P n) \<le> k \<Longrightarrow> \<exists>j. k = Suc j"
  using below_self[of n N P] tree_finite[of c N P]
  by (cases k) (auto simp: below_def)

lemma calc_weight_total:
  assumes t: "tree c N P"
  shows "n \<in> N \<Longrightarrow> card (below N P n) \<le> k \<Longrightarrow> \<exists>w'. calc_weight k c n w = Some w'"
proof (induction k arbitrary: n w)
  case 0
  then show ?case using fuel_positive[OF t] by blast
next
  case (Suc k)
  have "\<exists>w'. calc_weight k c ch w = Some w'" if "ch \<in> set (dict_values (children (RadixInv.at c n)))" for ch w
    using that Suc.IH[of ch w] child_list(2)[OF t Suc.prems(1)] upD(1)[OF t] fuel_child[OF t _ Suc.prems(2)] by blast
  then have "\<exists>w'. weigh_children (calc_weight k c) n (dict_values (children (RadixInv.at c n))) w = Some w'"
    by (rule weigh_children_total)
  then show ?case using tree_heap[OF t Suc.prems(1)] by simp
qed

lemma those_total: "(\<And>x. x \<in> set xs \<Longrightarrow> \<exists>y. f x = Some y) \<Longrightarrow> those (map f xs) = Some (map (the \<circ> f) xs)"
proof (induction xs)
  case (Cons x xs)
  from Cons.prems[of x] obtain y where "f x = Some y" by auto
  with Cons show ?case by simp
qed simp

lemma mset_concat_map: "mset (concat (map f xs)) = (\<Sum>x \<leftarrow> xs. mset (f x))"
  by (induction xs) simp_all

lemma sum_list_sort_key: "(\<Sum>x \<leftarrow> sort_key k xs. (f x :: 'b :: comm_monoid_add)) = (\<Sum>x \<leftarrow> xs. f x)"
  by (metis mset_map mset_sort sum_mset_sum_list)

lemma dfs_priority_mset:
  assumes t: "tree c N P"
  shows "n \<in> N \<Longrightarrow> card (below N P n) \<le> k \<Longrightarrow>
    \<exists>q. get_dfs_priority k c w reqs n = Some q \<and> mset q = (\<Sum>m \<in> below N P n. mset (reqs m))"
proof (induction k arbitrary: n)
  case 0
  then show ?case using fuel_positive[OF t] by blast
next
  case (Suc k)
  let ?f = "get_dfs_priority k c w reqs"
  let ?chs = "dict_values (children (RadixInv.at c n))"
  let ?sorted = "sort_key (\<lambda>x. - int (w x)) ?chs"
  have ch: "\<exists>q. ?f ch = Some q \<and> mset q = (\<Sum>m \<in> below N P ch. mset (reqs m))" if "ch \<in> set ?chs" for ch
    using that Suc.IH[of ch] child_list(2)[OF t Suc.prems(1)] upD(1)[OF t] fuel_child[OF t _ Suc.prems(2)] by blast
  have th: "those (map ?f ?sorted) = Some (map (the \<circ> ?f) ?sorted)"
    by (rule those_total) (use ch in auto)
  have "mset (concat (map (the \<circ> ?f) ?sorted)) = (\<Sum>x \<leftarrow> ?sorted. mset ((the \<circ> ?f) x))" by (rule mset_concat_map)
  also have "\<dots> = (\<Sum>x \<leftarrow> ?chs. mset ((the \<circ> ?f) x))" by (rule sum_list_sort_key)
  also have "\<dots> = (\<Sum>x \<leftarrow> ?chs. \<Sum>m \<in> below N P x. mset (reqs m))"
    by (rule arg_cong[of _ _ sum_list], rule map_cong[OF refl]) (use ch in force)
  finally show ?case using tree_heap[OF t Suc.prems(1)] th sum_children[OF t Suc.prems(1), of "\<lambda>m. mset (reqs m)"]
    by (simp add: add.commute)
qed

lemma dfs_weight_permutes:
  assumes i: "radix_inv c H" and q: "\<forall>r \<in> set q. \<exists>n xs. last_node r = Some n \<and> path_of c n xs"
  shows "\<exists>q'. sort_by_dfs_weight c q = Some q' \<and> mset q' = mset q"
proof -
  obtain N P where t: "tree c N P" using i by (auto simp: radix_inv_def)
  have all: "below N P (root_node c) = N" using tree_P_root[OF t] by (auto simp: below_def)
  have "N \<subseteq> {..<node_counter c}" using tree_fresh[OF t] by auto
  then have k: "card (below N P (root_node c)) \<le> node_counter c" unfolding all
    by (metis card_lessThan card_mono finite_lessThan)
  from calc_weight_total[OF t tree_root[OF t] k] obtain w where
    w: "calc_weight (node_counter c) c (root_node c) (\<lambda>n. length (reqs_at q n)) = Some w" by blast
  from dfs_priority_mset[OF t tree_root[OF t] k, of w "reqs_at q"] obtain q' where
    q': "get_dfs_priority (node_counter c) c w (reqs_at q) (root_node c) = Some q'" "mset q' = (\<Sum>m \<in> N. mset (reqs_at q m))"
    unfolding all by blast
  have "\<forall>r \<in> set q. \<exists>n \<in> N. last_node r = Some n" using q path_of_tree[OF t] by blast
  then have "(\<Sum>m \<in> N. mset (reqs_at q m)) = mset q"
  proof (induction q)
    case (Cons r q)
    obtain n where n: "n \<in> N" "last_node r = Some n" using Cons.prems by auto
    have "mset (reqs_at (r # q) m) = (if m = n then {#r#} else {#}) + mset (reqs_at q m)" for m
      using n(2) by (simp add: reqs_at_def)
    then have "(\<Sum>m \<in> N. mset (reqs_at (r # q) m)) = {#r#} + (\<Sum>m \<in> N. mset (reqs_at q m))"
      using n(1) tree_finite[OF t] by (simp add: sum.distrib)
    then show ?case using Cons by simp
  qed (simp add: reqs_at_def)
  then show ?thesis using w q' by (simp add: sort_by_dfs_weight_def)
qed

section \<open>The matches are right\<close>

lemma radix_reset_facts:
  assumes "plain_config w" and "0 < rc_page_size w"
  shows "radix_inv (radix_reset w) {#}" and "plain_config (radix_reset w)" and "cached (radix_reset w) ys \<longleftrightarrow> ys = []"
    and "lookup_units (radix_reset w) key = lookup_units w key"
proof -
  let ?c = "radix_reset w" and ?n = "node_counter w"
  have c: "rc_page_size ?c = rc_page_size w" "\<not> rc_disable ?c" "\<not> enable_kv_cache_events ?c"
    "root_node ?c = ?n" "node_counter ?c = Suc ?n" "evictable_size ?c = 0" "protected_size ?c = 0" "evictable_leaves ?c = []"
    "lock_ref (RadixInv.at ?c ?n) = 1" "children (RadixInv.at ?c ?n) = []" "node_value (RadixInv.at ?c ?n) = Some []" "heap ?c ?n \<noteq> None"
    using assms by (simp_all add: radix_reset_def tree_node_init_def monotonic_def upd_node_def plain_config_def
        record_all_cleared_event_def at_def Let_def)
  have t: "tree ?c {?n} (\<lambda>_. [])"
    using assms(2) c by (simp add: tree_def children_ok_def)
  have inn: "inner ?c {?n} = {}" using c(4) by (auto simp: inner_def)
  have ac: "accounts ?c {?n} (\<lambda>_. []) {#}"
    using c by (simp add: accounts_def locks_ok_def sizes_ok_def leaves_ok_def unlocked_def locked_def inn)
  show "radix_inv ?c {#}" using t ac by (auto simp: radix_inv_def)
  show "cached ?c ys \<longleftrightarrow> ys = []" by (simp add: cached_tree[OF t])
  show "plain_config ?c" using c by (simp add: plain_config_def)
  show "lookup_units ?c key = lookup_units w key"
    using assms by (simp add: lookup_units_def radix_reset_def tree_node_init_def monotonic_def upd_node_def
        record_all_cleared_event_def Let_def)
qed

lemma fits_full_key: "key_fits c (full_key r)" "key_fits c (RadixKey ids e False)"
  by (simp_all add: key_fits_def full_key_def RadixKey_def)

text \<open>A request with its match erased, and what a match of it must be.\<close>

definition unmatched :: "sched_req \<Rightarrow> sched_req" where
  "unmatched r = r\<lparr>prefix_indices := [], last_node := None, host_hit_length := 0\<rparr>"

definition longest_match :: "radix_cache \<Rightarrow> sched_req \<Rightarrow> bool" where
  "longest_match c r \<longleftrightarrow> (\<exists>xs. cached c xs \<and> prefix_indices r = map snd xs \<and> prefix (map fst xs) (lookup_units c (full_key r)) \<and>
     (\<forall>ys. cached c ys \<and> rc_page_size c dvd length ys \<and> prefix (map fst ys) (lookup_units c (full_key r)) \<longrightarrow>
        length ys \<le> length xs))"

definition node_of_match :: "radix_cache \<Rightarrow> sched_req \<Rightarrow> bool" where
  "node_of_match c r \<longleftrightarrow> (\<exists>n xs. last_node r = Some n \<and> path_of c n xs \<and> prefix_indices r = map snd xs)"

lemma longest_match_cong: "keeps c c' \<Longrightarrow> (\<And>ys. cached c' ys = cached c ys) \<Longrightarrow> longest_match c' r = longest_match c r"
  by (simp add: longest_match_def keeps_lookup) (simp add: keeps_def)

lemma match_for_req_ok:
  assumes "radix_inv c H" and "plain_config c"
  shows "\<exists>r' c'. match_prefix_for_req r (origin_input_ids r @ output_ids r) c = Some (r', c') \<and> radix_inv c' H \<and>
    plain_config c' \<and> keeps c c' \<and> rc_alloc c' = rc_alloc c \<and> (\<forall>ys. cached c' ys = cached c ys) \<and>
    (\<forall>n ys. path_of c n ys \<longrightarrow> path_of c' n ys) \<and> unmatched r' = unmatched r \<and> full_key r' = full_key r \<and> rid r' = rid r \<and>
    longest_match c r' \<and> node_of_match c' r'"
proof -
  from match_prefix_spec[OF assms fits_full_key(1)[of c r]] obtain slots n c' xs where m:
    "match_prefix (full_key r) c = Some ((slots, n), c')" "radix_inv c' H" "keeps c c'" "rc_alloc c' = rc_alloc c"
    "\<forall>m ys. path_of c m ys \<longrightarrow> path_of c' m ys" "\<forall>ys. cached c' ys = cached c ys" "path_of c' n xs" "cached c xs"
    "slots = map snd xs" "prefix (map fst xs) (lookup_units c (full_key r))"
    "\<forall>ys. cached c ys \<and> rc_page_size c dvd length ys \<and> prefix (map fst ys) (lookup_units c (full_key r)) \<longrightarrow>
       length ys \<le> length slots" by blast
  let ?r = "r\<lparr>prefix_indices := slots, last_node := Some n, host_hit_length := 0\<rparr>"
  have k: "full_key ?r = full_key r" by (simp add: full_key_def)
  have "match_prefix_for_req r (origin_input_ids r @ output_ids r) c = Some (?r, c')"
    using m(1) by (simp add: match_prefix_for_req_def full_key_def)
  moreover have "unmatched ?r = unmatched r" by (simp add: unmatched_def)
  moreover have "longest_match c ?r" unfolding longest_match_def k using m(8-11) by (intro exI[of _ xs]) simp
  moreover have "node_of_match c' ?r" using m(7,9) by (auto simp: node_of_match_def)
  ultimately show ?thesis using m(2-6) keeps_plain[OF m(3) assms(2)] k by (intro exI[of _ ?r] exI[of _ c']) auto
qed

lemma check_in_batch_ok:
  assumes "radix_inv w H" and "plain_config w"
  shows "\<exists>dep w'. check_in_batch sp r w = Some (dep, w') \<and> radix_inv w' H \<and> plain_config w' \<and> keeps w w' \<and>
    (dep = [] \<and> (\<forall>ys. cached w' ys \<longrightarrow> cached w ys \<or> prefix (map fst ys) (lookup_units w (full_key r))) \<or>
     dep = [rid r] \<and> (\<forall>ys. cached w' ys = cached w ys) \<and>
       int (length (prefix_indices r)) \<le> check_threshold sp \<and>
       (\<exists>ys. cached w ys \<and> deprioritize_threshold sp \<le> int (length ys) \<and> prefix (map fst ys) (lookup_units w (full_key r))))"
proof (cases "int (length (prefix_indices r)) \<le> check_threshold sp")
  case False
  then show ?thesis using assms by (simp add: check_in_batch_def keeps_refl)
next
  case True
  let ?k = "full_key r"
  from match_prefix_spec[OF assms fits_full_key(1)[of w r]] obtain slots n w1 xs where m:
    "match_prefix ?k w = Some ((slots, n), w1)" "radix_inv w1 H" "keeps w w1"
    "\<forall>ys. cached w1 ys = cached w ys" "cached w xs" "slots = map snd xs" "prefix (map fst xs) (lookup_units w ?k)" by blast
  note p = keeps_plain[OF m(3) assms(2)]
  show ?thesis
  proof (cases "deprioritize_threshold sp \<le> int (length slots)")
    case dep: True
    with m True have "check_in_batch sp r w = Some ([rid r], w1)" by (simp add: check_in_batch_def)
    then show ?thesis using m dep p True by auto
  next
    case False
    let ?v = "replicate (length (origin_input_ids r @ output_ids r)) (0 :: int)"
    have "length (lookup_units w1 ?k) \<le> length ?v"
      unfolding full_key_def length_replicate by (rule lookup_units_le)
    from insert_spec[OF m(2) p fits_full_key(1)[of w1 r] this, of "Some 0" False] obtain k w2 zs where i:
      "radix_insert ?k (Some ?v) (Some 0) False w1 = Some (k, w2)" "radix_inv w2 H" "keeps w1 w2"
      "map fst zs = lookup_units w1 ?k" "\<forall>ys. cached w2 ys \<longleftrightarrow> cached w1 ys \<or> prefix ys zs" by blast
    have "check_in_batch sp r w = Some ([], w2)" using m(1) True False i(1) by (simp add: check_in_batch_def)
    moreover have "prefix (map fst ys) (lookup_units w ?k)" if "prefix ys zs" for ys
      using map_mono_prefix[OF that, of fst] i(4) keeps_lookup[OF m(3)] by simp
    ultimately show ?thesis using i(2,5) m(4) keeps_plain[OF i(3) p] keeps_trans[OF m(3) i(3)] by auto
  qed
qed

lemma compute_matches_ok:
  "radix_inv c H \<Longrightarrow> plain_config c \<Longrightarrow> radix_inv w G \<Longrightarrow> plain_config w \<Longrightarrow>
   \<exists>q' deps c' w'. compute_prefix_matches sp q c w = Some (q', deps, c', w') \<and> radix_inv c' H \<and> plain_config c' \<and>
     keeps c c' \<and> rc_alloc c' = rc_alloc c \<and> (\<forall>ys. cached c' ys = cached c ys) \<and>
     (\<forall>n ys. path_of c n ys \<longrightarrow> path_of c' n ys) \<and> radix_inv w' G \<and> plain_config w' \<and> keeps w w' \<and>
     map unmatched q' = map unmatched q \<and> (\<forall>r \<in> set q'. longest_match c r \<and> node_of_match c' r)"
proof (induction q arbitrary: c w)
  case Nil
  then show ?case by (simp add: keeps_refl)
next
  case (Cons r q)
  from match_for_req_ok[OF Cons.prems(1,2), of r] obtain r' c1 where m:
    "match_prefix_for_req r (origin_input_ids r @ output_ids r) c = Some (r', c1)" "radix_inv c1 H"
    "plain_config c1" "keeps c c1" "rc_alloc c1 = rc_alloc c" "\<And>ys. cached c1 ys = cached c ys"
    "\<forall>n ys. path_of c n ys \<longrightarrow> path_of c1 n ys" "unmatched r' = unmatched r" "longest_match c r'" "node_of_match c1 r'" by blast
  from check_in_batch_ok[OF Cons.prems(3,4), of sp r'] obtain dep w1 where b:
    "check_in_batch sp r' w = Some (dep, w1)" "radix_inv w1 G" "plain_config w1" "keeps w w1" by blast
  from Cons.IH[OF m(2,3) b(2,3)] obtain q' deps c2 w2 where i:
    "compute_prefix_matches sp q c1 w1 = Some (q', deps, c2, w2)" "radix_inv c2 H" "plain_config c2" "keeps c1 c2"
    "rc_alloc c2 = rc_alloc c1" "\<forall>ys. cached c2 ys = cached c1 ys" "\<forall>n ys. path_of c1 n ys \<longrightarrow> path_of c2 n ys"
    "radix_inv w2 G" "plain_config w2" "keeps w1 w2" "map unmatched q' = map unmatched q"
    "\<forall>r \<in> set q'. longest_match c1 r \<and> node_of_match c2 r" by blast
  have "compute_prefix_matches sp (r # q) c w = Some (r' # q', dep @ deps, c2, w2)" using m(1) b(1) i(1) by simp
  moreover have "node_of_match c2 r'" using m(10) i(7) by (auto simp: node_of_match_def)
  moreover have "longest_match c1 x = longest_match c x" for x by (rule longest_match_cong[OF m(4,6)])
  ultimately show ?case
    using m i(2-12) keeps_trans[OF m(4) i(4)] keeps_trans[OF b(4) i(10)] by auto
qed

text \<open>Every non-trivial prefix in the tree over the queue comes from a request that does not wait.\<close>

lemma deprioritized_ok:
  "compute_prefix_matches sp q c w = Some (q', deps, c', w') \<Longrightarrow> radix_inv c H \<Longrightarrow> plain_config c \<Longrightarrow>
   radix_inv w G \<Longrightarrow> plain_config w \<Longrightarrow> distinct (map rid (pre @ q)) \<Longrightarrow> S \<subseteq> set pre \<Longrightarrow> 0 < deprioritize_threshold sp \<Longrightarrow>
   (\<And>ys. cached w ys \<Longrightarrow> ys \<noteq> [] \<Longrightarrow> \<exists>s \<in> S. prefix (map fst ys) (lookup_units w (full_key s))) \<Longrightarrow>
   set deps \<subseteq> rid ` set q \<and>
   (\<forall>d \<in> set deps. \<exists>q1 r q2 s us. q = q1 @ r # q2 \<and> rid r = d \<and> s \<in> S \<union> set q1 \<and> rid s \<notin> set deps \<and>
      prefix us (lookup_units w (full_key r)) \<and> prefix us (lookup_units w (full_key s)) \<and>
      deprioritize_threshold sp \<le> int (length us))"
proof (induction q arbitrary: c w q' deps c' w' pre S)
  case Nil
  then show ?case by simp
next
  case (Cons r q)
  from match_for_req_ok[OF Cons.prems(2,3), of r] obtain r' c1 where m:
    "match_prefix_for_req r (origin_input_ids r @ output_ids r) c = Some (r', c1)" "radix_inv c1 H"
    "plain_config c1" "full_key r' = full_key r" "rid r' = rid r" by blast
  from check_in_batch_ok[OF Cons.prems(4,5), of sp r'] obtain dep w1 where b:
    "check_in_batch sp r' w = Some (dep, w1)" "radix_inv w1 G" "plain_config w1" "keeps w w1"
    "dep = [] \<and> (\<forall>ys. cached w1 ys \<longrightarrow> cached w ys \<or> prefix (map fst ys) (lookup_units w (full_key r))) \<or>
     dep = [rid r] \<and> (\<forall>ys. cached w1 ys = cached w ys) \<and>
       (\<exists>ys. cached w ys \<and> deprioritize_threshold sp \<le> int (length ys) \<and> prefix (map fst ys) (lookup_units w (full_key r)))"
    unfolding m(4,5) by blast
  from Cons.prems(1) m(1) b(1) obtain q1' deps1 w2 where
    i: "compute_prefix_matches sp q c1 w1 = Some (q1', deps1, c', w2)" "deps = dep @ deps1"
    by (auto split: bind_splits)
  define S1 where "S1 = (if dep = [] then Set.insert r S else S)"
  have dist: "distinct (map rid ((pre @ [r]) @ q))" and S1: "S1 \<subseteq> set (pre @ [r])"
    using Cons.prems(6,7) by (auto simp: S1_def)
  have lu: "lookup_units w1 k = lookup_units w k" for k using keeps_lookup[OF b(4)] .
  have src: "\<exists>s \<in> S1. prefix (map fst ys) (lookup_units w1 (full_key s))" if "cached w1 ys" "ys \<noteq> []" for ys
    using b(5) that Cons.prems(9)[of ys] unfolding lu S1_def by (cases "dep = []") auto
  have IH: "set deps1 \<subseteq> rid ` set q" and
    later: "\<forall>d \<in> set deps1. \<exists>q1 x q2 s us. q = q1 @ x # q2 \<and> rid x = d \<and> s \<in> S1 \<union> set q1 \<and> rid s \<notin> set deps1 \<and>
      prefix us (lookup_units w (full_key x)) \<and> prefix us (lookup_units w (full_key s)) \<and>
      deprioritize_threshold sp \<le> int (length us)"
    using Cons.IH[OF i(1) m(2,3) b(2,3) dist S1 Cons.prems(8) src] unfolding lu by blast+
  have clash: "rid s \<notin> set dep" if "s \<in> S1 \<union> set q1" "q = q1 @ x' # q2" for s q1 x' q2
  proof -
    have ne: "rid x \<noteq> rid r" if "x \<in> S \<union> set q1" for x
    proof -
      have "x \<in> set pre \<union> set q" using that \<open>q = q1 @ x' # q2\<close> Cons.prems(7) by auto
      then have "rid x \<in> rid ` (set pre \<union> set q)" by (rule imageI)
      then show ?thesis using Cons.prems(6) by auto
    qed
    from b(5) have "dep = [] \<or> dep = [rid r]" by blast
    then show ?thesis using ne \<open>s \<in> S1 \<union> set q1\<close> by (auto simp: S1_def)
  qed
  have old: "rid s \<notin> set deps1" if "s \<in> S" for s
  proof -
    have "rid s \<in> rid ` set pre" using that Cons.prems(7) by blast
    then show ?thesis using IH Cons.prems(6) by auto
  qed
  have here: "\<exists>q1 x q2 s us. r # q = q1 @ x # q2 \<and> rid x = d \<and> s \<in> S \<union> set q1 \<and> rid s \<notin> set deps \<and>
      prefix us (lookup_units w (full_key x)) \<and> prefix us (lookup_units w (full_key s)) \<and>
      deprioritize_threshold sp \<le> int (length us)" if d: "d \<in> set dep" for d
  proof -
    from d b(5) obtain ys where dep: "dep = [rid r]" "d = rid r" and ys: "cached w ys"
      "deprioritize_threshold sp \<le> int (length ys)" "prefix (map fst ys) (lookup_units w (full_key r))" by auto
    then have "ys \<noteq> []" using Cons.prems(8) by auto
    from Cons.prems(9)[OF ys(1) this] obtain s where s: "s \<in> S" "prefix (map fst ys) (lookup_units w (full_key s))" by blast
    have "rid s \<in> rid ` set pre" using s(1) Cons.prems(7) by blast
    then have "rid s \<noteq> rid r" using Cons.prems(6) by auto
    then show ?thesis using s ys dep old[OF s(1)] i(2)
      by (intro exI[of _ "[]"] exI[of _ r] exI[of _ q] exI[of _ s] exI[of _ "map fst ys"]) simp
  qed
  have there: "\<exists>q1 x q2 s us. r # q = q1 @ x # q2 \<and> rid x = d \<and> s \<in> S \<union> set q1 \<and> rid s \<notin> set deps \<and>
      prefix us (lookup_units w (full_key x)) \<and> prefix us (lookup_units w (full_key s)) \<and>
      deprioritize_threshold sp \<le> int (length us)" if d: "d \<in> set deps1" for d
  proof -
    from later d obtain q1 x q2 s us where l: "q = q1 @ x # q2" "rid x = d" "s \<in> S1 \<union> set q1" "rid s \<notin> set deps1"
      "prefix us (lookup_units w (full_key x))" "prefix us (lookup_units w (full_key s))"
      "deprioritize_threshold sp \<le> int (length us)" by blast
    have "s \<in> S \<union> set (r # q1)" using l(3) by (auto simp: S1_def split: if_splits)
    moreover have "rid s \<notin> set deps" using l(4) clash[OF l(3,1)] i(2) by simp
    ultimately show ?thesis using l
      by (intro exI[of _ "r # q1"] exI[of _ x] exI[of _ q2] exI[of _ s] exI[of _ us]) simp
  qed
  have "set dep \<subseteq> {rid r}" using b(5) by auto
  then show ?case using IH here there i(2) by auto
qed

section \<open>Properties\<close>

lemma mset_map_eqI: "mset xs = mset ys \<Longrightarrow> mset (map f xs) = mset (map f ys)"
  by simp

lemma calc_priority_ok:
  assumes "radix_inv c H" and "plain_config c" and "plain_config w" and "0 < rc_page_size w"
    and "\<And>q. mset (shuffle q) = mset q" and pr: "reads_priorities sp \<Longrightarrow> priorities_given q"
  shows "\<exists>q' c' w'. calc_priority shuffle sp q running c w = Some (q', c', w') \<and>
    mset (map unmatched q') = mset (map unmatched q) \<and> radix_inv c' H \<and> plain_config w' \<and> 0 < rc_page_size w' \<and>
    rc_alloc c' = rc_alloc c \<and> (\<forall>ys. cached c' ys = cached c ys) \<and> keeps c c' \<and>
    (\<forall>n ys. path_of c n ys \<longrightarrow> path_of c' n ys) \<and>
    (determine_active_policy sp q = LPM \<longrightarrow> (\<forall>r \<in> set q'. longest_match c r)) \<and> in_policy_order sp q c w q'"
proof -
  note R = radix_reset_facts[OF assms(3,4)]
  from compute_matches_ok[OF assms(1,2) R(1,2), of sp q] obtain q1 deps c1 w1 where m:
    "compute_prefix_matches sp q c (radix_reset w) = Some (q1, deps, c1, w1)" "radix_inv c1 H" "plain_config c1"
    "rc_alloc c1 = rc_alloc c" "\<forall>ys. cached c1 ys = cached c ys" "plain_config w1" "keeps (radix_reset w) w1"
    "map unmatched q1 = map unmatched q" "\<forall>r \<in> set q1. longest_match c r" "\<forall>r \<in> set q1. node_of_match c1 r"
    "keeps c c1" "\<forall>n ys. path_of c n ys \<longrightarrow> path_of c1 n ys" by blast
  have "rc_page_size (radix_reset w) = rc_page_size w"
    by (simp add: radix_reset_def tree_node_init_def monotonic_def upd_node_def record_all_cleared_event_def Let_def)
  then have ps: "0 < rc_page_size w1" using m(7) assms(4) by (simp add: keeps_def)
  from dfs_weight_permutes[OF m(2)] m(10) obtain q2 where d: "sort_by_dfs_weight c1 q1 = Some q2" "mset q2 = mset q1"
    unfolding node_of_match_def by blast
  have d2: "mset (map unmatched q2) = mset (map unmatched q)" using d(2) m(8) by (metis mset_map)
  show ?thesis
  proof (cases "sp_policy sp = FCFS")
    case True
    then show ?thesis using assms
      by (simp add: calc_priority_def sort_by_priority_and_fcfs_def determine_active_policy_def keeps_refl in_policy_order_def
          reads_priorities_def assert_that_def)
  next
    case False
    consider "determine_active_policy sp q = LPM" | "determine_active_policy sp q = DFS_WEIGHT"
      | "\<not> cache_aware (determine_active_policy sp q)" by (auto simp: cache_aware_def)
    then show ?thesis
    proof cases
      case 1
      have "calc_priority shuffle sp q running c w = Some (sort_by_longest_prefix deps q1, c1, w1)"
        using False 1 m(1) by (simp add: calc_priority_def cache_aware_def)
      moreover have "mset (map unmatched (sort_by_longest_prefix deps q1)) = mset (map unmatched q)"
        using m(8) by (metis mset_map mset_sort sort_by_longest_prefix_def)
      moreover have "in_policy_order sp q c w (sort_by_longest_prefix deps q1)"
        unfolding in_policy_order_def 1 using m(1) by (simp add: sort_by_longest_prefix_def)
      moreover have "\<forall>r \<in> set (sort_by_longest_prefix deps q1). longest_match c r" using m(9) by (simp add: sort_by_longest_prefix_def)
      ultimately show ?thesis using m ps by auto
    next
      case 2
      have "calc_priority shuffle sp q running c w = Some (q2, c1, w1)"
        using False 2 m(1) d(1) by (simp add: calc_priority_def cache_aware_def)
      moreover have "in_policy_order sp q c w q2" unfolding in_policy_order_def 2 by simp
      ultimately show ?thesis using 2 m ps d2 by auto
    next
      case 3
      then show ?thesis using False assms
        by (cases "determine_active_policy sp q")
           (auto simp: calc_priority_def cache_aware_def sort_by_longest_output_def sort_by_routing_key_def keeps_refl in_policy_order_def
              reads_priorities_def determine_active_policy_def assert_that_def split: option.split if_splits)
    qed
  qed
qed

lemma calc_priority_raises:
  assumes "reads_priorities sp" and "\<not> priorities_given q"
  shows "calc_priority shuffle sp q running c w = None"
  using assms by (auto simp: calc_priority_def reads_priorities_def sort_by_priority_and_fcfs_def sort_by_longest_output_def
      determine_active_policy_def cache_aware_def assert_that_def)


text \<open>C21: Of requests that share a prefix within the queue one is not put back: a deprioritized request
  comes after a request that is not deprioritized and that has at least the threshold's number of
  units, tokens and extra key alike, in common with it.\<close>

theorem deprioritized_shares_prefix:
  assumes "compute_prefix_matches sp q c (radix_reset w) = Some (q', deps, c', w')"
    and "radix_inv c H" and "plain_config c" and "plain_config w" and "0 < rc_page_size w"
    and "distinct (map rid q)" and "0 < deprioritize_threshold sp" and "d \<in> set deps"
  shows "\<exists>q1 r q2 s us. q = q1 @ r # q2 \<and> rid r = d \<and> s \<in> set q1 \<and> rid s \<notin> set deps \<and>
      prefix us (lookup_units w (full_key r)) \<and> prefix us (lookup_units w (full_key s)) \<and>
      deprioritize_threshold sp \<le> int (length us)"
proof -
  note R = radix_reset_facts[OF assms(4,5)]
  have "distinct (map rid ([] @ q))" using assms(6) by simp
  from deprioritized_ok[OF assms(1-3) R(1,2) this, of "{}"] show ?thesis
    using assms(7,8) R(3,4) by auto
qed

definition demo_policy :: schedule_policy where
  "demo_policy = \<lparr>sp_policy = LPM, enable_priority_scheduling = False, low_priority_values_first = False,
     check_threshold = 32, deprioritize_threshold = 2\<rparr>"

definition demo_queue :: "sched_req list" where
  "demo_queue = [demo_waiting, demo_waiting\<lparr>rid := ''r2''\<rparr>]"

lemma check_in_batch_first:
  assumes "radix_inv w H" and "plain_config w" and "\<And>ys. cached w ys \<longleftrightarrow> ys = []"
    and "int (length (prefix_indices r)) \<le> check_threshold sp" and "0 < deprioritize_threshold sp"
  shows "\<exists>w'. check_in_batch sp r w = Some ([], w') \<and> radix_inv w' H \<and> plain_config w' \<and> keeps w w' \<and>
    (\<exists>xs. cached w' xs \<and> map fst xs = lookup_units w (full_key r))"
proof -
  let ?k = "full_key r" and ?v = "replicate (length (origin_input_ids r @ output_ids r)) (0 :: int)"
  from match_prefix_spec[OF assms(1,2) fits_full_key(1)[of w r]] obtain slots n w1 xs where m:
    "match_prefix ?k w = Some ((slots, n), w1)" "radix_inv w1 H" "keeps w w1" "cached w xs" "slots = map snd xs" by blast
  note p = keeps_plain[OF m(3) assms(2)]
  have "length (lookup_units w1 ?k) \<le> length ?v" unfolding full_key_def length_replicate by (rule lookup_units_le)
  from insert_spec[OF m(2) p fits_full_key(1)[of w1 r] this, of "Some 0" False] obtain k w2 zs where i:
    "radix_insert ?k (Some ?v) (Some 0) False w1 = Some (k, w2)" "radix_inv w2 H" "keeps w1 w2"
    "cached w2 zs" "map fst zs = lookup_units w1 ?k" by blast
  have "check_in_batch sp r w = Some ([], w2)" using m(1,4,5) i(1) assms(3-5) by (simp add: check_in_batch_def)
  then show ?thesis using i(2,4,5) keeps_plain[OF i(3) p] keeps_trans[OF m(3) i(3)] keeps_lookup[OF m(3)] by auto
qed

lemma check_in_batch_known:
  assumes "radix_inv w H" and "plain_config w" and "cached w xs" and "map fst xs = lookup_units w (full_key r)"
    and "int (length (prefix_indices r)) \<le> check_threshold sp" and "deprioritize_threshold sp \<le> int (length xs)"
    and "rc_page_size w = 1"
  shows "\<exists>w'. check_in_batch sp r w = Some ([rid r], w')"
proof -
  from match_prefix_spec[OF assms(1,2) fits_full_key(1)[of w r]] obtain slots n w1 where m:
    "match_prefix (full_key r) w = Some ((slots, n), w1)"
    "\<forall>ys. cached w ys \<and> rc_page_size w dvd length ys \<and> prefix (map fst ys) (lookup_units w (full_key r)) \<longrightarrow> length ys \<le> length slots"
    by blast
  from m(2)[rule_format, of xs] assms(3,4,6,7) have "deprioritize_threshold sp \<le> int (length slots)" by simp
  then show ?thesis using m(1) assms(5) by (simp add: check_in_batch_def)
qed

lemma demo_deprioritized:
  assumes "radix_inv c H" and "plain_config c" and e: "\<And>ys. cached c ys \<longleftrightarrow> ys = []"
    and "rc_page_size c = 1" and "\<not> rc_is_eagle c"
  shows "\<exists>q' c' w'. compute_prefix_matches demo_policy demo_queue c (radix_reset c) = Some (q', [''r2''], c', w')"
proof -
  let ?r = demo_waiting and ?w = "radix_reset c"
  note d = demo_waiting_def demo_policy_def demo_req_def request.defs
  have ps: "0 < rc_page_size c" using assms(4) by simp
  note R = radix_reset_facts[OF assms(2) ps]
  have k: "full_key (?r\<lparr>rid := ''r2''\<rparr>) = full_key ?r" by (simp add: full_key_def)
  from match_for_req_ok[OF assms(1,2), of ?r] obtain r1 c1 where m:
    "match_prefix_for_req ?r (origin_input_ids ?r @ output_ids ?r) c = Some (r1, c1)" "radix_inv c1 H" "plain_config c1"
    "keeps c c1" "\<And>ys. cached c1 ys = cached c ys" "full_key r1 = full_key ?r" "longest_match c r1" by blast
  have p1: "prefix_indices r1 = []" using m(7) e by (auto simp: longest_match_def)
  from check_in_batch_first[OF R(1,2,3), of r1 demo_policy] p1 obtain w1 xs where b:
    "check_in_batch demo_policy r1 ?w = Some ([], w1)" "radix_inv w1 {#}" "plain_config w1" "keeps ?w w1"
    "cached w1 xs" "map fst xs = lookup_units c (full_key ?r)" unfolding m(6) R(4) by (auto simp: d)
  from match_for_req_ok[OF m(2,3), of "?r\<lparr>rid := ''r2''\<rparr>"] obtain r2 c2 where n:
    "match_prefix_for_req (?r\<lparr>rid := ''r2''\<rparr>) (origin_input_ids ?r @ output_ids ?r) c1 = Some (r2, c2)"
    "full_key r2 = full_key ?r" "rid r2 = ''r2''" "longest_match c1 r2" unfolding k by auto
  have p2: "prefix_indices r2 = []" using n(4) e m(5) by (auto simp: longest_match_def)
  have l: "length (lookup_units c (full_key ?r)) = 3"
    using assms(4,5) by (simp add: lookup_units_def full_key_def maybe_to_bigram_view_def RadixKey_def units_def rk_iter_def
        rk_len_def Let_def d)
  have "rc_page_size w1 = 1" using b(4) assms(4)
    by (simp add: keeps_def radix_reset_def tree_node_init_def monotonic_def upd_node_def record_all_cleared_event_def Let_def)
  moreover have "map fst xs = lookup_units w1 (full_key r2)" using b(6) keeps_lookup[OF b(4)] by (simp add: R(4) n(2))
  moreover have "length xs = 3" using b(6) l by (metis length_map)
  ultimately obtain w2 where "check_in_batch demo_policy r2 w1 = Some ([''r2''], w2)"
    using check_in_batch_known[OF b(2,3,5), of r2 demo_policy] p2 n(3) by (auto simp: d)
  then show ?thesis using m(1) b(1) n(1) by (simp add: demo_queue_def)
qed

lemma deprioritized_shares_prefix_witness:
  "\<exists>c q' c' w'. compute_prefix_matches demo_policy demo_queue c (radix_reset c) = Some (q', [''r2''], c', w') \<and>
     (\<exists>q1 r q2 s us. demo_queue = q1 @ r # q2 \<and> rid r = ''r2'' \<and> s \<in> set q1 \<and> rid s \<notin> set [''r2''] \<and>
        prefix us (lookup_units c (full_key r)) \<and> prefix us (lookup_units c (full_key s)) \<and> 2 \<le> int (length us))"
proof -
  obtain c where c: "radix_init False 1 False False False ''lru'' False int (\<lambda>bs. bs) (token_init 8 False) (pool_init 2 8) = Inr c"
    by (rule kv_demo)
  have e: "0 < (1 :: nat)" by simp
  note F = radix_init_facts[OF c e]
  have el: "\<not> rc_is_eagle c" using F(5) by simp
  from demo_deprioritized[OF F(1-3,6) el] obtain q' c' w' where
    m: "compute_prefix_matches demo_policy demo_queue c (radix_reset c) = Some (q', [''r2''], c', w')" by blast
  have ps: "0 < rc_page_size c" using F(6) by simp
  have "distinct (map rid demo_queue)" "0 < deprioritize_threshold demo_policy" and
    two: "deprioritize_threshold demo_policy = 2"
    by (simp_all add: demo_queue_def demo_waiting_def demo_policy_def request.defs)
  from deprioritized_shares_prefix[OF m F(1,2,2) ps this(1,2), of "''r2''", unfolded two] m show ?thesis
    by (intro exI[of _ c] exI[of _ q'] exI[of _ c'] exI[of _ w']) simp
qed


end
