(* ===== verification/InputBlocker.thy ===== *)
theory InputBlocker
  imports Sgl_Prelude
begin

text \<open>
  Blocking the input of all scheduler ranks around a weight update
  (\<open>managers/scheduler_input_blocker.py\<close>, \<open>utils/poll_based_barrier.py\<close>).  Every rank runs the same
  loop; the all-reduce of the barrier is the conjunction over the ranks, so a round of the whole
  system is the receive part of every rank, the conjunction, and the release part of every rank.
\<close>

section \<open>The barrier\<close>

record poll_barrier =
  pb_noop :: bool
  local_arrived :: bool

definition local_arrive :: "poll_barrier \<Rightarrow> poll_barrier option" where
  "local_arrive b = (if local_arrived b then None else Some (b\<lparr>local_arrived := True\<rparr>))"

text \<open>What a rank contributes to the all-reduce, and the conjunction all of them get back.\<close>

definition arrived_vote :: "poll_barrier \<Rightarrow> bool" where
  "arrived_vote b \<longleftrightarrow> pb_noop b \<or> local_arrived b"

definition poll_global_arrived :: "poll_barrier \<Rightarrow> bool \<Rightarrow> bool \<times> poll_barrier" where
  "poll_global_arrived b global_arrived =
     (let out = local_arrived b \<and> global_arrived
      in (out, if out then b\<lparr>local_arrived := False\<rparr> else b))"

section \<open>The blocker\<close>

datatype blocker_state = UNBLOCKED | BLOCKED | GLOBAL_UNBLOCK_BARRIER

datatype 'r recv_req = BlockReq | UnblockReq | OtherReq 'r

record 'r input_blocker =
  bl_state :: blocker_state
  pending_reqs :: "'r list"
  bl_noop :: bool
  unblock_barrier :: poll_barrier

definition blocker_init :: "bool \<Rightarrow> 'r input_blocker" where
  "blocker_init noop = \<lparr>bl_state = UNBLOCKED, pending_reqs = [], bl_noop = noop,
     unblock_barrier = \<lparr>pb_noop = noop, local_arrived = False\<rparr>\<rparr>"

definition change_state :: "blocker_state \<Rightarrow> blocker_state \<Rightarrow> 'r input_blocker \<Rightarrow> 'r input_blocker option" where
  "change_state original target b = (if bl_state b = original then Some (b\<lparr>bl_state := target\<rparr>) else None)"

definition execute_block_req :: "'r input_blocker \<Rightarrow> 'r input_blocker option" where
  "execute_block_req b = change_state UNBLOCKED BLOCKED b"

definition execute_unblock_req :: "'r input_blocker \<Rightarrow> 'r input_blocker option" where
  "execute_unblock_req b = do {
     b \<leftarrow> change_state BLOCKED GLOBAL_UNBLOCK_BARRIER b;
     bar \<leftarrow> local_arrive (unblock_barrier b);
     Some (b\<lparr>unblock_barrier := bar\<rparr>)
   }"

definition handle_arrive_unblock_barrier :: "'r input_blocker \<Rightarrow> ('r list \<times> 'r input_blocker) option" where
  "handle_arrive_unblock_barrier b = do {
     b \<leftarrow> change_state GLOBAL_UNBLOCK_BARRIER UNBLOCKED b;
     Some (pending_reqs b, b\<lparr>pending_reqs := []\<rparr>)
   }"

fun handle_recv_req :: "'r input_blocker \<Rightarrow> 'r recv_req \<Rightarrow> ('r list \<times> 'r input_blocker) option" where
  "handle_recv_req b BlockReq = map_option (Pair []) (execute_block_req b)"
| "handle_recv_req b UnblockReq = map_option (Pair []) (execute_unblock_req b)"
| "handle_recv_req b (OtherReq r) =
     (if bl_state b = UNBLOCKED then Some ([r], b)
      else Some ([], b\<lparr>pending_reqs := pending_reqs b @ [r]\<rparr>))"

fun handle_recv_reqs :: "'r input_blocker \<Rightarrow> 'r recv_req list \<Rightarrow> ('r list \<times> 'r input_blocker) option" where
  "handle_recv_reqs b [] = Some ([], b)"
| "handle_recv_reqs b (q # qs) = do {
     (out, b) \<leftarrow> handle_recv_req b q;
     (outs, b) \<leftarrow> handle_recv_reqs b qs;
     Some (out @ outs, b)
   }"

text \<open>\<open>handle\<close> up to the all-reduce (a rank with \<open>noop\<close> receives \<^const>\<open>None\<close>) and after it.\<close>

definition handle_before :: "'r input_blocker \<Rightarrow> 'r recv_req list option \<Rightarrow> ('r list \<times> 'r input_blocker) option" where
  "handle_before b recv =
     (if (recv = None) \<noteq> bl_noop b then None
      else (case recv of None \<Rightarrow> Some ([], b) | Some qs \<Rightarrow> handle_recv_reqs b qs))"

definition handle_after :: "bool \<Rightarrow> 'r list \<times> 'r input_blocker \<Rightarrow> ('r list \<times> 'r input_blocker) option" where
  "handle_after global_arrived = (\<lambda>(out, b).
     let (arrived, bar) = poll_global_arrived (unblock_barrier b) global_arrived;
         b = b\<lparr>unblock_barrier := bar\<rparr>
     in if bl_state b = GLOBAL_UNBLOCK_BARRIER \<and> arrived
        then map_option (\<lambda>(more, b). (out @ more, b)) (handle_arrive_unblock_barrier b)
        else Some (out, b))"

definition blocker_handle :: "'r input_blocker \<Rightarrow> 'r recv_req list option \<Rightarrow> bool \<Rightarrow> ('r list \<times> 'r input_blocker) option" where
  "blocker_handle b recv global_arrived = do { x \<leftarrow> handle_before b recv; handle_after global_arrived x }"

section \<open>One rank\<close>

fun plain_reqs :: "'r recv_req list \<Rightarrow> 'r list" where
  "plain_reqs [] = []"
| "plain_reqs (OtherReq r # qs) = r # plain_reqs qs"
| "plain_reqs (_ # qs) = plain_reqs qs"

text \<open>A rank that holds requests back is not unblocked, and it waits at the barrier in just that state.\<close>

definition blocker_inv :: "'r input_blocker \<Rightarrow> bool" where
  "blocker_inv b \<longleftrightarrow> (bl_state b = UNBLOCKED \<longrightarrow> pending_reqs b = []) \<and>
     (local_arrived (unblock_barrier b) \<longleftrightarrow> bl_state b = GLOBAL_UNBLOCK_BARRIER) \<and>
     (bl_noop b \<longrightarrow> bl_state b = UNBLOCKED) \<and> pb_noop (unblock_barrier b) = bl_noop b"

lemma blocker_inv_init [simp]: "blocker_inv (blocker_init noop)"
  by (simp add: blocker_inv_def blocker_init_def)

lemmas blocker_defs = change_state_def execute_block_req_def execute_unblock_req_def local_arrive_def
  handle_arrive_unblock_barrier_def poll_global_arrived_def

lemma handle_recv_req_ok:
  assumes "blocker_inv b" and "\<not> bl_noop b" and "handle_recv_req b q = Some (out, b')"
  shows "blocker_inv b' \<and> bl_noop b' = bl_noop b \<and> out @ pending_reqs b' = pending_reqs b @ plain_reqs [q]"
  using assms by (cases q) (auto simp: blocker_inv_def blocker_defs split: if_splits bind_splits)

lemma plain_reqs_Cons: "plain_reqs (q # qs) = plain_reqs [q] @ plain_reqs qs"
  by (cases q) simp_all

text \<open>What a call gives out and then holds is what it held before and received, in that order.\<close>

lemma handle_recv_reqs_ok:
  assumes "blocker_inv b" and "\<not> bl_noop b" and "handle_recv_reqs b qs = Some (out, b')"
  shows "blocker_inv b' \<and> bl_noop b' = bl_noop b \<and> out @ pending_reqs b' = pending_reqs b @ plain_reqs qs"
  using assms
proof (induction qs arbitrary: b out)
  case (Cons q qs)
  from Cons.prems(3) obtain o1 b1 o2 where s: "handle_recv_req b q = Some (o1, b1)"
    "handle_recv_reqs b1 qs = Some (o2, b')" "out = o1 @ o2" by (auto split: bind_splits)
  note A = handle_recv_req_ok[OF Cons.prems(1,2) s(1)]
  with Cons.IH[OF _ _ s(2)] Cons.prems(2) have
    "blocker_inv b'" "bl_noop b' = bl_noop b" "o2 @ pending_reqs b' = pending_reqs b1 @ plain_reqs qs" by auto
  with A s(3) show ?case unfolding plain_reqs_Cons[of q qs] by (metis append_assoc)
qed simp

definition received :: "'r recv_req list option \<Rightarrow> 'r list" where
  "received recv = (case recv of None \<Rightarrow> [] | Some qs \<Rightarrow> plain_reqs qs)"

lemma handle_before_ok:
  assumes "blocker_inv b" and "handle_before b recv = Some (out, b')"
  shows "blocker_inv b' \<and> bl_noop b' = bl_noop b \<and> out @ pending_reqs b' = pending_reqs b @ received recv"
  using assms handle_recv_reqs_ok[of b _ out b']
  by (cases recv) (auto simp: handle_before_def received_def split: if_splits)

lemma handle_after_ok:
  assumes "blocker_inv b"
  shows "\<exists>out' b'. handle_after ga (out, b) = Some (out', b') \<and> blocker_inv b' \<and> bl_noop b' = bl_noop b \<and>
    out' @ pending_reqs b' = out @ pending_reqs b \<and>
    bl_state b' = (if bl_state b = GLOBAL_UNBLOCK_BARRIER \<and> ga then UNBLOCKED else bl_state b)"
  using assms by (auto simp: handle_after_def blocker_inv_def blocker_defs Let_def)

lemma blocker_handle_ok:
  assumes "blocker_inv b" and "blocker_handle b recv ga = Some (out, b')"
  shows "blocker_inv b' \<and> out @ pending_reqs b' = pending_reqs b @ received recv"
proof -
  from assms(2) obtain o1 b1 where s: "handle_before b recv = Some (o1, b1)" "handle_after ga (o1, b1) = Some (out, b')"
    by (auto simp: blocker_handle_def split: bind_splits)
  note A = handle_before_ok[OF assms(1) s(1)]
  with handle_after_ok[of b1 ga o1] s(2) show ?thesis by auto
qed

fun blocker_run :: "'r input_blocker \<Rightarrow> ('r recv_req list option \<times> bool) list \<Rightarrow> ('r list \<times> 'r input_blocker) option" where
  "blocker_run b [] = Some ([], b)"
| "blocker_run b ((recv, ga) # xs) = do {
     (out, b) \<leftarrow> blocker_handle b recv ga;
     (outs, b) \<leftarrow> blocker_run b xs;
     Some (out @ outs, b)
   }"

lemma blocker_run_ok:
  assumes "blocker_inv b" and "blocker_run b xs = Some (outs, b')"
  shows "blocker_inv b' \<and> outs @ pending_reqs b' = pending_reqs b @ concat (map (\<lambda>x. received (fst x)) xs)"
  using assms
proof (induction xs arbitrary: b outs)
  case (Cons x xs)
  obtain recv ga where x: "x = (recv, ga)" by fastforce
  from Cons.prems(2) obtain o1 b1 o2 where s: "blocker_handle b recv ga = Some (o1, b1)"
    "blocker_run b1 xs = Some (o2, b')" "outs = o1 @ o2" by (auto simp: x split: bind_splits)
  note A = blocker_handle_ok[OF Cons.prems(1) s(1)]
  with Cons.IH[OF _ s(2)] have "blocker_inv b'" "o2 @ pending_reqs b' = pending_reqs b1 @ concat (map (\<lambda>x. received (fst x)) xs)"
    by auto
  with A s(3) x show ?case by simp
qed simp

text \<open>C26: No request is lost, duplicated or reordered by the input blocker: over any sequence of calls on a
  rank, with any answers of the barrier, what was handed on followed by what is still held back is
  exactly the sequence of ordinary requests received, and nothing is held back once the rank is
  unblocked.\<close>

theorem blocker_keeps_requests:
  assumes "blocker_run (blocker_init noop) xs = Some (outs, b)"
  shows "outs @ pending_reqs b = concat (map (\<lambda>x. received (fst x)) xs) \<and>
    (bl_state b = UNBLOCKED \<longrightarrow> outs = concat (map (\<lambda>x. received (fst x)) xs))"
  using blocker_run_ok[OF blocker_inv_init assms] by (auto simp: blocker_inv_def blocker_init_def)

lemma blocker_keeps_requests_witness:
  "\<exists>b. blocker_run (blocker_init False)
        [(Some [OtherReq (1 :: nat), BlockReq, OtherReq 2], False), (Some [UnblockReq, OtherReq 3], True)] = Some ([1, 2, 3], b) \<and>
     [1, 2, 3] @ pending_reqs b = [1, 2, 3]"
proof -
  let ?xs = "[(Some [OtherReq (1 :: nat), BlockReq, OtherReq 2], False), (Some [UnblockReq, OtherReq 3], True)]"
  obtain b where b: "blocker_run (blocker_init False) ?xs = Some ([1, 2, 3], b)"
    by (simp add: blocker_init_def blocker_handle_def handle_before_def handle_after_def blocker_defs Let_def)
  from blocker_keeps_requests[OF b] b show ?thesis by (simp add: received_def)
qed

section \<open>All ranks\<close>

text \<open>A round: every rank receives, the votes are conjoined, every rank polls.\<close>

definition blocker_round :: "'r input_blocker list \<Rightarrow> 'r recv_req list option list \<Rightarrow> ('r list \<times> 'r input_blocker) list option" where
  "blocker_round bs recvs = do {
     xs \<leftarrow> those (map2 handle_before bs recvs);
     those (map (handle_after (list_all (\<lambda>(out, b). arrived_vote (unblock_barrier b)) xs)) xs)
   }"

lemma those_Some: "those xs = Some ys \<longleftrightarrow> xs = map Some ys"
proof (induction xs arbitrary: ys)
  case (Cons x xs)
  then show ?case by (cases x; cases ys) auto
qed auto

text \<open>C27: The ranks are unblocked together: in a round of the whole system a rank that waits at the barrier is
  released exactly when every other rank waits there too (or takes no part); then all of them are
  unblocked in the same round with nothing held back, and otherwise all waiting ranks keep waiting.\<close>

theorem blockers_released_together:
  assumes "list_all blocker_inv bs" and "length recvs = length bs"
    and "those (map2 handle_before bs recvs) = Some xs" and "blocker_round bs recvs = Some ys"
  shows "list_all (\<lambda>(out, b). blocker_inv b) ys \<and> length ys = length xs \<and>
    (if \<forall>(out, b) \<in> set xs. bl_noop b \<or> bl_state b = GLOBAL_UNBLOCK_BARRIER
     then \<forall>(out, b) \<in> set ys. bl_state b = UNBLOCKED \<and> pending_reqs b = []
     else \<forall>i < length xs. bl_state (snd (ys ! i)) = bl_state (snd (xs ! i)) \<and> fst (ys ! i) = fst (xs ! i))"
proof -
  have xs: "map2 handle_before bs recvs = map Some xs" using assms(3) by (simp add: those_Some)
  let ?ga = "list_all (\<lambda>(out, b). arrived_vote (unblock_barrier b)) xs"
  have ys: "map (handle_after ?ga) xs = map Some ys" using assms(4) unfolding blocker_round_def assms(3) by (simp add: those_Some)
  have len: "length xs = length bs" using arg_cong[OF xs, of length] assms(2) by simp
  have ix: "blocker_inv (snd (xs ! i))" if "i < length xs" for i
  proof -
    have "handle_before (bs ! i) (recvs ! i) = Some (xs ! i)"
      using arg_cong[OF xs, of "\<lambda>l. l ! i"] that len assms(2) by simp
    moreover have "blocker_inv (bs ! i)" using assms(1) that len by (simp add: list_all_length)
    ultimately show ?thesis using handle_before_ok[of "bs ! i" "recvs ! i"] by (metis prod.collapse)
  qed
  have ly: "length ys = length xs" using arg_cong[OF ys, of length] by simp
  have hy: "handle_after ?ga (fst (xs ! i), snd (xs ! i)) = Some (ys ! i)" if "i < length xs" for i
    using arg_cong[OF ys, of "\<lambda>l. l ! i"] that ly by simp
  have iy: "blocker_inv (snd (ys ! i))" "bl_state (snd (ys ! i)) =
      (if bl_state (snd (xs ! i)) = GLOBAL_UNBLOCK_BARRIER \<and> ?ga then UNBLOCKED else bl_state (snd (xs ! i)))"
    "fst (ys ! i) @ pending_reqs (snd (ys ! i)) = fst (xs ! i) @ pending_reqs (snd (xs ! i))" if "i < length xs" for i
    using handle_after_ok[OF ix[OF that], of ?ga "fst (xs ! i)"] hy[OF that] by auto
  have same: "fst (ys ! i) = fst (xs ! i)" if "i < length xs" "\<not> ?ga" for i
    using hy[OF that(1)] that(2) by (auto simp: handle_after_def poll_global_arrived_def Let_def)
  have vote: "arrived_vote (unblock_barrier b) \<longleftrightarrow> bl_noop b \<or> bl_state b = GLOBAL_UNBLOCK_BARRIER" if "blocker_inv b" for b :: "'r input_blocker"
    using that by (auto simp: arrived_vote_def blocker_inv_def)
  have ga: "?ga \<longleftrightarrow> (\<forall>(out, b) \<in> set xs. bl_noop b \<or> bl_state b = GLOBAL_UNBLOCK_BARRIER)"
    using vote[OF ix] by (simp add: list_all_length all_set_conv_all_nth case_prod_beta)
  have all: "list_all (\<lambda>(out, b). blocker_inv b) ys" using iy(1) ly by (simp add: list_all_length case_prod_beta)
  have done_all: "bl_state (snd (ys ! i)) = UNBLOCKED \<and> pending_reqs (snd (ys ! i)) = []" if "?ga" "i < length xs" for i
  proof -
    have "bl_noop (snd (xs ! i)) \<or> bl_state (snd (xs ! i)) = GLOBAL_UNBLOCK_BARRIER"
      using that ga by (simp add: all_set_conv_all_nth case_prod_beta)
    then have "bl_state (snd (ys ! i)) = UNBLOCKED" using iy(2)[OF that(2)] ix[OF that(2)] that(1) by (auto simp: blocker_inv_def)
    then show ?thesis using iy(1)[OF that(2)] by (simp add: blocker_inv_def)
  qed
  show ?thesis
  proof (cases ?ga)
    case True
    then have "\<forall>(out, b) \<in> set ys. bl_state b = UNBLOCKED \<and> pending_reqs b = []"
      using done_all ly by (fastforce simp: in_set_conv_nth)
    with True all ly show ?thesis unfolding ga by simp
  next
    case False
    then have "\<forall>i < length xs. bl_state (snd (ys ! i)) = bl_state (snd (xs ! i)) \<and> fst (ys ! i) = fst (xs ! i)"
      using iy(2) same by auto
    with all ly show ?thesis unfolding if_not_P[OF False[unfolded ga]] by blast
  qed
qed

lemma blockers_released_together_witness:
  "\<exists>xs ys. those (map2 handle_before [blocker_init False, blocker_init False]
        [Some [BlockReq, OtherReq (5 :: nat), UnblockReq], Some [BlockReq, UnblockReq]]) = Some xs \<and>
     blocker_round [blocker_init False, blocker_init False]
        [Some [BlockReq, OtherReq (5 :: nat), UnblockReq], Some [BlockReq, UnblockReq]] = Some ys \<and>
     list_all (\<lambda>(out, b). blocker_inv b) ys \<and> length ys = length xs"
proof -
  let ?bs = "[blocker_init False, blocker_init False :: nat input_blocker]"
  let ?rs = "[Some [BlockReq, OtherReq (5 :: nat), UnblockReq], Some [BlockReq, UnblockReq]]"
  obtain xs where xs: "those (map2 handle_before ?bs ?rs) = Some xs"
    by (simp add: blocker_init_def handle_before_def blocker_defs)
  obtain ys where ys: "blocker_round ?bs ?rs = Some ys"
    by (simp add: blocker_round_def blocker_init_def handle_before_def handle_after_def blocker_defs arrived_vote_def)
  have "list_all blocker_inv ?bs" "length ?rs = length ?bs" by simp_all
  from blockers_released_together[OF this xs ys] xs ys show ?thesis by blast
qed

end
