(* ===== verification/AioRwLock.thy ===== *)
theory AioRwLock
  imports Sgl_Prelude
begin

text \<open>
  The asyncio readers-writer lock (\<open>utils/aio_rwlock.py\<close>) and the tasks that use it.  The methods run
  under an \<open>asyncio.Lock\<close>, so what a task does between two waits on the condition is one step.  A
  task that waits is suspended until \<open>notify_all\<close> wakes it, and then checks its condition again.
  Cancellation of a waiting task is not modelled.
\<close>

section \<open>The lock\<close>

record rwlock =
  rw_readers :: int
  writer_active :: bool
  waiting_writers :: int

definition rwlock_init :: rwlock where
  "rwlock_init = \<lparr>rw_readers = 0, writer_active = False, waiting_writers = 0\<rparr>"

definition is_locked :: "rwlock \<Rightarrow> bool" where
  "is_locked l \<longleftrightarrow> writer_active l \<or> rw_readers l > 0"

text \<open>\<open>None\<close>: the task has to wait.\<close>

definition reader_turn :: "rwlock \<Rightarrow> rwlock option" where
  "reader_turn l = (if writer_active l \<or> waiting_writers l > 0 then None else Some (l\<lparr>rw_readers := rw_readers l + 1\<rparr>))"

definition writer_queue :: "rwlock \<Rightarrow> rwlock" where
  "writer_queue l = l\<lparr>waiting_writers := waiting_writers l + 1\<rparr>"

definition writer_turn :: "rwlock \<Rightarrow> rwlock option" where
  "writer_turn l = (if writer_active l \<or> rw_readers l > 0 then None
     else Some (l\<lparr>writer_active := True, waiting_writers := waiting_writers l - 1\<rparr>))"

text \<open>The second component says whether all waiting tasks are notified.\<close>

definition release_reader :: "rwlock \<Rightarrow> rwlock \<times> bool" where
  "release_reader l = (let l = l\<lparr>rw_readers := rw_readers l - 1\<rparr> in (l, rw_readers l = 0))"

definition release_writer :: "rwlock \<Rightarrow> rwlock \<times> bool" where
  "release_writer l = (l\<lparr>writer_active := False\<rparr>, True)"

section \<open>Tasks\<close>

datatype task = Idle | WaitRead | WokenRead | Reading | WaitWrite | WokenWrite | Writing

fun wake :: "task \<Rightarrow> task" where
  "wake WaitRead = WokenRead"
| "wake WaitWrite = WokenWrite"
| "wake t = t"

definition notify :: "bool \<Rightarrow> task list \<Rightarrow> task list" where
  "notify all ts = (if all then map wake ts else ts)"

type_synonym rw_state = "rwlock \<times> task list"

inductive rw_step :: "rw_state \<Rightarrow> rw_state \<Rightarrow> bool" where
  enter_read: "\<lbrakk>i < length ts; ts ! i \<in> {Idle, WokenRead}; reader_turn l = Some l'\<rbrakk> \<Longrightarrow>
    rw_step (l, ts) (l', ts[i := Reading])"
| queue_read: "\<lbrakk>i < length ts; ts ! i \<in> {Idle, WokenRead}; reader_turn l = None\<rbrakk> \<Longrightarrow>
    rw_step (l, ts) (l, ts[i := WaitRead])"
| enter_write: "\<lbrakk>i < length ts; ts ! i = Idle; writer_turn (writer_queue l) = Some l'\<rbrakk> \<Longrightarrow>
    rw_step (l, ts) (l', ts[i := Writing])"
| queue_write: "\<lbrakk>i < length ts; ts ! i = Idle; writer_turn (writer_queue l) = None\<rbrakk> \<Longrightarrow>
    rw_step (l, ts) (writer_queue l, ts[i := WaitWrite])"
| retry_write: "\<lbrakk>i < length ts; ts ! i = WokenWrite; writer_turn l = Some l'\<rbrakk> \<Longrightarrow>
    rw_step (l, ts) (l', ts[i := Writing])"
| requeue_write: "\<lbrakk>i < length ts; ts ! i = WokenWrite; writer_turn l = None\<rbrakk> \<Longrightarrow>
    rw_step (l, ts) (l, ts[i := WaitWrite])"
| unread: "\<lbrakk>i < length ts; ts ! i = Reading; release_reader l = (l', all)\<rbrakk> \<Longrightarrow>
    rw_step (l, ts) (l', notify all (ts[i := Idle]))"
| unwrite: "\<lbrakk>i < length ts; ts ! i = Writing; release_writer l = (l', all)\<rbrakk> \<Longrightarrow>
    rw_step (l, ts) (l', notify all (ts[i := Idle]))"

inductive_cases rw_stepE: "rw_step s s'"

text \<open>Everything \<open>n\<close> tasks can do with a fresh lock.\<close>

inductive rw_reachable :: "nat \<Rightarrow> rw_state \<Rightarrow> bool" for n where
  start: "rw_reachable n (rwlock_init, replicate n Idle)"
| step: "rw_reachable n s \<Longrightarrow> rw_step s s' \<Longrightarrow> rw_reachable n s'"

section \<open>The invariant\<close>

definition tasks_in :: "task list \<Rightarrow> task \<Rightarrow> nat" where
  "tasks_in ts t = count (mset ts) t"

lemma tasks_in_Nil [simp]: "tasks_in [] t = 0"
  by (simp add: tasks_in_def)

lemma tasks_in_Cons [simp]: "tasks_in (x # ts) t = of_bool (x = t) + tasks_in ts t"
  by (simp add: tasks_in_def)

lemma tasks_in_pos: "0 < tasks_in ts t \<longleftrightarrow> t \<in> set ts"
  by (simp add: tasks_in_def)

lemma tasks_in_nth: "i < length ts \<Longrightarrow> 0 < tasks_in ts (ts ! i)"
  by (simp add: tasks_in_pos)

definition rw_inv :: "rw_state \<Rightarrow> bool" where
  "rw_inv = (\<lambda>(l, ts). rw_readers l = int (tasks_in ts Reading) \<and>
     int (tasks_in ts Writing) = of_bool (writer_active l) \<and>
     waiting_writers l = int (tasks_in ts WaitWrite) + int (tasks_in ts WokenWrite) \<and>
     (writer_active l \<longrightarrow> rw_readers l = 0) \<and>
     (0 < tasks_in ts WaitWrite \<longrightarrow> is_locked l) \<and>
     (0 < tasks_in ts WaitRead \<longrightarrow> is_locked l \<or> 0 < tasks_in ts WokenWrite))"

lemma tasks_in_update:
  assumes "i < length ts"
  shows "int (tasks_in (ts[i := x]) t) = int (tasks_in ts t) - of_bool (ts ! i = t) + of_bool (x = t)"
  using tasks_in_nth[OF assms] assms by (auto simp: tasks_in_def mset_update)

lemma tasks_in_le: "x \<noteq> t \<Longrightarrow> 0 < tasks_in (ts[i := x]) t \<Longrightarrow> 0 < tasks_in ts t"
  unfolding tasks_in_pos by (metis set_update_subset_insert subsetD insertE)

lemma tasks_in_wake:
  "tasks_in (map wake ts) Reading = tasks_in ts Reading" "tasks_in (map wake ts) Writing = tasks_in ts Writing"
  "tasks_in (map wake ts) WaitRead = 0" "tasks_in (map wake ts) WaitWrite = 0"
  "tasks_in (map wake ts) WokenWrite = tasks_in ts WokenWrite + tasks_in ts WaitWrite"
proof -
  have "tasks_in (map wake ts) Reading = tasks_in ts Reading \<and> tasks_in (map wake ts) Writing = tasks_in ts Writing \<and>
    tasks_in (map wake ts) WaitRead = 0 \<and> tasks_in (map wake ts) WaitWrite = 0 \<and>
    tasks_in (map wake ts) WokenWrite = tasks_in ts WokenWrite + tasks_in ts WaitWrite"
  proof (induction ts)
    case (Cons t ts)
    then show ?case by (cases t) auto
  qed simp
  then show "tasks_in (map wake ts) Reading = tasks_in ts Reading" "tasks_in (map wake ts) Writing = tasks_in ts Writing"
    "tasks_in (map wake ts) WaitRead = 0" "tasks_in (map wake ts) WaitWrite = 0"
    "tasks_in (map wake ts) WokenWrite = tasks_in ts WokenWrite + tasks_in ts WaitWrite" by blast+
qed

lemma rw_invD:
  assumes "rw_inv (l, ts)"
  shows "rw_readers l = int (tasks_in ts Reading)" "int (tasks_in ts Writing) = of_bool (writer_active l)"
    "waiting_writers l = int (tasks_in ts WaitWrite) + int (tasks_in ts WokenWrite)"
    "writer_active l \<Longrightarrow> rw_readers l = 0" "0 < tasks_in ts WaitWrite \<Longrightarrow> is_locked l"
    "0 < tasks_in ts WaitRead \<Longrightarrow> is_locked l \<or> 0 < tasks_in ts WokenWrite"
  using assms by (auto simp: rw_inv_def)

lemma rw_invI:
  assumes "rw_readers l = int (tasks_in ts Reading)" and "int (tasks_in ts Writing) = of_bool (writer_active l)"
    and "waiting_writers l = int (tasks_in ts WaitWrite) + int (tasks_in ts WokenWrite)"
    and "writer_active l \<Longrightarrow> rw_readers l = 0" and "0 < tasks_in ts WaitWrite \<Longrightarrow> is_locked l"
    and "0 < tasks_in ts WaitRead \<Longrightarrow> is_locked l \<or> 0 < tasks_in ts WokenWrite"
  shows "rw_inv (l, ts)"
  using assms by (simp add: rw_inv_def)

lemma rw_inv_change:
  assumes I: "rw_inv (l, ts)" and i: "i < length ts" and x: "x \<noteq> ts ! i"
    and "rw_readers l' = rw_readers l - of_bool (ts ! i = Reading) + of_bool (x = Reading)"
    and "(of_bool (writer_active l') :: int) = of_bool (writer_active l) - of_bool (ts ! i = Writing) + of_bool (x = Writing)"
    and "waiting_writers l' = waiting_writers l - of_bool (ts ! i \<in> {WaitWrite, WokenWrite}) + of_bool (x \<in> {WaitWrite, WokenWrite})"
    and "writer_active l' \<Longrightarrow> rw_readers l' = 0"
    and lk: "is_locked l' \<or> \<not> is_locked l \<and> x \<noteq> WaitWrite \<and> ts ! i \<noteq> WokenWrite \<and> (x = WaitRead \<longrightarrow> 0 < waiting_writers l)"
  shows "rw_inv (l', ts[i := x])"
proof -
  note D = rw_invD[OF I] and u = tasks_in_update[OF i, of x]
  show ?thesis
  proof (rule rw_invI)
    show "rw_readers l' = int (tasks_in (ts[i := x]) Reading)" using D(1) assms(4) by (simp add: u)
    show "int (tasks_in (ts[i := x]) Writing) = of_bool (writer_active l')" using D(2) assms(5) by (simp add: u)
    show "waiting_writers l' = int (tasks_in (ts[i := x]) WaitWrite) + int (tasks_in (ts[i := x]) WokenWrite)"
      using D(3) assms(6) x unfolding u by (auto split: if_splits)
    show "rw_readers l' = 0" if "writer_active l'" using assms(7) that .
    show "is_locked l'" if "0 < tasks_in (ts[i := x]) WaitWrite"
    proof (rule ccontr)
      assume "\<not> is_locked l'"
      then have "0 < tasks_in ts WaitWrite" "\<not> is_locked l" using lk that tasks_in_le by auto
      then show False using D(5) by simp
    qed
    show "is_locked l' \<or> 0 < tasks_in (ts[i := x]) WokenWrite" if "0 < tasks_in (ts[i := x]) WaitRead"
    proof (cases "is_locked l'")
      case False
      then have k: "\<not> is_locked l" "ts ! i \<noteq> WokenWrite" "x = WaitRead \<longrightarrow> 0 < waiting_writers l" using lk by auto
      then have "tasks_in ts WaitWrite = 0" using D(5) by auto
      moreover have "x \<noteq> WaitRead \<longrightarrow> 0 < tasks_in ts WaitRead" using that tasks_in_le by blast
      ultimately have "0 < tasks_in ts WokenWrite" using D(3,6) k by (cases "x = WaitRead") auto
      moreover have "int (tasks_in ts WokenWrite) \<le> int (tasks_in (ts[i := x]) WokenWrite)"
        using k(2) unfolding u by simp
      ultimately show ?thesis by linarith
    qed simp
  qed
qed

lemma rw_inv_notify:
  assumes "rw_readers l = int (tasks_in ts Reading)" and "int (tasks_in ts Writing) = of_bool (writer_active l)"
    and "waiting_writers l = int (tasks_in ts WaitWrite) + int (tasks_in ts WokenWrite)"
    and "writer_active l \<Longrightarrow> rw_readers l = 0"
  shows "rw_inv (l, map wake ts)"
  using assms by (intro rw_invI) (simp_all add: tasks_in_wake)

lemma rw_release:
  assumes I: "rw_inv (l, ts)" and i: "i < length ts" and t: "ts ! i \<in> {Reading, Writing}"
    and r: "rw_readers l' = rw_readers l - of_bool (ts ! i = Reading)"
    and w: "(of_bool (writer_active l') :: int) = of_bool (writer_active l) - of_bool (ts ! i = Writing)"
    and q: "waiting_writers l' = waiting_writers l" and x: "writer_active l' \<Longrightarrow> rw_readers l' = 0"
    and n: "all \<or> is_locked l'"
  shows "rw_inv (l', notify all (ts[i := Idle]))"
proof (cases all)
  case True
  note D = rw_invD[OF I] and u = tasks_in_update[OF i, of Idle]
  have "rw_inv (l', map wake (ts[i := Idle]))"
  proof (rule rw_inv_notify)
    show "rw_readers l' = int (tasks_in (ts[i := Idle]) Reading)" using D(1) r by (simp add: u)
    show "int (tasks_in (ts[i := Idle]) Writing) = of_bool (writer_active l')" using D(2) w by (simp add: u)
    show "waiting_writers l' = int (tasks_in (ts[i := Idle]) WaitWrite) + int (tasks_in (ts[i := Idle]) WokenWrite)"
      using D(3) q t by (auto simp: u)
  qed (rule x)
  then show ?thesis using True by (simp add: notify_def)
next
  case False
  have "rw_inv (l', ts[i := Idle])"
    by (rule rw_inv_change[OF I i]) (use t r w q x n False in auto)
  then show ?thesis using False by (simp add: notify_def)
qed

lemma rw_step_inv:
  assumes I: "rw_inv (l, ts)" and s: "rw_step (l, ts) (l2, ts2)"
  shows "rw_inv (l2, ts2)"
  using s
proof (cases rule: rw_step.cases)
  case (enter_read i)
  then have l2: "l2 = l\<lparr>rw_readers := rw_readers l + 1\<rparr>" "\<not> writer_active l" by (auto simp: reader_turn_def split: if_splits)
  show ?thesis unfolding enter_read(1)
    by (rule rw_inv_change[OF I enter_read(2)]) (use enter_read(3) l2 rw_invD(1)[OF I] in \<open>auto simp: is_locked_def\<close>)
next
  case (queue_read i)
  then have w: "writer_active l \<or> 0 < waiting_writers l" by (auto simp: reader_turn_def split: if_splits)
  show ?thesis unfolding queue_read(1,2)
    by (rule rw_inv_change[OF I queue_read(3)]) (use queue_read(4) w rw_invD(4)[OF I] in \<open>auto simp: is_locked_def\<close>)
next
  case (enter_write i)
  then have l2: "l2 = l\<lparr>writer_active := True, waiting_writers := waiting_writers l\<rparr>" "\<not> writer_active l" "\<not> 0 < rw_readers l"
    by (auto simp: writer_turn_def writer_queue_def split: if_splits)
  show ?thesis unfolding enter_write(1)
    by (rule rw_inv_change[OF I enter_write(2)]) (use enter_write(3) l2 rw_invD(1)[OF I] in \<open>auto simp: is_locked_def\<close>)
next
  case (queue_write i)
  then have w: "is_locked l" by (auto simp: writer_turn_def writer_queue_def is_locked_def split: if_splits)
  show ?thesis unfolding queue_write(1,2)
    by (rule rw_inv_change[OF I queue_write(3)]) (use queue_write(4) w rw_invD(4)[OF I] in \<open>auto simp: is_locked_def writer_queue_def\<close>)
next
  case (retry_write i)
  then have l2: "l2 = l\<lparr>writer_active := True, waiting_writers := waiting_writers l - 1\<rparr>" "\<not> writer_active l" "\<not> 0 < rw_readers l"
    by (auto simp: writer_turn_def split: if_splits)
  show ?thesis unfolding retry_write(1)
    by (rule rw_inv_change[OF I retry_write(2)]) (use retry_write(3) l2 rw_invD(1)[OF I] in \<open>auto simp: is_locked_def\<close>)
next
  case (requeue_write i)
  then have w: "is_locked l" by (auto simp: writer_turn_def is_locked_def split: if_splits)
  show ?thesis unfolding requeue_write(1,2)
    by (rule rw_inv_change[OF I requeue_write(3)]) (use requeue_write(4) w rw_invD(4)[OF I] in \<open>auto simp: is_locked_def\<close>)
next
  case (unread i all)
  then have l2: "l2 = l\<lparr>rw_readers := rw_readers l - 1\<rparr>" "all = (rw_readers l - 1 = 0)"
    by (auto simp: release_reader_def Let_def)
  have "0 < rw_readers l" using tasks_in_nth[OF unread(2)] unread(3) rw_invD(1)[OF I] by simp
  then show ?thesis unfolding unread(1)
    by (intro rw_release[OF I unread(2)]) (use unread(3) l2 rw_invD(4)[OF I] in \<open>auto simp: is_locked_def\<close>)
next
  case (unwrite i all)
  then have l2: "l2 = l\<lparr>writer_active := False\<rparr>" "all" by (auto simp: release_writer_def)
  have "writer_active l" using tasks_in_nth[OF unwrite(2)] unwrite(3) rw_invD(2)[OF I]
    by (cases "writer_active l") simp_all
  then show ?thesis unfolding unwrite(1)
    by (intro rw_release[OF I unwrite(2)]) (use unwrite(3) l2 in auto)
qed

lemma rw_reachable_inv: "rw_reachable n s \<Longrightarrow> rw_inv s"
proof (induction rule: rw_reachable.induct)
  case start
  have "tasks_in (replicate n Idle) t = 0" if "t \<noteq> Idle" for t using that tasks_in_pos[of "replicate n Idle" t] by auto
  then show ?case by (simp add: rw_inv_def rwlock_init_def)
next
  case (step s s')
  then show ?case using rw_step_inv by (metis prod.collapse)
qed

section \<open>What the lock guarantees\<close>

text \<open>C24: Mutual exclusion, whatever the tasks do and however they interleave: while a task writes, no other
  task reads or writes, and \<open>is_locked\<close> holds exactly while some task reads or writes.\<close>

theorem rwlock_excludes:
  assumes "rw_reachable n (l, ts)"
  shows "tasks_in ts Writing \<le> 1 \<and> (0 < tasks_in ts Writing \<longrightarrow> tasks_in ts Reading = 0) \<and>
    (is_locked l \<longleftrightarrow> 0 < tasks_in ts Reading + tasks_in ts Writing)"
proof -
  note D = rw_invD[OF rw_reachable_inv[OF assms]]
  show ?thesis using D(1,2,4) by (cases "writer_active l") (auto simp: is_locked_def)
qed

lemma rw_demo: "rw_reachable 2 (rwlock_init\<lparr>writer_active := True\<rparr>, [Writing, WaitRead])"
proof -
  have "rw_reachable 2 (rwlock_init, [Idle, Idle])" using rw_reachable.start[of 2] by (simp add: numeral_2_eq_2)
  moreover have "rw_step (rwlock_init, [Idle, Idle]) (rwlock_init\<lparr>writer_active := True\<rparr>, [Idle, Idle][0 := Writing])"
    by (rule enter_write) (simp_all add: writer_turn_def writer_queue_def rwlock_init_def)
  moreover have "rw_step (rwlock_init\<lparr>writer_active := True\<rparr>, [Writing, Idle])
      (rwlock_init\<lparr>writer_active := True\<rparr>, [Writing, Idle][1 := WaitRead])"
    by (rule queue_read) (simp_all add: reader_turn_def rwlock_init_def)
  ultimately show ?thesis using rw_reachable.step by (metis One_nat_def list_update_code(2,3))
qed

lemma rwlock_excludes_witness:
  "rw_reachable 2 (rwlock_init\<lparr>writer_active := True\<rparr>, [Writing, WaitRead]) \<and>
   is_locked (rwlock_init\<lparr>writer_active := True\<rparr>)"
  using rwlock_excludes[OF rw_demo] rw_demo by simp

text \<open>C25: No wake-up is lost: whenever a task waits on the condition although no task holds the lock, a writer
  has been notified, and that writer gets the lock at its next step; so the system is never stuck with
  a waiting task and a free lock.\<close>

theorem rwlock_no_lost_wakeup:
  assumes "rw_reachable n (l, ts)" and "\<not> is_locked l" and "WaitRead \<in> set ts \<or> WaitWrite \<in> set ts"
  shows "\<exists>i < length ts. ts ! i = WokenWrite \<and> (\<exists>l'. writer_turn l = Some l' \<and> rw_step (l, ts) (l', ts[i := Writing]))"
proof -
  note D = rw_invD[OF rw_reachable_inv[OF assms(1)]]
  have "0 < tasks_in ts WokenWrite" using D(5,6) assms(2,3) by (auto simp: tasks_in_pos)
  then obtain i where i: "i < length ts" "ts ! i = WokenWrite" by (auto simp: tasks_in_pos in_set_conv_nth)
  obtain l' where l': "writer_turn l = Some l'" using assms(2) by (auto simp: writer_turn_def is_locked_def)
  show ?thesis using i l' retry_write[OF i l'] by blast
qed

lemma rw_demo2: "rw_reachable 3 (rwlock_init\<lparr>waiting_writers := 1\<rparr>, [Idle, WokenWrite, WaitRead])"
proof -
  let ?l = "rwlock_init\<lparr>writer_active := True\<rparr>"
  have "rw_reachable 3 (rwlock_init, [Idle, Idle, Idle])" using rw_reachable.start[of 3] by (simp add: numeral_3_eq_3)
  moreover have "rw_step (rwlock_init, [Idle, Idle, Idle]) (?l, [Idle, Idle, Idle][0 := Writing])"
    by (rule enter_write) (simp_all add: writer_turn_def writer_queue_def rwlock_init_def)
  ultimately have a: "rw_reachable 3 (?l, [Writing, Idle, Idle])" using rw_reachable.step by fastforce
  have "rw_step (?l, [Writing, Idle, Idle]) (writer_queue ?l, [Writing, Idle, Idle][1 := WaitWrite])"
    by (rule queue_write) (simp_all add: writer_turn_def writer_queue_def)
  with a have b: "rw_reachable 3 (writer_queue ?l, [Writing, WaitWrite, Idle])" using rw_reachable.step by fastforce
  have "rw_step (writer_queue ?l, [Writing, WaitWrite, Idle])
      (fst (release_writer (writer_queue ?l)), notify True ([Writing, WaitWrite, Idle][0 := Idle]))"
    by (rule unwrite) (simp_all add: release_writer_def)
  with b have c: "rw_reachable 3 (rwlock_init\<lparr>waiting_writers := 1\<rparr>, [Idle, WokenWrite, Idle])"
    using rw_reachable.step by (fastforce simp: release_writer_def writer_queue_def rwlock_init_def notify_def)
  have "rw_step (rwlock_init\<lparr>waiting_writers := 1\<rparr>, [Idle, WokenWrite, Idle])
      (rwlock_init\<lparr>waiting_writers := 1\<rparr>, [Idle, WokenWrite, Idle][2 := WaitRead])"
    by (rule queue_read) (simp_all add: reader_turn_def)
  with c show ?thesis using rw_reachable.step by (fastforce simp: numeral_2_eq_2)
qed

lemma rwlock_no_lost_wakeup_witness:
  "\<exists>i < 3. [Idle, WokenWrite, WaitRead] ! i = WokenWrite \<and> (\<exists>l'. writer_turn (rwlock_init\<lparr>waiting_writers := 1\<rparr>) = Some l')"
proof -
  have "\<not> is_locked (rwlock_init\<lparr>waiting_writers := 1\<rparr>)" by (simp add: is_locked_def rwlock_init_def)
  from rwlock_no_lost_wakeup[OF rw_demo2 this] show ?thesis by (auto simp: numeral_3_eq_3)
qed

end
