(* ===== verification/BatchAlloc.thy ===== *)
theory BatchAlloc
  imports PrefillAdder KvExtend
begin

text \<open>
  Memory of a batch (\<open>mem_cache/common.py\<close> and the memory part of \<open>ScheduleBatch\<close> in
  \<open>managers/schedule_batch.py\<close>): rows and slots for a prefill or decode batch, the table that maps a
  request to its slots, and the retraction of requests when decoding runs out of slots.  The pool and
  the allocator are those of the radix cache.  \<open>torch_empty\<close> is \<open>torch.empty\<close>: a list of the given length
  with arbitrary content.  Encoder-decoder models, sliding windows, mamba states and speculative
  decoding have pools of their own and are not part of these definitions.
\<close>

section \<open>Rows and slots\<close>

definition kv_to_page_indices :: "int list \<Rightarrow> nat \<Rightarrow> int list" where
  "kv_to_page_indices kv page_size =
     (if page_size = 1 then kv
      else map (\<lambda>i. kv ! (i * page_size) div int page_size) [0..<(length kv + page_size - 1) div page_size])"

definition kv_to_page_num :: "int \<Rightarrow> int \<Rightarrow> int" where
  "kv_to_page_num n page_size = (n + page_size - 1) div page_size"

definition page_align_floor :: "int \<Rightarrow> int \<Rightarrow> int" where
  "page_align_floor n page_size = n div page_size * page_size"

definition maybe_cache_unfinished_req :: "'a request_scheme \<Rightarrow> bool \<Rightarrow> radix_cache \<Rightarrow> ('a request_scheme \<times> radix_cache) option" where
  "maybe_cache_unfinished_req r chunked c =
     (if skip_radix_cache_insert r then Some (r, c) else cache_unfinished_req r chunked c)"

text \<open>
  The entries: row, length of the prefix, of the sequence and of the new part, slots of the prefix.
  \<open>write_cache_indices\<close> is the torch branch; with an attention backend that supports Triton the code launches
  a kernel, which theory \<open>RowKernel\<close> models and proves to write the same table.
\<close>

type_synonym row_entry = "nat \<times> int \<times> int \<times> int \<times> int list"

fun write_rows :: "int \<Rightarrow> int list \<Rightarrow> row_entry list \<Rightarrow> req_pool \<Rightarrow> req_pool option" where
  "write_rows pt out [] p = Some p"
| "write_rows pt out ((req_idx, prefix_len, seq_len, extend_len, prefix_tensor) # es) p = do {
     p \<leftarrow> pool_write p req_idx 0 prefix_len prefix_tensor;
     p \<leftarrow> pool_write p req_idx prefix_len seq_len (slice out pt (pt + extend_len));
     write_rows (pt + extend_len) out es p
   }"

definition write_cache_indices :: "int list \<Rightarrow> row_entry list \<Rightarrow> req_pool \<Rightarrow> req_pool option" where
  "write_cache_indices out es p = write_rows 0 out es p"

definition get_last_loc_torch :: "int list list \<Rightarrow> (nat \<times> int) list \<Rightarrow> int list" where
  "get_last_loc_torch table es = map (\<lambda>(i, n). if n > 0 then table ! i ! nat (n - 1) else -1) es"

definition alloc_req_slots :: "sched_req list \<Rightarrow> radix_cache \<Rightarrow> (nat list \<times> sched_req list \<times> radix_cache) option" where
  "alloc_req_slots reqs c = do {
     (res, reqs, p) \<leftarrow> pool_alloc (rc_pool c) reqs;
     idxs \<leftarrow> res;
     Some (idxs, reqs, c\<lparr>rc_pool := p\<rparr>)
   }"

definition alloc_paged_token_slots_extend ::
  "(int \<Rightarrow> int list) \<Rightarrow> int list \<Rightarrow> int list \<Rightarrow> int list \<Rightarrow> int \<Rightarrow> radix_cache \<Rightarrow> (int list \<times> radix_cache) option" where
  "alloc_paged_token_slots_extend torch_empty prefix_lens seq_lens last_loc extend_num_tokens c = do {
     c \<leftarrow> evict_from_tree_cache (extend_num_tokens + int (length seq_lens) * al_page_size (rc_alloc c)) c;
     case alloc_extend (rc_alloc c) prefix_lens seq_lens last_loc extend_num_tokens None (torch_empty extend_num_tokens) of
       Inr (Some out, a) \<Rightarrow> Some (out, c\<lparr>rc_alloc := a\<rparr>)
     | _ \<Rightarrow> None
   }"

definition alloc_paged_token_slots_decode ::
  "(int \<Rightarrow> int list) \<Rightarrow> int list \<Rightarrow> int list \<Rightarrow> radix_cache \<Rightarrow> (int list \<times> radix_cache) option" where
  "alloc_paged_token_slots_decode torch_empty seq_lens last_loc c = do {
     c \<leftarrow> evict_from_tree_cache (int (length seq_lens) * al_page_size (rc_alloc c)) c;
     case alloc_decode (rc_alloc c) seq_lens last_loc (torch_empty (int (length seq_lens))) of
       Inr (Some out, a) \<Rightarrow> Some (out, c\<lparr>rc_alloc := a\<rparr>)
     | _ \<Rightarrow> None
   }"

section \<open>Batches\<close>

record schedule_batch =
  bt_reqs :: "sched_req list"
  bt_seq_lens :: "int list"
  bt_out_cache_loc :: "int list"
  bt_pool_indices :: "nat list"

definition row_entries :: "sched_req list \<Rightarrow> nat list \<Rightarrow> row_entry list" where
  "row_entries reqs idxs = map2 (\<lambda>r i. (i, int (length (prefix_indices r)), int (length (fill_ids r)), extend_input_len r,
     prefix_indices r)) reqs idxs"

text \<open>The slots, the rows, the requests with their rows, and the cache.\<close>

definition alloc_for_extend ::
  "(int \<Rightarrow> int list) \<Rightarrow> sched_req list \<Rightarrow> int \<Rightarrow> radix_cache \<Rightarrow> (int list \<times> nat list \<times> sched_req list \<times> radix_cache) option" where
  "alloc_for_extend torch_empty reqs extend_num_tokens c = do {
     (idxs, reqs, c) \<leftarrow> alloc_req_slots reqs c;
     (out, c) \<leftarrow>
       (if rc_page_size c = 1 then map_option (\<lambda>((out, _), c). (out, c)) (alloc_token_slots extend_num_tokens False c)
        else alloc_paged_token_slots_extend torch_empty (map (\<lambda>r. int (length (prefix_indices r))) reqs)
               (map (\<lambda>r. int (length (fill_ids r))) reqs)
               (map (\<lambda>r. if prefix_indices r \<noteq> [] then List.last (prefix_indices r) else -1) reqs) extend_num_tokens c);
     p \<leftarrow> write_cache_indices out (row_entries reqs idxs) (rc_pool c);
     Some (out, idxs, reqs, c\<lparr>rc_pool := p\<rparr>)
   }"

definition prepare_for_extend ::
  "(int \<Rightarrow> int list) \<Rightarrow> sched_req list \<Rightarrow> radix_cache \<Rightarrow> (schedule_batch \<times> radix_cache) option" where
  "prepare_for_extend torch_empty reqs c = do {
     let input_ids = map (\<lambda>r. slice_from (fill_ids r) (int (length (prefix_indices r)))) reqs;
     let extend_num_tokens = sum_list (map (int \<circ> length) input_ids);
     (out, idxs, reqs, c) \<leftarrow> alloc_for_extend torch_empty reqs extend_num_tokens c;
     assert_that (list_all (\<lambda>r. int (length (fill_ids r)) - int (length (prefix_indices r)) = extend_input_len r) reqs);
     let reqs = map (\<lambda>r. r\<lparr>kv_committed_len := int (length (fill_ids r)), kv_allocated_len := int (length (fill_ids r))\<rparr>) reqs;
     Some (\<lparr>bt_reqs = reqs, bt_seq_lens = map (\<lambda>r. int (length (fill_ids r))) reqs, bt_out_cache_loc = out,
             bt_pool_indices = idxs\<rparr>, c)
   }"

text \<open>\<open>req_to_token[rows, locs] = out\<close>: one entry for each request.\<close>

fun write_entries :: "(nat \<times> int) list \<Rightarrow> int list \<Rightarrow> req_pool \<Rightarrow> req_pool option" where
  "write_entries [] out p = (if out = [] then Some p else None)"
| "write_entries ((i, loc) # es) out p =
     (case out of [] \<Rightarrow> None
      | v # vs \<Rightarrow>
          if i < length (req_to_token p) \<and> 0 \<le> loc \<and> nat loc < length (req_to_token p ! i)
          then write_entries es vs (p\<lparr>req_to_token := (req_to_token p)[i := (req_to_token p ! i)[nat loc := v]]\<rparr>)
          else None)"

definition alloc_for_decode ::
  "(int \<Rightarrow> int list) \<Rightarrow> int \<Rightarrow> 'a schedule_batch_scheme \<Rightarrow> radix_cache \<Rightarrow> (int list \<times> radix_cache) option" where
  "alloc_for_decode torch_empty token_per_req b c = do {
     let es = zip (bt_pool_indices b) (bt_seq_lens b);
     (out, c) \<leftarrow>
       (if rc_page_size c = 1
        then map_option (\<lambda>((out, _), c). (out, c)) (alloc_token_slots (int (length (bt_seq_lens b)) * token_per_req) False c)
        else alloc_paged_token_slots_decode torch_empty (map (\<lambda>n. n + token_per_req) (bt_seq_lens b))
               (map (\<lambda>(i, n). req_to_token (rc_pool c) ! i ! nat (n - 1)) es) c);
     p \<leftarrow> write_entries es out (rc_pool c);
     Some (out, c\<lparr>rc_pool := p\<rparr>)
   }"

definition prepare_for_decode ::
  "(int \<Rightarrow> int list) \<Rightarrow> 'a schedule_batch_scheme \<Rightarrow> radix_cache \<Rightarrow> ('a schedule_batch_scheme \<times> radix_cache) option" where
  "prepare_for_decode torch_empty b c = do {
     (out, c) \<leftarrow> alloc_for_decode torch_empty 1 b c;
     Some (b\<lparr>bt_out_cache_loc := out,
              bt_reqs := map (\<lambda>r. r\<lparr>kv_committed_len := kv_committed_len r + 1, kv_allocated_len := kv_allocated_len r + 1\<rparr>) (bt_reqs b),
              bt_seq_lens := map (\<lambda>n. n + 1) (bt_seq_lens b)\<rparr>, c)
   }"

section \<open>Retraction\<close>

definition new_tokens_required_next_decode :: "int \<Rightarrow> sched_req list \<Rightarrow> int" where
  "new_tokens_required_next_decode page_size rs = sum_list (map (\<lambda>r. if kv_committed_len r mod page_size = 0 then 1 else 0) rs) * page_size"

definition check_decode_mem :: "sched_req list \<Rightarrow> radix_cache \<Rightarrow> (bool \<times> radix_cache) option" where
  "check_decode_mem rs c = do {
     let num_tokens = new_tokens_required_next_decode (al_page_size (rc_alloc c)) rs;
     c \<leftarrow> evict_from_tree_cache num_tokens c;
     Some (allocator_available_size (rc_alloc c) \<ge> num_tokens, c)
   }"

definition reset_for_retract :: "sched_req \<Rightarrow> sched_req" where
  "reset_for_retract r = r\<lparr>prefix_indices := [], last_node := None, cache_protected_len := 0, extend_input_len := 0,
     retracted_stain := True, extend_logprob_start_len := 0, inflight_middle_chunks := 0, kv_allocated_len := 0,
     kv_committed_len := 0, kv_committed_freed := False, kv_overallocated_freed := False\<rparr>"

definition release_req :: "int \<Rightarrow> nat \<Rightarrow> nat \<Rightarrow> sched_req list \<Rightarrow> radix_cache \<Rightarrow> (sched_req list \<times> radix_cache) option" where
  "release_req retract_steps idx remaining reqs c = do {
     (r, c) \<leftarrow> release_kv_cache False (reqs ! idx) False c;
     c \<leftarrow> evict_from_tree_cache (int remaining * retract_steps) c;
     Some (reqs[idx := reset_for_retract r], c)
   }"

text \<open>The order in which requests go: the ones with the fewest output tokens, and of these the ones with
  the longest input, are at the end.\<close>

definition retract_order :: "sched_req list \<Rightarrow> nat list" where
  "retract_order reqs = sort_key (\<lambda>i. - int (length (output_ids (reqs ! i))))
     (sort_key (\<lambda>i. length (origin_input_ids (reqs ! i))) [0..<length reqs])"

function retract_loop ::
  "int \<Rightarrow> bool \<Rightarrow> nat list \<Rightarrow> sched_req list \<Rightarrow> radix_cache \<Rightarrow> (nat list \<times> nat list \<times> sched_req list \<times> radix_cache) option" where
  "retract_loop steps first_iter idxs reqs c =
     (case (if first_iter then Some (True, c)
            else map_option (\<lambda>(ok, c). (\<not> ok, c)) (check_decode_mem (map ((!) reqs) idxs) c)) of
        None \<Rightarrow> None
      | Some (go, c) \<Rightarrow>
          if \<not> go \<or> length idxs = 1 then Some (idxs, [], reqs, c)
          else if idxs = [] then None
          else (case release_req steps (List.last idxs) (length idxs - 1) reqs c of
                  None \<Rightarrow> None
                | Some (reqs, c) \<Rightarrow>
                    map_option (\<lambda>(keep, retracted, reqs, c). (keep, List.last idxs # retracted, reqs, c))
                      (retract_loop steps False (butlast idxs) reqs c)))"
  by pat_completeness auto
termination
  by (relation "measure (\<lambda>(_, _, idxs, _, _). length idxs)") auto

declare retract_loop.simps [simp del]

definition oom_abort :: finish_reason where
  "oom_abort = FINISH_ABORT (''Out of memory even after retracting all other requests '' @
     ''in the decode batch. Aborting the last request.'')"

text \<open>The positions and requests of the kept batch, the retracted requests, the aborted ones.\<close>

definition retract_decode ::
  "int \<Rightarrow> sched_req list \<Rightarrow> radix_cache \<Rightarrow> (nat list \<times> sched_req list \<times> sched_req list \<times> sched_req list \<times> radix_cache) option" where
  "retract_decode steps reqs c = do {
     (keep, retracted, reqs, c) \<leftarrow> retract_loop steps True (retract_order reqs) reqs c;
     (ok, c) \<leftarrow> (if length keep \<le> 1 then check_decode_mem (map ((!) reqs) keep) c else Some (True, c));
     (keep, aborted, reqs, c) \<leftarrow>
       (if ok then Some (keep, [], reqs, c)
        else if keep = [] then None
        else do {
          let last_idx = List.last keep;
          let reqs = reqs[last_idx := (reqs ! last_idx)\<lparr>to_finish := Some oom_abort\<rparr>];
          (reqs, c) \<leftarrow> release_req steps last_idx 0 reqs c;
          Some (butlast keep, [last_idx], reqs, c)
        });
     Some (keep, map ((!) reqs) keep, map ((!) reqs) retracted, map ((!) reqs) aborted, c)
   }"

end
