(* ===== verification/Serving.thy ===== *)
theory Serving
  imports BatchAlloc
begin

text \<open>
  The memory of running requests.  Between two steps of the scheduler every slot of the KV pool is free,
  cached, or the own slot of exactly one live request, and the row of a running request lists the slots
  of its computed tokens: those of its locked cached prefix, then its own.  \<open>serve_inv\<close> states this;
  \<open>H\<close>, \<open>R\<close> and \<open>os\<close> are the locks, slots and rows of other requests.  Each operation of a batch keeps it.
\<close>

section \<open>Running requests\<close>

definition req_row :: "radix_cache \<Rightarrow> 'a request_scheme \<Rightarrow> int list" where
  "req_row c r = req_to_token (rc_pool c) ! the (req_pool_idx r)"

definition committed :: "'a request_scheme \<Rightarrow> nat" where
  "committed r = nat (kv_committed_len r)"

definition held :: "radix_cache \<Rightarrow> 'a request_scheme \<Rightarrow> int list" where
  "held c r = take (committed r) (req_row c r)"

definition running_ok :: "radix_cache \<Rightarrow> 'a request_scheme \<Rightarrow> bool" where
  "running_ok c r \<longleftrightarrow> req_pool_idx r \<noteq> None \<and> the (req_pool_idx r) < length (req_to_token (rc_pool c)) \<and>
     0 \<le> kv_committed_len r \<and> committed r \<le> length (req_row c r) \<and> committed r \<le> length (token_seq r) \<and>
     kv_allocated_len r = kv_committed_len r \<and> \<not> kv_committed_freed r \<and> \<not> kv_overallocated_freed r \<and>
     (\<exists>n. req_holds c r n (units (req_radix_key c r (take (committed r) (token_seq r)))) (held c r))"

definition own_slots :: "radix_cache \<Rightarrow> 'a request_scheme list \<Rightarrow> int list" where
  "own_slots c rs = concat (map (\<lambda>r. req_own r (held c r)) rs)"

definition serve_inv :: "radix_cache \<Rightarrow> 'a request_scheme list \<Rightarrow> 'b request_scheme list \<Rightarrow> nid multiset \<Rightarrow> int set \<Rightarrow> bool" where
  "serve_inv c rs os H R \<longleftrightarrow> kv_inv c (lock_nodes rs + H) (set (own_slots c rs) \<union> R) \<and>
     distinct (own_slots c rs) \<and> set (own_slots c rs) \<inter> R = {} \<and>
     distinct (rows_of rs @ rows_of os @ rp_free_slots (rc_pool c)) \<and>
     set (rows_of rs @ rows_of os @ rp_free_slots (rc_pool c)) = {1..rp_size (rc_pool c)} \<and>
     length (req_to_token (rc_pool c)) = rp_size (rc_pool c) + 1 \<and>
     (\<forall>row \<in> set (req_to_token (rc_pool c)). length row = rp_max_context_len (rc_pool c)) \<and>
     (\<forall>r \<in> set rs. running_ok c r)"

lemma running_okE:
  assumes "running_ok c r"
  obtains idx n where "req_pool_idx r = Some idx" "idx < length (req_to_token (rc_pool c))" "last_node r = Some n"
    "req_row c r = req_to_token (rc_pool c) ! idx"
    "0 \<le> kv_committed_len r" "kv_committed_len r = int (committed r)" "committed r \<le> length (req_row c r)"
    "committed r \<le> length (token_seq r)"
    "kv_allocated_len r = kv_committed_len r" "\<not> kv_committed_freed r" "\<not> kv_overallocated_freed r"
    "req_holds c r n (units (req_radix_key c r (take (committed r) (token_seq r)))) (held c r)"
proof -
  from assms obtain idx n where "req_pool_idx r = Some idx"
    "req_holds c r n (units (req_radix_key c r (take (committed r) (token_seq r)))) (held c r)"
    unfolding running_ok_def by auto
  moreover have "kv_committed_len r = int (committed r)" "0 \<le> kv_committed_len r" using assms
    by (simp_all add: running_ok_def committed_def)
  ultimately show ?thesis using that[of idx n] assms
    by (simp add: running_ok_def req_row_def req_holds_def)
qed

lemma own_slots_simps [simp]:
  "own_slots c [] = []" "own_slots c (r # rs) = req_own r (held c r) @ own_slots c rs"
  "own_slots c (xs @ ys) = own_slots c xs @ own_slots c ys"
  by (simp_all add: own_slots_def)

lemma mset_own_slots: "mset (own_slots c rs) = (\<Sum>r \<in># mset rs. mset (req_own r (held c r)))"
  by (induction rs) simp_all

lemma mset_rows: "mset (rows_of rs) = (\<Sum>r \<in># mset rs. case req_pool_idx r of None \<Rightarrow> {#} | Some i \<Rightarrow> {#i#})"
  by (induction rs) (auto split: option.split)

lemma serve_perm:
  assumes "serve_inv c rs os H R" and "mset rs = mset rs'"
  shows "serve_inv c rs' os H R"
proof -
  have o: "mset (own_slots c rs') = mset (own_slots c rs)" unfolding mset_own_slots assms(2) ..
  have w: "mset (rows_of rs') = mset (rows_of rs)" unfolding mset_rows assms(2) ..
  have n: "lock_nodes rs' = lock_nodes rs" using assms(2) by (simp add: lock_nodes_def)
  have "distinct (own_slots c rs') = distinct (own_slots c rs)" "set (own_slots c rs') = set (own_slots c rs)"
    using mset_eq_imp_distinct_iff[OF o] mset_eq_setD[OF o] by simp_all
  moreover have "distinct (rows_of rs') = distinct (rows_of rs)" "set (rows_of rs') = set (rows_of rs)"
    using mset_eq_imp_distinct_iff[OF w] mset_eq_setD[OF w] by simp_all
  moreover have "set rs' = set rs" using mset_eq_setD[OF assms(2)] by simp
  ultimately show ?thesis using assms(1) n unfolding serve_inv_def by simp
qed

lemma serveD:
  assumes "serve_inv c rs os H R"
  shows "kv_inv c (lock_nodes rs + H) (set (own_slots c rs) \<union> R)" "distinct (own_slots c rs)"
    "set (own_slots c rs) \<inter> R = {}"
    "distinct (rows_of rs @ rows_of os @ rp_free_slots (rc_pool c))"
    "set (rows_of rs @ rows_of os @ rp_free_slots (rc_pool c)) = {1..rp_size (rc_pool c)}"
    "length (req_to_token (rc_pool c)) = rp_size (rc_pool c) + 1"
    "\<And>r. r \<in> set rs \<Longrightarrow> running_ok c r"
    "\<And>row. row \<in> set (req_to_token (rc_pool c)) \<Longrightarrow> length row = rp_max_context_len (rc_pool c)"
  using assms unfolding serve_inv_def by blast+

section \<open>What running requests depend on\<close>

text \<open>A state whose rows and locked paths are those of another one.\<close>

definition same_config :: "radix_cache \<Rightarrow> radix_cache \<Rightarrow> bool" where
  "same_config c c' \<longleftrightarrow> rc_page_size c' = rc_page_size c \<and> rc_is_eagle c' = rc_is_eagle c \<and>
     rc_strip_thinking c' = rc_strip_thinking c \<and> rc_disable c' = rc_disable c \<and>
     disable_finished_insert c' = disable_finished_insert c \<and>
     al_size (rc_alloc c') = al_size (rc_alloc c) \<and> rp_size (rc_pool c') = rp_size (rc_pool c) \<and>
     rp_max_context_len (rc_pool c') = rp_max_context_len (rc_pool c)"

lemma keeps_config: "keeps c c' \<Longrightarrow> same_config c c'"
  by (simp add: keeps_def same_config_def)

lemma same_config_trans: "same_config a b \<Longrightarrow> same_config b c \<Longrightarrow> same_config a c"
  by (simp add: same_config_def)

lemma radix_key_config: "same_config c c' \<Longrightarrow> req_radix_key c' r ts = req_radix_key c r ts"
  by (simp add: same_config_def req_radix_key_def)

lemma running_frame:
  assumes ok: "running_ok c r" and cfg: "same_config c c'"
    and tab: "length (req_to_token (rc_pool c')) = length (req_to_token (rc_pool c))"
    and row: "take (committed r) (req_row c' r) = held c r" "length (req_row c' r) = length (req_row c r)"
    and path: "\<And>ys. path_of c (the (last_node r)) ys \<Longrightarrow> path_of c' (the (last_node r)) ys"
  shows "running_ok c' r" and "held c' r = held c r"
proof -
  show h: "held c' r = held c r" using row(1) by (simp add: held_def)
  from ok obtain n where n: "req_holds c r n (units (req_radix_key c r (take (committed r) (token_seq r)))) (held c r)"
    unfolding running_ok_def by blast
  then have "req_holds c' r n (units (req_radix_key c' r (take (committed r) (token_seq r)))) (held c' r)"
    using path unfolding h radix_key_config[OF cfg] by (auto simp: req_holds_def)
  then show "running_ok c' r" using ok tab row(2) unfolding running_ok_def by auto
qed

lemma running_same_pool:
  assumes "running_ok c r" and "keeps c c'"
    and "\<And>ys. path_of c (the (last_node r)) ys \<Longrightarrow> path_of c' (the (last_node r)) ys"
  shows "running_ok c' r" and "held c' r = held c r"
proof -
  have p: "rc_pool c' = rc_pool c" using assms(2) by (simp add: keeps_def)
  have "take (committed r) (req_row c' r) = held c r" "length (req_row c' r) = length (req_row c r)"
    by (simp_all add: req_row_def held_def p)
  from running_frame[OF assms(1) keeps_config[OF assms(2)] _ this assms(3)]
  show "running_ok c' r" "held c' r = held c r" by (simp_all add: p)
qed

lemma own_slots_cong: "(\<And>r. r \<in> set rs \<Longrightarrow> held c' r = held c r) \<Longrightarrow> own_slots c' rs = own_slots c rs"
  by (induction rs) simp_all

lemma lock_nodes_mem: "r \<in> set rs \<Longrightarrow> the (last_node r) \<in># lock_nodes rs"
  by (induction rs) auto

text \<open>Changing cache and allocator, but neither the rows nor the locked paths.\<close>

lemma serve_same_pool:
  assumes i: "serve_inv c rs os H R" and k: "keeps c c'"
    and p: "\<And>r ys. r \<in> set rs \<Longrightarrow> path_of c (the (last_node r)) ys \<Longrightarrow> path_of c' (the (last_node r)) ys"
    and kv: "kv_inv c' (lock_nodes rs + H') (set (own_slots c rs) \<union> R')" and d: "set (own_slots c rs) \<inter> R' = {}"
  shows "serve_inv c' rs os H' R'"
proof -
  note A = serveD[OF i]
  have pool: "rc_pool c' = rc_pool c" using k by (simp add: keeps_def)
  have r: "running_ok c' r" "held c' r = held c r" if "r \<in> set rs" for r
    using running_same_pool[OF A(7)[OF that] k p[OF that]] by blast+
  have "own_slots c' rs = own_slots c rs" by (rule own_slots_cong) (rule r(2))
  then show ?thesis unfolding serve_inv_def pool using A kv d r(1) by simp
qed

section \<open>Releasing a request\<close>

lemma held_read:
  assumes "req_pool_idx r = Some idx" and "idx < length (req_to_token (rc_pool c))"
  shows "pool_read (rc_pool c) idx (int (committed r)) = Some (held c r)"
  using assms by (simp add: pool_read_def held_def req_row_def slice_to_nonneg)

lemma release_ok:
  assumes i: "serve_inv c (r # rs) os H R" and strip: "\<not> rc_strip_thinking c"
  shows "\<exists>c'. release_kv_cache False r ins c =
      Some (r\<lparr>kv_committed_freed := True, kv_overallocated_freed := True, req_pool_idx := None\<rparr>, c') \<and>
    serve_inv c' rs os H R \<and> same_config c c' \<and> (\<forall>m ys. path_of c m ys \<longrightarrow> path_of c' m ys) \<and>
    (\<forall>ys. cached c ys \<longrightarrow> cached c' ys)"
proof -
  note A = serveD[OF i]
  let ?kv = "held c r" and ?toks = "take (committed r) (token_seq r)" and ?ins = "ins \<and> \<not> skip_radix_cache_insert r"
  obtain idx n where r: "req_pool_idx r = Some idx" "idx < length (req_to_token (rc_pool c))" "last_node r = Some n"
    "req_row c r = req_to_token (rc_pool c) ! idx"
    "0 \<le> kv_committed_len r" "kv_committed_len r = int (committed r)" "committed r \<le> length (req_row c r)"
    "committed r \<le> length (token_seq r)"
    "kv_allocated_len r = kv_committed_len r" "\<not> kv_committed_freed r" "\<not> kv_overallocated_freed r"
    "req_holds c r n (units (req_radix_key c r ?toks)) ?kv"
    using A(7)[of r] by (auto elim: running_okE)
  let ?r1 = "r\<lparr>kv_committed_freed := True\<rparr>"
  have kv: "kv_inv c (add_mset n (lock_nodes rs + H)) (set (req_own r ?kv) \<union> set (own_slots c rs) \<union> R)"
    using A(1) r(3) by simp
  have own: "set (req_own r ?kv) \<subseteq> set (req_own r ?kv) \<union> set (own_slots c rs) \<union> R" "distinct (req_own r ?kv)"
    using A(2) by auto
  have pop: "pop_committed_kv_cache (rc_strip_thinking c) r = Some (kv_committed_len r, ?r1)"
    using r(10) strip by (simp add: pop_committed_kv_cache_def cache_commit_len_def)
  have toks: "?toks = slice_to (origin_input_ids r @ output_ids r) (kv_committed_len r)"
    unfolding r(6) by (simp add: token_seq_def slice_to_nonneg)
  have lt: "length ?toks = committed r" using r(8) by simp
  have rd: "pool_read (rc_pool c) idx (int (length ?toks)) = Some ?kv"
    unfolding lt using held_read[OF r(1,2)] .
  have lk: "length ?kv = length ?toks" using r(7,8) by (simp add: held_def)
  from cache_finished_ok[OF kv own pop toks r(1) rd lk r(12), of ?ins] obtain c1 where c1:
    "cache_finished_req r ?ins c = Some (?r1, c1)"
    "kv_inv c1 (lock_nodes rs + H) (set (req_own r ?kv) \<union> set (own_slots c rs) \<union> R - set (req_own r ?kv))" "keeps c c1"
    "\<forall>m ys. path_of c m ys \<longrightarrow> path_of c1 m ys" "\<forall>ys. cached c ys \<longrightarrow> cached c1 ys" by blast
  have "set (req_own r ?kv) \<union> set (own_slots c rs) \<union> R - set (req_own r ?kv) = set (own_slots c rs) \<union> R"
    using A(2,3) by auto
  with c1(2) have kv1: "kv_inv c1 (lock_nodes rs + H) (set (own_slots c rs) \<union> R)" by simp
  let ?p = "(rc_pool c)\<lparr>rp_free_slots := rp_free_slots (rc_pool c) @ [idx]\<rparr>" and ?r' = "r\<lparr>kv_committed_freed := True, kv_overallocated_freed := True, req_pool_idx := None\<rparr>"
  let ?c2 = "c1\<lparr>rc_pool := ?p\<rparr>"
  have pool1: "rc_pool c1 = rc_pool c" "\<not> rc_strip_thinking c1" using c1(3) strip by (simp_all add: keeps_def)
  have call: "release_kv_cache False r ins c = Some (?r', ?c2)"
    using r(1,9,11) pool1 unfolding release_kv_cache_def
    by (simp add: c1(1) pop_overallocated_kv_cache_def cache_commit_len_def pool_free_def r(9)
        kv_invD(3)[OF kv1])
  note P = kv_pool[OF kv1, of ?p]
  have cfg: "same_config c ?c2" using c1(3) by (simp add: keeps_def same_config_def)
  have ok: "running_ok ?c2 x" "held ?c2 x = held c x" if "x \<in> set rs" for x
  proof -
    have "running_ok c x" using A(7) that by simp
    from running_frame[OF this cfg, of] show "running_ok ?c2 x" "held ?c2 x = held c x"
      using c1(4) P(3) by (simp_all add: req_row_def held_def)
  qed
  have os: "own_slots ?c2 rs = own_slots c rs" by (rule own_slots_cong) (rule ok(2))
  have "serve_inv ?c2 rs os H R" unfolding serve_inv_def os using P(1) A ok(1) r(1) by auto
  then show ?thesis using call cfg c1(4,5) P(2,3) by (intro exI[of _ ?c2]) simp
qed

section \<open>Retraction\<close>

lemma page_size_1: "kv_inv c H R \<Longrightarrow> al_page_size (rc_alloc c) = 1"
  using alloc_token[of "rc_alloc c"] by (simp add: kv_inv_def token_inv_def)

lemma tokens_next_decode: "new_tokens_required_next_decode 1 rs = int (length rs)"
  by (simp add: new_tokens_required_next_decode_def) (induction rs, simp_all)

lemma serve_evict:
  assumes i: "serve_inv c rs os H R"
  shows "\<exists>c'. evict_from_tree_cache n c = Some c' \<and> serve_inv c' rs os H R \<and> keeps c c' \<and> kv_budget c' = kv_budget c \<and>
    (n \<le> allocator_available_size (rc_alloc c') \<longleftrightarrow> n \<le> kv_budget c) \<and> (\<forall>r \<in> set rs. held c' r = held c r) \<and>
    (\<forall>h \<in># lock_nodes rs + H. \<forall>xs. path_of c h xs \<longrightarrow> path_of c' h xs)"
proof -
  note A = serveD[OF i]
  from evict_from_any[OF A(1), of n] obtain c' where e: "evict_from_tree_cache n c = Some c'"
    "kv_inv c' (lock_nodes rs + H) (set (own_slots c rs) \<union> R)" "keeps c c'" "kv_budget c' = kv_budget c"
    "n \<le> allocator_available_size (rc_alloc c') \<longleftrightarrow> n \<le> kv_budget c"
    "\<forall>h \<in># lock_nodes rs + H. \<forall>xs. path_of c h xs \<longrightarrow> path_of c' h xs" by blast
  have p: "path_of c' (the (last_node r)) ys" if "r \<in> set rs" "path_of c (the (last_node r)) ys" for r ys
    using e(6) lock_nodes_mem[OF that(1)] that(2) by auto
  have "serve_inv c' rs os H R" by (rule serve_same_pool[OF i e(3) p e(2) A(3)])
  moreover have "held c' r = held c r" if "r \<in> set rs" for r
    using e(3) by (simp add: held_def req_row_def keeps_def)
  ultimately show ?thesis using e by blast
qed

lemma check_mem_ok:
  assumes i: "serve_inv c rs os H R" and n: "length rs = length qs"
  shows "\<exists>c'. check_decode_mem qs c = Some (int (length rs) \<le> kv_budget c, c') \<and> serve_inv c' rs os H R \<and>
    kv_budget c' = kv_budget c \<and> keeps c c' \<and>
    (int (length rs) \<le> allocator_available_size (rc_alloc c') \<longleftrightarrow> int (length rs) \<le> kv_budget c)"
proof -
  from serve_evict[OF i, of "int (length rs)"] obtain c' where e:
    "evict_from_tree_cache (int (length rs)) c = Some c'" "serve_inv c' rs os H R" "kv_budget c' = kv_budget c" "keeps c c'"
    "int (length rs) \<le> allocator_available_size (rc_alloc c') \<longleftrightarrow> int (length rs) \<le> kv_budget c" by blast
  then show ?thesis using page_size_1[OF serveD(1)[OF i]] n
    by (simp add: check_decode_mem_def tokens_next_decode)
qed

definition given_up :: "sched_req \<Rightarrow> sched_req" where
  "given_up r = reset_for_retract (r\<lparr>req_pool_idx := None\<rparr>)"

lemma release_req_ok:
  assumes i: "serve_inv c (reqs ! idx # rs) os H R" and s: "\<not> rc_strip_thinking c"
  shows "\<exists>c'. release_req steps idx remaining reqs c = Some (reqs[idx := given_up (reqs ! idx)], c') \<and>
    serve_inv c' rs os H R \<and> \<not> rc_strip_thinking c' \<and> same_config c c'"
proof -
  from release_ok[OF i s, of False] obtain c1 where c1:
    "release_kv_cache False (reqs ! idx) False c =
      Some ((reqs ! idx)\<lparr>kv_committed_freed := True, kv_overallocated_freed := True, req_pool_idx := None\<rparr>, c1)"
    "serve_inv c1 rs os H R" "same_config c c1" by blast
  from serve_evict[OF c1(2), of "int remaining * steps"] obtain c2 where c2:
    "evict_from_tree_cache (int remaining * steps) c1 = Some c2" "serve_inv c2 rs os H R" "keeps c1 c2" by blast
  have "reset_for_retract ((reqs ! idx)\<lparr>kv_committed_freed := True, kv_overallocated_freed := True, req_pool_idx := None\<rparr>)
      = given_up (reqs ! idx)" by (simp add: reset_for_retract_def given_up_def)
  then show ?thesis using c1 c2 s by (simp add: release_req_def same_config_def keeps_def)
qed

lemma retract_loop_ok:
  "serve_inv c (map ((!) reqs) idxs) os H R \<Longrightarrow> \<not> rc_strip_thinking c \<Longrightarrow> idxs \<noteq> [] \<Longrightarrow> distinct idxs \<Longrightarrow>
   set idxs \<subseteq> {..<length reqs} \<Longrightarrow>
   \<exists>keep ret reqs' c'. retract_loop steps first_iter idxs reqs c = Some (keep, ret, reqs', c') \<and>
     idxs = keep @ rev ret \<and> keep \<noteq> [] \<and> serve_inv c' (map ((!) reqs) keep) os H R \<and> \<not> rc_strip_thinking c' \<and> same_config c c' \<and>
     length reqs' = length reqs \<and> (\<forall>i < length reqs. reqs' ! i = (if i \<in> set ret then given_up (reqs ! i) else reqs ! i)) \<and>
     (length keep = 1 \<or> int (length keep) \<le> kv_budget c' \<and> int (length keep) \<le> allocator_available_size (rc_alloc c'))"
proof (induction "length idxs" arbitrary: first_iter idxs reqs c)
  case 0
  then show ?case by simp
next
  case (Suc m)
  define res where "res = (if first_iter then Some (True, c)
            else map_option (\<lambda>(ok, c). (\<not> ok, c)) (check_decode_mem (map ((!) reqs) idxs) c))"
  have "\<exists>go c1. res = Some (go, c1) \<and> serve_inv c1 (map ((!) reqs) idxs) os H R \<and> \<not> rc_strip_thinking c1 \<and> same_config c c1 \<and>
      (go \<or> int (length idxs) \<le> kv_budget c1 \<and> int (length idxs) \<le> allocator_available_size (rc_alloc c1))"
  proof (cases first_iter)
    case True
    then show ?thesis using Suc.prems(1,2) keeps_config[of c c]
      by (intro exI[of _ True] exI[of _ c]) (simp add: res_def keeps_def)
  next
    case False
    from check_mem_ok[OF Suc.prems(1) refl] obtain c' where c':
      "check_decode_mem (map ((!) reqs) idxs) c = Some (int (length idxs) \<le> kv_budget c, c')"
      "serve_inv c' (map ((!) reqs) idxs) os H R" "kv_budget c' = kv_budget c" "keeps c c'"
      "int (length idxs) \<le> allocator_available_size (rc_alloc c') \<longleftrightarrow> int (length idxs) \<le> kv_budget c" by auto
    show ?thesis using c' Suc.prems(2) False keeps_config[OF c'(4)]
      by (intro exI[of _ "\<not> int (length idxs) \<le> kv_budget c"] exI[of _ c']) (simp add: res_def keeps_def)
  qed
  then obtain go c1 where g: "res = Some (go, c1)" "serve_inv c1 (map ((!) reqs) idxs) os H R" "\<not> rc_strip_thinking c1"
    "same_config c c1" "go \<or> int (length idxs) \<le> kv_budget c1 \<and> int (length idxs) \<le> allocator_available_size (rc_alloc c1)" by blast
  show ?case
  proof (cases "\<not> go \<or> length idxs = 1")
    case True
    then have "retract_loop steps first_iter idxs reqs c = Some (idxs, [], reqs, c1)"
      using g(1) unfolding res_def by (subst retract_loop.simps) simp
    then show ?thesis using g(2-5) Suc.prems(3) True
      by (intro exI[of _ idxs] exI[of _ "[]"] exI[of _ reqs] exI[of _ c1]) auto
  next
    case False
    let ?l = "List.last idxs" and ?b = "butlast idxs"
    have sp: "idxs = ?b @ [?l]" using Suc.prems(3) by simp
    have lb: "m = length ?b" "?b \<noteq> []" using Suc.hyps(2) False Suc.prems(3) by (simp, metis append_Nil length_Cons list.size(3) sp One_nat_def)
    have dl: "distinct (?b @ [?l])" "set (?b @ [?l]) \<subseteq> {..<length reqs}" using Suc.prems(4,5) sp by simp_all
    then have nl: "?l \<notin> set ?b" "?l < length reqs" "distinct ?b" "set ?b \<subseteq> {..<length reqs}" by simp_all
    have "mset (map ((!) reqs) idxs) = mset (reqs ! ?l # map ((!) reqs) ?b)"
      by (subst sp) (simp only: map_append mset_append, simp)
    from release_req_ok[OF serve_perm[OF g(2) this] g(3), of steps "length idxs - 1"] obtain c2 where r:
      "release_req steps ?l (length idxs - 1) reqs c1 = Some (reqs[?l := given_up (reqs ! ?l)], c2)"
      "serve_inv c2 (map ((!) reqs) ?b) os H R" "\<not> rc_strip_thinking c2" "same_config c1 c2" by blast
    let ?reqs = "reqs[?l := given_up (reqs ! ?l)]"
    have same: "map ((!) ?reqs) ks = map ((!) reqs) ks" if "set ks \<subseteq> set ?b" for ks
    proof (rule map_cong[OF refl])
      fix x assume "x \<in> set ks"
      then have "x \<noteq> ?l" using that nl(1) by auto
      then show "?reqs ! x = reqs ! x" by simp
    qed
    have "set ?b \<subseteq> {..<length ?reqs}" using nl(4) by simp
    from Suc.hyps(1)[OF lb(1) _ r(3) lb(2) nl(3) this] r(2) obtain keep ret reqs' c3 where k:
      "retract_loop steps False ?b ?reqs c2 = Some (keep, ret, reqs', c3)" "?b = keep @ rev ret" "keep \<noteq> []"
      "serve_inv c3 (map ((!) ?reqs) keep) os H R" "\<not> rc_strip_thinking c3" "same_config c2 c3" "length reqs' = length ?reqs"
      "\<forall>i < length ?reqs. reqs' ! i = (if i \<in> set ret then given_up (?reqs ! i) else ?reqs ! i)"
      "length keep = 1 \<or> int (length keep) \<le> kv_budget c3 \<and> int (length keep) \<le> allocator_available_size (rc_alloc c3)"
      unfolding same[OF order_refl] by blast
    have kb: "set keep \<subseteq> set ?b" "set ret \<subseteq> set ?b" unfolding k(2) by auto
    have "retract_loop steps first_iter idxs reqs c = Some (keep, ?l # ret, reqs', c3)"
      using g(1) False Suc.prems(3) r(1) k(1) unfolding res_def by (subst retract_loop.simps) simp
    moreover have "idxs = keep @ rev (?l # ret)" using sp k(2) by simp
    moreover have "\<forall>i < length reqs. reqs' ! i = (if i \<in> set (?l # ret) then given_up (reqs ! i) else reqs ! i)"
      using k(8) nl(1,2) kb(2) by (auto simp: nth_list_update)
    moreover have "same_config c c3" using same_config_trans[OF same_config_trans[OF g(4) r(4)] k(6)] .
    ultimately show ?thesis using k same[OF kb(1)] by (intro exI[of _ keep] exI[of _ "?l # ret"]) auto
  qed
qed

lemma retract_order_perm: "mset (retract_order reqs) = mset [0..<length reqs]"
  by (simp add: retract_order_def)

text \<open>When decoding runs out of slots, retraction ends and makes room: the loop keeps a batch whose next
  decode step the free slots cover (an empty one when even the last request had to be aborted), every
  request of the batch is kept, retracted or aborted exactly once, the kept ones untouched and the
  others without row, lock or slots, and no slot is lost on the way.\<close>

definition oom_given_up :: "sched_req \<Rightarrow> sched_req" where
  "oom_given_up r = given_up (r\<lparr>to_finish := Some oom_abort\<rparr>)"

lemma serve_to_finish:
  assumes "serve_inv c [r] os H R"
  shows "serve_inv c [r\<lparr>to_finish := x\<rparr>] os H R"
proof -
  have "running_ok c (r\<lparr>to_finish := x\<rparr>) = running_ok c r" "held c (r\<lparr>to_finish := x\<rparr>) = held c r"
    by (simp_all add: running_ok_def held_def committed_def req_row_def token_seq_def req_holds_def req_radix_key_def)
  then show ?thesis using assms by (simp add: serve_inv_def req_own_def)
qed

lemma retract_ok:
  assumes i: "serve_inv c reqs os H R" and strip: "\<not> rc_strip_thinking c" and ne: "reqs \<noteq> []"
  shows "\<exists>ks ret ab c'. retract_decode steps reqs c =
      Some (ks, map ((!) reqs) ks, map given_up ret, map oom_given_up ab, c') \<and> set ks \<subseteq> {..<length reqs} \<and> distinct ks \<and>
    mset (map ((!) reqs) ks @ ret @ ab) = mset reqs \<and> (if ks = [] then length ab = 1 else ab = []) \<and>
    serve_inv c' (map ((!) reqs) ks) os H R \<and> \<not> rc_strip_thinking c' \<and> same_config c c' \<and>
    int (length ks) \<le> allocator_available_size (rc_alloc c')"
proof -
  let ?o = "retract_order reqs"
  have so: "set ?o = {..<length reqs}" using mset_eq_setD[OF retract_order_perm] by auto
  have dst: "distinct ?o" using mset_eq_imp_distinct_iff[OF retract_order_perm] by simp
  have "0 < length reqs" using ne by simp
  then have "0 \<in> set ?o" unfolding so by simp
  then have one: "?o \<noteq> []" by (metis empty_iff list.set(1))
  have "mset (map ((!) reqs) ?o) = mset (map ((!) reqs) [0..<length reqs])"
    unfolding mset_map retract_order_perm ..
  then have mo: "mset (map ((!) reqs) ?o) = mset reqs" unfolding map_nth .
  from retract_loop_ok[OF serve_perm[OF i mo[symmetric]] strip one dst] so obtain keep ret reqs1 c1 where k:
    "retract_loop steps True ?o reqs c = Some (keep, ret, reqs1, c1)" "?o = keep @ rev ret" "keep \<noteq> []"
    "serve_inv c1 (map ((!) reqs) keep) os H R" "\<not> rc_strip_thinking c1" "same_config c c1" "length reqs1 = length reqs"
    "\<forall>i < length reqs. reqs1 ! i = (if i \<in> set ret then given_up (reqs ! i) else reqs ! i)"
    "length keep = 1 \<or> int (length keep) \<le> kv_budget c1 \<and> int (length keep) \<le> allocator_available_size (rc_alloc c1)"
    by blast
  have kr: "set keep \<subseteq> {..<length reqs}" "set ret \<subseteq> {..<length reqs}" "set keep \<inter> set ret = {}" "distinct keep"
    using so dst unfolding k(2) by auto
  have mk: "map ((!) reqs1) keep = map ((!) reqs) keep"
  proof (rule map_cong[OF refl])
    fix x assume "x \<in> set keep"
    then have "x < length reqs" "x \<notin> set ret" using kr(1,3) by auto
    then show "reqs1 ! x = reqs ! x" using k(8) by simp
  qed
  have mr: "map ((!) reqs1) ret = map given_up (map ((!) reqs) ret)"
  proof -
    have "reqs1 ! x = given_up (reqs ! x)" if "x \<in> set ret" for x
      using k(8) kr(2) that by (metis lessThan_iff subsetD)
    then show ?thesis by simp
  qed
  have mm: "mset (map ((!) reqs) keep @ map ((!) reqs) ret) = mset reqs"
    using mo unfolding k(2) by simp
  define res where "res = (if length keep \<le> 1 then check_decode_mem (map ((!) reqs1) keep) c1 else Some (True, c1))"
  have "\<exists>ok c2. res = Some (ok, c2) \<and> serve_inv c2 (map ((!) reqs) keep) os H R \<and> \<not> rc_strip_thinking c2 \<and> same_config c c2 \<and>
      (ok \<longrightarrow> int (length keep) \<le> allocator_available_size (rc_alloc c2)) \<and> (\<not> ok \<longrightarrow> length keep = 1)"
  proof (cases "length keep \<le> 1")
    case True
    then have "length keep = 1" using k(3) by (cases keep) auto
    from check_mem_ok[OF k(4), of "map ((!) reqs1) keep"] obtain c2 where c2:
      "check_decode_mem (map ((!) reqs1) keep) c1 = Some (int (length keep) \<le> kv_budget c1, c2)"
      "serve_inv c2 (map ((!) reqs) keep) os H R" "keeps c1 c2"
      "int (length keep) \<le> allocator_available_size (rc_alloc c2) \<longleftrightarrow> int (length keep) \<le> kv_budget c1" by auto
    have "same_config c c2" using same_config_trans[OF k(6) keeps_config[OF c2(3)]] .
    then show ?thesis using c2 k(5) True \<open>length keep = 1\<close>
      by (intro exI[of _ "int (length keep) \<le> kv_budget c1"] exI[of _ c2]) (simp add: res_def keeps_def)
  next
    case False
    then show ?thesis using k(4,5,6,9) by (intro exI[of _ True] exI[of _ c1]) (simp add: res_def)
  qed
  then obtain ok c2 where g: "res = Some (ok, c2)" "serve_inv c2 (map ((!) reqs) keep) os H R" "\<not> rc_strip_thinking c2" "same_config c c2"
    "ok \<longrightarrow> int (length keep) \<le> allocator_available_size (rc_alloc c2)" "\<not> ok \<longrightarrow> length keep = 1" by blast
  show ?thesis
  proof (cases ok)
    case True
    have "retract_decode steps reqs c =
        Some (keep, map ((!) reqs) keep, map given_up (map ((!) reqs) ret), map oom_given_up [], c2)"
      using k(1) g(1) True mk mr unfolding res_def by (simp add: retract_decode_def)
    then show ?thesis using g(2-5) True mm kr(1,4) k(3)
      by (intro exI[of _ keep] exI[of _ "map ((!) reqs) ret"] exI[of _ "[]"] exI[of _ c2]) simp
  next
    case False
    then obtain j where j: "keep = [j]" using g(6) by (cases keep) auto
    have jl: "j < length reqs" "j \<notin> set ret" using kr j by auto
    let ?r = "(reqs ! j)\<lparr>to_finish := Some oom_abort\<rparr>" and ?reqs = "reqs1[j := (reqs1 ! j)\<lparr>to_finish := Some oom_abort\<rparr>]"
    have rj: "?reqs ! j = ?r" "reqs1 ! j = reqs ! j" using k(7,8) jl by simp_all
    have "serve_inv c2 (?reqs ! j # []) os H R" using serve_to_finish g(2) j rj by simp
    from release_req_ok[OF this g(3), of steps 0] obtain c3 where r0:
      "release_req steps j 0 ?reqs c2 = Some (?reqs[j := given_up (?reqs ! j)], c3)" "serve_inv c3 ([] :: sched_req list) os H R"
      "\<not> rc_strip_thinking c3" "same_config c2 c3" by blast
    let ?R = "reqs1[j := oom_given_up (reqs ! j)]"
    have r: "release_req steps j 0 ?reqs c2 = Some (?R, c3)" using r0(1) jl(1) k(7) unfolding rj oom_given_up_def by simp
    have mr': "map ((!) ?R) ret = map given_up (map ((!) reqs) ret)"
    proof -
      have "map ((!) ?R) ret = map ((!) reqs1) ret"
      proof (rule map_cong[OF refl])
        fix x assume "x \<in> set ret"
        then have "x \<noteq> j" using jl(2) by auto
        then show "?R ! x = reqs1 ! x" by simp
      qed
      then show ?thesis using mr by simp
    qed
    have ck: "check_decode_mem (map ((!) reqs1) [j]) c1 = Some (False, c2)"
      using g(1) False unfolding res_def j by simp
    have "retract_decode steps reqs c = Some ([], [], map ((!) ?R) ret, [?R ! j], c3)"
      unfolding retract_decode_def k(1)[unfolded j] using r by (simp add: ck[simplified])
    moreover have "?R ! j = oom_given_up (reqs ! j)" using jl(1) k(7) by simp
    ultimately have "retract_decode steps reqs c =
        Some ([], map ((!) reqs) [], map given_up (map ((!) reqs) ret), map oom_given_up [reqs ! j], c3)"
      unfolding mr' by simp
    moreover have "mset (map ((!) reqs) [] @ map ((!) reqs) ret @ [reqs ! j]) = mset reqs" using mm j by simp
    moreover have "0 \<le> allocator_available_size (rc_alloc c3)" using kv_sizes(2)[OF serveD(1)[OF r0(2)]] by simp
    ultimately show ?thesis using r0(2,3) same_config_trans[OF g(4) r0(4)]
      by (intro exI[of _ "[]"] exI[of _ "map ((!) reqs) ret"] exI[of _ "[reqs ! j]"] exI[of _ c3]) simp
  qed
qed

section \<open>A decode step\<close>

lemma write_entries_ok:
  assumes "distinct (map fst es)" and "length out = length es"
    and "\<And>i loc. (i, loc) \<in> set es \<Longrightarrow> i < length (req_to_token p) \<and> 0 \<le> loc \<and> nat loc < length (req_to_token p ! i)"
  shows "\<exists>T. write_entries es out p = Some (p\<lparr>req_to_token := T\<rparr>) \<and> length T = length (req_to_token p) \<and>
    (\<forall>j < length es. T ! fst (es ! j) = (req_to_token p ! fst (es ! j))[nat (snd (es ! j)) := out ! j]) \<and>
    (\<forall>k. k \<notin> fst ` set es \<longrightarrow> T ! k = req_to_token p ! k) \<and> map length T = map length (req_to_token p)"
  using assms
proof (induction es arbitrary: out p)
  case Nil
  then show ?case by (intro exI[of _ "req_to_token p"]) simp
next
  case (Cons e es)
  obtain i loc where e: "e = (i, loc)" by fastforce
  obtain v vs where out: "out = v # vs" using Cons.prems(2) by (cases out) auto
  have b: "i < length (req_to_token p)" "0 \<le> loc" "nat loc < length (req_to_token p ! i)" using Cons.prems(3)[of i loc] e by auto
  let ?p = "p\<lparr>req_to_token := (req_to_token p)[i := (req_to_token p ! i)[nat loc := v]]\<rparr>"
  have i: "i \<notin> fst ` set es" "distinct (map fst es)" using Cons.prems(1) e by auto
  have ne: "k \<noteq> i" if "(k, l) \<in> set es" for k l using i(1) that by force
  have bb: "k < length (req_to_token ?p) \<and> 0 \<le> l \<and> nat l < length (req_to_token ?p ! k)" if "(k, l) \<in> set es" for k l
    using Cons.prems(3)[of k l] that ne[OF that] by simp
  have "length vs = length es" using Cons.prems(2) out by simp
  from Cons.IH[OF i(2) this bb] obtain T where T: "write_entries es vs ?p = Some (?p\<lparr>req_to_token := T\<rparr>)"
    "length T = length (req_to_token ?p)"
    "\<forall>j < length es. T ! fst (es ! j) = (req_to_token ?p ! fst (es ! j))[nat (snd (es ! j)) := vs ! j]"
    "\<forall>k. k \<notin> fst ` set es \<longrightarrow> T ! k = req_to_token ?p ! k" "map length T = map length (req_to_token ?p)" by blast
  have "T ! fst ((e # es) ! j) = (req_to_token p ! fst ((e # es) ! j))[nat (snd ((e # es) ! j)) := out ! j]" if "j < length (e # es)" for j
  proof (cases j)
    case 0
    then show ?thesis using T(4) i(1) b e out by simp
  next
    case (Suc m)
    then have "es ! m \<in> set es" using that by simp
    then have "fst (es ! m) \<noteq> i" using i(1) by force
    then show ?thesis using T(3) that Suc out by simp
  qed
  moreover have "T ! k = req_to_token p ! k" if "k \<notin> fst ` set (e # es)" for k
    using T(4) that e by auto
  moreover have "write_entries (e # es) out p = Some (p\<lparr>req_to_token := T\<rparr>)"
    using T(1) b e out by simp
  moreover have "map length T = map length (req_to_token p)"
    unfolding T(5) using b(1) by (simp add: map_update list_update_same_conv)
  ultimately show ?case using T(2) by (intro exI[of _ T]) simp
qed

lemma same_widths:
  assumes "map length T = map length T0" and "\<And>row. row \<in> set T0 \<Longrightarrow> length row = n" and "row \<in> set T"
  shows "length row = n"
proof -
  have "length row \<in> set (map length T)" using assms(3) by simp
  then show ?thesis using assms(2) unfolding assms(1) by auto
qed

lemma own_slots_snoc:
  assumes "length rs' = length rs" and "length out = length rs"
    and "\<And>i. i < length rs \<Longrightarrow> req_own (rs' ! i) (held c' (rs' ! i)) = req_own (rs ! i) (held c (rs ! i)) @ [out ! i]"
  shows "mset (own_slots c' rs') = mset (own_slots c rs) + mset out"
  using assms
proof (induction rs arbitrary: rs' out)
  case Nil
  then show ?case by simp
next
  case (Cons r rs)
  obtain r' qs where r': "rs' = r' # qs" using Cons.prems(1) by (cases rs') auto
  obtain v vs where out: "out = v # vs" using Cons.prems(2) by (cases out) auto
  have "req_own (qs ! i) (held c' (qs ! i)) = req_own (rs ! i) (held c (rs ! i)) @ [vs ! i]" if "i < length rs" for i
    using Cons.prems(3)[of "Suc i"] that r' out by simp
  from Cons.IH[OF _ _ this] Cons.prems(1,2) r' out have "mset (own_slots c' qs) = mset (own_slots c rs) + mset vs" by simp
  then show ?case using Cons.prems(3)[of 0] r' out by simp
qed

definition decoded :: "sched_req \<Rightarrow> sched_req" where
  "decoded r = r\<lparr>kv_committed_len := kv_committed_len r + 1, kv_allocated_len := kv_allocated_len r + 1\<rparr>"

lemma running_decoded:
  assumes ok: "running_ok c r" and cfg: "same_config c c'" and ps: "rc_page_size c = 1"
    and tab: "length (req_to_token (rc_pool c')) = length (req_to_token (rc_pool c))"
    and row: "req_row c' r = (req_row c r)[committed r := v]"
    and room: "committed r < length (req_row c r)" "committed r < length (token_seq r)"
    and path: "\<And>ys. path_of c (the (last_node r)) ys \<Longrightarrow> path_of c' (the (last_node r)) ys"
  shows "running_ok c' (decoded r)" and "held c' (decoded r) = held c r @ [v]"
    and "req_own (decoded r) (held c' (decoded r)) = req_own r (held c r) @ [v]"
proof -
  obtain idx n where r: "req_pool_idx r = Some idx" "last_node r = Some n" "0 \<le> kv_committed_len r"
    "req_holds c r n (units (req_radix_key c r (take (committed r) (token_seq r)))) (held c r)"
    using running_okE[OF ok] by metis
  have cm: "committed (decoded r) = Suc (committed r)" using r(3) by (simp add: committed_def decoded_def nat_add_distrib)
  have rw: "req_row c' (decoded r) = req_row c' r" by (simp add: req_row_def decoded_def)
  show h: "held c' (decoded r) = held c r @ [v]"
    unfolding held_def cm rw row using room(1) by (simp add: take_Suc_conv_app_nth)
  from r(4) obtain ys where ys: "path_of c n ys" "prefix (map fst ys) (units (req_radix_key c r (take (committed r) (token_seq r))))"
    "cache_protected_len r = int (length ys)" "map snd ys = take (length ys) (held c r)" unfolding req_holds_def by blast
  have ly: "length ys \<le> length (held c r)" using arg_cong[OF ys(4), of length] by simp
  have pl: "cache_protected_len (decoded r) = int (length ys)" using ys(3) by (simp add: decoded_def)
  show "req_own (decoded r) (held c' (decoded r)) = req_own r (held c r) @ [v]"
    unfolding h req_own_def pl ys(3) using ly by simp
  let ?k' = "req_radix_key c r (take (Suc (committed r)) (token_seq r))"
  have "prefix (take (committed r) (token_seq r)) (take (Suc (committed r)) (token_seq r))"
    using room(2) by (simp add: take_Suc_conv_app_nth)
  from units_key_prefix[OF ps this] ys(2) have "prefix (map fst ys) (units ?k')" using prefix_order.order_trans by blast
  moreover have "req_radix_key c' (decoded r) (take (committed (decoded r)) (token_seq (decoded r))) = ?k'"
    unfolding cm using radix_key_config[OF cfg] by (simp add: decoded_def token_seq_def req_radix_key_def)
  moreover have "map snd ys = take (length ys) (held c' (decoded r))" using ys(4) ly by (simp add: h)
  ultimately have "req_holds c' (decoded r) n
      (units (req_radix_key c' (decoded r) (take (committed (decoded r)) (token_seq (decoded r))))) (held c' (decoded r))"
    using path[of ys] ys(1) r(2) pl unfolding req_holds_def by (auto simp: decoded_def)
  moreover have "length (req_row c' (decoded r)) = length (req_row c r)" by (simp add: rw row)
  ultimately show "running_ok c' (decoded r)"
    using ok tab room unfolding running_ok_def cm by (auto simp: decoded_def token_seq_def)
qed

lemma rows_of_map: "\<forall>r \<in> set rs. req_pool_idx r \<noteq> None \<Longrightarrow> rows_of rs = map (the \<circ> req_pool_idx) rs"
  by (induction rs) auto

lemma decoded_fields [simp]:
  "req_pool_idx (decoded r) = req_pool_idx r" "last_node (decoded r) = last_node r"
  by (simp_all add: decoded_def)

lemma rows_of_decoded: "rows_of (map decoded rs) = rows_of rs"
  by (induction rs) simp_all

lemma lock_nodes_decoded: "lock_nodes (map decoded rs) = lock_nodes rs"
  by (induction rs) simp_all

text \<open>A decode step that the budget covers gives every request of the batch one new slot of its own: the
  row of each request is its old row and the new slot behind it, the new slots are distinct and were
  not in use, and every slot still has exactly one owner.\<close>

lemma decode_step_ok:
  assumes i: "serve_inv c (bt_reqs b) os H R"
    and rows: "bt_pool_indices b = map (the \<circ> req_pool_idx) (bt_reqs b)"
    and lens: "bt_seq_lens b = map kv_committed_len (bt_reqs b)"
    and fits: "int (length (bt_reqs b)) \<le> kv_budget c"
    and room: "\<And>r. r \<in> set (bt_reqs b) \<Longrightarrow> committed r < length (req_row c r) \<and> committed r < length (token_seq r)"
  shows "\<exists>out b' c'. prepare_for_decode torch_empty b c = Some (b', c') \<and> bt_reqs b' = map decoded (bt_reqs b) \<and>
    bt_seq_lens b' = map kv_committed_len (bt_reqs b') \<and> bt_pool_indices b' = bt_pool_indices b \<and>
    serve_inv c' (bt_reqs b') os H R \<and> length out = length (bt_reqs b) \<and> distinct out \<and>
    set out \<inter> (set (own_slots c (bt_reqs b)) \<union> R) = {} \<and>
    (\<forall>j < length (bt_reqs b). held c' (bt_reqs b' ! j) = held c (bt_reqs b ! j) @ [out ! j]) \<and>
    same_config c c' \<and> schedule_batch.more b' = schedule_batch.more b"
proof -
  note A = serveD[OF i]
  define rs where "rs = bt_reqs b"
  have ps: "rc_page_size c = 1" by (rule kv_invD(3)[OF A(1)])
  from alloc_token_slots_ok[OF A(1) _ fits, of False] obtain out st c1 where a:
    "alloc_token_slots (int (length (bt_reqs b))) False c = Some ((out, st), c1)" "length out = length (bt_reqs b)" "distinct out"
    "set out \<inter> (set (own_slots c rs) \<union> R) = {}" "kv_inv c1 (lock_nodes rs + H) (set (own_slots c rs) \<union> R \<union> set out)"
    "keeps c c1" "\<forall>h \<in># lock_nodes rs + H. \<forall>xs. path_of c h xs \<longrightarrow> path_of c1 h xs"
    unfolding rs_def by auto
  have pool: "rc_pool c1 = rc_pool c" using a(6) by (simp add: keeps_def)
  let ?es = "zip (map (the \<circ> req_pool_idx) rs) (map kv_committed_len rs)"
  have idx: "req_pool_idx r \<noteq> None" "the (req_pool_idx r) < length (req_to_token (rc_pool c))" "0 \<le> kv_committed_len r"
    if "r \<in> set rs" for r using A(7)[of r] that by (auto simp: running_ok_def rs_def)
  have ro: "rows_of rs = map (the \<circ> req_pool_idx) rs" by (rule rows_of_map) (use idx(1) in blast)
  then have d: "distinct (map fst ?es)" using A(4) by (simp add: rs_def)
  have dj: "rs ! j \<in> set rs" if "j < length rs" for j using that by simp
  have fe: "fst (?es ! j) = the (req_pool_idx (rs ! j))" "nat (snd (?es ! j)) = committed (rs ! j)" if "j < length rs" for j
    using that by (simp_all add: committed_def)
  have inb: "k < length (req_to_token (rc_pool c1)) \<and> 0 \<le> l \<and> nat l < length (req_to_token (rc_pool c1) ! k)"
    if m: "(k, l) \<in> set ?es" for k l
  proof -
    from m obtain r where r: "r \<in> set rs" "k = the (req_pool_idx r)" "l = kv_committed_len r"
      by (auto simp: zip_map_map zip_same_conv_map)
    then show ?thesis using idx[OF r(1)] room[of r] by (simp add: rs_def pool req_row_def committed_def)
  qed
  from write_entries_ok[OF d _ inb, of out] a(2) obtain T where T:
    "write_entries ?es out (rc_pool c1) = Some ((rc_pool c1)\<lparr>req_to_token := T\<rparr>)" "length T = length (req_to_token (rc_pool c))"
    "\<forall>j < length rs. T ! fst (?es ! j) = (req_to_token (rc_pool c) ! fst (?es ! j))[nat (snd (?es ! j)) := out ! j]"
    "map length T = map length (req_to_token (rc_pool c))"
    unfolding pool by (auto simp: rs_def)
  note wid = same_widths[OF T(4) A(8)]
  let ?p = "(rc_pool c1)\<lparr>req_to_token := T\<rparr>"
  let ?c2 = "c1\<lparr>rc_pool := ?p\<rparr>"
  note P = kv_pool[OF a(5), of ?p]
  have cfg: "same_config c ?c2" using a(6) by (simp add: keeps_def same_config_def)
  have row: "req_row ?c2 (rs ! j) = (req_row c (rs ! j))[committed (rs ! j) := out ! j]" if "j < length rs" for j
    using T(3) that fe[OF that] by (simp add: req_row_def)
  have path: "path_of ?c2 (the (last_node (rs ! j))) ys" if "j < length rs" "path_of c (the (last_node (rs ! j))) ys" for j ys
    using a(7) lock_nodes_mem[OF dj[OF that(1)]] that(2) P(3) by auto
  have ok: "running_ok ?c2 (decoded (rs ! j))" "held ?c2 (decoded (rs ! j)) = held c (rs ! j) @ [out ! j]"
    "req_own (decoded (rs ! j)) (held ?c2 (decoded (rs ! j))) = req_own (rs ! j) (held c (rs ! j)) @ [out ! j]"
    if "j < length rs" for j
    using running_decoded[OF A(7)[unfolded rs_def[symmetric], OF dj[OF that]] cfg ps _ row[OF that] _ _ path[OF that]]
      room[unfolded rs_def[symmetric], OF dj[OF that]] T(2) by simp_all
  have os: "mset (own_slots ?c2 (map decoded rs)) = mset (own_slots c rs @ out)"
    using own_slots_snoc[of "map decoded rs" rs out ?c2 c] ok(3) a(2) by (simp add: rs_def)
  have dd: "distinct (own_slots ?c2 (map decoded rs))" "set (own_slots ?c2 (map decoded rs)) = set (own_slots c rs) \<union> set out"
    using mset_eq_imp_distinct_iff[OF os] mset_eq_setD[OF os] A(2) a(3,4) by (auto simp: rs_def)
  have "running_ok ?c2 r" if "r \<in> set (map decoded rs)" for r
    using ok(1) that by (auto simp: in_set_conv_nth)
  then have s: "serve_inv ?c2 (map decoded rs) os H R"
    unfolding serve_inv_def using P(1) dd A(1-7) a(4) T(2) wid
    by (auto simp: rows_of_decoded lock_nodes_decoded rs_def pool Un_ac)
  let ?b = "b\<lparr>bt_out_cache_loc := out, bt_reqs := map decoded rs, bt_seq_lens := map (\<lambda>n. n + 1) (bt_seq_lens b)\<rparr>"
  have "prepare_for_decode torch_empty b c = Some (?b, ?c2)"
    using a(1) T(1) unfolding prepare_for_decode_def alloc_for_decode_def rows lens rs_def
    by (simp add: ps decoded_def[abs_def] rs_def[symmetric])
  then show ?thesis using s a(2-4) ok(2) lens rows cfg
    by (intro exI[of _ out] exI[of _ ?b] exI[of _ ?c2]) (simp add: rs_def decoded_def)
qed

section \<open>A prefill step\<close>

fun pieces :: "nat list \<Rightarrow> 'a list \<Rightarrow> 'a list list" where
  "pieces [] xs = []"
| "pieces (n # ns) xs = take n xs # pieces ns (drop n xs)"

lemma length_pieces [simp]: "length (pieces ns xs) = length ns"
  by (induction ns arbitrary: xs) simp_all

lemma concat_pieces: "concat (pieces ns xs) = take (sum_list ns) xs"
  by (induction ns arbitrary: xs) (simp_all add: take_add)

lemma pieces_length: "sum_list ns \<le> length xs \<Longrightarrow> j < length ns \<Longrightarrow> length (pieces ns xs ! j) = ns ! j"
proof (induction ns arbitrary: xs j)
  case (Cons n ns)
  then show ?case by (cases j) auto
qed simp

lemma mset_concat_append:
  assumes "length ys = length xs" and "length ps = length xs"
    and "\<And>i. i < length xs \<Longrightarrow> g (ys ! i) = f (xs ! i) @ ps ! i"
  shows "mset (concat (map g ys)) = mset (concat (map f xs)) + mset (concat ps)"
  using assms
proof (induction xs arbitrary: ys ps)
  case (Cons x xs)
  obtain y ys' where y: "ys = y # ys'" using Cons.prems(1) by (cases ys) auto
  obtain p ps' where p: "ps = p # ps'" using Cons.prems(2) by (cases ps) auto
  have "g (ys' ! i) = f (xs ! i) @ ps' ! i" if "i < length xs" for i
    using Cons.prems(3)[of "Suc i"] that y p by simp
  from Cons.IH[OF _ _ this] Cons.prems(1,2) y p
  have "mset (concat (map g ys')) = mset (concat (map f xs)) + mset (concat ps')" by simp
  then show ?case using Cons.prems(3)[of 0] y p by simp
qed simp

text \<open>What an entry writes: the prefix, then the next piece of the new slots.\<close>

definition entry_ok :: "req_pool \<Rightarrow> row_entry \<Rightarrow> bool" where
  "entry_ok p = (\<lambda>(i, pl, sl, el, pre). i < length (req_to_token p) \<and> pl = int (length pre) \<and> sl = pl + el \<and> 0 \<le> el \<and>
     nat sl \<le> length (req_to_token p ! i))"

definition entry_len :: "row_entry \<Rightarrow> nat" where
  "entry_len = (\<lambda>(i, pl, sl, el, pre). nat el)"

lemma write_rows_ok:
  assumes "distinct (map fst es)" and "\<forall>e \<in> set es. entry_ok p e" and "pt + sum_list (map entry_len es) \<le> length out"
  shows "\<exists>T. write_rows (int pt) out es p = Some (p\<lparr>req_to_token := T\<rparr>) \<and> length T = length (req_to_token p) \<and>
    (\<forall>j < length es. T ! fst (es ! j) = snd (snd (snd (snd (es ! j)))) @ pieces (map entry_len es) (drop pt out) ! j @
       drop (nat (fst (snd (snd (es ! j))))) (req_to_token p ! fst (es ! j))) \<and>
    (\<forall>k. k \<notin> fst ` set es \<longrightarrow> T ! k = req_to_token p ! k) \<and> map length T = map length (req_to_token p)"
  using assms
proof (induction es arbitrary: pt p)
  case Nil
  then show ?case by (intro exI[of _ "req_to_token p"]) simp
next
  case (Cons e es)
  obtain i pl sl el pre where e: "e = (i, pl, sl, el, pre)" by (cases e)
  have ok: "i < length (req_to_token p)" "pl = int (length pre)" "sl = pl + el" "0 \<le> el" "nat sl \<le> length (req_to_token p ! i)"
    using Cons.prems(2) e by (auto simp: entry_ok_def)
  let ?n = "nat el" and ?row = "req_to_token p ! i"
  have sl: "sl = int (length pre + ?n)" using ok by simp
  have lr: "length pre \<le> length ?row" "length pre + ?n \<le> length ?row" using ok by simp_all
  from pool_write_row[OF ok(1), of 0 "length pre" pre] lr(1) obtain p1 where p1: "pool_write p i 0 pl pre = Some p1"
    "req_to_token p1 = (req_to_token p)[i := pre @ drop (length pre) ?row]" "rp_free_slots p1 = rp_free_slots p" "rp_size p1 = rp_size p"
    using ok(2) by auto
  let ?v = "slice out (int pt) (int pt + el)"
  have v: "?v = take ?n (drop pt out)" using ok(4) by (simp add: slice_nonneg nat_add_distrib drop_take)
  have nout: "?n \<le> length (drop pt out)" using Cons.prems(3) e by (simp add: entry_len_def)
  have row1: "req_to_token p1 ! i = pre @ drop (length pre) ?row" using p1(2) ok(1) by simp
  have "i < length (req_to_token p1)" using p1(2) ok(1) by simp
  from pool_write_row[OF this, of "length pre" "length pre + ?n" ?v] row1 lr(2) v nout obtain p2 where p2:
    "pool_write p1 i (int (length pre)) (int (length pre + ?n)) ?v = Some p2"
    "req_to_token p2 = (req_to_token p1)[i := pre @ ?v @ drop (length pre + ?n) (pre @ drop (length pre) ?row)]"
    "rp_free_slots p2 = rp_free_slots p1" "rp_size p2 = rp_size p1" by auto
  have T2: "req_to_token p2 = (req_to_token p)[i := pre @ ?v @ drop (length pre + ?n) ?row]"
    unfolding p2(2) p1(2) using lr by (simp add: add.commute)
  have i: "i \<notin> fst ` set es" "distinct (map fst es)" using Cons.prems(1) e by auto
  have ne: "fst x \<noteq> i" if "x \<in> set es" for x using i(1) that by auto
  have "\<forall>x \<in> set es. entry_ok p2 x"
    using Cons.prems(2) ne unfolding entry_ok_def T2 by (fastforce simp: nth_list_update)
  moreover have "(pt + ?n) + sum_list (map entry_len es) \<le> length out" using Cons.prems(3) e by (simp add: entry_len_def)
  ultimately obtain T where T: "write_rows (int (pt + ?n)) out es p2 = Some (p2\<lparr>req_to_token := T\<rparr>)"
    "length T = length (req_to_token p2)"
    "\<forall>j < length es. T ! fst (es ! j) = snd (snd (snd (snd (es ! j)))) @ pieces (map entry_len es) (drop (pt + ?n) out) ! j @
       drop (nat (fst (snd (snd (es ! j))))) (req_to_token p2 ! fst (es ! j))"
    "\<forall>k. k \<notin> fst ` set es \<longrightarrow> T ! k = req_to_token p2 ! k" "map length T = map length (req_to_token p2)"
    using Cons.IH[OF i(2), of p2 "pt + ?n"] by blast
  have eq: "p2\<lparr>req_to_token := T\<rparr> = p\<lparr>req_to_token := T\<rparr>"
    using p1(1) p2(1) by (auto simp: pool_write_def Let_def split: if_splits)
  have "write_rows (int pt) out (e # es) p = Some (p\<lparr>req_to_token := T\<rparr>)"
    using p1(1) p2(1) T(1) eq ok(2,4) sl e by (simp add: add.commute)
  moreover have "T ! fst ((e # es) ! j) = snd (snd (snd (snd ((e # es) ! j)))) @ pieces (map entry_len (e # es)) (drop pt out) ! j @
       drop (nat (fst (snd (snd ((e # es) ! j))))) (req_to_token p ! fst ((e # es) ! j))" if "j < length (e # es)" for j
  proof (cases j)
    case 0
    then show ?thesis using T(4) i(1) ok(1) T2 v e sl by (simp add: entry_len_def nat_add_distrib)
  next
    case (Suc m)
    then have m: "m < length es" "es ! m \<in> set es" using that by simp_all
    have "req_to_token p2 ! fst (es ! m) = req_to_token p ! fst (es ! m)" using ne[OF m(2)] T2 by simp
    then show ?thesis using T(3) m(1) Suc e by (simp add: entry_len_def add.commute)
  qed
  moreover have "T ! k = req_to_token p ! k" if "k \<notin> fst ` set (e # es)" for k
    using T(4) that e T2 by auto
  moreover have "length T = length (req_to_token p)" using T(2) T2 by simp
  moreover have "map length T = map length (req_to_token p)"
    unfolding T(5) T2 using ok(1) v nout lr by (simp add: map_update list_update_same_conv)
  ultimately show ?case by blast
qed

text \<open>Requests ready for prefill next to the running ones; the slots a chunked request already owns.\<close>

definition staged_own :: "sched_req list \<Rightarrow> int list" where
  "staged_own qs = concat (map (\<lambda>q. req_own q (prefix_indices q)) qs)"

definition stage_inv :: "radix_cache \<Rightarrow> sched_req list \<Rightarrow> sched_req list \<Rightarrow> sched_req list \<Rightarrow> nid multiset \<Rightarrow> int set \<Rightarrow> bool" where
  "stage_inv c qs rs os H R \<longleftrightarrow> serve_inv c rs (qs @ os) (lock_nodes qs + H) (set (staged_own qs) \<union> R) \<and>
     distinct (staged_own qs) \<and> set (staged_own qs) \<inter> R = {} \<and>
     (\<forall>q \<in> set qs. staged c q \<and> \<not> kv_committed_freed q \<and> \<not> kv_overallocated_freed q)"

lemma assign_rows_only: "list_all2 (\<lambda>r r'. \<exists>i. r' = r\<lparr>req_pool_idx := Some i\<rparr>) reqs (assign_rows reqs sel)"
proof (induction reqs sel rule: assign_rows.induct)
  case (2 r rs sel)
  have "\<exists>i. r = r\<lparr>req_pool_idx := Some i\<rparr>" if "req_pool_idx r = Some k" for k
    using that by (intro exI[of _ k]) (cases r, simp)
  with 2 show ?case by (cases "req_pool_idx r") auto
qed simp

lemma pool_alloc_ok:
  assumes "pool_inv p (others @ reqs)"
    and "\<forall>r \<in> set reqs. req_pool_idx r \<noteq> None \<longrightarrow> inflight_middle_chunks r > 0 \<or> kv_committed_len r > 0"
    and "length (filter (\<lambda>r. req_pool_idx r = None) reqs) \<le> length (rp_free_slots p)"
  shows "\<exists>reqs' fr. pool_alloc p reqs = Some (Some (rows_of reqs'), reqs', p\<lparr>rp_free_slots := fr\<rparr>) \<and>
    pool_inv (p\<lparr>rp_free_slots := fr\<rparr>) (others @ reqs') \<and> (\<forall>r \<in> set reqs'. req_pool_idx r \<noteq> None) \<and>
    list_all2 (\<lambda>r r'. \<exists>i. r' = r\<lparr>req_pool_idx := Some i\<rparr>) reqs reqs'"
proof -
  define need where "need = length (filter (\<lambda>r. req_pool_idx r = None) reqs)"
  have need: "length reqs - length (filter (\<lambda>r. req_pool_idx r \<noteq> None) reqs) = need"
    using filter_length_split[of reqs "\<lambda>r. req_pool_idx r \<noteq> None"] by (simp add: need_def)
  let ?reqs = "assign_rows reqs (take need (rp_free_slots p))"
  have call: "pool_alloc p reqs = Some (Some (map (the \<circ> req_pool_idx) ?reqs), ?reqs, p\<lparr>rp_free_slots := drop need (rp_free_slots p)\<rparr>)"
    using assms(2,3) need by (auto simp: pool_alloc_def Let_def need_def list_all_iff)
  from pool_alloc_rows[OF assms(1) call] have "pool_inv (p\<lparr>rp_free_slots := drop need (rp_free_slots p)\<rparr>) (others @ ?reqs)"
    "\<forall>r \<in> set ?reqs. req_pool_idx r \<noteq> None" "map (the \<circ> req_pool_idx) ?reqs = rows_of ?reqs" by simp_all
  then show ?thesis using call assign_rows_only[of reqs "take need (rp_free_slots p)"]
    by (intro exI[of _ ?reqs] exI[of _ "drop need (rp_free_slots p)"]) simp
qed

definition prefilled :: "sched_req \<Rightarrow> sched_req" where
  "prefilled r = r\<lparr>kv_committed_len := int (length (fill_ids r)), kv_allocated_len := int (length (fill_ids r))\<rparr>"

lemma running_prefilled:
  assumes s: "staged c q" and fl: "\<not> kv_committed_freed q" "\<not> kv_overallocated_freed q"
    and r: "r = prefilled (q\<lparr>req_pool_idx := Some i\<rparr>)" and k: "same_config c c'"
    and path: "\<And>ys. path_of c (the (last_node q)) ys \<Longrightarrow> path_of c' (the (last_node q)) ys"
    and tab: "i < length (req_to_token (rc_pool c'))"
    and row: "req_to_token (rc_pool c') ! i = prefix_indices q @ piece @ rest" "int (length piece) = extend_input_len q"
  shows "running_ok c' r" and "held c' r = prefix_indices q @ piece"
    and "req_own r (held c' r) = req_own q (prefix_indices q) @ piece" and "the (last_node r) = the (last_node q)"
proof -
  from s obtain n where n: "req_holds c q n (units (req_radix_key c q (fill_ids q))) (prefix_indices q)"
    "int (length (fill_ids q)) - int (length (prefix_indices q)) = extend_input_len q" "prefix (fill_ids q) (token_seq q)"
    unfolding staged_def by blast
  have len: "length (fill_ids q) = length (prefix_indices q) + length piece" using n(2) row(2) by linarith
  have fields: "committed r = length (fill_ids q)" "req_pool_idx r = Some i" "token_seq r = token_seq q"
    "last_node r = last_node q" "cache_protected_len r = cache_protected_len q" "kv_committed_len r = int (length (fill_ids q))"
    "kv_allocated_len r = kv_committed_len r" "\<not> kv_committed_freed r" "\<not> kv_overallocated_freed r"
    "req_radix_key c' r ts = req_radix_key c q ts" for ts
    using radix_key_config[OF k] fl by (simp_all add: r prefilled_def committed_def token_seq_def req_radix_key_def)
  show h: "held c' r = prefix_indices q @ piece"
    unfolding held_def req_row_def fields using len row(1) by simp
  from n(1) obtain ys where ys: "last_node q = Some n" "path_of c n ys" "prefix (map fst ys) (units (req_radix_key c q (fill_ids q)))"
    "cache_protected_len q = int (length ys)" "map snd ys = take (length ys) (prefix_indices q)" unfolding req_holds_def by blast
  have ly: "length ys \<le> length (prefix_indices q)" using arg_cong[OF ys(5), of length] by simp
  show "req_own r (held c' r) = req_own q (prefix_indices q) @ piece"
    unfolding h req_own_def fields ys(4) using ly by simp
  have tk: "take (length (fill_ids q)) (token_seq q) = fill_ids q" using n(3) by (auto simp: prefix_def)
  have le: "length (fill_ids q) \<le> length (token_seq q)" using n(3) by (rule prefix_length_le)
  have "map snd ys = take (length ys) (prefix_indices q @ piece)" using ys(5) ly by simp
  then have "req_holds c' r n (units (req_radix_key c' r (take (committed r) (token_seq r)))) (held c' r)"
    unfolding req_holds_def h fields tk using ys path[of ys] by (intro conjI exI[of _ ys]) simp_all
  then show "running_ok c' r" unfolding running_ok_def fields req_row_def using tab row(1) len le fields(7-9) by auto
  show "the (last_node r) = the (last_node q)" by (simp add: fields)
qed

text \<open>A prefill step that rows, slots and row lengths allow turns ready requests into running ones: every
  request of the batch gets a row, the row is its cached or earlier slots followed by new slots, one
  for each token to compute, no slot of which was in use, and every slot has exactly one owner
  afterwards.\<close>

lemma prefill_step_ok:
  assumes i: "stage_inv c qs rs os H R"
    and rows: "length (filter (\<lambda>q. req_pool_idx q = None) qs) \<le> length (rp_free_slots (rc_pool c))"
    and reuse: "\<forall>q \<in> set qs. req_pool_idx q \<noteq> None \<longrightarrow> inflight_middle_chunks q > 0 \<or> kv_committed_len q > 0"
    and wide: "\<forall>q \<in> set qs. \<forall>row \<in> set (req_to_token (rc_pool c)). length (fill_ids q) \<le> length row"
    and fits: "sum_list (map extend_input_len qs) \<le> kv_budget c"
  shows "\<exists>b c'. prepare_for_extend torch_empty qs c = Some (b, c') \<and> serve_inv c' (bt_reqs b @ rs) os H R \<and>
    list_all2 (\<lambda>q r. \<exists>j piece. r = prefilled (q\<lparr>req_pool_idx := Some j\<rparr>) \<and> held c' r = prefix_indices q @ piece \<and>
       length piece = nat (extend_input_len q)) qs (bt_reqs b) \<and>
    bt_seq_lens b = map kv_committed_len (bt_reqs b) \<and> bt_pool_indices b = map (the \<circ> req_pool_idx) (bt_reqs b) \<and>
    (\<forall>r \<in> set rs. held c' r = held c r) \<and> same_config c c'"
proof -
  have s: "serve_inv c rs (qs @ os) (lock_nodes qs + H) (set (staged_own qs) \<union> R)" "distinct (staged_own qs)"
    "set (staged_own qs) \<inter> R = {}" "\<And>q. q \<in> set qs \<Longrightarrow> staged c q" "\<And>q. q \<in> set qs \<Longrightarrow> \<not> kv_committed_freed q"
    "\<And>q. q \<in> set qs \<Longrightarrow> \<not> kv_overallocated_freed q"
    using i unfolding stage_inv_def by blast+
  note A = serveD[OF s(1)]
  let ?p = "rc_pool c" and ?fl = "\<lambda>q. length (fill_ids q)" and ?pl = "\<lambda>q. length (prefix_indices q)"
  have len: "int (?fl q) - int (?pl q) = extend_input_len q" "0 \<le> extend_input_len q" if "q \<in> set qs" for q
    using s(4)[OF that] by (auto simp: staged_def)
  have pinv: "pool_inv ?p ((rs @ os) @ qs)"
    using A(4,5) unfolding pool_inv_def by (auto simp: Un_ac)
  from pool_alloc_ok[OF pinv reuse rows] obtain qs1 fr where al:
    "pool_alloc ?p qs = Some (Some (rows_of qs1), qs1, ?p\<lparr>rp_free_slots := fr\<rparr>)"
    "pool_inv (?p\<lparr>rp_free_slots := fr\<rparr>) ((rs @ os) @ qs1)" "\<forall>r \<in> set qs1. req_pool_idx r \<noteq> None"
    "list_all2 (\<lambda>r r'. \<exists>i. r' = r\<lparr>req_pool_idx := Some i\<rparr>) qs qs1" by blast
  have lq: "length qs1 = length qs" using list_all2_lengthD[OF al(4)] by simp
  have q1: "\<exists>i. qs1 ! j = (qs ! j)\<lparr>req_pool_idx := Some i\<rparr>" if "j < length qs" for j
    using list_all2_nthD[OF al(4) that] .
  define row where "row = (\<lambda>j. the (req_pool_idx (qs1 ! j)))"
  have q1': "qs1 ! j = (qs ! j)\<lparr>req_pool_idx := Some (row j)\<rparr>" if "j < length qs" for j
    using q1[OF that] unfolding row_def by auto
  have rowj: "the (req_pool_idx (qs1 ! j)) = row j" for j by (simp add: row_def)
  let ?c1 = "c\<lparr>rc_pool := ?p\<lparr>rp_free_slots := fr\<rparr>\<rparr>"
  note P1 = kv_pool[OF A(1), of "?p\<lparr>rp_free_slots := fr\<rparr>"]
  let ?n = "sum_list (map extend_input_len qs)"
  have n0: "0 \<le> ?n" using len(2) by (intro sum_list_nonneg) auto
  have bud: "kv_budget ?c1 = kv_budget c" by (simp add: kv_budget_def)
  from alloc_token_slots_ok[OF P1(1) n0, of False] fits bud obtain out st c2 where a:
    "alloc_token_slots ?n False ?c1 = Some ((out, st), c2)" "int (length out) = ?n" "distinct out"
    "set out \<inter> (set (own_slots c rs) \<union> (set (staged_own qs) \<union> R)) = {}"
    "kv_inv c2 (lock_nodes rs + (lock_nodes qs + H)) (set (own_slots c rs) \<union> (set (staged_own qs) \<union> R) \<union> set out)" "keeps ?c1 c2"
    "\<forall>h \<in># lock_nodes rs + (lock_nodes qs + H). \<forall>xs. path_of ?c1 h xs \<longrightarrow> path_of c2 h xs" by auto
  have pool2: "rc_pool c2 = ?p\<lparr>rp_free_slots := fr\<rparr>" using a(6) by (simp add: keeps_def)
  let ?es = "row_entries qs1 (rows_of qs1)"
  have ro: "rows_of qs1 = map (the \<circ> req_pool_idx) qs1" by (rule rows_of_map[OF al(3)])
  have es: "?es = map (\<lambda>j. (row j, int (?pl (qs ! j)), int (?fl (qs ! j)), extend_input_len (qs ! j), prefix_indices (qs ! j))) [0..<length qs]"
    by (rule nth_equalityI) (simp_all add: row_entries_def ro lq q1')
  have rowset: "row j \<in> set (rows_of qs1)" if "j < length qs" for j
  proof -
    have "(the \<circ> req_pool_idx) (qs1 ! j) \<in> set (map (the \<circ> req_pool_idx) qs1)" using that lq by simp
    then show ?thesis unfolding ro comp_def rowj .
  qed
  have rin: "row j \<in> {1..rp_size ?p}" if "j < length qs" for j
    using al(2) rowset[OF that] by (auto simp: pool_inv_def)
  have rlt: "row j < length (req_to_token ?p)" if "j < length qs" for j using rin[OF that] A(6) by simp
  have fe: "map fst ?es = rows_of qs1" unfolding es unfolding ro by (rule nth_equalityI) (simp_all add: lq rowj)
  have d: "distinct (map fst ?es)" unfolding fe using al(2) by (simp add: pool_inv_def)
  have eok: "\<forall>e \<in> set ?es. entry_ok (rc_pool c2) e"
  proof
    fix e assume "e \<in> set ?es"
    then obtain j where j: "j < length qs" "e = (row j, int (?pl (qs ! j)), int (?fl (qs ! j)), extend_input_len (qs ! j), prefix_indices (qs ! j))"
      unfolding es by auto
    have qj: "qs ! j \<in> set qs" using j(1) by simp
    have "?fl (qs ! j) \<le> length (req_to_token ?p ! row j)" using wide qj rlt[OF j(1)] by simp
    then show "entry_ok (rc_pool c2) e" using rlt[OF j(1)] len[OF qj] by (simp add: entry_ok_def j(2) pool2)
  qed
  let ?ns = "map (\<lambda>q. nat (extend_input_len q)) qs"
  have el: "map entry_len ?es = ?ns" unfolding es by (rule nth_equalityI) (simp_all add: entry_len_def)
  have sn: "sum_list ?ns = length out"
  proof -
    have "int (sum_list (map (\<lambda>q. nat (extend_input_len q)) xs)) = sum_list (map extend_input_len xs)"
      if "set xs \<subseteq> set qs" for xs using that len(2) by (induction xs) auto
    then have "int (sum_list ?ns) = ?n" by simp
    then show ?thesis using a(2) by simp
  qed
  from write_rows_ok[OF d eok, of 0 out] el sn obtain T where T:
    "write_rows 0 out ?es (rc_pool c2) = Some ((rc_pool c2)\<lparr>req_to_token := T\<rparr>)" "length T = length (req_to_token ?p)"
    "\<forall>j < length ?es. T ! fst (?es ! j) = snd (snd (snd (snd (?es ! j)))) @ pieces ?ns out ! j @
       drop (nat (fst (snd (snd (?es ! j))))) (req_to_token ?p ! fst (?es ! j))"
    "\<forall>k. k \<notin> fst ` set ?es \<longrightarrow> T ! k = req_to_token ?p ! k" "map length T = map length (req_to_token ?p)"
    by (auto simp: pool2)
  note wid = same_widths[OF T(5) A(8)]
  let ?p3 = "(rc_pool c2)\<lparr>req_to_token := T\<rparr>"
  let ?c3 = "c2\<lparr>rc_pool := ?p3\<rparr>" and ?rs1 = "map prefilled qs1"
  note P3 = kv_pool[OF a(5), of ?p3]
  have cfg: "same_config c ?c3" using a(6) by (simp add: keeps_def same_config_def)
  have path: "path_of ?c3 h ys" if "h \<in># lock_nodes rs + (lock_nodes qs + H)" "path_of c h ys" for h ys
    using a(7) that P1(3) P3(3) by simp
  have Trow: "T ! row j = prefix_indices (qs ! j) @ pieces ?ns out ! j @ drop (?fl (qs ! j)) (req_to_token ?p ! row j)" if "j < length qs" for j
    using T(3) that by (simp add: es)
  have pl: "int (length (pieces ?ns out ! j)) = extend_input_len (qs ! j)" if "j < length qs" for j
    using pieces_length[of ?ns out j] sn that len(2)[of "qs ! j"] by simp
  have ok: "running_ok ?c3 (?rs1 ! j)" "held ?c3 (?rs1 ! j) = prefix_indices (qs ! j) @ pieces ?ns out ! j"
    "req_own (?rs1 ! j) (held ?c3 (?rs1 ! j)) = req_own (qs ! j) (prefix_indices (qs ! j)) @ pieces ?ns out ! j"
    "the (last_node (?rs1 ! j)) = the (last_node (qs ! j))" if j: "j < length qs" for j
  proof -
    have qj: "qs ! j \<in> set qs" using j by simp
    have e: "?rs1 ! j = prefilled ((qs ! j)\<lparr>req_pool_idx := Some (row j)\<rparr>)" using j lq q1' by simp
    have "the (last_node (qs ! j)) \<in># lock_nodes rs + (lock_nodes qs + H)" using lock_nodes_mem[OF qj] by simp
    from running_prefilled[OF s(4-6)[OF qj] e cfg path[OF this] _ _ pl[OF j]]
    show "running_ok ?c3 (?rs1 ! j)" "held ?c3 (?rs1 ! j) = prefix_indices (qs ! j) @ pieces ?ns out ! j"
      "req_own (?rs1 ! j) (held ?c3 (?rs1 ! j)) = req_own (qs ! j) (prefix_indices (qs ! j)) @ pieces ?ns out ! j"
      "the (last_node (?rs1 ! j)) = the (last_node (qs ! j))"
      using rlt[OF j] T(2) Trow[OF j] by simp_all
  qed
  have old: "running_ok ?c3 r" "held ?c3 r = held c r" if r: "r \<in> set rs" for r
  proof -
    have "req_pool_idx r \<noteq> None" using A(7)[OF r] by (simp add: running_ok_def)
    then have "the (req_pool_idx r) \<in> set (rows_of rs)" using r by (induction rs) auto
    then have "the (req_pool_idx r) \<notin> set (rows_of qs1)" using al(2) by (auto simp: pool_inv_def)
    then have "T ! the (req_pool_idx r) = req_to_token ?p ! the (req_pool_idx r)"
      using T(4) fe by (metis list.set_map)
    then have "req_row ?c3 r = req_row c r" by (simp add: req_row_def)
    then have "take (committed r) (req_row ?c3 r) = held c r" "length (req_row ?c3 r) = length (req_row c r)"
      by (simp_all add: held_def)
    moreover have "the (last_node r) \<in># lock_nodes rs + (lock_nodes qs + H)" using lock_nodes_mem[OF r] by simp
    ultimately show "running_ok ?c3 r" "held ?c3 r = held c r"
      using running_frame[OF A(7)[OF r] cfg _ _ _ path] T(2) by simp_all
  qed
  have oo: "own_slots ?c3 rs = own_slots c rs" by (rule own_slots_cong) (rule old(2))
  have mo: "mset (own_slots ?c3 ?rs1) = mset (staged_own qs) + mset out"
    using mset_concat_append[of ?rs1 qs "pieces ?ns out" "\<lambda>r. req_own r (held ?c3 r)" "\<lambda>q. req_own q (prefix_indices q)"]
      ok(3) lq by (simp add: own_slots_def staged_own_def concat_pieces sn)
  then have mo': "mset (own_slots ?c3 ?rs1) = mset (staged_own qs @ out)" by simp
  have dd: "distinct (own_slots ?c3 ?rs1)" "set (own_slots ?c3 ?rs1) = set (staged_own qs) \<union> set out"
    using mset_eq_imp_distinct_iff[OF mo'] mset_eq_setD[OF mo'] s(2) a(3,4) by auto
  have ln: "lock_nodes ?rs1 = lock_nodes qs"
    unfolding lock_nodes_def by (rule arg_cong[of _ _ mset], rule nth_equalityI) (use ok(4) lq in simp_all)
  have rr: "rows_of ?rs1 = rows_of qs1" by (induction qs1) (simp_all add: prefilled_def)
  have run1: "running_ok ?c3 r" if "r \<in> set ?rs1" for r
    using that ok(1) lq by (auto simp: in_set_conv_nth)
  have kv3: "kv_inv ?c3 (lock_nodes (?rs1 @ rs) + H) (set (own_slots ?c3 (?rs1 @ rs)) \<union> R)"
    using P3(1) by (simp add: ln oo dd(2) Un_ac union_ac)
  have "serve_inv ?c3 (?rs1 @ rs) os H R"
    unfolding serve_inv_def using kv3 dd oo A(2,3,6) s(3) a(4) al(2) T(2) run1 old(1) wid
    by (auto simp: rr pool2 pool_inv_def Un_ac)
  moreover have "prepare_for_extend torch_empty qs c = Some (\<lparr>bt_reqs = ?rs1, bt_seq_lens = map (int \<circ> length \<circ> fill_ids) qs1,
       bt_out_cache_loc = out, bt_pool_indices = rows_of qs1\<rparr>, ?c3)"
  proof -
    have "int (length (slice_from (fill_ids q) (int (?pl q)))) = extend_input_len q" if "q \<in> set qs" for q
      using len[OF that] by (simp add: slice_from_nonneg of_nat_diff)
    then have n: "sum_list (map (int \<circ> length) (map (\<lambda>q. slice_from (fill_ids q) (int (?pl q))) qs)) = ?n"
      by (intro arg_cong[of _ _ sum_list]) simp
    have as: "list_all (\<lambda>r. int (?fl r) - int (?pl r) = extend_input_len r) qs1"
      unfolding list_all_length using q1' len(1) lq by simp
    have w: "write_cache_indices out ?es (rc_pool c2) = Some ?p3" using T(1) by (simp add: write_cache_indices_def)
    have "alloc_for_extend torch_empty qs ?n c = Some (out, rows_of qs1, qs1, ?c3)"
      unfolding alloc_for_extend_def alloc_req_slots_def by (simp add: al(1) kv_invD(3)[OF A(1)] a(1) w)
    then show ?thesis unfolding prepare_for_extend_def Let_def n
      by (simp add: as prefilled_def[abs_def] comp_def)
  qed
  moreover have "list_all2 (\<lambda>q r. \<exists>j piece. r = prefilled (q\<lparr>req_pool_idx := Some j\<rparr>) \<and>
      held ?c3 r = prefix_indices q @ piece \<and> length piece = nat (extend_input_len q)) qs ?rs1"
    unfolding list_all2_conv_all_nth
  proof (intro conjI allI impI)
    fix j assume j: "j < length qs"
    show "\<exists>k piece. ?rs1 ! j = prefilled ((qs ! j)\<lparr>req_pool_idx := Some k\<rparr>) \<and>
      held ?c3 (?rs1 ! j) = prefix_indices (qs ! j) @ piece \<and> length piece = nat (extend_input_len (qs ! j))"
      by (rule exI[of _ "row j"], rule exI[of _ "pieces ?ns out ! j"]) (use j lq q1' ok(2)[OF j] pl[OF j] in simp)
  qed (simp add: lq)
  moreover have "map (int \<circ> length \<circ> fill_ids) qs1 = map kv_committed_len ?rs1" by (simp add: prefilled_def)
  moreover have "rows_of qs1 = map (the \<circ> req_pool_idx) ?rs1" by (simp add: ro prefilled_def comp_def)
  ultimately show ?thesis using old(2) cfg
    by (intro exI[of _ "\<lparr>bt_reqs = ?rs1, bt_seq_lens = map (int \<circ> length \<circ> fill_ids) qs1,
       bt_out_cache_loc = out, bt_pool_indices = rows_of qs1\<rparr>"] exI[of _ ?c3]) (simp only: schedule_batch.select_convs, blast)
qed

end
