(* ===== verification/PyText.thy ===== *)
theory PyText
  imports Sgl_Prelude "HOL-Library.Sublist" "HOL-Library.Char_ord"
begin

text \<open>
  Python strings as lists of code points, with the operations the text parsers use: search for a
  substring (\<open>find\<close>, \<open>in\<close>), a single \<open>split\<close> or \<open>replace\<close>, \<open>strip\<close>, \<open>lower\<close>, \<open>endswith\<close>.  The case
  functions and the white space are those of ASCII text.
\<close>

type_synonym pystr = "nat list"

definition ascii :: "string \<Rightarrow> pystr" where
  "ascii s = map of_char s"

section \<open>Search\<close>

fun find_sub :: "'a list \<Rightarrow> 'a list \<Rightarrow> nat option" where
  "find_sub t [] = (if t = [] then Some 0 else None)"
| "find_sub t (x # xs) = (if prefix t (x # xs) then Some 0 else map_option Suc (find_sub t xs))"

definition contains :: "'a list \<Rightarrow> 'a list \<Rightarrow> bool" where
  "contains t s \<longleftrightarrow> find_sub t s \<noteq> None"

text \<open>\<open>s.split(t, maxsplit=1)\<close> where \<open>t\<close> occurs, and \<open>s.replace(t, new, 1)\<close>.\<close>

definition split_once :: "'a list \<Rightarrow> 'a list \<Rightarrow> ('a list \<times> 'a list) option" where
  "split_once t s = map_option (\<lambda>i. (take i s, drop (i + length t) s)) (find_sub t s)"

definition replace_once :: "'a list \<Rightarrow> 'a list \<Rightarrow> 'a list \<Rightarrow> 'a list" where
  "replace_once t new s = (case split_once t s of None \<Rightarrow> s | Some (a, b) \<Rightarrow> a @ new @ b)"

lemma find_sub_None: "find_sub t s = None \<longleftrightarrow> (\<forall>a b. s \<noteq> a @ t @ b)"
proof (induction s)
  case (Cons x xs)
  have "(\<exists>a b. x # xs = a @ t @ b) \<longleftrightarrow> prefix t (x # xs) \<or> (\<exists>a b. xs = a @ t @ b)"
    by (metis append_Cons append_eq_Cons_conv append_Nil prefixI prefixE)
  then show ?case using Cons by auto
qed auto

lemma contains_iff: "contains t s \<longleftrightarrow> (\<exists>a b. s = a @ t @ b)"
  by (simp add: contains_def find_sub_None del: not_None_eq)

lemma find_sub_Some: "find_sub t s = Some i \<Longrightarrow> i + length t \<le> length s \<and> s = take i s @ t @ drop (i + length t) s"
proof (induction s arbitrary: i)
  case (Cons x xs)
  show ?case
  proof (cases "prefix t (x # xs)")
    case True
    then have "i = 0" using Cons.prems by simp
    then show ?thesis using prefix_length_le[OF True] True by (auto simp: prefix_def)
  next
    case False
    then obtain j where j: "find_sub t xs = Some j" "i = Suc j" using Cons.prems by auto
    from Cons.IH[OF j(1)] j(2) show ?thesis by simp
  qed
qed (auto split: if_splits)

lemma find_sub_least: "find_sub t s = Some i \<Longrightarrow> s = a @ t @ b \<Longrightarrow> i \<le> length a"
proof (induction s arbitrary: i a)
  case (Cons x xs)
  show ?case
  proof (cases "prefix t (x # xs)")
    case True
    then show ?thesis using Cons.prems(1) by simp
  next
    case False
    then obtain j where j: "find_sub t xs = Some j" "i = Suc j" using Cons.prems(1) by auto
    obtain a' where "a = x # a'" using False Cons.prems(2) by (cases a) (auto simp: prefix_def)
    then show ?thesis using Cons.IH[OF j(1), of a'] Cons.prems(2) j(2) by simp
  qed
qed (auto split: if_splits)

lemma split_once_Some: "split_once t s = Some (a, b) \<Longrightarrow> s = a @ t @ b"
  unfolding split_once_def using find_sub_Some by fastforce

lemma split_once_None: "split_once t s = None \<longleftrightarrow> \<not> contains t s"
  by (simp add: split_once_def contains_def)

text \<open>The split is at the first occurrence, which is the one written out when nothing before it overlaps.\<close>

lemma find_sub_first:
  assumes "\<And>u v. a @ butlast t \<noteq> u @ t @ v" and "t \<noteq> []"
  shows "find_sub t (a @ t @ b) = Some (length a)"
proof -
  have "find_sub t (a @ t @ b) \<noteq> None" unfolding find_sub_None by blast
  then obtain i where i: "find_sub t (a @ t @ b) = Some i" by blast
  note S = find_sub_Some[OF i] and L = find_sub_least[OF i refl]
  have "i = length a"
  proof (rule ccontr)
    assume "i \<noteq> length a"
    with L have lt: "i < length a" by simp
    let ?s = "a @ t @ b"
    have "take (i + length t) ?s = take i ?s @ t" using S by (metis append_assoc append_eq_conv_conj length_append length_take min.absorb2 add_leD1)
    moreover have "i + length t \<le> length (a @ butlast t)" using lt assms(2) by (cases t) auto
    then have "take (i + length t) ?s = take (i + length t) (a @ butlast t)"
    proof -
      assume le: "i + length t \<le> length (a @ butlast t)"
      have "?s = (a @ butlast t) @ List.last t # b" using assms(2) by simp
      then show ?thesis using le by (simp only: take_append) simp
    qed
    ultimately have "a @ butlast t = take i ?s @ t @ drop (i + length t) (a @ butlast t)"
      by (metis append_assoc append_take_drop_id)
    then show False using assms(1) by blast
  qed
  then show ?thesis using i by simp
qed

lemma split_once_first:
  assumes "\<not> contains t (a @ butlast t)" and "t \<noteq> []"
  shows "split_once t (a @ t @ b) = Some (a, b)"
proof -
  have "\<And>u v. a @ butlast t \<noteq> u @ t @ v" using assms(1) unfolding contains_iff by blast
  from find_sub_first[OF this assms(2), of b] show ?thesis by (simp add: split_once_def)
qed

lemma contains_append_left: "contains t s \<Longrightarrow> contains t (s @ b)"
  unfolding contains_iff by (metis append_assoc)

lemma contains_append_right: "contains t s \<Longrightarrow> contains t (a @ s)"
  unfolding contains_iff by (metis append_assoc)

lemma contains_butlast: "\<not> contains t (a @ butlast t) \<Longrightarrow> \<not> contains t a"
  using contains_append_left by blast

lemma split_once_simps [simp]: "contains t s \<Longrightarrow> split_once t s \<noteq> None"
  by (simp add: split_once_None)

section \<open>White space and case\<close>

definition py_space :: "nat \<Rightarrow> bool" where
  "py_space c \<longleftrightarrow> 9 \<le> c \<and> c \<le> 13 \<or> 28 \<le> c \<and> c \<le> 32"

definition lstrip :: "pystr \<Rightarrow> pystr" where
  "lstrip s = dropWhile py_space s"

definition rstrip :: "pystr \<Rightarrow> pystr" where
  "rstrip s = rev (dropWhile py_space (rev s))"

definition strip :: "pystr \<Rightarrow> pystr" where
  "strip s = rstrip (lstrip s)"

definition lower :: "pystr \<Rightarrow> pystr" where
  "lower s = map (\<lambda>c. if 65 \<le> c \<and> c \<le> 90 then c + 32 else c) s"

definition ends_with :: "'a list \<Rightarrow> 'a list \<Rightarrow> bool" where
  "ends_with t s \<longleftrightarrow> suffix t s"

end
