(* ===== verification/HarmonyParser.thy ===== *)
theory HarmonyParser
  imports PyText
begin

text \<open>
  The Harmony format (\<open>srt/parser/harmony_parser.py\<close>): the tokenizer \<open>iter_tokens\<close>, the parser of the
  canonical format with channel markers, the fallback for plain text, and the facade that chooses
  between them while chunks arrive.  The regular expressions of the fallback are written out as the
  deterministic matches they denote.  A token of \<open>text\<close> is a type with a start and an end.
\<close>

section \<open>Holding back an unfinished token\<close>

datatype event_type = Reasoning | Normal | Tool_call

record event =
  event_type :: event_type
  content :: pystr
  raw_text :: "pystr option"

definition Event :: "event_type \<Rightarrow> pystr \<Rightarrow> event" where
  "Event t s = \<lparr>event_type = t, content = s, raw_text = None\<rparr>"

text \<open>The inner loop: the longest suffix of at most \<open>k\<close> characters that starts the token.\<close>

fun hold_from :: "pystr \<Rightarrow> pystr \<Rightarrow> nat \<Rightarrow> nat" where
  "hold_from s tok 0 = 0"
| "hold_from s tok (Suc k) = (if prefix (drop (length s - Suc k) s) tok then Suc k else hold_from s tok k)"

definition max_hold :: "pystr \<Rightarrow> pystr list \<Rightarrow> nat" where
  "max_hold s toks = foldl (\<lambda>m tok. if tok = [] then m else max m (hold_from s tok (min (length tok - 1) (length s)))) 0 toks"

definition prefix_hold :: "pystr \<Rightarrow> pystr list \<Rightarrow> pystr \<times> pystr" where
  "prefix_hold s toks =
     (if s = [] then ([], [])
      else let m = max_hold s toks
           in if m = 0 then (s, []) else (take (length s - m) s, drop (length s - m) s))"

section \<open>Tokens\<close>

datatype token_type = T_START | T_CHANNEL | T_MESSAGE | T_CONSTRAIN | T_END | T_CALL | T_RETURN | T_TEXT

record token =
  tk_type :: token_type
  tk_start :: nat
  tk_end :: nat

definition Token :: "token_type \<Rightarrow> nat \<Rightarrow> nat \<Rightarrow> token" where
  "Token t a b = \<lparr>tk_type = t, tk_start = a, tk_end = b\<rparr>"

definition TOKENS :: "(pystr \<times> token_type) list" where
  "TOKENS = [(ascii ''<|start|>'', T_START), (ascii ''<|channel|>'', T_CHANNEL), (ascii ''<|message|>'', T_MESSAGE),
     (ascii ''<|constrain|>'', T_CONSTRAIN), (ascii ''<|end|>'', T_END), (ascii ''<|call|>'', T_CALL), (ascii ''<|return|>'', T_RETURN)]"

definition guard_tokens :: "pystr list" where
  "guard_tokens = map fst TOKENS"

definition find_from :: "'a list \<Rightarrow> 'a list \<Rightarrow> nat \<Rightarrow> nat option" where
  "find_from t s pos = map_option ((+) pos) (find_sub t (drop pos s))"

lemma find_from_ge: "find_from t s pos = Some m \<Longrightarrow> pos \<le> m"
  by (auto simp: find_from_def)

lemma find_from_Some: "find_from t s pos = Some m \<Longrightarrow> prefix t (drop m s)"
  unfolding find_from_def
proof -
  assume "map_option ((+) pos) (find_sub t (drop pos s)) = Some m"
  then obtain j where j: "find_sub t (drop pos s) = Some j" "m = pos + j" by auto
  from find_sub_Some[OF j(1)] have "drop pos s = take j (drop pos s) @ t @ drop (j + length t) (drop pos s)"
    and "j + length t \<le> length (drop pos s)" by blast+
  then have "drop j (drop pos s) = t @ drop (j + length t) (drop pos s)"
    by (metis append_eq_conv_conj append_take_drop_id length_take min.absorb2 add_leD1)
  then have "drop m s = t @ drop (j + length t) (drop pos s)" using j(2) by (simp add: add.commute)
  then show ?thesis unfolding prefix_def by blast
qed

lemma literal_length: "List.find P TOKENS = Some (lit, ty) \<Longrightarrow> 0 < length lit"
proof -
  assume "List.find P TOKENS = Some (lit, ty)"
  then have "(lit, ty) \<in> set TOKENS" by (auto simp: find_Some_iff in_set_conv_nth)
  then show ?thesis by (auto simp: TOKENS_def ascii_def)
qed

text \<open>The loop returns the tokens, the position where it stopped and whether it saw an unknown token.\<close>

function iter_loop :: "pystr \<Rightarrow> nat \<Rightarrow> bool \<Rightarrow> token list \<times> nat \<times> bool" where
  "iter_loop s pos unknown =
     (if pos < length s then
        (case find_from (ascii ''<|'') s pos of
          None \<Rightarrow> ([], pos, unknown)
        | Some marker \<Rightarrow>
            let before = (if pos < marker then [Token T_TEXT pos marker] else []) in
            (case List.find (\<lambda>(lit, _). prefix lit (drop marker s)) TOKENS of
              Some (lit, ty) \<Rightarrow>
                let (toks, r) = iter_loop s (marker + length lit) unknown
                in (before @ Token ty marker (marker + length lit) # toks, r)
            | None \<Rightarrow>
                if list_ex (\<lambda>(lit, _). prefix (drop marker s) lit) TOKENS
                then (before @ [Token T_TEXT marker (length s)], length s, unknown)
                else
                  let opening = before @ [Token T_TEXT marker (marker + 2)] in
                  (case find_from (ascii ''|>'') s (marker + 2) of
                    None \<Rightarrow> let (toks, r) = iter_loop s (marker + 2) True in (opening @ toks, r)
                  | Some close \<Rightarrow>
                      (case find_from (ascii ''<|'') s (close + 2) of
                         None \<Rightarrow> (opening @ [Token T_TEXT (marker + 2) (length s)], length s, True)
                       | Some next_marker \<Rightarrow>
                           let (toks, r) = iter_loop s next_marker True
                           in (opening @ Token T_TEXT (marker + 2) next_marker # toks, r)))))
      else ([], pos, unknown))"
  by pat_completeness auto
termination
proof (relation "measure (\<lambda>(s, pos, _). length s - pos)", goal_cases)
  case (2 s pos unknown m)
  then show ?case using find_from_ge[OF 2(2)] by auto
next
  case (3 s pos unknown m x xa m' m2)
  then show ?case using find_from_ge[OF 3(2)] find_from_ge[OF 3(7)] find_from_ge[OF 3(8)] by simp
next
  case (4 s pos unknown m x found lit ty)
  then have "0 < length lit" using literal_length by blast
  then show ?case using 4(1) find_from_ge[OF 4(2)] by (cases lit) auto
qed simp

declare iter_loop.simps [simp del]

definition iter_tokens :: "pystr \<Rightarrow> token list" where
  "iter_tokens s =
     (let (toks, pos, unknown) = iter_loop s 0 False
      in toks @ (if pos < length s then [Token T_TEXT pos (length s)]
                 else if pos = length s \<and> unknown \<and> list_ex (\<lambda>(lit, _). ends_with lit s) TOKENS
                 then [Token T_TEXT pos pos] else []))"

definition token_text :: "pystr \<Rightarrow> token \<Rightarrow> pystr" where
  "token_text s t = drop (tk_start t) (take (tk_end t) s)"

section \<open>The canonical format\<close>

definition extract_channel_type :: "pystr \<Rightarrow> pystr option" where
  "extract_channel_type header =
     (let h = lower (strip header)
      in if prefix (ascii ''analysis'') h then Some (ascii ''analysis'')
         else if prefix (ascii ''commentary'') h then Some (ascii ''commentary'')
         else if prefix (ascii ''final'') h then Some (ascii ''final'') else None)"

text \<open>The scan for the channel and the message token of a block.\<close>

fun find_header :: "token list \<Rightarrow> nat \<Rightarrow> nat option \<Rightarrow> nat option \<times> nat option" where
  "find_header [] i ch = (ch, None)"
| "find_header (t # ts) i ch =
     (if tk_type t = T_CHANNEL \<and> ch = None then find_header ts (i + 1) (Some i)
      else if tk_type t = T_MESSAGE then (ch, Some i) else find_header ts (i + 1) ch)"

definition block_header :: "token list \<Rightarrow> nat \<Rightarrow> nat option \<times> nat option" where
  "block_header toks start_pos =
     (let pos = (if start_pos < length toks \<and> tk_type (toks ! start_pos) = T_START then start_pos + 1 else start_pos)
      in find_header (drop pos toks) pos None)"

definition channel_header :: "pystr \<Rightarrow> token list \<Rightarrow> nat \<Rightarrow> nat \<Rightarrow> pystr" where
  "channel_header s toks channel_pos message_pos =
     (let channel_start = (if channel_pos + 1 < length toks then tk_start (toks ! (channel_pos + 1)) else tk_end (toks ! channel_pos))
      in drop channel_start (take (tk_start (toks ! message_pos)) s))"

text \<open>The first position from \<open>i\<close> on whose token has one of the types, or the number of tokens.\<close>

definition skip_until :: "token_type list \<Rightarrow> token list \<Rightarrow> nat \<Rightarrow> nat" where
  "skip_until tys toks i = i + length (takeWhile (\<lambda>t. tk_type t \<notin> set tys) (drop i toks))"

definition parse_partial_analysis :: "pystr \<Rightarrow> token list \<Rightarrow> nat \<Rightarrow> (event \<times> pystr) option" where
  "parse_partial_analysis s toks start_pos =
     (case block_header toks start_pos of
        (Some channel_pos, Some message_pos) \<Rightarrow>
          if extract_channel_type (channel_header s toks channel_pos message_pos) \<noteq> Some (ascii ''analysis'') then None
          else let content_start = tk_end (toks ! message_pos)
               in Some (Event Reasoning (drop content_start s), drop (tk_start (toks ! start_pos)) (take content_start s))
      | _ \<Rightarrow> None)"

definition parse_block :: "pystr \<Rightarrow> token list \<Rightarrow> nat \<Rightarrow> (event \<times> nat) option" where
  "parse_block s toks start_pos =
     (case block_header toks start_pos of
        (_, None) \<Rightarrow> None
      | (None, Some message_pos) \<Rightarrow>
          (let content_start = tk_end (toks ! message_pos);
               end_token_pos = skip_until [T_END, T_CALL, T_RETURN] toks (message_pos + 1)
           in if end_token_pos \<ge> length toks then None
              else Some (Event Normal (drop content_start (take (tk_start (toks ! end_token_pos)) s)), end_token_pos + 1))
      | (Some channel_pos, Some message_pos) \<Rightarrow>
          (case extract_channel_type (channel_header s toks channel_pos message_pos) of
             None \<Rightarrow> None
           | Some channel_type \<Rightarrow>
               (let content_start = tk_end (toks ! message_pos);
                    end_pos = skip_until (if channel_type = ascii ''final'' then [T_RETURN] else [T_END, T_CALL]) toks (message_pos + 1)
                in if end_pos \<ge> length toks
                   then (if channel_type = ascii ''final'' then Some (Event Normal (drop content_start s), end_pos) else None)
                   else
                     (let end_token = toks ! end_pos;
                          text = drop content_start (take (tk_start end_token) s);
                          raw = drop (tk_start (toks ! start_pos)) (take (tk_end end_token) s);
                          tool_call = \<lparr>event_type = Tool_call, content = strip text, raw_text = Some raw\<rparr>
                      in if channel_type = ascii ''analysis''
                         then Some (if tk_type end_token = T_CALL then tool_call else Event Reasoning text, end_pos + 1)
                         else if channel_type = ascii ''commentary''
                         then Some (if tk_type end_token = T_CALL then tool_call else Event Normal text, end_pos + 1)
                         else if tk_type end_token = T_RETURN \<and> end_pos + 1 < length toks \<and> tk_type (toks ! (end_pos + 1)) = T_TEXT
                         then Some (Event Normal (text @ token_text s (toks ! (end_pos + 1))), end_pos + 2)
                         else Some (Event Normal text, end_pos + 1)))))"

definition is_commentary_filler :: "pystr \<Rightarrow> token list \<Rightarrow> nat \<Rightarrow> bool" where
  "is_commentary_filler s toks pos =
     (let t = toks ! pos; current_text = lower (strip (token_text s t))
      in pos > 0 \<and> tk_type (toks ! (pos - 1)) = T_CALL \<and>
         (pos + 1 < length toks \<and> tk_type (toks ! (pos + 1)) = T_CHANNEL \<and> current_text = ascii ''commentary'' \<or>
          tk_type t = T_MESSAGE \<or> tk_type t = T_TEXT \<and> current_text = ascii ''commentary''))"

definition is_standalone_structural_token :: "pystr \<Rightarrow> bool" where
  "is_standalone_structural_token s \<longleftrightarrow> strip s \<in> set guard_tokens"

lemma find_header_ge: "find_header ts i ch = (c, Some p) \<Longrightarrow> i \<le> p"
  by (induction ts i ch rule: find_header.induct) (auto split: if_splits)

lemma skip_until_ge: "i \<le> skip_until tys toks i"
  by (simp add: skip_until_def)

lemma block_header_ge: "block_header toks p = (c, Some q) \<Longrightarrow> p \<le> q"
  by (auto simp: block_header_def Let_def split: if_splits dest!: find_header_ge)

lemma parse_block_advances: "parse_block s toks pos = Some (e, pos') \<Longrightarrow> pos < pos'"
proof -
  assume a: "parse_block s toks pos = Some (e, pos')"
  then obtain c q where h: "block_header toks pos = (c, Some q)"
    by (cases "block_header toks pos") (auto simp: parse_block_def split: option.splits)
  have "q + 1 \<le> pos'"
    using a h skip_until_ge[of "q + 1" "[T_RETURN]" toks] skip_until_ge[of "q + 1" "[T_END, T_CALL]" toks]
      skip_until_ge[of "q + 1" "[T_END, T_CALL, T_RETURN]" toks]
    by (auto simp: parse_block_def Let_def split: option.splits if_splits)
  then show ?thesis using block_header_ge[OF h] by simp
qed

text \<open>Returns the events and the text to keep for the next chunk.\<close>

function canonical_loop :: "pystr \<Rightarrow> token list \<Rightarrow> nat \<Rightarrow> event list \<times> pystr" where
  "canonical_loop s toks pos =
     (if pos \<ge> length toks then ([], [])
      else
        (let t = toks ! pos; text = token_text s t;
             skip = (if is_commentary_filler s toks pos \<or> is_standalone_structural_token text then [] else [Event Normal text])
         in if tk_type t = T_TEXT \<and> pos = length toks - 1
            then let (emit, hold) = prefix_hold text guard_tokens in (if emit \<noteq> [] then [Event Normal emit] else [], hold)
            else if tk_type t = T_START \<or> tk_type t = T_CHANNEL
            then (case parse_block s toks pos of
                    None \<Rightarrow>
                      (case parse_partial_analysis s toks pos of
                         Some (event, remaining) \<Rightarrow> ([event], remaining)
                       | None \<Rightarrow> ([], drop (tk_start t) s))
                  | Some (event, new_pos) \<Rightarrow>
                      (let (events, remaining) = canonical_loop s toks new_pos in (event # events, remaining)))
            else (let (events, remaining) = canonical_loop s toks (pos + 1) in (skip @ events, remaining))))"
  by pat_completeness auto
termination
  by (relation "measure (\<lambda>(s, toks, pos). length toks - pos)") (auto dest: parse_block_advances)

declare canonical_loop.simps [simp del]

definition canonical_parse :: "pystr \<Rightarrow> event list \<times> pystr" where
  "canonical_parse s = canonical_loop s (iter_tokens s) 0"

section \<open>The text fallback\<close>

definition ci_prefix :: "string \<Rightarrow> pystr \<Rightarrow> bool" where
  "ci_prefix w s \<longleftrightarrow> prefix (ascii w) (lower s)"

text \<open>\<open>^\s*(?:assistant)?\s*(analysis|commentary)\<close>: the channel and the text behind it.\<close>

definition match_head :: "pystr \<Rightarrow> (pystr \<times> pystr) option" where
  "match_head s =
     (let s = lstrip s; s = (if ci_prefix ''assistant'' s then lstrip (drop 9 s) else s)
      in if ci_prefix ''analysis'' s then Some (take 8 s, drop 8 s)
         else if ci_prefix ''commentary'' s then Some (take 10 s, drop 10 s) else None)"

text \<open>\<open>analysis_then_final\<close>, \<open>final_only\<close> and \<open>analysis_only\<close> of \<open>patterns\<close>.\<close>

definition analysis_then_final :: "pystr \<Rightarrow> (pystr \<times> pystr \<times> pystr) option" where
  "analysis_then_final s = do {
     (channel, rest) \<leftarrow> match_head s;
     j \<leftarrow> find_sub (ascii ''assistantfinal'') (lower rest);
     Some (channel, rstrip (take j rest), lstrip (drop (j + 14) rest))
   }"

definition final_only :: "pystr \<Rightarrow> pystr option" where
  "final_only s = (let s = lstrip s in if ci_prefix ''assistantfinal'' s then Some (lstrip (drop 14 s)) else None)"

text \<open>\<open>(?:^|\s)(?:assistant)?\s*(w1|w2|\<dots>)\<close>, searched anywhere.\<close>

definition keyword_at :: "string list \<Rightarrow> pystr \<Rightarrow> bool" where
  "keyword_at ws s \<longleftrightarrow>
     list_ex (\<lambda>w. ci_prefix w (lstrip s)) ws \<or>
     ci_prefix ''assistant'' s \<and> list_ex (\<lambda>w. ci_prefix w (lstrip (drop 9 s))) ws"

fun keyword_later :: "string list \<Rightarrow> pystr \<Rightarrow> bool" where
  "keyword_later ws [] = False"
| "keyword_later ws (c # s) \<longleftrightarrow> py_space c \<and> keyword_at ws s \<or> keyword_later ws s"

definition search_keyword :: "string list \<Rightarrow> pystr \<Rightarrow> bool" where
  "search_keyword ws s \<longleftrightarrow> keyword_at ws s \<or> keyword_later ws s"

definition text_events :: "event_type \<Rightarrow> pystr \<Rightarrow> event list" where
  "text_events t s = (if strip s \<noteq> [] then [Event t (strip s)] else [])"

definition text_parse :: "pystr \<Rightarrow> event list \<times> pystr" where
  "text_parse s =
     (case analysis_then_final s of
        Some (channel, reasoning, final) \<Rightarrow>
          ((if lower channel = ascii ''analysis'' then text_events Reasoning reasoning else text_events Normal reasoning) @
             text_events Normal final, [])
      | None \<Rightarrow>
          if search_keyword [''analysis'', ''commentary''] s \<and> contains (ascii ''assistantfin'') (lower s) \<and>
             \<not> contains (ascii ''assistantfinal'') (lower s)
          then ([], s)
          else
            (case final_only s of
               Some final \<Rightarrow> (text_events Normal final, [])
             | None \<Rightarrow>
                 (case match_head s of
                    Some (channel, rest) \<Rightarrow>
                      (let (emit, hold) = prefix_hold rest [ascii ''assistantfinal''];
                           head = take (length s - length rest) s
                       in if lower channel = ascii ''analysis'' \<and> emit \<noteq> []
                          then ([Event Reasoning emit], if hold \<noteq> [] then head @ hold else channel)
                          else if lower channel = ascii ''commentary'' \<and> emit \<noteq> []
                          then ([Event Normal (if hold \<noteq> [] then emit else strip emit)], if hold \<noteq> [] then head @ hold else [])
                          else ([], head @ hold))
                  | None \<Rightarrow>
                      (let (emit, hold) = prefix_hold s [ascii ''analysis'', ascii ''commentary'', ascii ''assistantfinal'']
                       in (if emit \<noteq> [] then [Event Normal emit] else [], hold)))))"

section \<open>The facade\<close>

datatype strategy = CanonicalStrategy | TextStrategy

record harmony_parser =
  hp_strategy :: "strategy option"
  hp_buffer :: pystr
  should_filter_commentary :: bool
  partial_commentary :: pystr

definition harmony_init :: harmony_parser where
  "harmony_init = \<lparr>hp_strategy = None, hp_buffer = [], should_filter_commentary = False, partial_commentary = []\<rparr>"

text \<open>The loop that filters commentary; \<open>call_token\<close> is \<open>buffer_has_call_token\<close>.\<close>

fun filter_events :: "bool \<Rightarrow> event list \<Rightarrow> harmony_parser \<Rightarrow> event list \<times> harmony_parser" where
  "filter_events call_token [] p = ([], p)"
| "filter_events call_token (e # es) p =
     (let filtering = should_filter_commentary p \<or> partial_commentary p \<noteq> [];
          potential = partial_commentary p @ lower (strip (content e));
          (should_filter, p) =
            (if event_type e = Normal then
               if filtering then
                 if potential = ascii ''commentary'' then (True, p\<lparr>partial_commentary := [], should_filter_commentary := False\<rparr>)
                 else if prefix potential (ascii ''commentary'') then (True, p\<lparr>partial_commentary := potential\<rparr>)
                 else (False, p\<lparr>partial_commentary := [], should_filter_commentary := False\<rparr>)
               else (False, p\<lparr>partial_commentary := []\<rparr>)
             else (False, p))
      in if should_filter then filter_events call_token es p
         else
           let p = (if event_type e = Tool_call then p\<lparr>should_filter_commentary := True, partial_commentary := []\<rparr>
                    else if call_token then p\<lparr>should_filter_commentary := True\<rparr> else p);
               (out, p) = filter_events call_token es p
           in (e # out, p))"

definition choose_strategy :: "pystr \<Rightarrow> strategy option" where
  "choose_strategy buffer =
     (if contains (ascii ''<|channel|>'') buffer \<or> contains (ascii ''<|start|>'') buffer then Some CanonicalStrategy
      else if search_keyword [''analysis'', ''commentary'', ''assistantfinal''] buffer then Some TextStrategy else None)"

definition harmony_parse :: "pystr \<Rightarrow> harmony_parser \<Rightarrow> event list \<times> harmony_parser" where
  "harmony_parse chunk p =
     (let p = p\<lparr>hp_buffer := hp_buffer p @ chunk\<rparr>;
          p = (if hp_strategy p = None then p\<lparr>hp_strategy := choose_strategy (hp_buffer p)\<rparr> else p)
      in case hp_strategy p of
           None \<Rightarrow> ([], p)
         | Some st \<Rightarrow>
             (let (events, remaining) = (case st of CanonicalStrategy \<Rightarrow> canonical_parse (hp_buffer p) | TextStrategy \<Rightarrow> text_parse (hp_buffer p));
                  call_token = ends_with (ascii ''<|call|>'') (rstrip (hp_buffer p))
              in filter_events call_token events (p\<lparr>hp_buffer := remaining\<rparr>)))"

end
