(* ===== verification/HarmonyProps.thy ===== *)
theory HarmonyProps
  imports HarmonyParser
begin

text \<open>
  What the Harmony parser guarantees: the tokenizer tiles the text, an unfinished token is held back and
  nothing else, and a rendered sequence of messages parses back into its events.
\<close>

section \<open>Holding back\<close>

lemma hold_from_le: "hold_from s tok k \<le> k"
  by (induction k) auto

lemma hold_from_prefix: "hold_from s tok k = Suc j \<Longrightarrow> prefix (drop (length s - Suc j) s) tok"
  by (induction k) (auto split: if_splits)

lemma hold_from_max: "j \<le> k \<Longrightarrow> prefix (drop (length s - j) s) tok \<Longrightarrow> j \<le> hold_from s tok k"
proof (induction k)
  case (Suc k)
  then show ?case by (cases "j = Suc k") (auto intro: le_SucI)
qed simp

lemma max_hold_fold:
  "max_hold s toks = Max (insert 0 ((\<lambda>tok. hold_from s tok (min (length tok - 1) (length s))) ` {tok \<in> set toks. tok \<noteq> []}))"
proof -
  let ?h = "\<lambda>tok. hold_from s tok (min (length tok - 1) (length s))"
  have "foldl (\<lambda>m tok. if tok = [] then m else max m (?h tok)) m toks = Max (insert m (?h ` {tok \<in> set toks. tok \<noteq> []}))" for m
  proof (induction toks arbitrary: m)
    case (Cons t ts)
    have e: "{tok \<in> set (t # ts). tok \<noteq> []} = (if t = [] then {} else {t}) \<union> {tok \<in> set ts. tok \<noteq> []}" by auto
    have f: "finite (?h ` {tok \<in> set ts. tok \<noteq> []})" by simp
    have "Max (insert (max m x) B) = Max (insert m (insert x B))" if "finite B" for x :: nat and B
      using that by (cases "B = {}") (simp_all add: max.assoc)
    from this[OF f] show ?case unfolding e by (simp add: Cons.IH)
  qed simp
  then show ?thesis by (simp add: max_hold_def)
qed

lemma prefix_hold_ok:
  assumes "prefix_hold s toks = (emit, hold)"
  shows "emit @ hold = s" and "hold = [] \<or> (\<exists>tok \<in> set toks. strict_prefix hold tok)"
    and "\<And>u v tok. s = u @ v \<Longrightarrow> tok \<in> set toks \<Longrightarrow> strict_prefix v tok \<Longrightarrow> length v \<le> length hold"
proof -
  let ?m = "max_hold s toks" and ?T = "{tok \<in> set toks. tok \<noteq> []}"
  let ?h = "\<lambda>tok. hold_from s tok (min (length tok - 1) (length s))"
  have fin: "finite (insert 0 (?h ` ?T))" by simp
  have le: "?h tok \<le> ?m" if "tok \<in> ?T" for tok
    unfolding max_hold_fold using that by (intro Max_ge[OF fin]) auto
  have inm: "?m = 0 \<or> (\<exists>tok \<in> ?T. ?m = ?h tok)"
    using Max_in[OF fin] unfolding max_hold_fold by auto
  have ml: "?m \<le> length s"
    using inm hold_from_le by (metis le_zero_eq min.boundedE nat_le_linear)
  have h: "emit = take (length s - ?m) s" "hold = drop (length s - ?m) s"
    using assms by (auto simp: prefix_hold_def Let_def split: if_splits)
  show "emit @ hold = s" by (simp add: h)
  have lh: "length hold = ?m" using ml by (simp add: h)
  show "hold = [] \<or> (\<exists>tok \<in> set toks. strict_prefix hold tok)"
  proof (cases "?m")
    case (Suc j)
    then obtain tok where t: "tok \<in> ?T" "?m = ?h tok" using inm by auto
    then have "prefix hold tok" using hold_from_prefix[of s tok _ j] Suc unfolding h by simp
    moreover have "length hold \<le> length tok - 1" unfolding lh t(2) using hold_from_le le_trans min.cobounded1 by blast
    ultimately have "strict_prefix hold tok" using t(1) by (auto simp: strict_prefix_def prefix_order.less_le) (metis One_nat_def Suc_pred length_greater_0_conv not_less_eq_eq order_refl)
    then show ?thesis using t(1) by blast
  qed (use lh in simp)
  fix u v tok
  assume s: "s = u @ v" and tok: "tok \<in> set toks" "strict_prefix v tok"
  then have "length v < length tok" by (simp add: prefix_length_less)
  moreover have "prefix (drop (length s - length v) s) tok" using s tok(2) by (simp add: strict_prefix_def)
  ultimately have "length v \<le> ?h tok" using s by (intro hold_from_max) auto
  moreover have "tok \<in> ?T" using tok by auto
  ultimately show "length v \<le> length hold" unfolding lh using le le_trans by blast
qed

section \<open>The tokenizer tiles the text\<close>

fun tiles :: "nat \<Rightarrow> token list \<Rightarrow> nat \<Rightarrow> bool" where
  "tiles a [] b \<longleftrightarrow> a = b"
| "tiles a (t # ts) b \<longleftrightarrow> tk_start t = a \<and> a \<le> tk_end t \<and> tiles (tk_end t) ts b"

lemma tiles_append [simp]: "tiles a (xs @ ys) b \<longleftrightarrow> (\<exists>m. tiles a xs m \<and> tiles m ys b)"
  by (induction xs arbitrary: a) auto

lemma tiles_le: "tiles a ts b \<Longrightarrow> a \<le> b"
  by (induction ts arbitrary: a) (auto intro: le_trans)

lemma Token_simps [simp]: "tk_type (Token t a b) = t" "tk_start (Token t a b) = a" "tk_end (Token t a b) = b"
  by (simp_all add: Token_def)

definition reads :: "pystr \<Rightarrow> token \<Rightarrow> bool" where
  "reads s t \<longleftrightarrow> tk_type t = T_TEXT \<or> (token_text s t, tk_type t) \<in> set TOKENS"

lemma find_token:
  assumes "List.find (\<lambda>(lit, _). prefix lit (drop m s)) TOKENS = Some (lit, ty)"
  shows "(lit, ty) \<in> set TOKENS" and "prefix lit (drop m s)"
  using assms by (auto simp: find_Some_iff in_set_conv_nth)

lemma find_from_le: "find_from t s pos = Some m \<Longrightarrow> m + length t \<le> max pos (length s)"
  by (auto simp: find_from_def dest!: find_sub_Some)

lemma iter_loop_ok:
  "iter_loop s pos unknown = (toks, p, u) \<Longrightarrow> pos \<le> length s \<Longrightarrow>
     tiles pos toks p \<and> p \<le> length s \<and> (\<forall>t \<in> set toks. reads s t)"
proof (induction s pos unknown arbitrary: toks p u rule: iter_loop.induct)
  case (1 s pos unknown)
  show ?case
  proof (cases "pos < length s")
    case False
    then show ?thesis using "1.prems" by (simp add: iter_loop.simps)
  next
    case True
    note pl = True
    show ?thesis
    proof (cases "find_from (ascii ''<|'') s pos")
      case None
      then show ?thesis using "1.prems" True by (simp add: iter_loop.simps)
    next
      case (Some m)
      let ?b = "if pos < m then [Token T_TEXT pos m] else []"
      have pm: "pos \<le> m" "m + 2 \<le> length s" using find_from_ge[OF Some] find_from_le[OF Some] pl
        by (simp_all add: ascii_def max_def split: if_splits)
      have b: "tiles pos ?b m" "\<forall>t \<in> set ?b. reads s t" using pm by (auto simp: reads_def)
      show ?thesis
      proof (cases "List.find (\<lambda>(lit, _). prefix lit (drop m s)) TOKENS")
        case (Some lt)
        obtain lit ty where lt: "lt = (lit, ty)" by (cases lt)
        note F = find_token[OF Some[unfolded lt]]
        obtain toks1 r where r: "iter_loop s (m + length lit) unknown = (toks1, r)" by (cases "iter_loop s (m + length lit) unknown")
        obtain p1 u1 where r1: "r = (p1, u1)" by (cases r)
        have le: "m + length lit \<le> length s" using prefix_length_le[OF F(2)] pm by simp
        have "token_text s (Token ty m (m + length lit)) = lit"
          using F(2) by (auto simp: token_text_def prefix_def drop_take)
        then have "reads s (Token ty m (m + length lit))" using F(1) by (simp add: reads_def)
        moreover have "toks = ?b @ Token ty m (m + length lit) # toks1" "p = p1"
          using "1.prems" pl r r1 Some lt \<open>find_from (ascii ''<|'') s pos = Some m\<close> by (simp_all add: iter_loop.simps[of s pos])
        moreover have "tiles (m + length lit) toks1 p1 \<and> p1 \<le> length s \<and> (\<forall>t \<in> set toks1. reads s t)"
          using "1.IH"(3)[OF pl \<open>find_from (ascii ''<|'') s pos = Some m\<close> refl Some lt[symmetric]] r r1 le by simp
        ultimately show ?thesis using b by auto
      next
        case None
        note nolit = None
        show ?thesis
        proof (cases "list_ex (\<lambda>(lit, _). prefix (drop m s) lit) TOKENS")
          case True
          then have "toks = ?b @ [Token T_TEXT m (length s)]" "p = length s"
            using "1.prems" pl nolit Some by (auto simp: iter_loop.simps[of s pos])
          then show ?thesis using b pm by (auto simp: reads_def)
        next
          case False
          note nopart = False
          show ?thesis
          proof (cases "find_from (ascii ''|>'') s (m + 2)")
            case None
            obtain toks1 p1 u1 where r: "iter_loop s (m + 2) True = (toks1, p1, u1)" by (cases "iter_loop s (m + 2) True") auto
            have "toks = (?b @ [Token T_TEXT m (m + 2)]) @ toks1" "p = p1"
              using "1.prems" pl nolit Some nopart None r by (simp_all add: iter_loop.simps[of s pos])
            moreover have "tiles (m + 2) toks1 p1 \<and> p1 \<le> length s \<and> (\<forall>t \<in> set toks1. reads s t)"
              using "1.IH"(1)[OF pl Some refl nolit nopart refl None] r pm by simp
            ultimately show ?thesis using b by (auto simp: reads_def)
          next
            case (Some close)
            note fm = \<open>find_from (ascii ''<|'') s pos = Some m\<close>
            show ?thesis
            proof (cases "find_from (ascii ''<|'') s (close + 2)")
              case None
              then have "toks = ?b @ [Token T_TEXT m (m + 2), Token T_TEXT (m + 2) (length s)]" "p = length s"
                using "1.prems" pl nolit Some nopart fm by (auto simp: iter_loop.simps[of s pos])
              then show ?thesis using b pm by (auto simp: reads_def)
            next
              case (Some nm)
              note fc = \<open>find_from (ascii ''|>'') s (m + 2) = Some close\<close>
              have nm: "m + 2 \<le> nm" "nm \<le> length s"
                using find_from_ge[OF fc] find_from_le[OF fc] find_from_ge[OF Some] find_from_le[OF Some] pm
                by (auto simp: ascii_def max_def split: if_splits)
              obtain toks1 p1 u1 where r: "iter_loop s nm True = (toks1, p1, u1)" by (cases "iter_loop s nm True") auto
              have "toks = (?b @ [Token T_TEXT m (m + 2)]) @ Token T_TEXT (m + 2) nm # toks1" "p = p1"
                using "1.prems" pl nolit Some nopart fc fm r by (simp_all add: iter_loop.simps[of s pos])
              moreover have "tiles nm toks1 p1 \<and> p1 \<le> length s \<and> (\<forall>t \<in> set toks1. reads s t)"
                using "1.IH"(2)[OF pl fm refl nolit nopart refl fc Some] r nm by simp
              ultimately show ?thesis using b nm by (auto simp: reads_def)
            qed
          qed
        qed
      qed
    qed
  qed
qed

lemma tiles_concat: "tiles a ts b \<Longrightarrow> b \<le> length s \<Longrightarrow> concat (map (token_text s) ts) = drop a (take b s)"
proof (induction ts arbitrary: a)
  case (Cons t ts)
  have le: "tk_end t \<le> b" using Cons.prems(1) tiles_le by auto
  have "drop a (take b s) = drop a (take (tk_end t) (take b s)) @ drop (tk_end t) (take b s)"
    using Cons.prems(1) le by (metis append_take_drop_id drop_append diff_is_0_eq' drop_0 length_take min.absorb2 tiles.simps(2) Cons.prems(2))
  then show ?case using Cons le by (simp add: token_text_def min_def)
qed simp

text \<open>C31: The tokenizer of the Harmony format loses no character: for every text its tokens lie end to end from
  the first character to the last, their texts concatenate to the text, and a token that is not plain
  text covers exactly the literal of its type.\<close>

theorem iter_tokens_tile:
  "tiles 0 (iter_tokens s) (length s) \<and> concat (map (token_text s) (iter_tokens s)) = s \<and>
   list_all (\<lambda>t. tk_type t = T_TEXT \<or> (token_text s t, tk_type t) \<in> set TOKENS) (iter_tokens s)"
proof -
  obtain toks p u where r: "iter_loop s 0 False = (toks, p, u)" by (cases "iter_loop s 0 False") auto
  from iter_loop_ok[OF r] have ok: "tiles 0 toks p" "p \<le> length s" "\<forall>t \<in> set toks. reads s t" by auto
  have t: "tiles 0 (iter_tokens s) (length s)" using ok(1,2) by (auto simp: iter_tokens_def r)
  moreover have "concat (map (token_text s) (iter_tokens s)) = s" using tiles_concat[OF t] by simp
  moreover have "\<forall>t \<in> set (iter_tokens s). reads s t" using ok(3) by (auto simp: iter_tokens_def r reads_def)
  ultimately show ?thesis by (simp add: list_all_iff reads_def)
qed

section \<open>Texts given as pieces\<close>

text \<open>Literals and stretches of plain text, no two of the latter in a row.\<close>

type_synonym piece = "pystr \<times> token_type"

fun wf_pieces :: "piece list \<Rightarrow> bool" where
  "wf_pieces [] = True"
| "wf_pieces ((p, ty) # ps) \<longleftrightarrow> wf_pieces ps \<and>
     (if ty = T_TEXT then p \<noteq> [] \<and> \<not> contains (ascii ''<|'') p \<and> (ps = [] \<or> snd (hd ps) \<noteq> T_TEXT) else (p, ty) \<in> set TOKENS)"

fun toks_of :: "nat \<Rightarrow> piece list \<Rightarrow> token list" where
  "toks_of a [] = []"
| "toks_of a ((p, ty) # ps) = Token ty a (a + length p) # toks_of (a + length p) ps"

abbreviation flat :: "piece list \<Rightarrow> pystr" where
  "flat ps \<equiv> concat (map fst ps)"

lemma toks_of_append [simp]: "toks_of a (ps @ qs) = toks_of a ps @ toks_of (a + length (flat ps)) qs"
  by (induction ps arbitrary: a) (auto simp: add.assoc)

lemma length_toks_of [simp]: "length (toks_of a ps) = length ps"
  by (induction ps arbitrary: a) auto

lemma types_toks_of: "map tk_type (toks_of a ps) = map snd ps"
  by (induction ps arbitrary: a) auto

lemma nth_toks_of:
  "j < length ps \<Longrightarrow> toks_of a ps ! j = Token (snd (ps ! j)) (a + length (flat (take j ps))) (a + length (flat (take (Suc j) ps)))"
proof (induction ps arbitrary: a j)
  case (Cons p ps)
  then show ?case by (cases p; cases j) (simp_all add: add.assoc)
qed simp

lemma slice_of_pieces:
  assumes "i \<le> j"
  shows "drop (length (flat (take i ps))) (take (length (flat (take j ps))) (flat ps)) = flat (drop i (take j ps))"
proof -
  have "flat ps = flat (take j ps) @ flat (drop j ps)" by (metis append_take_drop_id concat_append map_append)
  then have "take (length (flat (take j ps))) (flat ps) = flat (take j ps)" by simp
  moreover have "flat (take j ps) = flat (take i ps) @ flat (drop i (take j ps))"
    using assms by (metis append_take_drop_id concat_append map_append min.absorb1 take_take)
  ultimately show ?thesis by simp
qed

lemma marker_ascii: "ascii ''<|'' = [60, 124]"
  by (simp add: ascii_def)

lemma TOKENS_codes: "TOKENS = [([60, 124, 115, 116, 97, 114, 116, 124, 62], T_START), ([60, 124, 99, 104, 97, 110, 110, 101, 108, 124, 62], T_CHANNEL), ([60, 124, 109, 101, 115, 115, 97, 103, 101, 124, 62], T_MESSAGE), ([60, 124, 99, 111, 110, 115, 116, 114, 97, 105, 110, 124, 62], T_CONSTRAIN), ([60, 124, 101, 110, 100, 124, 62], T_END), ([60, 124, 99, 97, 108, 108, 124, 62], T_CALL), ([60, 124, 114, 101, 116, 117, 114, 110, 124, 62], T_RETURN)]"
  by (simp add: TOKENS_def ascii_def)

lemma literal_found:
  assumes "(lit, ty) \<in> set TOKENS"
  shows "List.find (\<lambda>(l, _). prefix l (lit @ rest)) TOKENS = Some (lit, ty)" and "ty \<noteq> T_TEXT"
    and "\<exists>l. lit = ascii ''<|'' @ l"
proof -
  from assms have c: "(lit, ty) \<in> set [([60, 124, 115, 116, 97, 114, 116, 124, 62], T_START), ([60, 124, 99, 104, 97, 110, 110, 101, 108, 124, 62], T_CHANNEL), ([60, 124, 109, 101, 115, 115, 97, 103, 101, 124, 62], T_MESSAGE), ([60, 124, 99, 111, 110, 115, 116, 114, 97, 105, 110, 124, 62], T_CONSTRAIN), ([60, 124, 101, 110, 100, 124, 62], T_END), ([60, 124, 99, 97, 108, 108, 124, 62], T_CALL), ([60, 124, 114, 101, 116, 117, 114, 110, 124, 62], T_RETURN)]" unfolding TOKENS_codes .
  show "List.find (\<lambda>(l, _). prefix l (lit @ rest)) TOKENS = Some (lit, ty)"
    using c unfolding TOKENS_codes by (simp only: list.set insert_iff empty_iff simp_thms) (elim disjE; simp)
  show "ty \<noteq> T_TEXT" using c by auto
  show "\<exists>l. lit = ascii ''<|'' @ l" using c unfolding marker_ascii by auto
qed

lemma marker_at:
  assumes "\<not> contains (ascii ''<|'') a"
  shows "find_sub (ascii ''<|'') (a @ ascii ''<|'' @ b) = Some (length a)"
proof (rule find_sub_first)
  show "a @ butlast (ascii ''<|'') \<noteq> u @ ascii ''<|'' @ v" for u v
  proof
    assume e: "a @ butlast (ascii ''<|'') = u @ ascii ''<|'' @ v"
    then have v: "v \<noteq> []" by (auto simp: ascii_def dest!: arg_cong[of _ _ List.last])
    from e have "butlast (a @ butlast (ascii ''<|'')) = butlast (u @ ascii ''<|'' @ v)" by simp
    then have "a = u @ ascii ''<|'' @ butlast v" using v by (simp add: ascii_def butlast_append)
    then show False using assms unfolding contains_iff by blast
  qed
qed (simp add: ascii_def)

lemma iter_literal:
  assumes lit: "(lit, ty) \<in> set TOKENS" and a: "\<not> contains (ascii ''<|'') a" and s: "drop pos s = a @ lit @ rest"
  shows "iter_loop s pos u = (let (toks, r) = iter_loop s (pos + length a + length lit) u
    in ((if a \<noteq> [] then [Token T_TEXT pos (pos + length a)] else []) @ Token ty (pos + length a) (pos + length a + length lit) # toks, r))"
proof -
  obtain l where l: "lit = ascii ''<|'' @ l" using literal_found(3)[OF lit] by blast
  have "find_from (ascii ''<|'') s pos = Some (pos + length a)"
    unfolding find_from_def s l using marker_at[OF a, of "l @ rest"] by simp
  moreover have "drop (pos + length a) s = lit @ rest"
    using arg_cong[OF s, of "drop (length a)"] by (simp add: add.commute)
  moreover have "lit \<noteq> []" using literal_found(3)[OF lit] by (auto simp: ascii_def)
  then have "pos < length s" using s by (metis append_is_Nil_conv drop_all linorder_not_less)
  ultimately show ?thesis using literal_found(1)[OF lit, of rest]
    by (simp add: iter_loop.simps[of s pos] split: prod.split)
qed

lemma iter_pieces:
  "wf_pieces ps \<Longrightarrow> drop pos s = flat ps \<Longrightarrow> pos \<le> length s \<Longrightarrow> iter_loop s pos False = (toks, p, u) \<Longrightarrow>
   toks @ (if p < length s then [Token T_TEXT p (length s)] else []) = toks_of pos ps \<and> \<not> u"
proof (induction "length ps" arbitrary: ps pos toks p u rule: less_induct)
  case less
  show ?case
  proof (cases ps)
    case Nil
    then have "pos = length s" using less.prems(2,3) by simp
    then show ?thesis using less.prems(4) Nil by (simp add: iter_loop.simps)
  next
    case (Cons x qs)
    obtain t ty where x: "x = (t, ty)" by (cases x)
    have sl: "length s = pos + length (flat ps)" using less.prems(2,3) by (metis length_drop le_add_diff_inverse)
    show ?thesis
    proof (cases "ty = T_TEXT")
      case False
      then have lit: "(t, ty) \<in> set TOKENS" using less.prems(1) Cons x by simp
      have nc: "\<not> contains (ascii ''<|'') []" by (simp add: contains_def ascii_def)
      obtain toks1 p1 u1 where r: "iter_loop s (pos + length t) False = (toks1, p1, u1)" by (cases "iter_loop s (pos + length t) False") auto
      have "drop pos s = [] @ t @ flat qs" using less.prems(2) Cons x by simp
      from iter_literal[OF lit nc this] less.prems(4) have e: "toks = Token ty pos (pos + length t) # toks1" "p = p1" "u = u1"
        by (simp_all add: r)
      have "drop (pos + length t) s = flat qs" using arg_cong[OF less.prems(2), of "drop (length t)"] Cons x
        by (simp add: add.commute)
      from less.hyps[OF _ _ this _ r] show ?thesis using less.prems(1) Cons x e sl by (simp split: if_splits)
    next
      case True
      then have t: "t \<noteq> []" "\<not> contains (ascii ''<|'') t" "qs = [] \<or> snd (hd qs) \<noteq> T_TEXT" using less.prems(1) Cons x by simp_all
      show ?thesis
      proof (cases qs)
        case Nil
        have "find_from (ascii ''<|'') s pos = None" using less.prems(2) Cons x Nil t(2) by (simp add: find_from_def contains_def)
        then show ?thesis using less.prems(4) Cons x Nil True sl t(1) by (simp add: iter_loop.simps[of s pos] split: if_splits)
      next
        case (Cons y rs)
        obtain lit ty' where y: "y = (lit, ty')" by (cases y)
        have lit: "(lit, ty') \<in> set TOKENS" using less.prems(1) \<open>ps = x # qs\<close> Cons x y t(3) by simp
        obtain toks1 p1 u1 where r: "iter_loop s (pos + length t + length lit) False = (toks1, p1, u1)"
          by (cases "iter_loop s (pos + length t + length lit) False") auto
        have s: "drop pos s = t @ lit @ flat rs" using less.prems(2) \<open>ps = x # qs\<close> Cons x y by simp
        from iter_literal[OF lit t(2) s] less.prems(4) t(1) have e: "toks = Token T_TEXT pos (pos + length t) #
          Token ty' (pos + length t) (pos + length t + length lit) # toks1" "p = p1" "u = u1" by (simp_all add: r)
        have "drop (pos + length t + length lit) s = flat rs" using arg_cong[OF s, of "drop (length t + length lit)"]
          by (simp add: add.commute add.left_commute)
        from less.hyps[OF _ _ this _ r] show ?thesis using less.prems(1) \<open>ps = x # qs\<close> Cons x y e sl True by (simp split: if_splits)
      qed
    qed
  qed
qed

lemma tokens_of_pieces:
  assumes "wf_pieces ps"
  shows "iter_tokens (flat ps) = toks_of 0 ps"
proof -
  obtain toks p u where r: "iter_loop (flat ps) 0 False = (toks, p, u)" by (cases "iter_loop (flat ps) 0 False") auto
  from iter_pieces[OF assms _ _ r] show ?thesis by (simp add: iter_tokens_def r split: if_splits)
qed

section \<open>Messages print and parse\<close>

text \<open>A message of each kind and its pieces.\<close>

datatype message = Analysis pystr | Commentary pystr | Tool pystr | Final pystr

fun message_kind :: "message \<Rightarrow> pystr" where
  "message_kind (Analysis m) = ascii ''analysis''"
| "message_kind (Commentary m) = ascii ''commentary''"
| "message_kind (Tool m) = ascii ''commentary''"
| "message_kind (Final m) = ascii ''final''"

fun message_body :: "message \<Rightarrow> pystr" where
  "message_body (Analysis m) = m" | "message_body (Commentary m) = m" | "message_body (Tool m) = m" | "message_body (Final m) = m"

fun message_end :: "message \<Rightarrow> piece" where
  "message_end (Analysis m) = (ascii ''<|end|>'', T_END)"
| "message_end (Commentary m) = (ascii ''<|end|>'', T_END)"
| "message_end (Tool m) = (ascii ''<|call|>'', T_CALL)"
| "message_end (Final m) = (ascii ''<|return|>'', T_RETURN)"

definition message_pieces :: "message \<Rightarrow> piece list" where
  "message_pieces m = [(ascii ''<|start|>'', T_START), (ascii ''assistant'', T_TEXT), (ascii ''<|channel|>'', T_CHANNEL),
     (message_kind m, T_TEXT), (ascii ''<|message|>'', T_MESSAGE)] @
     (if message_body m = [] then [] else [(message_body m, T_TEXT)]) @ [message_end m]"

definition render :: "message list \<Rightarrow> pystr" where
  "render ms = flat (concat (map message_pieces ms))"

fun message_event :: "message \<Rightarrow> event" where
  "message_event (Analysis m) = Event Reasoning m"
| "message_event (Commentary m) = Event Normal m"
| "message_event (Tool m) = \<lparr>event_type = Tool_call, content = strip m, raw_text = Some (flat (message_pieces (Tool m)))\<rparr>"
| "message_event (Final m) = Event Normal m"

lemma message_wf: "\<not> contains (ascii ''<|'') (message_body m) \<Longrightarrow> wf_pieces ps \<Longrightarrow> wf_pieces (message_pieces m @ ps)"
  by (cases m) (auto simp: message_pieces_def TOKENS_codes ascii_def contains_def)

lemma render_wf: "\<forall>m \<in> set ms. \<not> contains (ascii ''<|'') (message_body m) \<Longrightarrow> wf_pieces (concat (map message_pieces ms))"
  by (induction ms) (simp_all add: message_wf)

lemma kind_type: "extract_channel_type (message_kind m) = Some (message_kind m)"
  by (cases m) (simp_all add: extract_channel_type_def strip_def lstrip_def rstrip_def lower_def ascii_def py_space_def)

lemma kinds_differ: "ascii ''commentary'' \<noteq> ascii ''analysis''" "ascii ''final'' \<noteq> ascii ''analysis''" "ascii ''final'' \<noteq> ascii ''commentary''"
  by (simp_all add: ascii_def)

lemma between:
  assumes "s = flat ps" and "toks = toks_of 0 ps" and "i < j" and "j < length ps"
  shows "drop (tk_end (toks ! i)) (take (tk_start (toks ! j)) s) = flat (take (j - Suc i) (drop (Suc i) ps))"
    and "drop (tk_start (toks ! i)) (take (tk_end (toks ! j)) s) = flat (take (Suc j - i) (drop i ps))"
proof -
  have "Suc i \<le> j" "i \<le> Suc j" using assms(3) by auto
  from slice_of_pieces[OF this(1), of ps] slice_of_pieces[OF this(2), of ps]
  show "drop (tk_end (toks ! i)) (take (tk_start (toks ! j)) s) = flat (take (j - Suc i) (drop (Suc i) ps))"
    "drop (tk_start (toks ! i)) (take (tk_end (toks ! j)) s) = flat (take (Suc j - i) (drop i ps))"
    using assms by (simp_all add: nth_toks_of drop_take)
qed

lemma parse_message:
  assumes s: "s = flat ps" and ps: "ps = pre @ message_pieces m @ post" and post: "post = [] \<or> snd (hd post) \<noteq> T_TEXT"
  shows "parse_block s (toks_of 0 ps) (length pre) = Some (message_event m, length pre + length (message_pieces m))"
proof -
  let ?T = "toks_of 0 ps" and ?p = "length pre" and ?q = "message_pieces m"
  let ?n = "length ?q"
  define b :: nat where "b = (if message_body m = [] then 0 else 1)"
  have n: "?n = 6 + b" by (simp add: message_pieces_def b_def)
  have ty: "tk_type (?T ! j) = snd (ps ! j)" if "j < length ps" for j using that by (simp add: nth_toks_of)
  have lp: "length ps = ?p + ?n + length post" by (simp add: ps)
  have at: "ps ! (?p + k) = ?q ! k" if "k < ?n" for k using that by (simp add: ps nth_append)
  have tk: "tk_type (?T ! (?p + k)) = snd (?q ! k)" if "k < ?n" for k using ty at that lp by simp
  define X where "X = toks_of (length (flat pre)) (?q @ post)"
  have T: "?T = toks_of 0 pre @ X" by (simp add: ps X_def)
  have X: "X = toks_of (length (flat pre)) (message_pieces m) @ toks_of (length (flat pre) + length (flat ?q)) post"
    by (simp add: X_def)
  obtain t0 t1 t2 t3 t4 tb te rest where tX: "X = t0 # t1 # t2 # t3 # t4 # tb @ te # rest" "map tk_type [t0, t1, t2, t3, t4] =
     [T_START, T_TEXT, T_CHANNEL, T_TEXT, T_MESSAGE]" "map tk_type tb = replicate b T_TEXT" "tk_type te = snd (message_end m)"
  proof -
    have "map tk_type X = [T_START, T_TEXT, T_CHANNEL, T_TEXT, T_MESSAGE] @ replicate b T_TEXT @ snd (message_end m) # map snd post"
      by (simp add: X_def types_toks_of message_pieces_def b_def)
    then obtain tb te rest t0 t1 t2 t3 t4 where "X = [t0, t1, t2, t3, t4] @ tb @ te # rest" "map tk_type [t0, t1, t2, t3, t4] =
      [T_START, T_TEXT, T_CHANNEL, T_TEXT, T_MESSAGE]" "map tk_type tb = replicate b T_TEXT" "tk_type te = snd (message_end m)"
      unfolding map_eq_append_conv map_eq_Cons_conv by (auto simp: append_eq_map_conv Cons_eq_map_conv)
    then show ?thesis using that by simp
  qed
  have h: "block_header ?T ?p = (Some (?p + 2), Some (?p + 4))"
  proof -
    have d: "drop (?p + k) ?T = drop k X" for k by (simp add: T)
    have "?T ! ?p = t0" using d[of 0] tX(1) by (metis T nth_append_length tX(1) length_toks_of)
    moreover have "drop (?p + 1) ?T = t1 # t2 # t3 # t4 # tb @ te # rest" unfolding d tX(1) by simp
    ultimately show ?thesis using tX(2) lp n by (simp add: block_header_def)
  qed
  have chan: "channel_header s ?T (?p + 2) (?p + 4) = message_kind m"
  proof -
    have l: "?p + 2 + 1 < length ?T" using lp n by simp
    have "tk_start (?T ! (?p + 2 + 1)) = tk_end (?T ! (?p + 2))" using l by (simp add: nth_toks_of)
    moreover have "flat (take 1 (drop (Suc (Suc (Suc ?p))) ps)) = message_kind m" by (simp add: ps message_pieces_def)
    ultimately show ?thesis using between(1)[OF s refl, of "?p + 2" "?p + 4"] lp n l
      by (simp add: channel_header_def Let_def)
  qed
  have su: "skip_until tys ?T (?p + 5) = ?p + 5 + b" if "T_TEXT \<notin> set tys" "snd (message_end m) \<in> set tys" for tys
  proof -
    have "drop (?p + 5) ?T = tb @ te # rest" by (simp add: T tX(1))
    moreover have "length tb = b" using arg_cong[OF tX(3), of length] by (simp only: length_map length_replicate)
    moreover have "\<forall>t \<in> set tb. tk_type t = T_TEXT" using arg_cong[OF tX(3), of set] by auto
    ultimately show ?thesis using that tX(4) unfolding skip_until_def by (simp add: takeWhile_append2)
  qed
  have body: "drop (tk_end (?T ! (?p + 4))) (take (tk_start (?T ! (?p + 5 + b))) s) = message_body m"
    using between(1)[OF s refl, of "?p + 4" "?p + 5 + b"] lp n by (simp add: ps message_pieces_def b_def)
  have raw: "drop (tk_start (?T ! ?p)) (take (tk_end (?T ! (?p + 5 + b))) s) = flat ?q"
    using between(2)[OF s refl, of ?p "?p + 5 + b"] lp n by (simp add: ps)
  have et: "tk_type (?T ! (?p + 5 + b)) = snd (message_end m)" using tk[of "5 + b"] n
    by (simp add: message_pieces_def nth_append add.assoc b_def)
  have nt: "\<not> (?p + 6 + b < length ps \<and> tk_type (?T ! (?p + 6 + b)) = T_TEXT)"
  proof
    assume a: "?p + 6 + b < length ps \<and> tk_type (?T ! (?p + 6 + b)) = T_TEXT"
    then have "post \<noteq> []" "ps ! (?p + 6 + b) = hd post" using lp n by (auto simp: ps nth_append hd_conv_nth)
    then show False using a post ty by auto
  qed
  show ?thesis
    using h chan kind_type[of m] body raw et nt lp n kinds_differ su[of "[T_RETURN]"] su[of "[T_END, T_CALL]"]
    by (cases m) (auto simp: parse_block_def Let_def eval_nat_numeral)
qed

lemma canonical_messages:
  assumes "s = flat ps" and "ps = pre @ concat (map message_pieces ms)"
  shows "canonical_loop s (toks_of 0 ps) (length pre) = (map message_event ms, [])"
  using assms
proof (induction ms arbitrary: pre)
  case (Cons m ms)
  let ?post = "concat (map message_pieces ms)"
  have post: "?post = [] \<or> snd (hd ?post) \<noteq> T_TEXT" by (cases ms) (simp_all add: message_pieces_def)
  have ps: "ps = pre @ message_pieces m @ ?post" using Cons.prems(2) by simp
  note P = parse_message[OF Cons.prems(1) ps post]
  have l: "length pre < length ps" by (simp add: ps message_pieces_def)
  have st: "tk_type (toks_of 0 ps ! length pre) = T_START" by (simp add: nth_toks_of l) (simp add: ps nth_append message_pieces_def)
  have "ps = (pre @ message_pieces m) @ concat (map message_pieces ms)" using ps by simp
  from Cons.IH[OF Cons.prems(1) this] P l st show ?case
    by (subst canonical_loop.simps) (simp add: Let_def)
qed (simp add: canonical_loop.simps)

text \<open>C30: Messages survive the Harmony format: printing any sequence of analysis, commentary, tool-call and final
  messages, whose texts have no token opener in them, and parsing the result gives back exactly one
  event for each message, of its kind and with its text, with nothing left over.\<close>

theorem harmony_roundtrip:
  assumes "\<forall>m \<in> set ms. \<not> contains (ascii ''<|'') (message_body m)"
  shows "canonical_parse (render ms) = (map message_event ms, [])"
  unfolding canonical_parse_def render_def tokens_of_pieces[OF render_wf[OF assms]]
  using canonical_messages[of _ "concat (map message_pieces ms)" "[]" ms] by simp

lemma harmony_roundtrip_witness:
  "canonical_parse (render [Analysis (ascii ''a < b''), Tool (ascii '' {} ''), Final (ascii ''yes'')]) =
   (map message_event [Analysis (ascii ''a < b''), Tool (ascii '' {} ''), Final (ascii ''yes'')], [])"
  by (rule harmony_roundtrip) (simp add: contains_def ascii_def)

section \<open>A cut end marker\<close>

definition analysis_header :: pystr where
  "analysis_header = ascii ''<|channel|>analysis<|message|>''"

lemma analysis_header_pieces:
  "analysis_header = flat [(ascii ''<|channel|>'', T_CHANNEL), (ascii ''analysis'', T_TEXT), (ascii ''<|message|>'', T_MESSAGE)]"
  by (simp add: analysis_header_def ascii_def)

lemma cut_marker:
  assumes "2 \<le> k" and "k < 7"
  shows "\<exists>c. take k (ascii ''<|end|>'') = ascii ''<|'' @ c" and "List.find (\<lambda>(l, _). prefix l (take k (ascii ''<|end|>''))) TOKENS = None"
    and "list_ex (\<lambda>(l, _). prefix (take k (ascii ''<|end|>'')) l) TOKENS" and "\<not> contains (ascii ''<|'') (drop k (ascii ''<|end|>''))"
    and "drop k (ascii ''<|end|>'') \<noteq> []" and "length (take k (ascii ''<|end|>'')) = k"
proof -
  have "k = 2 \<or> k = 3 \<or> k = 4 \<or> k = 5 \<or> k = 6" using assms by auto
  then show "\<exists>c. take k (ascii ''<|end|>'') = ascii ''<|'' @ c" "List.find (\<lambda>(l, _). prefix l (take k (ascii ''<|end|>''))) TOKENS = None"
    "list_ex (\<lambda>(l, _). prefix (take k (ascii ''<|end|>'')) l) TOKENS" "\<not> contains (ascii ''<|'') (drop k (ascii ''<|end|>''))"
    "drop k (ascii ''<|end|>'') \<noteq> []" "length (take k (ascii ''<|end|>'')) = k"
    by (elim disjE; simp add: TOKENS_codes ascii_def contains_def)+
qed

lemma tokens_cut:
  assumes r: "\<not> contains (ascii ''<|'') r" "r \<noteq> []" and k: "2 \<le> k" "k < 7"
  shows "iter_tokens (analysis_header @ r @ take k (ascii ''<|end|>'')) =
    [Token T_CHANNEL 0 11, Token T_TEXT 11 19, Token T_MESSAGE 19 30, Token T_TEXT 30 (30 + length r), Token T_TEXT (30 + length r) (30 + length r + k)]"
proof -
  let ?cut = "take k (ascii ''<|end|>'')"
  let ?s = "analysis_header @ r @ ?cut"
  note C = cut_marker[OF k]
  obtain c where c: "?cut = ascii ''<|'' @ c" using C(1) by blast
  have len: "length ?s = 30 + length r + k" using C(6) by (simp add: analysis_header_def ascii_def)
  have nc: "\<not> contains (ascii ''<|'') []" "\<not> contains (ascii ''<|'') (ascii ''analysis'')" by (simp_all add: contains_def ascii_def)
  have l: "(ascii ''<|channel|>'', T_CHANNEL) \<in> set TOKENS" "(ascii ''<|message|>'', T_MESSAGE) \<in> set TOKENS" by (simp_all add: TOKENS_def)
  have d: "drop 0 ?s = [] @ ascii ''<|channel|>'' @ (ascii ''analysis<|message|>'' @ r @ ?cut)"
    "drop 11 ?s = ascii ''analysis'' @ ascii ''<|message|>'' @ (r @ ?cut)" "drop 30 ?s = r @ ?cut"
    by (simp_all add: analysis_header_def ascii_def)
  have f: "find_from (ascii ''<|'') ?s 30 = Some (30 + length r)"
    unfolding find_from_def d(3) unfolding c using marker_at[OF r(1), of c] by simp
  have "length analysis_header = 30" by (simp add: analysis_header_def ascii_def)
  then have d4: "drop (30 + length r) ?s = ?cut" by simp
  have c2: "List.find (\<lambda>(l, _). prefix l (drop (30 + length r) ?s)) TOKENS = None"
    "list_ex (\<lambda>(l, _). prefix (drop (30 + length r) ?s) l) TOKENS" unfolding d4 by (rule C(2), rule C(3))
  have "iter_loop ?s 30 False = ([Token T_TEXT 30 (30 + length r), Token T_TEXT (30 + length r) (length ?s)], length ?s, False)"
    using f c2 r(2) len k by (simp only: iter_loop.simps[of ?s 30]) simp
  moreover have "length (ascii ''<|channel|>'') = 11" "length (ascii ''analysis'') = 8" "length (ascii ''<|message|>'') = 11" by (simp_all add: ascii_def)
  moreover have "ascii ''analysis'' \<noteq> []" by (simp add: ascii_def)
  ultimately have "iter_loop ?s 0 False = ([Token T_CHANNEL 0 11, Token T_TEXT 11 19, Token T_MESSAGE 19 30, Token T_TEXT 30 (30 + length r),
      Token T_TEXT (30 + length r) (length ?s)], length ?s, False)"
    using iter_literal[OF l(1) nc(1) d(1), of False] iter_literal[OF l(2) nc(2) d(2), of False] by simp
  then show ?thesis unfolding iter_tokens_def len by simp
qed

lemma analysis_channel:
  assumes "tk_end (toks ! 0) = 11" and "tk_start (toks ! 1) = 11" and "tk_start (toks ! 2) = 19" and "2 < length toks"
  shows "extract_channel_type (channel_header (analysis_header @ rest) toks 0 2) = Some (ascii ''analysis'')"
proof -
  have "drop 11 (take 19 (analysis_header @ rest)) = message_kind (Analysis [])" by (simp add: analysis_header_def ascii_def)
  moreover have "channel_header (analysis_header @ rest) toks 0 2 = drop 11 (take 19 (analysis_header @ rest))"
    using assms by (simp add: channel_header_def)
  ultimately show ?thesis using kind_type[of "Analysis []"] by simp
qed

lemma open_analysis:
  assumes toks: "iter_tokens (analysis_header @ rest) = Token T_CHANNEL 0 11 # Token T_TEXT 11 19 # Token T_MESSAGE 19 30 # ts"
    and ts: "ts \<noteq> []" "\<forall>t \<in> set ts. tk_type t \<noteq> T_END \<and> tk_type t \<noteq> T_CALL"
  shows "canonical_parse (analysis_header @ rest) = ([Event Reasoning rest], analysis_header)"
proof -
  let ?s = "analysis_header @ rest" and ?T = "Token T_CHANNEL 0 11 # Token T_TEXT 11 19 # Token T_MESSAGE 19 30 # ts"
  have h: "block_header ?T 0 = (Some 0, Some 2)" by (simp add: block_header_def)
  have ch: "extract_channel_type (channel_header ?s ?T 0 2) = Some (ascii ''analysis'')" by (rule analysis_channel) simp_all
  have su: "skip_until [T_END, T_CALL] ?T 3 = length ?T"
    using ts(2) by (simp add: skip_until_def takeWhile_eq_all_conv[THEN iffD2])
  have l: "length analysis_header = 30" by (simp add: analysis_header_def ascii_def)
  have "parse_block ?s ?T 0 = None" using h ch su kinds_differ(2) by (simp add: parse_block_def)
  moreover have "parse_partial_analysis ?s ?T 0 = Some (Event Reasoning rest, analysis_header)"
    using h ch l by (simp add: parse_partial_analysis_def)
  ultimately have "canonical_loop ?s ?T 0 = ([Event Reasoning rest], analysis_header)" by (simp add: canonical_loop.simps[of ?s ?T 0])
  then show ?thesis by (simp add: canonical_parse_def toks)
qed

lemma filter_reasoning: "fst (filter_events b [Event Reasoning s] p) = [Event Reasoning s]"
  "hp_buffer (snd (filter_events b [Event Reasoning s] p)) = hp_buffer p"
  "hp_strategy (snd (filter_events b [Event Reasoning s] p)) = hp_strategy p"
  by (simp_all add: Event_def)

text \<open>C33: An end marker that two chunks share is not seen.  When the first chunk ends inside the \<open>end\<close> marker of an
  analysis message, the cut marker is reported as reasoning, and so is everything of the next chunk,
  the rest of the marker and a complete final message included: no part of the answer arrives as
  normal text.\<close>

theorem cut_end_marker_is_missed:
  assumes r: "\<not> contains (ascii ''<|'') r" "r \<noteq> []" and n: "\<not> contains (ascii ''<|'') n" and k: "2 \<le> k" "k < 7"
  defines "first_chunk \<equiv> harmony_parse (analysis_header @ r @ take k (ascii ''<|end|>'')) harmony_init"
  shows "fst first_chunk = [Event Reasoning (r @ take k (ascii ''<|end|>''))] \<and>
    fst (harmony_parse (drop k (ascii ''<|end|>'') @ render [Final n]) (snd first_chunk)) =
      [Event Reasoning (drop k (ascii ''<|end|>'') @ render [Final n])]"
proof -
  let ?c1 = "analysis_header @ r @ take k (ascii ''<|end|>'')" and ?c2 = "drop k (ascii ''<|end|>'') @ render [Final n]"
  let ?p1 = "harmony_init\<lparr>hp_strategy := Some CanonicalStrategy, hp_buffer := analysis_header\<rparr>"
  have t1: "canonical_parse ?c1 = ([Event Reasoning (r @ take k (ascii ''<|end|>''))], analysis_header)"
    using tokens_cut[OF r k] by (rule open_analysis) auto
  have cs: "choose_strategy (analysis_header @ x) = Some CanonicalStrategy" for x
    by (simp add: choose_strategy_def analysis_header_def ascii_def contains_def)
  have f: "fst first_chunk = [Event Reasoning (r @ take k (ascii ''<|end|>''))]" "hp_buffer (snd first_chunk) = analysis_header"
    "hp_strategy (snd first_chunk) = Some CanonicalStrategy"
    using t1 cs by (simp_all add: first_chunk_def harmony_parse_def harmony_init_def Let_def filter_reasoning del: filter_events.simps)
  let ?ps = "[(ascii ''<|channel|>'', T_CHANNEL), (ascii ''analysis'', T_TEXT), (ascii ''<|message|>'', T_MESSAGE),
    (drop k (ascii ''<|end|>''), T_TEXT)] @ message_pieces (Final n)"
  note C = cut_marker[OF k]
  have "wf_pieces (message_pieces (Final n) @ [])" by (rule message_wf) (use n in simp_all)
  then have wf: "wf_pieces ?ps" using C(4,5) by (simp add: TOKENS_def contains_def message_pieces_def) (simp add: ascii_def)
  have fl: "analysis_header @ ?c2 = flat ?ps" by (simp add: analysis_header_pieces render_def)
  have al: "length (ascii ''<|channel|>'') = 11" "length (ascii ''analysis'') = 8" "length (ascii ''<|message|>'') = 11" by (simp_all add: ascii_def)
  have "canonical_parse (analysis_header @ ?c2) = ([Event Reasoning ?c2], analysis_header)"
  proof (rule open_analysis)
    let ?ts = "toks_of 30 ((drop k (ascii ''<|end|>''), T_TEXT) # message_pieces (Final n))"
    show "iter_tokens (analysis_header @ ?c2) = Token T_CHANNEL 0 11 # Token T_TEXT 11 19 # Token T_MESSAGE 19 30 # ?ts"
      unfolding fl tokens_of_pieces[OF wf] by (simp add: al)
    have "set (map tk_type ?ts) \<subseteq> - {T_END, T_CALL}" unfolding types_toks_of by (simp add: message_pieces_def)
    then show "\<forall>t \<in> set ?ts. tk_type t \<noteq> T_END \<and> tk_type t \<noteq> T_CALL" by auto
  qed simp
  then show ?thesis using f by (simp add: harmony_parse_def Let_def filter_reasoning del: filter_events.simps)
qed

lemma cut_end_marker_is_missed_witness:
  "fst (harmony_parse (ascii ''|>'' @ render [Final (ascii ''42'')])
     (snd (harmony_parse (analysis_header @ ascii ''so'' @ ascii ''<|end'') harmony_init))) =
   [Event Reasoning (ascii ''|>'' @ render [Final (ascii ''42'')])]"
  using cut_end_marker_is_missed[of "ascii ''so''" "ascii ''42''" 5] by (simp add: ascii_def contains_def)

text \<open>C32: What is held back between chunks is exactly an unfinished token: the emitted and the held text together
  are the text, the held part is empty or a proper prefix of a token, and every suffix of the text
  that a token could continue lies within it.\<close>

theorem prefix_hold_exact:
  "fst (prefix_hold s toks) @ snd (prefix_hold s toks) = s \<and>
   (snd (prefix_hold s toks) = [] \<or> list_ex (strict_prefix (snd (prefix_hold s toks))) toks) \<and>
   list_all (\<lambda>v. length v \<le> length (snd (prefix_hold s toks))) (List.filter (\<lambda>v. list_ex (strict_prefix v) toks) (suffixes s))"
proof -
  obtain emit hold where e: "prefix_hold s toks = (emit, hold)" by (cases "prefix_hold s toks")
  note P = prefix_hold_ok[OF e]
  have "length v \<le> length hold" if "v \<in> set (suffixes s)" "tok \<in> set toks" "strict_prefix v tok" for v tok
    using P(3) that by (auto simp: suffix_def)
  then show ?thesis using P(1,2) unfolding e by (auto simp: list_all_iff list_ex_iff)
qed

end
