(* ===== verification/ReasoningParser.thy ===== *)
theory ReasoningParser
  imports HarmonyParser
begin

text \<open>
  Separation of reasoning and answer (\<open>srt/parser/reasoning_parser.py\<close>): the detector base class with its
  one-time and its streaming interface, the detector of each model family, and \<open>ReasoningParser\<close>, which
  picks one.  A detector is one record; \<open>d_kind\<close> tells which methods its class overrides.  A constructor
  gets the keyword arguments that \<open>ReasoningParser\<close> passes and fails with a \<open>TypeError\<close> on one it does
  not take.
\<close>

section \<open>The base class\<close>

datatype detector_kind = Plain | Harmony | Append_think | Nonempty

record detector =
  d_kind :: detector_kind
  think_start_token :: pystr
  think_end_token :: pystr
  think_excluded_tokens :: "pystr list option"
  tool_start_token :: "pystr option"
  force_reasoning :: bool
  in_reasoning :: bool
  stream_reasoning :: bool
  thinks_internally :: bool
  reasoning_default :: string
  d_buffer :: pystr
  stripped_think_start :: bool
  think_start_self_label :: pystr
  continue_final_message :: bool
  previous_content :: pystr
  previous_count :: nat
  d_parser :: harmony_parser
  is_first_chunk :: bool
  force_nonempty_content :: bool

record parse_result =
  normal_text :: pystr
  reasoning_text :: pystr

definition Result :: "pystr \<Rightarrow> pystr \<Rightarrow> parse_result" where
  "Result normal reasoning = \<lparr>normal_text = normal, reasoning_text = reasoning\<rparr>"

text \<open>The content of a message: a text, a list of parts (its length is all that is read) or nothing.\<close>

datatype message_content = Content_text pystr | Content_parts nat | Content_none

text \<open>
  \<open>BaseReasoningFormatDetector.__init__\<close>; \<open>previous\<close> is the content of \<open>continue_final_message\<close>.  No tag is
  an element of a list of parts, so such a list behaves as an empty text, but for its length.  Nothing
  has no length: that error is raised where the classes are called, below.
\<close>

definition base_detector ::
  "pystr \<Rightarrow> pystr \<Rightarrow> pystr list option \<Rightarrow> bool \<Rightarrow> bool \<Rightarrow> pystr option \<Rightarrow> message_content option \<Rightarrow> bool \<Rightarrow> string \<Rightarrow> detector" where
  "base_detector start end_token excluded force stream tool previous internally dflt =
     (let prev = (case previous of Some (Content_text p) \<Rightarrow> p | _ \<Rightarrow> []);
          count = (case previous of Some (Content_text p) \<Rightarrow> length p | Some (Content_parts n) \<Rightarrow> n | _ \<Rightarrow> 0)
      in \<lparr>d_kind = Plain, think_start_token = start, think_end_token = end_token, think_excluded_tokens = excluded,
          tool_start_token = tool, force_reasoning = force,
          in_reasoning = (if contains end_token prev then False else if contains start prev then True else force),
          stream_reasoning = stream, thinks_internally = internally, reasoning_default = dflt, d_buffer = [],
          stripped_think_start = False, think_start_self_label = [], continue_final_message = previous \<noteq> None,
          previous_content = prev, previous_count = count, d_parser = harmony_init, is_first_chunk = False,
          force_nonempty_content = False\<rparr>)"

definition think_start_text :: "detector \<Rightarrow> pystr" where
  "think_start_text d = think_start_token d @ think_start_self_label d"

text \<open>The loop that drops repeated start tags; every class has a non-empty one.\<close>

function strip_starts :: "pystr \<Rightarrow> pystr \<Rightarrow> pystr" where
  "strip_starts start s = (if start \<noteq> [] \<and> prefix start s then strip_starts start (drop (length start) s) else s)"
  by pat_completeness auto
termination
proof (relation "measure (\<lambda>(_, s). length s)", goal_cases)
  case (2 start s)
  then show ?case by (cases start) (auto simp: prefix_def)
qed simp

declare strip_starts.simps [simp del]

definition detect_and_parse :: "detector \<Rightarrow> pystr \<Rightarrow> parse_result" where
  "detect_and_parse d s =
     (if \<not> (in_reasoning d \<or> contains (think_start_token d) s) then Result s []
      else
        let processed = strip_starts (think_start_text d) s in
        if \<not> contains (think_end_token d) processed \<and> \<not> contains (think_end_token d) (previous_content d)
        then (case tool_start_token d of
                Some tool \<Rightarrow>
                  (case find_sub tool processed of
                     Some i \<Rightarrow> Result (drop i processed) (take i processed)
                   | None \<Rightarrow> Result [] processed)
              | None \<Rightarrow> Result [] processed)
        else (case split_once (think_end_token d) processed of
                Some (reasoning, normal) \<Rightarrow> Result normal reasoning
              | None \<Rightarrow> Result processed []))"

definition unfinished_token :: "detector \<Rightarrow> pystr \<Rightarrow> bool" where
  "unfinished_token d s \<longleftrightarrow>
     list_ex (\<lambda>tok. prefix s tok \<and> tok \<noteq> s)
       ([think_start_text d, think_end_token d] @
        (case tool_start_token d of None \<Rightarrow> [] | Some tool \<Rightarrow> if tool \<noteq> [] then [tool] else []))"

definition parse_streaming_increment :: "pystr \<Rightarrow> detector \<Rightarrow> parse_result \<times> detector" where
  "parse_streaming_increment new_text d =
     (let d = d\<lparr>d_buffer := d_buffer d @ new_text\<rparr>; current_text = d_buffer d
      in if unfinished_token d current_text then (Result [] [], d)
         else
           let (current_text, d) =
                 (if \<not> stripped_think_start d \<and> contains (think_start_text d) current_text
                  then (replace_once (think_start_text d) [] current_text, d\<lparr>stripped_think_start := True, in_reasoning := True\<rparr>)
                  else (current_text, d))
           in if in_reasoning d
              then (case split_once (think_end_token d) current_text of
                      Some (reasoning, normal) \<Rightarrow> (Result normal reasoning, d\<lparr>d_buffer := [], in_reasoning := False\<rparr>)
                    | None \<Rightarrow>
                        (case (case tool_start_token d of None \<Rightarrow> None | Some tool \<Rightarrow> if tool \<noteq> [] then find_sub tool current_text else None) of
                           Some i \<Rightarrow> (Result (drop i current_text) (take i current_text), d\<lparr>d_buffer := [], in_reasoning := False\<rparr>)
                         | None \<Rightarrow>
                             if stream_reasoning d then (Result [] current_text, d\<lparr>d_buffer := []\<rparr>) else (Result [] [], d)))
              else (Result current_text [], d\<lparr>d_buffer := []\<rparr>))"

section \<open>Overridden methods\<close>

text \<open>\<open>GptOssDetector\<close>: the texts of the events of the Harmony parser.\<close>

definition normal_part :: "event \<Rightarrow> pystr" where
  "normal_part e =
     (case event_type e of
        Normal \<Rightarrow> content e
      | Tool_call \<Rightarrow> (case raw_text e of Some raw \<Rightarrow> if raw \<noteq> [] then raw else content e | None \<Rightarrow> content e)
      | Reasoning \<Rightarrow> [])"

definition events_result :: "event list \<Rightarrow> parse_result" where
  "events_result es = Result (concat (map normal_part es)) (concat (map content (List.filter (\<lambda>e. event_type e = Reasoning) es)))"

definition detector_parse :: "pystr \<Rightarrow> detector \<Rightarrow> parse_result \<times> detector" where
  "detector_parse s d =
     (case d_kind d of
        Plain \<Rightarrow> (detect_and_parse d s, d)
      | Harmony \<Rightarrow>
          (let (es1, p) = harmony_parse s (d_parser d); (es2, p) = harmony_parse [] p
           in (events_result (es1 @ es2), d\<lparr>d_parser := p\<rparr>))
      | Append_think \<Rightarrow> (Result (think_start_token d @ s) [], d)
      | Nonempty \<Rightarrow>
          (let r = detect_and_parse d s
           in (if force_nonempty_content d \<and> normal_text r = [] then Result (reasoning_text r) (normal_text r) else r, d)))"

definition detector_increment :: "pystr \<Rightarrow> detector \<Rightarrow> parse_result \<times> detector" where
  "detector_increment s d =
     (case d_kind d of
        Harmony \<Rightarrow> (let (es, p) = harmony_parse s (d_parser d) in (events_result es, d\<lparr>d_parser := p\<rparr>))
      | Append_think \<Rightarrow>
          if \<not> is_first_chunk d then (Result (think_start_token d @ s) [], d\<lparr>is_first_chunk := True\<rparr>) else (Result s [], d)
      | _ \<Rightarrow> parse_streaming_increment s d)"

section \<open>The detector classes\<close>

datatype parser_error = ValueError | TypeError

record parser_kwargs =
  kw_stream_reasoning :: bool
  kw_force_reasoning :: "bool option"
  kw_previous_content :: "message_content option"
  kw_force_nonempty_content :: bool

definition kw_force :: "bool \<Rightarrow> parser_kwargs \<Rightarrow> bool" where
  "kw_force dflt kw = (case kw_force_reasoning kw of None \<Rightarrow> dflt | Some b \<Rightarrow> b)"

definition think :: pystr where "think = ascii ''<think>''"

definition end_think :: pystr where "end_think = ascii ''</think>''"

datatype detector_class = DeepSeekR1Detector | Qwen3Detector | KimiDetector | KimiK2Detector | Glm45Detector | GptOssDetector |
  MiniMaxAppendThinkDetector | Nemotron3Detector | MistralDetector | HunyuanDetector | Gemma4Detector | DeepSeekV3Detector |
  MimoDetector | PoolsideV1Detector

definition qwen3_excluded :: "pystr list" where
  "qwen3_excluded = map ascii [''<tool_call>'', ''</tool_call>'', ''<|im_end|>'', ''<|endoftext|>'']"

definition kimi_k2_excluded :: "pystr list" where
  "kimi_k2_excluded = map ascii [''<think>'', ''<|tool_calls_section_begin|>'', ''<|tool_call_begin|>'', ''<|tool_call_argument_begin|>'',
     ''<|tool_call_section_end|>'', ''<|tool_call_end|>'', ''[EOS]'', ''<|im_end|>'', ''<|end_header_id|>'', ''[EOT]'']"

definition glm45_excluded :: "pystr list" where
  "glm45_excluded = map ascii [''<tool_call>'', ''</tool_call>'', ''<eop>'', ''<|user|>'', ''<|endoftext|>'']"

definition qwen3_detector :: "parser_kwargs \<Rightarrow> detector" where
  "qwen3_detector kw = base_detector think end_think (Some qwen3_excluded) (kw_force False kw) (kw_stream_reasoning kw) None
     (kw_previous_content kw) True ''enable_thinking''"

definition deepseek_v3_detector :: "parser_kwargs \<Rightarrow> detector" where
  "deepseek_v3_detector kw = (qwen3_detector kw)\<lparr>reasoning_default := ''explicit_thinking''\<rparr>"

definition mimo_detector :: "parser_kwargs \<Rightarrow> detector" where
  "mimo_detector kw = (qwen3_detector kw)\<lparr>reasoning_default := ''explicit_enable_thinking''\<rparr>"

definition poolside_v1_detector :: "parser_kwargs \<Rightarrow> detector" where
  "poolside_v1_detector kw = (qwen3_detector kw)\<lparr>reasoning_default := ''explicit_enable_thinking''\<rparr>"

definition deepseek_r1_detector :: "parser_kwargs \<Rightarrow> detector" where
  "deepseek_r1_detector kw =
     base_detector think end_think None True (kw_stream_reasoning kw) None (kw_previous_content kw) False ''always''"

definition kimi_detector :: "parser_kwargs \<Rightarrow> detector" where
  "kimi_detector kw =
     base_detector (9665 # ascii ''think'' @ [9655]) (9665 # ascii ''/think'' @ [9655]) None False (kw_stream_reasoning kw) None
     (kw_previous_content kw) False ''always''"

definition kimi_k2_detector :: "parser_kwargs \<Rightarrow> detector" where
  "kimi_k2_detector kw =
     base_detector think end_think (Some kimi_k2_excluded) (kw_force False kw) (kw_stream_reasoning kw)
     (Some (ascii ''<|tool_calls_section_begin|>'')) (kw_previous_content kw) False ''thinking''"

definition glm45_detector :: "parser_kwargs \<Rightarrow> detector" where
  "glm45_detector kw =
     base_detector think end_think (Some glm45_excluded) (kw_force False kw) (kw_stream_reasoning kw)
     (Some (ascii ''<tool_call>'')) None True ''enable_thinking''"

definition gpt_oss_detector :: "parser_kwargs \<Rightarrow> detector" where
  "gpt_oss_detector kw =
     (base_detector (ascii ''<|channel|>analysis<|message|>'') (ascii ''<|end|>'') None (kw_force True kw) (kw_stream_reasoning kw) None
     (kw_previous_content kw) False ''always'')\<lparr>d_kind := Harmony\<rparr>"

definition minimax_append_think_detector :: "parser_kwargs \<Rightarrow> detector" where
  "minimax_append_think_detector kw =
     (base_detector think end_think None (kw_force False kw) (kw_stream_reasoning kw) None (kw_previous_content kw) False ''always'')
     \<lparr>d_kind := Append_think\<rparr>"

definition nemotron3_detector :: "parser_kwargs \<Rightarrow> detector" where
  "nemotron3_detector kw =
     (base_detector think end_think None (kw_force False kw) (kw_stream_reasoning kw) None (kw_previous_content kw) False ''enable_thinking'')
     \<lparr>d_kind := Nonempty, force_nonempty_content := kw_force_nonempty_content kw\<rparr>"

definition mistral_detector :: "parser_kwargs \<Rightarrow> detector" where
  "mistral_detector kw =
     base_detector (ascii ''[THINK]'') (ascii ''[/THINK]'') None (kw_force False kw) (kw_stream_reasoning kw) None
     (kw_previous_content kw) False ''mistral''"

definition hunyuan_detector :: "parser_kwargs \<Rightarrow> detector" where
  "hunyuan_detector kw =
     base_detector think end_think None (kw_force False kw) (kw_stream_reasoning kw) (Some (ascii ''<tool_calls>''))
     (kw_previous_content kw) False ''always''"

definition gemma4_detector :: "parser_kwargs \<Rightarrow> detector" where
  "gemma4_detector kw =
     (base_detector (ascii ''<|channel>'') (ascii ''<channel|>'') None (kw_force False kw) (kw_stream_reasoning kw) None
     (kw_previous_content kw) False ''explicit_enable_thinking'')\<lparr>think_start_self_label := ascii ''thought'' @ [10]\<rparr>"

text \<open>Calling a class with the keyword arguments: only \<open>Nemotron3Detector\<close> takes \<open>force_nonempty_content\<close>, and
  \<open>Glm45Detector\<close> does not take the message to continue; every other class takes the length of its content, which
  raises when there is none.\<close>

definition detector_init :: "detector_class \<Rightarrow> parser_kwargs \<Rightarrow> parser_error + detector" where
  "detector_init cls kw =
     (if kw_force_nonempty_content kw \<and> cls \<noteq> Nemotron3Detector then Inl TypeError
      else if kw_previous_content kw \<noteq> None \<and> cls = Glm45Detector then Inl TypeError
      else if kw_previous_content kw = Some Content_none then Inl TypeError
      else Inr (case cls of
           DeepSeekR1Detector \<Rightarrow> deepseek_r1_detector kw
         | KimiDetector \<Rightarrow> kimi_detector kw
         | KimiK2Detector \<Rightarrow> kimi_k2_detector kw
         | Glm45Detector \<Rightarrow> glm45_detector kw
         | GptOssDetector \<Rightarrow> gpt_oss_detector kw
         | MiniMaxAppendThinkDetector \<Rightarrow> minimax_append_think_detector kw
         | Nemotron3Detector \<Rightarrow> nemotron3_detector kw
         | MistralDetector \<Rightarrow> mistral_detector kw
         | HunyuanDetector \<Rightarrow> hunyuan_detector kw
         | Gemma4Detector \<Rightarrow> gemma4_detector kw
         | Qwen3Detector \<Rightarrow> qwen3_detector kw
         | DeepSeekV3Detector \<Rightarrow> deepseek_v3_detector kw
         | MimoDetector \<Rightarrow> mimo_detector kw
         | PoolsideV1Detector \<Rightarrow> poolside_v1_detector kw))"

lemmas detector_classes = deepseek_r1_detector_def kimi_detector_def kimi_k2_detector_def glm45_detector_def gpt_oss_detector_def minimax_append_think_detector_def nemotron3_detector_def mistral_detector_def hunyuan_detector_def gemma4_detector_def qwen3_detector_def deepseek_v3_detector_def mimo_detector_def poolside_v1_detector_def

section \<open>The parser\<close>

definition DetectorMap :: "(pystr \<times> detector_class) list" where
  "DetectorMap = map (\<lambda>(n, c). (ascii n, c))
     [(''deepseek-r1'', DeepSeekR1Detector), (''deepseek-v3'', DeepSeekV3Detector), (''deepseek-v4'', DeepSeekV3Detector),
      (''glm45'', Glm45Detector), (''hunyuan'', HunyuanDetector), (''gpt-oss'', GptOssDetector), (''kimi'', KimiDetector),
      (''kimi_k2'', KimiK2Detector), (''mimo'', MimoDetector), (''poolside_v1'', PoolsideV1Detector), (''qwen3'', Qwen3Detector),
      (''qwen3-thinking'', Qwen3Detector), (''minimax'', Qwen3Detector), (''minimax-append-think'', MiniMaxAppendThinkDetector),
      (''step3'', DeepSeekR1Detector), (''step3p5'', DeepSeekR1Detector), (''mistral'', MistralDetector),
      (''nemotron_3'', Nemotron3Detector), (''interns1'', Qwen3Detector), (''gemma4'', Gemma4Detector)]"

text \<open>The request: the content of a final assistant message to continue, and \<open>force_nonempty_content\<close>.\<close>

definition reasoning_parser :: "pystr \<Rightarrow> bool \<Rightarrow> bool option \<Rightarrow> message_content option \<Rightarrow> bool \<Rightarrow> parser_error + detector" where
  "reasoning_parser model_type stream force previous nonempty =
     (if model_type = [] then Inl ValueError
      else case map_of DetectorMap (lower model_type) of
        None \<Rightarrow> Inl ValueError
      | Some cls \<Rightarrow>
          let force = (if lower model_type \<in> set (map ascii [''qwen3-thinking'', ''gpt-oss'', ''minimax'']) then Some True else force)
          in detector_init cls \<lparr>kw_stream_reasoning = stream, kw_force_reasoning = force, kw_previous_content = previous,
               kw_force_nonempty_content = nonempty\<rparr>)"

definition parse_non_stream :: "pystr \<Rightarrow> detector \<Rightarrow> (pystr \<times> pystr) \<times> detector" where
  "parse_non_stream s d = (let (r, d) = detector_parse s d in ((reasoning_text r, normal_text r), d))"

definition parse_stream_chunk :: "pystr \<Rightarrow> detector \<Rightarrow> (pystr \<times> pystr) \<times> detector" where
  "parse_stream_chunk s d = (let (r, d) = detector_increment s d in ((reasoning_text r, normal_text r), d))"

text \<open>A stream of chunks, with all the text of each channel.\<close>

fun stream_chunks :: "pystr list \<Rightarrow> detector \<Rightarrow> (pystr \<times> pystr) \<times> detector" where
  "stream_chunks [] d = (([], []), d)"
| "stream_chunks (c # cs) d =
     (let ((r, n), d) = parse_stream_chunk c d; ((rs, ns), d) = stream_chunks cs d in ((r @ rs, n @ ns), d))"

end
