(* ===== verification/ReasoningProps.thy ===== *)
theory ReasoningProps
  imports ReasoningParser
begin

text \<open>
  What the reasoning parser guarantees for the detectors that use the base class: a marked text splits
  into its parts, a stream whose tags arrive whole gives the same split, and where the streaming
  interface goes wrong.
\<close>

section \<open>The tags of the detectors\<close>

definition apart :: "pystr \<Rightarrow> pystr \<Rightarrow> pystr option \<Rightarrow> bool" where
  "apart s e tool \<longleftrightarrow> s \<noteq> [] \<and> e \<noteq> [] \<and> \<not> contains s e \<and> \<not> contains e s \<and> \<not> prefix s e \<and> \<not> prefix e s \<and>
     (case tool of None \<Rightarrow> True | Some t \<Rightarrow> t \<noteq> [] \<and> \<not> prefix s t \<and> \<not> prefix e t)"

definition tags_apart :: "detector \<Rightarrow> bool" where
  "tags_apart d \<longleftrightarrow> apart (think_start_text d) (think_end_token d) (tool_start_token d)"

definition fresh :: "detector \<Rightarrow> bool" where
  "fresh d \<longleftrightarrow> d_buffer d = [] \<and> \<not> stripped_think_start d \<and> previous_content d = []"

lemma base_detector_simps [simp]:
  "think_start_text (base_detector s e x f st t p i df) = s" "think_end_token (base_detector s e x f st t p i df) = e"
  "tool_start_token (base_detector s e x f st t p i df) = t" "stream_reasoning (base_detector s e x f st t p i df) = st"
  "d_kind (base_detector s e x f st t p i df) = Plain" "fresh (base_detector s e x f st None None i df)"
  "fresh (base_detector s e x f st (Some u) None i df)"
  by (simp_all add: base_detector_def think_start_text_def fresh_def Let_def)

lemma detector_apart:
  assumes "detector_init cls kw = Inr d" and "d_kind d = Plain"
  shows "tags_apart d" and "stream_reasoning d = kw_stream_reasoning kw" and "kw_previous_content kw = None \<Longrightarrow> fresh d"
proof -
  have a: "apart think end_think None" "apart think end_think (Some (ascii ''<|tool_calls_section_begin|>''))"
    "apart think end_think (Some (ascii ''<tool_call>''))" "apart think end_think (Some (ascii ''<tool_calls>''))"
    "apart (9665 # ascii ''think'' @ [9655]) (9665 # ascii ''/think'' @ [9655]) None"
    "apart (ascii ''[THINK]'') (ascii ''[/THINK]'') None"
    "apart (ascii ''<|channel>'' @ ascii ''thought'' @ [10]) (ascii ''<channel|>'') None"
    by (simp_all add: apart_def contains_def think_def end_think_def ascii_def)
  show "tags_apart d" using assms a
    by (cases cls) (auto simp: detector_init_def detector_classes tags_apart_def Let_def think_start_text_def base_detector_def
        split: if_splits)
  show "stream_reasoning d = kw_stream_reasoning kw" using assms
    by (cases cls) (auto simp: detector_init_def detector_classes Let_def split: if_splits)
  show "fresh d" if "kw_previous_content kw = None" using assms that
    by (cases cls) (auto simp: detector_init_def detector_classes Let_def base_detector_def fresh_def split: if_splits)
qed

lemma parser_apart:
  assumes "reasoning_parser m stream force prev nonempty = Inr d" and "d_kind d = Plain"
  shows "tags_apart d" and "stream_reasoning d = stream" and "prev = None \<Longrightarrow> fresh d"
  using assms detector_apart[of _ _ d]
  by (auto simp: reasoning_parser_def Let_def split: if_splits option.splits)

section \<open>One-time parsing\<close>

lemma strip_repeated:
  assumes "s \<noteq> []" and "\<not> prefix s t"
  shows "strip_starts s (concat (replicate k s) @ t) = t"
  using assms by (induction k) (auto simp: strip_starts.simps[of s t], subst strip_starts.simps, simp)

lemma one_time_split:
  assumes a: "tags_apart d" and f: "fresh d" and op: "k > 0 \<or> in_reasoning d"
    and r: "\<not> contains (think_end_token d) (r @ butlast (think_end_token d))"
    and s: "\<not> prefix (think_start_text d) (r @ think_end_token d @ n)"
  shows "detect_and_parse d (concat (replicate k (think_start_text d)) @ r @ think_end_token d @ n) = Result n r"
proof -
  let ?s = "think_start_text d" and ?e = "think_end_token d"
  let ?t = "concat (replicate k ?s) @ r @ ?e @ n"
  have ne: "?s \<noteq> []" "?e \<noteq> []" using a by (auto simp: tags_apart_def apart_def)
  have "in_reasoning d \<or> contains (think_start_token d) ?t"
  proof (cases k)
    case (Suc j)
    then have "\<exists>v. ?t = [] @ think_start_token d @ v" by (simp add: think_start_text_def)
    then have "contains (think_start_token d) ?t" unfolding contains_iff by blast
    then show ?thesis ..
  qed (use op in simp)
  moreover have "strip_starts ?s ?t = r @ ?e @ n" by (rule strip_repeated[OF ne(1) s])
  moreover have "contains ?e (r @ ?e @ n)" unfolding contains_iff by blast
  ultimately show ?thesis using split_once_first[OF r ne(2), of n] by (simp add: detect_and_parse_def)
qed

text \<open>C34: Reasoning and answer survive the format: for every model type with a detector of the base class, a text
  printed as any number of start tags, the reasoning, the end tag and the answer splits back into
  exactly that reasoning and that answer.  The reasoning must not hold the end tag or begin with the
  start tag, and some start tag is there unless the model always reasons.\<close>

theorem reasoning_roundtrip:
  assumes d: "reasoning_parser m stream force None False = Inr d" "d_kind d = Plain" and "k > 0 \<or> in_reasoning d"
    and "\<not> contains (think_end_token d) (r @ butlast (think_end_token d))"
    and "\<not> prefix (think_start_text d) (r @ think_end_token d @ n)"
  shows "parse_non_stream (concat (replicate k (think_start_text d)) @ r @ think_end_token d @ n) d = ((r, n), d)"
  using one_time_split[OF parser_apart(1)[OF d] parser_apart(3)[OF d refl] assms(3-5)] d(2)
  by (simp add: parse_non_stream_def detector_parse_def Result_def)

definition demo_detector :: detector where
  "demo_detector = base_detector think end_think None True True None None False ''always''"

lemma demo_parser: "reasoning_parser (ascii ''DeepSeek-R1'') True None None False = Inr demo_detector"
  by (simp add: reasoning_parser_def DetectorMap_def ascii_def lower_def detector_init_def detector_classes demo_detector_def Let_def)

lemma demo_tags: "d_kind demo_detector = Plain" "in_reasoning demo_detector" "think_start_text demo_detector = think"
  "think_end_token demo_detector = end_think" "tool_start_token demo_detector = None"
  by (simp_all add: demo_detector_def base_detector_def think_start_text_def contains_def end_think_def ascii_def)

lemma reasoning_roundtrip_witness:
  "parse_non_stream (think @ ascii ''2+2'' @ end_think @ ascii ''4'') demo_detector = ((ascii ''2+2'', ascii ''4''), demo_detector)"
proof -
  have "\<not> contains (think_end_token demo_detector) (ascii ''2+2'' @ butlast (think_end_token demo_detector))"
    "\<not> prefix (think_start_text demo_detector) (ascii ''2+2'' @ think_end_token demo_detector @ ascii ''4'')"
    unfolding demo_tags by (simp_all add: contains_def think_def end_think_def ascii_def)
  from reasoning_roundtrip[OF demo_parser demo_tags(1) _ this, of 1] show ?thesis unfolding demo_tags by simp
qed

section \<open>Streams\<close>

lemma detector_updates [simp]:
  "think_start_text (d\<lparr>d_buffer := b\<rparr>) = think_start_text d" "unfinished_token (d\<lparr>d_buffer := b\<rparr>) = unfinished_token d"
  by (auto simp: think_start_text_def unfinished_token_def fun_eq_iff)

text \<open>A chunk that holds no tag and is not the beginning of one.\<close>

definition plain_chunk :: "detector \<Rightarrow> pystr \<Rightarrow> bool" where
  "plain_chunk d c \<longleftrightarrow> c = [] \<or> \<not> unfinished_token d c \<and> \<not> contains (think_start_text d) c \<and> \<not> contains (think_end_token d) c \<and>
     (case tool_start_token d of None \<Rightarrow> True | Some t \<Rightarrow> \<not> contains t c)"

definition same_tags :: "detector \<Rightarrow> detector \<Rightarrow> bool" where
  "same_tags d d' \<longleftrightarrow> d_kind d' = d_kind d \<and> think_start_text d' = think_start_text d \<and> think_end_token d' = think_end_token d \<and>
     tool_start_token d' = tool_start_token d \<and> stream_reasoning d' = stream_reasoning d \<and>
     unfinished_token d' = unfinished_token d \<and> plain_chunk d' = plain_chunk d \<and> tags_apart d' = tags_apart d"

lemma same_tagsI:
  "d_kind d' = d_kind d \<Longrightarrow> think_start_token d' = think_start_token d \<Longrightarrow> think_start_self_label d' = think_start_self_label d \<Longrightarrow>
   think_end_token d' = think_end_token d \<Longrightarrow> tool_start_token d' = tool_start_token d \<Longrightarrow>
   stream_reasoning d' = stream_reasoning d \<Longrightarrow> same_tags d d'"
  by (auto simp: same_tags_def think_start_text_def unfinished_token_def plain_chunk_def tags_apart_def fun_eq_iff)

lemma same_tags_trans: "same_tags a b \<Longrightarrow> same_tags b c \<Longrightarrow> same_tags a c"
  by (simp add: same_tags_def)

lemma stream_append:
  "stream_chunks (xs @ ys) d =
     (let ((r1, n1), d) = stream_chunks xs d; ((r2, n2), d) = stream_chunks ys d in ((r1 @ r2, n1 @ n2), d))"
  by (induction xs arbitrary: d) (simp_all split: prod.split)

lemma chunk_reasoning:
  assumes ap: "tags_apart d" and "d_kind d = Plain" "stream_reasoning d" "in_reasoning d" "d_buffer d = []" "plain_chunk d c"
  shows "\<exists>d'. parse_stream_chunk c d = ((c, []), d') \<and> in_reasoning d' \<and> d_buffer d' = [] \<and> same_tags d d'"
proof (cases "unfinished_token d c")
  case True
  then have c: "c = []" using assms(6) by (simp add: plain_chunk_def)
  then have "parse_streaming_increment c d = (Result [] [], d)" using True assms(5)
    by (simp add: parse_streaming_increment_def Let_def)
  then show ?thesis using assms c by (auto simp: parse_stream_chunk_def detector_increment_def Result_def intro: same_tagsI)
next
  case False
  then have n: "\<not> contains (think_start_text d) c" "\<not> contains (think_end_token d) c"
    "\<And>t. tool_start_token d = Some t \<Longrightarrow> \<not> contains t c \<or> t = []"
    using assms(6) ap False by (auto simp: plain_chunk_def unfinished_token_def contains_def tags_apart_def apart_def split: option.splits if_splits)
  have tool: "(case tool_start_token d of None \<Rightarrow> None | Some tool \<Rightarrow> if tool \<noteq> [] then find_sub tool c else None) = None"
    using n(3) by (auto simp: contains_def split: option.split)
  have "parse_streaming_increment c d = (Result [] c, d\<lparr>d_buffer := []\<rparr>)"
    using False assms n(1,2) tool unfolding parse_streaming_increment_def
    by (simp add: Let_def split_once_None[THEN iffD2])
  then show ?thesis using assms by (auto simp: parse_stream_chunk_def detector_increment_def Result_def intro: same_tagsI)
qed

lemma chunk_normal:
  assumes ap: "tags_apart d" and "d_kind d = Plain" "\<not> in_reasoning d" "d_buffer d = []" "plain_chunk d c"
  shows "\<exists>d'. parse_stream_chunk c d = (([], c), d') \<and> \<not> in_reasoning d' \<and> d_buffer d' = [] \<and> same_tags d d'"
proof (cases "unfinished_token d c")
  case True
  then have c: "c = []" using assms(5) by (simp add: plain_chunk_def)
  then have "parse_streaming_increment c d = (Result [] [], d)" using True assms(4)
    by (simp add: parse_streaming_increment_def Let_def)
  then show ?thesis using assms c by (auto simp: parse_stream_chunk_def detector_increment_def Result_def intro: same_tagsI)
next
  case False
  then have "\<not> contains (think_start_text d) c"
    using assms(5) ap False by (auto simp: plain_chunk_def unfinished_token_def contains_def tags_apart_def apart_def split: option.splits if_splits)
  then have "parse_streaming_increment c d = (Result c [], d\<lparr>d_buffer := []\<rparr>)"
    using False assms unfolding parse_streaming_increment_def by (simp add: Let_def)
  then show ?thesis using assms by (auto simp: parse_stream_chunk_def detector_increment_def Result_def intro: same_tagsI)
qed

lemma stream_reasoning_chunks:
  "tags_apart d \<Longrightarrow> d_kind d = Plain \<Longrightarrow> stream_reasoning d \<Longrightarrow> in_reasoning d \<Longrightarrow> d_buffer d = [] \<Longrightarrow> list_all (plain_chunk d) cs \<Longrightarrow>
   \<exists>d'. stream_chunks cs d = ((concat cs, []), d') \<and> in_reasoning d' \<and> d_buffer d' = [] \<and> same_tags d d'"
proof (induction cs arbitrary: d)
  case Nil
  then show ?case by (auto intro: same_tagsI)
next
  case (Cons c cs)
  from chunk_reasoning[OF Cons.prems(1-5)] Cons.prems(6) obtain d1 where d1: "parse_stream_chunk c d = ((c, []), d1)"
    "in_reasoning d1" "d_buffer d1 = []" "same_tags d d1" by auto
  from Cons.IH[of d1] d1 Cons.prems obtain d2 where "stream_chunks cs d1 = ((concat cs, []), d2)" "in_reasoning d2"
    "d_buffer d2 = []" "same_tags d1 d2" by (auto simp: same_tags_def)
  then show ?case using d1 same_tags_trans by auto
qed

lemma stream_normal_chunks:
  "tags_apart d \<Longrightarrow> d_kind d = Plain \<Longrightarrow> \<not> in_reasoning d \<Longrightarrow> d_buffer d = [] \<Longrightarrow> list_all (plain_chunk d) cs \<Longrightarrow>
   \<exists>d'. stream_chunks cs d = (([], concat cs), d')"
proof (induction cs arbitrary: d)
  case (Cons c cs)
  from chunk_normal[OF Cons.prems(1-4)] Cons.prems(5) obtain d1 where d1: "parse_stream_chunk c d = (([], c), d1)"
    "\<not> in_reasoning d1" "d_buffer d1 = []" "same_tags d d1" by auto
  from Cons.IH[of d1] d1 Cons.prems obtain d2 where "stream_chunks cs d1 = (([], concat cs), d2)" by (auto simp: same_tags_def)
  then show ?case using d1 by auto
qed simp

lemma chunk_end:
  assumes ap: "tags_apart d" and "d_kind d = Plain" "in_reasoning d" "d_buffer d = []"
  shows "\<exists>d'. parse_stream_chunk (think_end_token d) d = (([], []), d') \<and> \<not> in_reasoning d' \<and> d_buffer d' = [] \<and> same_tags d d'"
proof -
  let ?e = "think_end_token d"
  have a: "?e \<noteq> []" "\<not> contains (think_start_text d) ?e" "\<not> prefix ?e (think_start_text d)"
    "\<And>t. tool_start_token d = Some t \<Longrightarrow> \<not> prefix ?e t" using ap by (auto simp: tags_apart_def apart_def)
  have u: "\<not> unfinished_token d ?e" using a by (auto simp: unfinished_token_def split: option.split)
  have "find_sub ?e ?e = Some 0" using a(1) by (cases ?e) simp_all
  then have "parse_streaming_increment ?e d = (Result [] [], d\<lparr>d_buffer := [], in_reasoning := False\<rparr>)"
    using u a assms by (simp add: parse_streaming_increment_def Let_def split_once_def)
  then show ?thesis using assms by (auto simp: parse_stream_chunk_def detector_increment_def Result_def intro: same_tagsI)
qed

lemma chunk_start:
  assumes ap: "tags_apart d" and "d_kind d = Plain" "stream_reasoning d" "fresh d"
  shows "\<exists>d'. parse_stream_chunk (think_start_text d) d = (([], []), d') \<and> in_reasoning d' \<and> d_buffer d' = [] \<and> same_tags d d'"
proof -
  let ?s = "think_start_text d"
  have a: "?s \<noteq> []" "think_end_token d \<noteq> []" "\<not> prefix ?s (think_end_token d)"
    "\<And>t. tool_start_token d = Some t \<Longrightarrow> \<not> prefix ?s t \<and> t \<noteq> []" using ap by (auto simp: tags_apart_def apart_def)
  have u: "\<not> unfinished_token d ?s" using a by (auto simp: unfinished_token_def split: option.split)
  have f: "find_sub ?s ?s = Some 0" using a(1) by (cases ?s) simp_all
  have tool: "(case tool_start_token d of None \<Rightarrow> None | Some tool \<Rightarrow> if tool \<noteq> [] then find_sub tool [] else None) = None"
    using a(4) by (auto split: option.split)
  let ?d' = "d\<lparr>d_buffer := [], stripped_think_start := True, in_reasoning := True\<rparr>"
  have "contains ?s ?s" "replace_once ?s [] ?s = []" using f by (simp_all add: contains_def replace_once_def split_once_def)
  then have "parse_streaming_increment ?s d = (Result [] [], ?d')"
    using u assms a(2) tool by (simp add: parse_streaming_increment_def Let_def split_once_def fresh_def)
  then show ?thesis using assms by (auto simp: parse_stream_chunk_def detector_increment_def Result_def intro: same_tagsI)
qed

lemma stream_split:
  assumes ap: "tags_apart d" "d_kind d = Plain" "stream_reasoning d" "fresh d"
    and op: "opening = [] \<and> in_reasoning d \<or> opening = [think_start_text d]"
    and cs: "list_all (plain_chunk d) rs" "list_all (plain_chunk d) ns"
  shows "fst (stream_chunks (opening @ rs @ [think_end_token d] @ ns) d) = (concat rs, concat ns)"
proof -
  obtain d1 where d1: "stream_chunks opening d = (([], []), d1)" "in_reasoning d1" "d_buffer d1 = []" "same_tags d d1"
    using op
  proof (elim disjE conjE)
    assume "opening = []" "in_reasoning d"
    then show ?thesis using ap(4) by (intro that[of d]) (auto simp: fresh_def intro: same_tagsI)
  next
    assume "opening = [think_start_text d]"
    then show ?thesis using chunk_start[OF ap] that by auto
  qed
  have t1: "tags_apart d1" "d_kind d1 = Plain" "stream_reasoning d1" "plain_chunk d1 = plain_chunk d" "think_end_token d1 = think_end_token d"
    using d1(4) ap by (simp_all add: same_tags_def)
  from stream_reasoning_chunks[OF t1(1-3) d1(2,3)] cs(1) t1(4) obtain d2 where d2: "stream_chunks rs d1 = ((concat rs, []), d2)"
    "in_reasoning d2" "d_buffer d2 = []" "same_tags d1 d2" by auto
  have t2: "tags_apart d2" "d_kind d2 = Plain" "plain_chunk d2 = plain_chunk d" "think_end_token d2 = think_end_token d"
    using d2(4) t1 by (simp_all add: same_tags_def)
  from chunk_end[OF t2(1,2) d2(2,3)] t2(4) obtain d3 where d3: "parse_stream_chunk (think_end_token d) d2 = (([], []), d3)"
    "\<not> in_reasoning d3" "d_buffer d3 = []" "same_tags d2 d3" by auto
  have t3: "tags_apart d3" "d_kind d3 = Plain" "plain_chunk d3 = plain_chunk d" using d3(4) t2 by (simp_all add: same_tags_def)
  from stream_normal_chunks[OF t3(1,2) d3(2,3)] cs(2) t3(3) obtain d4 where "stream_chunks ns d3 = (([], concat ns), d4)" by auto
  then show ?thesis using d1(1) d2(1) d3(1) by (simp add: stream_append)
qed

text \<open>C35: Streaming agrees with one-time parsing when every tag arrives whole: for every model type with a detector
  of the base class, if the start tag (when there is one) and the end tag are chunks of their own and
  no other chunk holds a tag or is the beginning of one, the reasoning and the answer sent over all
  chunks are those that \<open>parse_non_stream\<close> finds in the whole text.\<close>

theorem streaming_agrees:
  assumes d: "reasoning_parser m True force None False = Inr d" "d_kind d = Plain"
    and op: "opening = [] \<and> in_reasoning d \<or> opening = [think_start_text d]"
    and cs: "list_all (plain_chunk d) rs" "list_all (plain_chunk d) ns"
    and e: "\<not> contains (think_end_token d) (concat rs @ butlast (think_end_token d))"
    and s: "\<not> prefix (think_start_text d) (concat rs @ think_end_token d @ concat ns)"
  defines "chunks \<equiv> opening @ rs @ [think_end_token d] @ ns"
  shows "fst (stream_chunks chunks d) = fst (parse_non_stream (concat chunks) d)"
proof -
  note a = parser_apart[OF d]
  have "fst (stream_chunks chunks d) = (concat rs, concat ns)"
    unfolding chunks_def by (rule stream_split[OF a(1) d(2) _ a(3)[OF refl] op cs]) (simp add: a(2))
  moreover obtain k where k: "concat opening = concat (replicate k (think_start_text d))" "k > 0 \<or> in_reasoning d"
    using op by (metis concat.simps concat_replicate_trivial less_numeral_extra(1) replicate_0 replicate_Suc One_nat_def append_Nil2)
  moreover have "concat chunks = concat (replicate k (think_start_text d)) @ concat rs @ think_end_token d @ concat ns"
    using k(1) by (simp add: chunks_def)
  ultimately show ?thesis using one_time_split[OF a(1) a(3)[OF refl] k(2) e s] d(2)
    by (simp add: parse_non_stream_def detector_parse_def Result_def)
qed

lemma streaming_agrees_witness:
  "fst (stream_chunks [think, ascii ''2+2'', ascii '' = ?'', end_think, ascii ''4''] demo_detector) =
   fst (parse_non_stream (concat [think, ascii ''2+2'', ascii '' = ?'', end_think, ascii ''4'']) demo_detector)"
proof -
  have p: "list_all (plain_chunk demo_detector) [ascii ''2+2'', ascii '' = ?'']" "list_all (plain_chunk demo_detector) [ascii ''4'']"
    by (simp_all add: plain_chunk_def unfinished_token_def demo_tags) (simp_all add: contains_def think_def end_think_def ascii_def)
  show ?thesis using streaming_agrees[OF demo_parser demo_tags(1) _ p, of "[think]"]
    by (simp_all add: demo_tags) (simp_all add: contains_def think_def end_think_def ascii_def)
qed

section \<open>Where streams go wrong\<close>

text \<open>C36: An end tag that two chunks share is not seen.  When reasoning text and the beginning of the end tag
  arrive in one chunk and the rest of the tag with the answer in the next, the stream sends all of it,
  the tag and the answer included, as reasoning and no answer at all; one-time parsing of the same
  text splits it correctly.\<close>

theorem cut_end_tag_is_missed:
  assumes d: "reasoning_parser m True force None False = Inr d" "d_kind d = Plain" "in_reasoning d"
    and p: "plain_chunk d (r @ take k (think_end_token d))" "plain_chunk d (drop k (think_end_token d) @ n)"
    and e: "\<not> contains (think_end_token d) (r @ butlast (think_end_token d))"
    and s: "\<not> prefix (think_start_text d) (r @ think_end_token d @ n)"
  shows "fst (stream_chunks [r @ take k (think_end_token d), drop k (think_end_token d) @ n] d) = (r @ think_end_token d @ n, []) \<and>
    fst (parse_non_stream (r @ think_end_token d @ n) d) = (r, n)"
proof (rule conjI)
  note a = parser_apart[OF d(1,2)]
  have b: "d_buffer d = []" using a(3)[OF refl] by (simp add: fresh_def)
  from stream_reasoning_chunks[OF a(1) d(2) _ d(3) b, of "[r @ take k (think_end_token d), drop k (think_end_token d) @ n]"] p a(2)
  show "fst (stream_chunks [r @ take k (think_end_token d), drop k (think_end_token d) @ n] d) = (r @ think_end_token d @ n, [])" by auto
  show "fst (parse_non_stream (r @ think_end_token d @ n) d) = (r, n)"
    using one_time_split[OF a(1) a(3)[OF refl], of 0 r n] d e s by (simp add: parse_non_stream_def detector_parse_def Result_def)
qed

lemma cut_end_tag_is_missed_witness:
  "fst (stream_chunks [ascii ''so</th'', ascii ''ink>4''] demo_detector) = (ascii ''so</think>4'', []) \<and>
   fst (parse_non_stream (ascii ''so</think>4'') demo_detector) = (ascii ''so'', ascii ''4'')"
proof -
  have p: "plain_chunk demo_detector (ascii ''so'' @ take 4 (think_end_token demo_detector))"
    "plain_chunk demo_detector (drop 4 (think_end_token demo_detector) @ ascii ''4'')"
    by (simp_all add: plain_chunk_def unfinished_token_def demo_tags) (simp_all add: contains_def think_def end_think_def ascii_def)
  show ?thesis using cut_end_tag_is_missed[OF demo_parser demo_tags(1,2) p]
    by (simp_all add: demo_tags) (simp_all add: contains_def think_def end_think_def ascii_def)
qed

text \<open>C37: Without \<open>stream_reasoning\<close> the start tag ends up in the reasoning.  The buffer keeps the tag while the
  reasoning accumulates, but it is stripped from the first chunk only, so the reasoning that is sent
  when the end tag arrives begins with the start tag; one-time parsing strips it.\<close>

theorem start_tag_leaks_when_not_streaming:
  assumes d: "reasoning_parser m False force None False = Inr d" "d_kind d = Plain"
    and first: "\<not> contains (think_end_token d) a" "\<And>t. tool_start_token d = Some t \<Longrightarrow> \<not> contains t a"
    and e: "\<not> contains (think_end_token d) (think_start_text d @ a @ b @ butlast (think_end_token d))"
    and s: "\<not> prefix (think_start_text d) (a @ b @ think_end_token d @ n)"
  shows "fst (stream_chunks [think_start_text d @ a, b @ think_end_token d @ n] d) = (think_start_text d @ a @ b, n) \<and>
    fst (parse_non_stream (think_start_text d @ a @ b @ think_end_token d @ n) d) = (a @ b, n)"
proof (rule conjI)
  note A = parser_apart[OF d]
  let ?s = "think_start_text d" and ?e = "think_end_token d"
  have f: "d_buffer d = []" "\<not> stripped_think_start d" using A(3)[OF refl] by (simp_all add: fresh_def)
  have t: "?s \<noteq> []" "?e \<noteq> []" "\<not> prefix ?s ?e" "\<And>t. tool_start_token d = Some t \<Longrightarrow> t \<noteq> [] \<and> \<not> prefix ?s t"
    using A(1) by (auto simp: tags_apart_def apart_def)
  have u: "\<not> unfinished_token d (?s @ x)" for x
    using t by (auto simp: unfinished_token_def split: option.split dest: append_prefixD)
  have fs: "find_sub ?s (?s @ x) = Some 0" for x using t(1) by (cases ?s) auto
  then have rep: "contains ?s (?s @ x)" "replace_once ?s [] (?s @ x) = x" for x
    by (simp_all add: contains_def replace_once_def split_once_def)
  have tool: "(case tool_start_token d of None \<Rightarrow> None | Some tool \<Rightarrow> if tool \<noteq> [] then find_sub tool a else None) = None"
    using first(2) by (auto simp: contains_def split: option.split)
  let ?d1 = "d\<lparr>d_buffer := ?s @ a, stripped_think_start := True, in_reasoning := True\<rparr>"
  have c1: "parse_streaming_increment (?s @ a) d = (Result [] [], ?d1)"
    using u[of a] f rep[of a] first(1) tool A(2) by (simp add: parse_streaming_increment_def Let_def split_once_None[THEN iffD2])
  have so: "split_once ?e (?s @ a @ b @ ?e @ n) = Some (?s @ a @ b, n)"
    using split_once_first[of ?e "?s @ a @ b" n] e t(2) by simp
  have "unfinished_token (d\<lparr>stripped_think_start := True, in_reasoning := True\<rparr>) = unfinished_token d"
    by (auto simp: unfinished_token_def think_start_text_def fun_eq_iff)
  then have "parse_streaming_increment (b @ ?e @ n) ?d1 = (Result n (?s @ a @ b), ?d1\<lparr>d_buffer := [], in_reasoning := False\<rparr>)"
    using u[of "a @ b @ ?e @ n"] so by (simp add: parse_streaming_increment_def Let_def)
  then show "fst (stream_chunks [?s @ a, b @ ?e @ n] d) = (?s @ a @ b, n)"
    using c1 d(2) by (simp add: parse_stream_chunk_def detector_increment_def Result_def)
  have "\<not> contains ?e ((a @ b) @ butlast ?e)" using e contains_append_right by fastforce
  from one_time_split[OF A(1) A(3)[OF refl], of 1 "a @ b" n] this s d(2)
  show "fst (parse_non_stream (?s @ a @ b @ ?e @ n) d) = (a @ b, n)" by (simp add: parse_non_stream_def detector_parse_def Result_def)
qed

lemma start_tag_leaks_witness:
  "fst (stream_chunks [think @ ascii ''2'', ascii ''+2'' @ end_think @ ascii ''4''] (demo_detector\<lparr>stream_reasoning := False\<rparr>)) = (think @ ascii ''2+2'', ascii ''4'') \<and>
   fst (parse_non_stream (think @ ascii ''2+2'' @ end_think @ ascii ''4'') (demo_detector\<lparr>stream_reasoning := False\<rparr>)) = (ascii ''2+2'', ascii ''4'')"
proof -
  let ?d = "demo_detector\<lparr>stream_reasoning := False\<rparr>"
  have d: "reasoning_parser (ascii ''DeepSeek-R1'') False None None False = Inr ?d" "d_kind ?d = Plain"
    by (simp_all add: reasoning_parser_def DetectorMap_def ascii_def lower_def detector_init_def detector_classes demo_detector_def Let_def base_detector_def)
  have t: "think_start_text ?d = think" "think_end_token ?d = end_think" "tool_start_token ?d = None"
    by (simp_all add: demo_detector_def base_detector_def think_start_text_def)
  have a: "ascii ''2+2'' = ascii ''2'' @ ascii ''+2''" by (simp add: ascii_def)
  have "\<not> contains end_think (ascii ''2'')" "\<not> contains end_think (think @ ascii ''2'' @ ascii ''+2'' @ butlast end_think)"
    "\<not> prefix think (ascii ''2'' @ ascii ''+2'' @ end_think @ ascii ''4'')"
    by (simp_all add: contains_def think_def end_think_def ascii_def)
  then show ?thesis using start_tag_leaks_when_not_streaming[OF d, of "ascii ''2''" "ascii ''+2''" "ascii ''4''"] unfolding t a by simp
qed

text \<open>C38: Which requests \<open>ReasoningParser\<close> refuses, and how: an unknown model type is a \<open>ValueError\<close>; for a known one
  the constructor raises a \<open>TypeError\<close> exactly when \<open>force_nonempty_content\<close> is asked of a model type other
  than \<open>nemotron_3\<close>, when a message is to be continued with \<open>glm45\<close>, or when the message to be continued has no
  content; every other request gets its detector.\<close>

theorem parser_refuses_exactly:
  "(reasoning_parser m stream force previous nonempty = Inl ValueError) = (lower m \<notin> fst ` set DetectorMap) \<and>
   (reasoning_parser m stream force previous nonempty = Inl TypeError) =
     (lower m \<in> fst ` set DetectorMap \<and>
       (nonempty \<and> lower m \<noteq> ascii ''nemotron_3'' \<or> previous \<noteq> None \<and> lower m = ascii ''glm45'' \<or> previous = Some Content_none))"
proof -
  have in_map: "map_of DetectorMap x = None \<longleftrightarrow> x \<notin> fst ` set DetectorMap" for x by (rule map_of_eq_None_iff)
  have kinds: "(c = Nemotron3Detector \<longleftrightarrow> x = ascii ''nemotron_3'') \<and> (c = Glm45Detector \<longleftrightarrow> x = ascii ''glm45'')"
    if "map_of DetectorMap x = Some c" for x c
    using that by (auto simp: DetectorMap_def ascii_def split: if_splits)
  have empty: "m \<noteq> []" if "map_of DetectorMap (lower m) = Some c" for c
    using that by (auto simp: DetectorMap_def ascii_def lower_def)
  show ?thesis
  proof (cases "map_of DetectorMap (lower m)")
    case None
    then have "lower m \<notin> fst ` set DetectorMap" using in_map by blast
    then show ?thesis unfolding reasoning_parser_def None by simp
  next
    case (Some c)
    then have i: "lower m \<in> fst ` set DetectorMap" using in_map by (metis option.distinct(1))
    have k: "c = Nemotron3Detector \<longleftrightarrow> lower m = ascii ''nemotron_3''" "c = Glm45Detector \<longleftrightarrow> lower m = ascii ''glm45''"
      using kinds[OF Some] by blast+
    show ?thesis using i empty[OF Some] unfolding reasoning_parser_def Some Let_def detector_init_def k option.case
      by (simp del: in_set_conv_nth)
  qed
qed

lemma parser_refuses_exactly_witness:
  "reasoning_parser (ascii ''Qwen3'') True None None True = Inl TypeError \<and>
   reasoning_parser (ascii ''nemotron_3'') True None (Some Content_none) False = Inl TypeError \<and>
   reasoning_parser (ascii ''gpt-4'') True None None False = Inl ValueError"
proof -
  have l: "lower (ascii ''Qwen3'') = ascii ''qwen3''" "lower (ascii ''nemotron_3'') = ascii ''nemotron_3''" "lower (ascii ''gpt-4'') = ascii ''gpt-4''"
    by (simp_all add: lower_def ascii_def)
  have m: "ascii ''qwen3'' \<in> fst ` set DetectorMap" "ascii ''nemotron_3'' \<in> fst ` set DetectorMap" "ascii ''gpt-4'' \<notin> fst ` set DetectorMap"
    "ascii ''qwen3'' \<noteq> ascii ''nemotron_3''" by (simp_all add: DetectorMap_def ascii_def)
  show ?thesis
    using parser_refuses_exactly[of "ascii ''Qwen3''" True None None True] parser_refuses_exactly[of "ascii ''nemotron_3''" True None "Some Content_none" False]
      parser_refuses_exactly[of "ascii ''gpt-4''" True None None False] m unfolding l by simp
qed

end
