(* ===== verification/ReqFinish.thy ===== *)
theory ReqFinish
  imports PrefillAdder PyText
begin

text \<open>
  When a request is finished (\<open>Req.update_finish_state\<close> and its checks in \<open>managers/schedule_batch.py\<close>).
  Parameters stand for code outside the repository: \<open>decode\<close> is \<open>tokenizer.decode\<close>, \<open>re_search\<close> is
  \<open>re.search\<close> as a predicate, and \<open>terminated\<close> tells whether the request has a grammar that is
  terminated.  Sets of token ids are lists in the order in which Python iterates over them.
\<close>

section \<open>The checks\<close>

definition finished :: "sched_req \<Rightarrow> bool" where
  "finished r \<longleftrightarrow> finished_reason r \<noteq> None"

definition output_ids_through_stop :: "sched_req \<Rightarrow> int list" where
  "output_ids_through_stop r = (case finished_len r of Some n \<Rightarrow> slice_to (output_ids r) n | None \<Rightarrow> output_ids r)"

definition tail_str :: "(int list \<Rightarrow> string) \<Rightarrow> sched_req \<Rightarrow> string" where
  "tail_str decode r =
     (if stop_strs r = [] \<and> stop_regex_strs r = [] then []
      else
        let max_len_tail_str = max (stop_str_max_len r + 1) (stop_regex_max_len r + 1);
            tail_len = min max_len_tail_str (int (length (output_ids r)))
        in decode (slice_from (output_ids r) (- tail_len)))"

definition matches_eos :: "sched_req \<Rightarrow> int \<Rightarrow> bool" where
  "matches_eos r token_id \<longleftrightarrow> token_id \<in> set (stop_token_ids r) \<or> token_id \<in> set (eos_token_ids r) \<or>
     (case tokenizer r of None \<Rightarrow> False | Some (eos, additional) \<Rightarrow> token_id = eos \<or> token_id \<in> set additional)"

definition check_match_stop_str_prefix :: "(int list \<Rightarrow> string) \<Rightarrow> sched_req \<Rightarrow> bool" where
  "check_match_stop_str_prefix decode r =
     (if stop_strs r = [] then False
      else
        let tail = tail_str decode r
        in if tail = [] then False
           else List.list_ex
             (\<lambda>s. s \<noteq> [] \<and> (contains s tail \<or>
                list_ex (\<lambda>i. slice_from tail (- int i) = slice_to s (int i)) [1..<min (length tail) (length s) + 1]))
             (stop_strs r))"

text \<open>The loops over the new tokens, from index \<open>i\<close> on.\<close>

fun token_finish_loop :: "nat \<Rightarrow> nat \<Rightarrow> int list \<Rightarrow> sched_req \<Rightarrow> sched_req \<times> bool" where
  "token_finish_loop n i [] r = (r, False)"
| "token_finish_loop n i (t # ts) r =
     (if matches_eos r t
      then (r\<lparr>finished_reason := Some (FINISH_MATCHED_TOKEN t),
              finished_len := Some (int (length (output_ids r)) - int n + int i + 1)\<rparr>, True)
      else token_finish_loop n (i + 1) ts r)"

definition check_token_based_finish :: "sched_req \<Rightarrow> int list \<Rightarrow> sched_req \<times> bool" where
  "check_token_based_finish r new = (if ignore_eos r then (r, False) else token_finish_loop (length new) 0 new r)"

definition check_str_based_finish :: "(int list \<Rightarrow> string) \<Rightarrow> (string \<Rightarrow> string \<Rightarrow> bool) \<Rightarrow> sched_req \<Rightarrow> sched_req \<times> bool" where
  "check_str_based_finish decode re_search r =
     (if stop_strs r = [] \<and> stop_regex_strs r = [] then (r, False)
      else
        let tail = tail_str decode r
        in case List.find (\<lambda>s. contains s tail \<or> contains s (decoded_text r)) (stop_strs r) of
             Some s \<Rightarrow> (r\<lparr>finished_reason := Some (FINISH_MATCHED_STR s)\<rparr>, True)
           | None \<Rightarrow>
               (case List.find (\<lambda>s. re_search s tail) (stop_regex_strs r) of
                  Some s \<Rightarrow> (r\<lparr>finished_reason := Some (FINISHED_MATCHED_REGEX s)\<rparr>, True)
                | None \<Rightarrow> (r, False)))"

fun vocab_finish_loop :: "nat \<Rightarrow> nat \<Rightarrow> int list \<Rightarrow> sched_req \<Rightarrow> sched_req \<times> bool" where
  "vocab_finish_loop n i [] r = (r, False)"
| "vocab_finish_loop n i (t # ts) r =
     (if t > vocab_size r \<or> t < 0 then
        let offset = length (output_ids r) - n + i;
            r = (if stop_token_ids r \<noteq> [] then r\<lparr>output_ids := (output_ids r)[offset := hd (stop_token_ids r)]\<rparr> else r);
            r = (if eos_token_ids r \<noteq> [] then r\<lparr>output_ids := (output_ids r)[offset := hd (eos_token_ids r)]\<rparr> else r)
        in (r\<lparr>finished_reason := Some (FINISH_MATCHED_STR ''NaN happened''), finished_len := Some (int offset + 1)\<rparr>, True)
      else vocab_finish_loop n (i + 1) ts r)"

definition check_vocab_boundary_finish :: "sched_req \<Rightarrow> int list \<Rightarrow> sched_req \<times> bool" where
  "check_vocab_boundary_finish r new = vocab_finish_loop (length new) 0 new r"

definition update_finish_state ::
  "(int list \<Rightarrow> string) \<Rightarrow> (string \<Rightarrow> string \<Rightarrow> bool) \<Rightarrow> (sched_req \<Rightarrow> bool) \<Rightarrow> int \<Rightarrow> sched_req \<Rightarrow> sched_req" where
  "update_finish_state decode re_search terminated new_accepted_len r =
     (if finished r then r
      else if to_finish r \<noteq> None then r\<lparr>finished_reason := to_finish r, to_finish := None\<rparr>
      else if int (length (output_ids r)) \<ge> max_new_tokens r
      then r\<lparr>finished_reason := Some (FINISH_LENGTH (max_new_tokens r)), finished_len := Some (max_new_tokens r)\<rparr>
      else if terminated r then r\<lparr>finished_reason := Some (FINISH_MATCHED_TOKEN (List.last (output_ids r)))\<rparr>
      else
        let new = slice_from (output_ids r) (- new_accepted_len)
        in case check_token_based_finish r new of (r, True) \<Rightarrow> r
           | (r, False) \<Rightarrow>
               (case check_vocab_boundary_finish r new of (r, True) \<Rightarrow> r
                | (r, False) \<Rightarrow> fst (check_str_based_finish decode re_search r)))"

section \<open>What the update changes\<close>

text \<open>The update of one accepted token: everything but the finish state and the last output token is kept.\<close>

definition finish_frame :: "sched_req \<Rightarrow> sched_req \<Rightarrow> bool" where
  "finish_frame r r' \<longleftrightarrow> (\<exists>fr fl tf out. r' = r\<lparr>finished_reason := fr, finished_len := fl, to_finish := tf, output_ids := out\<rparr> \<and>
     length out = length (output_ids r) \<and> butlast out = butlast (output_ids r) \<and> (fr = None \<longrightarrow> out = output_ids r \<and> fl = finished_len r \<and> tf = to_finish r))"

lemma finish_frameI:
  assumes "r' = r\<lparr>finished_reason := fr, finished_len := fl, to_finish := tf, output_ids := out\<rparr>" and
    "length out = length (output_ids r)" and "butlast out = butlast (output_ids r)" and
    "fr = None \<longrightarrow> out = output_ids r \<and> fl = finished_len r \<and> tf = to_finish r"
  shows "finish_frame r r'"
  using assms unfolding finish_frame_def by blast

lemma new_token:
  assumes "output_ids r = out @ [t]"
  shows "slice_from (output_ids r) (- 1) = [t]"
  using assms by (simp add: slice_from_def py_bound_def)

lemma one_token_update:
  assumes o: "output_ids r = out @ [t]"
  shows "finish_frame r (update_finish_state decode re_search terminated 1 r)"
    and "\<not> finished (update_finish_state decode re_search terminated 1 r) \<Longrightarrow>
      int (length (output_ids r)) < max_new_tokens r \<and> to_finish r = None \<and> (ignore_eos r \<or> \<not> matches_eos r t) \<and>
      update_finish_state decode re_search terminated 1 r = r"
proof -
  let ?r' = "update_finish_state decode re_search terminated 1 r"
  consider (done0) "finished r" | (abort) "\<not> finished r" "to_finish r \<noteq> None"
    | (len) "\<not> finished r" "to_finish r = None" "int (length (output_ids r)) \<ge> max_new_tokens r"
    | (gram) "\<not> finished r" "to_finish r = None" "\<not> int (length (output_ids r)) \<ge> max_new_tokens r" "terminated r"
    | (checks) "\<not> finished r" "to_finish r = None" "\<not> int (length (output_ids r)) \<ge> max_new_tokens r" "\<not> terminated r" by blast
  then have "finish_frame r ?r' \<and> (\<not> finished ?r' \<longrightarrow> int (length (output_ids r)) < max_new_tokens r \<and> to_finish r = None \<and>
      (ignore_eos r \<or> \<not> matches_eos r t) \<and> ?r' = r)"
  proof cases
    case done0
    then show ?thesis by (auto simp: update_finish_state_def finished_def intro!: finish_frameI[where fr = "finished_reason r" and fl = "finished_len r" and tf = "to_finish r" and out = "output_ids r"])
  next
    case abort
    then show ?thesis by (auto simp: update_finish_state_def finished_def intro!: finish_frameI[where fr = "to_finish r" and fl = "finished_len r" and tf = None and out = "output_ids r"])
  next
    case len
    then show ?thesis by (auto simp: update_finish_state_def finished_def
        intro!: finish_frameI[where fr = "Some (FINISH_LENGTH (max_new_tokens r))" and fl = "Some (max_new_tokens r)" and tf = "to_finish r" and out = "output_ids r"])
  next
    case gram
    then show ?thesis by (auto simp: update_finish_state_def finished_def
        intro!: finish_frameI[where fr = "Some (FINISH_MATCHED_TOKEN (List.last (output_ids r)))" and fl = "finished_len r" and tf = "to_finish r" and out = "output_ids r"])
  next
    case checks
    note n = new_token[OF o]
    have u: "?r' = (case check_token_based_finish r [t] of (r, True) \<Rightarrow> r
           | (r, False) \<Rightarrow> (case check_vocab_boundary_finish r [t] of (r, True) \<Rightarrow> r
                | (r, False) \<Rightarrow> fst (check_str_based_finish decode re_search r)))"
      using checks by (simp add: update_finish_state_def n Let_def)
    show ?thesis
    proof (cases "\<not> ignore_eos r \<and> matches_eos r t")
      case True
      then have "?r' = r\<lparr>finished_reason := Some (FINISH_MATCHED_TOKEN t), finished_len := Some (int (length (output_ids r)))\<rparr>"
        unfolding u by (simp add: check_token_based_finish_def)
      then show ?thesis by (auto simp: finished_def
        intro!: finish_frameI[where fr = "Some (FINISH_MATCHED_TOKEN t)" and fl = "Some (int (length (output_ids r)))" and tf = "to_finish r" and out = "output_ids r"])
    next
      case False
      then have tk: "check_token_based_finish r [t] = (r, False)" by (auto simp: check_token_based_finish_def)
      show ?thesis
      proof (cases "t > vocab_size r \<or> t < 0")
        case True
        let ?f = "(if eos_token_ids r \<noteq> [] then hd (eos_token_ids r) else if stop_token_ids r \<noteq> [] then hd (stop_token_ids r) else t)"
        have "?r' = r\<lparr>finished_reason := Some (FINISH_MATCHED_STR ''NaN happened''), finished_len := Some (int (length out) + 1), output_ids := out @ [?f]\<rparr>"
          unfolding u tk using True o by (auto simp: check_vocab_boundary_finish_def Let_def)
        then show ?thesis using o by (auto simp: finished_def
          intro!: finish_frameI[where fr = "Some (FINISH_MATCHED_STR ''NaN happened'')" and fl = "Some (int (length out) + 1)" and tf = "to_finish r" and out = "out @ [?f]"])
      next
        case nv: False
        then have "?r' = fst (check_str_based_finish decode re_search r)"
          unfolding u tk by (simp add: check_vocab_boundary_finish_def)
        moreover have "check_str_based_finish decode re_search r = (r, False) \<or>
          (\<exists>f. check_str_based_finish decode re_search r = (r\<lparr>finished_reason := Some f\<rparr>, True))"
          by (auto simp: check_str_based_finish_def Let_def split: option.split)
        ultimately have "?r' = r \<or> (\<exists>f. ?r' = r\<lparr>finished_reason := Some f\<rparr>)" by auto
        then show ?thesis
        proof (elim disjE exE)
          assume "?r' = r"
          then show ?thesis using checks False
            by (auto intro!: finish_frameI[where fr = "finished_reason r" and fl = "finished_len r" and tf = "to_finish r" and out = "output_ids r"])
        next
          fix f assume "?r' = r\<lparr>finished_reason := Some f\<rparr>"
          then show ?thesis by (auto simp: finished_def intro!: finish_frameI[where fr = "Some f" and fl = "finished_len r" and tf = "to_finish r" and out = "output_ids r"])
        qed
      qed
    qed
  qed
  then show "finish_frame r ?r'" "\<not> finished ?r' \<Longrightarrow> int (length (output_ids r)) < max_new_tokens r \<and> to_finish r = None \<and>
      (ignore_eos r \<or> \<not> matches_eos r t) \<and> ?r' = r" by blast+
qed

lemma finish_frame_fields:
  assumes "finish_frame r r'"
  shows "req_pool_idx r' = req_pool_idx r" "origin_input_ids r' = origin_input_ids r" "fill_ids r' = fill_ids r"
    "last_node r' = last_node r" "cache_protected_len r' = cache_protected_len r" "kv_committed_len r' = kv_committed_len r"
    "kv_allocated_len r' = kv_allocated_len r" "kv_committed_freed r' = kv_committed_freed r"
    "kv_overallocated_freed r' = kv_overallocated_freed r" "max_new_tokens r' = max_new_tokens r" "ignore_eos r' = ignore_eos r"
    "req_extra_key r' = req_extra_key r" "inflight_middle_chunks r' = inflight_middle_chunks r" "prefix_indices r' = prefix_indices r"
    "length (output_ids r') = length (output_ids r)" "butlast (output_ids r') = butlast (output_ids r)" "rid r' = rid r"
    "skip_radix_cache_insert r' = skip_radix_cache_insert r" "req_priority r' = req_priority r" "matches_eos r' = matches_eos r"
  using assms by (auto simp: finish_frame_def matches_eos_def fun_eq_iff)

section \<open>Text that is held back\<close>

lemma overlap_iff:
  fixes s tail :: "'a list"
  shows "(contains s tail \<or> list_ex (\<lambda>i. slice_from tail (- int i) = slice_to s (int i)) [1..<min (length tail) (length s) + 1])
    \<longleftrightarrow> (\<exists>before rest more. tail = before @ rest \<and> (rest \<noteq> [] \<or> s = []) \<and> prefix s (rest @ more))" (is "?l \<longleftrightarrow> ?r")
proof
  assume ?l
  then show ?r
  proof
    assume "contains s tail"
    then obtain a b where "tail = a @ s @ b" by (auto simp: contains_iff)
    then show ?r by (intro exI[of _ a] exI[of _ "s @ b"] exI[of _ "[]"]) auto
  next
    assume "list_ex (\<lambda>i. slice_from tail (- int i) = slice_to s (int i)) [1..<min (length tail) (length s) + 1]"
    then obtain i where m: "i \<in> set [1..<min (length tail) (length s) + 1]" "slice_from tail (- int i) = slice_to s (int i)"
      unfolding list_ex_iff by blast
    then have i: "1 \<le> i" "i \<le> length tail" "i \<le> length s" "slice_from tail (- int i) = slice_to s (int i)"
      using m(1) m(2) by (simp_all only: set_upt atLeastLessThan_iff) linarith+
    then have e: "drop (length tail - i) tail = take i s"
      by (simp add: slice_from_def slice_to_def py_bound_def nat_diff_distrib)
    have "tail = take (length tail - i) tail @ take i s" unfolding e[symmetric] by simp
    moreover have "take i s \<noteq> []" using i by auto
    moreover have "prefix s (take i s @ drop i s)" by simp
    ultimately show ?r by blast
  qed
next
  assume ?r
  then obtain a r m where t: "tail = a @ r" "r \<noteq> [] \<or> s = []" "prefix s (r @ m)" by blast
  show ?l
  proof (cases "prefix s r")
    case True
    then show ?l unfolding contains_iff t(1) by (auto simp: prefix_def)
  next
    case False
    with t(3) have "prefix r s" by (auto simp: prefix_append)
    then obtain z where z: "s = r @ z" by (auto simp: prefix_def)
    have "r \<noteq> []" using t(2) z False by auto
    then have "slice_from tail (- int (length r)) = slice_to s (int (length r))" "length r \<in> set [1..<min (length tail) (length s) + 1]"
      unfolding z t(1) by (auto simp: slice_from_def slice_to_def py_bound_def Suc_le_eq)
    then show ?l by (auto simp: list_ex_iff)
  qed
qed

text \<open>C40: Text is held back from the stream exactly when it may be part of a stop string: some occurrence
  of a non-empty stop string begins in the decoded tail, complete or to be completed by later text.\<close>

theorem hold_back_exact:
  "check_match_stop_str_prefix decode r \<longleftrightarrow>
   (\<exists>s before rest more. s \<in> set (stop_strs r) \<and> s \<noteq> [] \<and> tail_str decode r = before @ rest \<and> rest \<noteq> [] \<and> prefix s (rest @ more))"
proof -
  have "check_match_stop_str_prefix decode r \<longleftrightarrow> tail_str decode r \<noteq> [] \<and> (\<exists>s \<in> set (stop_strs r). s \<noteq> [] \<and>
      (contains s (tail_str decode r) \<or> list_ex (\<lambda>i. slice_from (tail_str decode r) (- int i) = slice_to s (int i))
         [1..<min (length (tail_str decode r)) (length s) + 1]))"
    by (cases "stop_strs r = []") (simp_all only: check_match_stop_str_prefix_def Let_def list_ex_iff if_True if_False, auto)
  then show ?thesis unfolding overlap_iff by auto
qed

section \<open>A request finishes\<close>

text \<open>A forward pass of an unfinished request: the sampled token is appended and the finish state updated.\<close>

definition accept_token ::
  "(int list \<Rightarrow> string) \<Rightarrow> (string \<Rightarrow> string \<Rightarrow> bool) \<Rightarrow> (sched_req \<Rightarrow> bool) \<Rightarrow> int \<Rightarrow> sched_req \<Rightarrow> sched_req" where
  "accept_token decode re_search terminated t r =
     update_finish_state decode re_search terminated 1 (r\<lparr>output_ids := output_ids r @ [t]\<rparr>)"

fun generate ::
  "(int list \<Rightarrow> string) \<Rightarrow> (string \<Rightarrow> string \<Rightarrow> bool) \<Rightarrow> (sched_req \<Rightarrow> bool) \<Rightarrow> int list \<Rightarrow> sched_req \<Rightarrow> sched_req" where
  "generate decode re_search terminated [] r = r"
| "generate decode re_search terminated (t # ts) r =
     (if finished r then r else generate decode re_search terminated ts (accept_token decode re_search terminated t r))"

lemma accept_token_ok:
  fixes decode re_search terminated t r
  defines "r' \<equiv> accept_token decode re_search terminated t r"
  shows "finish_frame (r\<lparr>output_ids := output_ids r @ [t]\<rparr>) r'"
    and "\<not> finished r' \<Longrightarrow> r' = r\<lparr>output_ids := output_ids r @ [t]\<rparr> \<and> int (length (output_ids r)) + 1 < max_new_tokens r \<and>
      to_finish r = None \<and> (ignore_eos r \<or> \<not> matches_eos r t)"
proof -
  let ?r = "r\<lparr>output_ids := output_ids r @ [t]\<rparr>"
  have o: "output_ids ?r = output_ids r @ [t]" by simp
  have m: "matches_eos ?r = matches_eos r" by (simp add: matches_eos_def fun_eq_iff)
  show "finish_frame ?r r'" unfolding r'_def accept_token_def by (rule one_token_update(1)[OF o])
  show "\<not> finished r' \<Longrightarrow> r' = ?r \<and> int (length (output_ids r)) + 1 < max_new_tokens r \<and>
      to_finish r = None \<and> (ignore_eos r \<or> \<not> matches_eos r t)"
    using one_token_update(2)[OF o, of decode re_search terminated] unfolding r'_def accept_token_def m by auto
qed

text \<open>C39: Generation ends: whatever tokens the model samples, a request without output that gets at least
  \<open>max_new_tokens\<close> tokens (and at least one) finishes, after at most that many; its output is the sampled
  tokens in order but perhaps the last one, which is replaced when it is out of the vocabulary, and no
  token before the last one is a stop token unless the request ignores the end of sequence.\<close>

theorem generation_ends:
  fixes decode re_search terminated tokens r
  assumes "output_ids r = []" and "\<not> finished r" and "max 1 (max_new_tokens r) \<le> int (length tokens)"
  defines "r' \<equiv> generate decode re_search terminated tokens r"
  shows "finished r' \<and> 1 \<le> length (output_ids r') \<and> int (length (output_ids r')) \<le> max 1 (max_new_tokens r) \<and>
    butlast (output_ids r') = take (length (output_ids r') - 1) tokens \<and>
    (\<forall>t \<in> set (butlast (output_ids r')). ignore_eos r \<or> \<not> matches_eos r t)"
proof -
  have "finished (generate decode re_search terminated ts q) \<and>
      length (output_ids q) < length (output_ids (generate decode re_search terminated ts q)) \<and>
      int (length (output_ids (generate decode re_search terminated ts q))) \<le> max (int (length (output_ids q)) + 1) (max_new_tokens q) \<and>
      butlast (output_ids (generate decode re_search terminated ts q)) =
        take (length (output_ids (generate decode re_search terminated ts q)) - 1) (output_ids q @ ts) \<and>
      (\<forall>t \<in> set (butlast (output_ids (generate decode re_search terminated ts q))). ignore_eos q \<or> \<not> matches_eos q t)"
    if "\<not> finished q" "max 1 (max_new_tokens q - int (length (output_ids q))) \<le> int (length ts)"
      "\<forall>t \<in> set (output_ids q). ignore_eos q \<or> \<not> matches_eos q t" for q ts
    using that
  proof (induction ts arbitrary: q)
    case (Cons t ts)
    let ?q = "accept_token decode re_search terminated t q"
    note A = accept_token_ok[where decode = decode and re_search = re_search and terminated = terminated and t = t and r = q]
    have g: "generate decode re_search terminated (t # ts) q = generate decode re_search terminated ts ?q" using Cons.prems(1) by simp
    show ?case
    proof (cases "finished ?q")
      case True
      then have "generate decode re_search terminated ts ?q = ?q" by (cases ts) auto
      moreover note finish_frame_fields[OF A(1)]
      ultimately show ?thesis unfolding g using True Cons.prems(3) by (simp add: butlast_append)
    next
      case False
      from A(2)[OF this] have q: "?q = q\<lparr>output_ids := output_ids q @ [t]\<rparr>" "int (length (output_ids q)) + 1 < max_new_tokens q"
        "ignore_eos q \<or> \<not> matches_eos q t" by blast+
      have f: "output_ids ?q = output_ids q @ [t]" "max_new_tokens ?q = max_new_tokens q" "ignore_eos ?q = ignore_eos q"
        "matches_eos ?q = matches_eos q" unfolding q(1) by (simp_all add: matches_eos_def fun_eq_iff)
      have "max 1 (max_new_tokens ?q - int (length (output_ids ?q))) \<le> int (length ts)" using Cons.prems(2) q(2) by (simp add: f)
      moreover have "\<forall>t \<in> set (output_ids ?q). ignore_eos ?q \<or> \<not> matches_eos ?q t" using Cons.prems(3) q(3) by (auto simp: f)
      ultimately show ?thesis using Cons.IH[OF False] q(2) unfolding g f by auto
    qed
  qed simp
  from this[OF assms(2), of tokens] assms(1,3) show ?thesis unfolding r'_def
    by (cases "output_ids (generate decode re_search terminated tokens r)") auto
qed

lemma generation_ends_witness:
  "finished (generate (\<lambda>_. ''x'') (\<lambda>_ _. False) (\<lambda>_. False) [7, 8] (demo_waiting\<lparr>max_new_tokens := 2\<rparr>)) \<and>
   int (length (output_ids (generate (\<lambda>_. ''x'') (\<lambda>_ _. False) (\<lambda>_. False) [7, 8] (demo_waiting\<lparr>max_new_tokens := 2\<rparr>)))) \<le> 2"
proof -
  have "output_ids (demo_waiting\<lparr>max_new_tokens := 2\<rparr>) = []" "\<not> finished (demo_waiting\<lparr>max_new_tokens := 2\<rparr>)"
    by (simp_all add: demo_waiting_def demo_req_def request.defs finished_def)
  from generation_ends[OF this, of "[7, 8]" "\<lambda>_. ''x''" "\<lambda>_ _. False" "\<lambda>_. False"] show ?thesis by simp
qed

end
