(* ===== verification/FreeGroup.thy ===== *)
theory FreeGroup
  imports Serving
begin

text \<open>
  Releasing requests inside a free group (\<open>free_group_begin\<close>, \<open>free_group_end\<close> of \<open>allocator/base.py\<close>, used
  by \<open>BatchResultProcessor.process_batch_result_decode\<close>).  Operations on the tree do not look at the
  allocator; so a release inside a group does to the tree what it does outside, and the slots it
  frees wait in the group.  \<open>settled c\<close> is the cache with those slots freed.
\<close>

section \<open>Operations that ignore the allocator\<close>

definition with_alloc :: "allocator \<Rightarrow> radix_cache \<Rightarrow> radix_cache" where
  "with_alloc a c = c\<lparr>rc_alloc := a\<rparr>"

lemma with_alloc_fields [simp]:
  "rc_disable (with_alloc a c) = rc_disable c" "rc_page_size (with_alloc a c) = rc_page_size c"
  "rc_is_eagle (with_alloc a c) = rc_is_eagle c" "disable_finished_insert (with_alloc a c) = disable_finished_insert c"
  "enable_kv_cache_events (with_alloc a c) = enable_kv_cache_events c" "eviction_policy (with_alloc a c) = eviction_policy c"
  "kv_event_queue (with_alloc a c) = kv_event_queue c" "heap (with_alloc a c) = heap c" "root_node (with_alloc a c) = root_node c"
  "node_counter (with_alloc a c) = node_counter c" "rc_times (with_alloc a c) = rc_times c" "rc_reads (with_alloc a c) = rc_reads c"
  "rc_sha256 (with_alloc a c) = rc_sha256 c" "evictable_size (with_alloc a c) = evictable_size c"
  "protected_size (with_alloc a c) = protected_size c" "evictable_leaves (with_alloc a c) = evictable_leaves c"
  "rc_pool (with_alloc a c) = rc_pool c" "rc_strip_thinking (with_alloc a c) = rc_strip_thinking c" "rc_alloc (with_alloc a c) = a"
  by (simp_all add: with_alloc_def)

lemma with_alloc_updates [simp]:
  "(with_alloc a c)\<lparr>heap := h\<rparr> = with_alloc a (c\<lparr>heap := h\<rparr>)"
  "(with_alloc a c)\<lparr>kv_event_queue := q\<rparr> = with_alloc a (c\<lparr>kv_event_queue := q\<rparr>)"
  "(with_alloc a c)\<lparr>evictable_leaves := l\<rparr> = with_alloc a (c\<lparr>evictable_leaves := l\<rparr>)"
  "(with_alloc a c)\<lparr>evictable_size := e\<rparr> = with_alloc a (c\<lparr>evictable_size := e\<rparr>)"
  "(with_alloc a c)\<lparr>protected_size := p\<rparr> = with_alloc a (c\<lparr>protected_size := p\<rparr>)"
  "(with_alloc a c)\<lparr>rc_reads := n\<rparr> = with_alloc a (c\<lparr>rc_reads := n\<rparr>)"
  "(with_alloc a c)\<lparr>rc_pool := q'\<rparr> = with_alloc a (c\<lparr>rc_pool := q'\<rparr>)"
  "(with_alloc a c)\<lparr>node_counter := n'\<rparr> = with_alloc a (c\<lparr>node_counter := n'\<rparr>)"
  "(with_alloc a c)\<lparr>rc_alloc := b\<rparr> = with_alloc b c"
  "with_alloc b (with_alloc a c) = with_alloc b c" "with_alloc (rc_alloc c) c = c"
  by (simp_all add: with_alloc_def)

lemma upd_node_alloc [simp]: "upd_node n f (with_alloc a c) = with_alloc a (upd_node n f c)"
  by (simp add: upd_node_def)

lemma iterate_commute:
  assumes "\<And>s. step (f s) = map_option (map_sum g f) (step s)"
    and "iterate step s = Some r"
  shows "iterate step (f s) = Some (g r)"
proof -
  have "step = step \<longrightarrow> iterate step (f s) = Some (g r)"
  proof (rule iterate.raw_induct[where P = "\<lambda>st s r. st = step \<longrightarrow> iterate step (f s) = Some (g r)", OF _ assms(2)], intro impI)
    fix it st t q
    assume "\<And>s b y. it s b = Some y \<Longrightarrow> s = step \<longrightarrow> iterate step (f b) = Some (g y)" and "st = step"
      and "(case st t of None \<Rightarrow> None | Some (Inl r) \<Rightarrow> Some r | Some (Inr s') \<Rightarrow> it st s') = Some q"
    then show "iterate step (f t) = Some (g q)"
      by (subst iterate.simps) (auto simp: assms(1) split: option.splits sum.splits)
  qed
  then show ?thesis by simp
qed

lemma tree_node_init_alloc [simp]:
  "tree_node_init prio (with_alloc a c) = map_prod id (with_alloc a) (tree_node_init prio c)"
  by (simp add: tree_node_init_def monotonic_def Let_def)

lemma update_leaf_status_alloc [simp]:
  "update_leaf_status n (with_alloc a c) = map_option (with_alloc a) (update_leaf_status n c)"
  by (simp add: update_leaf_status_def discard_leaf_def split: option.split)

lemma split_node_alloc [simp]:
  "split_node key child k (with_alloc a c) = map_option (map_prod id (with_alloc a)) (split_node key child k c)"
proof (cases "heap c child = None \<or> child_key (rk_from key k) (rc_page_size c) = None \<or> child_key key (rc_page_size c) = None")
  case True
  then show ?thesis by (auto simp: split_node_def Let_def split: option.split)
next
  case False
  then obtain cd r1 r2 where s: "heap c child = Some cd" "child_key (rk_from key k) (rc_page_size c) = Some r1"
    "child_key key (rc_page_size c) = Some r2" by auto
  show ?thesis
  proof (cases "node_value cd = None \<or> parent cd = None")
    case True
    then show ?thesis using s by (cases "node_value cd") (auto simp: split_node_def Let_def)
  next
    case False
    then obtain v p where "node_value cd = Some v" "parent cd = Some p" by auto
    then show ?thesis using s by (simp add: split_node_def Let_def case_prod_unfold)
  qed
qed

lemma compute_hash_alloc [simp]: "compute_node_hash_values (with_alloc a c) nd = compute_node_hash_values c nd"
  by (simp add: compute_node_hash_values_def cong del: option.case_cong_weak)

lemma ensure_hash_alloc: "ensure_hash (with_alloc a c) n = map_option (map_prod (with_alloc a) id) (ensure_hash c n)"
  by (simp add: ensure_hash_def split: option.split)

lemma record_store_event_alloc [simp]:
  "record_store_event n (with_alloc a c) = map_option (with_alloc a) (record_store_event n c)"
proof (cases "ensure_hash c n")
  case None
  then show ?thesis by (simp add: record_store_event_def ensure_hash_alloc)
next
  case (Some x)
  obtain c1 nd hs where x: "x = (c1, nd, hs)" by (cases x)
  show ?thesis unfolding record_store_event_def ensure_hash_alloc Some x
    by (simp add: Let_def option.map_comp comp_def cong del: option.case_cong_weak if_weak_cong)
qed

definition insert_alloc :: "allocator \<Rightarrow> insert_state \<Rightarrow> insert_state" where
  "insert_alloc a = (\<lambda>(c, rest). (with_alloc a c, rest))"

lemma insert_step_alloc:
  "insert_step t p ch (insert_alloc a s) = map_option (map_sum (insert_alloc a) (insert_alloc a)) (insert_step t p ch s)"
proof -
  obtain c node key v ck n where s: "s = (c, node, key, v, ck, n)" by (cases s)
  show ?thesis unfolding s
    by (simp add: insert_alloc_def Let_def split: option.split prod.split)
qed

lemma monotonic_alloc [simp]: "monotonic (with_alloc a c) = map_prod id (with_alloc a) (monotonic c)"
  by (simp add: monotonic_def)

lemma add_leaf_alloc [simp]:
  "add_leaf node key v ck prio ch (with_alloc a c) = map_option (with_alloc a) (add_leaf node key v ck prio ch c)"
  by (simp add: add_leaf_def Let_def case_prod_unfold split: option.split)

lemma insert_helper_alloc:
  assumes "insert_helper node key v prio ch c = Some (k, c')"
  shows "insert_helper node key v prio ch (with_alloc a c) = Some (k, with_alloc a c')"
proof -
  obtain t c0 where m: "monotonic c = (t, c0)" by fastforce
  let ?prio = "case prio of None \<Rightarrow> 0 | Some p \<Rightarrow> p"
  let ?c = "upd_node node (\<lambda>nd. raise_priority ?prio (nd\<lparr>last_access_time := t\<rparr>)) c0"
  show ?thesis
  proof (cases "rk_len key = 0")
    case True
    then show ?thesis using assms by (simp add: insert_helper_def m Let_def)
  next
    case False
    then obtain ck s where s: "child_key key (rc_page_size c0) = Some ck"
      "iterate (insert_step t ?prio ch) (?c, node, key, v, ck, 0) = Some s"
      using assms unfolding insert_helper_def m Let_def by (auto simp: upd_node_def split: option.splits)
    obtain c1 n1 k1 v1 ck1 m1 where s1: "s = (c1, n1, k1, v1, ck1, m1)" by (cases s)
    from iterate_commute[OF insert_step_alloc s(2), of a]
    have "iterate (insert_step t ?prio ch) (with_alloc a ?c, node, key, v, ck, 0) = Some (with_alloc a c1, n1, k1, v1, ck1, m1)"
      by (simp add: insert_alloc_def s1)
    then show ?thesis using assms False s(1) s(2)[unfolded s1] unfolding insert_helper_def monotonic_alloc m Let_def
      by (auto simp: upd_node_def[of _ _ c0] split: if_splits)
  qed
qed

lemma radix_insert_alloc:
  assumes "radix_insert key v prio ch c = Some (k, c')"
  shows "radix_insert key v prio ch (with_alloc a c) = Some (k, with_alloc a c')"
  using assms insert_helper_alloc by (auto simp: radix_insert_def Let_def case_prod_unfold split: if_splits)

definition lock_alloc :: "allocator \<Rightarrow> radix_cache \<times> nid option \<times> int \<Rightarrow> radix_cache \<times> nid option \<times> int" where
  "lock_alloc a = (\<lambda>(c, rest). (with_alloc a c, rest))"

lemma dec_lock_step_alloc:
  "dec_lock_step (lock_alloc a s) = map_option (map_sum (map_prod id (with_alloc a)) (lock_alloc a)) (dec_lock_step s)"
proof -
  obtain c node d where s: "s = (c, node, d)" by (cases s)
  show ?thesis
  proof (cases "node = Some (root_node c) \<or> node = None \<or> heap c (the node) = None")
    case True
    then show ?thesis unfolding s by (cases node) (auto simp: lock_alloc_def)
  next
    case False
    then obtain n nd where n: "node = Some n" "n \<noteq> root_node c" "heap c n = Some nd" by (cases node) auto
    define x where "x = (if lock_ref nd = 1
      then (c\<lparr>evictable_size := evictable_size c + int (rk_len (node_key nd)), protected_size := protected_size c - int (rk_len (node_key nd))\<rparr>,
            d + int (rk_len (node_key nd))) else (c, d))"
    define y where "y = update_leaf_status n (upd_node n (\<lambda>nd. nd\<lparr>lock_ref := lock_ref nd - 1\<rparr>) (fst x))"
    have "dec_lock_step s = (case y of None \<Rightarrow> None | Some c \<Rightarrow>
        if parent nd = None \<and> n \<noteq> root_node c then None else Some (Inr (c, parent nd, snd x)))"
      unfolding s y_def using n by (cases "lock_ref nd = 1") (simp_all add: x_def Let_def cong del: option.case_cong_weak if_weak_cong)
    moreover have "dec_lock_step (lock_alloc a s) = (case map_option (with_alloc a) y of None \<Rightarrow> None | Some c \<Rightarrow>
        if parent nd = None \<and> n \<noteq> root_node c then None else Some (Inr (c, parent nd, snd x)))"
      unfolding s y_def using n by (cases "lock_ref nd = 1") (simp_all add: x_def lock_alloc_def Let_def cong del: option.case_cong_weak if_weak_cong)
    ultimately show ?thesis by (cases y; cases "parent nd") (auto simp: lock_alloc_def)
  qed
qed

lemma dec_lock_alloc:
  assumes "dec_lock_ref n c = Some (d, c')"
  shows "dec_lock_ref n (with_alloc a c) = Some (d, with_alloc a c')"
proof (cases "rc_disable c")
  case False
  then have "iterate dec_lock_step (c, Some n, 0) = Some (d, c')" using assms by (simp add: dec_lock_ref_def)
  from iterate_commute[OF dec_lock_step_alloc this, of a] show ?thesis using False by (simp add: dec_lock_ref_def lock_alloc_def)
qed (use assms in \<open>simp add: dec_lock_ref_def\<close>)

section \<open>Frees that wait\<close>

definition settle :: "allocator \<Rightarrow> allocator" where
  "settle a = token_free (a\<lparr>is_not_in_free_group := True, free_group := []\<rparr>) (concat (free_group a))"

definition settled :: "radix_cache \<Rightarrow> radix_cache" where
  "settled c = with_alloc (settle (rc_alloc c)) c"

definition in_group :: "radix_cache \<Rightarrow> bool" where
  "in_group c \<longleftrightarrow> \<not> al_paged (rc_alloc c) \<and> \<not> is_not_in_free_group (rc_alloc c)"

lemma settle_free: "\<not> is_not_in_free_group a \<Longrightarrow> settle (token_free a xs) = token_free (settle a) xs"
  by (simp add: settle_def token_free_def)


lemma free_kv_token: "\<not> al_paged (rc_alloc c) \<Longrightarrow> free_kv xs c = Some (with_alloc (token_free (rc_alloc c) xs) c)"
  by (simp add: free_kv_def allocator_free_def with_alloc_def)

lemma token_free_kept [simp]:
  "al_paged (token_free a xs) = al_paged a" "is_not_in_free_group (token_free a xs) = is_not_in_free_group a"
  "al_paged (settle a) = al_paged a"
  by (simp_all add: token_free_def settle_def)

lemma free_kv_back:
  assumes "in_group c" and "free_kv xs (settled c) = Some d"
  shows "\<exists>c'. free_kv xs c = Some c' \<and> in_group c' \<and> settled c' = d"
proof -
  let ?c = "with_alloc (token_free (rc_alloc c) xs) c"
  have g: "\<not> al_paged (rc_alloc c)" "\<not> is_not_in_free_group (rc_alloc c)" using assms(1) by (simp_all add: in_group_def)
  have "d = with_alloc (token_free (settle (rc_alloc c)) xs) c"
    using assms(2) free_kv_token[of "settled c" xs] g(1) by (simp add: settled_def)
  then have "settled ?c = d" by (simp add: settled_def settle_free[OF g(2)])
  moreover have "free_kv xs c = Some ?c" by (rule free_kv_token[OF g(1)])
  ultimately show ?thesis using g by (intro exI[of _ ?c]) (simp add: in_group_def)
qed

lemma settled_fields [simp]:
  "rc_disable (settled c) = rc_disable c" "rc_page_size (settled c) = rc_page_size c" "rc_is_eagle (settled c) = rc_is_eagle c"
  "disable_finished_insert (settled c) = disable_finished_insert c" "rc_pool (settled c) = rc_pool c"
  "rc_strip_thinking (settled c) = rc_strip_thinking c" "req_radix_key (settled c) = req_radix_key c"
  by (simp_all add: settled_def req_radix_key_def fun_eq_iff)

lemma unsettle: "c = with_alloc (rc_alloc c) (settled c)"
  by (simp add: settled_def)

text \<open>An operation on the tree that returns from the settled cache returns from the one with the open group.\<close>

lemma settled_back: "rc_alloc d = settle (rc_alloc c) \<Longrightarrow> settled (with_alloc (rc_alloc c) d) = d"
  using with_alloc_updates(11)[of d] by (simp add: settled_def)

lemma radix_insert_settled:
  assumes "in_group c" and "radix_insert key v prio ch (settled c) = Some (k, d)"
  shows "\<exists>c'. radix_insert key v prio ch c = Some (k, c') \<and> in_group c' \<and> settled c' = d"
proof -
  have "radix_insert key v prio ch c = Some (k, with_alloc (rc_alloc c) d)"
    using radix_insert_alloc[OF assms(2), of "rc_alloc c"] unsettle[of c] by simp
  moreover have "rc_alloc d = settle (rc_alloc c)"
    using radix_insert_alloc[OF assms(2), of "settle (rc_alloc c)"] assms(2) by (simp add: settled_def) (metis with_alloc_fields(19))
  ultimately show ?thesis using assms(1) settled_back[of d c]
    by (intro exI[of _ "with_alloc (rc_alloc c) d"]) (simp add: in_group_def)
qed

lemma dec_lock_settled:
  assumes "in_group c" and "dec_lock_ref n (settled c) = Some (k, d)"
  shows "\<exists>c'. dec_lock_ref n c = Some (k, c') \<and> in_group c' \<and> settled c' = d"
proof -
  have "dec_lock_ref n c = Some (k, with_alloc (rc_alloc c) d)"
    using dec_lock_alloc[OF assms(2), of "rc_alloc c"] unsettle[of c] by simp
  moreover have "rc_alloc d = settle (rc_alloc c)"
    using dec_lock_alloc[OF assms(2), of "settle (rc_alloc c)"] assms(2) by (simp add: settled_def) (metis with_alloc_fields(19))
  ultimately show ?thesis using assms(1) settled_back[of d c]
    by (intro exI[of _ "with_alloc (rc_alloc c) d"]) (simp add: in_group_def)
qed

lemma settled_pool: "settled (c\<lparr>rc_pool := p\<rparr>) = (settled c)\<lparr>rc_pool := p\<rparr>" "in_group (c\<lparr>rc_pool := p\<rparr>) = in_group c"
  by (simp_all add: settled_def in_group_def)

lemma cache_finished_settled:
  assumes g: "in_group c" and "cache_finished_req r ins (settled c) = Some (r', d)"
  shows "\<exists>c'. cache_finished_req r ins c = Some (r', c') \<and> in_group c' \<and> settled c' = d"
proof (cases "rc_disable c")
  case True
  then show ?thesis using assms(2) free_kv_back[OF g]
    by (fastforce simp: cache_finished_req_def Let_def split: bind_splits)
next
  case False
  let ?ins = "if disable_finished_insert c then False else ins"
  from assms(2) False obtain committed r1 idx kv where s: "pop_committed_kv_cache (rc_strip_thinking c) r = Some (committed, r1)"
    "req_pool_idx r1 = Some idx"
    "pool_read (rc_pool c) idx (int (length (slice_to (origin_input_ids r1 @ output_ids r1) committed))) = Some kv"
    unfolding cache_finished_req_def settled_fields by (auto simp: Let_def split: bind_splits)
  define toks where "toks = slice_to (origin_input_ids r1 @ output_ids r1) committed"
  define key where "key = req_radix_key c r1 toks"
  define f1 where "f1 = (\<lambda>c. if ?ins then do {
                  (prefix_len, c) \<leftarrow> radix_insert key (Some (take (rk_len key) kv)) (Some (req_prio r1)) False c;
                  free_kv (slice kv (cache_protected_len r1) (int prefix_len)) c
                } else free_kv (slice kv (cache_protected_len r1) (int (rk_len key))) c)"
  have u: "cache_finished_req r ins x = do {
      c \<leftarrow> f1 x; c \<leftarrow> free_kv (drop (rk_len key) kv) c;
      (case last_node r1 of None \<Rightarrow> Some (r1, c) | Some n \<Rightarrow> map_option (\<lambda>(_, c). (r1, c)) (dec_lock_ref n c)) }"
    if "x = c \<or> x = settled c" for x
    using that s False unfolding cache_finished_req_def f1_def key_def toks_def by (auto simp: Let_def)
  from assms(2) obtain d1 d2 where d: "f1 (settled c) = Some d1" "free_kv (drop (rk_len key) kv) d1 = Some d2"
    "(case last_node r1 of None \<Rightarrow> Some (r1, d2) | Some n \<Rightarrow> map_option (\<lambda>(_, c). (r1, c)) (dec_lock_ref n d2)) = Some (r', d)"
    unfolding u[OF disjI2[OF refl]] by (auto split: bind_splits)
  have "\<exists>c1. f1 c = Some c1 \<and> in_group c1 \<and> settled c1 = d1"
  proof (cases ?ins)
    case True
    then obtain k e where e: "radix_insert key (Some (take (rk_len key) kv)) (Some (req_prio r1)) False (settled c) = Some (k, e)"
      "free_kv (slice kv (cache_protected_len r1) (int k)) e = Some d1" using d(1) unfolding f1_def if_P[OF True] by (auto split: bind_splits)
    from radix_insert_settled[OF g e(1)] obtain c0 where c0: "radix_insert key (Some (take (rk_len key) kv)) (Some (req_prio r1)) False c = Some (k, c0)"
      "in_group c0" "settled c0 = e" by blast
    from free_kv_back[OF c0(2)] e(2) c0 show ?thesis unfolding f1_def if_P[OF True] by auto
  next
    case F: False
    from F d(1) free_kv_back[OF g] show ?thesis unfolding f1_def if_not_P[OF F] by blast
  qed
  then obtain c1 where c1: "f1 c = Some c1" "in_group c1" "settled c1 = d1" by blast
  from free_kv_back[OF c1(2)] d(2) c1(3) obtain c2 where c2: "free_kv (drop (rk_len key) kv) c1 = Some c2" "in_group c2" "settled c2 = d2" by blast
  show ?thesis
  proof (cases "last_node r1")
    case None
    then show ?thesis unfolding u[OF disjI1[OF refl]] using d(3) c1 c2 by auto
  next
    case (Some n)
    then obtain k where "dec_lock_ref n d2 = Some (k, d)" "r' = r1" using d(3) by auto
    from dec_lock_settled[OF c2(2)] this(1) c2(3) obtain c3 where "dec_lock_ref n c2 = Some (k, c3)" "in_group c3" "settled c3 = d" by blast
    then show ?thesis unfolding u[OF disjI1[OF refl]] using c1 c2 Some \<open>r' = r1\<close> by auto
  qed
qed

lemma release_settled:
  assumes g: "in_group c" and "release_kv_cache sp r ins (settled c) = Some (r', d)"
  shows "\<exists>c'. release_kv_cache sp r ins c = Some (r', c') \<and> in_group c' \<and> settled c' = d"
proof -
  define f where "f = (\<lambda>(s :: int) e (idx :: nat) c. let s = (if rc_page_size c > 1 then ceil_align s (int (rc_page_size c)) else s) in
     if s < e then do {
        row \<leftarrow> (if idx < length (req_to_token (rc_pool c)) then Some (req_to_token (rc_pool c) ! idx) else None);
        free_kv (slice row s e) c
      } else Some c)"
  have u: "release_kv_cache sp r ins x = (if req_pool_idx r = None then None else do {
        (r, c) \<leftarrow> cache_finished_req r (ins \<and> \<not> skip_radix_cache_insert r) x;
        ((start_p, end_p), r) \<leftarrow> pop_overallocated_kv_cache (rc_strip_thinking c) r;
        assert_that (sp \<or> rc_strip_thinking c \<or> start_p = end_p);
        idx \<leftarrow> req_pool_idx r;
        c \<leftarrow> f start_p end_p idx c;
        (p, r) \<leftarrow> pool_free (rc_pool c) r;
        Some (r, c\<lparr>rc_pool := p\<rparr>)
      })" for x unfolding release_kv_cache_def f_def Let_def ..
  have fs: "\<exists>c2. f s e idx c1 = Some c2 \<and> in_group c2 \<and> settled c2 = d2" if "in_group c1" "f s e idx (settled c1) = Some d2" for s e idx c1 d2
    using that free_kv_back[OF that(1)] by (auto simp: f_def Let_def split: if_splits)
  from assms(2) obtain r1 d1 s e r2 idx d2 p where s: "req_pool_idx r \<noteq> None"
    "cache_finished_req r (ins \<and> \<not> skip_radix_cache_insert r) (settled c) = Some (r1, d1)"
    "pop_overallocated_kv_cache (rc_strip_thinking d1) r1 = Some ((s, e), r2)" "sp \<or> rc_strip_thinking d1 \<or> s = e"
    "req_pool_idx r2 = Some idx" "f s e idx d1 = Some d2" "pool_free (rc_pool d2) r2 = Some (p, r')" "d = d2\<lparr>rc_pool := p\<rparr>"
    unfolding u by (auto simp: assert_that_def split: if_splits bind_splits)
  from cache_finished_settled[OF g s(2)] obtain c1 where c1:
    "cache_finished_req r (ins \<and> \<not> skip_radix_cache_insert r) c = Some (r1, c1)" "in_group c1" "settled c1 = d1" by blast
  from fs[OF c1(2)] s(6) c1(3) obtain c2 where c2: "f s e idx c1 = Some c2" "in_group c2" "settled c2 = d2" by blast
  have "rc_strip_thinking d1 = rc_strip_thinking c1" "rc_pool d2 = rc_pool c2" using c1(3) c2(3) by auto
  then have "release_kv_cache sp r ins c = Some (r', c2\<lparr>rc_pool := p\<rparr>)"
    unfolding u using s c1(1) c2(1) by (auto simp: assert_that_def)
  then show ?thesis using c2(2,3) s(8) by (auto simp: settled_pool)
qed

section \<open>A whole group\<close>

definition group_begin :: "radix_cache \<Rightarrow> radix_cache" where
  "group_begin c = c\<lparr>rc_alloc := free_group_begin (rc_alloc c)\<rparr>"

definition group_end :: "radix_cache \<Rightarrow> radix_cache option" where
  "group_end c = (case free_group_end (rc_alloc c) of Inl _ \<Rightarrow> None | Inr a \<Rightarrow> Some (c\<lparr>rc_alloc := a\<rparr>))"

lemma in_group_begin:
  assumes "\<not> al_paged (rc_alloc c)" and "is_not_in_free_group (rc_alloc c)"
  shows "in_group (group_begin c)" and "settled (group_begin c) = with_alloc ((rc_alloc c)\<lparr>free_group := []\<rparr>) c"
  using assms by (simp_all add: in_group_def group_begin_def settled_def settle_def token_free_def free_group_begin_def with_alloc_def)

lemma group_end_settled:
  assumes "in_group c"
  shows "\<exists>fg. group_end c = Some (with_alloc ((settle (rc_alloc c))\<lparr>free_group := fg\<rparr>) c)"
proof (cases "free_group (rc_alloc c) = []")
  case True
  then show ?thesis using assms by (intro exI[of _ "[]"]) (simp add: group_end_def free_group_end_def settle_def token_free_def with_alloc_def)
next
  case False
  then show ?thesis using assms
    by (intro exI[of _ "free_group (rc_alloc c)"])
      (auto simp: group_end_def free_group_end_def settle_def token_free_def with_alloc_def in_group_def allocator_free_def Let_def)
qed

lemma kv_free_group:
  assumes "kv_inv c H R"
  shows "kv_inv (with_alloc ((rc_alloc c)\<lparr>free_group := fg\<rparr>) c) H R"
    and "path_of (with_alloc ((rc_alloc c)\<lparr>free_group := fg\<rparr>) c) = path_of c"
    and "cached (with_alloc ((rc_alloc c)\<lparr>free_group := fg\<rparr>) c) = cached c"
proof -
  note A = kv_invD[OF assms]
  let ?c = "with_alloc ((rc_alloc c)\<lparr>free_group := fg\<rparr>) c"
  obtain N P where t: "tree c N P" "accounts c N P H" using A(1) by (auto simp: radix_inv_def)
  have t': "tree ?c N P" "accounts ?c N P H" using tree_alloc[OF t(1)] accounts_alloc[OF t(2)] by (simp_all add: with_alloc_def)
  show ca: "cached ?c = cached c" by (simp add: fun_eq_iff cached_tree[OF t(1)] cached_tree[OF t'(1)])
  show "path_of ?c = path_of c" by (simp add: fun_eq_iff path_of_tree[OF t(1)] path_of_tree[OF t'(1)])
  have "radix_inv ?c H" using t' by (auto simp: radix_inv_def)
  moreover have "plain_config ?c" using A(2) by (simp add: plain_config_def)
  moreover have "slots_cached ?c = slots_cached c" "slots_unique ?c = slots_unique c"
    by (simp_all add: slots_cached_def slots_unique_def ca)
  moreover have "alloc_inv ((rc_alloc c)\<lparr>free_group := fg\<rparr>) = alloc_inv (rc_alloc c)"
    "alloc_free_slots ((rc_alloc c)\<lparr>free_group := fg\<rparr>) = alloc_free_slots (rc_alloc c)"
    "alloc_universe ((rc_alloc c)\<lparr>free_group := fg\<rparr>) = alloc_universe (rc_alloc c)"
    using A(4) by (simp_all add: alloc_inv_def alloc_free_slots_def alloc_universe_def token_inv_def token_free_slots_def)
  ultimately show "kv_inv ?c H R" unfolding kv_inv_def using A by simp
qed

lemma serve_free_group:
  assumes "serve_inv c rs os H R"
  shows "serve_inv (with_alloc ((rc_alloc c)\<lparr>free_group := fg\<rparr>) c) rs os H R"
proof -
  let ?c = "with_alloc ((rc_alloc c)\<lparr>free_group := fg\<rparr>) c"
  have "keeps c ?c" by (simp add: keeps_def)
  from serve_same_pool[OF assms this _ kv_free_group(1)[OF serveD(1)[OF assms]]] serveD(3)[OF assms]
    kv_free_group(2)[OF serveD(1)[OF assms]]
  show ?thesis by simp
qed

end
