(* ===== verification/SchedIntake.thy ===== *)
theory SchedIntake
  imports FreeGroup ReqFinish SchedulePolicy
begin

text \<open>
  The state of the scheduler process and how requests enter and leave its queue (class \<open>Scheduler\<close> of
  \<open>managers/scheduler.py\<close>, without sessions, multimodal inputs, grammars, adapters, disaggregation,
  hierarchical caches and chunked prefill).  \<open>outbox\<close> is what was sent to the tokenizer process.
\<close>

section \<open>The estimate of new tokens\<close>

record ratio_tracker =
  rt_init :: rat
  rt_min :: rat
  rt_decay :: rat
  rt_current :: rat

definition tracker_from_server_args :: "rat \<Rightarrow> rat \<Rightarrow> rat \<Rightarrow> rat \<Rightarrow> ratio_tracker" where
  "tracker_from_server_args init_ratio conservativeness min_factor decay_steps =
     (let start = min (init_ratio * conservativeness) 1;
          min_ratio = min (start * min_factor) 1
      in \<lparr>rt_init = start, rt_min = min_ratio, rt_decay = (start - min_ratio) / decay_steps, rt_current = start\<rparr>)"

definition decay_step :: "ratio_tracker \<Rightarrow> ratio_tracker" where
  "decay_step t = t\<lparr>rt_current := max (rt_current t - rt_decay t) (rt_min t)\<rparr>"

definition tracker_reset :: "ratio_tracker \<Rightarrow> ratio_tracker" where
  "tracker_reset t = t\<lparr>rt_current := rt_init t\<rparr>"

definition estimate_new_token_ratio_after_retract :: "int \<Rightarrow> sched_req list \<Rightarrow> rat" where
  "estimate_new_token_ratio_after_retract retract_decode_steps reqs =
     (let total_decoded_tokens = sum_list (map (\<lambda>r. int (length (output_ids r))) reqs);
          total_max_new_tokens = sum_list (map max_new_tokens reqs)
      in min 1 (of_int (total_decoded_tokens + retract_decode_steps * int (length reqs)) / of_int (total_max_new_tokens + 1)))"

section \<open>The state\<close>

record sched_batch = schedule_batch +
  batch_is_full :: bool
  is_prefill_only :: bool

definition empty_batch :: sched_batch where
  "empty_batch = \<lparr>bt_reqs = [], bt_seq_lens = [], bt_out_cache_loc = [], bt_pool_indices = [],
     batch_is_full = False, is_prefill_only = False\<rparr>"

text \<open>The batch of the last iteration; a decode batch is the running batch itself.\<close>

datatype last_batch = No_batch | Decode_batch | Extend_batch sched_batch

datatype outgoing = Finished sched_req | Aborted string

record scheduler =
  tree_cache :: radix_cache
  sd_policy :: schedule_policy
  queue_tree :: radix_cache
  waiting_queue :: "sched_req list"
  running_batch :: sched_batch
  last_batch :: last_batch
  ratio_track :: ratio_tracker
  outbox :: "outgoing list"

text \<open>Options of the server.\<close>

record sched_config =
  max_req_len :: int
  max_req_input_len :: int
  max_total_num_tokens :: int
  cf_page_size :: int
  allow_auto_truncate :: bool
  max_queued_requests :: "int option"
  abort_on_priority_when_disabled :: bool
  pp_max_micro_batch_size :: int
  max_prefill_tokens :: int
  cf_prefill_max_requests :: "nat option"
  clip_max_new :: int
  retract_decode_steps :: int
  truncation_align_size :: "int option"
  cf_preemption_threshold :: int
  cf_cp_in_seq_split :: bool
  think_end_id :: "int option"
  strict_check_busy :: bool
  strict_check_idle :: bool

section \<open>Validation of a request\<close>

definition init_req_max_new_tokens :: "sched_config \<Rightarrow> int option \<Rightarrow> sched_req \<Rightarrow> sched_req" where
  "init_req_max_new_tokens cf wanted r =
     (let input_len = int (length (origin_input_ids r));
          paged_input_len = - ((- input_len) div cf_page_size cf) * cf_page_size cf
      in r\<lparr>max_new_tokens := max 0 (min (case wanted of Some n \<Rightarrow> n | None \<Rightarrow> 1073741824)
            (min (max_req_len cf - input_len - 1) (max_total_num_tokens cf - paged_input_len - cf_page_size cf - 1)))\<rparr>)"

definition input_too_long :: string where
  "input_too_long = ''Input length exceeds the maximum allowed length''"

definition validate_input_length :: "sched_config \<Rightarrow> sched_req \<Rightarrow> string option \<times> sched_req" where
  "validate_input_length cf r =
     (if int (length (origin_input_ids r)) \<ge> max_req_input_len cf then
        (if allow_auto_truncate cf then (None, r\<lparr>origin_input_ids := slice_to (origin_input_ids r) (max_req_input_len cf)\<rparr>)
         else (Some input_too_long, r))
      else (None, r))"

definition set_finish_with_abort :: "string \<Rightarrow> sched_req \<Rightarrow> sched_req" where
  "set_finish_with_abort error_msg r =
     r\<lparr>origin_input_ids := [0], return_logprob := False, logprob_start_len := -1, to_finish := Some (FINISH_ABORT error_msg)\<rparr>"

section \<open>The waiting queue\<close>

definition set_or_validate_priority :: "sched_config \<Rightarrow> sched_req \<Rightarrow> scheduler \<Rightarrow> (sched_req \<times> scheduler) option" where
  "set_or_validate_priority cf r s =
     (if enable_priority_scheduling (sd_policy s) \<and> req_priority r = None
      then Some (r\<lparr>req_priority := Some (if low_priority_values_first (sd_policy s) then sys_maxsize else - sys_maxsize - 1)\<rparr>, s)
      else if \<not> enable_priority_scheduling (sd_policy s) \<and> req_priority r \<noteq> None \<and> abort_on_priority_when_disabled cf
      then None
      else Some (r, s))"

text \<open>Python's \<open>max\<close> over the queue with a key: the position and request of the first greatest key.\<close>

definition queue_key :: "int \<Rightarrow> sched_req \<Rightarrow> int \<times> rat" where
  "queue_key direction r = (direction * the (req_priority r), wait_queue_entry_time r)"

fun least_preferred :: "int \<Rightarrow> (nat \<times> sched_req) \<Rightarrow> (nat \<times> sched_req) list \<Rightarrow> nat \<times> sched_req" where
  "least_preferred direction m [] = m"
| "least_preferred direction m (x # xs) =
     least_preferred direction (if queue_key direction (snd m) < queue_key direction (snd x) then x else m) xs"

text \<open>\<open>None\<close>: \<open>max\<close> of an empty sequence, or a priority that is \<open>None\<close>.  The flag tells whether the incoming
  request is aborted.\<close>

definition abort_on_queued_limit :: "sched_config \<Rightarrow> sched_req \<Rightarrow> scheduler \<Rightarrow> (bool \<times> scheduler) option" where
  "abort_on_queued_limit cf recv_req s =
     (if (case max_queued_requests cf of None \<Rightarrow> True | Some m \<Rightarrow> int (length (waiting_queue s)) + 1 \<le> m)
      then Some (False, s)
      else do {
        (req_to_abort, s) \<leftarrow>
          (if enable_priority_scheduling (sd_policy s) then
             (case List.enumerate 0 (waiting_queue s) of [] \<Rightarrow> None
              | e # es \<Rightarrow>
                  let direction = (if low_priority_values_first (sd_policy s) then 1 else -1);
                      (idx, candidate_req) = least_preferred direction e es
                  in if list_ex (\<lambda>r. req_priority r = None) (recv_req # waiting_queue s) then None
                     else if direction * the (req_priority recv_req) < direction * the (req_priority candidate_req)
                     then Some (candidate_req, s\<lparr>waiting_queue := take idx (waiting_queue s) @ drop (Suc idx) (waiting_queue s)\<rparr>)
                     else Some (recv_req, s))
           else Some (recv_req, s));
        let s = s\<lparr>outbox := outbox s @ [Aborted (rid req_to_abort)]\<rparr>;
        Some (rid req_to_abort = rid recv_req, s)
      })"

definition add_request_to_queue :: "sched_config \<Rightarrow> rat \<Rightarrow> sched_req \<Rightarrow> scheduler \<Rightarrow> scheduler option" where
  "add_request_to_queue cf now r s =
     (case set_or_validate_priority cf r s of
        None \<Rightarrow> Some (s\<lparr>outbox := outbox s @ [Aborted (rid r)]\<rparr>)
      | Some (r, s) \<Rightarrow> do {
          (aborted, s) \<leftarrow> abort_on_queued_limit cf r s;
          Some (if aborted then s
                else s\<lparr>waiting_queue := waiting_queue s @ [r\<lparr>wait_queue_entry_time := now\<rparr>]\<rparr>)
        })"

section \<open>Requests from the tokenizer\<close>

text \<open>
  A request as it arrives: \<open>rq_req\<close> is the object \<open>Req(\<dots>)\<close> built from it, \<open>rq_max_new\<close> the number of
  tokens asked for; an abort names a prefix of request ids, or everything.
\<close>

record generate_req =
  rq_req :: sched_req
  rq_max_new :: "int option"
  rq_return_logprob :: bool
  rq_logprob_start_len :: int
  rq_token_ids_logprob :: bool

datatype recv_req = Generate generate_req | Abort bool string

definition request_prefill_only :: "sched_req \<Rightarrow> bool" where
  "request_prefill_only r \<longleftrightarrow> max_new_tokens r = 0"

definition logprob_too_high :: string where
  "logprob_too_high = ''logprob_start_len is higher than the number of input tokens''"

definition handle_generate_request :: "sched_config \<Rightarrow> rat \<Rightarrow> generate_req \<Rightarrow> scheduler \<Rightarrow> scheduler option" where
  "handle_generate_request cf now q s =
     (let r = init_req_max_new_tokens cf (rq_max_new q) (rq_req q);
          (error_msg, r) = validate_input_length cf r
      in case error_msg of
           Some e \<Rightarrow> add_request_to_queue cf now (set_finish_with_abort e r) s
         | None \<Rightarrow>
             let start = (if \<not> rq_return_logprob q \<and> rq_logprob_start_len q \<noteq> -1 then -1 else rq_logprob_start_len q);
                 len = int (length (origin_input_ids r));
                 r = r\<lparr>logprob_start_len :=
                   (if start = -1 then
                      (if rq_return_logprob q \<and> \<not> rq_token_ids_logprob q then len
                       else if request_prefill_only r then len else -1)
                    else start)\<rparr>
             in if logprob_start_len r > len
                then add_request_to_queue cf now (set_finish_with_abort logprob_too_high (r\<lparr>logprob_start_len := -1\<rparr>)) s
                else add_request_to_queue cf now r s)"

definition aborts :: "bool \<Rightarrow> string \<Rightarrow> sched_req \<Rightarrow> bool" where
  "aborts abort_all name r \<longleftrightarrow> abort_all \<or> prefix name (rid r)"

definition abort_running :: "bool \<Rightarrow> string \<Rightarrow> sched_req \<Rightarrow> sched_req" where
  "abort_running abort_all name r = (if \<not> finished r \<and> aborts abort_all name r then r\<lparr>to_finish := Some (FINISH_ABORT ''Aborted'')\<rparr> else r)"

definition abort_request :: "bool \<Rightarrow> string \<Rightarrow> scheduler \<Rightarrow> scheduler" where
  "abort_request abort_all name s =
     (let s = s\<lparr>waiting_queue := filter (\<lambda>r. \<not> aborts abort_all name r) (waiting_queue s),
                outbox := outbox s @ map (Aborted \<circ> rid) (rev (filter (aborts abort_all name) (waiting_queue s)))\<rparr>;
          abort_batch = (\<lambda>b. b\<lparr>bt_reqs := map (abort_running abort_all name) (bt_reqs b)\<rparr>)
      in s\<lparr>running_batch := abort_batch (running_batch s),
           last_batch := (case last_batch s of Extend_batch b \<Rightarrow> Extend_batch (abort_batch b) | l \<Rightarrow> l)\<rparr>)"

fun process_input_requests :: "sched_config \<Rightarrow> rat \<Rightarrow> recv_req list \<Rightarrow> scheduler \<Rightarrow> scheduler option" where
  "process_input_requests cf now [] s = Some s"
| "process_input_requests cf now (q # qs) s = do {
     s \<leftarrow> (case q of Generate g \<Rightarrow> handle_generate_request cf now g s | Abort abort_all name \<Rightarrow> Some (abort_request abort_all name s));
     process_input_requests cf now qs s
   }"

end
