(* ===== verification/Scheduler.thy ===== *)
theory Scheduler
  imports SchedIntake
begin

text \<open>
  The scheduler loop (\<open>Scheduler.event_loop_normal\<close> of \<open>managers/scheduler.py\<close> with the batch operations of
  \<open>schedule_batch.py\<close>, \<open>BatchResultProcessor\<close> and \<open>SchedulerInvariantChecker\<close>): every iteration takes in
  requests, merges the last prefill batch into the running batch, tries to form a prefill batch,
  otherwise decodes, runs the batch and processes its tokens.  The model's tokens are the argument
  \<open>sample\<close>; code outside the repository is collected in \<open>environment\<close>.  Chunked prefill is off
  (\<open>chunked_prefill_size = None\<close>), and so are the branches that \<open>SchedIntake\<close> leaves out; no prefill delayer.
\<close>

record environment =
  env_load_back :: "radix_cache \<Rightarrow> sched_req \<Rightarrow> (int list \<times> nid \<times> radix_cache) option"
  env_shuffle :: "sched_req list \<Rightarrow> sched_req list"
  env_torch_empty :: "int \<Rightarrow> int list"
  env_decode :: "int list \<Rightarrow> string"
  env_re_search :: "string \<Rightarrow> string \<Rightarrow> bool"
  env_terminated :: "sched_req \<Rightarrow> bool"

section \<open>Filtering and merging batches\<close>

definition batch_is_empty :: "sched_batch \<Rightarrow> bool" where
  "batch_is_empty b \<longleftrightarrow> bt_reqs b = []"

text \<open>A tensor that is set to \<open>None\<close> is the empty list.\<close>

definition filter_batch :: "nat list option \<Rightarrow> sched_batch \<Rightarrow> sched_batch" where
  "filter_batch keep_indices b =
     (let keep = (case keep_indices of Some ks \<Rightarrow> ks
                  | None \<Rightarrow> filter (\<lambda>i. \<not> finished (bt_reqs b ! i)) [0..<length (bt_reqs b)])
      in if keep = [] then b\<lparr>bt_reqs := []\<rparr>
         else if length keep = length (bt_reqs b) then b
         else b\<lparr>bt_reqs := map ((!) (bt_reqs b)) keep, bt_pool_indices := map ((!) (bt_pool_indices b)) keep,
                bt_seq_lens := map ((!) (bt_seq_lens b)) keep, bt_out_cache_loc := []\<rparr>)"

definition merge_batch :: "sched_batch \<Rightarrow> sched_batch \<Rightarrow> sched_batch" where
  "merge_batch b other =
     b\<lparr>bt_pool_indices := bt_pool_indices b @ bt_pool_indices other, bt_seq_lens := bt_seq_lens b @ bt_seq_lens other,
       bt_out_cache_loc := [], bt_reqs := bt_reqs b @ bt_reqs other, is_prefill_only := is_prefill_only b \<and> is_prefill_only other\<rparr>"

text \<open>The first part of \<open>get_next_batch_to_run\<close>.\<close>

definition merge_last_batch :: "scheduler \<Rightarrow> scheduler" where
  "merge_last_batch s =
     (case last_batch s of
        Extend_batch lb \<Rightarrow>
          let last_bs = length (bt_reqs lb);
              lb = filter_batch None lb;
              run = running_batch s;
              run = (if length (bt_reqs lb) < last_bs then run\<lparr>batch_is_full := False\<rparr> else run)
          in s\<lparr>last_batch := Extend_batch lb,
               running_batch := (if batch_is_empty lb then run else if batch_is_empty run then lb else merge_batch run lb)\<rparr>
      | _ \<Rightarrow> s)"

definition filter_prefill_only :: "scheduler \<Rightarrow> scheduler" where
  "filter_prefill_only s =
     (if is_prefill_only (running_batch s) then
        let run = filter_batch None (running_batch s)
        in s\<lparr>running_batch := (if batch_is_empty run then run\<lparr>batch_is_full := False\<rparr> else run)\<rparr>
      else s)"

section \<open>A prefill batch\<close>

definition num_allocatable_reqs :: "sched_config \<Rightarrow> int \<Rightarrow> radix_cache \<Rightarrow> int" where
  "num_allocatable_reqs cf running_bs c =
     min (pp_max_micro_batch_size cf - running_bs) (int (pool_available_size (rc_pool c)))"

text \<open>
  The loop over the waiting queue.  The result: the queue with the requests as the loop left them, the
  adder, the flag \<open>batch_is_full\<close> and the cache.
\<close>

fun admit_loop ::
  "environment \<Rightarrow> sched_config \<Rightarrow> int \<Rightarrow> sched_req list \<Rightarrow> bool \<Rightarrow> prefill_adder \<Rightarrow> radix_cache \<Rightarrow>
   (sched_req list \<times> prefill_adder \<times> bool \<times> radix_cache) option" where
  "admit_loop env cf running_bs [] full p c = Some ([], p, full, c)"
| "admit_loop env cf running_bs (r # rs) full p c =
     (let full = (full \<or> int (length (can_run_list p)) \<ge> num_allocatable_reqs cf running_bs c)
      in if full then Some (r # rs, p, full, c)
         else do {
           (r, c) \<leftarrow> init_next_round_input r c;
           (res, r, p, c) \<leftarrow> add_one_req (env_load_back env) r (truncation_align_size cf) p c;
           if res = CONTINUE
           then map_option (\<lambda>(rs, rest). (r # rs, rest)) (admit_loop env cf running_bs rs full p c)
           else Some (r # rs, p, full \<or> res = NO_TOKEN, c)
         })"

definition get_new_batch_prefill :: "environment \<Rightarrow> sched_config \<Rightarrow> scheduler \<Rightarrow> (sched_batch option \<times> scheduler) option" where
  "get_new_batch_prefill env cf s =
     (let run = running_batch s; running_bs = int (length (bt_reqs run)) in
      if batch_is_full run \<or> waiting_queue s = [] then Some (None, s)
      else if num_allocatable_reqs cf running_bs (tree_cache s) \<le> 0
      then Some (None, s\<lparr>running_batch := run\<lparr>batch_is_full := True\<rparr>\<rparr>)
      else do {
        (q, c, w) \<leftarrow> calc_priority (env_shuffle env) (sd_policy s) (waiting_queue s) (Some (bt_reqs run)) (tree_cache s) (queue_tree s);
        let adder = adder_init (cf_page_size cf) (clip_max_new cf) (Some (bt_reqs run)) (rt_current (ratio_track s))
              (max_prefill_tokens cf) None 0 (cf_preemption_threshold cf) (cf_prefill_max_requests cf) (cf_cp_in_seq_split cf) True;
        (q, p, full, c) \<leftarrow> admit_loop env cf running_bs q False adder c;
        let s = s\<lparr>tree_cache := c, queue_tree := w, waiting_queue := q, running_batch := run\<lparr>batch_is_full := full\<rparr>\<rparr>;
        let can_run = can_run_list p;
        if can_run = [] then Some (None, s)
        else do {
          let s = s\<lparr>waiting_queue := filter (\<lambda>x. rid x \<notin> rid ` set can_run) q\<rparr>;
          (b, c) \<leftarrow> prepare_for_extend (env_torch_empty env) can_run c;
          Some (Some (schedule_batch.extend b
                  \<lparr>batch_is_full = False, is_prefill_only = list_all request_prefill_only can_run\<rparr>),
                s\<lparr>tree_cache := c\<rparr>)
        }
      })"

section \<open>A decode batch\<close>

fun add_retracted :: "sched_config \<Rightarrow> rat \<Rightarrow> sched_req list \<Rightarrow> scheduler \<Rightarrow> scheduler option" where
  "add_retracted cf now [] s = Some s"
| "add_retracted cf now (r # rs) s = do { s \<leftarrow> add_request_to_queue cf now r s; add_retracted cf now rs s }"

definition update_running_batch :: "environment \<Rightarrow> sched_config \<Rightarrow> rat \<Rightarrow> scheduler \<Rightarrow> scheduler option" where
  "update_running_batch env cf now s =
     (let b = running_batch s;
          initial_bs = length (bt_reqs b);
          b = filter_batch None b
      in if batch_is_empty b then Some (s\<lparr>running_batch := b\<lparr>batch_is_full := False\<rparr>\<rparr>)
         else do {
           (ok, c) \<leftarrow> check_decode_mem (bt_reqs b) (tree_cache s);
           let s = s\<lparr>tree_cache := c\<rparr>;
           (b, s) \<leftarrow>
             (if \<not> ok then do {
                (keep, _, retracted, reqs_to_abort, c) \<leftarrow> retract_decode (retract_decode_steps cf) (bt_reqs b) c;
                let b = filter_batch (Some keep) b;
                let s = s\<lparr>tree_cache := c,
                          ratio_track := (ratio_track s)\<lparr>rt_current :=
                            estimate_new_token_ratio_after_retract (retract_decode_steps cf) (bt_reqs b)\<rparr>,
                          outbox := outbox s @ map (Aborted \<circ> rid) reqs_to_abort\<rparr>;
                s \<leftarrow> add_retracted cf now retracted s;
                Some (b, s)
              } else Some (b, s\<lparr>ratio_track := decay_step (ratio_track s)\<rparr>));
           let b = (if length (bt_reqs b) < initial_bs then b\<lparr>batch_is_full := False\<rparr> else b);
           if batch_is_empty b then Some (s\<lparr>running_batch := b\<rparr>)
           else do {
             (b, c) \<leftarrow> prepare_for_decode (env_torch_empty env) b (tree_cache s);
             Some (s\<lparr>running_batch := b, tree_cache := c\<rparr>)
           }
         })"

section \<open>The next batch\<close>

text \<open>What runs next: nothing, the running batch, or a prefill batch.\<close>

definition get_next_batch_to_run :: "environment \<Rightarrow> sched_config \<Rightarrow> rat \<Rightarrow> scheduler \<Rightarrow> (last_batch \<times> scheduler) option" where
  "get_next_batch_to_run env cf now s = do {
     let s = filter_prefill_only (merge_last_batch s);
     (new_batch, s) \<leftarrow> get_new_batch_prefill env cf s;
     (case new_batch of
        Some b \<Rightarrow> Some (Extend_batch b, s)
      | None \<Rightarrow>
          if \<not> batch_is_empty (running_batch s) \<and> \<not> is_prefill_only (running_batch s) then do {
            s \<leftarrow> update_running_batch env cf now s;
            Some (if batch_is_empty (running_batch s) then No_batch else Decode_batch, s)
          } else Some (No_batch, s))
   }"

section \<open>The results of a batch\<close>

definition update_reasoning_tokens :: "int \<Rightarrow> int \<Rightarrow> sched_req \<Rightarrow> sched_req" where
  "update_reasoning_tokens token_id end_id r =
     (if is_reasoning_over r then r
      else if token_id = end_id then r\<lparr>reasoning_tokens := reasoning_tokens r + 1, is_reasoning_over := True\<rparr>
      else r\<lparr>reasoning_tokens := reasoning_tokens r + 1\<rparr>)"

definition maybe_update_reasoning_tokens :: "sched_config \<Rightarrow> int \<Rightarrow> sched_req \<Rightarrow> sched_req" where
  "maybe_update_reasoning_tokens cf token_id r =
     (case think_end_id cf of None \<Rightarrow> r
      | Some e \<Rightarrow> if require_reasoning r then update_reasoning_tokens token_id e r else r)"

text \<open>The token is appended, the reasoning tokens are counted, the finish state is updated.\<close>

definition next_token :: "environment \<Rightarrow> sched_config \<Rightarrow> int \<Rightarrow> sched_req \<Rightarrow> sched_req" where
  "next_token env cf t r =
     update_finish_state (env_decode env) (env_re_search env) (env_terminated env) 1
       (maybe_update_reasoning_tokens cf t (r\<lparr>output_ids := output_ids r @ [t]\<rparr>))"

fun prefill_results ::
  "environment \<Rightarrow> sched_config \<Rightarrow> sched_req list \<Rightarrow> int list \<Rightarrow> radix_cache \<Rightarrow> (sched_req list \<times> radix_cache) option" where
  "prefill_results env cf (r # rs) (t # ts) c = do {
     (r, c) \<leftarrow>
       (if finished r then Some (r, c)
        else if inflight_middle_chunks r \<le> 0 then
          let r = next_token env cf t r
          in if finished r then release_kv_cache False r True c
             else maybe_cache_unfinished_req r False c
        else Some (r\<lparr>inflight_middle_chunks := inflight_middle_chunks r - 1\<rparr>, c));
     (rs, c) \<leftarrow> prefill_results env cf rs ts c;
     Some (r # rs, c)
   }"
| "prefill_results env cf rs ts c = Some (rs, c)"

fun decode_results ::
  "environment \<Rightarrow> sched_config \<Rightarrow> sched_req list \<Rightarrow> int list \<Rightarrow> radix_cache \<Rightarrow> (sched_req list \<times> radix_cache) option" where
  "decode_results env cf (r # rs) (t # ts) c = do {
     let r = next_token env cf t r;
     (r, c) \<leftarrow> (if finished r then release_kv_cache False r True c else Some (r, c));
     (rs, c) \<leftarrow> decode_results env cf rs ts c;
     Some (r # rs, c)
   }"
| "decode_results env cf rs ts c = Some (rs, c)"

definition sent_finished :: "sched_req list \<Rightarrow> outgoing list" where
  "sent_finished rs = map Finished (filter finished rs)"

definition process_batch_result_prefill ::
  "environment \<Rightarrow> sched_config \<Rightarrow> (nat \<Rightarrow> int) \<Rightarrow> sched_batch \<Rightarrow> scheduler \<Rightarrow> (sched_batch \<times> scheduler) option" where
  "process_batch_result_prefill env cf sample b s = do {
     (rs, c) \<leftarrow> prefill_results env cf (bt_reqs b) (map sample [0..<length (bt_reqs b)]) (tree_cache s);
     Some (b\<lparr>bt_reqs := rs\<rparr>, s\<lparr>tree_cache := c, outbox := outbox s @ sent_finished rs\<rparr>)
   }"

definition process_batch_result_decode ::
  "environment \<Rightarrow> sched_config \<Rightarrow> (nat \<Rightarrow> int) \<Rightarrow> sched_batch \<Rightarrow> scheduler \<Rightarrow> (sched_batch \<times> scheduler) option" where
  "process_batch_result_decode env cf sample b s = do {
     (rs, c) \<leftarrow> decode_results env cf (bt_reqs b) (map sample [0..<length (bt_reqs b)]) (group_begin (tree_cache s));
     c \<leftarrow> group_end c;
     Some (b\<lparr>bt_reqs := rs\<rparr>, s\<lparr>tree_cache := c, outbox := outbox s @ sent_finished rs\<rparr>)
   }"

section \<open>The memory check\<close>

definition check_pool_invariant :: "int \<Rightarrow> int \<Rightarrow> int \<Rightarrow> int \<Rightarrow> int \<Rightarrow> int \<Rightarrow> bool" where
  "check_pool_invariant available evictable protected session_held total_size uncached \<longleftrightarrow>
     available + evictable + protected + session_held + uncached \<noteq> total_size"

definition check_full_pool :: "sched_config \<Rightarrow> radix_cache \<Rightarrow> int \<Rightarrow> bool" where
  "check_full_pool cf c uncached =
     check_pool_invariant (allocator_available_size (rc_alloc c)) (evictable_size c) (protected_size c) 0
       (max_total_num_tokens cf) uncached"

text \<open>The uncached slots of the active batches; \<open>None\<close> is a failed assertion.\<close>

fun uncached_sizes :: "int \<Rightarrow> sched_req list \<Rightarrow> int option" where
  "uncached_sizes page_size [] = Some 0"
| "uncached_sizes page_size (r # rs) = do {
     assert_that (kv_committed_freed r = kv_overallocated_freed r);
     n \<leftarrow>
       (if kv_committed_freed r \<or> req_pool_idx r = None then Some 0
        else do {
          let allocated_len = (if page_size > 1 then ceil_align (kv_allocated_len r) page_size else kv_allocated_len r);
          assert_that (page_size > 1 \<longrightarrow> cache_protected_len r mod page_size = 0);
          Some (allocated_len - cache_protected_len r)
        });
     m \<leftarrow> uncached_sizes page_size rs;
     Some (n + m)
   }"

definition total_uncached_sizes :: "sched_config \<Rightarrow> scheduler \<Rightarrow> int option" where
  "total_uncached_sizes cf s =
     uncached_sizes (cf_page_size cf)
       (case last_batch s of
          Extend_batch b \<Rightarrow> bt_reqs b @ bt_reqs (running_batch s)
        | _ \<Rightarrow> bt_reqs (running_batch s))"

text \<open>\<open>self_check_during_busy\<close> passes.\<close>

definition self_check_during_busy :: "sched_config \<Rightarrow> scheduler \<Rightarrow> bool" where
  "self_check_during_busy cf s \<longleftrightarrow> last_batch s = No_batch \<or>
     (case total_uncached_sizes cf s of None \<Rightarrow> False
      | Some uncached \<Rightarrow> \<not> check_full_pool cf (tree_cache s) uncached)"

text \<open>The check of the idle server: \<open>_check_all_pools\<close> without running requests and \<open>_check_req_pool\<close>.\<close>

definition idle_check :: "sched_config \<Rightarrow> scheduler \<Rightarrow> bool" where
  "idle_check cf s \<longleftrightarrow> \<not> check_full_pool cf (tree_cache s) 0 \<and>
     length (rp_free_slots (rc_pool (tree_cache s))) = rp_size (rc_pool (tree_cache s))"

section \<open>An iteration of the loop\<close>

definition is_fully_idle :: "scheduler \<Rightarrow> bool" where
  "is_fully_idle s \<longleftrightarrow> batch_is_empty (running_batch s) \<and> waiting_queue s = [] \<and>
     (case last_batch s of Extend_batch b \<Rightarrow> batch_is_empty b | _ \<Rightarrow> True)"

text \<open>\<open>None\<close>: with strict checking a leak raises an error.\<close>

definition on_idle :: "sched_config \<Rightarrow> scheduler \<Rightarrow> scheduler option" where
  "on_idle cf s =
     (if is_fully_idle s then do {
        assert_that (strict_check_idle cf \<longrightarrow> idle_check cf s);
        Some (s\<lparr>ratio_track := tracker_reset (ratio_track s)\<rparr>)
      } else Some s)"

definition event_step ::
  "environment \<Rightarrow> sched_config \<Rightarrow> rat \<Rightarrow> recv_req list \<Rightarrow> (nat \<Rightarrow> int) \<Rightarrow> scheduler \<Rightarrow> scheduler option" where
  "event_step env cf now recv sample s = do {
     s \<leftarrow> process_input_requests cf now recv s;
     (batch, s) \<leftarrow> get_next_batch_to_run env cf now s;
     s \<leftarrow> (case batch of
        No_batch \<Rightarrow> do { s \<leftarrow> on_idle cf s; Some (s\<lparr>last_batch := No_batch\<rparr>) }
      | Decode_batch \<Rightarrow> do {
          (b, s) \<leftarrow> process_batch_result_decode env cf sample (running_batch s) s;
          Some (s\<lparr>running_batch := b, last_batch := Decode_batch\<rparr>)
        }
      | Extend_batch b \<Rightarrow> do {
          (b, s) \<leftarrow> process_batch_result_prefill env cf sample b s;
          Some (s\<lparr>last_batch := Extend_batch b\<rparr>)
        });
     assert_that (strict_check_busy cf \<longrightarrow> self_check_during_busy cf s);
     Some s
   }"

text \<open>The state after \<open>init_running_status\<close>, and a number of iterations: time, input and sampled tokens of each.\<close>

definition scheduler_init :: "schedule_policy \<Rightarrow> radix_cache \<Rightarrow> radix_cache \<Rightarrow> ratio_tracker \<Rightarrow> scheduler" where
  "scheduler_init sp c w t = \<lparr>tree_cache = c, sd_policy = sp, queue_tree = w, waiting_queue = [], running_batch = empty_batch,
     last_batch = No_batch, ratio_track = t, outbox = []\<rparr>"

fun event_loop ::
  "environment \<Rightarrow> sched_config \<Rightarrow> (rat \<times> recv_req list \<times> (nat \<Rightarrow> int)) list \<Rightarrow> scheduler \<Rightarrow> scheduler option" where
  "event_loop env cf [] s = Some s"
| "event_loop env cf ((now, recv, sample) # es) s = do { s \<leftarrow> event_step env cf now recv sample s; event_loop env cf es s }"

end
