(* ===== verification/BatchResults.thy ===== *)
theory BatchResults
  imports Scheduler
begin

text \<open>
  What the results of a batch do to the memory of its requests (\<open>process_batch_result_prefill\<close> and
  \<open>process_batch_result_decode\<close>): every request of the batch either finishes and gives its row, lock and
  slots back, or goes on with one more token; the invariant of running requests is kept.
\<close>

section \<open>Requests between two steps\<close>

text \<open>A request fits in a row of \<open>w\<close> entries whatever it generates.\<close>

definition fits_row :: "int \<Rightarrow> sched_req \<Rightarrow> bool" where
  "fits_row w r \<longleftrightarrow> 0 \<le> max_new_tokens r \<and> int (length (origin_input_ids r)) + max_new_tokens r < w \<and>
     inflight_middle_chunks r = 0"

text \<open>After a forward pass every token has its slot; after the next token is sampled all but the last one have.\<close>

definition computed_req :: "int \<Rightarrow> sched_req \<Rightarrow> bool" where
  "computed_req w r \<longleftrightarrow> fits_row w r \<and> \<not> finished r \<and> length (token_seq r) = committed r"

definition active_req :: "int \<Rightarrow> sched_req \<Rightarrow> bool" where
  "active_req w r \<longleftrightarrow> fits_row w r \<and> \<not> finished r \<and> length (token_seq r) = Suc (committed r) \<and>
     int (length (output_ids r)) < max_new_tokens r"

definition unfinished :: "sched_req list \<Rightarrow> sched_req list" where
  "unfinished rs = filter (\<lambda>r. \<not> finished r) rs"

lemma unfinished_simps [simp]:
  "unfinished [] = []" "unfinished (r # rs) = (if finished r then unfinished rs else r # unfinished rs)"
  "unfinished (xs @ ys) = unfinished xs @ unfinished ys"
  by (simp_all add: unfinished_def)

section \<open>The next token\<close>

definition token_frame :: "sched_req \<Rightarrow> sched_req \<Rightarrow> bool" where
  "token_frame r r' \<longleftrightarrow> (\<exists>fr fl tf out rt ro. r' = r\<lparr>finished_reason := fr, finished_len := fl, to_finish := tf,
       output_ids := out, reasoning_tokens := rt, is_reasoning_over := ro\<rparr> \<and>
     length out = Suc (length (output_ids r)) \<and> butlast out = output_ids r)"

lemma token_frame_fields:
  assumes "token_frame r r'"
  shows "req_pool_idx r' = req_pool_idx r" "origin_input_ids r' = origin_input_ids r" "fill_ids r' = fill_ids r"
    "last_node r' = last_node r" "cache_protected_len r' = cache_protected_len r" "kv_committed_len r' = kv_committed_len r"
    "kv_allocated_len r' = kv_allocated_len r" "kv_committed_freed r' = kv_committed_freed r"
    "kv_overallocated_freed r' = kv_overallocated_freed r" "max_new_tokens r' = max_new_tokens r"
    "req_extra_key r' = req_extra_key r" "inflight_middle_chunks r' = inflight_middle_chunks r"
    "prefix_indices r' = prefix_indices r" "rid r' = rid r" "req_priority r' = req_priority r"
    "committed r' = committed r" "length (output_ids r') = Suc (length (output_ids r))"
    "skip_radix_cache_insert r' = skip_radix_cache_insert r"
  using assms by (auto simp: token_frame_def committed_def)

lemma token_frame_seq:
  assumes "token_frame r r'"
  shows "prefix (token_seq r) (token_seq r')" and "length (token_seq r') = Suc (length (token_seq r))"
proof -
  obtain out where o: "output_ids r' = out" "origin_input_ids r' = origin_input_ids r" "length out = Suc (length (output_ids r))"
    "butlast out = output_ids r" using assms by (auto simp: token_frame_def)
  then have "out \<noteq> []" by auto
  then have "out = output_ids r @ [List.last out]" using o(4) by (metis append_butlast_last_id)
  then show "prefix (token_seq r) (token_seq r')" using o by (metis append_assoc prefixI token_seq_def)
  show "length (token_seq r') = Suc (length (token_seq r))" using o by (simp add: token_seq_def)
qed

lemma next_token_ok:
  fixes env cf t r
  defines "r' \<equiv> next_token env cf t r"
  shows "token_frame r r'" and "\<not> finished r' \<Longrightarrow> int (length (output_ids r')) < max_new_tokens r'"
proof -
  define q where "q = maybe_update_reasoning_tokens cf t (r\<lparr>output_ids := output_ids r @ [t]\<rparr>)"
  obtain rt ro where q: "q = r\<lparr>output_ids := output_ids r @ [t], reasoning_tokens := rt, is_reasoning_over := ro\<rparr>"
  proof -
    have "\<exists>rt ro. q = r\<lparr>output_ids := output_ids r @ [t], reasoning_tokens := rt, is_reasoning_over := ro\<rparr>"
      unfolding q_def maybe_update_reasoning_tokens_def update_reasoning_tokens_def
      by (cases r) (auto split: option.split)
    then show ?thesis using that by blast
  qed
  have o: "output_ids q = output_ids r @ [t]" by (simp add: q)
  have r': "r' = update_finish_state (env_decode env) (env_re_search env) (env_terminated env) 1 q"
    by (simp add: r'_def next_token_def q_def)
  from one_token_update(1)[OF o, of "env_decode env" "env_re_search env" "env_terminated env", folded r'] obtain fr fl tf out
    where f: "r' = q\<lparr>finished_reason := fr, finished_len := fl, to_finish := tf, output_ids := out\<rparr>"
      "length out = length (output_ids q)" "butlast out = butlast (output_ids q)" by (auto simp: finish_frame_def)
  have l: "length out = Suc (length (output_ids r))" "butlast out = output_ids r" using f(2,3) unfolding o by simp_all
  have "r' = r\<lparr>finished_reason := fr, finished_len := fl, to_finish := tf, output_ids := out, reasoning_tokens := rt, is_reasoning_over := ro\<rparr>"
    unfolding f(1) q by simp
  with l show "token_frame r r'" unfolding token_frame_def by blast
  show "int (length (output_ids r')) < max_new_tokens r'" if "\<not> finished r'"
    using one_token_update(2)[OF o, of "env_decode env" "env_re_search env" "env_terminated env", folded r', OF that] by simp
qed

lemma next_token_active:
  assumes "computed_req w r" and "\<not> finished (next_token env cf t r)"
  shows "active_req w (next_token env cf t r)"
  using assms next_token_ok(2)[where env = env and cf = cf and t = t and r = r]
    token_frame_fields[OF next_token_ok(1)[where env = env and cf = cf and t = t and r = r]]
    token_frame_seq[OF next_token_ok(1)[where env = env and cf = cf and t = t and r = r]]
  by (simp add: computed_req_def active_req_def fits_row_def)

text \<open>Generated tokens do not concern the memory.\<close>

lemma serve_token:
  assumes i: "serve_inv c (r # rs) os H R" and f: "token_frame r r'"
  shows "serve_inv c (r' # rs) os H R"
proof -
  note F = token_frame_fields[OF f] and A = serveD(7)[OF i, of r]
  have "committed r \<le> length (token_seq r)" using A by (simp add: running_ok_def)
  then have t: "take (committed r) (token_seq r') = take (committed r) (token_seq r)"
    using token_frame_seq(1)[OF f] by (auto simp: prefix_def)
  have "held c r' = held c r" "req_own r' = req_own r" by (simp_all add: held_def req_row_def F req_own_def fun_eq_iff)
  moreover have "running_ok c r'"
    using A token_frame_seq(2)[OF f]
    by (auto simp: running_ok_def F held_def req_row_def req_holds_def t req_radix_key_def)
  ultimately show ?thesis using i by (simp add: serve_inv_def F)
qed

section \<open>Caching a running request\<close>

lemma rows_of_in: "r \<in> set rs \<Longrightarrow> req_pool_idx r = Some i \<Longrightarrow> i \<in> set (rows_of rs)"
  by (induction rs) auto

lemma unfinished_ok:
  assumes i: "serve_inv c (r # rs) os H R" and fill: "fill_ids r = take (committed r) (token_seq r)"
  shows "\<exists>r' c' n pre l. maybe_cache_unfinished_req r ch c = Some (r', c') \<and> serve_inv c' (r' # rs) os H R \<and> same_config c c' \<and>
    r' = r\<lparr>cache_protected_len := l, prefix_indices := pre, last_node := n\<rparr> \<and>
    map length (req_to_token (rc_pool c')) = map length (req_to_token (rc_pool c)) \<and>
    rp_free_slots (rc_pool c') = rp_free_slots (rc_pool c)"
proof (cases "skip_radix_cache_insert r")
  case True
  then show ?thesis using i
    by (intro exI[of _ r] exI[of _ c] exI[of _ "last_node r"] exI[of _ "prefix_indices r"] exI[of _ "cache_protected_len r"])
      (simp add: maybe_cache_unfinished_req_def same_config_def)
next
  case False
  note A = serveD[OF i]
  let ?kv = "held c r"
  obtain idx n where r: "req_pool_idx r = Some idx" "idx < length (req_to_token (rc_pool c))" "last_node r = Some n"
    "req_row c r = req_to_token (rc_pool c) ! idx"
    "0 \<le> kv_committed_len r" "kv_committed_len r = int (committed r)" "committed r \<le> length (req_row c r)"
    "committed r \<le> length (token_seq r)"
    "kv_allocated_len r = kv_committed_len r" "\<not> kv_committed_freed r" "\<not> kv_overallocated_freed r"
    "req_holds c r n (units (req_radix_key c r (take (committed r) (token_seq r)))) ?kv"
    using A(7)[of r] by (auto elim: running_okE)
  let ?row = "req_to_token (rc_pool c) ! idx" and ?key = "req_radix_key c r (fill_ids r)"
  have lf: "length (fill_ids r) = committed r" using fill r(8) by simp
  have kv: "kv_inv c (add_mset n (lock_nodes rs + H)) (set (req_own r ?kv) \<union> set (own_slots c rs) \<union> R)"
    using A(1) r(3) by simp
  have own: "set (req_own r ?kv) \<subseteq> set (req_own r ?kv) \<union> set (own_slots c rs) \<union> R" "distinct (req_own r ?kv)"
    using A(2) by auto
  have rowk: "length (fill_ids r) \<le> length ?row" "?kv = take (length (fill_ids r)) ?row"
    using lf r(4,7) by (simp_all add: held_def)
  have hold: "req_holds c r n (units ?key) ?kv" using r(12) by (simp add: fill)
  from cache_unfinished_ok[OF kv own r(1,2) rowk refl hold, of ch] obtain r' c' n' zs where u:
    "cache_unfinished_req r ch c = Some (r', c')" "map fst zs = units ?key" "path_of c' n' zs"
    "r' = r\<lparr>cache_protected_len := int (length zs), prefix_indices := map snd zs @ drop (length zs) ?kv, last_node := Some n'\<rparr>"
    "kv_inv c' (add_mset n' (lock_nodes rs + H)) (set (req_own r ?kv) \<union> set (own_slots c rs) \<union> R -
       set (drop (nat (cache_protected_len r)) (take (length zs) ?kv)))"
    "req_to_token (rc_pool c') = (req_to_token (rc_pool c))[idx := map snd zs @ drop (length zs) ?row]"
    "rp_free_slots (rc_pool c') = rp_free_slots (rc_pool c)" "rp_size (rc_pool c') = rp_size (rc_pool c)"
    "rp_max_context_len (rc_pool c') = rp_max_context_len (rc_pool c)"
    "keeps (c\<lparr>rc_pool := rc_pool c'\<rparr>) c'" "\<forall>m ys. path_of c m ys \<longrightarrow> path_of c' m ys" by blast
  let ?k = "length zs" and ?row' = "map snd zs @ drop (length zs) ?row"
  have cfg: "same_config c c'" using u(8-10) by (simp add: keeps_def same_config_def)
  have kl: "?k \<le> committed r"
    using req_key_facts(3)[OF kv_invD(3)[OF kv], of r "fill_ids r"] u(2) lf by (metis length_map length_units)
  from hold obtain ys where "path_of c n ys" and ys: "prefix (map fst ys) (units ?key)" "cache_protected_len r = int (length ys)"
    "req_own r ?kv = drop (length ys) ?kv" by (rule req_holdsE)
  have pl: "length ys \<le> ?k" using prefix_length_le[OF ys(1)] u(2) by (metis length_map)
  have lkv: "length ?kv = committed r" using r(7) by (simp add: held_def)
  have lrow: "length ?row' = length ?row" using kl r(4,7) by simp
  have fields: "req_pool_idx r' = Some idx" "committed r' = committed r" "token_seq r' = token_seq r" "last_node r' = Some n'"
    "kv_committed_len r' = kv_committed_len r" "kv_allocated_len r' = kv_allocated_len r" "\<not> kv_committed_freed r'"
    "\<not> kv_overallocated_freed r'" "req_radix_key c' r' ts = req_radix_key c r ts"
    "cache_protected_len r' = int (length zs)" for ts
    using r(1,10,11) radix_key_config[OF cfg] by (simp_all add: u(4) committed_def token_seq_def req_radix_key_def)
  have row': "req_row c' r' = ?row'" using r(2) by (simp add: req_row_def fields u(6))
  have h': "held c' r' = map snd zs @ drop ?k ?kv"
    using kl r(4) by (simp add: held_def row' fields drop_take)
  have own': "req_own r' (held c' r') = drop ?k ?kv" by (simp add: req_own_def h' fields)
  have sp: "req_own r ?kv = drop (length ys) (take ?k ?kv) @ drop ?k ?kv"
    unfolding ys(3) using pl kl lkv cut3[of "length ys" ?k "length ?kv" ?kv] by simp
  have hold': "req_holds c' r' n' (units (req_radix_key c' r' (take (committed r') (token_seq r')))) (held c' r')"
    unfolding req_holds_def fields h' using u(2,3) fill by (intro conjI exI[of _ zs]) simp_all
  have ok': "running_ok c' r'"
    unfolding running_ok_def using fields r hold' lrow by (auto simp: u(6) row')
  have oth: "running_ok c' x" "held c' x = held c x" if x: "x \<in> set rs" for x
  proof -
    have okx: "running_ok c x" using A(7) x by simp
    then obtain ix where ix: "req_pool_idx x = Some ix" by (auto simp: running_ok_def)
    then have "ix \<noteq> idx" using rows_of_in[OF x ix] A(4) r(1) by auto
    then have rw: "req_row c' x = req_row c x" by (simp add: req_row_def ix u(6))
    have p: "path_of c (the (last_node x)) ys \<Longrightarrow> path_of c' (the (last_node x)) ys" for ys using u(11) by blast
    from running_frame[OF okx cfg _ _ _ p] rw show "running_ok c' x" "held c' x = held c x"
      by (simp_all add: u(6) held_def)
  qed
  have oo: "own_slots c' rs = own_slots c rs" by (rule own_slots_cong) (rule oth(2))
  have dj: "distinct (req_own r ?kv @ own_slots c rs)" "set (req_own r ?kv @ own_slots c rs) \<inter> R = {}" using A(2,3) by simp_all
  have R': "set (req_own r ?kv) \<union> set (own_slots c rs) \<union> R - set (drop (nat (cache_protected_len r)) (take ?k ?kv)) =
      set (drop ?k ?kv) \<union> set (own_slots c rs) \<union> R"
    using dj unfolding sp by (auto simp: ys(2))
  have lens: "map length (req_to_token (rc_pool c')) = map length (req_to_token (rc_pool c))"
    using lrow by (simp add: u(6) map_update list_update_same_conv r(2))
  note wid = same_widths[OF lens A(8)]
  have "serve_inv c' (r' # rs) os H R"
    unfolding serve_inv_def using u(5) R' dj sp ok' oth(1) A(4-6) fields r(1) u(6,7,8,9) wid
    by (auto simp: oo own')
  then show ?thesis using u(1,4,7) cfg lens False
    by (intro exI[of _ r'] exI[of _ c'] exI[of _ "Some n'"] exI[of _ "map snd zs @ drop ?k ?kv"] exI[of _ "int ?k"])
      (simp add: maybe_cache_unfinished_req_def)
qed

section \<open>Results\<close>

text \<open>What became of a request: finished without row, lock and slots, or active with the row it had.\<close>

definition result_of :: "int \<Rightarrow> sched_req \<Rightarrow> sched_req \<Rightarrow> bool" where
  "result_of w r r' \<longleftrightarrow> rid r' = rid r \<and> max_new_tokens r' = max_new_tokens r \<and>
     length (output_ids r') = Suc (length (output_ids r)) \<and>
     (if finished r' then req_pool_idx r' = None \<and> kv_committed_freed r' \<and> kv_overallocated_freed r'
      else active_req w r' \<and> req_pool_idx r' = req_pool_idx r \<and> kv_committed_len r' = kv_committed_len r)"

lemma result_finished:
  assumes "token_frame r r1" and "finished r1"
  shows "result_of w r (r1\<lparr>kv_committed_freed := True, kv_overallocated_freed := True, req_pool_idx := None\<rparr>)"
  using assms token_frame_fields[OF assms(1)] by (simp add: result_of_def finished_def)

lemma released_finished: "finished (r\<lparr>kv_committed_freed := x, kv_overallocated_freed := y, req_pool_idx := z\<rparr>) = finished r"
  by (simp add: finished_def)

lemma serve_mid: "serve_inv c (x # ys @ zs) os H R \<Longrightarrow> serve_inv c (ys @ x # zs) os H R"
  by (erule serve_perm) simp

lemma serve_mid': "serve_inv c (ys @ x # zs) os H R \<Longrightarrow> serve_inv c (x # ys @ zs) os H R"
  by (erule serve_perm) simp

lemma prefill_results_ok:
  assumes "serve_inv c (rs @ others) os H R" and "\<not> rc_strip_thinking c" and "length ts = length rs"
    and "\<forall>r \<in> set rs. computed_req w r \<and> fill_ids r = token_seq r"
  shows "\<exists>rs' c'. prefill_results env cf rs ts c = Some (rs', c') \<and> serve_inv c' (unfinished rs' @ others) os H R \<and>
    same_config c c' \<and> list_all2 (result_of w) rs rs'"
  using assms
proof (induction rs arbitrary: ts c others)
  case Nil
  then show ?case by (simp add: same_config_def)
next
  case (Cons r rs)
  obtain t ts' where ts: "ts = t # ts'" using Cons.prems(3) by (cases ts) auto
  have r: "computed_req w r" "fill_ids r = token_seq r" "\<not> finished r" "inflight_middle_chunks r \<le> 0"
    using Cons.prems(4) by (auto simp: computed_req_def fits_row_def)
  let ?r1 = "next_token env cf t r"
  have f: "token_frame r ?r1" by (rule next_token_ok)
  have i1: "serve_inv c (?r1 # rs @ others) os H R" using serve_token[OF _ f] Cons.prems(1) by simp
  have "\<exists>r2 c2. (if finished ?r1 then release_kv_cache False ?r1 True c else maybe_cache_unfinished_req ?r1 False c) = Some (r2, c2) \<and>
      serve_inv c2 (unfinished [r2] @ rs @ others) os H R \<and> same_config c c2 \<and> result_of w r r2"
  proof (cases "finished ?r1")
    case True
    from release_ok[OF i1 Cons.prems(2), of True] obtain c2 where "release_kv_cache False ?r1 True c =
        Some (?r1\<lparr>kv_committed_freed := True, kv_overallocated_freed := True, req_pool_idx := None\<rparr>, c2)"
      "serve_inv c2 (rs @ others) os H R" "same_config c c2" by blast
    then show ?thesis using result_finished[OF f True] True released_finished by auto
  next
    case False
    have "fill_ids ?r1 = take (committed ?r1) (token_seq ?r1)"
      using r(1,2) token_frame_fields[OF f] token_frame_seq(1)[OF f] by (auto simp: computed_req_def prefix_def)
    from unfinished_ok[OF i1 this, of False] obtain r2 c2 n pre l where u:
      "maybe_cache_unfinished_req ?r1 False c = Some (r2, c2)" "serve_inv c2 (r2 # rs @ others) os H R" "same_config c c2"
      "r2 = ?r1\<lparr>cache_protected_len := l, prefix_indices := pre, last_node := n\<rparr>" by blast
    have "active_req w r2" "\<not> finished r2"
      using next_token_active[OF r(1) False] False
      by (simp_all add: u(4) active_req_def fits_row_def finished_def token_seq_def committed_def)
    then have "result_of w r r2" using token_frame_fields[OF f] by (simp add: result_of_def u(4))
    then show ?thesis using u(1-3) False \<open>\<not> finished r2\<close> by auto
  qed
  then obtain r2 c2 where two: "(if finished ?r1 then release_kv_cache False ?r1 True c else maybe_cache_unfinished_req ?r1 False c) = Some (r2, c2)"
    "serve_inv c2 (unfinished [r2] @ rs @ others) os H R" "same_config c c2" "result_of w r r2" by blast
  have "serve_inv c2 (rs @ unfinished [r2] @ others) os H R" by (rule serve_perm[OF two(2)]) simp
  moreover have "\<not> rc_strip_thinking c2" using two(3) Cons.prems(2) by (simp add: same_config_def)
  ultimately obtain rs' c3 where e: "prefill_results env cf rs ts' c2 = Some (rs', c3)"
    "serve_inv c3 (unfinished rs' @ unfinished [r2] @ others) os H R" "same_config c2 c3" "list_all2 (result_of w) rs rs'"
    using Cons.IH[of c2 "unfinished [r2] @ others" ts'] Cons.prems(3,4) ts by auto
  have "prefill_results env cf (r # rs) ts c = Some (r2 # rs', c3)"
    using two(1) e(1) r(3,4) ts by (auto simp: Let_def)
  moreover have "serve_inv c3 (unfinished (r2 # rs') @ others) os H R" by (rule serve_perm[OF e(2)]) simp
  ultimately show ?case using e(4) two(4) same_config_trans[OF two(3) e(3)] by (intro exI[of _ "r2 # rs'"] exI[of _ c3]) simp
qed

text \<open>The slots of requests that finish in a decode batch wait in the free group; what the group owes counts
  as freed.\<close>

lemma decode_results_ok:
  assumes "in_group c" and "serve_inv (settled c) (rs @ others) os H R" and "\<not> rc_strip_thinking c" and "length ts = length rs"
    and "\<forall>r \<in> set rs. computed_req w r"
  shows "\<exists>rs' c'. decode_results env cf rs ts c = Some (rs', c') \<and> in_group c' \<and>
    serve_inv (settled c') (unfinished rs' @ others) os H R \<and>
    same_config (settled c) (settled c') \<and> list_all2 (result_of w) rs rs'"
  using assms
proof (induction rs arbitrary: ts c others)
  case Nil
  then show ?case by (simp add: same_config_def)
next
  case (Cons r rs)
  obtain t ts' where ts: "ts = t # ts'" using Cons.prems(4) by (cases ts) auto
  have r: "computed_req w r" using Cons.prems(5) by simp
  let ?r1 = "next_token env cf t r"
  have f: "token_frame r ?r1" by (rule next_token_ok)
  have i1: "serve_inv (settled c) (?r1 # rs @ others) os H R" using serve_token[OF _ f] Cons.prems(2) by simp
  have strip: "\<not> rc_strip_thinking (settled c)" using Cons.prems(3) by simp
  have "\<exists>r2 c2. (if finished ?r1 then release_kv_cache False ?r1 True c else Some (?r1, c)) = Some (r2, c2) \<and>
      in_group c2 \<and> serve_inv (settled c2) (unfinished [r2] @ rs @ others) os H R \<and> same_config (settled c) (settled c2) \<and>
      result_of w r r2"
  proof (cases "finished ?r1")
    case True
    let ?r2 = "?r1\<lparr>kv_committed_freed := True, kv_overallocated_freed := True, req_pool_idx := None\<rparr>"
    from release_ok[OF i1 strip, of True] obtain d where d: "release_kv_cache False ?r1 True (settled c) = Some (?r2, d)"
      "serve_inv d (rs @ others) os H R" "same_config (settled c) d" by blast
    from release_settled[OF Cons.prems(1) d(1)] obtain c2 where "release_kv_cache False ?r1 True c = Some (?r2, c2)"
      "in_group c2" "settled c2 = d" by blast
    then show ?thesis using d(2,3) result_finished[OF f True] True released_finished by auto
  next
    case False
    have "result_of w r ?r1" using next_token_active[OF r False] token_frame_fields[OF f] False by (simp add: result_of_def)
    then show ?thesis using i1 False Cons.prems(1) by (simp add: same_config_def)
  qed
  then obtain r2 c2 where two: "(if finished ?r1 then release_kv_cache False ?r1 True c else Some (?r1, c)) = Some (r2, c2)"
    "in_group c2" "serve_inv (settled c2) (unfinished [r2] @ rs @ others) os H R" "same_config (settled c) (settled c2)"
    "result_of w r r2" by blast
  have "serve_inv (settled c2) (rs @ unfinished [r2] @ others) os H R" by (rule serve_perm[OF two(3)]) simp
  moreover have "\<not> rc_strip_thinking c2" using two(4) Cons.prems(3) by (simp add: same_config_def)
  ultimately obtain rs' c3 where e: "decode_results env cf rs ts' c2 = Some (rs', c3)" "in_group c3"
    "serve_inv (settled c3) (unfinished rs' @ unfinished [r2] @ others) os H R" "same_config (settled c2) (settled c3)"
    "list_all2 (result_of w) rs rs'"
    using Cons.IH[of c2 "unfinished [r2] @ others" ts'] Cons.prems(4,5) two(2) ts by auto
  have "decode_results env cf (r # rs) ts c = Some (r2 # rs', c3)" using two(1) e(1) ts by (simp add: Let_def)
  moreover have "serve_inv (settled c3) (unfinished (r2 # rs') @ others) os H R" by (rule serve_perm[OF e(3)]) simp
  ultimately show ?case using e(2,5) two(5) same_config_trans[OF two(4) e(4)] by (intro exI[of _ "r2 # rs'"] exI[of _ c3]) simp
qed

lemma decode_group_ok:
  assumes i: "serve_inv c (rs @ others) os H R" and "\<not> rc_strip_thinking c" and "length ts = length rs"
    and "\<forall>r \<in> set rs. computed_req w r"
  shows "\<exists>rs' c1 c'. decode_results env cf rs ts (group_begin c) = Some (rs', c1) \<and> group_end c1 = Some c' \<and>
    serve_inv c' (unfinished rs' @ others) os H R \<and> same_config c c' \<and> list_all2 (result_of w) rs rs'"
proof -
  note A = kv_invD[OF serveD(1)[OF i]]
  have g: "\<not> al_paged (rc_alloc c)" "is_not_in_free_group (rc_alloc c)"
    using A(4,5) alloc_token[OF A(5,4)] by (simp_all add: token_inv_def)
  note B = in_group_begin[OF g]
  have "serve_inv (settled (group_begin c)) (rs @ others) os H R" unfolding B(2) by (rule serve_free_group[OF i])
  moreover have "\<not> rc_strip_thinking (group_begin c)" using assms(2) by (simp add: group_begin_def)
  ultimately obtain rs' c1 where d: "decode_results env cf rs ts (group_begin c) = Some (rs', c1)" "in_group c1"
    "serve_inv (settled c1) (unfinished rs' @ others) os H R" "same_config (settled (group_begin c)) (settled c1)"
    "list_all2 (result_of w) rs rs'"
    using decode_results_ok[OF B(1), of rs others os H R ts w env cf] assms(3,4) by blast
  from group_end_settled[OF d(2)] obtain fg where e: "group_end c1 = Some (with_alloc ((settle (rc_alloc c1))\<lparr>free_group := fg\<rparr>) c1)"
    by blast
  have "with_alloc ((settle (rc_alloc c1))\<lparr>free_group := fg\<rparr>) c1 = with_alloc ((rc_alloc (settled c1))\<lparr>free_group := fg\<rparr>) (settled c1)"
    by (simp add: settled_def with_alloc_def)
  with e serve_free_group[OF d(3), of fg] have "serve_inv (with_alloc ((settle (rc_alloc c1))\<lparr>free_group := fg\<rparr>) c1) (unfinished rs' @ others) os H R"
    by simp
  moreover have "same_config c (with_alloc ((settle (rc_alloc c1))\<lparr>free_group := fg\<rparr>) c1)"
    using d(4) unfolding B(2) by (simp add: same_config_def settled_def with_alloc_def)
  ultimately show ?thesis using d(1,5) e by blast
qed

end
