(* ===== verification/SchedLife.thy ===== *)
theory SchedLife
  imports BatchResults
begin

text \<open>
  The invariant \<open>sched_inv\<close> of the scheduler between two iterations of its loop, and the memory checks that
  follow from it.
\<close>

section \<open>The invariant\<close>

text \<open>A tensor row per request; finished requests have nothing left, the others are between two steps.\<close>

definition at_rest :: "int \<Rightarrow> sched_req \<Rightarrow> bool" where
  "at_rest w r \<longleftrightarrow> (if finished r then req_pool_idx r = None \<and> kv_committed_freed r \<and> kv_overallocated_freed r
     else active_req w r)"

definition rows_match :: "sched_batch \<Rightarrow> bool" where
  "rows_match b \<longleftrightarrow> bt_reqs b = [] \<or>
     length (bt_pool_indices b) = length (bt_reqs b) \<and> length (bt_seq_lens b) = length (bt_reqs b) \<and>
     (\<forall>i < length (bt_reqs b). \<not> finished (bt_reqs b ! i) \<longrightarrow>
        bt_pool_indices b ! i = the (req_pool_idx (bt_reqs b ! i)) \<and> bt_seq_lens b ! i = kv_committed_len (bt_reqs b ! i))"

definition batch_at_rest :: "int \<Rightarrow> sched_batch \<Rightarrow> bool" where
  "batch_at_rest w b \<longleftrightarrow> rows_match b \<and> (\<forall>r \<in> set (bt_reqs b). at_rest w r)"

definition within_limit :: "sched_batch \<Rightarrow> bool" where
  "within_limit b \<longleftrightarrow> (\<forall>r \<in> set (bt_reqs b). int (length (output_ids r)) \<le> max_new_tokens r)"

definition waiting_req :: "int \<Rightarrow> bool \<Rightarrow> sched_req \<Rightarrow> bool" where
  "waiting_req w prio r \<longleftrightarrow> req_pool_idx r = None \<and> \<not> finished r \<and> \<not> kv_committed_freed r \<and> \<not> kv_overallocated_freed r \<and>
     fits_row w r \<and> (output_ids r = [] \<or> int (length (output_ids r)) < max_new_tokens r) \<and>
     (prio \<longrightarrow> req_priority r \<noteq> None)"

definition config_ok :: "sched_config \<Rightarrow> bool" where
  "config_ok cf \<longleftrightarrow> cf_page_size cf = 1 \<and> 0 \<le> max_total_num_tokens cf \<and> 0 < max_req_input_len cf \<and>
     max_req_input_len cf < max_req_len cf \<and> (\<forall>m. max_queued_requests cf = Some m \<longrightarrow> 1 \<le> m) \<and>
     0 \<le> clip_max_new cf \<and> 0 \<le> retract_decode_steps cf \<and> (\<forall>al. truncation_align_size cf = Some al \<longrightarrow> 0 < al)"

definition environment_ok :: "environment \<Rightarrow> bool" where
  "environment_ok env \<longleftrightarrow> (\<forall>q. mset (env_shuffle env q) = mset q)"

definition ratio_ok :: "ratio_tracker \<Rightarrow> bool" where
  "ratio_ok t \<longleftrightarrow> 0 \<le> rt_current t \<and> 0 \<le> rt_init t \<and> 0 \<le> rt_min t"

text \<open>The cache and the allocator as the configuration has them.\<close>

definition cache_ok :: "sched_config \<Rightarrow> radix_cache \<Rightarrow> bool" where
  "cache_ok cf c \<longleftrightarrow> \<not> rc_strip_thinking c \<and> al_size (rc_alloc c) = max_total_num_tokens cf \<and>
     max_req_len cf \<le> int (rp_max_context_len (rc_pool c)) \<and> 0 < rp_size (rc_pool c)"

definition extend_reqs :: "last_batch \<Rightarrow> sched_req list" where
  "extend_reqs l = (case l of Extend_batch b \<Rightarrow> bt_reqs b | _ \<Rightarrow> [])"

definition live :: "scheduler \<Rightarrow> sched_req list" where
  "live s = unfinished (extend_reqs (last_batch s)) @ unfinished (bt_reqs (running_batch s))"

text \<open>What holds of the state but for the last batch.\<close>

definition core_inv :: "sched_config \<Rightarrow> sched_req list \<Rightarrow> scheduler \<Rightarrow> bool" where
  "core_inv cf rs s \<longleftrightarrow> serve_inv (tree_cache s) rs ([] :: sched_req list) {#} {} \<and> cache_ok cf (tree_cache s) \<and>
     batch_at_rest (max_req_len cf) (running_batch s) \<and> within_limit (running_batch s) \<and>
     (\<forall>r \<in> set (waiting_queue s). waiting_req (max_req_len cf) (enable_priority_scheduling (sd_policy s)) r) \<and>
     plain_config (queue_tree s) \<and> 0 < rc_page_size (queue_tree s) \<and> ratio_ok (ratio_track s)"

definition sched_inv :: "sched_config \<Rightarrow> scheduler \<Rightarrow> bool" where
  "sched_inv cf s \<longleftrightarrow> core_inv cf (live s) s \<and>
     (case last_batch s of Extend_batch b \<Rightarrow> batch_at_rest (max_req_len cf) b | _ \<Rightarrow> True)"

text \<open>Every request that arrived is waiting, live, or was answered.\<close>

fun out_rid :: "outgoing \<Rightarrow> string" where
  "out_rid (Finished r) = rid r"
| "out_rid (Aborted name) = name"

definition tracked :: "sched_req list \<Rightarrow> scheduler \<Rightarrow> string multiset" where
  "tracked rs s = mset (map rid (waiting_queue s)) + mset (map rid rs) + mset (map out_rid (outbox s))"

text \<open>The tokens the requests may still generate, and one for every request.\<close>

definition steps_left :: "sched_req \<Rightarrow> nat" where
  "steps_left r = Suc (nat (max_new_tokens r - int (length (output_ids r))))"

definition load :: "sched_req list \<Rightarrow> scheduler \<Rightarrow> nat" where
  "load rs s = sum_list (map steps_left (waiting_queue s)) + sum_list (map steps_left rs)"

lemma load_perm: "mset rs = mset rs' \<Longrightarrow> load rs s = load rs' s"
  unfolding load_def by (metis mset_map sum_mset_sum_list)

text \<open>
  What the flags of the batches mean between two iterations: a prefill-only batch has nothing left to decode, and
  an empty running batch is full only if the last prefill batch is still to be merged.
\<close>

definition last_ok :: "sched_batch \<Rightarrow> bool" where
  "last_ok b \<longleftrightarrow> bt_reqs b \<noteq> [] \<and> \<not> batch_is_full b \<and> (is_prefill_only b \<longrightarrow> unfinished (bt_reqs b) = [])"

definition flags_ok :: "scheduler \<Rightarrow> bool" where
  "flags_ok s \<longleftrightarrow> (is_prefill_only (running_batch s) \<longrightarrow> unfinished (bt_reqs (running_batch s)) = []) \<and>
     (case last_batch s of Extend_batch b \<Rightarrow> last_ok b
      | _ \<Rightarrow> batch_is_full (running_batch s) \<longrightarrow> bt_reqs (running_batch s) \<noteq> [])"

lemma core_invD:
  assumes "core_inv cf rs s"
  shows "serve_inv (tree_cache s) rs ([] :: sched_req list) {#} {}" "cache_ok cf (tree_cache s)"
    "batch_at_rest (max_req_len cf) (running_batch s)" "within_limit (running_batch s)"
    "\<And>r. r \<in> set (waiting_queue s) \<Longrightarrow> waiting_req (max_req_len cf) (enable_priority_scheduling (sd_policy s)) r"
    "plain_config (queue_tree s)" "0 < rc_page_size (queue_tree s)" "ratio_ok (ratio_track s)"
  using assms unfolding core_inv_def by blast+

lemma cache_ok_config: "cache_ok cf c \<Longrightarrow> same_config c c' \<Longrightarrow> cache_ok cf c'"
  by (simp add: cache_ok_def same_config_def)

lemma mset_tracked_perm: "mset rs = mset rs' \<Longrightarrow> tracked rs s = tracked rs' s"
  by (simp add: tracked_def)

lemma core_perm: "core_inv cf rs s \<Longrightarrow> mset rs = mset rs' \<Longrightarrow> core_inv cf rs' s"
  unfolding core_inv_def using serve_perm by blast

section \<open>The memory checks\<close>

text \<open>Free, cached and owned slots make up the pool.\<close>

lemma slots_add_up:
  assumes i: "serve_inv c rs os {#} {}"
  shows "allocator_available_size (rc_alloc c) + evictable_size c + protected_size c + int (length (own_slots c rs)) =
    int (card {1..al_size (rc_alloc c)})"
proof -
  note A = kv_invD[OF serveD(1)[OF i]] and S = kv_sizes[OF serveD(1)[OF i]] and F = finite_slots[OF serveD(1)[OF i]]
  let ?f = "alloc_free_slots (rc_alloc c)" and ?k = "slots_cached c" and ?o = "set (own_slots c rs)"
  have "?f \<union> ?k \<union> ?o = {1..al_size (rc_alloc c)}" using A(4,7) by (simp add: alloc_universe_def)
  moreover have "card (?f \<union> ?k \<union> ?o) = card ?f + card ?k + card ?o"
    using F A(8-10) by (subst card_Un_disjoint) (auto simp: card_Un_disjoint)
  moreover have "card ?o = length (own_slots c rs)" using serveD(2)[OF i] by (rule distinct_card)
  ultimately show ?thesis using S by simp
qed

lemma uncached_own:
  assumes "\<forall>r \<in> set rs. if finished r then req_pool_idx r = None \<and> kv_committed_freed r \<and> kv_overallocated_freed r else running_ok c r"
  shows "uncached_sizes 1 rs = Some (int (length (own_slots c (unfinished rs))))"
  using assms
proof (induction rs)
  case (Cons r rs)
  show ?case
  proof (cases "finished r")
    case True
    then show ?thesis using Cons by (simp add: assert_that_def)
  next
    case False
    then have ok: "running_ok c r" using Cons.prems by auto
    from running_okE[OF ok] obtain idx n where r: "req_pool_idx r = Some idx" "kv_committed_len r = int (committed r)"
      "committed r \<le> length (req_row c r)" "kv_allocated_len r = kv_committed_len r" "\<not> kv_committed_freed r"
      "\<not> kv_overallocated_freed r" "req_holds c r n (units (req_radix_key c r (take (committed r) (token_seq r)))) (held c r)"
      by metis
    from r(7) obtain ys where "path_of c n ys" and ys: "cache_protected_len r = int (length ys)"
      "map snd ys = take (length ys) (held c r)" "req_own r (held c r) = drop (length ys) (held c r)"
      by (rule req_holdsE)
    have "length ys \<le> length (held c r)" using arg_cong[OF ys(2), of length] by simp
    then have "int (length (req_own r (held c r))) = kv_allocated_len r - cache_protected_len r"
      unfolding ys(1,3) using r(2-4) by (simp add: held_def)
    then show ?thesis using Cons r False by (simp add: assert_that_def)
  qed
qed simp

lemma at_rest_parts:
  assumes "\<forall>r \<in> set (bs :: sched_req list). at_rest w r" and "\<And>r. r \<in> set (unfinished bs) \<Longrightarrow> running_ok c r"
  shows "\<forall>r \<in> set bs. if finished r then req_pool_idx r = None \<and> kv_committed_freed r \<and> kv_overallocated_freed r else running_ok c r"
  using assms by (auto simp: at_rest_def unfinished_def)

lemma busy_check_ok:
  assumes i: "sched_inv cf s" and cf: "config_ok cf"
  shows "self_check_during_busy cf s"
proof -
  have c: "core_inv cf (live s) s" using i by (simp add: sched_inv_def)
  note C = core_invD[OF c]
  let ?rs = "extend_reqs (last_batch s) @ bt_reqs (running_batch s)"
  have "\<forall>r \<in> set ?rs. at_rest (max_req_len cf) r"
    using i C(3) by (auto simp: sched_inv_def batch_at_rest_def extend_reqs_def split: last_batch.splits)
  moreover have "running_ok (tree_cache s) r" if "r \<in> set (unfinished ?rs)" for r
    using serveD(7)[OF C(1)] that by (simp add: live_def)
  ultimately have "uncached_sizes 1 ?rs = Some (int (length (own_slots (tree_cache s) (unfinished ?rs))))"
    by (intro uncached_own at_rest_parts) auto
  moreover have "total_uncached_sizes cf s = uncached_sizes 1 ?rs"
    using cf by (cases "last_batch s") (simp_all add: total_uncached_sizes_def extend_reqs_def config_ok_def)
  ultimately have "total_uncached_sizes cf s = Some (int (length (own_slots (tree_cache s) (live s))))"
    by (simp add: live_def)
  then show ?thesis using slots_add_up[OF C(1)] C(2) cf
    by (simp add: self_check_during_busy_def check_full_pool_def check_pool_invariant_def cache_ok_def config_ok_def)
qed

lemma idle_check_ok:
  assumes c: "core_inv cf [] s" and cf: "config_ok cf"
  shows "idle_check cf s"
proof -
  note C = core_invD[OF c] and A = serveD[OF core_invD(1)[OF c]]
  have "length (rp_free_slots (rc_pool (tree_cache s))) = card {1..rp_size (rc_pool (tree_cache s))}"
    using A(4,5) distinct_card by fastforce
  then show ?thesis using slots_add_up[OF C(1)] C(2) cf
    by (simp add: idle_check_def check_full_pool_def check_pool_invariant_def cache_ok_def config_ok_def)
qed

end
