(* ===== verification/SchedQueue.thy ===== *)
theory SchedQueue
  imports SchedLife
begin

text \<open>
  Requests that enter and leave the waiting queue: what is accepted fits, a bounded queue stays bounded,
  and nobody is dropped without an answer.
\<close>

section \<open>Validation\<close>

definition arrives :: "generate_req \<Rightarrow> bool" where
  "arrives g \<longleftrightarrow> req_pool_idx (rq_req g) = None \<and> \<not> finished (rq_req g) \<and> \<not> kv_committed_freed (rq_req g) \<and>
     \<not> kv_overallocated_freed (rq_req g) \<and> output_ids (rq_req g) = [] \<and> origin_input_ids (rq_req g) \<noteq> [] \<and> inflight_middle_chunks (rq_req g) = 0"

lemma init_max_bounds:
  fixes cf wanted r
  defines "r' \<equiv> init_req_max_new_tokens cf wanted r"
  shows "0 \<le> max_new_tokens r'"
    and "max_new_tokens r' = 0 \<or> int (length (origin_input_ids r)) + max_new_tokens r' < max_req_len cf"
  unfolding r'_def by (auto simp: init_req_max_new_tokens_def Let_def)

lemma validate_cases:
  assumes "validate_input_length cf r = (e, r')"
  obtains (ok) "e = None" "r' = r" "int (length (origin_input_ids r)) < max_req_input_len cf"
    | (cut) "e = None" "r' = r\<lparr>origin_input_ids := slice_to (origin_input_ids r) (max_req_input_len cf)\<rparr>"
        "int (length (origin_input_ids r)) \<ge> max_req_input_len cf"
    | (bad) "e = Some input_too_long" "r' = r" "int (length (origin_input_ids r)) \<ge> max_req_input_len cf"
proof (cases "int (length (origin_input_ids r)) < max_req_input_len cf")
  case True
  then show ?thesis using assms ok by (simp add: validate_input_length_def)
next
  case False
  then show ?thesis using assms cut bad by (cases "allow_auto_truncate cf") (simp_all add: validate_input_length_def)
qed

text \<open>A request that goes to the queue fits in its row, whichever branch it takes.\<close>

definition queued :: "int \<Rightarrow> sched_req \<Rightarrow> bool" where
  "queued w r \<longleftrightarrow> waiting_req w False r"

lemma handle_cases:
  assumes cf: "config_ok cf" and g: "arrives g"
  shows "\<exists>r. handle_generate_request cf now g s = add_request_to_queue cf now r s \<and> queued (max_req_len cf) r \<and>
    rid r = rid (rq_req g)"
proof -
  let ?r0 = "init_req_max_new_tokens cf (rq_max_new g) (rq_req g)"
  have i: "origin_input_ids ?r0 = origin_input_ids (rq_req g)" "rid ?r0 = rid (rq_req g)" "req_pool_idx ?r0 = None"
    "\<not> finished ?r0" "\<not> kv_committed_freed ?r0" "\<not> kv_overallocated_freed ?r0" "output_ids ?r0 = []"
    "inflight_middle_chunks ?r0 = 0"
    using g by (simp_all add: init_req_max_new_tokens_def Let_def arrives_def finished_def)
  note M = init_max_bounds[of cf "rq_max_new g" "rq_req g"]
  have w: "0 < max_req_input_len cf" "max_req_input_len cf < max_req_len cf" using cf by (simp_all add: config_ok_def)
  have "1 \<le> int (length (origin_input_ids (rq_req g)))" using g by (cases "origin_input_ids (rq_req g)") (simp_all add: arrives_def)
  then have m: "1 + max_new_tokens ?r0 < max_req_len cf" using M w by auto
  obtain e r1 where v: "validate_input_length cf ?r0 = (e, r1)" by fastforce
  have ab: "queued (max_req_len cf) (set_finish_with_abort x (y\<lparr>logprob_start_len := z\<rparr>))"
    if "req_pool_idx y = None" "finished_reason y = None" "\<not> kv_committed_freed y" "\<not> kv_overallocated_freed y" "output_ids y = []"
      "inflight_middle_chunks y = 0" "max_new_tokens y = max_new_tokens ?r0" for x y z
    using that m M(1) by (simp add: queued_def waiting_req_def fits_row_def set_finish_with_abort_def finished_def)
  have go: "\<exists>r. handle_generate_request cf now g s = add_request_to_queue cf now r s \<and> queued (max_req_len cf) r \<and> rid r = rid (rq_req g)"
    if "e = None" "fits_row (max_req_len cf) r1" "rid r1 = rid ?r0" "req_pool_idx r1 = None" "\<not> finished r1" "\<not> kv_committed_freed r1"
      "\<not> kv_overallocated_freed r1" "output_ids r1 = []" "max_new_tokens r1 = max_new_tokens ?r0"
  proof -
    define l where "l = (let start = (if \<not> rq_return_logprob g \<and> rq_logprob_start_len g \<noteq> -1 then -1 else rq_logprob_start_len g);
                 len = int (length (origin_input_ids r1))
             in (if start = -1 then
                      (if rq_return_logprob g \<and> \<not> rq_token_ids_logprob g then len
                       else if request_prefill_only r1 then len else -1)
                    else start))"
    let ?r2 = "r1\<lparr>logprob_start_len := l\<rparr>"
    have h: "handle_generate_request cf now g s =
        (if l > int (length (origin_input_ids r1))
         then add_request_to_queue cf now (set_finish_with_abort logprob_too_high (?r2\<lparr>logprob_start_len := -1\<rparr>)) s
         else add_request_to_queue cf now ?r2 s)"
      unfolding handle_generate_request_def Let_def v l_def using that(1) by simp
    have a: "queued (max_req_len cf) (set_finish_with_abort logprob_too_high (?r2\<lparr>logprob_start_len := -1\<rparr>))"
      using that by (intro ab) (simp_all add: finished_def fits_row_def)
    have b: "queued (max_req_len cf) ?r2"
      using that by (simp add: queued_def waiting_req_def fits_row_def finished_def)
    show ?thesis unfolding h using a b that(3) i(2)
      by (cases "l > int (length (origin_input_ids r1))") (force simp: set_finish_with_abort_def)+
  qed
  from v show ?thesis
  proof (cases rule: validate_cases)
    case ok
    have "fits_row (max_req_len cf) r1" using M w ok i by (auto simp: fits_row_def)
    then show ?thesis using go ok i by simp
  next
    case cut
    have "length (origin_input_ids r1) = nat (max_req_input_len cf)" using cut w by (simp add: slice_to_nonneg)
    then have "fits_row (max_req_len cf) r1" using M w cut i by (auto simp: fits_row_def)
    then show ?thesis using go cut i by (simp add: finished_def)
  next
    case bad
    have "handle_generate_request cf now g s = add_request_to_queue cf now (set_finish_with_abort input_too_long r1) s"
      unfolding handle_generate_request_def Let_def v using bad by simp
    moreover have "queued (max_req_len cf) (set_finish_with_abort input_too_long r1)"
      using bad m M(1) i by (simp add: queued_def waiting_req_def fits_row_def set_finish_with_abort_def finished_def)
    moreover have "rid (set_finish_with_abort input_too_long r1) = rid (rq_req g)"
      using bad i by (simp add: set_finish_with_abort_def)
    ultimately show ?thesis by blast
  qed
qed

text \<open>
  With \<open>allow_auto_truncate\<close> the number of tokens to generate is computed for the prompt before it is cut: a
  prompt that fills a row gets no tokens, although the cut leaves room for some.
\<close>

lemma truncated_prompt_gets_no_tokens:
  assumes "allow_auto_truncate cf" and "0 \<le> max_req_input_len cf" and "max_req_input_len cf < max_req_len cf"
    and "max_req_len cf \<le> int (length (origin_input_ids r)) + 1"
    and "validate_input_length cf (init_req_max_new_tokens cf wanted r) = (err, r')"
  shows "err = None \<and> max_new_tokens r' = 0 \<and> int (length (origin_input_ids r')) = max_req_input_len cf"
  using assms by (auto simp: validate_input_length_def init_req_max_new_tokens_def Let_def slice_to_nonneg split: if_splits)

section \<open>The bounded queue\<close>

lemma least_preferred_in:
  "least_preferred d m xs \<in> set (m # xs)"
  by (induction d m xs rule: least_preferred.induct) auto

definition queue_only :: "scheduler \<Rightarrow> scheduler \<Rightarrow> bool" where
  "queue_only s s' \<longleftrightarrow> s'\<lparr>waiting_queue := [], outbox := []\<rparr> = s\<lparr>waiting_queue := [], outbox := []\<rparr>"

lemma queue_only_simps [simp]:
  "queue_only s s" "queue_only s (s\<lparr>waiting_queue := q\<rparr>)" "queue_only s (s\<lparr>outbox := out\<rparr>)"
  "queue_only s (s\<lparr>waiting_queue := q, outbox := out\<rparr>)"
  by (simp_all add: queue_only_def)

lemma queue_only_trans: "queue_only a b \<Longrightarrow> queue_only b c \<Longrightarrow> queue_only a c"
  by (simp add: queue_only_def)

lemma queue_only_fields:
  assumes "queue_only s s'"
  shows "tree_cache s' = tree_cache s" "sd_policy s' = sd_policy s" "queue_tree s' = queue_tree s"
    "running_batch s' = running_batch s" "last_batch s' = last_batch s" "ratio_track s' = ratio_track s"
  using assms by (cases s; cases s'; simp add: queue_only_def)+

lemma core_queue_only:
  assumes "core_inv cf rs s" and "queue_only s s'"
    and "\<And>r. r \<in> set (waiting_queue s') \<Longrightarrow> waiting_req (max_req_len cf) (enable_priority_scheduling (sd_policy s)) r"
  shows "core_inv cf rs s'"
  using assms queue_only_fields[OF assms(2)] by (simp add: core_inv_def)

lemma waiting_prio: "queued w r \<Longrightarrow> (prio \<Longrightarrow> req_priority r \<noteq> None) \<Longrightarrow> waiting_req w prio r"
  by (simp add: queued_def waiting_req_def)

definition rids_fresh :: "string \<Rightarrow> scheduler \<Rightarrow> bool" where
  "rids_fresh x s \<longleftrightarrow> x \<notin> rid ` set (waiting_queue s)"

lemma queued_limit_ok:
  assumes c: "core_inv cf rs s" and cf: "config_ok cf" and f: "rids_fresh (rid r) s"
    and p: "enable_priority_scheduling (sd_policy s) \<Longrightarrow> req_priority r \<noteq> None"
  shows "\<exists>ab s'. abort_on_queued_limit cf r s = Some (ab, s') \<and> queue_only s s' \<and> set (waiting_queue s') \<subseteq> set (waiting_queue s) \<and>
    tracked rs s' = (if ab then add_mset (rid r) (tracked rs s) else tracked rs s) \<and>
    (\<not> ab \<longrightarrow> (case max_queued_requests cf of None \<Rightarrow> True | Some m \<Rightarrow> int (length (waiting_queue s')) + 1 \<le> m \<or>
       length (waiting_queue s') < length (waiting_queue s))) \<and> length (waiting_queue s') \<le> length (waiting_queue s) \<and>
    load rs s' \<le> load rs s"
proof (cases "case max_queued_requests cf of None \<Rightarrow> True | Some m \<Rightarrow> int (length (waiting_queue s)) + 1 \<le> m")
  case True
  then show ?thesis by (intro exI[of _ False] exI[of _ s]) (auto simp: abort_on_queued_limit_def split: option.splits)
next
  case full: False
  then obtain m where m: "max_queued_requests cf = Some m" "int (length (waiting_queue s)) + 1 > m" by (auto split: option.splits)
  show ?thesis
  proof (cases "enable_priority_scheduling (sd_policy s)")
    case False
    then show ?thesis using full
      by (intro exI[of _ True] exI[of _ "s\<lparr>outbox := outbox s @ [Aborted (rid r)]\<rparr>"])
        (auto simp: abort_on_queued_limit_def tracked_def load_def)
  next
    case True
    have "1 \<le> m" using cf m(1) by (simp add: config_ok_def)
    then have "length (List.enumerate 0 (waiting_queue s)) \<noteq> 0" using m(2) by auto
    then obtain e es where e: "List.enumerate 0 (waiting_queue s) = e # es" by (cases "List.enumerate 0 (waiting_queue s)") auto
    let ?d = "if low_priority_values_first (sd_policy s) then 1 else - 1 :: int"
    obtain idx cand where l: "least_preferred ?d e es = (idx, cand)" by fastforce
    have "(idx, cand) \<in> set (List.enumerate 0 (waiting_queue s))" using least_preferred_in[of ?d e es] unfolding l e .
    then have ix: "idx < length (waiting_queue s)" "cand = waiting_queue s ! idx" by (auto simp: in_set_enumerate_eq)
    have pr: "\<not> list_ex (\<lambda>r. req_priority r = None) (r # waiting_queue s)"
      using p[OF True] core_invD(5)[OF c] True by (auto simp: list_ex_iff waiting_req_def)
    obtain y where y: "req_priority r = Some y" using p[OF True] by auto
    show ?thesis
    proof (cases "?d * the (req_priority r) < ?d * the (req_priority cand)")
      case yes: True
      let ?q = "take idx (waiting_queue s) @ drop (Suc idx) (waiting_queue s)"
      let ?s = "s\<lparr>waiting_queue := ?q, outbox := outbox s @ [Aborted (rid cand)]\<rparr>"
      have sp: "waiting_queue s = take idx (waiting_queue s) @ cand # drop (Suc idx) (waiting_queue s)"
        using ix by (simp add: id_take_nth_drop)
      have "cand \<in> set (waiting_queue s)" using ix by simp
      then have ne: "rid cand \<noteq> rid r" using f imageI[of cand "set (waiting_queue s)" rid] unfolding rids_fresh_def by metis
      have "abort_on_queued_limit cf r s = Some (False, ?s)"
        using full True e l pr yes ne y by (simp add: abort_on_queued_limit_def Let_def split del: if_split)
      moreover have "tracked rs ?s = tracked rs s" unfolding tracked_def by (subst (2) sp) simp
      moreover have "set ?q \<subseteq> set (waiting_queue s)" by (subst (3) sp) auto
      moreover have "length ?q < length (waiting_queue s)" using ix(1) by simp
      moreover have "load rs ?s \<le> load rs s" unfolding load_def by (subst (2) sp) simp
      ultimately show ?thesis by (intro exI[of _ False] exI[of _ ?s]) (auto simp: m(1))
    next
      case no: False
      have "abort_on_queued_limit cf r s = Some (True, s\<lparr>outbox := outbox s @ [Aborted (rid r)]\<rparr>)"
        using full True e l pr no y by (simp add: abort_on_queued_limit_def Let_def split del: if_split)
      then show ?thesis
        by (intro exI[of _ True] exI[of _ "s\<lparr>outbox := outbox s @ [Aborted (rid r)]\<rparr>"]) (auto simp: tracked_def load_def)
    qed
  qed
qed

definition queue_bounded :: "sched_config \<Rightarrow> scheduler \<Rightarrow> bool" where
  "queue_bounded cf s \<longleftrightarrow> (\<forall>m. max_queued_requests cf = Some m \<longrightarrow> int (length (waiting_queue s)) \<le> m)"

lemma queue_bounded_le: "queue_bounded cf s \<Longrightarrow> length (waiting_queue s') \<le> length (waiting_queue s) \<Longrightarrow> queue_bounded cf s'"
  by (force simp: queue_bounded_def)

lemma add_request_ok:
  assumes c: "core_inv cf rs s" and cf: "config_ok cf" and f: "rids_fresh (rid r) s" and q: "queued (max_req_len cf) r"
  shows "\<exists>s'. add_request_to_queue cf now r s = Some s' \<and> core_inv cf rs s' \<and> queue_only s s' \<and>
    tracked rs s' = add_mset (rid r) (tracked rs s) \<and> rid ` set (waiting_queue s') \<subseteq> insert (rid r) (rid ` set (waiting_queue s)) \<and>
    (queue_bounded cf s \<longrightarrow> queue_bounded cf s') \<and> load rs s' \<le> steps_left r + load rs s"
proof (cases "set_or_validate_priority cf r s")
  case None
  then show ?thesis using c
    by (intro exI[of _ "s\<lparr>outbox := outbox s @ [Aborted (rid r)]\<rparr>"])
      (auto simp: add_request_to_queue_def tracked_def core_inv_def queue_bounded_def load_def split: option.splits)
next
  case (Some p)
  then obtain r1 where r1: "set_or_validate_priority cf r s = Some (r1, s)" "rid r1 = rid r" "queued (max_req_len cf) r1"
    "enable_priority_scheduling (sd_policy s) \<Longrightarrow> req_priority r1 \<noteq> None" "steps_left r1 = steps_left r"
    using q by (auto simp: steps_left_def set_or_validate_priority_def queued_def waiting_req_def fits_row_def finished_def split: if_splits)
  from queued_limit_ok[OF c cf, of r1] f r1 obtain ab s1 where l: "abort_on_queued_limit cf r1 s = Some (ab, s1)" "queue_only s s1"
    "set (waiting_queue s1) \<subseteq> set (waiting_queue s)"
    "tracked rs s1 = (if ab then add_mset (rid r) (tracked rs s) else tracked rs s)"
    "\<not> ab \<longrightarrow> (case max_queued_requests cf of None \<Rightarrow> True | Some m \<Rightarrow> int (length (waiting_queue s1)) + 1 \<le> m \<or>
       length (waiting_queue s1) < length (waiting_queue s))" "length (waiting_queue s1) \<le> length (waiting_queue s)"
    "load rs s1 \<le> load rs s" by auto
  have w1: "waiting_req (max_req_len cf) (enable_priority_scheduling (sd_policy s)) x" if "x \<in> set (waiting_queue s1)" for x
    using core_invD(5)[OF c] l(3) that by blast
  show ?thesis
  proof (cases ab)
    case True
    then have "add_request_to_queue cf now r s = Some s1" using r1(1) l(1) by (simp add: add_request_to_queue_def)
    then show ?thesis using core_queue_only[OF c l(2) w1] l True
      by (intro exI[of _ s1]) (auto simp: queue_bounded_def split: option.splits)
  next
    case False
    let ?s = "s1\<lparr>waiting_queue := waiting_queue s1 @ [r1\<lparr>wait_queue_entry_time := now\<rparr>]\<rparr>"
    have "add_request_to_queue cf now r s = Some ?s" using r1(1) l(1) False by (simp add: add_request_to_queue_def)
    moreover have qo: "queue_only s ?s" using queue_only_trans[OF l(2)] by simp
    moreover have "queued (max_req_len cf) (r1\<lparr>wait_queue_entry_time := now\<rparr>)"
      using r1(3) by (simp add: queued_def waiting_req_def fits_row_def finished_def)
    then have "waiting_req (max_req_len cf) (enable_priority_scheduling (sd_policy s)) x" if "x \<in> set (waiting_queue ?s)" for x
      using w1 waiting_prio r1(4) that by auto
    then have "core_inv cf rs ?s" by (rule core_queue_only[OF c qo])
    moreover have "tracked rs ?s = add_mset (rid r) (tracked rs s)" using l(4) False r1(2) by (simp add: tracked_def)
    moreover have "load rs ?s \<le> steps_left r + load rs s" using l(7) r1(5) by (simp add: load_def steps_left_def)
    moreover have "rid ` set (waiting_queue ?s) \<subseteq> insert (rid r) (rid ` set (waiting_queue s))" using l(3) r1(2) by auto
    ultimately show ?thesis using l(5) False by (intro exI[of _ ?s]) (auto simp: queue_bounded_def split: option.splits)
  qed
qed

section \<open>Aborts\<close>

lemma serve_to_finish_any:
  assumes i: "serve_inv c (r # rs) os H R"
  shows "serve_inv c (r\<lparr>to_finish := x\<rparr> # rs) os H R"
proof -
  have "running_ok c (r\<lparr>to_finish := x\<rparr>) = running_ok c r" "held c (r\<lparr>to_finish := x\<rparr>) = held c r"
    by (simp_all add: running_ok_def held_def committed_def req_row_def token_seq_def req_holds_def req_radix_key_def)
  then show ?thesis using i by (simp add: serve_inv_def req_own_def)
qed

lemma serve_map_abort:
  "serve_inv c (rs @ others) os H R \<Longrightarrow> serve_inv c (map (abort_running all name) rs @ others) os H R"
proof (induction rs arbitrary: others)
  case (Cons r rs)
  have "serve_inv c (abort_running all name r # rs @ others) os H R"
    using serve_to_finish_any[OF Cons.prems[simplified]] Cons.prems by (simp add: abort_running_def)
  from serve_mid[OF this] have "serve_inv c (rs @ abort_running all name r # others) os H R" .
  from serve_mid'[OF Cons.IH[OF this]] show ?case by simp
qed simp

lemma abort_running_fields:
  "finished (abort_running all name r) = finished r" "rid (abort_running all name r) = rid r"
  "at_rest w (abort_running all name r) = at_rest w r" "req_pool_idx (abort_running all name r) = req_pool_idx r"
  "kv_committed_len (abort_running all name r) = kv_committed_len r" "output_ids (abort_running all name r) = output_ids r"
  "max_new_tokens (abort_running all name r) = max_new_tokens r"
  by (auto simp: abort_running_def finished_def at_rest_def active_req_def fits_row_def token_seq_def committed_def)

lemma unfinished_abort: "unfinished (map (abort_running all name) rs) = map (abort_running all name) (unfinished rs)"
  by (induction rs) (simp_all add: abort_running_fields)

lemma batch_rest_abort:
  assumes "batch_at_rest w b"
  shows "batch_at_rest w (b\<lparr>bt_reqs := map (abort_running all name) (bt_reqs b)\<rparr>)"
  using assms by (auto simp: batch_at_rest_def rows_match_def abort_running_fields)

lemma abort_request_ok:
  assumes i: "sched_inv cf s"
  shows "sched_inv cf (abort_request all name s)"
    and "tracked (live (abort_request all name s)) (abort_request all name s) = tracked (live s) s"
    and "set (waiting_queue (abort_request all name s)) \<subseteq> set (waiting_queue s)"
    and "length (waiting_queue (abort_request all name s)) \<le> length (waiting_queue s)"
proof -
  let ?s = "abort_request all name s" and ?f = "abort_running all name"
  have c: "core_inv cf (live s) s" using i by (simp add: sched_inv_def)
  note C = core_invD[OF c]
  have l: "live ?s = map ?f (live s)"
    by (cases "last_batch s") (simp_all add: live_def extend_reqs_def abort_request_def Let_def unfinished_abort)
  have "serve_inv (tree_cache s) (map ?f (live s)) ([] :: sched_req list) {#} {}"
    by (rule serve_map_abort[where others = "[]", simplified, OF C(1)])
  then have "core_inv cf (live ?s) ?s"
    using C batch_rest_abort[OF C(3)]
    unfolding core_inv_def l by (auto simp: abort_request_def Let_def within_limit_def abort_running_fields)
  then show "sched_inv cf ?s"
    using i batch_rest_abort by (auto simp: sched_inv_def abort_request_def Let_def split: last_batch.splits)
  have "mset (map rid (map ?f (live s))) = mset (map rid (live s))" by (simp add: abort_running_fields comp_def)
  moreover have "mset (map rid (waiting_queue ?s)) + mset (map out_rid (outbox ?s)) =
      mset (map rid (waiting_queue s)) + mset (map out_rid (outbox s))"
  proof -
    have "mset (map rid (filter (\<lambda>r. \<not> aborts all name r) q)) + mset (map rid (filter (aborts all name) q)) = mset (map rid q)" for q
      by (induction q) auto
    then show ?thesis by (simp add: abort_request_def Let_def comp_def)
  qed
  ultimately show "tracked (live ?s) ?s = tracked (live s) s" unfolding l tracked_def by (simp add: ac_simps)
  show "set (waiting_queue ?s) \<subseteq> set (waiting_queue s)" "length (waiting_queue ?s) \<le> length (waiting_queue s)"
    by (auto simp: abort_request_def Let_def)
qed

section \<open>All input of an iteration\<close>

fun recv_rids :: "recv_req list \<Rightarrow> string list" where
  "recv_rids [] = []"
| "recv_rids (Generate g # qs) = rid (rq_req g) # recv_rids qs"
| "recv_rids (Abort all name # qs) = recv_rids qs"

definition arrivals_ok :: "recv_req list \<Rightarrow> bool" where
  "arrivals_ok qs \<longleftrightarrow> (\<forall>g. Generate g \<in> set qs \<longrightarrow> arrives g)"

definition single :: "string multiset \<Rightarrow> bool" where
  "single T \<longleftrightarrow> (\<forall>x. count T x \<le> 1)"

lemma single_sub: "single (A + B) \<Longrightarrow> single A"
  by (simp add: single_def) (meson le_trans le_add1)

lemma single_fresh:
  assumes "single (add_mset x (tracked rs s))"
  shows "rids_fresh x s"
proof (rule ccontr)
  assume "\<not> rids_fresh x s"
  then have "x \<in># mset (map rid (waiting_queue s))" by (auto simp: rids_fresh_def)
  then have "x \<in># tracked rs s" by (auto simp: tracked_def)
  then have "0 < count (tracked rs s) x" by (simp only: count_greater_zero_iff)
  moreover have "count (add_mset x (tracked rs s)) x \<le> 1" using assms unfolding single_def by blast
  moreover have "count (add_mset x (tracked rs s)) x = Suc (count (tracked rs s) x)" by simp
  ultimately show False by linarith
qed

lemma sched_queue_only:
  assumes "sched_inv cf s" and "queue_only s s'" and "core_inv cf (live s) s'"
  shows "sched_inv cf s'" and "live s' = live s"
proof -
  show l: "live s' = live s" using queue_only_fields[OF assms(2)] by (simp add: live_def)
  show "sched_inv cf s'" using assms queue_only_fields[OF assms(2)] unfolding sched_inv_def l by simp
qed

lemma abort_flags: "flags_ok s \<Longrightarrow> flags_ok (abort_request all name s)"
  by (cases "last_batch s") (simp_all add: flags_ok_def abort_request_def Let_def last_ok_def unfinished_abort)

lemma process_input_ok:
  assumes "sched_inv cf s" and "config_ok cf" and "arrivals_ok qs"
    and "single (mset (recv_rids qs) + tracked (live s) s)"
  shows "\<exists>s'. process_input_requests cf now qs s = Some s' \<and> sched_inv cf s' \<and>
    tracked (live s') s' = mset (recv_rids qs) + tracked (live s) s \<and> (queue_bounded cf s \<longrightarrow> queue_bounded cf s') \<and>
    (flags_ok s \<longrightarrow> flags_ok s')"
  using assms
proof (induction qs arbitrary: s)
  case Nil
  then show ?case by simp
next
  case (Cons q qs)
  have aq: "arrivals_ok qs" using Cons.prems(3) by (simp add: arrivals_ok_def)
  have "\<exists>s1. (case q of Generate g \<Rightarrow> handle_generate_request cf now g s | Abort all name \<Rightarrow> Some (abort_request all name s)) = Some s1 \<and>
      sched_inv cf s1 \<and> tracked (live s1) s1 = mset (recv_rids [q]) + tracked (live s) s \<and> (queue_bounded cf s \<longrightarrow> queue_bounded cf s1) \<and>
      (flags_ok s \<longrightarrow> flags_ok s1)"
  proof (cases q)
    case (Abort all name)
    then show ?thesis using abort_request_ok[OF Cons.prems(1), of all name] abort_flags[of s all name]
      by (auto simp: queue_bounded_def split: option.splits intro: order_trans[rotated])
  next
    case (Generate g)
    then have "arrives g" using Cons.prems(3) by (simp add: arrivals_ok_def)
    from handle_cases[OF Cons.prems(2) this, of now s] obtain r where r:
      "handle_generate_request cf now g s = add_request_to_queue cf now r s" "queued (max_req_len cf) r" "rid r = rid (rq_req g)" by blast
    have "mset (recv_rids (q # qs)) + tracked (live s) s = add_mset (rid r) (tracked (live s) s) + mset (recv_rids qs)"
      using Generate r(3) by simp
    then have "single (add_mset (rid r) (tracked (live s) s))" using Cons.prems(4) single_sub by metis
    from add_request_ok[OF _ Cons.prems(2) single_fresh[OF this] r(2), of "live s" now] Cons.prems(1) obtain s1 where s1:
      "add_request_to_queue cf now r s = Some s1" "core_inv cf (live s) s1" "queue_only s s1"
      "tracked (live s) s1 = add_mset (rid r) (tracked (live s) s)" "queue_bounded cf s \<longrightarrow> queue_bounded cf s1"
      by (auto simp: sched_inv_def)
    have "flags_ok s1 = flags_ok s" unfolding flags_ok_def queue_only_fields[OF s1(3)] ..
    then show ?thesis using s1 r(1,3) sched_queue_only[OF Cons.prems(1) s1(3,2)] Generate by simp
  qed
  then obtain s1 where s1: "(case q of Generate g \<Rightarrow> handle_generate_request cf now g s | Abort all name \<Rightarrow> Some (abort_request all name s)) = Some s1"
    "sched_inv cf s1" "tracked (live s1) s1 = mset (recv_rids [q]) + tracked (live s) s" "queue_bounded cf s \<longrightarrow> queue_bounded cf s1"
    "flags_ok s \<longrightarrow> flags_ok s1" by blast
  have rr: "mset (recv_rids (q # qs)) = mset (recv_rids qs) + mset (recv_rids [q])" by (cases q) simp_all
  have "single (mset (recv_rids qs) + tracked (live s1) s1)" using Cons.prems(4) unfolding s1(3) rr by (simp add: add.assoc)
  from Cons.IH[OF s1(2) Cons.prems(2) aq this] s1 rr show ?case by (auto simp: add.assoc)
qed

end
