(* ===== verification/SchedAdmit.thy ===== *)
theory SchedAdmit
  imports SchedQueue
begin

text \<open>Forming a prefill batch (\<open>_get_new_batch_prefill_raw\<close>): the loop over the queue and the step behind it.\<close>

section \<open>The loop over the waiting queue\<close>

lemma same_request_refl [simp]: "same_request r r"
  by (simp add: same_request_def)

lemma allocatable_keeps: "keeps c c' \<Longrightarrow> num_allocatable_reqs cf bs c' = num_allocatable_reqs cf bs c"
  by (simp add: num_allocatable_reqs_def keeps_def)

definition admitted :: "radix_cache \<Rightarrow> sched_req \<Rightarrow> bool" where
  "admitted c x \<longleftrightarrow> staged c x \<and> fill_ids x = token_seq x \<and> cache_protected_len x = int (length (prefix_indices x))"

lemma admit_loop_ok:
  assumes "kv_inv c H R" and "adder_ok 0 p c" and "rem_chunk_tokens p = None" and "config_ok cf"
    and "\<forall>r \<in> set rs. 0 \<le> max_new_tokens r"
  shows "\<exists>q p' full' c' news. admit_loop env cf bs rs full p c = Some (q, p', full', c') \<and> kv_inv c' (H + lock_nodes news) R \<and>
    adder_ok 0 p' c' \<and> keeps c c' \<and> (\<forall>m ys. path_of c m ys \<longrightarrow> path_of c' m ys) \<and> can_run_list p' = can_run_list p @ news \<and>
    (\<forall>x \<in> set news. admitted c' x) \<and> list_all2 same_request q rs \<and> list_all2 same_request news (take (length news) rs) \<and>
    int (length (can_run_list p')) \<le> max (int (length (can_run_list p))) (num_allocatable_reqs cf bs c)"
  using assms
proof (induction rs arbitrary: p c H full)
  case Nil
  then show ?case
    by (intro exI[of _ "[]"] exI[of _ p] exI[of _ full] exI[of _ c]) (simp add: lock_nodes_def)
next
  case (Cons r rs)
  show ?case
  proof (cases "full \<or> int (length (can_run_list p)) \<ge> num_allocatable_reqs cf bs c")
    case True
    then have "admit_loop env cf bs (r # rs) full p c = Some (r # rs, p, True, c)" by simp
    then show ?thesis using Cons.prems(1,2)
      by (intro exI[of _ "r # rs"] exI[of _ p] exI[of _ True] exI[of _ c] exI[of _ "[]"])
        (simp add: lock_nodes_def list_all2_same)
  next
    case False
    have mr: "0 \<le> max_new_tokens r" and al: "\<forall>al. truncation_align_size cf = Some al \<longrightarrow> 0 < al"
      using Cons.prems(4,5) by (simp_all add: config_ok_def)
    from admit_one_ok[where lb = "env_load_back env", OF Cons.prems(1,2) al mr] obtain r1 c1 res r2 p2 c2 one where b:
      "init_next_round_input r c = Some (r1, c1)" "add_one_req (env_load_back env) r1 (truncation_align_size cf) p c1 = Some (res, r2, p2, c2)"
      "kv_inv c2 (H + lock_nodes one) R" "adder_ok 0 p2 c2" "keeps c c2" "\<forall>ys. cached c2 ys = cached c ys"
      "\<forall>m ys. path_of c m ys \<longrightarrow> path_of c2 m ys" "can_run_list p2 = can_run_list p @ one"
      "\<forall>x \<in> set one. staged c2 x \<and> same_request x r" "one = [] \<and> res \<noteq> CONTINUE \<or> length one = 1" "same_request r2 r"
      "rem_chunk_tokens p = None \<longrightarrow> rem_chunk_tokens p2 = None \<and>
        (\<forall>x \<in> set one. fill_ids x = token_seq r \<and> cache_protected_len x = int (length (prefix_indices x)))"
      by (elim exE conjE) (rule that)
    have rc: "rem_chunk_tokens p2 = None" and fl: "\<forall>x \<in> set one. fill_ids x = token_seq r \<and> cache_protected_len x = int (length (prefix_indices x))"
      using b(12) Cons.prems(3) by simp_all
    have one: "admitted c2 x" "same_request x r" if "x \<in> set one" for x
      using bspec[OF b(9) that] bspec[OF fl that] by (simp_all add: admitted_def same_request_def)
    have cnt: "int (length (can_run_list p2)) \<le> max (int (length (can_run_list p))) (num_allocatable_reqs cf bs c)"
      using b(8,10) False by auto
    have nq: "\<not> (full \<or> num_allocatable_reqs cf bs c \<le> int (length (can_run_list p)))" using False by simp
    show ?thesis
    proof (cases "res = CONTINUE")
      case True
      then obtain x where x: "one = [x]" using b(10) by (cases one) auto
      from Cons.IH[OF b(3,4) rc Cons.prems(4), of False] Cons.prems(5) obtain q p3 full3 c3 news where e:
        "admit_loop env cf bs rs False p2 c2 = Some (q, p3, full3, c3)" "kv_inv c3 (H + lock_nodes one + lock_nodes news) R"
        "adder_ok 0 p3 c3" "keeps c2 c3" "\<forall>m ys. path_of c2 m ys \<longrightarrow> path_of c3 m ys" "can_run_list p3 = can_run_list p2 @ news"
        "\<forall>x \<in> set news. admitted c3 x" "list_all2 same_request q rs" "list_all2 same_request news (take (length news) rs)"
        "int (length (can_run_list p3)) \<le> max (int (length (can_run_list p2))) (num_allocatable_reqs cf bs c2)"
        by auto
      have "admit_loop env cf bs (r # rs) full p c = Some (r2 # q, p3, full3, c3)"
        using b(1,2) e(1) True nq by simp
      moreover have "admitted c3 x" using one(1)[of x] x staged_mono[OF _ e(4)] e(5) by (simp add: admitted_def)
      moreover have "kv_inv c3 (H + lock_nodes (x # news)) R" using e(2) unfolding x by simp
      moreover have "int (length (can_run_list p3)) \<le> max (int (length (can_run_list p))) (num_allocatable_reqs cf bs c)"
        using e(10) cnt allocatable_keeps[OF b(5)] by simp
      moreover have "can_run_list p3 = can_run_list p @ x # news" using e(6) b(8) x by simp
      moreover have "\<forall>m ys. path_of c m ys \<longrightarrow> path_of c3 m ys" using b(7) e(5) by simp
      moreover have "same_request x r" using one(2) x by simp
      ultimately show ?thesis using keeps_trans[OF b(5) e(4)] e(3,7,8,9) b(11)
        by (intro exI[of _ "r2 # q"] exI[of _ p3] exI[of _ full3] exI[of _ c3] exI[of _ "x # news"]) simp
    next
      case stop: False
      have "admit_loop env cf bs (r # rs) full p c = Some (r2 # rs, p2, res = NO_TOKEN, c2)"
        using b(1,2) stop nq by simp
      moreover have "list_all2 same_request one (take (length one) (r # rs))" using one(2) b(10) by (cases one) auto
      ultimately show ?thesis using b(3,4,5,7,8,11) one(1) cnt
        by (intro exI[of _ "r2 # rs"] exI[of _ p2] exI[of _ "res = NO_TOKEN"] exI[of _ c2] exI[of _ one]) (simp add: list_all2_same)
    qed
  qed
qed

section \<open>Who leaves the queue\<close>

lemma filter_front:
  assumes "distinct (map f xs)"
  shows "filter (\<lambda>x. f x \<notin> set (take k (map f xs))) xs = drop k xs"
proof -
  have d: "distinct (map f (take k xs) @ map f (drop k xs))" using assms by (metis append_take_drop_id map_append)
  have "filter (\<lambda>x. f x \<notin> set (take k (map f xs))) (take k xs @ drop k xs) = drop k xs"
  proof -
    have "filter (\<lambda>x. f x \<notin> set (take k (map f xs))) (take k xs) = []" by (auto simp: filter_empty_conv take_map)
    moreover have "filter (\<lambda>x. f x \<notin> set (take k (map f xs))) (drop k xs) = drop k xs"
      using d by (intro filter_True) (auto simp: take_map)
    ultimately show ?thesis by (simp only: filter_append append_Nil)
  qed
  then show ?thesis by simp
qed

lemma same_rids: "list_all2 same_request q rs \<Longrightarrow> map rid q = map rid rs"
  by (induction rule: list_all2_induct) (simp_all add: same_request_def)

lemma queue_left:
  assumes "list_all2 same_request q rs" and "list_all2 same_request news (take (length news) rs)" and "distinct (map rid rs)"
  shows "filter (\<lambda>x. rid x \<notin> rid ` set news) q = drop (length news) q"
    and "mset (map rid news) + mset (map rid (drop (length news) q)) = mset (map rid rs)"
proof -
  have q: "map rid q = map rid rs" and n: "map rid news = map rid (take (length news) rs)"
    using same_rids[OF assms(1)] same_rids[OF assms(2)] .
  have "rid ` set news = set (take (length news) (map rid q))" using arg_cong[OF n, of set] by (simp add: q take_map)
  then show "filter (\<lambda>x. rid x \<notin> rid ` set news) q = drop (length news) q"
    using filter_front[of rid q "length news"] assms(3) by (simp add: q)
  have "map rid (drop (length news) q) = map rid (drop (length news) rs)" using q by (metis drop_map)
  then show "mset (map rid news) + mset (map rid (drop (length news) q)) = mset (map rid rs)"
    unfolding n by (metis append_take_drop_id map_append mset_append)
qed

lemma same_steps: "list_all2 same_request q rs \<Longrightarrow> map steps_left q = map steps_left rs"
  by (induction rule: list_all2_induct) (simp_all add: same_request_def steps_left_def)

lemma queue_steps:
  assumes "list_all2 same_request q rs" and "list_all2 same_request news (take (length news) rs)"
  shows "sum_list (map steps_left (drop (length news) q)) + sum_list (map steps_left news) = sum_list (map steps_left rs)"
proof -
  have "map steps_left (drop (length news) q) = map steps_left (drop (length news) rs)"
    using same_steps[OF assms(1)] by (metis drop_map)
  then have "sum_list (map steps_left (drop (length news) q)) + sum_list (map steps_left news) =
      sum_list (map steps_left (take (length news) rs @ drop (length news) rs))"
    unfolding map_append sum_list_append same_steps[OF assms(2)] by simp
  then show ?thesis by simp
qed

lemma steps_unmatched: "mset (map unmatched q) = mset (map unmatched q') \<Longrightarrow> sum_list (map steps_left q) = sum_list (map steps_left q')"
proof -
  assume a: "mset (map unmatched q) = mset (map unmatched q')"
  have "map steps_left q = map steps_left (map unmatched q)" for q by (simp add: steps_left_def unmatched_def)
  moreover have "mset (map steps_left (map unmatched q)) = mset (map steps_left (map unmatched q'))" using a by (metis mset_map)
  ultimately show ?thesis by (metis sum_mset_sum_list)
qed

lemma waiting_same: "waiting_req w prio r \<Longrightarrow> same_request r' r \<Longrightarrow> waiting_req w prio r'"
  by (simp add: waiting_req_def same_request_def fits_row_def finished_def)

lemma waiting_unmatched: "unmatched r' = unmatched r \<Longrightarrow> waiting_req w prio r' = waiting_req w prio r"
proof -
  have "waiting_req w prio r = waiting_req w prio (unmatched r)" for r
    by (simp add: waiting_req_def unmatched_def fits_row_def finished_def)
  then show "unmatched r' = unmatched r \<Longrightarrow> waiting_req w prio r' = waiting_req w prio r" by metis
qed

lemma list_all2_waiting:
  assumes "list_all2 same_request q rs" and "\<forall>r \<in> set rs. waiting_req w prio r"
  shows "\<forall>r \<in> set q. waiting_req w prio r"
  using assms waiting_same by (induction rule: list_all2_induct) auto

section \<open>From the queue to a prefill batch\<close>

lemma serve_no_rows:
  assumes "serve_inv c rs os H R" and "rows_of os' = rows_of os"
  shows "serve_inv c rs os' H R"
  using assms by (simp add: serve_inv_def)

lemma rows_of_none: "\<forall>r \<in> set rs. req_pool_idx r = None \<Longrightarrow> rows_of rs = []"
  by (induction rs) auto

lemma waiting_length:
  assumes "waiting_req w prio r"
  shows "int (length (token_seq r)) \<le> w"
  using assms by (auto simp: waiting_req_def fits_row_def token_seq_def)

lemma own_nothing: "\<forall>x \<in> set qs. admitted c x \<Longrightarrow> staged_own qs = []"
  by (induction qs) (auto simp: staged_own_def admitted_def req_own_def)

lemma prefilled_computed:
  assumes "list_all2 (\<lambda>q r. \<exists>j piece. r = prefilled (q\<lparr>req_pool_idx := Some j\<rparr>) \<and> P q r piece) qs bs"
    and "\<forall>x \<in> set qs. admitted c x \<and> waiting_req w prio x"
  shows "(\<forall>r \<in> set bs. computed_req w r \<and> fill_ids r = token_seq r) \<and> map rid bs = map rid qs \<and>
    map steps_left bs = map steps_left qs \<and> map max_new_tokens bs = map max_new_tokens qs"
  using assms
proof (induction rule: list_all2_induct)
  case (Cons q qs r bs)
  then obtain j where r: "r = prefilled (q\<lparr>req_pool_idx := Some j\<rparr>)" by blast
  have "admitted c q" "waiting_req w prio q" using Cons.prems by auto
  then have "computed_req w r \<and> fill_ids r = token_seq r \<and> rid r = rid q \<and> steps_left r = steps_left q \<and>
      max_new_tokens r = max_new_tokens q"
    by (simp add: steps_left_def r prefilled_def computed_req_def committed_def fits_row_def waiting_req_def admitted_def finished_def token_seq_def)
  then show ?case using Cons by simp
qed simp

text \<open>The step from an admitted batch to computed requests.\<close>

lemma prefill_admitted_ok:
  assumes i: "serve_inv c rs ([] :: sched_req list) (lock_nodes qs) {}" and q: "\<forall>x \<in> set qs. admitted c x \<and> waiting_req w prio x"
    and w: "w \<le> int (rp_max_context_len (rc_pool c))" and rows: "length qs \<le> length (rp_free_slots (rc_pool c))"
    and fits: "sum_list (map extend_input_len qs) \<le> kv_budget c"
  shows "\<exists>b c'. prepare_for_extend empties qs c = Some (b, c') \<and> serve_inv c' (bt_reqs b @ rs) ([] :: sched_req list) {#} {} \<and>
    same_config c c' \<and> (\<forall>r \<in> set (bt_reqs b). computed_req w r \<and> fill_ids r = token_seq r) \<and> map rid (bt_reqs b) = map rid qs \<and>
    map steps_left (bt_reqs b) = map steps_left qs \<and> map max_new_tokens (bt_reqs b) = map max_new_tokens qs \<and>
    bt_seq_lens b = map kv_committed_len (bt_reqs b) \<and> bt_pool_indices b = map (the \<circ> req_pool_idx) (bt_reqs b)"
proof -
  have own: "staged_own qs = []" using own_nothing q by blast
  have no: "\<forall>x \<in> set qs. req_pool_idx x = None" using q by (simp add: waiting_req_def)
  have "rows_of (qs @ []) = rows_of ([] :: sched_req list)" using rows_of_none[OF no] by simp
  from serve_no_rows[OF i this] have st: "stage_inv c qs rs [] {#} {}"
    unfolding stage_inv_def using own q by (simp add: admitted_def waiting_req_def)
  have a: "length (filter (\<lambda>q. req_pool_idx q = None) qs) \<le> length (rp_free_slots (rc_pool c))"
    using rows length_filter_le order_trans by blast
  have b: "\<forall>q \<in> set qs. req_pool_idx q \<noteq> None \<longrightarrow> inflight_middle_chunks q > 0 \<or> kv_committed_len q > 0" using no by simp
  have l: "length (fill_ids x) \<le> length row" if "x \<in> set qs" "row \<in> set (req_to_token (rc_pool c))" for x row
  proof -
    have "int (length (token_seq x)) \<le> w" "fill_ids x = token_seq x" using q that(1) waiting_length by (auto simp: admitted_def)
    then show ?thesis using serveD(8)[OF i that(2)] w by simp
  qed
  from prefill_step_ok[OF st a b _ fits, of empties] l obtain b c' where s: "prepare_for_extend empties qs c = Some (b, c')"
    "serve_inv c' (bt_reqs b @ rs) ([] :: sched_req list) {#} {}"
    "list_all2 (\<lambda>q r. \<exists>j piece. r = prefilled (q\<lparr>req_pool_idx := Some j\<rparr>) \<and> held c' r = prefix_indices q @ piece \<and>
       length piece = nat (extend_input_len q)) qs (bt_reqs b)"
    "bt_seq_lens b = map kv_committed_len (bt_reqs b)" "bt_pool_indices b = map (the \<circ> req_pool_idx) (bt_reqs b)"
    "same_config c c'" by blast
  from prefilled_computed[OF s(3) q] have "\<forall>r \<in> set (bt_reqs b). computed_req w r \<and> fill_ids r = token_seq r"
    "map rid (bt_reqs b) = map rid qs" "map steps_left (bt_reqs b) = map steps_left qs"
    "map max_new_tokens (bt_reqs b) = map max_new_tokens qs" by blast+
  then show ?thesis using s by blast
qed

text \<open>What a prefill batch is before its forward pass.\<close>

definition prefill_ready :: "int \<Rightarrow> sched_batch \<Rightarrow> bool" where
  "prefill_ready w b \<longleftrightarrow> (\<forall>r \<in> set (bt_reqs b). computed_req w r \<and> fill_ids r = token_seq r) \<and>
     bt_seq_lens b = map kv_committed_len (bt_reqs b) \<and> bt_pool_indices b = map (the \<circ> req_pool_idx) (bt_reqs b)"

text \<open>A new batch is not empty; it is marked prefill-only if its requests want no tokens.\<close>

definition fresh_batch :: "sched_batch \<Rightarrow> bool" where
  "fresh_batch b \<longleftrightarrow> bt_reqs b \<noteq> [] \<and> \<not> batch_is_full b \<and> (is_prefill_only b \<longrightarrow> (\<forall>r \<in> set (bt_reqs b). max_new_tokens r = 0))"

definition same_run :: "scheduler \<Rightarrow> scheduler \<Rightarrow> bool" where
  "same_run s s' \<longleftrightarrow> (\<exists>f. running_batch s' = (running_batch s)\<lparr>batch_is_full := f\<rparr>) \<and> last_batch s' = last_batch s \<and>
     sd_policy s' = sd_policy s \<and> ratio_track s' = ratio_track s \<and> outbox s' = outbox s"

lemma run_full_fields [simp]:
  "batch_at_rest w (b\<lparr>batch_is_full := f\<rparr>) = batch_at_rest w b" "within_limit (b\<lparr>batch_is_full := f\<rparr>) = within_limit b"
  by (simp_all add: batch_at_rest_def rows_match_def within_limit_def)

lemma core_run_full [simp]: "core_inv cf rs (s\<lparr>running_batch := (running_batch s)\<lparr>batch_is_full := f\<rparr>\<rparr>) = core_inv cf rs s"
  by (simp add: core_inv_def)

lemma tracked_run_full [simp]: "tracked rs (s\<lparr>running_batch := b\<rparr>) = tracked rs s"
  by (simp add: tracked_def)

lemma calc_priority_serve:
  assumes i: "serve_inv c rs os H R" and "plain_config w" and "0 < rc_page_size w" and "\<And>q. mset (shuffle q) = mset q"
    and "\<forall>r \<in> set q. waiting_req u (enable_priority_scheduling sp) r"
  shows "\<exists>q' c' w'. calc_priority shuffle sp q running c w = Some (q', c', w') \<and> mset (map unmatched q') = mset (map unmatched q) \<and>
    serve_inv c' rs os H R \<and> keeps c c' \<and> plain_config w' \<and> 0 < rc_page_size w'"
proof -
  note A = kv_invD[OF serveD(1)[OF i]]
  have p: "reads_priorities sp \<Longrightarrow> priorities_given q"
    using assms(5) by (auto simp: reads_priorities_def priorities_given_def list_all_iff waiting_req_def)
  from calc_priority_ok[where shuffle = shuffle and sp = sp and q = q and running = running, OF A(1,2) assms(2,3,4) p]
  obtain q' c' w' where k:
    "calc_priority shuffle sp q running c w = Some (q', c', w')" "mset (map unmatched q') = mset (map unmatched q)"
    "radix_inv c' (lock_nodes rs + H)" "plain_config w'" "0 < rc_page_size w'" "rc_alloc c' = rc_alloc c"
    "\<forall>ys. cached c' ys = cached c ys" "keeps c c'" "\<forall>n ys. path_of c n ys \<longrightarrow> path_of c' n ys" by blast
  have "kv_inv c' (lock_nodes rs + H) (set (own_slots c rs) \<union> R)"
    by (rule kv_inv_same[OF serveD(1)[OF i] k(3,8,6)]) (use k(7) in simp)
  from serve_same_pool[OF i k(8) _ this] k(9) serveD(3)[OF i] have "serve_inv c' rs os H R" by blast
  then show ?thesis using k by blast
qed

lemma get_new_batch_prefill_ok:
  assumes c: "core_inv cf rs s" and cf: "config_ok cf" and env: "environment_ok env" and u: "single (tracked rs s)"
  shows "\<exists>nb s'. get_new_batch_prefill env cf s = Some (nb, s') \<and> same_run s s' \<and>
    length (waiting_queue s') \<le> length (waiting_queue s) \<and>
    (case nb of None \<Rightarrow> core_inv cf rs s' \<and> tracked rs s' = tracked rs s \<and> load rs s' = load rs s
     | Some b \<Rightarrow> core_inv cf (bt_reqs b @ rs) s' \<and> tracked (bt_reqs b @ rs) s' = tracked rs s \<and> prefill_ready (max_req_len cf) b \<and>
         load (bt_reqs b @ rs) s' = load rs s \<and> fresh_batch b)"
proof -
  note C = core_invD[OF c]
  let ?run = "running_batch s" and ?w = "max_req_len cf" and ?prio = "enable_priority_scheduling (sd_policy s)"
  let ?bs = "int (length (bt_reqs ?run))"
  have stay: "same_run s (s\<lparr>running_batch := ?run\<lparr>batch_is_full := f\<rparr>\<rparr>)" for f by (auto simp: same_run_def)
  have stay': "same_run s s" by (auto simp: same_run_def intro: exI[of _ "batch_is_full ?run"])
  consider (none) "batch_is_full ?run \<or> waiting_queue s = []"
    | (rows) "\<not> (batch_is_full ?run \<or> waiting_queue s = [])" "num_allocatable_reqs cf ?bs (tree_cache s) \<le> 0"
    | (room) "\<not> (batch_is_full ?run \<or> waiting_queue s = [])" "\<not> num_allocatable_reqs cf ?bs (tree_cache s) \<le> 0" by blast
  then show ?thesis
  proof cases
    case none
    then show ?thesis using c stay' by (intro exI[of _ None] exI[of _ s]) (simp add: get_new_batch_prefill_def Let_def)
  next
    case rows
    then show ?thesis using c stay[of True]
      by (intro exI[of _ None] exI[of _ "s\<lparr>running_batch := ?run\<lparr>batch_is_full := True\<rparr>\<rparr>"])
        (simp add: get_new_batch_prefill_def Let_def load_def)
  next
    case room
    have wq: "\<forall>r \<in> set (waiting_queue s). waiting_req ?w ?prio r" using C(5) by blast
    from calc_priority_serve[OF C(1,6,7) _ wq, of "env_shuffle env"] env obtain q1 c1 w1 where k:
      "calc_priority (env_shuffle env) (sd_policy s) (waiting_queue s) (Some (bt_reqs ?run)) (tree_cache s) (queue_tree s) = Some (q1, c1, w1)"
      "mset (map unmatched q1) = mset (map unmatched (waiting_queue s))" "serve_inv c1 rs ([] :: sched_req list) {#} {}"
      "keeps (tree_cache s) c1" "plain_config w1" "0 < rc_page_size w1"
      unfolding environment_ok_def by blast
    have w1: "\<forall>r \<in> set q1. waiting_req ?w ?prio r"
    proof
      fix r assume "r \<in> set q1"
      then have "unmatched r \<in> set (map unmatched (waiting_queue s))" using mset_eq_setD[OF k(2)] by auto
      then obtain r0 where "r0 \<in> set (waiting_queue s)" "unmatched r = unmatched r0" by auto
      then show "waiting_req ?w ?prio r" using waiting_unmatched C(5) by blast
    qed
    have "mset (map rid (map unmatched q1)) = mset (map rid (map unmatched (waiting_queue s)))"
      using k(2) by (metis mset_map)
    then have r1: "mset (map rid q1) = mset (map rid (waiting_queue s))" by (simp add: unmatched_def comp_def)
    have d1: "distinct (map rid q1)"
    proof -
      have "single (mset (map rid q1))" using u r1 single_sub by (simp add: tracked_def) (metis single_sub)
      then show ?thesis unfolding single_def distinct_count_atmost_1 by (metis count_greater_zero_iff dual_order.antisym less_one linorder_not_le nat_neq_iff not_in_iff set_mset_mset)
    qed
    let ?p = "adder_init 1 (clip_max_new cf) (Some (bt_reqs ?run)) (rt_current (ratio_track s))
              (max_prefill_tokens cf) None 0 (cf_preemption_threshold cf) (cf_prefill_max_requests cf) (cf_cp_in_seq_split cf) True"
    have ad: "adder_ok 0 ?p c1"
      by (rule adder_ok_init) (use C(4,8) cf in \<open>simp_all add: within_limit_def ratio_ok_def config_ok_def\<close>)
    have p0: "rem_chunk_tokens ?p = None" "can_run_list ?p = []" by (simp_all add: adder_init_def)
    have mx: "\<forall>r \<in> set q1. 0 \<le> max_new_tokens r" using w1 by (simp add: waiting_req_def fits_row_def)
    from admit_loop_ok[OF serveD(1)[OF k(3)] ad p0(1) cf mx, of env ?bs False] obtain q2 p2 full c2 news where l:
      "admit_loop env cf ?bs q1 False ?p c1 = Some (q2, p2, full, c2)"
      "kv_inv c2 (lock_nodes rs + {#} + lock_nodes news) (set (own_slots c1 rs) \<union> {})" "adder_ok 0 p2 c2" "keeps c1 c2"
      "\<forall>m ys. path_of c1 m ys \<longrightarrow> path_of c2 m ys" "can_run_list p2 = can_run_list ?p @ news" "\<forall>x \<in> set news. admitted c2 x"
      "list_all2 same_request q2 q1" "list_all2 same_request news (take (length news) q1)"
      "int (length (can_run_list p2)) \<le> max (int (length (can_run_list ?p))) (num_allocatable_reqs cf ?bs c1)"
      by (elim exE conjE) (rule that)
    have cr: "can_run_list p2 = news" using l(6) p0(2) by simp
    have "kv_inv c2 (lock_nodes rs + lock_nodes news) (set (own_slots c1 rs) \<union> {})" using l(2) by simp
    from serve_same_pool[OF k(3) l(4) _ this] l(5) have s2: "serve_inv c2 rs ([] :: sched_req list) (lock_nodes news) {}" by simp
    have k2: "keeps (tree_cache s) c2" by (rule keeps_trans[OF k(4) l(4)])
    have ck2: "cache_ok cf c2" by (rule cache_ok_config[OF C(2) keeps_config[OF k2]])
    note Q = queue_left[OF l(8,9) d1]
    have w2: "\<forall>r \<in> set q2. waiting_req ?w ?prio r" by (rule list_all2_waiting[OF l(8) w1])
    let ?s1 = "s\<lparr>tree_cache := c2, queue_tree := w1, waiting_queue := q2, running_batch := ?run\<lparr>batch_is_full := full\<rparr>\<rparr>"
    have lq: "length q2 = length (waiting_queue s)"
      using list_all2_lengthD[OF l(8)] arg_cong[OF r1, of size] by simp
    have get: "get_new_batch_prefill env cf s = (if news = [] then Some (None, ?s1)
        else do {
          (b, c) \<leftarrow> prepare_for_extend (env_torch_empty env) news c2;
          Some (Some (schedule_batch.extend b \<lparr>batch_is_full = False, is_prefill_only = list_all request_prefill_only news\<rparr>),
                ?s1\<lparr>waiting_queue := drop (length news) q2, tree_cache := c\<rparr>)
        })"
      unfolding get_new_batch_prefill_def Let_def using room k(1) l(1) cr cf Q(1) by (simp add: config_ok_def)
    show ?thesis
    proof (cases "news = []")
      case True
      have "serve_inv c2 rs ([] :: sched_req list) {#} {}" using s2 True by (simp add: lock_nodes_def)
      then have "core_inv cf rs ?s1" using C k(5,6) ck2 w2 by (simp add: core_inv_def)
      moreover have "tracked rs ?s1 = tracked rs s" using Q(2) r1 True by (simp add: tracked_def)
      moreover have "load rs ?s1 = load rs s" using queue_steps[OF l(8,9)] steps_unmatched[OF k(2)] True by (simp add: load_def)
      ultimately show ?thesis using get True lq
        by (intro exI[of _ None] exI[of _ ?s1]) (auto simp: same_run_def)
    next
      case False
      have qw: "\<forall>x \<in> set news. admitted c2 x \<and> waiting_req ?w ?prio x"
        using l(7) list_all2_waiting[OF l(9), of ?w ?prio] w1 by (meson in_set_takeD)
      have "max (int (length (can_run_list ?p))) (num_allocatable_reqs cf ?bs c1) = num_allocatable_reqs cf ?bs (tree_cache s)"
        using room(2) allocatable_keeps[OF k(4)] p0(2) by simp
      then have "int (length news) \<le> int (length (rp_free_slots (rc_pool (tree_cache s))))"
        using l(10) cr by (simp add: num_allocatable_reqs_def pool_available_size_def)
      then have rw: "length news \<le> length (rp_free_slots (rc_pool c2))" using k2 by (simp add: keeps_def)
      have "cur_rem_token_offset p2 \<le> kv_budget c2" "cur_rem_token_offset p2 = batch_tokens p2 + int (length news)"
        using l(3) cr False by (simp_all add: adder_ok_def)
      then have ft: "sum_list (map extend_input_len news) \<le> kv_budget c2" using cr by (simp add: batch_tokens_def)
      have ww: "?w \<le> int (rp_max_context_len (rc_pool c2))" using ck2 by (simp add: cache_ok_def)
      from prefill_admitted_ok[OF s2 qw ww rw ft, of "env_torch_empty env"] obtain b c3 where b:
        "prepare_for_extend (env_torch_empty env) news c2 = Some (b, c3)" "serve_inv c3 (bt_reqs b @ rs) ([] :: sched_req list) {#} {}"
        "same_config c2 c3" "\<forall>r \<in> set (bt_reqs b). computed_req ?w r \<and> fill_ids r = token_seq r" "map rid (bt_reqs b) = map rid news"
        "map steps_left (bt_reqs b) = map steps_left news" "map max_new_tokens (bt_reqs b) = map max_new_tokens news"
        "bt_seq_lens b = map kv_committed_len (bt_reqs b)" "bt_pool_indices b = map (the \<circ> req_pool_idx) (bt_reqs b)" by blast
      let ?b = "schedule_batch.extend b \<lparr>batch_is_full = False, is_prefill_only = list_all request_prefill_only news\<rparr>"
      let ?s2 = "?s1\<lparr>waiting_queue := drop (length news) q2, tree_cache := c3\<rparr>"
      have fb: "bt_reqs ?b = bt_reqs b" "bt_seq_lens ?b = bt_seq_lens b" "bt_pool_indices ?b = bt_pool_indices b"
        by (simp_all add: schedule_batch.extend_def)
      have "\<forall>r \<in> set (drop (length news) q2). waiting_req ?w ?prio r" using w2 by (meson in_set_dropD)
      then have "core_inv cf (bt_reqs b @ rs) ?s2"
        using C k(5,6) b(2) cache_ok_config[OF ck2 b(3)] by (simp add: core_inv_def)
      moreover have "tracked (bt_reqs b @ rs) ?s2 = tracked rs s"
        using Q(2) r1 b(5) by (simp add: tracked_def ac_simps)
      moreover have "prefill_ready ?w ?b" using b(4,8,9) by (simp add: prefill_ready_def fb)
      moreover have "load (bt_reqs b @ rs) ?s2 = load rs s"
        using queue_steps[OF l(8,9)] steps_unmatched[OF k(2)] b(6) by (simp add: load_def)
      moreover have "fresh_batch ?b"
      proof -
        have "max_new_tokens r = 0" if "\<forall>q \<in> set news. max_new_tokens q = 0" "r \<in> set (bt_reqs b)" for r
          using that arg_cong[OF b(7), of set] by auto
        moreover have "bt_reqs b \<noteq> []" using False b(5) by auto
        ultimately show ?thesis
          by (simp add: fresh_batch_def fb schedule_batch.extend_def list_all_iff request_prefill_only_def)
      qed
      ultimately show ?thesis using get b(1) False lq fb
        by (intro exI[of _ "Some ?b"] exI[of _ ?s2]) (auto simp: same_run_def)
    qed
  qed
qed

end
