(* ===== verification/SchedDecode.thy ===== *)
theory SchedDecode
  imports SchedAdmit
begin

text \<open>Decoding: filtered batches, retraction back into the queue, and the decode step (\<open>update_running_batch\<close>).\<close>

section \<open>Filtered batches\<close>

definition exact_rows :: "sched_batch \<Rightarrow> bool" where
  "exact_rows b \<longleftrightarrow> bt_reqs b = [] \<or>
     bt_pool_indices b = map (the \<circ> req_pool_idx) (bt_reqs b) \<and> bt_seq_lens b = map kv_committed_len (bt_reqs b)"

lemma unfinished_nth: "map ((!) rs) (filter (\<lambda>i. \<not> finished (rs ! i)) [0..<length rs]) = unfinished rs"
proof -
  have "unfinished (map ((!) rs) [0..<length rs]) = map ((!) rs) (filter (\<lambda>i. \<not> finished (rs ! i)) [0..<length rs])"
    unfolding unfinished_def filter_map by (simp add: comp_def)
  then show ?thesis by (simp add: map_nth)
qed

lemma filter_none_ok:
  assumes "rows_match b"
  shows "bt_reqs (filter_batch None b) = unfinished (bt_reqs b)" and "exact_rows (filter_batch None b)"
proof -
  let ?ks = "filter (\<lambda>i. \<not> finished (bt_reqs b ! i)) [0..<length (bt_reqs b)]"
  have u: "map ((!) (bt_reqs b)) ?ks = unfinished (bt_reqs b)" by (rule unfinished_nth)
  have all: "?ks = [0..<length (bt_reqs b)]" if "length ?ks = length (bt_reqs b)"
    using that length_filter_less[of _ "[0..<length (bt_reqs b)]"] by (metis diff_zero filter_True length_upt less_irrefl)
  show "bt_reqs (filter_batch None b) = unfinished (bt_reqs b)"
  proof (cases "length ?ks = length (bt_reqs b)")
    case True
    then have "unfinished (bt_reqs b) = bt_reqs b" using u all[OF True] by (simp add: map_nth)
    then show ?thesis using True u by (auto simp: filter_batch_def Let_def)
  next
    case False
    have "?ks = [] \<Longrightarrow> unfinished (bt_reqs b) = []" using u by (metis list.map(1))
    then show ?thesis using False u by (simp add: filter_batch_def Let_def)
  qed
  show "exact_rows (filter_batch None b)"
  proof (cases "?ks = [] \<or> bt_reqs b = []")
    case True
    then show ?thesis by (auto simp: filter_batch_def Let_def exact_rows_def)
  next
    case ne: False
    then have m: "length (bt_pool_indices b) = length (bt_reqs b)" "length (bt_seq_lens b) = length (bt_reqs b)"
      "\<And>i. i < length (bt_reqs b) \<Longrightarrow> \<not> finished (bt_reqs b ! i) \<Longrightarrow>
        bt_pool_indices b ! i = the (req_pool_idx (bt_reqs b ! i)) \<and> bt_seq_lens b ! i = kv_committed_len (bt_reqs b ! i)"
      using assms by (auto simp: rows_match_def)
    have pk: "map ((!) (bt_pool_indices b)) ?ks = map (the \<circ> req_pool_idx) (map ((!) (bt_reqs b)) ?ks)"
      "map ((!) (bt_seq_lens b)) ?ks = map kv_committed_len (map ((!) (bt_reqs b)) ?ks)"
      using m(3) by auto
    show ?thesis
    proof (cases "length ?ks = length (bt_reqs b)")
      case True
      then have "filter_batch None b = b" using ne by (simp add: filter_batch_def Let_def)
      moreover have "bt_pool_indices b = map (the \<circ> req_pool_idx) (bt_reqs b)" "bt_seq_lens b = map kv_committed_len (bt_reqs b)"
        using pk m(1,2) map_nth[of "bt_reqs b"] map_nth[of "bt_pool_indices b"] map_nth[of "bt_seq_lens b"] unfolding all[OF True] by metis+
      ultimately show ?thesis by (simp add: exact_rows_def)
    next
      case False
      then show ?thesis using ne pk by (simp add: filter_batch_def Let_def exact_rows_def)
    qed
  qed
qed

lemma filter_prefill_flag [simp]: "is_prefill_only (filter_batch ks b) = is_prefill_only b"
  by (simp add: filter_batch_def Let_def)

lemma filter_some_ok:
  assumes "exact_rows b" and "set ks \<subseteq> {..<length (bt_reqs b)}" and "distinct ks"
  shows "mset (bt_reqs (filter_batch (Some ks) b)) = mset (map ((!) (bt_reqs b)) ks)" and "exact_rows (filter_batch (Some ks) b)"
proof -
  let ?rs = "bt_reqs b"
  consider (none) "ks = []" | (all) "ks \<noteq> []" "length ks = length ?rs" | (some) "ks \<noteq> []" "length ks \<noteq> length ?rs" by blast
  then have "mset (bt_reqs (filter_batch (Some ks) b)) = mset (map ((!) ?rs) ks) \<and> exact_rows (filter_batch (Some ks) b)"
  proof cases
    case none
    then show ?thesis by (simp add: filter_batch_def exact_rows_def)
  next
    case all
    then have "card (set ks) = card {..<length ?rs}" using assms(3) by (simp add: distinct_card)
    then have "set ks = {..<length ?rs}" using assms(2) by (simp add: card_subset_eq)
    then have "set ks = set [0..<length ?rs]" unfolding set_upt lessThan_atLeast0 .
    then have "mset ks = mset [0..<length ?rs]" using set_eq_iff_mset_eq_distinct[OF assms(3) distinct_upt] by blast
    then have "mset (map ((!) ?rs) ks) = mset (map ((!) ?rs) [0..<length ?rs])" unfolding mset_map by simp
    then show ?thesis using all assms(1) by (simp add: filter_batch_def map_nth)
  next
    case some
    have kl: "k < length ?rs" if "k \<in> set ks" for k using subsetD[OF assms(2) that] by simp
    have r: "?rs \<noteq> []" using some(1) kl[OF hd_in_set] by (metis length_0_conv not_less_zero)
    then have e: "bt_pool_indices b = map (the \<circ> req_pool_idx) ?rs" "bt_seq_lens b = map kv_committed_len ?rs"
      using assms(1) unfolding exact_rows_def by blast+
    have "map ((!) (bt_pool_indices b)) ks = map (the \<circ> req_pool_idx) (map ((!) ?rs) ks)"
      "map ((!) (bt_seq_lens b)) ks = map kv_committed_len (map ((!) ?rs) ks)"
      using kl unfolding e by simp_all
    then show ?thesis using some by (simp add: filter_batch_def exact_rows_def)
  qed
  then show "mset (bt_reqs (filter_batch (Some ks) b)) = mset (map ((!) ?rs) ks)" "exact_rows (filter_batch (Some ks) b)" by blast+
qed

section \<open>Retracted requests go back to the queue\<close>

lemma given_up_queued:
  assumes "active_req w r"
  shows "queued w (given_up r)" and "rid (given_up r) = rid r" and "steps_left (given_up r) = steps_left r"
  using assms
  by (simp_all add: steps_left_def queued_def waiting_req_def given_up_def reset_for_retract_def active_req_def fits_row_def finished_def)

lemma add_retracted_ok:
  assumes "core_inv cf rs s" and "config_ok cf" and "\<forall>r \<in> set ret. queued (max_req_len cf) r"
    and "single (mset (map rid ret) + tracked rs s)"
  shows "\<exists>s'. add_retracted cf now ret s = Some s' \<and> core_inv cf rs s' \<and> queue_only s s' \<and>
    tracked rs s' = mset (map rid ret) + tracked rs s \<and> (queue_bounded cf s \<longrightarrow> queue_bounded cf s') \<and>
    load rs s' \<le> sum_list (map steps_left ret) + load rs s"
  using assms
proof (induction ret arbitrary: s)
  case (Cons r ret)
  have "single (add_mset (rid r) (tracked rs s))" using single_sub[of "add_mset (rid r) (tracked rs s)" "mset (map rid ret)"] Cons.prems(4)
    by (simp add: ac_simps)
  from add_request_ok[OF Cons.prems(1,2) single_fresh[OF this], of now] Cons.prems(3) obtain s1 where s1:
    "add_request_to_queue cf now r s = Some s1" "core_inv cf rs s1" "queue_only s s1"
    "tracked rs s1 = add_mset (rid r) (tracked rs s)" "queue_bounded cf s \<longrightarrow> queue_bounded cf s1"
    "load rs s1 \<le> steps_left r + load rs s" by auto
  have "single (mset (map rid ret) + tracked rs s1)" using Cons.prems(4) by (simp add: s1(4))
  from Cons.IH[OF s1(2) Cons.prems(2) _ this] Cons.prems(3) obtain s2 where "add_retracted cf now ret s1 = Some s2"
    "core_inv cf rs s2" "queue_only s1 s2" "tracked rs s2 = mset (map rid ret) + tracked rs s1"
    "queue_bounded cf s1 \<longrightarrow> queue_bounded cf s2" "load rs s2 \<le> sum_list (map steps_left ret) + load rs s1" by auto
  then show ?case using s1 queue_only_trans[OF s1(3)] by (intro exI[of _ s2]) simp
qed simp

section \<open>The decode step\<close>

text \<open>The state without its running batch.\<close>

definition rest_inv :: "sched_config \<Rightarrow> sched_req list \<Rightarrow> scheduler \<Rightarrow> bool" where
  "rest_inv cf rs s \<longleftrightarrow> core_inv cf rs (s\<lparr>running_batch := empty_batch\<rparr>)"

lemma rest_inv_iff:
  "rest_inv cf rs s \<longleftrightarrow> serve_inv (tree_cache s) rs ([] :: sched_req list) {#} {} \<and> cache_ok cf (tree_cache s) \<and>
     (\<forall>r \<in> set (waiting_queue s). waiting_req (max_req_len cf) (enable_priority_scheduling (sd_policy s)) r) \<and>
     plain_config (queue_tree s) \<and> 0 < rc_page_size (queue_tree s) \<and> ratio_ok (ratio_track s)"
  by (simp add: rest_inv_def core_inv_def batch_at_rest_def rows_match_def within_limit_def empty_batch_def)

lemma core_rest: "core_inv cf rs s \<longleftrightarrow> rest_inv cf rs s \<and> batch_at_rest (max_req_len cf) (running_batch s) \<and> within_limit (running_batch s)"
  by (auto simp: rest_inv_iff core_inv_def)

lemma rest_perm: "rest_inv cf rs s \<Longrightarrow> mset rs = mset rs' \<Longrightarrow> rest_inv cf rs' s"
  unfolding rest_inv_def by (rule core_perm)

text \<open>A decode batch before the tokens of its forward pass.\<close>

definition decode_ready :: "int \<Rightarrow> sched_batch \<Rightarrow> bool" where
  "decode_ready w b \<longleftrightarrow> (\<forall>r \<in> set (bt_reqs b). computed_req w r \<and> int (length (output_ids r)) < max_new_tokens r) \<and>
     bt_seq_lens b = map kv_committed_len (bt_reqs b) \<and> bt_pool_indices b = map (the \<circ> req_pool_idx) (bt_reqs b)"

lemma decode_batch_ok:
  assumes i: "serve_inv c (bt_reqs b) ([] :: sched_req list) {#} {}" and x: "exact_rows b" and ne: "bt_reqs b \<noteq> []"
    and act: "\<forall>r \<in> set (bt_reqs b). active_req w r" and w: "w \<le> int (rp_max_context_len (rc_pool c))"
    and fits: "int (length (bt_reqs b)) \<le> kv_budget c"
  shows "\<exists>b' c'. prepare_for_decode empties b c = Some (b', c') \<and> serve_inv c' (bt_reqs b') ([] :: sched_req list) {#} {} \<and>
    same_config c c' \<and> decode_ready w b' \<and> map rid (bt_reqs b') = map rid (bt_reqs b) \<and> bt_reqs b' \<noteq> [] \<and>
    map steps_left (bt_reqs b') = map steps_left (bt_reqs b) \<and> is_prefill_only b' = is_prefill_only b"
proof -
  have rows: "bt_pool_indices b = map (the \<circ> req_pool_idx) (bt_reqs b)" "bt_seq_lens b = map kv_committed_len (bt_reqs b)"
    using x ne by (simp_all add: exact_rows_def)
  have room: "committed r < length (req_row c r) \<and> committed r < length (token_seq r)" if r: "r \<in> set (bt_reqs b)" for r
  proof -
    have a: "length (token_seq r) = Suc (committed r)" "int (length (token_seq r)) \<le> w"
      using act r by (auto simp: active_req_def fits_row_def token_seq_def)
    have "req_row c r \<in> set (req_to_token (rc_pool c))" using serveD(7)[OF i r] by (auto simp: running_ok_def req_row_def)
    from serveD(8)[OF i this] a w show ?thesis by simp
  qed
  from decode_step_ok[OF i rows fits room, of empties] obtain b' c' where d:
    "prepare_for_decode empties b c = Some (b', c')" "bt_reqs b' = map decoded (bt_reqs b)"
    "bt_seq_lens b' = map kv_committed_len (bt_reqs b')" "bt_pool_indices b' = bt_pool_indices b"
    "serve_inv c' (bt_reqs b') ([] :: sched_req list) {#} {}" "same_config c c'" by blast
  have "computed_req w (decoded r) \<and> int (length (output_ids (decoded r))) < max_new_tokens (decoded r)" if r: "r \<in> set (bt_reqs b)" for r
  proof -
    have "0 \<le> kv_committed_len r" using serveD(7)[OF i r] by (simp add: running_ok_def)
    then have "committed (decoded r) = Suc (committed r)" by (simp add: committed_def decoded_def nat_add_distrib)
    moreover have "active_req w r" using act r by simp
    moreover have "token_seq (decoded r) = token_seq r" "fits_row w (decoded r) = fits_row w r" "finished (decoded r) = finished r"
      "output_ids (decoded r) = output_ids r" "max_new_tokens (decoded r) = max_new_tokens r"
      by (simp_all add: decoded_def token_seq_def fits_row_def finished_def)
    ultimately show ?thesis by (simp add: computed_req_def active_req_def)
  qed
  then have "decode_ready w b'" using d(2-4) rows(1) by (auto simp: decode_ready_def)
  moreover have "map rid (bt_reqs b') = map rid (bt_reqs b)" by (simp add: d(2) decoded_def comp_def)
  moreover have "map steps_left (bt_reqs b') = map steps_left (bt_reqs b)" by (simp add: d(2) decoded_def steps_left_def comp_def)
  moreover have "is_prefill_only b' = is_prefill_only b" using d(1) by (auto simp: prepare_for_decode_def split: bind_splits)
  ultimately show ?thesis using d ne by auto
qed

lemma ratio_after_retract:
  assumes "0 \<le> steps" and "\<forall>r \<in> set rs. 0 \<le> max_new_tokens r"
  shows "0 \<le> estimate_new_token_ratio_after_retract steps rs"
proof -
  have "0 \<le> sum_list (map (\<lambda>r. int (length (output_ids r))) rs)" "0 \<le> sum_list (map max_new_tokens rs)"
    using assms(2) by (auto intro!: sum_list_nonneg)
  then show ?thesis using assms(1) by (simp add: estimate_new_token_ratio_after_retract_def Let_def)
qed

lemma active_budget: "\<forall>r \<in> set (unfinished rs). at_rest w r \<Longrightarrow> \<forall>r \<in> set (unfinished rs). active_req w r"
  by (auto simp: at_rest_def unfinished_def)

lemma oom_rid: "rid (oom_given_up r) = rid r"
  by (simp add: oom_given_up_def given_up_def reset_for_retract_def)

text \<open>
  When memory runs short: some requests stay, the retracted ones wait again, an aborted one is answered.
\<close>

lemma retract_part_ok:
  assumes c: "core_inv cf (bt_reqs b) s" and x: "exact_rows b" and ne: "bt_reqs b \<noteq> []" and cf: "config_ok cf"
    and act: "\<forall>r \<in> set (bt_reqs b). active_req (max_req_len cf) r" and u: "single (tracked (bt_reqs b) s)"
  shows "\<exists>ks kept ret ab c1 b1 s1. retract_decode (retract_decode_steps cf) (bt_reqs b) (tree_cache s) = Some (ks, kept, ret, ab, c1) \<and>
    b1 = filter_batch (Some ks) b \<and> exact_rows b1 \<and> set (bt_reqs b1) \<subseteq> set (bt_reqs b) \<and>
    add_retracted cf now ret (s\<lparr>tree_cache := c1,
        ratio_track := (ratio_track s)\<lparr>rt_current := estimate_new_token_ratio_after_retract (retract_decode_steps cf) (bt_reqs b1)\<rparr>,
        outbox := outbox s @ map (Aborted \<circ> rid) ab\<rparr>) = Some s1 \<and>
    core_inv cf (bt_reqs b1) s1 \<and> tracked (bt_reqs b1) s1 = tracked (bt_reqs b) s \<and> last_batch s1 = last_batch s \<and>
    int (length (bt_reqs b1)) \<le> kv_budget (tree_cache s1) \<and> (queue_bounded cf s \<longrightarrow> queue_bounded cf s1) \<and>
    load (bt_reqs b1) s1 + (if bt_reqs b1 = [] then 1 else 0) \<le> load (bt_reqs b) s"
proof -
  note C = c[unfolded core_inv_def]
  let ?rs = "bt_reqs b" and ?steps = "retract_decode_steps cf"
  have ns: "\<not> rc_strip_thinking (tree_cache s)" using C by (simp add: cache_ok_def)
  from retract_ok[OF conjunct1[OF C] ns ne, of ?steps] obtain ks ret ab c1 where k:
    "retract_decode ?steps ?rs (tree_cache s) = Some (ks, map ((!) ?rs) ks, map given_up ret, map oom_given_up ab, c1)"
    "set ks \<subseteq> {..<length ?rs}" "distinct ks" "mset (map ((!) ?rs) ks @ ret @ ab) = mset ?rs"
    "if ks = [] then length ab = 1 else ab = []"
    "serve_inv c1 (map ((!) ?rs) ks) ([] :: sched_req list) {#} {}" "same_config (tree_cache s) c1"
    "int (length ks) \<le> allocator_available_size (rc_alloc c1)" by blast
  define b1 where "b1 = filter_batch (Some ks) b"
  note F = filter_some_ok[OF x k(2,3), folded b1_def]
  let ?s0 = "s\<lparr>tree_cache := c1, ratio_track := (ratio_track s)\<lparr>rt_current := estimate_new_token_ratio_after_retract ?steps (bt_reqs b1)\<rparr>,
        outbox := outbox s @ map (Aborted \<circ> rid) (map oom_given_up ab)\<rparr>"
  have sub: "set (bt_reqs b1) \<subseteq> set ?rs" "set ret \<subseteq> set ?rs"
    using mset_eq_setD[OF F(1)] mset_eq_setD[OF k(4)] by auto
  have si: "serve_inv c1 (bt_reqs b1) ([] :: sched_req list) {#} {}" by (rule serve_perm[OF k(6)]) (rule F(1)[symmetric])
  have "0 \<le> estimate_new_token_ratio_after_retract ?steps (bt_reqs b1)"
    by (rule ratio_after_retract) (use cf act sub in \<open>auto simp: config_ok_def active_req_def fits_row_def\<close>)
  then have r0: "core_inv cf (bt_reqs b1) ?s0"
    using C si cache_ok_config[OF _ k(7)] by (simp add: core_inv_def ratio_ok_def)
  have rr: "mset (map rid (map given_up ret)) = mset (map rid ret)"
    using given_up_queued(2)[of "max_req_len cf"] act sub(2) by (intro arg_cong[of _ _ mset]) auto
  have "mset (map rid (bt_reqs b1)) + mset (map rid ret) + mset (map rid ab) = mset (map rid ?rs)"
    using arg_cong[OF k(4), of "image_mset rid"] arg_cong[OF F(1), of "image_mset rid"] by (simp add: add.assoc)
  then have t0: "mset (map rid (map given_up ret)) + tracked (bt_reqs b1) ?s0 = tracked ?rs s"
    unfolding rr by (simp add: tracked_def comp_def oom_rid ac_simps)
  have qd: "\<forall>r \<in> set (map given_up ret). queued (max_req_len cf) r" using given_up_queued(1) act sub(2) by auto
  have "single (mset (map rid (map given_up ret)) + tracked (bt_reqs b1) ?s0)" using u unfolding t0 .
  from add_retracted_ok[OF r0 cf qd this, of now] obtain s1 where s1: "add_retracted cf now (map given_up ret) ?s0 = Some s1"
    "core_inv cf (bt_reqs b1) s1" "queue_only ?s0 s1" "tracked (bt_reqs b1) s1 = tracked ?rs s"
    "queue_bounded cf ?s0 \<longrightarrow> queue_bounded cf s1"
    "load (bt_reqs b1) s1 \<le> sum_list (map steps_left (map given_up ret)) + load (bt_reqs b1) ?s0" unfolding t0 by blast
  have ge: "map steps_left (map given_up ret) = map steps_left ret"
    using given_up_queued(3)[of "max_req_len cf"] act sub(2) by auto
  have "sum_list (map steps_left (bt_reqs b1)) + sum_list (map steps_left ret) + sum_list (map steps_left ab) = sum_list (map steps_left ?rs)"
  proof -
    have "mset (bt_reqs b1 @ ret @ ab) = mset ?rs" using k(4) F(1) by simp
    then have "sum_list (map steps_left (bt_reqs b1 @ ret @ ab)) = sum_list (map steps_left ?rs)"
      by (metis mset_map sum_mset_sum_list)
    then show ?thesis by (simp add: add.assoc)
  qed
  moreover have "bt_reqs b1 = [] \<longrightarrow> 1 \<le> sum_list (map steps_left ab)"
  proof
    assume "bt_reqs b1 = []"
    then have "ks = []" using F(1) by simp
    then obtain x where "ab = [x]" using k(5) by (cases ab) auto
    then show "1 \<le> sum_list (map steps_left ab)" by (simp add: steps_left_def)
  qed
  ultimately have ld: "load (bt_reqs b1) s1 + (if bt_reqs b1 = [] then 1 else 0) \<le> load ?rs s"
    using s1(6) unfolding ge by (cases "bt_reqs b1 = []") (simp_all add: load_def)
  note Q = queue_only_fields[OF s1(3)]
  have "length (bt_reqs b1) = length ks" using arg_cong[OF F(1), of size] by simp
  moreover have "allocator_available_size (rc_alloc c1) \<le> kv_budget c1"
    using evictable_nonneg[OF serveD(1)[OF si]] by (simp add: kv_budget_def)
  ultimately have "int (length (bt_reqs b1)) \<le> kv_budget (tree_cache s1)" using k(8) Q(1) by simp
  moreover have "last_batch s1 = last_batch s" using Q(5) by simp
  moreover have "queue_bounded cf s \<longrightarrow> queue_bounded cf s1" using s1(5) queue_bounded_le[of cf s ?s0] by simp
  ultimately show ?thesis using k(1) F(2) sub(1) s1(1,2,4) ld
    by (intro exI[of _ ks] exI[of _ "map ((!) ?rs) ks"] exI[of _ "map given_up ret"] exI[of _ "map oom_given_up ab"] exI[of _ c1]
        exI[of _ b1] exI[of _ s1]) (simp add: b1_def)
qed

text \<open>The running batch is filtered, shrunk if memory is short, and gets the slots of its next tokens.\<close>

lemma exact_full [simp]: "exact_rows (b\<lparr>batch_is_full := f\<rparr>) = exact_rows b"
  by (simp add: exact_rows_def)

lemma update_running_ok:
  assumes c: "core_inv cf (unfinished (bt_reqs (running_batch s))) s" and cf: "config_ok cf"
    and u: "single (tracked (unfinished (bt_reqs (running_batch s))) s)"
  shows "\<exists>s'. update_running_batch env cf now s = Some s' \<and> last_batch s' = last_batch s \<and>
    rest_inv cf (bt_reqs (running_batch s')) s' \<and>
    (bt_reqs (running_batch s') \<noteq> [] \<longrightarrow> decode_ready (max_req_len cf) (running_batch s')) \<and>
    tracked (bt_reqs (running_batch s')) s' = tracked (unfinished (bt_reqs (running_batch s))) s \<and>
    (queue_bounded cf s \<longrightarrow> queue_bounded cf s') \<and> is_prefill_only (running_batch s') = is_prefill_only (running_batch s) \<and>
    load (bt_reqs (running_batch s')) s' \<le> load (unfinished (bt_reqs (running_batch s))) s \<and>
    (bt_reqs (running_batch s') = [] \<longrightarrow> \<not> batch_is_full (running_batch s') \<and>
       (unfinished (bt_reqs (running_batch s)) = [] \<or>
        load (bt_reqs (running_batch s')) s' < load (unfinished (bt_reqs (running_batch s))) s))"
proof -
  note C = core_invD[OF c]
  let ?w = "max_req_len cf" and ?n = "length (bt_reqs (running_batch s))"
  define b where "b = filter_batch None (running_batch s)"
  have rm: "rows_match (running_batch s)" using C(3) by (simp add: batch_at_rest_def)
  have br: "bt_reqs b = unfinished (bt_reqs (running_batch s))" and bx: "exact_rows b"
    unfolding b_def using filter_none_ok[OF rm] by simp_all
  have bp: "is_prefill_only b = is_prefill_only (running_batch s)" by (simp add: b_def filter_prefill_flag)
  have act: "\<forall>r \<in> set (bt_reqs b). active_req ?w r"
    unfolding br using C(3) by (intro active_budget) (auto simp: batch_at_rest_def unfinished_def)
  have cb: "core_inv cf (bt_reqs b) s" using c br by simp
  show ?thesis
  proof (cases "bt_reqs b = []")
    case True
    then have "update_running_batch env cf now s = Some (s\<lparr>running_batch := b\<lparr>batch_is_full := False\<rparr>\<rparr>)"
      by (simp add: update_running_batch_def Let_def b_def[symmetric] batch_is_empty_def)
    moreover have "rest_inv cf [] (s\<lparr>running_batch := b\<lparr>batch_is_full := False\<rparr>\<rparr>)" using cb True by (simp add: core_rest rest_inv_iff)
    ultimately show ?thesis using True br queue_bounded_le
      by (intro exI[of _ "s\<lparr>running_batch := b\<lparr>batch_is_full := False\<rparr>\<rparr>"]) (simp add: queue_bounded_def load_def bp)
  next
    case ne: False
    from check_mem_ok[OF core_invD(1)[OF cb] refl] obtain c1 where m:
      "check_decode_mem (bt_reqs b) (tree_cache s) = Some (int (length (bt_reqs b)) \<le> kv_budget (tree_cache s), c1)"
      "serve_inv c1 (bt_reqs b) ([] :: sched_req list) {#} {}" "kv_budget c1 = kv_budget (tree_cache s)" "keeps (tree_cache s) c1" by blast
    let ?ok = "int (length (bt_reqs b)) \<le> kv_budget (tree_cache s)"
    let ?s1 = "s\<lparr>tree_cache := c1\<rparr>"
    have c1: "core_inv cf (bt_reqs b) ?s1"
      using cb m(2) cache_ok_config[OF C(2) keeps_config[OF m(4)]] by (simp add: core_inv_def)
    define part where "part = (if \<not> ?ok then do {
                (keep, _, retracted, reqs_to_abort, c) \<leftarrow> retract_decode (retract_decode_steps cf) (bt_reqs b) c1;
                let b = filter_batch (Some keep) b;
                let s = ?s1\<lparr>tree_cache := c,
                          ratio_track := (ratio_track ?s1)\<lparr>rt_current :=
                            estimate_new_token_ratio_after_retract (retract_decode_steps cf) (bt_reqs b)\<rparr>,
                          outbox := outbox ?s1 @ map (Aborted \<circ> rid) reqs_to_abort\<rparr>;
                s \<leftarrow> add_retracted cf now retracted s;
                Some (b, s)
              } else Some (b, ?s1\<lparr>ratio_track := decay_step (ratio_track ?s1)\<rparr>))"
    have "\<exists>b1 s2. part = Some (b1, s2) \<and> exact_rows b1 \<and> set (bt_reqs b1) \<subseteq> set (bt_reqs b) \<and> core_inv cf (bt_reqs b1) s2 \<and>
        tracked (bt_reqs b1) s2 = tracked (bt_reqs b) s \<and> last_batch s2 = last_batch s \<and>
        int (length (bt_reqs b1)) \<le> kv_budget (tree_cache s2) \<and> (queue_bounded cf s \<longrightarrow> queue_bounded cf s2) \<and>
        load (bt_reqs b1) s2 + (if bt_reqs b1 = [] then 1 else 0) \<le> load (bt_reqs b) s \<and> is_prefill_only b1 = is_prefill_only b"
    proof (cases ?ok)
      case True
      let ?s2 = "?s1\<lparr>ratio_track := decay_step (ratio_track ?s1)\<rparr>"
      have "core_inv cf (bt_reqs b) ?s2" using c1 by (auto simp: core_inv_def ratio_ok_def decay_step_def)
      then show ?thesis using True m(3) bx queue_bounded_le[of cf s ?s2] ne
        by (intro exI[of _ b] exI[of _ ?s2]) (simp add: part_def tracked_def load_def)
    next
      case False
      have "single (tracked (bt_reqs b) ?s1)" using u br by (simp add: tracked_def)
      from retract_part_ok[OF c1 bx ne cf act this, of now] obtain ks kept ret ab c2 b1 s2 where r:
        "retract_decode (retract_decode_steps cf) (bt_reqs b) (tree_cache ?s1) = Some (ks, kept, ret, ab, c2)"
        "b1 = filter_batch (Some ks) b" "exact_rows b1" "set (bt_reqs b1) \<subseteq> set (bt_reqs b)"
        "add_retracted cf now ret (?s1\<lparr>tree_cache := c2,
           ratio_track := (ratio_track ?s1)\<lparr>rt_current := estimate_new_token_ratio_after_retract (retract_decode_steps cf) (bt_reqs b1)\<rparr>,
           outbox := outbox ?s1 @ map (Aborted \<circ> rid) ab\<rparr>) = Some s2"
        "core_inv cf (bt_reqs b1) s2" "tracked (bt_reqs b1) s2 = tracked (bt_reqs b) ?s1" "last_batch s2 = last_batch ?s1"
        "int (length (bt_reqs b1)) \<le> kv_budget (tree_cache s2)" "queue_bounded cf ?s1 \<longrightarrow> queue_bounded cf s2"
        "load (bt_reqs b1) s2 + (if bt_reqs b1 = [] then 1 else 0) \<le> load (bt_reqs b) ?s1"
        by (elim exE conjE) (rule that)
      have "part = Some (b1, s2)" using False r(1,5) by (simp add: part_def r(2))
      moreover have "is_prefill_only b1 = is_prefill_only b" by (simp add: r(2))
      moreover have "load (bt_reqs b) ?s1 = load (bt_reqs b) s" by (simp add: load_def)
      ultimately show ?thesis using r(3,4,6-11) queue_bounded_le[of cf s ?s1]
        by (intro exI[of _ b1] exI[of _ s2]) (simp add: tracked_def)
    qed
    then obtain b1 s2 where p: "part = Some (b1, s2)" "exact_rows b1" "set (bt_reqs b1) \<subseteq> set (bt_reqs b)" "core_inv cf (bt_reqs b1) s2"
      "tracked (bt_reqs b1) s2 = tracked (bt_reqs b) s" "last_batch s2 = last_batch s"
      "int (length (bt_reqs b1)) \<le> kv_budget (tree_cache s2)" "queue_bounded cf s \<longrightarrow> queue_bounded cf s2"
      "load (bt_reqs b1) s2 + (if bt_reqs b1 = [] then 1 else 0) \<le> load (bt_reqs b) s" "is_prefill_only b1 = is_prefill_only b" by blast
    define b2 where "b2 = (if length (bt_reqs b1) < ?n then b1\<lparr>batch_is_full := False\<rparr> else b1)"
    have b2: "bt_reqs b2 = bt_reqs b1" "exact_rows b2" "is_prefill_only b2 = is_prefill_only (running_batch s)"
      using p(2,10) bp by (simp_all add: b2_def)
    have "update_running_batch env cf now s = do {
        (b, s) \<leftarrow> part;
        let b = (if length (bt_reqs b) < ?n then b\<lparr>batch_is_full := False\<rparr> else b);
        if batch_is_empty b then Some (s\<lparr>running_batch := b\<rparr>)
        else do {
          (b, c) \<leftarrow> prepare_for_decode (env_torch_empty env) b (tree_cache s);
          Some (s\<lparr>running_batch := b, tree_cache := c\<rparr>)
        }
      }" (is "_ = ?rest")
      unfolding update_running_batch_def part_def using ne m(1) by (simp add: b_def[symmetric] batch_is_empty_def)
    also have "?rest = (if batch_is_empty b2 then Some (s2\<lparr>running_batch := b2\<rparr>)
           else do {
             (b, c) \<leftarrow> prepare_for_decode (env_torch_empty env) b2 (tree_cache s2);
             Some (s2\<lparr>running_batch := b, tree_cache := c\<rparr>)
           })"
      unfolding p(1) b2_def by simp
    finally have call: "update_running_batch env cf now s = (if batch_is_empty b2 then Some (s2\<lparr>running_batch := b2\<rparr>)
           else do {
             (b, c) \<leftarrow> prepare_for_decode (env_torch_empty env) b2 (tree_cache s2);
             Some (s2\<lparr>running_batch := b, tree_cache := c\<rparr>)
           })" .
    show ?thesis
    proof (cases "bt_reqs b2 = []")
      case True
      let ?s = "s2\<lparr>running_batch := b2\<rparr>"
      have "0 < ?n" using ne br by (cases "bt_reqs (running_batch s)") simp_all
      then have "\<not> batch_is_full b2" using True b2(1) by (simp add: b2_def)
      moreover have "rest_inv cf [] ?s" using p(4) True b2(1) by (simp add: core_rest rest_inv_iff)
      moreover have "load [] ?s < load (bt_reqs b) s" using p(9) True b2(1) by (simp add: load_def)
      ultimately show ?thesis using call True b2(1,3) p(5,6,8) br queue_bounded_le[of cf s2 ?s]
        by (intro exI[of _ ?s]) (simp add: batch_is_empty_def)
    next
      case False
      have s2: "serve_inv (tree_cache s2) (bt_reqs b2) ([] :: sched_req list) {#} {}" and
        w2: "?w \<le> int (rp_max_context_len (rc_pool (tree_cache s2)))" and
        a2: "\<forall>r \<in> set (bt_reqs b2). active_req ?w r" and f2: "int (length (bt_reqs b2)) \<le> kv_budget (tree_cache s2)"
        using core_invD(1,2)[OF p(4)] b2(1) act p(3,7) by (auto simp: cache_ok_def)
      from decode_batch_ok[OF s2 b2(2) False a2 w2 f2, of "env_torch_empty env"] obtain b3 c3 where d:
        "prepare_for_decode (env_torch_empty env) b2 (tree_cache s2) = Some (b3, c3)"
        "serve_inv c3 (bt_reqs b3) ([] :: sched_req list) {#} {}" "same_config (tree_cache s2) c3" "decode_ready ?w b3"
        "map rid (bt_reqs b3) = map rid (bt_reqs b2)" "bt_reqs b3 \<noteq> []"
        "map steps_left (bt_reqs b3) = map steps_left (bt_reqs b2)" "is_prefill_only b3 = is_prefill_only b2" by blast
      let ?s = "s2\<lparr>running_batch := b3, tree_cache := c3\<rparr>"
      have "rest_inv cf (bt_reqs b3) ?s"
        using p(4) d(2) cache_ok_config[OF core_invD(2)[OF p(4)] d(3)] by (simp add: core_rest rest_inv_iff)
      moreover have "tracked (bt_reqs b3) ?s = tracked (bt_reqs b1) s2" using arg_cong[OF d(5), of mset] by (simp add: tracked_def b2(1))
      moreover have "load (bt_reqs b3) ?s \<le> load (bt_reqs b) s" using p(9) d(7) by (simp add: load_def b2(1) split: if_splits)
      ultimately show ?thesis using call False d(1,4,6,8) b2(1,3) p(5,6,8) br queue_bounded_le[of cf s2 ?s]
        by (intro exI[of _ ?s]) (simp add: batch_is_empty_def)
    qed
  qed
qed

end
