(* ===== verification/SchedProgress.thy ===== *)
theory SchedProgress
  imports SchedAdmit
begin

text \<open>
  Admission on an idle server: with nothing running and no node locked, the first request of the
  queue is always admitted, because a request that passed validation fits in the whole pool.
\<close>

section \<open>What one lock protects\<close>

lemma node_len_slots:
  assumes "kv_inv c H R" and t: "tree c N P" and n: "n \<in> inner c N"
  shows "node_len c n = int (card (set (slots_at c n)))"
proof -
  have o: "owns_slots c N" using kv_slots_owned[OF assms(1)] slots_owned_tree[OF t] by simp
  have "key_ok c (RadixInv.at c n)" using tree_key[OF t] n by (simp add: inner_def)
  then have "rk_len (node_key (RadixInv.at c n)) = length (slots_at c n)" by (simp add: key_ok_def slots_at_def)
  moreover have "distinct (slots_at c n)" using o n by (simp add: owns_slots_def)
  ultimately show ?thesis by (simp add: node_len_def distinct_card)
qed

lemma inner_slots:
  assumes t: "tree c N P" and n: "n \<in> inner c N"
  shows "set (slots_at c n) \<subseteq> snd ` set (P n)"
proof -
  have "n \<in> N" "n \<noteq> root_node c" using n by (simp_all add: inner_def)
  from up_exists[OF t this] obtain p where u: "(n, p) \<in> up c N" by blast
  note K = upD[OF t u]
  have "snd ` set (pairs (RadixInv.at c n)) = set (slots_at c n)"
    using map_snd_pairs[OF tree_key[OF t K(1,3)]] by (metis set_map slots_at_def)
  then show ?thesis unfolding K(4) by auto
qed

lemma protected_none:
  assumes "kv_inv c {#} R"
  shows "protected_size c = 0"
proof -
  obtain N P where "accounts c N P {#}" using kv_invD(1)[OF assms] by (auto simp: radix_inv_def)
  then have "locked c N = {}" "protected_size c = sum (node_len c) (locked c N)"
    by (auto simp: accounts_def locks_ok_def sizes_ok_def locked_def holders_below_def)
  then show ?thesis by simp
qed

lemma protected_path:
  assumes i: "kv_inv c {#n#} R" and p: "path_of c n xs"
  shows "protected_size c \<le> int (length xs)"
proof -
  obtain N P where t: "tree c N P" and a: "accounts c N P {#n#}" using kv_invD(1)[OF i] by (auto simp: radix_inv_def)
  have o: "owns_slots c N" using kv_slots_owned[OF i] slots_owned_tree[OF t] by simp
  have xs: "xs = P n" using p path_of_tree[OF t] by simp
  have l: "m \<in> inner c N" "prefix (P m) (P n)" if "m \<in> locked c N" for m
    using that a by (auto simp: locked_def accounts_def locks_ok_def holders_below_def split: if_splits)
  have fin: "finite (locked c N)" using tree_finite[OF t] by (simp add: locked_def inner_def)
  have "protected_size c = (\<Sum>m \<in> locked c N. int (card (set (slots_at c m))))"
    using a node_len_slots[OF i t] l(1) by (simp add: accounts_def sizes_ok_def)
  also have "\<dots> = int (card (\<Union>m \<in> locked c N. set (slots_at c m)))"
    using o l(1) by (subst card_UN_disjoint) (auto simp: fin owns_slots_def)
  also have "\<dots> \<le> int (card (snd ` set (P n)))"
  proof -
    have "set (slots_at c m) \<subseteq> snd ` set (P n)" if "m \<in> locked c N" for m
      using inner_slots[OF t l(1)[OF that]] set_mono_prefix[OF l(2)[OF that]] by blast
    then show ?thesis by (intro of_nat_mono card_mono) auto
  qed
  also have "\<dots> \<le> int (length xs)"
    unfolding xs by (metis card_length length_map list.set_map of_nat_le_iff)
  finally show ?thesis .
qed

text \<open>Without running requests all slots are free, evictable, or protected by a lock.\<close>

lemma budget_idle:
  assumes "kv_inv c H {}"
  shows "kv_budget c + protected_size c = al_size (rc_alloc c) \<or> al_size (rc_alloc c) < 0"
proof -
  note A = kv_invD[OF assms] and S = kv_sizes[OF assms] and F = finite_slots[OF assms]
  let ?f = "alloc_free_slots (rc_alloc c)" and ?k = "slots_cached c"
  have "?f \<union> ?k = {1..al_size (rc_alloc c)}" using A(4,7) by (simp add: alloc_universe_def)
  moreover have "card (?f \<union> ?k) = card ?f + card ?k" using F A(8) by (subst card_Un_disjoint) auto
  ultimately have "int (card ?f + card ?k) = int (card {1..al_size (rc_alloc c)})" by simp
  then show ?thesis using S by (auto simp: kv_budget_def)
qed

section \<open>The first request\<close>

definition fresh_adder :: "prefill_adder \<Rightarrow> bool" where
  "fresh_adder p \<longleftrightarrow> rem_chunk_tokens p = None \<and> can_run_list p = [] \<and> rem_total_token_offset p = 0 \<and> delayer_allows p \<and>
     prefill_max_requests p \<noteq> Some 0"

lemma first_admitted:
  assumes i: "kv_inv c {#} {}" and a: "adder_ok 0 p c" and p: "fresh_adder p" and w: "waiting_req w prio r"
    and big: "w < al_size (rc_alloc c)"
    and init: "init_next_round_input r c = Some (r1, c1)" and add: "add_one_req lb r1 al p c1 = Some (res, r2, p2, c2)"
  shows "can_run_list p2 \<noteq> []"
proof -
  from next_round_ok[OF i a, of r] init obtain n xs where r1: "kv_inv c1 {#} {}" "keeps c c1" "last_node r1 = Some n" "path_of c1 n xs"
    "host_hit_length r1 = 0" "staged c1 r1" "same_request r1 r" "fill_ids r1 = token_seq r"
    "cache_protected_len r1 = int (length (prefix_indices r1))" by auto
  have nd: "\<not> rc_disable c1" using kv_invD(2)[OF r1(1)] by (simp add: plain_config_def)
  have al1: "al_size (rc_alloc c1) = al_size (rc_alloc c)" using r1(2) by (simp add: keeps_def)
  from r1(6,3,9) obtain ys where ys: "path_of c1 n ys" "length ys = length (prefix_indices r1)"
    "int (length (fill_ids r1)) - int (length (prefix_indices r1)) = extend_input_len r1"
    unfolding staged_def req_holds_def by auto
  from kv_lock[OF r1(1) ys(1)] obtain d c' where k: "inc_lock_ref n c1 = Some (d, c')" "kv_inv c' {#n#} {}" "keeps c1 c'"
    "path_of c' n ys" using ys(1) by auto
  let ?tot = "extend_input_len r1 + min (max (max_new_tokens r1 - int (length (output_ids r1))) 0) (clip_max_new_tokens p) + pa_page_size p"
  have ps: "pa_page_size p = 1" using a by (simp add: adder_ok_def)
  have "extend_input_len r1 + int (length ys) = int (length (origin_input_ids r)) + int (length (output_ids r))"
    using ys(2,3) r1(8) by (simp add: token_seq_def)
  moreover have "max_new_tokens r1 = max_new_tokens r" "output_ids r1 = output_ids r" using r1(7) by (simp_all add: same_request_def)
  ultimately have tot: "?tot + int (length ys) < al_size (rc_alloc c)"
    using w big ps by (auto simp: waiting_req_def fits_row_def)
  have sz: "al_size (rc_alloc c') = al_size (rc_alloc c)" using k(3) al1 by (simp add: keeps_def)
  have "0 \<le> w" using w by (auto simp: waiting_req_def fits_row_def)
  then have b: "kv_budget c1 = al_size (rc_alloc c)" "al_size (rc_alloc c) - int (length ys) \<le> kv_budget c'"
    using budget_idle[OF r1(1)] budget_idle[OF k(2)] protected_none[OF r1(1)] protected_path[OF k(2,4)] sz al1 big by auto
  have lt: "of_int ?tot < rem_total_tokens p c1" "of_int ?tot < rem_total_tokens p c'"
  proof -
    have "?tot < kv_budget c1" "?tot < kv_budget c'" using tot b by simp_all
    then show "of_int ?tot < rem_total_tokens p c1" "of_int ?tot < rem_total_tokens p c'"
      using p by (simp_all add: rem_total_tokens_def fresh_adder_def del: of_int_add)
  qed
  define p3 where "p3 = update_prefill_budget (int (length (prefix_indices r1))) (ceil_paged_tokens p (extend_input_len r1))
     (min (max_new_tokens r1) (clip_max_new_tokens p)) (retracted_stain r1) (append_can_run r1 p)"
  from kv_lock[OF k(2,4)] obtain d2 c3 where l: "inc_lock_ref n c' = Some (d2, c3)" by blast
  have locked: "admit_locked lb r1 al ?tot (int (length (prefix_indices r1))) p c' = Some (Inr (), r1, p3, c3)"
    using lt(2) p r1(3,5) l unfolding admit_locked_def Let_def
    by (simp add: fresh_adder_def p3_def append_can_run_def cong del: option.case_cong_weak del: of_int_add)
  have "add_one_req lb r1 al p c1 = do {
      (_, c) \<leftarrow> dec_lock_ref n c3;
      Some (budget_state p3 c, r1, p3, c)
    }"
    unfolding add_one_req_def Let_def using lt(1) p nd r1(3) k(1) locked
    by (auto simp: fresh_adder_def not_le split: option.splits)
  then have "p2 = p3" using add by (auto split: bind_splits)
  then show ?thesis by (simp add: p3_def update_prefill_budget_def append_can_run_def Let_def)
qed

lemma loop_admits:
  assumes i: "kv_inv c {#} {}" and a: "adder_ok 0 p c" and p: "fresh_adder p" and cf: "config_ok cf"
    and w: "\<forall>r \<in> set rs. waiting_req w prio r" and ne: "rs \<noteq> []" and big: "w < al_size (rc_alloc c)"
    and room: "0 < num_allocatable_reqs cf bs c"
    and loop: "admit_loop env cf bs rs False p c = Some (q, p', full, c')"
  shows "can_run_list p' \<noteq> []"
proof -
  obtain r rs' where rs: "rs = r # rs'" using ne by (cases rs) auto
  have mx: "0 \<le> max_new_tokens x" if "x \<in> set rs" for x using w that by (auto simp: waiting_req_def fits_row_def)
  have al: "\<forall>al. truncation_align_size cf = Some al \<longrightarrow> 0 < al" using cf by (simp add: config_ok_def)
  have pp: "rem_chunk_tokens p = None" "can_run_list p = []" using p by (simp_all add: fresh_adder_def)
  have "0 \<le> max_new_tokens r" using mx rs by simp
  from admit_one_ok[where lb = "env_load_back env", OF i a al this] obtain r1 c1 res r2 p2 c2 one where b:
    "init_next_round_input r c = Some (r1, c1)" "add_one_req (env_load_back env) r1 (truncation_align_size cf) p c1 = Some (res, r2, p2, c2)"
    "kv_inv c2 ({#} + lock_nodes one) {}" "adder_ok 0 p2 c2"
    "can_run_list p2 = can_run_list p @ one" "rem_chunk_tokens p2 = None"
    using pp(1) by blast
  have n2: "can_run_list p2 \<noteq> []" by (rule first_admitted[OF i a p _ big b(1,2)]) (use w rs in auto)
  show ?thesis
  proof (cases "res = CONTINUE")
    case False
    then show ?thesis using loop b(1,2) n2 room by (auto simp: rs pp)
  next
    case True
    from admit_loop_ok[OF b(3,4,6) cf, of rs' env bs False] mx rs obtain q2 p3 full3 c3 news where e:
      "admit_loop env cf bs rs' False p2 c2 = Some (q2, p3, full3, c3)" "can_run_list p3 = can_run_list p2 @ news" by auto
    have "p' = p3" using loop b(1,2) e(1) True room by (simp add: rs pp)
    then show ?thesis using n2 e(2) by simp
  qed
qed

section \<open>A prefill batch on an idle server\<close>

text \<open>
  A batch may hold a request, and a request that passes validation fits in the pool
  (\<open>TpModelWorker\<close> sets \<open>max_req_len\<close> at most one less than the size of the pool).
\<close>

definition roomy :: "sched_config \<Rightarrow> bool" where
  "roomy cf \<longleftrightarrow> 0 < pp_max_micro_batch_size cf \<and> cf_prefill_max_requests cf \<noteq> Some 0 \<and> max_req_len cf < max_total_num_tokens cf"

lemma prefill_progress:
  assumes c: "core_inv cf [] s" and cf: "config_ok cf" and env: "environment_ok env" and room: "roomy cf"
    and idle: "bt_reqs (running_batch s) = []" "\<not> batch_is_full (running_batch s)" "waiting_queue s \<noteq> []"
    and get: "get_new_batch_prefill env cf s = Some (nb, s')"
  shows "nb \<noteq> None"
proof -
  note C = core_invD[OF c] and A = serveD[OF core_invD(1)[OF c]]
  let ?w = "max_req_len cf" and ?prio = "enable_priority_scheduling (sd_policy s)"
  have "length (rp_free_slots (rc_pool (tree_cache s))) = card {1..rp_size (rc_pool (tree_cache s))}"
    using A(4,5) distinct_card by fastforce
  moreover have "0 < rp_size (rc_pool (tree_cache s))" using C(2) by (simp add: cache_ok_def)
  ultimately have nr: "0 < num_allocatable_reqs cf 0 (tree_cache s)"
    using room by (simp add: num_allocatable_reqs_def pool_available_size_def roomy_def)
  have wq: "\<forall>r \<in> set (waiting_queue s). waiting_req ?w ?prio r" using C(5) by blast
  from calc_priority_serve[OF C(1,6,7) _ wq, of "env_shuffle env"] env obtain q1 c1 w1 where k:
    "calc_priority (env_shuffle env) (sd_policy s) (waiting_queue s) (Some []) (tree_cache s) (queue_tree s) = Some (q1, c1, w1)"
    "mset (map unmatched q1) = mset (map unmatched (waiting_queue s))" "serve_inv c1 ([] :: sched_req list) ([] :: sched_req list) {#} {}"
    "keeps (tree_cache s) c1"
    unfolding environment_ok_def by blast
  have w1: "\<forall>r \<in> set q1. waiting_req ?w ?prio r"
  proof
    fix r assume "r \<in> set q1"
    then have "unmatched r \<in> set (map unmatched (waiting_queue s))" using mset_eq_setD[OF k(2)] by auto
    then obtain r0 where "r0 \<in> set (waiting_queue s)" "unmatched r = unmatched r0" by auto
    then show "waiting_req ?w ?prio r" using waiting_unmatched C(5) by blast
  qed
  have ne: "q1 \<noteq> []" using k(2) idle(3) by auto
  let ?p = "adder_init 1 (clip_max_new cf) (Some []) (rt_current (ratio_track s))
              (max_prefill_tokens cf) None 0 (cf_preemption_threshold cf) (cf_prefill_max_requests cf) (cf_cp_in_seq_split cf) True"
  have ad: "adder_ok 0 ?p c1" by (rule adder_ok_init) (use C(8) cf in \<open>simp_all add: ratio_ok_def config_ok_def\<close>)
  have fa: "fresh_adder ?p" using room by (simp add: fresh_adder_def adder_init_def roomy_def)
  have i1: "kv_inv c1 {#} {}" using serveD(1)[OF k(3)] by (simp add: lock_nodes_def)
  have big: "?w < al_size (rc_alloc c1)" using C(2) k(4) room by (simp add: cache_ok_def keeps_def roomy_def)
  have nr1: "0 < num_allocatable_reqs cf 0 c1" using nr allocatable_keeps[OF k(4)] by simp
  have mx: "\<forall>r \<in> set q1. 0 \<le> max_new_tokens r" using w1 by (simp add: waiting_req_def fits_row_def)
  have pc: "rem_chunk_tokens ?p = None" using fa by (simp add: fresh_adder_def)
  from admit_loop_ok[OF i1 ad pc cf mx, of env 0 False] obtain q2 p2 full c2 where l:
    "admit_loop env cf 0 q1 False ?p c1 = Some (q2, p2, full, c2)" by blast
  have "can_run_list p2 \<noteq> []" by (rule loop_admits[OF i1 ad fa cf w1 ne big nr1 l])
  then show ?thesis
    using get nr k(1) l cf idle unfolding get_new_batch_prefill_def Let_def
    by (auto simp: config_ok_def split: bind_splits)
qed

end
