(* ===== verification/SchedSafe.thy ===== *)
theory SchedSafe
  imports SchedDecode SchedProgress
begin

text \<open>
  A whole iteration of \<open>event_loop_normal\<close>: it never fails, keeps the invariant and every request.
\<close>

section \<open>Results\<close>

lemma sent_tracked:
  "mset (map rid (unfinished rs)) + mset (map out_rid (sent_finished rs)) = mset (map rid rs)"
  by (induction rs) (simp_all add: sent_finished_def)

lemma results_rest:
  assumes "list_all2 (result_of w) rs rs'"
  shows "\<forall>r \<in> set rs'. at_rest w r" and "map rid rs' = map rid rs"
  using assms by (induction rule: list_all2_induct) (simp_all add: result_of_def at_rest_def)

lemma results_rows:
  assumes l: "list_all2 (result_of w) (bt_reqs b) rs'"
    and m: "bt_seq_lens b = map kv_committed_len (bt_reqs b)" "bt_pool_indices b = map (the \<circ> req_pool_idx) (bt_reqs b)"
  shows "batch_at_rest w (b\<lparr>bt_reqs := rs'\<rparr>)"
proof -
  have n: "length rs' = length (bt_reqs b)" using list_all2_lengthD[OF l] by simp
  have "bt_pool_indices b ! i = the (req_pool_idx (rs' ! i)) \<and> bt_seq_lens b ! i = kv_committed_len (rs' ! i)"
    if "i < length rs'" "\<not> finished (rs' ! i)" for i
    using list_all2_nthD2[OF l that(1)] that n by (simp add: m result_of_def)
  then show ?thesis using results_rest(1)[OF l] n by (simp add: batch_at_rest_def rows_match_def m)
qed

lemma results_limit:
  assumes "list_all2 (result_of w) rs rs'" and "\<forall>r \<in> set rs. int (length (output_ids r)) < max_new_tokens r"
  shows "\<forall>r \<in> set rs'. int (length (output_ids r)) \<le> max_new_tokens r"
  using assms by (induction rule: list_all2_induct) (auto simp: result_of_def)

lemma results_steps:
  assumes "list_all2 (result_of w) rs rs'"
  shows "sum_list (map steps_left (unfinished rs')) + length rs \<le> sum_list (map steps_left rs)"
  using assms
proof (induction rule: list_all2_induct)
  case (Cons r rs r' rs')
  have "(if finished r' then 0 else steps_left r') + 1 \<le> steps_left r"
    using Cons(1) by (auto simp: result_of_def active_req_def steps_left_def)
  then show ?case using Cons(3) by (simp split: if_splits)
qed simp

lemma results_no_tokens:
  assumes "list_all2 (result_of w) rs rs'" and "\<forall>r \<in> set rs. max_new_tokens r = 0"
  shows "unfinished rs' = []"
  using assms by (induction rule: list_all2_induct) (auto simp: result_of_def active_req_def split: if_splits)

lemma process_prefill_ok:
  assumes c: "core_inv cf (bt_reqs b @ rs) s" and p: "prefill_ready (max_req_len cf) b"
  shows "\<exists>b' s'. process_batch_result_prefill env cf sample b s = Some (b', s') \<and> core_inv cf (unfinished (bt_reqs b') @ rs) s' \<and>
    batch_at_rest (max_req_len cf) b' \<and> running_batch s' = running_batch s \<and> waiting_queue s' = waiting_queue s \<and>
    tracked (unfinished (bt_reqs b') @ rs) s' = tracked (bt_reqs b @ rs) s \<and>
    load (unfinished (bt_reqs b') @ rs) s' + length (bt_reqs b) \<le> load (bt_reqs b @ rs) s \<and> (fresh_batch b \<longrightarrow> last_ok b')"
proof -
  note C = core_invD[OF c]
  have ns: "\<not> rc_strip_thinking (tree_cache s)" using C(2) by (simp add: cache_ok_def)
  let ?ts = "map sample [0..<length (bt_reqs b)]"
  have "length ?ts = length (bt_reqs b)" by simp
  from prefill_results_ok[OF C(1) ns this, of "max_req_len cf" env cf] p obtain rs' c' where r:
    "prefill_results env cf (bt_reqs b) ?ts (tree_cache s) = Some (rs', c')"
    "serve_inv c' (unfinished rs' @ rs) ([] :: sched_req list) {#} {}" "same_config (tree_cache s) c'"
    "list_all2 (result_of (max_req_len cf)) (bt_reqs b) rs'" unfolding prefill_ready_def by blast
  let ?b = "b\<lparr>bt_reqs := rs'\<rparr>" and ?s = "s\<lparr>tree_cache := c', outbox := outbox s @ sent_finished rs'\<rparr>"
  have "process_batch_result_prefill env cf sample b s = Some (?b, ?s)"
    using r(1) by (simp add: process_batch_result_prefill_def)
  moreover have "core_inv cf (unfinished rs' @ rs) ?s" using C r(2) cache_ok_config[OF C(2) r(3)] by (simp add: core_inv_def)
  moreover have "batch_at_rest (max_req_len cf) ?b" using results_rows[OF r(4)] p by (simp add: prefill_ready_def)
  moreover have "tracked (unfinished rs' @ rs) ?s = tracked (bt_reqs b @ rs) s"
    using sent_tracked[of rs'] arg_cong[OF results_rest(2)[OF r(4)], of mset] by (simp add: tracked_def ac_simps)
  moreover have "load (unfinished rs' @ rs) ?s + length (bt_reqs b) \<le> load (bt_reqs b @ rs) s"
    using results_steps[OF r(4)] by (simp add: load_def)
  moreover have "fresh_batch b \<longrightarrow> last_ok ?b"
    using results_no_tokens[OF r(4)] list_all2_lengthD[OF r(4)] by (auto simp: fresh_batch_def last_ok_def)
  ultimately show ?thesis by (intro exI[of _ ?b] exI[of _ ?s]) simp
qed

lemma process_decode_ok:
  assumes c: "rest_inv cf (bt_reqs (running_batch s)) s" and d: "decode_ready (max_req_len cf) (running_batch s)"
  shows "\<exists>b' s'. process_batch_result_decode env cf sample (running_batch s) s = Some (b', s') \<and>
    core_inv cf (unfinished (bt_reqs b')) (s'\<lparr>running_batch := b'\<rparr>) \<and> waiting_queue s' = waiting_queue s \<and>
    tracked (unfinished (bt_reqs b')) s' = tracked (bt_reqs (running_batch s)) s \<and>
    load (unfinished (bt_reqs b')) s' + length (bt_reqs (running_batch s)) \<le> load (bt_reqs (running_batch s)) s \<and>
    length (bt_reqs b') = length (bt_reqs (running_batch s)) \<and> is_prefill_only b' = is_prefill_only (running_batch s)"
proof -
  let ?b = "running_batch s"
  note C = c[unfolded rest_inv_iff]
  have ns: "\<not> rc_strip_thinking (tree_cache s)" using C by (simp add: cache_ok_def)
  let ?ts = "map sample [0..<length (bt_reqs ?b)]"
  have i: "serve_inv (tree_cache s) (bt_reqs ?b @ []) ([] :: sched_req list) {#} {}" using C by simp
  have "length ?ts = length (bt_reqs ?b)" by simp
  from decode_group_ok[OF i ns this, of "max_req_len cf" env cf] d obtain rs' c1 c' where r:
    "decode_results env cf (bt_reqs ?b) ?ts (group_begin (tree_cache s)) = Some (rs', c1)" "group_end c1 = Some c'"
    "serve_inv c' (unfinished rs' @ []) ([] :: sched_req list) {#} {}" "same_config (tree_cache s) c'"
    "list_all2 (result_of (max_req_len cf)) (bt_reqs ?b) rs'" unfolding decode_ready_def by blast
  let ?b' = "?b\<lparr>bt_reqs := rs'\<rparr>" and ?s = "s\<lparr>tree_cache := c', outbox := outbox s @ sent_finished rs'\<rparr>"
  have "process_batch_result_decode env cf sample ?b s = Some (?b', ?s)"
    using r(1,2) by (simp add: process_batch_result_decode_def)
  moreover have "within_limit ?b'" using results_limit[OF r(5)] d by (simp add: within_limit_def decode_ready_def)
  moreover have "batch_at_rest (max_req_len cf) ?b'" using results_rows[OF r(5)] d by (simp add: decode_ready_def)
  ultimately have "core_inv cf (unfinished rs') (?s\<lparr>running_batch := ?b'\<rparr>)"
    using C r(3) cache_ok_config[OF _ r(4)] by (simp add: core_inv_def)
  moreover have "tracked (unfinished rs') ?s = tracked (bt_reqs ?b) s"
    using sent_tracked[of rs'] arg_cong[OF results_rest(2)[OF r(5)], of mset] by (simp add: tracked_def ac_simps)
  moreover have "load (unfinished rs') ?s + length (bt_reqs ?b) \<le> load (bt_reqs ?b) s"
    using results_steps[OF r(5)] by (simp add: load_def)
  moreover have "length (bt_reqs ?b') = length (bt_reqs ?b)" using list_all2_lengthD[OF r(5)] by simp
  ultimately show ?thesis using \<open>process_batch_result_decode env cf sample ?b s = Some (?b', ?s)\<close>
    by (intro exI[of _ ?b'] exI[of _ ?s]) simp
qed

section \<open>Merging\<close>

lemma filtered_rest:
  assumes "batch_at_rest w b"
  shows "batch_at_rest w (filter_batch None b)" and "within_limit (filter_batch None b)"
proof -
  have m: "rows_match b" using assms by (simp add: batch_at_rest_def)
  note F = filter_none_ok[OF m]
  have r: "\<forall>r \<in> set (bt_reqs (filter_batch None b)). at_rest w r \<and> \<not> finished r"
    using assms unfolding F(1) by (auto simp: batch_at_rest_def unfinished_def)
  then show "within_limit (filter_batch None b)" by (auto simp: within_limit_def at_rest_def active_req_def)
  show "batch_at_rest w (filter_batch None b)"
    using r F(2) by (auto simp: batch_at_rest_def rows_match_def exact_rows_def)
qed

lemma unfinished_idem [simp]: "unfinished (unfinished rs) = unfinished rs"
  by (simp add: unfinished_def)

lemma merged_rest:
  assumes "batch_at_rest w b" and "bt_reqs b \<noteq> []" and "batch_at_rest w d" and "bt_reqs d \<noteq> []"
  shows "batch_at_rest w (merge_batch b d)"
  using assms by (auto simp: batch_at_rest_def rows_match_def merge_batch_def nth_append)

text \<open>The flags of the running batch after merging, and when a prefill batch may be formed.\<close>

definition merged_flags :: "sched_batch \<Rightarrow> bool" where
  "merged_flags b \<longleftrightarrow> (is_prefill_only b \<longrightarrow> unfinished (bt_reqs b) = []) \<and> (batch_is_full b \<longrightarrow> bt_reqs b \<noteq> [])"

definition ready_flags :: "sched_batch \<Rightarrow> bool" where
  "ready_flags b \<longleftrightarrow> (is_prefill_only b \<longrightarrow> bt_reqs b = []) \<and> (batch_is_full b \<longrightarrow> bt_reqs b \<noteq> [])"

lemma filter_full_flag [simp]: "batch_is_full (filter_batch ks b) = batch_is_full b"
  by (simp add: filter_batch_def Let_def)

lemma merged_flags_ok:
  assumes f: "flags_ok s" and l: "last_batch s = Extend_batch lb" and lm: "bt_reqs (filter_batch None lb) = unfinished (bt_reqs lb)"
  shows "let run = (if length (bt_reqs (filter_batch None lb)) < length (bt_reqs lb)
        then (running_batch s)\<lparr>batch_is_full := False\<rparr> else running_batch s)
    in merged_flags (if batch_is_empty (filter_batch None lb) then run else if batch_is_empty run then filter_batch None lb
         else merge_batch run (filter_batch None lb))"
proof -
  have b: "bt_reqs lb \<noteq> []" "\<not> batch_is_full lb" "is_prefill_only lb \<longrightarrow> unfinished (bt_reqs lb) = []"
    and r: "is_prefill_only (running_batch s) \<longrightarrow> unfinished (bt_reqs (running_batch s)) = []"
    using f l by (simp_all add: flags_ok_def last_ok_def)
  show ?thesis
  proof (cases "unfinished (bt_reqs lb) = []")
    case True
    then show ?thesis using b(1) r lm by (simp add: merged_flags_def batch_is_empty_def)
  next
    case False
    then show ?thesis using b(2,3) r lm by (auto simp: merged_flags_def batch_is_empty_def merge_batch_def)
  qed
qed

lemma core_with_run:
  assumes "core_inv cf rs s" and "batch_at_rest (max_req_len cf) b" and "within_limit b" and "mset rs = mset rs'"
  shows "core_inv cf rs' (s\<lparr>running_batch := b, last_batch := l\<rparr>)"
  using core_perm[OF assms(1,4)] assms(2,3) by (simp add: core_inv_def)

lemma merge_last_ok:
  assumes i: "sched_inv cf s"
  defines "s' \<equiv> merge_last_batch s"
  shows "core_inv cf (unfinished (bt_reqs (running_batch s'))) s'"
    and "tracked (unfinished (bt_reqs (running_batch s'))) s' = tracked (live s) s"
    and "waiting_queue s' = waiting_queue s"
    and "flags_ok s \<longrightarrow> merged_flags (running_batch s')"
    and "bt_reqs (running_batch s) = [] \<longrightarrow> unfinished (bt_reqs (running_batch s')) = bt_reqs (running_batch s')"
    and "load (unfinished (bt_reqs (running_batch s'))) s' = load (live s) s"
proof -
  have c: "core_inv cf (live s) s" using i by (simp add: sched_inv_def)
  note C = core_invD[OF c]
  let ?goal = "core_inv cf (unfinished (bt_reqs (running_batch s'))) s' \<and>
    tracked (unfinished (bt_reqs (running_batch s'))) s' = tracked (live s) s \<and> waiting_queue s' = waiting_queue s \<and>
    (flags_ok s \<longrightarrow> merged_flags (running_batch s')) \<and>
    (bt_reqs (running_batch s) = [] \<longrightarrow> unfinished (bt_reqs (running_batch s')) = bt_reqs (running_batch s')) \<and>
    load (unfinished (bt_reqs (running_batch s'))) s' = load (live s) s"
  have ?goal
  proof (cases "last_batch s")
    case (Extend_batch lb)
    let ?lb = "filter_batch None lb" and ?w = "max_req_len cf"
    define run where "run = (if length (bt_reqs ?lb) < length (bt_reqs lb)
      then (running_batch s)\<lparr>batch_is_full := False\<rparr> else running_batch s)"
    define new where "new = (if batch_is_empty ?lb then run else if batch_is_empty run then ?lb else merge_batch run ?lb)"
    have s': "s' = s\<lparr>running_batch := new, last_batch := Extend_batch ?lb\<rparr>"
      by (simp add: s'_def merge_last_batch_def Extend_batch Let_def new_def run_def)
    have lr: "batch_at_rest ?w lb" using i Extend_batch by (simp add: sched_inv_def)
    then have lm: "bt_reqs ?lb = unfinished (bt_reqs lb)" using filter_none_ok(1) by (simp add: batch_at_rest_def)
    have rr: "batch_at_rest ?w run" "within_limit run" "bt_reqs run = bt_reqs (running_batch s)" using C(3,4) by (simp_all add: run_def)
    have lv: "live s = unfinished (bt_reqs lb) @ unfinished (bt_reqs (running_batch s))" by (simp add: live_def extend_reqs_def Extend_batch)
    have n: "batch_at_rest ?w new" "within_limit new" "mset (live s) = mset (unfinished (bt_reqs new))"
      using filtered_rest[OF lr] rr merged_rest[OF rr(1) _ filtered_rest(1)[OF lr]] lv
      by (auto simp: new_def batch_is_empty_def lm within_limit_def merge_batch_def)
    have "core_inv cf (unfinished (bt_reqs new)) s'" unfolding s' by (rule core_with_run[OF c n])
    moreover have "tracked (unfinished (bt_reqs new)) s' = tracked (live s) s"
      using arg_cong[OF n(3), of "image_mset rid"] by (simp add: tracked_def s')
    moreover have "merged_flags new" if "flags_ok s"
      using merged_flags_ok[OF that Extend_batch lm] unfolding new_def run_def Let_def .
    moreover have "bt_reqs (running_batch s) = [] \<longrightarrow> unfinished (bt_reqs new) = bt_reqs new"
      by (simp add: new_def batch_is_empty_def rr(3) lm)
    moreover have "load (unfinished (bt_reqs new)) s' = load (live s) s"
      using load_perm[OF n(3), of s] by (simp add: s' load_def)
    ultimately show ?thesis by (simp add: s' extend_reqs_def)
  qed (use c in \<open>simp_all add: s'_def merge_last_batch_def live_def extend_reqs_def flags_ok_def merged_flags_def\<close>)
  then show "core_inv cf (unfinished (bt_reqs (running_batch s'))) s'"
    "tracked (unfinished (bt_reqs (running_batch s'))) s' = tracked (live s) s" "waiting_queue s' = waiting_queue s"
    "flags_ok s \<longrightarrow> merged_flags (running_batch s')"
    "bt_reqs (running_batch s) = [] \<longrightarrow> unfinished (bt_reqs (running_batch s')) = bt_reqs (running_batch s')"
    "load (unfinished (bt_reqs (running_batch s'))) s' = load (live s) s" by blast+
qed

lemma filter_prefill_only_ok:
  assumes c: "core_inv cf (unfinished (bt_reqs (running_batch s))) s"
  defines "s' \<equiv> filter_prefill_only s"
  shows "core_inv cf (unfinished (bt_reqs (running_batch s'))) s'"
    and "tracked (unfinished (bt_reqs (running_batch s'))) s' = tracked (unfinished (bt_reqs (running_batch s))) s"
    and "waiting_queue s' = waiting_queue s"
    and "merged_flags (running_batch s) \<longrightarrow> ready_flags (running_batch s')"
    and "unfinished (bt_reqs (running_batch s)) = bt_reqs (running_batch s) \<longrightarrow>
      unfinished (bt_reqs (running_batch s')) = bt_reqs (running_batch s')"
    and "load (unfinished (bt_reqs (running_batch s'))) s' = load (unfinished (bt_reqs (running_batch s))) s"
proof -
  note C = core_invD[OF c]
  let ?w = "max_req_len cf" and ?run = "filter_batch None (running_batch s)"
  have m: "bt_reqs ?run = unfinished (bt_reqs (running_batch s))" using filter_none_ok(1) C(3) by (simp add: batch_at_rest_def)
  note F = filtered_rest[OF C(3)]
  have "core_inv cf (unfinished (bt_reqs (running_batch s'))) s' \<and>
    tracked (unfinished (bt_reqs (running_batch s'))) s' = tracked (unfinished (bt_reqs (running_batch s))) s \<and>
    waiting_queue s' = waiting_queue s"
    using c F m by (auto simp: s'_def filter_prefill_only_def Let_def core_inv_def tracked_def)
  moreover have "(merged_flags (running_batch s) \<longrightarrow> ready_flags (running_batch s')) \<and>
    (unfinished (bt_reqs (running_batch s)) = bt_reqs (running_batch s) \<longrightarrow>
      unfinished (bt_reqs (running_batch s')) = bt_reqs (running_batch s')) \<and>
    load (unfinished (bt_reqs (running_batch s'))) s' = load (unfinished (bt_reqs (running_batch s))) s"
    using m by (auto simp: s'_def filter_prefill_only_def Let_def merged_flags_def ready_flags_def batch_is_empty_def load_def)
  ultimately show "core_inv cf (unfinished (bt_reqs (running_batch s'))) s'"
    "tracked (unfinished (bt_reqs (running_batch s'))) s' = tracked (unfinished (bt_reqs (running_batch s))) s"
    "waiting_queue s' = waiting_queue s" "merged_flags (running_batch s) \<longrightarrow> ready_flags (running_batch s')"
    "unfinished (bt_reqs (running_batch s)) = bt_reqs (running_batch s) \<longrightarrow>
      unfinished (bt_reqs (running_batch s')) = bt_reqs (running_batch s')"
    "load (unfinished (bt_reqs (running_batch s'))) s' = load (unfinished (bt_reqs (running_batch s))) s" by blast+
qed

section \<open>The next batch\<close>

text \<open>What \<open>get_next_batch_to_run\<close> hands over.\<close>

definition chosen_ok :: "sched_config \<Rightarrow> string multiset \<Rightarrow> last_batch \<Rightarrow> scheduler \<Rightarrow> bool" where
  "chosen_ok cf T l s \<longleftrightarrow>
     (case l of
        No_batch \<Rightarrow> core_inv cf (unfinished (bt_reqs (running_batch s))) s \<and> tracked (unfinished (bt_reqs (running_batch s))) s = T
      | Decode_batch \<Rightarrow> rest_inv cf (bt_reqs (running_batch s)) s \<and> decode_ready (max_req_len cf) (running_batch s) \<and>
          tracked (bt_reqs (running_batch s)) s = T
      | Extend_batch b \<Rightarrow> core_inv cf (bt_reqs b @ unfinished (bt_reqs (running_batch s))) s \<and> prefill_ready (max_req_len cf) b \<and>
          tracked (bt_reqs b @ unfinished (bt_reqs (running_batch s))) s = T)"

text \<open>The choice makes progress: an iteration without a batch leaves less to do, or nothing.\<close>

definition progress :: "last_batch \<Rightarrow> scheduler \<Rightarrow> scheduler \<Rightarrow> bool" where
  "progress l s s' \<longleftrightarrow>
     (case l of
        No_batch \<Rightarrow> bt_reqs (running_batch s') = [] \<and> \<not> batch_is_full (running_batch s') \<and> load [] s' \<le> load (live s) s \<and>
          (load [] s' < load (live s) s \<or> bt_reqs (running_batch s) \<noteq> [] \<or> load (live s) s = 0)
      | Decode_batch \<Rightarrow> \<not> is_prefill_only (running_batch s') \<and> bt_reqs (running_batch s') \<noteq> [] \<and>
          load (bt_reqs (running_batch s')) s' \<le> load (live s) s
      | Extend_batch b \<Rightarrow> fresh_batch b \<and> (is_prefill_only (running_batch s') \<longrightarrow> bt_reqs (running_batch s') = []) \<and>
          load (bt_reqs b @ unfinished (bt_reqs (running_batch s'))) s' \<le> load (live s) s)"

lemma next_batch_ok:
  assumes i: "sched_inv cf s" and cf: "config_ok cf" and env: "environment_ok env" and u: "single (tracked (live s) s)"
  shows "\<exists>l s'. get_next_batch_to_run env cf now s = Some (l, s') \<and> chosen_ok cf (tracked (live s) s) l s' \<and>
    (queue_bounded cf s \<longrightarrow> queue_bounded cf s') \<and> (roomy cf \<and> flags_ok s \<longrightarrow> progress l s s')"
proof -
  let ?T = "tracked (live s) s"
  define s1 where "s1 = filter_prefill_only (merge_last_batch s)"
  note M = merge_last_ok[OF i]
  note F = filter_prefill_only_ok[OF M(1), folded s1_def]
  let ?rs1 = "unfinished (bt_reqs (running_batch s1))"
  have t1: "tracked ?rs1 s1 = ?T" using F(2) M(2) by simp
  let ?L = "load (live s) s"
  have l1: "load ?rs1 s1 = ?L" using F(6) M(6) by simp
  have f1: "flags_ok s \<longrightarrow> ready_flags (running_batch s1)" using M(4) F(4) by simp
  have e1: "bt_reqs (running_batch s) = [] \<longrightarrow> ?rs1 = bt_reqs (running_batch s1)" using M(5) F(5) by simp
  have u1: "single (tracked ?rs1 s1)" using u t1 by simp
  from get_new_batch_prefill_ok[OF F(1) cf env u1] obtain nb s2 where g: "get_new_batch_prefill env cf s1 = Some (nb, s2)"
    "same_run s1 s2" "length (waiting_queue s2) \<le> length (waiting_queue s1)"
    "case nb of None \<Rightarrow> core_inv cf ?rs1 s2 \<and> tracked ?rs1 s2 = tracked ?rs1 s1 \<and> load ?rs1 s2 = load ?rs1 s1
     | Some b \<Rightarrow> core_inv cf (bt_reqs b @ ?rs1) s2 \<and> tracked (bt_reqs b @ ?rs1) s2 = tracked ?rs1 s1 \<and> prefill_ready (max_req_len cf) b \<and>
         load (bt_reqs b @ ?rs1) s2 = load ?rs1 s1 \<and> fresh_batch b"
    by blast
  have run2: "bt_reqs (running_batch s2) = bt_reqs (running_batch s1)" "is_prefill_only (running_batch s2) = is_prefill_only (running_batch s1)"
    using g(2) by (auto simp: same_run_def)
  have qb: "queue_bounded cf s \<longrightarrow> queue_bounded cf s2" using queue_bounded_le[of cf s s2] g(3) F(3) M(3) by simp
  have call: "get_next_batch_to_run env cf now s = (case nb of Some b \<Rightarrow> Some (Extend_batch b, s2)
      | None \<Rightarrow> if \<not> batch_is_empty (running_batch s2) \<and> \<not> is_prefill_only (running_batch s2) then do {
            s \<leftarrow> update_running_batch env cf now s2;
            Some (if batch_is_empty (running_batch s) then No_batch else Decode_batch, s)
          } else Some (No_batch, s2))"
    unfolding get_next_batch_to_run_def Let_def s1_def[symmetric] using g(1) by simp
  show ?thesis
  proof (cases nb)
    case (Some b)
    then have "roomy cf \<and> flags_ok s \<longrightarrow> progress (Extend_batch b) s s2"
      using g(4) l1 run2 f1 by (simp add: progress_def ready_flags_def)
    then show ?thesis using Some call g(4) t1 run2 qb by (intro exI[of _ "Extend_batch b"] exI[of _ s2]) (simp add: chosen_ok_def)
  next
    case None
    have c2: "core_inv cf (unfinished (bt_reqs (running_batch s2))) s2" "tracked (unfinished (bt_reqs (running_batch s2))) s2 = ?T"
      "load (unfinished (bt_reqs (running_batch s2))) s2 = ?L"
      using g(4) None t1 l1 run2 by simp_all
    show ?thesis
    proof (cases "\<not> batch_is_empty (running_batch s2) \<and> \<not> is_prefill_only (running_batch s2)")
      case False
      have "progress No_batch s s2" if r: "roomy cf" "flags_ok s"
      proof -
        have em: "bt_reqs (running_batch s1) = []" "\<not> batch_is_full (running_batch s1)"
          using False f1 r run2 by (auto simp: ready_flags_def batch_is_empty_def)
        have c1: "core_inv cf [] s1" using F(1) em(1) by simp
        have "waiting_queue s1 = []" using prefill_progress[OF c1 cf env r(1) em _ g(1)] None by blast
        moreover from this have "s2 = s1" using g(1) by (simp add: get_new_batch_prefill_def Let_def)
        ultimately show ?thesis using em l1 by (simp add: progress_def load_def)
      qed
      then show ?thesis using False call None c2 qb by (intro exI[of _ No_batch] exI[of _ s2]) (auto simp: chosen_ok_def)
    next
      case True
      have "single (tracked (unfinished (bt_reqs (running_batch s2))) s2)" using u c2(2) by simp
      from update_running_ok[OF c2(1) cf this, of env now] obtain s3 where r: "update_running_batch env cf now s2 = Some s3"
        "rest_inv cf (bt_reqs (running_batch s3)) s3"
        "bt_reqs (running_batch s3) \<noteq> [] \<longrightarrow> decode_ready (max_req_len cf) (running_batch s3)"
        "tracked (bt_reqs (running_batch s3)) s3 = ?T" "queue_bounded cf s2 \<longrightarrow> queue_bounded cf s3"
        "is_prefill_only (running_batch s3) = is_prefill_only (running_batch s2)" "load (bt_reqs (running_batch s3)) s3 \<le> ?L"
        "bt_reqs (running_batch s3) = [] \<longrightarrow> \<not> batch_is_full (running_batch s3) \<and>
          (unfinished (bt_reqs (running_batch s2)) = [] \<or> load (bt_reqs (running_batch s3)) s3 < ?L)"
        unfolding c2(2,3) by blast
      show ?thesis
      proof (cases "bt_reqs (running_batch s3) = []")
        case em: True
        then have "core_inv cf [] s3" using r(2) by (simp add: core_rest batch_at_rest_def rows_match_def within_limit_def)
        moreover have "progress No_batch s s3"
          using r(7,8) em e1 True run2(1) by (auto simp: progress_def batch_is_empty_def)
        ultimately show ?thesis using call None True r(1-5) em qb
          by (intro exI[of _ No_batch] exI[of _ s3]) (simp add: chosen_ok_def batch_is_empty_def)
      next
        case ne: False
        then have "progress Decode_batch s s3" using r(6,7) True by (simp add: progress_def)
        then show ?thesis using call None True r(1-5) ne qb
          by (intro exI[of _ Decode_batch] exI[of _ s3]) (simp add: chosen_ok_def batch_is_empty_def)
      qed
    qed
  qed
qed

section \<open>An iteration\<close>

text \<open>What is left to do, and one more for a running batch that may have to be cleared.\<close>

definition backlog :: "scheduler \<Rightarrow> nat" where
  "backlog s = 2 * load (live s) s + (if bt_reqs (running_batch s) = [] then 0 else 1)"

lemma backlog_none: "backlog s = 0 \<Longrightarrow> waiting_queue s = [] \<and> live s = [] \<and> bt_reqs (running_batch s) = []"
  by (cases "waiting_queue s"; cases "live s") (auto simp: backlog_def load_def steps_left_def split: if_splits)

lemma load_last [simp]: "load rs (s\<lparr>last_batch := l\<rparr>) = load rs s" "load rs (s\<lparr>running_batch := b\<rparr>) = load rs s"
  by (simp_all add: load_def)

lemma idle_ok:
  assumes c: "core_inv cf (unfinished (bt_reqs (running_batch s))) s" and cf: "config_ok cf"
  shows "\<exists>s'. on_idle cf s = Some s' \<and> core_inv cf (unfinished (bt_reqs (running_batch s))) s' \<and>
    running_batch s' = running_batch s \<and> waiting_queue s' = waiting_queue s \<and> outbox s' = outbox s"
proof (cases "is_fully_idle s")
  case True
  then have "idle_check cf s" using idle_check_ok[OF _ cf] c by (simp add: is_fully_idle_def batch_is_empty_def)
  moreover have "core_inv cf (unfinished (bt_reqs (running_batch s))) (s\<lparr>ratio_track := tracker_reset (ratio_track s)\<rparr>)"
    using c by (simp add: core_inv_def ratio_ok_def tracker_reset_def)
  ultimately show ?thesis using True by (simp add: on_idle_def assert_that_def)
next
  case False
  then show ?thesis using c by (simp add: on_idle_def)
qed

lemma core_last [simp]: "core_inv cf rs (s\<lparr>last_batch := l\<rparr>) = core_inv cf rs s"
  by (simp add: core_inv_def)

lemma tracked_last [simp]: "tracked rs (s\<lparr>last_batch := l\<rparr>) = tracked rs s"
  by (simp add: tracked_def)

lemma event_step_ok:
  assumes i: "sched_inv cf s" and cf: "config_ok cf" and env: "environment_ok env" and a: "arrivals_ok recv"
    and u: "single (mset (recv_rids recv) + tracked (live s) s)"
  shows "\<exists>s'. event_step env cf now recv sample s = Some s' \<and> sched_inv cf s' \<and>
    tracked (live s') s' = mset (recv_rids recv) + tracked (live s) s \<and> (queue_bounded cf s \<longrightarrow> queue_bounded cf s') \<and>
    (roomy cf \<and> flags_ok s \<longrightarrow> flags_ok s' \<and> (recv = [] \<longrightarrow> backlog s' \<le> backlog s - 1))"
proof -
  from process_input_ok[OF i cf a u, of now] obtain s1 where s1: "process_input_requests cf now recv s = Some s1" "sched_inv cf s1"
    "tracked (live s1) s1 = mset (recv_rids recv) + tracked (live s) s" "queue_bounded cf s \<longrightarrow> queue_bounded cf s1"
    "flags_ok s \<longrightarrow> flags_ok s1" by blast
  let ?T = "mset (recv_rids recv) + tracked (live s) s"
  have "single (tracked (live s1) s1)" using u s1(3) by simp
  from next_batch_ok[OF s1(2) cf env this, of now] obtain l s2 where s2: "get_next_batch_to_run env cf now s1 = Some (l, s2)"
    "chosen_ok cf ?T l s2" "queue_bounded cf s1 \<longrightarrow> queue_bounded cf s2" "roomy cf \<and> flags_ok s1 \<longrightarrow> progress l s1 s2"
    unfolding s1(3) by blast
  define part where "part = (case l of
        No_batch \<Rightarrow> do { s \<leftarrow> on_idle cf s2; Some (s\<lparr>last_batch := No_batch\<rparr>) }
      | Decode_batch \<Rightarrow> do {
          (b, s) \<leftarrow> process_batch_result_decode env cf sample (running_batch s2) s2;
          Some (s\<lparr>running_batch := b, last_batch := Decode_batch\<rparr>)
        }
      | Extend_batch b \<Rightarrow> do {
          (b, s) \<leftarrow> process_batch_result_prefill env cf sample b s2;
          Some (s\<lparr>last_batch := Extend_batch b\<rparr>)
        })"
  have "\<exists>s3. part = Some s3 \<and> sched_inv cf s3 \<and> tracked (live s3) s3 = ?T \<and> waiting_queue s3 = waiting_queue s2 \<and>
      (progress l s1 s2 \<longrightarrow> flags_ok s3 \<and> backlog s3 \<le> backlog s1 - 1)"
  proof (cases l)
    case No_batch
    then have c: "core_inv cf (unfinished (bt_reqs (running_batch s2))) s2" "tracked (unfinished (bt_reqs (running_batch s2))) s2 = ?T"
      using s2(2) by (simp_all add: chosen_ok_def)
    from idle_ok[OF c(1) cf] obtain s3 where "on_idle cf s2 = Some s3" "core_inv cf (unfinished (bt_reqs (running_batch s2))) s3"
      "running_batch s3 = running_batch s2" "waiting_queue s3 = waiting_queue s2" "outbox s3 = outbox s2" by blast
    moreover from this have "progress l s1 s2 \<longrightarrow> backlog (s3\<lparr>last_batch := No_batch\<rparr>) \<le> backlog s1 - 1"
    proof -
      have "load [] s3 = load [] s2" using \<open>waiting_queue s3 = waiting_queue s2\<close> by (simp add: load_def)
      moreover have "live (s3\<lparr>last_batch := No_batch\<rparr>) = unfinished (bt_reqs (running_batch s2))"
        using \<open>running_batch s3 = running_batch s2\<close> by (simp add: live_def extend_reqs_def)
      ultimately show ?thesis using No_batch \<open>running_batch s3 = running_batch s2\<close> by (auto simp: backlog_def progress_def)
    qed
    ultimately show ?thesis using No_batch c(2)
      by (intro exI[of _ "s3\<lparr>last_batch := No_batch\<rparr>"])
        (simp add: part_def sched_inv_def live_def extend_reqs_def tracked_def progress_def flags_ok_def)
  next
    case Decode_batch
    then have c: "rest_inv cf (bt_reqs (running_batch s2)) s2" "decode_ready (max_req_len cf) (running_batch s2)"
      "tracked (bt_reqs (running_batch s2)) s2 = ?T" using s2(2) by (simp_all add: chosen_ok_def)
    from process_decode_ok[OF c(1,2), of env sample] obtain b s3 where
      "process_batch_result_decode env cf sample (running_batch s2) s2 = Some (b, s3)"
      "core_inv cf (unfinished (bt_reqs b)) (s3\<lparr>running_batch := b\<rparr>)" "waiting_queue s3 = waiting_queue s2"
      "tracked (unfinished (bt_reqs b)) s3 = tracked (bt_reqs (running_batch s2)) s2"
      "load (unfinished (bt_reqs b)) s3 + length (bt_reqs (running_batch s2)) \<le> load (bt_reqs (running_batch s2)) s2"
      "length (bt_reqs b) = length (bt_reqs (running_batch s2))" "is_prefill_only b = is_prefill_only (running_batch s2)" by blast
    moreover from this(5-7) have "progress l s1 s2 \<longrightarrow> flags_ok (s3\<lparr>running_batch := b, last_batch := Decode_batch\<rparr>) \<and>
        backlog (s3\<lparr>running_batch := b, last_batch := Decode_batch\<rparr>) \<le> backlog s1 - 1"
      using Decode_batch by (cases "bt_reqs (running_batch s2)")
        (auto simp: backlog_def progress_def live_def extend_reqs_def flags_ok_def)
    ultimately show ?thesis using Decode_batch c(3)
      by (intro exI[of _ "s3\<lparr>running_batch := b, last_batch := Decode_batch\<rparr>"])
        (simp add: part_def sched_inv_def live_def extend_reqs_def)
  next
    case (Extend_batch b)
    let ?rs = "unfinished (bt_reqs (running_batch s2))"
    have c: "core_inv cf (bt_reqs b @ ?rs) s2" "prefill_ready (max_req_len cf) b" "tracked (bt_reqs b @ ?rs) s2 = ?T"
      using s2(2) Extend_batch by (simp_all add: chosen_ok_def)
    from process_prefill_ok[OF c(1,2), of env sample] obtain b' s3 where
      "process_batch_result_prefill env cf sample b s2 = Some (b', s3)" "core_inv cf (unfinished (bt_reqs b') @ ?rs) s3"
      "batch_at_rest (max_req_len cf) b'" "running_batch s3 = running_batch s2" "waiting_queue s3 = waiting_queue s2"
      "tracked (unfinished (bt_reqs b') @ ?rs) s3 = tracked (bt_reqs b @ ?rs) s2"
      "load (unfinished (bt_reqs b') @ ?rs) s3 + length (bt_reqs b) \<le> load (bt_reqs b @ ?rs) s2" "fresh_batch b \<longrightarrow> last_ok b'" by blast
    moreover from this(4,7,8) have "progress l s1 s2 \<longrightarrow> flags_ok (s3\<lparr>last_batch := Extend_batch b'\<rparr>) \<and>
        backlog (s3\<lparr>last_batch := Extend_batch b'\<rparr>) \<le> backlog s1 - 1"
      using Extend_batch by (cases "bt_reqs b")
        (auto simp: backlog_def progress_def live_def extend_reqs_def flags_ok_def fresh_batch_def)
    ultimately show ?thesis using Extend_batch c(3)
      by (intro exI[of _ "s3\<lparr>last_batch := Extend_batch b'\<rparr>"])
        (simp add: part_def sched_inv_def live_def extend_reqs_def)
  qed
  then obtain s3 where s3: "part = Some s3" "sched_inv cf s3" "tracked (live s3) s3 = ?T" "waiting_queue s3 = waiting_queue s2"
    "progress l s1 s2 \<longrightarrow> flags_ok s3 \<and> backlog s3 \<le> backlog s1 - 1" by blast
  have "s1 = s" if "recv = []" using s1(1) that by simp
  then have "roomy cf \<and> flags_ok s \<longrightarrow> flags_ok s3 \<and> (recv = [] \<longrightarrow> backlog s3 \<le> backlog s - 1)"
    using s3(5) s2(4) s1(5) by auto
  moreover have "event_step env cf now recv sample s = Some s3"
    unfolding event_step_def using s1(1) s2(1) s3(1) busy_check_ok[OF s3(2) cf] by (simp add: part_def assert_that_def)
  moreover have "queue_bounded cf s2 \<longrightarrow> queue_bounded cf s3" using queue_bounded_le[of cf s2 s3] s3(4) by simp
  ultimately show ?thesis using s3(2,3) s1(4) s2(3) by blast
qed

end
