(* ===== verification/SchedClaims.thy ===== *)
theory SchedClaims
  imports SchedSafe
begin

text \<open>
  The scheduler as a service: from a fresh server no sequence of requests, aborts and sampled tokens makes an
  iteration fail, and every request is answered or still pending.
\<close>

section \<open>The fresh server\<close>

lemma pool_init_rows:
  "length (req_to_token (pool_init k w)) = k + 1" "rp_size (pool_init k w) = k" "rp_max_context_len (pool_init k w) = w"
  "rp_free_slots (pool_init k w) = [1..<k + 1]" "\<forall>row \<in> set (req_to_token (pool_init k w)). length row = w"
  by (simp_all add: pool_init_def)

lemma serve_init:
  assumes "radix_init False 1 eagle nf False policy st clock sha (token_init sz ns) (pool_init k w) = Inr c"
  shows "serve_inv c ([] :: sched_req list) ([] :: sched_req list) {#} {}"
    and "rc_pool c = pool_init k w" and "rc_alloc c = token_init sz ns" and "rc_strip_thinking c = st"
proof -
  have F: "rc_pool c = pool_init k w" "rc_alloc c = token_init sz ns" "rc_strip_thinking c = st"
  proof -
    have k: "rc_pool (radix_reset d) = rc_pool d" "rc_strip_thinking (radix_reset d) = rc_strip_thinking d" for d
      by (simp_all add: radix_reset_def tree_node_init_def monotonic_def upd_node_def record_all_cleared_event_def Let_def)
    obtain stg where "get_eviction_strategy (lower_ascii policy) = Inr stg"
      using assms by (cases "get_eviction_strategy (lower_ascii policy)") (simp_all add: radix_init_def)
    then show "rc_pool c = pool_init k w" "rc_strip_thinking c = st" using assms k by (auto simp: radix_init_def)
    show "rc_alloc c = token_init sz ns" using radix_init_facts(4)[OF assms] by simp
  qed
  then show "rc_pool c = pool_init k w" "rc_alloc c = token_init sz ns" "rc_strip_thinking c = st" by blast+
  have "set [1..<Suc k] = {1..k}" by auto
  then show "serve_inv c ([] :: sched_req list) ([] :: sched_req list) {#} {}"
    using kv_inv_init[OF assms] by (simp add: serve_inv_def F pool_init_rows lock_nodes_def)
qed

text \<open>A server as it is started.\<close>

definition started :: "environment \<Rightarrow> sched_config \<Rightarrow> scheduler \<Rightarrow> bool" where
  "started env cf s \<longleftrightarrow> config_ok cf \<and> environment_ok env \<and>
     (\<exists>sp c w t eagle nf policy clock sha ns k ctx. s = scheduler_init sp c w t \<and>
        radix_init False 1 eagle nf False policy False clock sha (token_init (max_total_num_tokens cf) ns) (pool_init k ctx) = Inr c \<and>
        max_req_len cf \<le> int ctx \<and> 0 < k \<and> plain_config w \<and> 0 < rc_page_size w \<and> ratio_ok t)"

lemma token_init_size: "al_size (token_init sz ns) = sz"
  using token_inv_init[of sz ns] by (simp add: token_inv_def)

lemma started_inv:
  assumes "started env cf s"
  shows "sched_inv cf s" and "tracked (live s) s = {#}" and "config_ok cf" and "environment_ok env" and "queue_bounded cf s" and "flags_ok s"
proof -
  from assms obtain sp c w t eagle nf policy clock sha ns k ctx where s: "s = scheduler_init sp c w t"
    "radix_init False 1 eagle nf False policy False clock sha (token_init (max_total_num_tokens cf) ns) (pool_init k ctx) = Inr c"
    "max_req_len cf \<le> int ctx" "0 < k" "plain_config w" "0 < rc_page_size w" "ratio_ok t"
    and cf: "config_ok cf" "environment_ok env" unfolding started_def by blast
  note I = serve_init[OF s(2)]
  have l: "live s = []" by (simp add: live_def s(1) scheduler_init_def extend_reqs_def empty_batch_def)
  have "core_inv cf [] s"
    using I s(3-7) by (simp add: core_inv_def s(1) scheduler_init_def cache_ok_def token_init_size pool_init_rows
        batch_at_rest_def rows_match_def within_limit_def empty_batch_def)
  then show "sched_inv cf s" by (simp add: sched_inv_def l) (simp add: s(1) scheduler_init_def)
  show "tracked (live s) s = {#}" unfolding l by (simp add: tracked_def s(1) scheduler_init_def)
  show "config_ok cf" "environment_ok env" by (rule cf)+
  show "flags_ok s" by (simp add: flags_ok_def s(1) scheduler_init_def empty_batch_def)
  show "queue_bounded cf s" using cf(1) by (auto simp: queue_bounded_def s(1) scheduler_init_def config_ok_def)
qed

section \<open>Any number of iterations\<close>

definition all_rids :: "(rat \<times> recv_req list \<times> (nat \<Rightarrow> int)) list \<Rightarrow> string list" where
  "all_rids es = concat (map (\<lambda>(now, recv, sample). recv_rids recv) es)"

definition all_arrivals_ok :: "(rat \<times> recv_req list \<times> (nat \<Rightarrow> int)) list \<Rightarrow> bool" where
  "all_arrivals_ok es \<longleftrightarrow> list_all (\<lambda>(now, recv, sample). arrivals_ok recv) es"

lemma event_loop_ok:
  assumes "sched_inv cf s" and "config_ok cf" and "environment_ok env" and "all_arrivals_ok es"
    and "single (mset (all_rids es) + tracked (live s) s)"
  shows "\<exists>s'. event_loop env cf es s = Some s' \<and> sched_inv cf s' \<and> tracked (live s') s' = mset (all_rids es) + tracked (live s) s \<and>
    (queue_bounded cf s \<longrightarrow> queue_bounded cf s') \<and> (roomy cf \<and> flags_ok s \<longrightarrow> flags_ok s')"
  using assms
proof (induction es arbitrary: s)
  case Nil
  then show ?case by (simp add: all_rids_def)
next
  case (Cons e es)
  obtain now recv sample where e: "e = (now, recv, sample)" by (cases e)
  have a: "arrivals_ok recv" "all_arrivals_ok es" using Cons.prems(4) by (simp_all add: all_arrivals_ok_def e)
  have r: "mset (all_rids (e # es)) = mset (all_rids es) + mset (recv_rids recv)" by (simp add: all_rids_def e)
  have "single (mset (recv_rids recv) + tracked (live s) s)"
    using single_sub[of "mset (recv_rids recv) + tracked (live s) s" "mset (all_rids es)"] Cons.prems(5) unfolding r by (simp add: ac_simps)
  from event_step_ok[OF Cons.prems(1-3) a(1) this, of now sample] obtain s1 where s1: "event_step env cf now recv sample s = Some s1"
    "sched_inv cf s1" "tracked (live s1) s1 = mset (recv_rids recv) + tracked (live s) s" "queue_bounded cf s \<longrightarrow> queue_bounded cf s1"
    "roomy cf \<and> flags_ok s \<longrightarrow> flags_ok s1" by blast
  have "single (mset (all_rids es) + tracked (live s1) s1)" using Cons.prems(5) unfolding r s1(3) by (simp add: ac_simps)
  from Cons.IH[OF s1(2) Cons.prems(2,3) a(2) this] obtain s2 where s2: "event_loop env cf es s1 = Some s2" "sched_inv cf s2"
    "tracked (live s2) s2 = mset (all_rids es) + tracked (live s1) s1" "queue_bounded cf s1 \<longrightarrow> queue_bounded cf s2"
    "roomy cf \<and> flags_ok s1 \<longrightarrow> flags_ok s2" by blast
  then show ?case using s1 r by (intro exI[of _ s2]) (simp add: e add.assoc)
qed

lemma distinct_single: "distinct xs \<Longrightarrow> single (mset xs)"
  by (simp add: single_def distinct_count_atmost_1)

lemma run_from_start:
  assumes "started env cf s" and "all_arrivals_ok es" and "distinct (all_rids es)"
  shows "\<exists>s'. event_loop env cf es s = Some s' \<and> sched_inv cf s' \<and> tracked (live s') s' = mset (all_rids es) \<and> queue_bounded cf s' \<and>
    (roomy cf \<longrightarrow> flags_ok s')"
  using event_loop_ok[OF started_inv(1,3,4)[OF assms(1)] assms(2)] started_inv(2,5,6)[OF assms(1)] distinct_single[OF assms(3)] by auto

section \<open>An example\<close>

definition demo_config :: sched_config where
  "demo_config = \<lparr>max_req_len = 10, max_req_input_len = 5, max_total_num_tokens = 16, cf_page_size = 1, allow_auto_truncate = False,
     max_queued_requests = Some 4, abort_on_priority_when_disabled = False, pp_max_micro_batch_size = 2, max_prefill_tokens = 16,
     cf_prefill_max_requests = None, clip_max_new = 4096, retract_decode_steps = 20, truncation_align_size = None,
     cf_preemption_threshold = 0, cf_cp_in_seq_split = False, think_end_id = None, strict_check_busy = True, strict_check_idle = True\<rparr>"

definition demo_environment :: environment where
  "demo_environment = \<lparr>env_load_back = (\<lambda>_ _. None), env_shuffle = (\<lambda>q. q), env_torch_empty = (\<lambda>n. replicate (nat n) 0),
     env_decode = (\<lambda>_. []), env_re_search = (\<lambda>_ _. False), env_terminated = (\<lambda>_. False)\<rparr>"

definition demo_input :: "string \<Rightarrow> recv_req" where
  "demo_input x = Generate \<lparr>rq_req = demo_waiting\<lparr>rid := x, origin_input_ids := [1, 2, 3], inflight_middle_chunks := 0\<rparr>, rq_max_new = Some 2,
     rq_return_logprob = False, rq_logprob_start_len = -1, rq_token_ids_logprob = False\<rparr>"

definition demo_events :: "(rat \<times> recv_req list \<times> (nat \<Rightarrow> int)) list" where
  "demo_events = [(0, [demo_input ''a'', demo_input ''b''], \<lambda>_. 7), (1, [], \<lambda>_. 8), (2, [Abort False ''a''], \<lambda>_. 9)]"

definition demo_server :: "radix_cache \<Rightarrow> scheduler" where
  "demo_server c = scheduler_init \<lparr>sp_policy = FCFS, enable_priority_scheduling = False, low_priority_values_first = False,
     check_threshold = 0, deprioritize_threshold = 0\<rparr> c c \<lparr>rt_init = 1, rt_min = 0, rt_decay = 0, rt_current = 1\<rparr>"

lemma demo_started:
  obtains c where "radix_init False 1 False False False ''lru'' False int (\<lambda>bs. bs) (token_init 16 False) (pool_init 2 10) = Inr c"
    "started demo_environment demo_config (demo_server c)"
proof -
  have "get_eviction_strategy (lower_ascii ''lru'') = Inr LRU" by code_simp
  then obtain c where c: "radix_init False 1 False False False ''lru'' False int (\<lambda>bs. bs) (token_init 16 False) (pool_init 2 10) = Inr c"
    by (simp add: radix_init_def)
  have "config_ok demo_config" "environment_ok demo_environment"
    by (simp_all add: config_ok_def environment_ok_def demo_config_def demo_environment_def)
  moreover have "plain_config c" "rc_page_size c = 1" using kv_invD(2,3)[OF kv_inv_init[OF c]] by blast+
  moreover have "ratio_ok \<lparr>rt_init = 1, rt_min = 0, rt_decay = 0, rt_current = 1\<rparr>" by (simp add: ratio_ok_def)
  moreover have "max_total_num_tokens demo_config = 16" "max_req_len demo_config = 10" by (simp_all add: demo_config_def)
  ultimately have "started demo_environment demo_config (demo_server c)"
    unfolding started_def demo_server_def using c
    by (intro conjI exI[of _ c] exI[of _ False] exI[of _ "''lru''"] exI[of _ int] exI[of _ "\<lambda>bs. bs"] exI[of _ 2] exI[of _ 10] exI refl) auto
  with c that show ?thesis by blast
qed

lemma demo_events_ok: "all_arrivals_ok demo_events" "distinct (all_rids demo_events)"
  by (simp_all add: demo_events_def all_arrivals_ok_def all_rids_def arrivals_ok_def demo_input_def arrives_def demo_waiting_def
      demo_req_def request.defs finished_def)

section \<open>What holds after any number of iterations\<close>

lemma sched_core: "sched_inv cf s \<Longrightarrow> core_inv cf (live s) s"
  by (simp add: sched_inv_def)

lemma idle_live: "is_fully_idle s \<Longrightarrow> live s = []"
  by (cases "last_batch s") (simp_all add: is_fully_idle_def live_def extend_reqs_def batch_is_empty_def)

text \<open>C1: The scheduler loop never fails and never leaks.  From a freshly started server, whatever requests arrive
  (with new ids), whatever is aborted and whatever tokens the model samples, every iteration of the
  loop - intake, prefill, decode, retraction, results - returns, also with strict memory checking; at the end
  the busy check passes, on an idle server the idle check passes, a bounded queue is within its bound,
  and every slot of the pool is either free, or cached, or owned by exactly one unfinished request.\<close>

theorem scheduler_never_fails:
  assumes "started env cf s" and "all_arrivals_ok es" and "distinct (all_rids es)"
  shows "\<exists>s'. event_loop env cf es s = Some s' \<and> self_check_during_busy cf s' \<and> (is_fully_idle s' \<longrightarrow> idle_check cf s') \<and>
    (\<forall>m. max_queued_requests cf = Some m \<longrightarrow> int (length (waiting_queue s')) \<le> m) \<and>
    (let c = tree_cache s'; own = own_slots c (live s'); free = alloc_free_slots (rc_alloc c)
     in distinct own \<and> free \<union> slots_cached c \<union> set own = {1..max_total_num_tokens cf} \<and>
       free \<inter> slots_cached c = {} \<and> free \<inter> set own = {} \<and> slots_cached c \<inter> set own = {})"
proof -
  from run_from_start[OF assms] obtain s' where s': "event_loop env cf es s = Some s'" "sched_inv cf s'" "queue_bounded cf s'" by blast
  have cf: "config_ok cf" by (rule started_inv(3)[OF assms(1)])
  note C = core_invD[OF sched_core[OF s'(2)]] and A = kv_invD[OF serveD(1)[OF core_invD(1)[OF sched_core[OF s'(2)]]]]
  have "is_fully_idle s' \<longrightarrow> idle_check cf s'" using idle_check_ok[OF _ cf, of s'] sched_core[OF s'(2)] idle_live by auto
  moreover have "alloc_universe (rc_alloc (tree_cache s')) = {1..max_total_num_tokens cf}"
    using A(4) C(2) by (simp add: alloc_universe_def cache_ok_def)
  ultimately show ?thesis using s' busy_check_ok[OF s'(2) cf] A(7-10) serveD(2)[OF C(1)]
    by (intro exI[of _ s']) (simp add: Let_def queue_bounded_def)
qed

lemma scheduler_never_fails_witness:
  "\<exists>c s'. radix_init False 1 False False False ''lru'' False int (\<lambda>bs. bs) (token_init 16 False) (pool_init 2 10) = Inr c \<and>
     event_loop demo_environment demo_config demo_events (demo_server c) = Some s' \<and> self_check_during_busy demo_config s'"
  using demo_started scheduler_never_fails[OF _ demo_events_ok] by metis

text \<open>C3: No request is lost and none is answered twice: the ids of the waiting requests, of the unfinished requests
  of the batches and of the answers sent (finished or aborted) together are exactly the ids that
  arrived, each once, however often requests were retracted, aborted or pushed out of the queue.\<close>

theorem requests_conserved:
  assumes "started env cf s" and "all_arrivals_ok es" and "distinct (all_rids es)" and "event_loop env cf es s = Some s'"
  shows "mset (map rid (waiting_queue s')) + mset (map rid (live s')) + mset (map out_rid (outbox s')) = mset (all_rids es) \<and>
    distinct (map rid (waiting_queue s') @ map rid (live s') @ map out_rid (outbox s'))"
proof -
  from run_from_start[OF assms(1-3)] assms(4) have t: "tracked (live s') s' = mset (all_rids es)" by auto
  then have "mset (map rid (waiting_queue s') @ map rid (live s') @ map out_rid (outbox s')) = mset (all_rids es)"
    by (simp add: tracked_def add.assoc)
  then show ?thesis using mset_eq_imp_distinct_iff assms(3) t unfolding tracked_def by blast
qed

lemma requests_conserved_witness:
  "\<exists>c s'. radix_init False 1 False False False ''lru'' False int (\<lambda>bs. bs) (token_init 16 False) (pool_init 2 10) = Inr c \<and>
     event_loop demo_environment demo_config demo_events (demo_server c) = Some s' \<and>
     mset (map rid (waiting_queue s')) + mset (map rid (live s')) + mset (map out_rid (outbox s')) = {#''a'', ''b''#}"
proof -
  obtain c where c: "radix_init False 1 False False False ''lru'' False int (\<lambda>bs. bs) (token_init 16 False) (pool_init 2 10) = Inr c"
    "started demo_environment demo_config (demo_server c)" by (rule demo_started)
  from run_from_start[OF c(2) demo_events_ok] obtain s' where s': "event_loop demo_environment demo_config demo_events (demo_server c) = Some s'" by blast
  have "mset (all_rids demo_events) = {#''a'', ''b''#}" by (simp add: all_rids_def demo_events_def demo_input_def)
  then show ?thesis using requests_conserved[OF c(2) demo_events_ok s'] c(1) s' by auto
qed

text \<open>C5: The objects of the scheduler are always in one of three stages.  A waiting request has no row and no
  freed flag, is not finished and fits in a row whatever it generates.  An unfinished request of a
  batch has a row of its own, has slots for all of its tokens but the last one, which was just sampled, and
  is below its token limit.  A finished request of a batch has given back row and slots.\<close>

theorem request_stages:
  assumes "started env cf s" and "all_arrivals_ok es" and "distinct (all_rids es)" and "event_loop env cf es s = Some s'"
  shows "(\<forall>r \<in> set (waiting_queue s'). req_pool_idx r = None \<and> \<not> finished r \<and> \<not> kv_committed_freed r \<and> \<not> kv_overallocated_freed r \<and>
       0 \<le> max_new_tokens r \<and> int (length (origin_input_ids r)) + max_new_tokens r < max_req_len cf) \<and>
    (\<forall>r \<in> set (live s'). \<exists>i. req_pool_idx r = Some i \<and> 1 \<le> i \<and> i \<le> rp_size (rc_pool (tree_cache s')) \<and> \<not> kv_committed_freed r \<and>
       kv_allocated_len r = kv_committed_len r \<and> kv_committed_len r + 1 = int (length (token_seq r)) \<and>
       int (length (output_ids r)) < max_new_tokens r) \<and>
    distinct (map req_pool_idx (live s')) \<and>
    (\<forall>r \<in> set (bt_reqs (running_batch s')) \<union> set (extend_reqs (last_batch s')). finished r \<longrightarrow>
       req_pool_idx r = None \<and> kv_committed_freed r \<and> kv_overallocated_freed r)"
proof -
  from run_from_start[OF assms(1-3)] assms(4) have i: "sched_inv cf s'" by auto
  note C = core_invD[OF sched_core[OF i]] and A = serveD[OF core_invD(1)[OF sched_core[OF i]]]
  have rest: "\<forall>r \<in> set (bt_reqs (running_batch s')) \<union> set (extend_reqs (last_batch s')). at_rest (max_req_len cf) r"
    using C(3) i by (auto simp: batch_at_rest_def sched_inv_def extend_reqs_def split: last_batch.splits)
  have "\<exists>i. req_pool_idx r = Some i \<and> 1 \<le> i \<and> i \<le> rp_size (rc_pool (tree_cache s')) \<and> \<not> kv_committed_freed r \<and>
       kv_allocated_len r = kv_committed_len r \<and> kv_committed_len r + 1 = int (length (token_seq r)) \<and>
       int (length (output_ids r)) < max_new_tokens r" if r: "r \<in> set (live s')" for r
  proof -
    have "at_rest (max_req_len cf) r" "\<not> finished r" using rest r by (auto simp: live_def unfinished_def)
    then have a: "active_req (max_req_len cf) r" by (simp add: at_rest_def)
    note ok = A(7)[OF r]
    from running_okE[OF ok] obtain idx where x: "req_pool_idx r = Some idx" "kv_committed_len r = int (committed r)"
      "kv_allocated_len r = kv_committed_len r" "\<not> kv_committed_freed r" by metis
    have "idx \<in> set (rows_of (live s'))" by (rule rows_of_in[OF r x(1)])
    then have "1 \<le> idx \<and> idx \<le> rp_size (rc_pool (tree_cache s'))" using A(5) by auto
    then show ?thesis using x a by (simp add: active_req_def)
  qed
  moreover have "distinct (map req_pool_idx (live s'))"
  proof -
    have "\<forall>r \<in> set (live s'). req_pool_idx r \<noteq> None" using A(7) by (simp add: running_ok_def)
    then have "map req_pool_idx (live s') = map Some (rows_of (live s'))" by (induction "live s'" rule: list.induct) (use rows_of_map in \<open>force simp: comp_def\<close>)+
    then show ?thesis using A(4) by (simp add: distinct_map)
  qed
  ultimately show ?thesis using C(5) rest by (auto simp: waiting_req_def fits_row_def at_rest_def)
qed

lemma request_stages_witness:
  "\<exists>c s'. radix_init False 1 False False False ''lru'' False int (\<lambda>bs. bs) (token_init 16 False) (pool_init 2 10) = Inr c \<and>
     event_loop demo_environment demo_config demo_events (demo_server c) = Some s' \<and> distinct (map req_pool_idx (live s'))"
proof -
  obtain c where c: "radix_init False 1 False False False ''lru'' False int (\<lambda>bs. bs) (token_init 16 False) (pool_init 2 10) = Inr c"
    "started demo_environment demo_config (demo_server c)" by (rule demo_started)
  from run_from_start[OF c(2) demo_events_ok] obtain s' where s': "event_loop demo_environment demo_config demo_events (demo_server c) = Some s'" by blast
  then show ?thesis using request_stages[OF c(2) demo_events_ok s'] c(1) by blast
qed

end
