(* ===== verification/SchedOut.thy ===== *)
theory SchedOut
  imports Scheduler
begin

text \<open>Answers that were sent stay sent: every operation of the loop only appends to the outbox.\<close>

lemma prefix_keep: "prefix xs ys \<Longrightarrow> prefix xs (ys @ zs)"
  by (metis append_prefixD prefix_prefix)

lemma queued_limit_sends: "abort_on_queued_limit cf r s = Some (ab, s') \<Longrightarrow> prefix (outbox s) (outbox s')"
  by (auto simp: abort_on_queued_limit_def Let_def split: if_splits option.splits list.splits prod.splits bind_splits)

lemma add_request_sends:
  assumes "add_request_to_queue cf now r s = Some s'"
  shows "prefix (outbox s) (outbox s')"
proof (cases "set_or_validate_priority cf r s")
  case None
  then show ?thesis using assms by (auto simp: add_request_to_queue_def)
next
  case (Some p)
  then obtain r1 where "set_or_validate_priority cf r s = Some (r1, s)" by (auto simp: set_or_validate_priority_def split: if_splits)
  then show ?thesis using assms
    by (cases "abort_on_queued_limit cf r1 s") (auto simp: add_request_to_queue_def queued_limit_sends split: if_splits)
qed

lemma add_retracted_sends: "add_retracted cf now ret s = Some s' \<Longrightarrow> prefix (outbox s) (outbox s')"
proof (induction ret arbitrary: s)
  case (Cons r ret)
  from Cons.prems obtain s1 where "add_request_to_queue cf now r s = Some s1" "add_retracted cf now ret s1 = Some s'"
    by (cases "add_request_to_queue cf now r s") auto
  then show ?case using Cons.IH add_request_sends prefix_order.trans by blast
qed simp

lemma handle_generate_sends:
  assumes "handle_generate_request cf now q s = Some s'"
  shows "prefix (outbox s) (outbox s')"
  using assms add_request_sends
  by (auto simp: handle_generate_request_def Let_def split: prod.splits option.splits if_splits)

lemma abort_request_sends: "prefix (outbox s) (outbox (abort_request abort_all name s))"
  by (simp add: abort_request_def Let_def)

lemma process_input_sends: "process_input_requests cf now qs s = Some s' \<Longrightarrow> prefix (outbox s) (outbox s')"
proof (induction qs arbitrary: s)
  case (Cons q qs)
  let ?step = "case q of Generate g \<Rightarrow> handle_generate_request cf now g s | Abort all name \<Rightarrow> Some (abort_request all name s)"
  from Cons.prems obtain s1 where s1: "?step = Some s1" "process_input_requests cf now qs s1 = Some s'"
    by (cases ?step) auto
  then have "prefix (outbox s) (outbox s1)" by (cases q) (auto intro: handle_generate_sends simp: abort_request_sends)
  then show ?case using Cons.IH[OF s1(2)] prefix_order.trans by blast
qed simp

lemma prefill_batch_sends:
  assumes "get_new_batch_prefill env cf s = Some (nb, s')"
  shows "outbox s' = outbox s"
  using assms
  by (auto simp: get_new_batch_prefill_def Let_def split: if_splits bind_splits prod.splits)

lemma update_running_sends:
  assumes "update_running_batch env cf now s = Some s'"
  shows "prefix (outbox s) (outbox s')"
  using assms
  by (auto simp: update_running_batch_def Let_def prefix_keep split: if_splits bind_splits prod.splits
      dest!: add_retracted_sends append_prefixD)

lemma next_batch_sends:
  assumes "get_next_batch_to_run env cf now s = Some (l, s')"
  shows "prefix (outbox s) (outbox s')"
proof -
  let ?s = "filter_prefill_only (merge_last_batch s)"
  have "outbox ?s = outbox s"
    by (auto simp: filter_prefill_only_def merge_last_batch_def Let_def split: last_batch.splits)
  moreover obtain nb s1 where s1: "get_new_batch_prefill env cf ?s = Some (nb, s1)" "outbox s1 = outbox ?s"
    using assms prefill_batch_sends by (fastforce simp: get_next_batch_to_run_def Let_def split: bind_splits)
  moreover have "prefix (outbox s1) (outbox s')"
    using assms update_running_sends
    by (auto simp: get_next_batch_to_run_def Let_def s1(1) split: bind_splits option.splits if_splits)
  ultimately show ?thesis by simp
qed

lemma event_step_sends:
  assumes "event_step env cf now recv sample s = Some s'"
  shows "prefix (outbox s) (outbox s')"
proof -
  from assms obtain s1 l s2 where s: "process_input_requests cf now recv s = Some s1"
    "get_next_batch_to_run env cf now s1 = Some (l, s2)"
    by (auto simp: event_step_def split: bind_splits)
  have "prefix (outbox s2) (outbox s')"
    using assms s
    by (auto simp: event_step_def process_batch_result_decode_def process_batch_result_prefill_def on_idle_def assert_that_def
        split: bind_splits last_batch.splits if_splits)
  then show ?thesis using process_input_sends[OF s(1)] next_batch_sends[OF s(2)] prefix_order.trans by blast
qed

end
