(* ===== verification/SchedService.thy ===== *)
theory SchedService
  imports SchedClaims SchedOut
begin

text \<open>
  The scheduler against its specification: a set of pending requests and the list of answers.  Every
  iteration is a sequence of arrivals and answers, and without arrivals the pending set drains.
\<close>

section \<open>The specification\<close>

type_synonym service = "string set \<times> string list"

inductive service_step :: "service \<Rightarrow> service \<Rightarrow> bool" where
  arrive: "x \<notin> pending \<Longrightarrow> x \<notin> set answered \<Longrightarrow> service_step (pending, answered) (insert x pending, answered)"
| answer: "x \<in> pending \<Longrightarrow> service_step (pending, answered) (pending - {x}, answered @ [x])"

lemma arrivals:
  assumes "distinct xs" and "set xs \<inter> (pending \<union> set answered) = {}"
  shows "service_step\<^sup>*\<^sup>* (pending, answered) (pending \<union> set xs, answered)"
  using assms
proof (induction xs arbitrary: pending)
  case (Cons x xs)
  have "service_step (pending, answered) (insert x pending, answered)" using Cons.prems by (intro arrive) auto
  moreover have "service_step\<^sup>*\<^sup>* (insert x pending, answered) (insert x pending \<union> set xs, answered)"
    by (rule Cons.IH) (use Cons.prems in auto)
  ultimately show ?case by (auto intro: converse_rtranclp_into_rtranclp)
qed simp

lemma answers:
  assumes "distinct xs" and "set xs \<subseteq> pending"
  shows "service_step\<^sup>*\<^sup>* (pending, answered) (pending - set xs, answered @ xs)"
  using assms
proof (induction xs arbitrary: pending answered)
  case (Cons x xs)
  have "service_step (pending, answered) (pending - {x}, answered @ [x])" using Cons.prems by (intro answer) simp
  moreover have "service_step\<^sup>*\<^sup>* (pending - {x}, answered @ [x]) (pending - {x} - set xs, (answered @ [x]) @ xs)"
    by (rule Cons.IH) (use Cons.prems in auto)
  moreover have "pending - {x} - set xs = pending - set (x # xs)" by auto
  ultimately show ?case by (auto intro: converse_rtranclp_into_rtranclp)
qed simp

definition service_view :: "scheduler \<Rightarrow> service" where
  "service_view s = (rid ` (set (waiting_queue s) \<union> set (live s)), map out_rid (outbox s))"

lemma single_distinct: "single (mset xs) \<longleftrightarrow> distinct xs"
proof -
  have "count (mset xs) a \<le> 1 \<longleftrightarrow> count (mset xs) a = (if a \<in> set xs then 1 else 0)" for a
    by (cases "a \<in> set xs") (auto simp: le_Suc_eq not_in_iff[symmetric])
  then show ?thesis by (simp add: single_def distinct_count_atmost_1)
qed

lemma tracked_list: "tracked (live s) s = mset (map rid (waiting_queue s) @ map rid (live s) @ map out_rid (outbox s))"
  by (simp add: tracked_def add.assoc)

lemma step_refines:
  assumes t: "tracked (live s') s' = mset new + tracked (live s) s" and u: "single (mset new + tracked (live s) s)"
    and o: "prefix (outbox s) (outbox s')"
  shows "service_step\<^sup>*\<^sup>* (service_view s) (service_view s')"
proof -
  obtain ys where ys: "outbox s' = outbox s @ ys" using o by (auto simp: prefix_def)
  let ?P = "rid ` (set (waiting_queue s) \<union> set (live s))" and ?A = "map out_rid (outbox s)" and ?ys = "map out_rid ys"
  let ?old = "map rid (waiting_queue s) @ map rid (live s)" and ?new = "map rid (waiting_queue s') @ map rid (live s')"
  have d: "distinct (new @ ?old @ ?A)" using u unfolding tracked_list single_distinct[symmetric] by simp
  have m: "mset (?new @ ?ys) = mset (new @ ?old)" using t by (simp add: tracked_def ys ac_simps)
  have d': "distinct (?new @ ?ys)" using d m mset_eq_imp_distinct_iff[OF m] by auto
  have sets: "set ?new \<union> set ?ys = set new \<union> set ?old" using mset_eq_setD[OF m] by (simp add: Un_assoc)
  have P: "?P = set ?old" "rid ` (set (waiting_queue s') \<union> set (live s')) = set ?new" by auto
  have "service_step\<^sup>*\<^sup>* (?P, ?A) (?P \<union> set new, ?A)" by (rule arrivals) (use d P in auto)
  moreover have "service_step\<^sup>*\<^sup>* (?P \<union> set new, ?A) (?P \<union> set new - set ?ys, ?A @ ?ys)"
    by (rule answers) (use d' sets P in auto)
  moreover have "?P \<union> set new - set ?ys = set ?new" using d' sets P(1) by auto
  ultimately show ?thesis unfolding service_view_def P(2) ys by simp
qed

section \<open>Draining\<close>

definition quiet :: "(rat \<times> recv_req list \<times> (nat \<Rightarrow> int)) list \<Rightarrow> bool" where
  "quiet es \<longleftrightarrow> list_all (\<lambda>(now, recv, sample). recv = []) es"

lemma drain_ok:
  assumes "sched_inv cf s" and "config_ok cf" and "environment_ok env" and "roomy cf" and "flags_ok s" and "quiet es"
    and "single (tracked (live s) s)"
  shows "\<exists>s'. event_loop env cf es s = Some s' \<and> sched_inv cf s' \<and> tracked (live s') s' = tracked (live s) s \<and>
    backlog s' \<le> backlog s - length es"
  using assms
proof (induction es arbitrary: s)
  case (Cons e es)
  obtain now recv sample where e: "e = (now, recv, sample)" by (cases e)
  have q: "recv = []" "quiet es" using Cons.prems(6) by (simp_all add: quiet_def e)
  have a: "arrivals_ok []" by (simp add: arrivals_ok_def)
  from event_step_ok[OF Cons.prems(1-3) a, of now sample] Cons.prems(4,5,7) obtain s1 where s1: "event_step env cf now recv sample s = Some s1"
    "sched_inv cf s1" "tracked (live s1) s1 = tracked (live s) s" "flags_ok s1" "backlog s1 \<le> backlog s - 1" by (auto simp: q(1))
  from Cons.IH[OF s1(2) Cons.prems(2-4) s1(4) q(2)] Cons.prems(7) obtain s2 where "event_loop env cf es s1 = Some s2" "sched_inv cf s2"
    "tracked (live s2) s2 = tracked (live s) s" "backlog s2 \<le> backlog s1 - length es" by (auto simp: s1(3))
  then show ?case using s1(1,5) by (intro exI[of _ s2]) (simp add: e)
qed simp

section \<open>The claims\<close>

text \<open>C2: Every request is answered.  Take any state the server reaches and let no more requests arrive: after at most
  two iterations for every token the waiting and unfinished requests may still generate and two for
  every such request, plus one, the queue and the batches are empty, every request that ever arrived has
  exactly one answer, and all rows and all slots that are not cached are free - whatever times pass and
  whatever tokens are sampled, and although requests compete for memory and may be retracted.  It is
  assumed that a batch may hold a request and that validation leaves room in the pool.\<close>

theorem every_request_answered:
  assumes "started env cf s" and "roomy cf" and "all_arrivals_ok es" and "distinct (all_rids es)" and "event_loop env cf es s = Some s1"
    and "quiet ds"
    and "2 * sum_list (map (\<lambda>r. Suc (nat (max_new_tokens r - int (length (output_ids r))))) (waiting_queue s1 @ live s1)) < length ds"
  shows "\<exists>s2. event_loop env cf ds s1 = Some s2 \<and> waiting_queue s2 = [] \<and> live s2 = [] \<and>
    mset (map out_rid (outbox s2)) = mset (all_rids es) \<and>
    length (rp_free_slots (rc_pool (tree_cache s2))) = rp_size (rc_pool (tree_cache s2)) \<and>
    alloc_free_slots (rc_alloc (tree_cache s2)) \<union> slots_cached (tree_cache s2) = {1..max_total_num_tokens cf}"
proof -
  from run_from_start[OF assms(1,3,4)] assms(2,5) have i: "sched_inv cf s1" "tracked (live s1) s1 = mset (all_rids es)" "flags_ok s1" by auto
  note S = started_inv(3,4)[OF assms(1)]
  have "single (tracked (live s1) s1)" unfolding i(2) using assms(4) by (rule distinct_single)
  from drain_ok[OF i(1) S assms(2) i(3) assms(6) this] obtain s2 where s2: "event_loop env cf ds s1 = Some s2" "sched_inv cf s2"
    "tracked (live s2) s2 = mset (all_rids es)" "backlog s2 \<le> backlog s1 - length ds" unfolding i(2) by blast
  have "steps_left = (\<lambda>r. Suc (nat (max_new_tokens r - int (length (output_ids r)))))" by (rule ext) (simp add: steps_left_def)
  then have "backlog s1 \<le> length ds" using assms(7) by (simp add: backlog_def load_def)
  then have "backlog s2 = 0" using s2(4) by simp
  from backlog_none[OF this] have e: "waiting_queue s2 = []" "live s2 = []" by blast+
  note C = core_invD[OF sched_core[OF s2(2)]]
  have "idle_check cf s2" using idle_check_ok[OF _ S(1), of s2] sched_core[OF s2(2)] e(2) by simp
  moreover have "alloc_free_slots (rc_alloc (tree_cache s2)) \<union> slots_cached (tree_cache s2) = alloc_universe (rc_alloc (tree_cache s2))"
    using kv_invD(7)[OF serveD(1)[OF C(1)]] e(2) by simp
  moreover have "alloc_universe (rc_alloc (tree_cache s2)) = {1..max_total_num_tokens cf}"
    using kv_invD(4)[OF serveD(1)[OF C(1)]] C(2) by (simp add: alloc_universe_def cache_ok_def)
  ultimately show ?thesis using s2(1,3) e by (intro exI[of _ s2]) (simp add: tracked_def idle_check_def)
qed

lemma every_request_answered_witness:
  "\<exists>c s1 s2 n. radix_init False 1 False False False ''lru'' False int (\<lambda>bs. bs) (token_init 16 False) (pool_init 2 10) = Inr c \<and>
     event_loop demo_environment demo_config demo_events (demo_server c) = Some s1 \<and>
     event_loop demo_environment demo_config (replicate n (3, [], \<lambda>_. 5)) s1 = Some s2 \<and>
     mset (map out_rid (outbox s2)) = {#''a'', ''b''#}"
proof -
  obtain c where c: "radix_init False 1 False False False ''lru'' False int (\<lambda>bs. bs) (token_init 16 False) (pool_init 2 10) = Inr c"
    "started demo_environment demo_config (demo_server c)" by (rule demo_started)
  from run_from_start[OF c(2) demo_events_ok] obtain s1 where s1: "event_loop demo_environment demo_config demo_events (demo_server c) = Some s1" by blast
  have r: "roomy demo_config" by (simp add: roomy_def demo_config_def)
  let ?n = "Suc (2 * sum_list (map (\<lambda>r. Suc (nat (max_new_tokens r - int (length (output_ids r))))) (waiting_queue s1 @ live s1)))"
  have q: "quiet (replicate ?n (3, [], \<lambda>_. 5))" by (simp add: quiet_def list_all_iff)
  have "mset (all_rids demo_events) = {#''a'', ''b''#}" by (simp add: all_rids_def demo_events_def demo_input_def)
  moreover from every_request_answered[OF c(2) r demo_events_ok s1 q] obtain s2 where
    "event_loop demo_environment demo_config (replicate ?n (3, [], \<lambda>_. 5)) s1 = Some s2" "mset (map out_rid (outbox s2)) = mset (all_rids demo_events)"
    unfolding length_replicate by blast
  ultimately show ?thesis using c(1) s1 by (intro exI[of _ c] exI[of _ s1] exI[of _ s2] exI[of _ ?n]) simp
qed

text \<open>C4: The loop refines a service with a set of pending requests and a list of answers: in every state the server
  reaches, an iteration is a sequence of arrivals of new requests and of single answers to pending ones, in
  the order in which they are sent; no answer is taken back, repeated, or given to a request that is not pending.\<close>

theorem service_refined:
  assumes "started env cf s" and "all_arrivals_ok (es @ [(now, recv, sample)])" and "distinct (all_rids (es @ [(now, recv, sample)]))"
    and "event_loop env cf es s = Some s1"
  shows "\<exists>s2. event_step env cf now recv sample s1 = Some s2 \<and> service_step\<^sup>*\<^sup>* (service_view s1) (service_view s2) \<and>
    fst (service_view s2) \<union> set (snd (service_view s2)) = fst (service_view s1) \<union> set (snd (service_view s1)) \<union> set (recv_rids recv)"
proof -
  have a: "all_arrivals_ok es" "arrivals_ok recv" using assms(2) by (simp_all add: all_arrivals_ok_def)
  have r: "all_rids (es @ [(now, recv, sample)]) = all_rids es @ recv_rids recv" by (simp add: all_rids_def)
  have d: "distinct (all_rids es)" using assms(3) by (simp add: r)
  from run_from_start[OF assms(1) a(1) d] assms(4) have i: "sched_inv cf s1" "tracked (live s1) s1 = mset (all_rids es)" by auto
  note S = started_inv(3,4)[OF assms(1)]
  have u: "single (mset (recv_rids recv) + tracked (live s1) s1)"
    using distinct_single[OF assms(3)] by (simp add: r i(2) add.commute)
  from event_step_ok[OF i(1) S a(2) u, of now sample] obtain s2 where s2: "event_step env cf now recv sample s1 = Some s2"
    "tracked (live s2) s2 = mset (recv_rids recv) + tracked (live s1) s1" by blast
  have view: "fst (service_view x) \<union> set (snd (service_view x)) = set_mset (tracked (live x) x)" for x
    by (auto simp: service_view_def tracked_def)
  have "service_step\<^sup>*\<^sup>* (service_view s1) (service_view s2)" by (rule step_refines[OF s2(2) u event_step_sends[OF s2(1)]])
  then show ?thesis using s2 unfolding view by (intro exI[of _ s2]) auto
qed

lemma service_refined_witness:
  "\<exists>c s2. radix_init False 1 False False False ''lru'' False int (\<lambda>bs. bs) (token_init 16 False) (pool_init 2 10) = Inr c \<and>
     event_step demo_environment demo_config 0 [demo_input ''a''] (\<lambda>_. 7) (demo_server c) = Some s2 \<and>
     service_step\<^sup>*\<^sup>* ({}, []) (service_view s2) \<and> fst (service_view s2) \<union> set (snd (service_view s2)) = {''a''}"
proof -
  obtain c where c: "radix_init False 1 False False False ''lru'' False int (\<lambda>bs. bs) (token_init 16 False) (pool_init 2 10) = Inr c"
    "started demo_environment demo_config (demo_server c)" by (rule demo_started)
  have v: "service_view (demo_server c) = ({}, [])"
    by (simp add: service_view_def demo_server_def scheduler_init_def live_def extend_reqs_def empty_batch_def)
  have "all_arrivals_ok ([] @ [(0, [demo_input ''a''], \<lambda>_. 7)])" "distinct (all_rids ([] @ [(0, [demo_input ''a''], \<lambda>_. 7)]))"
    by (simp_all add: all_arrivals_ok_def all_rids_def arrivals_ok_def demo_input_def arrives_def demo_waiting_def
        demo_req_def request.defs finished_def)
  from service_refined[OF c(2) this, of "demo_server c"] obtain s2 where
    "event_step demo_environment demo_config 0 [demo_input ''a''] (\<lambda>_. 7) (demo_server c) = Some s2"
    "service_step\<^sup>*\<^sup>* ({}, []) (service_view s2)" "fst (service_view s2) \<union> set (snd (service_view s2)) = set (recv_rids [demo_input ''a''])"
    unfolding v by auto
  then show ?thesis using c(1) by (intro exI[of _ c] exI[of _ s2]) (simp add: demo_input_def)
qed

end
