(* ===== verification/RowKernel.thy ===== *)
theory RowKernel
  imports Serving
begin

text \<open>
  The Triton kernel that writes the rows of a prefill batch (\<open>mem_cache/triton_ops/common.py\<close>), which
  \<open>write_cache_indices\<close> launches when the attention backend supports Triton: it leaves the same table
  as the torch branch, \<^const>\<open>write_cache_indices\<close>.  One program per request, run here in the order of their
  ids: they write different rows.
\<close>

section \<open>The kernel\<close>

definition BLOCK_ROW :: int where
  "BLOCK_ROW = 512"

definition store_blocks :: "int list \<Rightarrow> int \<Rightarrow> int \<Rightarrow> (int \<Rightarrow> int) \<Rightarrow> int list" where
  "store_blocks row base n val =
     fold (\<lambda>i row. tl_store row base (map (\<lambda>off. i * BLOCK_ROW + off) [0..BLOCK_ROW - 1]) val (\<lambda>off. off < n))
       [0..ceil_div n BLOCK_ROW - 1] row"

definition write_req_to_token_pool_triton :: "int list \<Rightarrow> row_entry list \<Rightarrow> nat \<Rightarrow> int list list \<Rightarrow> int list list" where
  "write_req_to_token_pool_triton out es pid table =
     (let (req_pool_index, pre_len, seq_len, _, prefix_tensor) = es ! pid;
          row = store_blocks (table ! req_pool_index) 0 pre_len (\<lambda>off. prefix_tensor ! nat off);
          cumsum_start = sum_list (map (\<lambda>(_, _, _, extend_len, _). extend_len) (take pid es));
          row = store_blocks row pre_len (seq_len - pre_len) (\<lambda>off. out ! nat (cumsum_start + off))
      in table[req_pool_index := row])"

definition launch_rows :: "int list \<Rightarrow> row_entry list \<Rightarrow> int list list \<Rightarrow> int list list" where
  "launch_rows out es table = fold (write_req_to_token_pool_triton out es) [0..<length es] table"

section \<open>It writes what the torch branch writes\<close>

lemma store_blocks_write:
  assumes "0 \<le> base" and "0 \<le> n" and "base + n \<le> int (length row)"
  shows "store_blocks row base n val = write_at row (nat base) (map val [0..n - 1])"
proof -
  have c: "n \<le> ceil_div n BLOCK_ROW * BLOCK_ROW" "0 < BLOCK_ROW" using ceil_div_bounds(1)[of BLOCK_ROW n] by (simp_all add: BLOCK_ROW_def)
  have "0 \<le> ceil_div n BLOCK_ROW" using assms(2) by (simp add: ceil_div_def BLOCK_ROW_def)
  then obtain m where m: "ceil_div n BLOCK_ROW = int m" using nonneg_int_cases by blast
  show ?thesis unfolding store_blocks_def m tl_store_blocks[OF c(2)]
    using tl_store_block[OF assms, of "int m * BLOCK_ROW"] c(1) m by simp
qed

lemma map_nth_upto: "map (\<lambda>off. xs ! nat (int k + off)) [0..int n - 1] = take n (drop k xs)" if "k + n \<le> length xs"
  using that by (intro nth_equalityI) (auto simp: nth_upto nat_add_distrib)

lemma write_rows_append:
  "write_rows pt out (xs @ ys) p =
     Option.bind (write_rows pt out xs p) (write_rows (pt + sum_list (map (\<lambda>(_, _, _, extend_len, _). extend_len) xs)) out ys)"
proof (induction xs arbitrary: pt p)
  case (Cons x xs)
  obtain i pl sl el pre where x: "x = (i, pl, sl, el, pre)" by (cases x)
  show ?case unfolding x by (simp add: Cons.IH add.assoc split: bind_splits)
qed simp

lemma sum_entry_len:
  "\<forall>e \<in> set es. entry_ok p e \<Longrightarrow> sum_list (map (\<lambda>(_, _, _, extend_len, _). extend_len) es) = int (sum_list (map entry_len es))"
  by (induction es) (auto simp: entry_ok_def entry_len_def)

lemma launch_snoc:
  "launch_rows out (es @ [e]) table = write_req_to_token_pool_triton out (es @ [e]) (length es) (launch_rows out es table)"
proof -
  have "fold (write_req_to_token_pool_triton out (es @ [e])) [0..<length es] table = fold (write_req_to_token_pool_triton out es) [0..<length es] table"
    by (rule fold_cong) (auto simp: write_req_to_token_pool_triton_def nth_append fun_eq_iff)
  then show ?thesis by (simp add: launch_rows_def)
qed

theorem row_kernel_equals_torch:
  assumes "distinct (map fst es)" and "\<forall>e \<in> set es. entry_ok p e" and "sum_list (map entry_len es) \<le> length out"
  shows "write_cache_indices out es p = Some (p\<lparr>req_to_token := launch_rows out es (req_to_token p)\<rparr>)"
  using assms unfolding write_cache_indices_def
proof (induction es rule: rev_induct)
  case Nil
  then show ?case by (simp add: launch_rows_def)
next
  case (snoc e es)
  obtain i pl sl el pre where e: "e = (i, pl, sl, el, pre)" by (cases e)
  let ?T = "launch_rows out es (req_to_token p)" and ?k = "sum_list (map entry_len es)"
  have IH: "write_rows 0 out es p = Some (p\<lparr>req_to_token := ?T\<rparr>)" using snoc by simp
  from write_rows_ok[of es p 0 out] snoc.prems IH have w: "map length ?T = map length (req_to_token p)" by (force dest: arg_cong[of _ _ req_to_token])
  have lT: "length ?T = length (req_to_token p)" using arg_cong[OF w, of length] by simp
  have ok: "i < length ?T" "pl = int (length pre)" "sl = pl + el" "0 \<le> el" "nat sl \<le> length (?T ! i)"
  proof -
    have o: "i < length (req_to_token p)" "pl = int (length pre)" "sl = pl + el" "0 \<le> el" "nat sl \<le> length (req_to_token p ! i)"
      using snoc.prems(2) e by (auto simp: entry_ok_def)
    have "length (?T ! i) = length (req_to_token p ! i)" using w o(1) lT by (metis nth_map)
    then show "i < length ?T" "pl = int (length pre)" "sl = pl + el" "0 \<le> el" "nat sl \<le> length (?T ! i)" using o lT by simp_all
  qed
  let ?n = "nat el" and ?row = "?T ! i" and ?p = "p\<lparr>req_to_token := ?T\<rparr>"
  let ?v = "take ?n (drop ?k out)"
  have sl: "sl = int (length pre + ?n)" "length pre + ?n \<le> length ?row" using ok by simp_all
  have room: "?k + ?n \<le> length out" using snoc.prems(3) e by (simp add: entry_len_def)
  have v: "slice out (int ?k) (int ?k + el) = ?v" "length ?v = ?n" using ok(4) room by (simp_all add: slice_nonneg nat_add_distrib drop_take)
  have cs: "sum_list (map (\<lambda>(_, _, _, extend_len, _). extend_len) es) = int ?k" by (rule sum_entry_len[of _ p]) (use snoc.prems(2) in simp)
  from pool_write_row[of i ?p 0 "length pre" pre] ok(1) sl(2) obtain p1 where p1: "pool_write ?p i 0 (int (length pre)) pre = Some p1"
    "req_to_token p1 = ?T[i := pre @ drop (length pre) ?row]" "p1 = ?p\<lparr>req_to_token := req_to_token p1\<rparr>"
    by (auto simp: pool_write_def Let_def)
  from pool_write_row[of i p1 "length pre" "length pre + ?n" ?v] ok(1) sl(2) p1(2) v(2) obtain p2 where
    p2: "pool_write p1 i (int (length pre)) (int (length pre + ?n)) ?v = Some p2"
    "req_to_token p2 = (req_to_token p1)[i := pre @ ?v @ drop (length pre + ?n) ?row]" "p2 = p1\<lparr>req_to_token := req_to_token p2\<rparr>"
    by (auto simp: pool_write_def Let_def add.commute)
  have "write_rows 0 out (es @ [e]) p = Some p2"
    unfolding write_rows_append IH cs e using p1(1) p2(1) ok(2) sl(1) v(1) by simp
  moreover have "p2 = p\<lparr>req_to_token := ?T[i := pre @ ?v @ drop (length pre + ?n) ?row]\<rparr>"
    using p1(2,3) p2(2,3) by (metis list_update_overwrite req_pool.surjective req_pool.update_convs(3))
  moreover have "launch_rows out (es @ [e]) (req_to_token p) = ?T[i := pre @ ?v @ drop (length pre + ?n) ?row]"
  proof -
    have a: "store_blocks ?row 0 pl (\<lambda>off. pre ! nat off) = pre @ drop (length pre) ?row"
      using store_blocks_write[of 0 pl ?row] map_nth_upto[of 0 "length pre" pre] ok(2) sl(2) by (simp add: write_at_def)
    have "store_blocks (pre @ drop (length pre) ?row) pl el (\<lambda>off. out ! nat (int ?k + off)) = pre @ ?v @ drop (length pre + ?n) ?row"
      using store_blocks_write[of pl el "pre @ drop (length pre) ?row"] map_nth_upto[of ?k ?n out] ok(2,4) sl(2) room
      by (simp add: write_at_def add.commute)
    then show ?thesis unfolding launch_snoc
      by (simp add: write_req_to_token_pool_triton_def e nth_append cs a ok(3))
  qed
  ultimately show ?case by simp
qed

end
