(* ===== verification/ExpertBalance.thy ===== *)
theory ExpertBalance
  imports Sgl_Prelude Complex_Main
begin

text \<open>
  The expert-parallelism load balancer (\<open>eplb/eplb_algorithms/deepseek.py\<close> and \<open>elasticity_aware.py\<close>):
  logical experts are replicated to physical experts, replicas are packed to nodes and GPUs, and
  the tables between logical and physical experts are computed.  A tensor is a list of its rows;
  the rows (layers) are independent.  Floats are exact rationals.
\<close>

section \<open>Tensors\<close>

text \<open>
  What the code takes from \<open>torch\<close>: \<open>sort(descending=True).indices\<close> and \<open>max().indices\<close>, whose choice among
  equal values is not specified, and the content of \<open>empty_like\<close>.
\<close>

record torch =
  sort_desc :: "rat list \<Rightarrow> nat list"
  max_index :: "rat list \<Rightarrow> nat"
  empty_like :: "nat \<Rightarrow> int list"

definition gather :: "'a list \<Rightarrow> int list \<Rightarrow> 'a list option" where
  "gather xs is = (if list_all (\<lambda>i. 0 \<le> i \<and> i < int (length xs)) is then Some (map (\<lambda>i. xs ! nat i) is) else None)"

definition scatter :: "'a list \<Rightarrow> int list \<Rightarrow> 'a list \<Rightarrow> 'a list option" where
  "scatter base is vs =
     (if list_all (\<lambda>i. 0 \<le> i \<and> i < int (length base)) is
      then Some (foldl (\<lambda>b (i, v). b[nat i := v]) base (zip is vs)) else None)"

definition arange :: "nat \<Rightarrow> int list" where
  "arange n = map int [0..<n]"

text \<open>\<open>view(-1, k)\<close> of a row.\<close>

definition reshape :: "nat \<Rightarrow> 'a list \<Rightarrow> 'a list list" where
  "reshape k xs = map (\<lambda>j. take k (drop (j * k) xs)) [0..<length xs div k]"

definition inverse_perm :: "torch \<Rightarrow> int list \<Rightarrow> int list option" where
  "inverse_perm T perm = scatter (empty_like T (length perm)) perm (arange (length perm))"

section \<open>Packing\<close>

text \<open>Python's \<open>min\<close> with a key over the packs with room: the first one of least weight.\<close>

definition min_pack :: "int \<Rightarrow> rat list \<Rightarrow> int list \<Rightarrow> nat option" where
  "min_pack per_pack pack_weights pack_items =
     (case filter (\<lambda>j. pack_items ! j < per_pack) [0..<length pack_items] of
        [] \<Rightarrow> None
      | j # js \<Rightarrow> Some (foldl (\<lambda>b j. if pack_weights ! j < pack_weights ! b then j else b) j js))"

fun pack_loop ::
  "int \<Rightarrow> rat list \<Rightarrow> nat list \<Rightarrow> int list \<times> int list \<times> rat list \<times> int list \<Rightarrow> (int list \<times> int list \<times> rat list \<times> int list) option" where
  "pack_loop per_pack weight [] st = Some st"
| "pack_loop per_pack weight (g # gs) (pack_index, rank_in_pack, pack_weights, pack_items) = do {
     pack \<leftarrow> min_pack per_pack pack_weights pack_items;
     pack_loop per_pack weight gs
       (pack_index[g := int pack], rank_in_pack[g := pack_items ! pack],
        pack_weights[pack := pack_weights ! pack + weight ! g], pack_items[pack := pack_items ! pack + 1])
   }"

definition balanced_packing :: "torch \<Rightarrow> rat list \<Rightarrow> nat \<Rightarrow> (int list \<times> int list) option" where
  "balanced_packing T weight num_packs = do {
     let num_groups = length weight;
     assert_that (num_packs \<noteq> 0 \<and> num_groups mod num_packs = 0);
     let groups_per_pack = num_groups div num_packs;
     if groups_per_pack = 1 then Some (arange num_groups, replicate num_groups 0)
     else do {
       (pack_index, rank_in_pack, _, _) \<leftarrow>
         pack_loop (int groups_per_pack) weight (sort_desc T weight)
           (replicate num_groups (-1), replicate num_groups (-1), replicate num_packs 0, replicate num_packs 0);
       Some (pack_index, rank_in_pack)
     }
   }"

section \<open>Replication\<close>

text \<open>\<open>None\<close>: the maximum of an empty row.\<close>

fun replicate_loop :: "torch \<Rightarrow> rat list \<Rightarrow> nat list \<Rightarrow> int list \<times> int list \<times> int list \<Rightarrow> (int list \<times> int list \<times> int list) option" where
  "replicate_loop T weight [] st = Some st"
| "replicate_loop T weight (i # is) (phy2log, rank, logcnt) = do {
     assert_that (weight \<noteq> []);
     let redundant = max_index T (map2 (\<lambda>w c. w / of_int c) weight logcnt);
     replicate_loop T weight is
       (phy2log[i := int redundant], rank[i := logcnt ! redundant], logcnt[redundant := logcnt ! redundant + 1])
   }"

definition replicate_experts :: "torch \<Rightarrow> rat list \<Rightarrow> nat \<Rightarrow> (int list \<times> int list \<times> int list) option" where
  "replicate_experts T weight num_phy = do {
     let num_log = length weight;
     assert_that (num_log \<le> num_phy);
     replicate_loop T weight [num_log..<num_phy] (arange num_phy, replicate num_phy 0, replicate num_log 1)
   }"

section \<open>Rebalancing a layer\<close>

text \<open>Steps 2 and 3 for the experts of one node.\<close>

definition node_experts :: "torch \<Rightarrow> nat \<Rightarrow> nat \<Rightarrow> nat \<Rightarrow> rat list \<Rightarrow> (int list \<times> int list \<times> int list) option" where
  "node_experts T num_phy num_packs per_gpu tokens_per_mlog = do {
     (phy2mlog, phyrank, mlogcnt) \<leftarrow> replicate_experts T tokens_per_mlog num_phy;
     tokens_per_phy \<leftarrow> gather (map2 (\<lambda>w c. w / of_int c) tokens_per_mlog mlogcnt) phy2mlog;
     (pack_index, rank_in_pack) \<leftarrow> balanced_packing T tokens_per_phy num_packs;
     let phy2pphy = map2 (\<lambda>p r. p * int per_gpu + r) pack_index rank_in_pack;
     pphy2phy \<leftarrow> inverse_perm T phy2pphy;
     pphy2mlog \<leftarrow> gather phy2mlog pphy2phy;
     pphyrank \<leftarrow> gather phyrank pphy2phy;
     Some (pphy2mlog, pphyrank, mlogcnt)
   }"

fun map_option_list :: "('a \<Rightarrow> 'b option) \<Rightarrow> 'a list \<Rightarrow> 'b list option" where
  "map_option_list f [] = Some []"
| "map_option_list f (x # xs) = do { y \<leftarrow> f x; ys \<leftarrow> map_option_list f xs; Some (y # ys) }"

definition rebalance_experts_hierarchical ::
  "torch \<Rightarrow> rat list \<Rightarrow> nat \<Rightarrow> nat \<Rightarrow> nat \<Rightarrow> nat \<Rightarrow> (int list \<times> int list \<times> int list) option" where
  "rebalance_experts_hierarchical T weight num_physical_experts num_groups num_nodes num_gpus = do {
     let num_logical_experts = length weight;
     assert_that (num_groups \<noteq> 0 \<and> num_logical_experts mod num_groups = 0);
     let group_size = num_logical_experts div num_groups;
     assert_that (num_nodes \<noteq> 0 \<and> num_groups mod num_nodes = 0);
     let groups_per_node = num_groups div num_nodes;
     assert_that (num_gpus mod num_nodes = 0);
     assert_that (num_gpus \<noteq> 0 \<and> num_physical_experts mod num_gpus = 0);
     let phy_experts_per_gpu = num_physical_experts div num_gpus;
     let tokens_per_group = map (\<lambda>g. sum_list (take group_size (drop (g * group_size) weight))) [0..<num_groups];
     (group_pack_index, group_rank_in_pack) \<leftarrow> balanced_packing T tokens_per_group num_nodes;
     let log2mlog = concat (map2 (\<lambda>p r. map (\<lambda>j. (p * int groups_per_node + r) * int group_size + j) (arange group_size))
           group_pack_index group_rank_in_pack);
     mlog2log \<leftarrow> inverse_perm T log2mlog;
     tokens_per_mlog \<leftarrow> gather weight mlog2log;
     let experts_per_node = num_logical_experts div num_nodes;
     assert_that (experts_per_node \<noteq> 0);
     parts \<leftarrow> map_option_list (node_experts T (num_physical_experts div num_nodes) (num_gpus div num_nodes) phy_experts_per_gpu)
                (reshape experts_per_node tokens_per_mlog);
     let pphy2mlog = concat (map2 (\<lambda>node part. map (\<lambda>m. m + int (node * experts_per_node)) (fst part)) [0..<num_nodes] parts);
     pphy2log \<leftarrow> gather mlog2log pphy2mlog;
     let pphyrank = concat (map (\<lambda>part. fst (snd part)) parts);
     logcnt \<leftarrow> gather (concat (map (\<lambda>part. snd (snd part)) parts)) log2mlog;
     Some (pphy2log, pphyrank, logcnt)
   }"

section \<open>The tables of all layers\<close>

text \<open>Physical to logical, logical to physical (padded with -1), number of replicas: for every layer.\<close>

definition log2phy_table :: "nat \<Rightarrow> int \<Rightarrow> nat \<Rightarrow> int list \<times> int list \<times> int list \<Rightarrow> int list list option" where
  "log2phy_table num_log maxlogcnt num_phy layer =
     (case layer of (phy2log, phyrank, logcnt) \<Rightarrow>
        map_option (reshape (nat maxlogcnt))
          (scatter (replicate (num_log * nat maxlogcnt) (-1)) (map2 (\<lambda>l k. l * maxlogcnt + k) phy2log phyrank) (arange num_phy)))"

definition max_count :: "(int list \<times> int list \<times> int list) list \<Rightarrow> int option" where
  "max_count rows = (case concat (map (\<lambda>row. snd (snd row)) rows) of [] \<Rightarrow> None | c # cs \<Rightarrow> Some (foldl max c cs))"

definition rebalance_experts ::
  "torch \<Rightarrow> rat list list \<Rightarrow> nat \<Rightarrow> nat \<Rightarrow> nat \<Rightarrow> nat \<Rightarrow> nat \<Rightarrow> bool \<Rightarrow> (int list list \<times> int list list list \<times> int list list) option" where
  "rebalance_experts T weight num_log num_replicas num_groups num_nodes num_gpus enable_hierarchical = do {
     rows \<leftarrow> map_option_list (\<lambda>w. if enable_hierarchical
         then rebalance_experts_hierarchical T w num_replicas num_groups num_nodes num_gpus
         else rebalance_experts_hierarchical T w num_replicas 1 1 num_gpus) weight;
     maxlogcnt \<leftarrow> max_count rows;
     log2phy \<leftarrow> map_option_list (log2phy_table num_log maxlogcnt num_replicas) rows;
     Some (map fst rows, log2phy, map (\<lambda>row. snd (snd row)) rows)
   }"

section \<open>When ranks have failed\<close>

text \<open>
  The loop over the ranks: a slice of zeros is inserted for every failed rank, the physical experts behind it
  move up.  \<open>slices\<close> are the slices of a layer's row, \<open>log2phy\<close> is its table.
\<close>

fun insert_failed :: "nat \<Rightarrow> nat \<Rightarrow> bool list \<Rightarrow> int list list \<Rightarrow> int list list \<Rightarrow> int list list \<times> int list list" where
  "insert_failed idx num_local [] slices log2phy = (slices, log2phy)"
| "insert_failed idx num_local (active # ranks) slices log2phy =
     (if active then insert_failed (Suc idx) num_local ranks slices log2phy
      else insert_failed (Suc idx) num_local ranks
             (take idx slices @ [replicate (length (hd slices)) 0] @ drop idx slices)
             (map (map (\<lambda>p. if p \<ge> int (idx * num_local) then p + int num_local else p)) log2phy))"

definition elastic_rebalance_experts ::
  "torch \<Rightarrow> rat list list \<Rightarrow> nat \<Rightarrow> nat \<Rightarrow> nat \<Rightarrow> nat \<Rightarrow> nat \<Rightarrow> bool \<Rightarrow> bool list \<Rightarrow>
   (int list list \<times> int list list list \<times> int list list) option" where
  "elastic_rebalance_experts T weight num_log num_replicas num_groups num_nodes num_gpus enable_hierarchical active_ranks = do {
     let num_active_ranks = length (filter id active_ranks);
     assert_that (num_gpus \<noteq> 0);
     let num_local_experts = num_replicas div num_gpus;
     if num_active_ranks < num_gpus then do {
       (phy2log, log2phy, logcnt) \<leftarrow>
         rebalance_experts T weight num_log (num_local_experts * num_active_ranks) 1 1 num_active_ranks False;
       let layers = map2 (insert_failed 0 num_local_experts active_ranks)
             (map (\<lambda>row. reshape (length row div num_active_ranks) row) phy2log) log2phy;
       Some (map (\<lambda>(slices, _). concat slices) layers, map snd layers, logcnt)
     }
     else rebalance_experts T weight num_log num_replicas num_groups num_nodes num_gpus enable_hierarchical
   }"

section \<open>Lists of options\<close>

lemma map_option_list_ok:
  assumes "\<And>x. x \<in> set xs \<Longrightarrow> \<exists>y. f x = Some y \<and> R x y"
  shows "\<exists>ys. map_option_list f xs = Some ys \<and> list_all2 R xs ys"
  using assms
proof (induction xs)
  case (Cons x xs)
  then obtain ys where "map_option_list f xs = Some ys" "list_all2 R xs ys" by auto
  moreover obtain y where "f x = Some y" "R x y" using Cons.prems[of x] by auto
  ultimately show ?case by simp
qed simp

section \<open>Permutations\<close>

text \<open>A permutation of the positions of a row of length \<open>n\<close>.\<close>

definition perm_of :: "nat \<Rightarrow> int list \<Rightarrow> bool" where
  "perm_of n is \<longleftrightarrow> length is = n \<and> distinct is \<and> set is = {0..<int n}"

text \<open>
  What \<open>torch\<close> documents of these functions: the indices of a sorted row are a permutation of its positions, \<open>max\<close>
  gives a position of a greatest element of a row that is not empty, \<open>empty_like\<close> keeps the shape.
\<close>

definition torch_ok :: "torch \<Rightarrow> bool" where
  "torch_ok T \<longleftrightarrow> (\<forall>xs. distinct (sort_desc T xs) \<and> set (sort_desc T xs) = {..<length xs}) \<and>
     (\<forall>xs. xs \<noteq> [] \<longrightarrow> max_index T xs < length xs \<and> (\<forall>x \<in> set xs. x \<le> xs ! max_index T xs)) \<and>
     (\<forall>n. length (empty_like T n) = n)"

lemma length_arange [simp]: "length (arange n) = n"
  by (simp add: arange_def)

lemma nth_arange [simp]: "i < n \<Longrightarrow> arange n ! i = int i"
  by (simp add: arange_def)

lemma set_arange [simp]: "set (arange n) = {0..<int n}"
  by (auto simp: arange_def image_iff) (metis atLeastLessThan_iff int_nat_eq le_eq_less_or_eq nat_less_iff zero_le)

lemma perm_arange: "perm_of n (arange n)"
  by (simp add: perm_of_def) (simp add: arange_def distinct_map inj_on_def)

lemma perm_nth: "perm_of n is \<Longrightarrow> i < n \<Longrightarrow> 0 \<le> is ! i \<and> is ! i < int n"
  unfolding perm_of_def by (metis atLeastLessThan_iff nth_mem)

lemma perm_find:
  assumes "perm_of n is" and "m < n"
  obtains j where "j < n" and "is ! j = int m"
  using assms by (auto simp: perm_of_def in_set_conv_nth set_eq_iff) (metis in_set_conv_nth of_nat_0_le_iff of_nat_less_iff)

lemma gather_ok:
  assumes "\<forall>i \<in> set is. 0 \<le> i \<and> i < int (length xs)"
  shows "gather xs is = Some (map (\<lambda>i. xs ! nat i) is)"
  using assms by (simp add: gather_def list_all_iff)

lemma foldl_updates:
  assumes "distinct is" and "length vs = length is" and "\<forall>i \<in> set is. 0 \<le> i \<and> i < int (length base)"
  defines "out \<equiv> foldl (\<lambda>b (i, v). b[nat i := v]) base (zip is vs)"
  shows "length out = length base \<and> (\<forall>j < length is. out ! nat (is ! j) = vs ! j) \<and>
    (\<forall>m < length base. int m \<notin> set is \<longrightarrow> out ! m = base ! m)"
  using assms(1-3) unfolding out_def
proof (induction "is" arbitrary: base vs)
  case (Cons i "is")
  obtain v vs' where vs: "vs = v # vs'" "length vs' = length is" using Cons.prems(2) by (cases vs) auto
  have r: "\<forall>i \<in> set is. 0 \<le> i \<and> i < int (length (base[nat i := v]))" using Cons.prems(3) by simp
  have d: "distinct is" "i \<notin> set is" using Cons.prems(1) by simp_all
  note IH = Cons.IH[OF d(1) vs(2), of "base[nat i := v]"]
  let ?out = "foldl (\<lambda>b (i, v). b[nat i := v]) (base[nat i := v]) (zip is vs')"
  have i: "0 \<le> i" "nat i < length base" using Cons.prems(3) by auto
  have IH': "length ?out = length base" "\<And>j. j < length is \<Longrightarrow> ?out ! nat (is ! j) = vs' ! j"
    "\<And>m. m < length base \<Longrightarrow> int m \<notin> set is \<Longrightarrow> ?out ! m = base[nat i := v] ! m"
    using IH Cons.prems(3) by auto
  have "?out ! nat i = v" using IH'(3)[of "nat i"] i d(2) by simp
  moreover have "?out ! m = base ! m" if "m < length base" "int m \<notin> set (i # is)" for m
    using IH'(3)[OF that(1)] that(2) i(1) by (auto simp: nth_list_update)
  ultimately show ?case using IH'(1,2) by (auto simp: vs(1) less_Suc_eq_0_disj nth_Cons')
qed simp

lemma scatter_ok:
  assumes "distinct is" and "length vs = length is" and "\<forall>i \<in> set is. 0 \<le> i \<and> i < int (length base)"
  shows "\<exists>out. scatter base is vs = Some out \<and> length out = length base \<and> (\<forall>j < length is. out ! nat (is ! j) = vs ! j) \<and>
    (\<forall>m < length base. int m \<notin> set is \<longrightarrow> out ! m = base ! m)"
  using foldl_updates[OF assms] assms(3) by (simp add: scatter_def list_all_iff)

lemma inverse_ok:
  assumes T: "torch_ok T" and p: "perm_of n p"
  shows "\<exists>q. inverse_perm T p = Some q \<and> perm_of n q \<and> (\<forall>i < n. q ! nat (p ! i) = int i) \<and> (\<forall>i < n. p ! nat (q ! i) = int i)"
proof -
  have l: "length (empty_like T n) = n" "length p = n" "distinct p" using T p by (simp_all add: torch_ok_def perm_of_def)
  from scatter_ok[of p "arange n" "empty_like T n"] l p obtain q where q: "scatter (empty_like T n) p (arange n) = Some q" "length q = n"
    "\<forall>j < n. q ! nat (p ! j) = int j" by (auto simp: perm_of_def)
  have qp: "p ! nat (q ! m) = int m \<and> 0 \<le> q ! m \<and> q ! m < int n" if m: "m < n" for m
  proof -
    obtain j where "j < n" "p ! j = int m" by (rule perm_find[OF p m])
    then have "q ! m = int j" using q(3) by (metis nat_int)
    then show ?thesis using \<open>j < n\<close> \<open>p ! j = int m\<close> by simp
  qed
  have "distinct q"
  proof (rule distinct_conv_nth[THEN iffD2], intro allI impI notI)
    fix i j assume a: "i < length q" "j < length q" "i \<noteq> j" "q ! i = q ! j"
    then have "int i = int j" using qp[of i] qp[of j] q(2) by simp
    then show False using a(3) by simp
  qed
  moreover have "set q = {0..<int n}"
  proof
    show "set q \<subseteq> {0..<int n}" using qp q(2) by (auto simp: in_set_conv_nth)
    show "{0..<int n} \<subseteq> set q"
    proof
      fix x assume "x \<in> {0..<int n}"
      then have x: "nat x < n" "0 \<le> x" by auto
      then have "q ! nat (p ! nat x) = x" using q(3) by simp
      moreover have "nat (p ! nat x) < n" using perm_nth[OF p x(1)] by auto
      ultimately show "x \<in> set q" using q(2) by (metis nth_mem)
    qed
  qed
  ultimately have "perm_of n q" using q(2) by (simp add: perm_of_def)
  then show ?thesis using q qp l(2) by (simp add: inverse_perm_def)
qed

section \<open>Replicas\<close>

text \<open>The physical experts are exactly the replicas \<open>0, \<dots>, cnt l - 1\<close> of every logical expert \<open>l\<close>.\<close>

definition replicas :: "nat \<Rightarrow> int list \<Rightarrow> int list \<Rightarrow> int list \<Rightarrow> bool" where
  "replicas n p2l rank cnt \<longleftrightarrow> length cnt = n \<and> length rank = length p2l \<and> (\<forall>c \<in> set cnt. 1 \<le> c) \<and> distinct (zip p2l rank) \<and>
     set (zip p2l rank) = {(l, k). 0 \<le> l \<and> l < int n \<and> 0 \<le> k \<and> k < cnt ! nat l}"

text \<open>What the greedy choice keeps: no replica taken away would leave a smaller maximum.\<close>

definition greedy :: "rat list \<Rightarrow> int list \<Rightarrow> bool" where
  "greedy w cnt \<longleftrightarrow> (\<forall>j < length w. \<forall>l < length w. 2 \<le> cnt ! j \<longrightarrow> w ! l / of_int (cnt ! l) \<le> w ! j / of_int (cnt ! j - 1))"

lemma div_le_count:
  fixes x :: rat
  assumes "0 \<le> x" and "1 \<le> a" and "a \<le> b"
  shows "x / of_int b \<le> x / of_int a"
  using assms by (intro divide_left_mono) auto

lemma greedy_step:
  assumes g: "greedy w cnt" and l: "length cnt = length w" and c: "\<forall>c \<in> set cnt. 1 \<le> c" and w: "\<forall>x \<in> set w. 0 \<le> x"
    and r: "r < length w" "\<forall>l < length w. w ! l / of_int (cnt ! l) \<le> w ! r / of_int (cnt ! r)"
  shows "greedy w (cnt[r := cnt ! r + 1])"
  unfolding greedy_def
proof (intro allI impI)
  fix j k assume j: "j < length w" and k: "k < length w" and two: "2 \<le> cnt[r := cnt ! r + 1] ! j"
  have "1 \<le> cnt ! k" "0 \<le> w ! k" using c w k l by (simp_all add: nth_mem)
  then have "w ! k / of_int (cnt[r := cnt ! r + 1] ! k) \<le> w ! k / of_int (cnt ! k)"
    using k l div_le_count[of "w ! k" "cnt ! k" "cnt ! k + 1"] by (cases "k = r") simp_all
  also have "\<dots> \<le> w ! j / of_int (cnt[r := cnt ! r + 1] ! j - 1)"
  proof (cases "j = r")
    case True
    then show ?thesis using r k l by simp
  next
    case False
    then show ?thesis using g j k two by (simp add: greedy_def)
  qed
  finally show "w ! k / of_int (cnt[r := cnt ! r + 1] ! k) \<le> w ! j / of_int (cnt[r := cnt ! r + 1] ! j - 1)" .
qed

lemma smaller_somewhere:
  fixes a b :: "int list"
  assumes "length a = length b" and "sum_list a = sum_list b" and "l < length a" and "a ! l < b ! l"
  shows "\<exists>j < length a. b ! j < a ! j"
proof (rule ccontr)
  assume "\<not> ?thesis"
  then have le: "a ! j \<le> b ! j" if "j < length a" for j using that by auto
  have "sum_list a = (\<Sum>j < length a. a ! j)" "sum_list b = (\<Sum>j < length a. b ! j)"
    using assms(1) by (simp_all add: sum_list_sum_nth atLeast0LessThan)
  moreover have "(\<Sum>j < length a. a ! j) < (\<Sum>j < length a. b ! j)"
    by (rule sum_strict_mono_ex1) (use assms(3,4) le in auto)
  ultimately show False using assms(2) by simp
qed

lemma greedy_optimal:
  assumes g: "greedy w cnt" and l: "length cnt = length w" "length c = length w" and s: "sum_list cnt = sum_list c"
    and c: "\<forall>x \<in> set cnt. 1 \<le> x" "\<forall>x \<in> set c. 1 \<le> x" and w: "\<forall>x \<in> set w. 0 \<le> x"
    and M: "\<forall>l < length w. w ! l / of_int (c ! l) \<le> M" and i: "i < length w"
  shows "w ! i / of_int (cnt ! i) \<le> M"
proof (rule ccontr)
  assume big: "\<not> ?thesis"
  have wi: "0 \<le> w ! i" "1 \<le> cnt ! i" "1 \<le> c ! i" using w c i l by (simp_all add: nth_mem)
  have "cnt ! i < c ! i"
  proof (rule ccontr)
    assume "\<not> cnt ! i < c ! i"
    then have "w ! i / of_int (cnt ! i) \<le> w ! i / of_int (c ! i)" using wi by (intro div_le_count) auto
    then show False using big M i by fastforce
  qed
  then obtain j where j: "j < length w" "c ! j < cnt ! j" using smaller_somewhere[of cnt c i] l s i by auto
  have cj: "1 \<le> c ! j" "0 \<le> w ! j" using c w j l by (simp_all add: nth_mem)
  then have "2 \<le> cnt ! j" using j(2) by simp
  then have "w ! i / of_int (cnt ! i) \<le> w ! j / of_int (cnt ! j - 1)" using g i j(1) by (simp add: greedy_def)
  also have "\<dots> \<le> w ! j / of_int (c ! j)" using div_le_count[OF cj(2,1), of "cnt ! j - 1"] j(2) by simp
  also have "\<dots> \<le> M" using M j(1) by simp
  finally show False using big by simp
qed

lemma sum_list_int_update: "r < length xs \<Longrightarrow> sum_list (xs[r := v]) = sum_list xs + v - xs ! r" for xs :: "int list"
  by (induction xs arbitrary: r) (auto split: nat.split)

lemma replicas_snoc:
  assumes a: "replicas n p2l rank cnt" and r: "r < n"
  shows "replicas n (p2l @ [int r]) (rank @ [cnt ! r]) (cnt[r := cnt ! r + 1])"
proof -
  have l: "length cnt = n" "length rank = length p2l" "\<forall>c \<in> set cnt. 1 \<le> c" "distinct (zip p2l rank)"
    "set (zip p2l rank) = {(l, k). 0 \<le> l \<and> l < int n \<and> 0 \<le> k \<and> k < cnt ! nat l}" using a by (simp_all add: replicas_def)
  have cr: "1 \<le> cnt ! r" using l(1,3) r by (simp add: nth_mem)
  have z: "zip (p2l @ [int r]) (rank @ [cnt ! r]) = zip p2l rank @ [(int r, cnt ! r)]" using l(2) by simp
  have "\<forall>c \<in> set (cnt[r := cnt ! r + 1]). 1 \<le> c" using l(3) cr set_update_subset_insert[of cnt r "cnt ! r + 1"] by auto
  moreover have "insert (int r, cnt ! r) {(l, k). 0 \<le> l \<and> l < int n \<and> 0 \<le> k \<and> k < cnt ! nat l} =
      {(l, k). 0 \<le> l \<and> l < int n \<and> 0 \<le> k \<and> k < cnt[r := cnt ! r + 1] ! nat l}" (is "?A = ?B")
  proof (intro set_eqI iffI)
    fix x assume "x \<in> ?A"
    then show "x \<in> ?B" using r l(1) cr by (cases x) (auto simp: nth_list_update)
  next
    fix x assume "x \<in> ?B"
    then show "x \<in> ?A" using r l(1) by (cases x) (auto simp: nth_list_update split: if_splits)
  qed
  ultimately show ?thesis using l unfolding replicas_def z by simp
qed

lemma replicate_loop_ok:
  assumes T: "torch_ok T" and w: "w \<noteq> []"
  shows "i \<le> N \<Longrightarrow> length p2l = N \<Longrightarrow> length rank = N \<Longrightarrow> replicas (length w) (take i p2l) (take i rank) cnt \<Longrightarrow>
    sum_list cnt = int i \<Longrightarrow> (\<forall>x \<in> set w. 0 \<le> x) \<longrightarrow> greedy w cnt \<Longrightarrow>
    \<exists>p2l' rank' cnt'. replicate_loop T w [i..<N] (p2l, rank, cnt) = Some (p2l', rank', cnt') \<and> length p2l' = N \<and>
      replicas (length w) p2l' rank' cnt' \<and> sum_list cnt' = int N \<and> ((\<forall>x \<in> set w. 0 \<le> x) \<longrightarrow> greedy w cnt')"
proof (induction "N - i" arbitrary: i p2l rank cnt)
  case 0
  then show ?case by simp
next
  case (Suc m)
  have i: "i < N" using Suc.hyps(2) by simp
  have l: "length cnt = length w" "\<forall>c \<in> set cnt. 1 \<le> c" using Suc.prems(4) by (simp_all add: replicas_def)
  let ?v = "map2 (\<lambda>w c. w / of_int c) w cnt"
  define r where "r = max_index T ?v"
  have "?v \<noteq> []" using w l(1) by (cases w; cases cnt) auto
  then have "r < length ?v \<and> (\<forall>x \<in> set ?v. x \<le> ?v ! r)" using T unfolding r_def torch_ok_def by blast
  then have r: "r < length w" "\<forall>x \<in> set ?v. x \<le> ?v ! r" using l(1) by (simp, blast)
  have top: "\<forall>k < length w. w ! k / of_int (cnt ! k) \<le> w ! r / of_int (cnt ! r)"
  proof (intro allI impI)
    fix k assume k: "k < length w"
    then have "?v ! k \<in> set ?v" using l(1) by (intro nth_mem) simp
    then have "?v ! k \<le> ?v ! r" using r(2) by blast
    then show "w ! k / of_int (cnt ! k) \<le> w ! r / of_int (cnt ! r)" using k r(1) l(1) by simp
  qed
  let ?p = "p2l[i := int r]" and ?k = "rank[i := cnt ! r]" and ?c = "cnt[r := cnt ! r + 1]"
  have t: "take (Suc i) ?p = take i p2l @ [int r]" "take (Suc i) ?k = take i rank @ [cnt ! r]"
    using i Suc.prems(2,3) by (simp_all add: take_Suc_conv_app_nth)
  have "replicas (length w) (take (Suc i) ?p) (take (Suc i) ?k) ?c"
    unfolding t by (rule replicas_snoc[OF Suc.prems(4) r(1)])
  moreover have "sum_list ?c = int (Suc i)" using Suc.prems(5) r(1) l(1) by (simp add: sum_list_int_update)
  moreover have "(\<forall>x \<in> set w. 0 \<le> x) \<longrightarrow> greedy w ?c" using greedy_step[OF _ l _ r(1) top] Suc.prems(6) by blast
  moreover have "replicate_loop T w [i..<N] (p2l, rank, cnt) = replicate_loop T w [Suc i..<N] (?p, ?k, ?c)"
    using i w by (simp add: upt_conv_Cons r_def Let_def)
  moreover have "m = N - Suc i" "Suc i \<le> N" using Suc.hyps(2) by simp_all
  ultimately show ?case using Suc.hyps(1)[of "Suc i" ?p ?k ?c] Suc.prems(2,3) by simp
qed

lemma replicas_identity: "replicas n (arange n) (replicate n 0) (replicate n 1)"
proof -
  have "distinct (zip (arange n) (replicate n (0::int)))"
    using perm_arange[of n] by (intro distinct_zipI1) (simp add: perm_of_def)
  moreover have "set (zip (arange n) (replicate n (0::int))) = {(l, k). 0 \<le> l \<and> l < int n \<and> 0 \<le> k \<and> k < replicate n 1 ! nat l}"
    (is "?A = ?B")
  proof (intro set_eqI iffI)
    fix x assume "x \<in> ?A"
    then show "x \<in> ?B" by (auto simp: set_zip)
  next
    fix x assume "x \<in> ?B"
    then obtain l where l: "x = (l, 0)" "0 \<le> l" "l < int n" by (cases x) auto
    then show "x \<in> ?A" unfolding set_zip by (auto intro!: exI[of _ "nat l"])
  qed
  ultimately show ?thesis by (simp add: replicas_def)
qed

lemma replicate_experts_ok:
  assumes T: "torch_ok T" and w: "w \<noteq> []" "length w \<le> N"
  shows "\<exists>p2l rank cnt. replicate_experts T w N = Some (p2l, rank, cnt) \<and> length p2l = N \<and> replicas (length w) p2l rank cnt \<and>
    sum_list cnt = int N \<and> ((\<forall>x \<in> set w. 0 \<le> x) \<longrightarrow> greedy w cnt)"
proof -
  let ?n = "length w"
  have "take ?n (arange N) = arange ?n" using w(2) by (simp add: arange_def take_map)
  moreover have "take ?n (replicate N (0::int)) = replicate ?n 0" using w(2) by (simp add: min_absorb1)
  moreover have "greedy w (replicate ?n 1)" by (simp add: greedy_def)
  ultimately show ?thesis
    using replicate_loop_ok[OF T w(1), of ?n N "arange N" "replicate N 0" "replicate ?n 1"] w(2) replicas_identity[of ?n]
    by (simp add: replicate_experts_def Let_def sum_list_replicate)
qed

section \<open>Packing fills every pack\<close>

lemma min_pack_ok:
  assumes "j < length pack_items" and "pack_items ! j < g"
  shows "\<exists>p. min_pack g pack_weights pack_items = Some p \<and> p < length pack_items \<and> pack_items ! p < g"
proof -
  let ?js = "filter (\<lambda>j. pack_items ! j < g) [0..<length pack_items]"
  have "j \<in> set ?js" using assms by simp
  then obtain k ks where ks: "?js = k # ks" by (cases ?js) auto
  have "foldl (\<lambda>b j. if pack_weights ! j < pack_weights ! b then j else b) m ms \<in> set (m # ms)" for m ms
  proof (induction ms arbitrary: m)
    case (Cons a ms)
    show ?case using Cons.IH[of a] Cons.IH[of m] by auto
  qed simp
  then have m: "foldl (\<lambda>b j. if pack_weights ! j < pack_weights ! b then j else b) k ks \<in> set ?js" (is "?m \<in> _") unfolding ks .
  have "min_pack g pack_weights pack_items = Some ?m" unfolding min_pack_def ks by simp
  then show ?thesis using m by simp
qed

definition packed :: "nat \<Rightarrow> nat set \<Rightarrow> int list \<Rightarrow> int list \<Rightarrow> int list \<Rightarrow> bool" where
  "packed packs D idx rk its \<longleftrightarrow> inj_on (\<lambda>g. (idx ! g, rk ! g)) D \<and>
     (\<lambda>g. (idx ! g, rk ! g)) ` D = {(p, k). 0 \<le> p \<and> p < int packs \<and> 0 \<le> k \<and> k < its ! nat p}"

lemma packed_insert:
  assumes a: "packed packs D idx rk its" and g: "g \<notin> D" "g < length idx" "g < length rk" and p: "p < packs" "p < length its" "0 \<le> its ! p"
  shows "packed packs (insert g D) (idx[g := int p]) (rk[g := its ! p]) (its[p := its ! p + 1])"
proof -
  let ?f = "\<lambda>g. (idx ! g, rk ! g)" and ?f' = "\<lambda>x. (idx[g := int p] ! x, rk[g := its ! p] ! x)"
  have same: "?f' x = ?f x" if "x \<in> D" for x using that g(1) by (metis nth_list_update_neq)
  have new: "?f' g = (int p, its ! p)" using g by simp
  have im: "?f ` D = {(p, k). 0 \<le> p \<and> p < int packs \<and> 0 \<le> k \<and> k < its ! nat p}" and inj: "inj_on ?f D"
    using a by (simp_all add: packed_def)
  have "?f' ` D = ?f ` D" using same by (intro image_cong refl) blast
  moreover have "(int p, its ! p) \<notin> ?f ` D" unfolding im by simp
  moreover have "inj_on ?f' D" using inj same by (simp add: inj_on_def)
  moreover have "D - {g} = D" using g(1) by simp
  ultimately have "inj_on ?f' (insert g D)" using new unfolding inj_on_insert by simp
  moreover have "insert (int p, its ! p) {(p, k). 0 \<le> p \<and> p < int packs \<and> 0 \<le> k \<and> k < its ! nat p} =
      {(q, k). 0 \<le> q \<and> q < int packs \<and> 0 \<le> k \<and> k < its[p := its ! p + 1] ! nat q}" (is "?A = ?B")
  proof (intro set_eqI iffI)
    fix x assume "x \<in> ?A"
    then show "x \<in> ?B" using p by (cases x) (auto simp: nth_list_update)
  next
    fix x assume "x \<in> ?B"
    then show "x \<in> ?A" using p by (cases x) (auto simp: nth_list_update split: if_splits)
  qed
  ultimately show ?thesis unfolding packed_def using \<open>?f' ` D = ?f ` D\<close> im new by simp
qed

lemma pack_loop_ok:
  assumes "0 \<le> g"
  shows "distinct gs \<Longrightarrow> set gs \<inter> D = {} \<Longrightarrow> set gs \<union> D = {..<n} \<Longrightarrow> length idx = n \<Longrightarrow> length rk = n \<Longrightarrow> length its = packs \<Longrightarrow>
    \<forall>x \<in> set its. 0 \<le> x \<and> x \<le> g \<Longrightarrow> packed packs D idx rk its \<Longrightarrow> sum_list its + int (length gs) = int packs * g \<Longrightarrow>
    \<exists>idx' rk' pw' its'. pack_loop g w gs (idx, rk, pw, its) = Some (idx', rk', pw', its') \<and> length idx' = n \<and> length rk' = n \<and>
      length its' = packs \<and> (\<forall>x \<in> set its'. x \<le> g) \<and> sum_list its' = int packs * g \<and> packed packs {..<n} idx' rk' its'"
proof (induction gs arbitrary: D idx rk pw its)
  case (Cons a gs)
  have "\<exists>j < length its. its ! j < g"
  proof (rule ccontr)
    assume "\<not> ?thesis"
    then have "\<forall>j < length its. its ! j = g" using Cons.prems(7) by (metis linorder_not_le nth_mem order_antisym)
    then have "its = replicate packs g" using Cons.prems(6) by (metis length_replicate nth_equalityI nth_replicate)
    then show False using Cons.prems(9) by (simp add: sum_list_replicate)
  qed
  then obtain p where p: "min_pack g pw its = Some p" "p < length its" "its ! p < g" using min_pack_ok by blast
  let ?its = "its[p := its ! p + 1]"
  have a: "a < n" "a \<notin> D" "a \<notin> set gs" using Cons.prems(1-3) by auto
  have pp: "0 \<le> its ! p" using Cons.prems(7) p(2) by (simp add: nth_mem)
  have "packed packs (insert a D) (idx[a := int p]) (rk[a := its ! p]) ?its"
    by (rule packed_insert[OF Cons.prems(8)]) (use a p(2) pp Cons.prems(4-6) in simp_all)
  moreover have "\<forall>x \<in> set ?its. 0 \<le> x \<and> x \<le> g"
    using Cons.prems(7) pp p(3) set_update_subset_insert[of its p "its ! p + 1"] by auto
  moreover have "sum_list ?its + int (length gs) = int packs * g"
    using Cons.prems(9) p(2) by (simp add: sum_list_int_update)
  moreover have "set gs \<inter> insert a D = {}" "set gs \<union> insert a D = {..<n}" using Cons.prems(1-3) a by auto
  ultimately have "\<exists>idx' rk' pw' its'. pack_loop g w gs (idx[a := int p], rk[a := its ! p], pw[p := pw ! p + w ! a], ?its) = Some (idx', rk', pw', its') \<and>
      length idx' = n \<and> length rk' = n \<and> length its' = packs \<and> (\<forall>x \<in> set its'. x \<le> g) \<and> sum_list its' = int packs * g \<and>
      packed packs {..<n} idx' rk' its'"
    by (intro Cons.IH[where D = "insert a D"]) (use Cons.prems(1,4-6) in simp_all)
  then show ?case using p(1) by simp
qed auto

lemma all_full:
  fixes g :: int
  assumes "\<forall>x \<in> set xs. x \<le> g" and "sum_list xs = int (length xs) * g" and "x \<in> set xs"
  shows "x = g"
proof (rule ccontr)
  assume "x \<noteq> g"
  then have "x < g" using assms(1,3) by fastforce
  obtain j where j: "j < length xs" "xs ! j = x" using assms(3) by (metis in_set_conv_nth)
  have "sum_list xs = (\<Sum>i < length xs. xs ! i)" by (simp add: sum_list_sum_nth atLeast0LessThan)
  also have "\<dots> < (\<Sum>i < length xs. g)"
    by (rule sum_strict_mono_ex1) (use assms(1) j \<open>x < g\<close> in \<open>auto simp: nth_mem\<close>)
  finally show False using assms(2) by simp
qed

lemma zip_pairs:
  assumes "length a = n" and "length b = n"
  shows "set (zip a b) = (\<lambda>g. (a ! g, b ! g)) ` {..<n}" and "distinct (zip a b) \<longleftrightarrow> inj_on (\<lambda>g. (a ! g, b ! g)) {..<n}"
proof -
  have z: "zip a b = map (\<lambda>g. (a ! g, b ! g)) [0..<n]"
    using assms by (intro nth_equalityI) simp_all
  show "set (zip a b) = (\<lambda>g. (a ! g, b ! g)) ` {..<n}" unfolding z by (simp add: atLeast0LessThan)
  show "distinct (zip a b) \<longleftrightarrow> inj_on (\<lambda>g. (a ! g, b ! g)) {..<n}" unfolding z by (simp add: distinct_map atLeast0LessThan)
qed

lemma balanced_packing_ok:
  assumes T: "torch_ok T" and p: "packs \<noteq> 0" "length w mod packs = 0"
  shows "\<exists>idx rk. balanced_packing T w packs = Some (idx, rk) \<and> length idx = length w \<and> length rk = length w \<and>
    distinct (zip idx rk) \<and> set (zip idx rk) = {0..<int packs} \<times> {0..<int (length w div packs)}"
proof -
  let ?n = "length w" and ?g = "length w div packs"
  have n: "packs * ?g = ?n" using p(2) by auto
  show ?thesis
  proof (cases "?g = 1")
    case True
    then have "packs = ?n" using n by simp
    then have "set (zip (arange ?n) (replicate ?n (0::int))) = {0..<int packs} \<times> {0..<int ?g}" (is "?A = ?B")
    proof (intro set_eqI iffI)
      fix x assume "x \<in> ?A"
      then show "x \<in> ?B" using True \<open>packs = ?n\<close> by (auto simp: set_zip)
    next
      fix x assume "x \<in> ?B"
      then obtain l where "x = (l, 0)" "0 \<le> l" "l < int ?n" using True \<open>packs = ?n\<close> by (cases x) auto
      then show "x \<in> ?A" unfolding set_zip by (auto intro!: exI[of _ "nat l"])
    qed
    moreover have "distinct (zip (arange ?n) (replicate ?n (0::int)))"
      using perm_arange[of ?n] by (intro distinct_zipI1) (simp add: perm_of_def)
    ultimately show ?thesis using p True by (simp add: balanced_packing_def Let_def)
  next
    case False
    let ?z = "replicate ?n (-1 :: int)" and ?c = "replicate packs (0 :: int)"
    have so: "distinct (sort_desc T w)" "set (sort_desc T w) = {..<?n}" using T by (auto simp: torch_ok_def)
    have "length (sort_desc T w) = ?n" using distinct_card[OF so(1)] so(2) by simp
    then have s: "sum_list ?c + int (length (sort_desc T w)) = int packs * int ?g"
      using n by (simp add: sum_list_replicate of_nat_mult[symmetric] del: of_nat_mult)
    have em: "packed packs {} ?z ?z ?c" by (auto simp: packed_def)
    from pack_loop_ok[of "int ?g" "sort_desc T w" "{}" ?n ?z ?z ?c packs w "replicate packs 0"] so s em obtain idx rk pw its where l:
      "pack_loop (int ?g) w (sort_desc T w) (?z, ?z, replicate packs 0, ?c) = Some (idx, rk, pw, its)" "length idx = ?n" "length rk = ?n"
      "length its = packs" "\<forall>x \<in> set its. x \<le> int ?g" "sum_list its = int packs * int ?g" "packed packs {..<?n} idx rk its" by auto
    have "its ! j = int ?g" if "j < packs" for j using all_full[OF l(5), of "its ! j"] l(4,6) that by simp
    then have "{(p, k). 0 \<le> p \<and> p < int packs \<and> 0 \<le> k \<and> k < its ! nat p} = {0..<int packs} \<times> {0..<int ?g}"
      by (auto simp: nat_less_iff)
    then show ?thesis using l p False zip_pairs[OF l(2,3)] by (simp add: balanced_packing_def Let_def packed_def)
  qed
qed

text \<open>A pair of digits numbers the positions.\<close>

lemma digits_inj:
  fixes p q r s m :: int
  assumes "p * m + r = q * m + s" and "0 \<le> r" "r < m" "0 \<le> s" "s < m"
  shows "p = q \<and> r = s"
proof -
  have "(p * m + r) div m = p" "(q * m + s) div m = q" using assms(2-5) by simp_all
  then show ?thesis using assms(1) by simp
qed

lemma digits_range:
  fixes p r :: int
  assumes "0 \<le> p" "p < int k" "0 \<le> r" "r < int m"
  shows "0 \<le> p * int m + r" and "p * int m + r < int (k * m)"
proof -
  have "p * int m + r < (p + 1) * int m" using assms(4) by (simp add: distrib_right)
  also have "\<dots> \<le> int k * int m" using assms(2) by (intro mult_right_mono) simp_all
  finally show "p * int m + r < int (k * m)" by simp
qed (use assms in simp)

lemma digits_set: "(\<lambda>(p, r). p * int m + r) ` ({0..<int k} \<times> {0..<int m}) = {0..<int (k * m)}"
proof (intro set_eqI iffI)
  fix x assume "x \<in> (\<lambda>(p, r). p * int m + r) ` ({0..<int k} \<times> {0..<int m})"
  then show "x \<in> {0..<int (k * m)}" using digits_range by auto
next
  fix x assume x: "x \<in> {0..<int (k * m)}"
  then have "m \<noteq> 0" by (cases "m = 0") auto
  have "x div int m < int k"
  proof (rule ccontr)
    assume "\<not> x div int m < int k"
    then have "int k * int m \<le> x div int m * int m" by (intro mult_right_mono) simp_all
    also have "\<dots> \<le> x" using \<open>m \<noteq> 0\<close> by (simp add: minus_mod_eq_div_mult[symmetric])
    finally show False using x by simp
  qed
  moreover have "x = x div int m * int m + x mod int m" by simp
  moreover have "0 \<le> x div int m" "0 \<le> x mod int m" "x mod int m < int m" using x \<open>m \<noteq> 0\<close> by (simp_all add: pos_imp_zdiv_nonneg_iff)
  ultimately show "x \<in> (\<lambda>(p, r). p * int m + r) ` ({0..<int k} \<times> {0..<int m})"
    by (intro image_eqI[of _ _ "(x div int m, x mod int m)"]) auto
qed

lemma pairs_perm:
  assumes "distinct (zip a b)" and "length a = length b" and "set (zip a b) = {0..<int k} \<times> {0..<int m}"
  shows "perm_of (k * m) (map2 (\<lambda>p r. p * int m + r) a b)"
proof -
  have "inj_on (\<lambda>(p, r). p * int m + r) ({0..<int k} \<times> {0..<int m})" by (auto simp: inj_on_def dest: digits_inj)
  then have d: "distinct (map2 (\<lambda>p r. p * int m + r) a b)" using assms(1,3) by (simp add: distinct_map)
  have s: "set (map2 (\<lambda>p r. p * int m + r) a b) = {0..<int (k * m)}" using digits_set[of m k] assms(3) by (simp only: set_map)
  have "length (map2 (\<lambda>p r. p * int m + r) a b) = k * m" using distinct_card[OF d] unfolding s by (simp only: card_atLeastLessThan_int diff_zero nat_int)
  then show ?thesis using d s by (simp add: perm_of_def)
qed

end
