(* ===== verification/ExpertTables.thy ===== *)
theory ExpertTables
  imports ExpertBalance
begin

text \<open>
  The tables of the expert balancer are exact: every physical expert is listed once, under the logical
  expert it holds, also after ranks have failed.
\<close>

section \<open>Rearranging replicas\<close>

lemma perm_image: "perm_of n q \<Longrightarrow> nat ` set q = {..<n}"
  by (auto simp: perm_of_def image_iff) (metis atLeastLessThan_iff nat_int of_nat_0_le_iff of_nat_less_iff)

lemma perm_mset: "perm_of n q \<Longrightarrow> mset (map nat q) = mset [0..<n]"
proof -
  assume q: "perm_of n q"
  have "inj_on nat (set q)" using q by (auto simp: perm_of_def inj_on_def)
  then have "distinct (map nat q)" using q by (simp add: distinct_map perm_of_def)
  moreover have "set (map nat q) = set [0..<n]" using perm_image[OF q] by (simp add: atLeast0LessThan)
  ultimately show ?thesis using set_eq_iff_mset_eq_distinct distinct_upt by blast
qed

lemma permuted_mset:
  assumes "perm_of (length xs) q"
  shows "mset (map (\<lambda>i. xs ! nat i) q) = mset xs"
proof -
  have "map (\<lambda>i. xs ! nat i) q = map ((!) xs) (map nat q)" by simp
  then have "mset (map (\<lambda>i. xs ! nat i) q) = mset (map ((!) xs) (map nat q))" by (rule arg_cong)
  also have "\<dots> = image_mset ((!) xs) (mset (map nat q))" by (rule mset_map)
  also have "\<dots> = image_mset ((!) xs) (mset [0..<length xs])" by (simp only: perm_mset[OF assms])
  also have "\<dots> = mset (map ((!) xs) [0..<length xs])" by (rule mset_map[symmetric])
  finally show ?thesis by (simp only: map_nth)
qed

lemma replicas_permute:
  assumes r: "replicas n p2l rank cnt" and q: "perm_of (length p2l) q"
  shows "replicas n (map (\<lambda>i. p2l ! nat i) q) (map (\<lambda>i. rank ! nat i) q) cnt"
proof -
  have l: "length rank = length p2l" using r by (simp add: replicas_def)
  have i: "nat i < length p2l" if "i \<in> set q" for i using perm_image[OF q] that by auto
  have "zip (map (\<lambda>i. p2l ! nat i) q) (map (\<lambda>i. rank ! nat i) q) = map (\<lambda>i. zip p2l rank ! nat i) q"
    using i l by (simp add: zip_map_map zip_same_conv_map)
  moreover have "mset (map (\<lambda>i. zip p2l rank ! nat i) q) = mset (zip p2l rank)"
    by (rule permuted_mset) (use q l in simp)
  ultimately have m: "mset (zip (map (\<lambda>i. p2l ! nat i) q) (map (\<lambda>i. rank ! nat i) q)) = mset (zip p2l rank)" by simp
  show ?thesis using r mset_eq_setD[OF m] mset_eq_imp_distinct_iff[OF m] by (simp add: replicas_def)
qed

text \<open>Appending the experts of one more node.\<close>

lemma replicas_append:
  assumes a: "replicas n p2l rank cnt" and b: "replicas m p2l' rank' cnt'"
  shows "replicas (n + m) (p2l @ map (\<lambda>l. l + int n) p2l') (rank @ rank') (cnt @ cnt')"
proof -
  let ?A = "set (zip p2l rank)" and ?B = "set (zip p2l' rank')" and ?s = "\<lambda>(l, k). (l + int n, k)"
  have A: "?A = {(l, k). 0 \<le> l \<and> l < int n \<and> 0 \<le> k \<and> k < cnt ! nat l}" "length rank = length p2l" "length cnt = n"
    and B: "?B = {(l, k). 0 \<le> l \<and> l < int m \<and> 0 \<le> k \<and> k < cnt' ! nat l}" "length rank' = length p2l'" "length cnt' = m"
    using a b by (simp_all add: replicas_def)
  have z: "zip (p2l @ map (\<lambda>l. l + int n) p2l') (rank @ rank') = zip p2l rank @ map ?s (zip p2l' rank')"
    using A(2) B(2) by (simp add: zip_map1)
  have "inj_on ?s ?B" by (auto simp: inj_on_def)
  moreover have "?A \<inter> ?s ` ?B = {}" unfolding A(1) B(1) by auto
  ultimately have d: "distinct (zip (p2l @ map (\<lambda>l. l + int n) p2l') (rank @ rank'))"
    unfolding z using a b by (simp add: replicas_def distinct_map)
  have "?A \<union> ?s ` ?B = {(l, k). 0 \<le> l \<and> l < int (n + m) \<and> 0 \<le> k \<and> k < (cnt @ cnt') ! nat l}" (is "_ = ?C")
  proof (intro set_eqI iffI)
    fix x assume "x \<in> ?A \<union> ?s ` ?B"
    then show "x \<in> ?C" unfolding A(1) B(1) using A(3) by (auto simp: nth_append nat_add_distrib nat_less_iff)
  next
    fix x assume x: "x \<in> ?C"
    obtain l k where lk: "x = (l, k)" by (cases x)
    show "x \<in> ?A \<union> ?s ` ?B"
    proof (cases "l < int n")
      case True
      then show ?thesis using x A(3) unfolding lk A(1) by (auto simp: nth_append nat_less_iff)
    next
      case False
      then have "(l - int n, k) \<in> ?B" using x A(3) unfolding lk B(1) by (auto simp: nth_append nat_less_iff nat_diff_distrib)
      then show ?thesis unfolding lk by (auto intro!: image_eqI[of _ _ "(l - int n, k)"])
    qed
  qed
  then show ?thesis unfolding replicas_def using d a b A(2,3) B(2,3) unfolding z by (auto simp: replicas_def)
qed

text \<open>Renaming the logical experts.\<close>

lemma replicas_rename:
  assumes r: "replicas n p2l rank cnt" and f: "perm_of n f" and b: "perm_of n b"
    and inv: "\<forall>i < n. b ! nat (f ! i) = int i" "\<forall>i < n. f ! nat (b ! i) = int i"
  shows "replicas n (map (\<lambda>m. f ! nat m) p2l) rank (map (\<lambda>l. cnt ! nat l) b)"
proof -
  have R: "length cnt = n" "length rank = length p2l" "\<forall>c \<in> set cnt. 1 \<le> c" "distinct (zip p2l rank)"
    "set (zip p2l rank) = {(l, k). 0 \<le> l \<and> l < int n \<and> 0 \<le> k \<and> k < cnt ! nat l}" using r by (simp_all add: replicas_def)
  let ?g = "\<lambda>(m, k). (f ! nat m, k)"
  have z: "zip (map (\<lambda>m. f ! nat m) p2l) rank = map ?g (zip p2l rank)" by (simp add: zip_map1)
  have "inj_on ?g (set (zip p2l rank))" unfolding R(5)
  proof (rule inj_onI)
    fix x y assume a: "x \<in> {(l, k). 0 \<le> l \<and> l < int n \<and> 0 \<le> k \<and> k < cnt ! nat l}"
      "y \<in> {(l, k). 0 \<le> l \<and> l < int n \<and> 0 \<le> k \<and> k < cnt ! nat l}" "?g x = ?g y"
    obtain l k l' k' where xy: "x = (l, k)" "y = (l', k')" by (cases x; cases y)
    have "f ! nat l = f ! nat l'" "k = k'" "nat l < n" "nat l' < n" "0 \<le> l" "0 \<le> l'" using a unfolding xy by (auto simp: nat_less_iff)
    then have "int (nat l) = int (nat l')" using inv(1) by metis
    then show "x = y" using \<open>0 \<le> l\<close> \<open>0 \<le> l'\<close> \<open>k = k'\<close> unfolding xy by simp
  qed
  then have d: "distinct (zip (map (\<lambda>m. f ! nat m) p2l) rank)" unfolding z using R(4) by (simp add: distinct_map)
  have lb: "length b = n" using b by (simp add: perm_of_def)
  have "?g ` set (zip p2l rank) = {(l, k). 0 \<le> l \<and> l < int n \<and> 0 \<le> k \<and> k < map (\<lambda>l. cnt ! nat l) b ! nat l}" (is "_ = ?C")
  proof (intro set_eqI iffI)
    fix x assume "x \<in> ?g ` set (zip p2l rank)"
    then obtain m k where m: "x = (f ! nat m, k)" "0 \<le> m" "m < int n" "0 \<le> k" "k < cnt ! nat m" unfolding R(5) by auto
    then have "nat m < n" by simp
    then show "x \<in> ?C" using m perm_nth[OF f, of "nat m"] inv(1) lb by (auto simp: nat_less_iff)
  next
    fix x assume "x \<in> ?C"
    then obtain l k where l: "x = (l, k)" "0 \<le> l" "l < int n" "0 \<le> k" "k < cnt ! nat (b ! nat l)" using lb by (cases x) (auto simp: nat_less_iff)
    then have "nat l < n" by simp
    then show "x \<in> ?g ` set (zip p2l rank)" using l perm_nth[OF b, of "nat l"] inv(2) unfolding R(5)
      by (intro image_eqI[of _ _ "(b ! nat l, k)"]) auto
  qed
  moreover have "\<forall>c \<in> set (map (\<lambda>l. cnt ! nat l) b). 1 \<le> c"
    using R(1,3) perm_image[OF b] by (auto intro!: nth_mem)
  ultimately show ?thesis unfolding replicas_def z using d R(2) lb z by simp
qed

lemma block_perm:
  assumes p: "perm_of k xs"
  shows "perm_of (k * m) (concat (map (\<lambda>x. map (\<lambda>j. x * int m + j) (arange m)) xs))"
proof -
  have c: "concat (map (\<lambda>x. map (\<lambda>j. x * int m + j) (arange m)) xs) = map (\<lambda>(p, r). p * int m + r) (List.product xs (arange m))"
    by (induction xs) (simp_all add: comp_def)
  have P: "set (List.product xs (arange m)) = {0..<int k} \<times> {0..<int m}" using p by (simp add: perm_of_def)
  have "distinct (List.product xs (arange m))" using p perm_arange[of m] by (simp add: distinct_product perm_of_def)
  moreover have "inj_on (\<lambda>(p, r). p * int m + r) ({0..<int k} \<times> {0..<int m})" by (auto simp: inj_on_def dest: digits_inj)
  ultimately have "distinct (map (\<lambda>(p, r). p * int m + r) (List.product xs (arange m)))" using P by (simp add: distinct_map)
  moreover have "set (map (\<lambda>(p, r). p * int m + r) (List.product xs (arange m))) = {0..<int (k * m)}"
    using digits_set[of m k] P by (simp only: set_map)
  moreover have "length (List.product xs (arange m)) = k * m" using p by (simp add: perm_of_def)
  ultimately show ?thesis unfolding c perm_of_def by simp
qed

section \<open>A node, a layer\<close>

lemma node_experts_ok:
  assumes T: "torch_ok T" and w: "w \<noteq> []" "length w \<le> N" and p: "packs \<noteq> 0" "N mod packs = 0"
  shows "\<exists>p2l rank cnt. node_experts T N packs (N div packs) w = Some (p2l, rank, cnt) \<and> length p2l = N \<and> replicas (length w) p2l rank cnt"
proof -
  from replicate_experts_ok[OF T w] obtain p2l rank cnt where r: "replicate_experts T w N = Some (p2l, rank, cnt)" "length p2l = N"
    "replicas (length w) p2l rank cnt" by blast
  have lc: "length cnt = length w" "length rank = N" using r(2,3) by (simp_all add: replicas_def)
  have "set p2l \<subseteq> {0..<int (length w)}"
  proof
    fix l assume "l \<in> set p2l"
    then obtain k where "(l, k) \<in> set (zip p2l rank)" using lc(2) r(2) by (metis in_set_impl_in_set_zip1)
    then show "l \<in> {0..<int (length w)}" using r(3) by (auto simp: replicas_def)
  qed
  then have "gather (map2 (\<lambda>w c. w / of_int c) w cnt) p2l = Some (map (\<lambda>i. map2 (\<lambda>w c. w / of_int c) w cnt ! nat i) p2l)"
    using lc(1) by (intro gather_ok) auto
  then obtain tpp where g: "gather (map2 (\<lambda>w c. w / of_int c) w cnt) p2l = Some tpp" "length tpp = N" using r(2) by simp
  from balanced_packing_ok[OF T p(1), of tpp] p(2) g(2) obtain idx rk where b: "balanced_packing T tpp packs = Some (idx, rk)"
    "length idx = N" "length rk = N" "distinct (zip idx rk)" "set (zip idx rk) = {0..<int packs} \<times> {0..<int (N div packs)}" by auto
  have "packs * (N div packs) = N" using p(2) by auto
  then have "perm_of N (map2 (\<lambda>p r. p * int (N div packs) + r) idx rk)"
    using pairs_perm[OF b(4) _ b(5)] b(2,3) by simp
  from inverse_ok[OF T this] obtain q where q: "inverse_perm T (map2 (\<lambda>p r. p * int (N div packs) + r) idx rk) = Some q" "perm_of N q" by blast
  have q': "\<forall>i \<in> set q. 0 \<le> i \<and> i < int N" using q(2) by (simp add: perm_of_def)
  have "gather p2l q = Some (map (\<lambda>i. p2l ! nat i) q)" "gather rank q = Some (map (\<lambda>i. rank ! nat i) q)"
    using q' r(2) lc(2) by (simp_all add: gather_ok)
  moreover have "replicas (length w) (map (\<lambda>i. p2l ! nat i) q) (map (\<lambda>i. rank ! nat i) q) cnt"
    by (rule replicas_permute[OF r(3)]) (simp add: q(2) r(2))
  moreover have "length q = N" using q(2) by (simp add: perm_of_def)
  ultimately show ?thesis using r(1) g(1) b(1) q(1) by (simp add: node_experts_def Let_def)
qed

lemma replicas_concat:
  assumes "\<forall>part \<in> set parts. length (fst part) = N \<and> replicas m (fst part) (fst (snd part)) (snd (snd part))"
  shows "replicas (length parts * m) (concat (map2 (\<lambda>node part. map (\<lambda>x. x + int (node * m)) (fst part)) [0..<length parts] parts))
      (concat (map (\<lambda>part. fst (snd part)) parts)) (concat (map (\<lambda>part. snd (snd part)) parts)) \<and>
    length (concat (map2 (\<lambda>node part. map (\<lambda>x. x + int (node * m)) (fst part)) [0..<length parts] parts)) = length parts * N"
  using assms
proof (induction parts rule: rev_induct)
  case Nil
  then show ?case by (auto simp: replicas_def)
next
  case (snoc part parts)
  have p: "length (fst part) = N" "replicas m (fst part) (fst (snd part)) (snd (snd part))" using snoc.prems by simp_all
  have z: "zip [0..<length (parts @ [part])] (parts @ [part]) = zip [0..<length parts] parts @ [(length parts, part)]" by simp
  have IH: "replicas (length parts * m) (concat (map2 (\<lambda>node part. map (\<lambda>x. x + int (node * m)) (fst part)) [0..<length parts] parts))
      (concat (map (\<lambda>part. fst (snd part)) parts)) (concat (map (\<lambda>part. snd (snd part)) parts))"
    "length (concat (map2 (\<lambda>node part. map (\<lambda>x. x + int (node * m)) (fst part)) [0..<length parts] parts)) = length parts * N"
    using snoc.IH snoc.prems by auto
  have l: "length (parts @ [part]) * m = length parts * m + m" "length (parts @ [part]) * N = length parts * N + N" by simp_all
  show ?case unfolding z l map_append concat_append using replicas_append[OF IH(1) p(2)] IH(2) p(1) by simp
qed

lemma reshape_rows:
  assumes "length xs = j * k" and "k \<noteq> 0"
  shows "length (reshape k xs) = j" and "\<forall>row \<in> set (reshape k xs). length row = k"
    and "\<And>i. i < j \<Longrightarrow> reshape k xs ! i = take k (drop (i * k) xs)"
proof -
  have d: "length xs div k = j" using assms by simp
  show "length (reshape k xs) = j" by (simp add: reshape_def d)
  have "k \<le> j * k - i * k" if "i < j" for i using mult_le_mono1[of "Suc i" j k] that by simp
  then show "\<forall>row \<in> set (reshape k xs). length row = k" using assms(1) by (auto simp: reshape_def d min_absorb2)
  show "reshape k xs ! i = take k (drop (i * k) xs)" if "i < j" for i using that by (simp add: reshape_def d)
qed

text \<open>The sizes that the assertions of \<open>rebalance_experts_hierarchical\<close> and \<open>replicate_experts\<close> demand.\<close>

definition balance_config :: "nat \<Rightarrow> nat \<Rightarrow> nat \<Rightarrow> nat \<Rightarrow> nat \<Rightarrow> bool" where
  "balance_config n num_phy num_groups num_nodes num_gpus \<longleftrightarrow> 0 < n \<and> num_groups \<noteq> 0 \<and> n mod num_groups = 0 \<and> num_nodes \<noteq> 0 \<and>
     num_groups mod num_nodes = 0 \<and> num_gpus mod num_nodes = 0 \<and> num_gpus \<noteq> 0 \<and> num_phy mod num_gpus = 0 \<and> n \<le> num_phy"

lemma hierarchical_ok:
  assumes T: "torch_ok T" and c: "balance_config (length w) N G J U"
  shows "\<exists>p2l rank cnt. rebalance_experts_hierarchical T w N G J U = Some (p2l, rank, cnt) \<and> length p2l = N \<and> replicas (length w) p2l rank cnt"
proof -
  let ?n = "length w" and ?gs = "length w div G" and ?m = "length w div J"
  have C: "0 < ?n" "G \<noteq> 0" "?n mod G = 0" "J \<noteq> 0" "G mod J = 0" "U mod J = 0" "U \<noteq> 0" "N mod U = 0" "?n \<le> N"
    using c by (simp_all add: balance_config_def)
  have n: "?n = G * ?gs" using C(3) by auto
  have "J dvd ?n" using C(3,5) n by (metis dvd_mult2 mod_0_imp_dvd)
  then have m: "?n = J * ?m" by simp
  have "J dvd N" using C(6,8) by (metis dvd_trans mod_0_imp_dvd)
  then have N: "N = J * (N div J)" by simp
  have m0: "0 < ?m" using m C(1) by (metis gr0I mult_0_right)
  have per: "N div U = N div J div (U div J)" "N div J mod (U div J) = 0" "U div J \<noteq> 0"
  proof -
    obtain u where u: "U = J * u" using C(6) by auto
    obtain v where v: "N = U * v" using C(8) by auto
    have "u \<noteq> 0" using u C(7) by auto
    then show "N div U = N div J div (U div J)" "N div J mod (U div J) = 0" "U div J \<noteq> 0" using u v C(4,7) by auto
  qed
  define tpg where "tpg = map (\<lambda>g. sum_list (take ?gs (drop (g * ?gs) w))) [0..<G]"
  have "length tpg mod J = 0" using C(5) by (simp add: tpg_def)
  from balanced_packing_ok[OF T C(4) this] obtain idx rk where b: "balanced_packing T tpg J = Some (idx, rk)" "length idx = G" "length rk = G"
    "distinct (zip idx rk)" "set (zip idx rk) = {0..<int J} \<times> {0..<int (G div J)}" by (auto simp: tpg_def)
  have GJ: "J * (G div J) = G" using C(5) by auto
  let ?pos = "map2 (\<lambda>p r. p * int (G div J) + r) idx rk"
  define l2m where "l2m = concat (map2 (\<lambda>p r. map (\<lambda>j. (p * int (G div J) + r) * int ?gs + j) (arange ?gs)) idx rk)"
  have "perm_of G ?pos" using pairs_perm[OF b(4) _ b(5)] b(2,3) GJ by simp
  from block_perm[OF this, of ?gs] have lp: "perm_of ?n l2m" unfolding n[symmetric] l2m_def by (simp add: comp_def case_prod_unfold)
  from inverse_ok[OF T lp] obtain m2l where i: "inverse_perm T l2m = Some m2l" "perm_of ?n m2l"
    "\<forall>i < ?n. m2l ! nat (l2m ! i) = int i" "\<forall>i < ?n. l2m ! nat (m2l ! i) = int i" by blast
  have in1: "\<forall>i \<in> set m2l. 0 \<le> i \<and> i < int ?n" "\<forall>i \<in> set l2m. 0 \<le> i \<and> i < int ?n" using i(2) lp by (simp_all add: perm_of_def)
  define tpm where "tpm = map (\<lambda>i. w ! nat i) m2l"
  have g1: "gather w m2l = Some tpm" "length tpm = J * ?m" using gather_ok[OF in1(1)] i(2) m by (simp_all add: tpm_def perm_of_def)
  note R = reshape_rows[OF g1(2)]
  let ?node = "node_experts T (N div J) (U div J) (N div U)"
  have each: "\<exists>part. ?node row = Some part \<and> length (fst part) = N div J \<and> replicas ?m (fst part) (fst (snd part)) (snd (snd part))"
    if "row \<in> set (reshape ?m tpm)" for row
  proof -
    have lr: "length row = ?m" using R(2) that m0 by blast
    have le: "length row \<le> N div J" unfolding lr using C(9) by (rule div_le_mono)
    have "row \<noteq> []" using lr m0 by auto
    from node_experts_ok[OF T this le per(3,2)] show ?thesis unfolding per(1)[symmetric] lr by auto
  qed
  obtain parts where P: "map_option_list ?node (reshape ?m tpm) = Some parts"
    "list_all2 (\<lambda>row part. length (fst part) = N div J \<and> replicas ?m (fst part) (fst (snd part)) (snd (snd part))) (reshape ?m tpm) parts"
    using map_option_list_ok[of "reshape ?m tpm" ?node, OF each] by blast
  have lP: "length parts = J" using list_all2_lengthD[OF P(2)] R(1) m0 by simp
  have "\<forall>part \<in> set parts. length (fst part) = N div J \<and> replicas ?m (fst part) (fst (snd part)) (snd (snd part))"
    using P(2) unfolding list_all2_conv_all_nth by (metis in_set_conv_nth)
  note Q = replicas_concat[OF this, unfolded lP m[symmetric] N[symmetric]]
  define p2m where "p2m = concat (map2 (\<lambda>node part. map (\<lambda>x. x + int (node * ?m)) (fst part)) [0..<J] parts)"
  define rank where "rank = concat (map (\<lambda>part. fst (snd part)) parts)"
  define mcnt where "mcnt = concat (map (\<lambda>part. snd (snd part)) parts)"
  have rp: "replicas ?n p2m rank mcnt" "length p2m = N" using Q unfolding p2m_def rank_def mcnt_def by simp_all
  have "set p2m \<subseteq> {0..<int ?n}"
  proof
    fix l assume "l \<in> set p2m"
    then obtain k where "(l, k) \<in> set (zip p2m rank)" using rp by (metis in_set_impl_in_set_zip1 replicas_def)
    then show "l \<in> {0..<int ?n}" using rp(1) by (auto simp: replicas_def)
  qed
  then have g2: "gather m2l p2m = Some (map (\<lambda>m. m2l ! nat m) p2m)" using i(2) by (intro gather_ok) (auto simp: perm_of_def)
  have g3: "gather mcnt l2m = Some (map (\<lambda>l. mcnt ! nat l) l2m)" using in1(2) rp(1) by (intro gather_ok) (simp add: replicas_def)
  have "replicas ?n (map (\<lambda>m. m2l ! nat m) p2m) rank (map (\<lambda>l. mcnt ! nat l) l2m)"
    by (rule replicas_rename[OF rp(1) i(2) lp i(4,3)])
  moreover have "rebalance_experts_hierarchical T w N G J U = Some (map (\<lambda>m. m2l ! nat m) p2m, rank, map (\<lambda>l. mcnt ! nat l) l2m)"
    unfolding rebalance_experts_hierarchical_def Let_def using C b(1) i(1) g1(1) P(1) g2 g3 m0
    by (simp del: of_nat_mult add: tpg_def[symmetric] l2m_def[symmetric] p2m_def[symmetric] rank_def[symmetric] mcnt_def[symmetric])
  ultimately show ?thesis using rp(2) by simp
qed

end
