(* ===== verification/ExpertRouting.thy ===== *)
theory ExpertRouting
  imports ExpertTables
begin

text \<open>
  The table from logical to physical experts: the entries of a logical expert are exactly the physical
  experts that hold it, and when ranks have failed exactly those on ranks that still serve.
\<close>

section \<open>Routed\<close>

text \<open>
  In every row of the table: first the replicas, as many as counted, then the padding; the replicas are, each
  once, the physical experts that hold the logical expert and are \<open>live\<close>.
\<close>

definition routed :: "(nat \<Rightarrow> bool) \<Rightarrow> int list \<Rightarrow> int list list \<Rightarrow> int list \<Rightarrow> bool" where
  "routed live p2l tbl cnt \<longleftrightarrow> length tbl = length cnt \<and> (\<forall>l < length cnt. \<exists>ps. 1 \<le> cnt ! l \<and>
     tbl ! l = map int ps @ replicate (length (tbl ! l) - length ps) (-1) \<and> int (length ps) = cnt ! l \<and> distinct ps \<and>
     set ps = {p. p < length p2l \<and> live p \<and> p2l ! p = int l})"

lemma table_entry:
  assumes r: "replicas n p2l rank cnt" and K: "\<forall>c \<in> set cnt. c \<le> int K"
  shows "\<exists>tbl. log2phy_table n (int K) (length p2l) (p2l, rank, cnt) = Some tbl \<and> length tbl = n \<and>
    (\<forall>l < n. length (tbl ! l) = K \<and> (\<forall>j < length p2l. p2l ! j = int l \<longrightarrow> tbl ! l ! nat (rank ! j) = int j) \<and>
      (\<forall>k < K. cnt ! l \<le> int k \<longrightarrow> tbl ! l ! k = -1))"
proof -
  let ?N = "length p2l" and ?is = "map2 (\<lambda>l k. l * int K + k) p2l rank"
  have R: "length cnt = n" "length rank = ?N" "distinct (zip p2l rank)"
    "set (zip p2l rank) = {(l, k). 0 \<le> l \<and> l < int n \<and> 0 \<le> k \<and> k < cnt ! nat l}" using r by (simp_all add: replicas_def)
  have cK: "cnt ! nat l \<le> int K" if "0 \<le> l" "l < int n" for l using K R(1) that by (simp add: nat_less_iff)
  have dig: "0 \<le> l \<and> l < int n \<and> 0 \<le> k \<and> k < int K" if "(l, k) \<in> set (zip p2l rank)" for l k
    using that cK[of l] unfolding R(4) by auto
  have K0: "n = 0" if "K = 0" using that K r by (cases cnt) (auto simp: replicas_def)
  have nj: "(p2l ! j, rank ! j) \<in> set (zip p2l rank)" if "j < ?N" for j using that R(2) by (auto simp: in_set_zip)
  have "inj_on (\<lambda>(l, k). l * int K + k) (set (zip p2l rank))"
    using dig by (auto simp: inj_on_def dest!: digits_inj)
  then have d: "distinct ?is" using R(3) by (simp add: distinct_map)
  have rng: "\<forall>i \<in> set ?is. 0 \<le> i \<and> i < int (length (replicate (n * K) (-1::int)))"
    using dig digits_range[of _ n _ K] by auto
  from scatter_ok[OF d _ rng, of "arange ?N"] obtain out where out: "scatter (replicate (n * K) (-1)) ?is (arange ?N) = Some out"
    "length out = n * K" "\<forall>j < ?N. out ! nat (?is ! j) = int j" "\<forall>m < n * K. int m \<notin> set ?is \<longrightarrow> out ! m = -1"
    using R(2) by auto
  have is_nth: "?is ! j = p2l ! j * int K + rank ! j" if "j < ?N" for j using that R(2) by simp
  define tbl where "tbl = reshape K out"
  have row: "length (tbl ! l) = K \<and> (\<forall>k < K. tbl ! l ! k = out ! (l * K + k))" if l: "l < n" for l
  proof (cases "K = 0")
    case True
    then show ?thesis using K0 l by simp
  next
    case False
    have le: "l * K + K \<le> n * K" using mult_le_mono1[of "Suc l" n K] l by simp
    then have "drop (l * K) out ! k = out ! (l * K + k)" if "k < K" for k using that out(2) by (intro nth_drop) (simp add: l less_imp_le)
    then show ?thesis unfolding tbl_def reshape_rows(3)[OF out(2) False l] using le out(2) by simp
  qed
  have "length tbl = n"
  proof (cases "K = 0")
    case True
    then show ?thesis using K0 out(2) by (simp add: tbl_def reshape_def)
  qed (simp add: tbl_def reshape_rows(1)[OF out(2)])
  moreover have "tbl ! l ! nat (rank ! j) = int j" if l: "l < n" "j < ?N" "p2l ! j = int l" for l j
  proof -
    have b: "0 \<le> rank ! j" "rank ! j < int K" using dig[OF nj[OF l(2)]] by auto
    then have "nat (int l * int K + rank ! j) = l * K + nat (rank ! j)" by (simp add: nat_add_distrib nat_mult_distrib)
    then have "out ! (l * K + nat (rank ! j)) = int j" using out(3) l(2,3) is_nth[OF l(2)] by metis
    then show ?thesis using row[OF l(1)] b by (simp add: nat_less_iff)
  qed
  moreover have "tbl ! l ! k = -1" if l: "l < n" "k < K" "cnt ! l \<le> int k" for l k
  proof -
    have "int (l * K + k) \<notin> set ?is"
    proof
      assume "int (l * K + k) \<in> set ?is"
      then obtain l' k' where z: "(l', k') \<in> set (zip p2l rank)" "int l * int K + int k = l' * int K + k'" by auto
      then have "int l = l' \<and> int k = k'" using dig[OF z(1)] l(2) by (intro digits_inj[OF z(2)]) auto
      then show False using z(1) l(3) unfolding R(4) by auto
    qed
    moreover have "l * K + k < n * K" using digits_range(2)[of "int l" n "int k" K] l(1,2) by (simp flip: of_nat_mult of_nat_add)
    ultimately show ?thesis using out(4) row[OF l(1)] l(2) by simp
  qed
  moreover have "log2phy_table n (int K) ?N (p2l, rank, cnt) = Some tbl" using out(1) by (simp add: log2phy_table_def tbl_def)
  ultimately show ?thesis using row by blast
qed

lemma routed_table:
  assumes r: "replicas n p2l rank cnt" and K: "\<forall>c \<in> set cnt. c \<le> int K"
  shows "\<exists>tbl. log2phy_table n (int K) (length p2l) (p2l, rank, cnt) = Some tbl \<and> routed (\<lambda>_. True) p2l tbl cnt"
proof -
  have R: "length cnt = n" "length rank = length p2l" "distinct (zip p2l rank)" "\<forall>c \<in> set cnt. 1 \<le> c"
    "set (zip p2l rank) = {(l, k). 0 \<le> l \<and> l < int n \<and> 0 \<le> k \<and> k < cnt ! nat l}" using r by (simp_all add: replicas_def)
  from table_entry[OF r K] obtain tbl where t: "log2phy_table n (int K) (length p2l) (p2l, rank, cnt) = Some tbl" "length tbl = n"
    "\<And>l. l < n \<Longrightarrow> length (tbl ! l) = K" "\<And>l j. l < n \<Longrightarrow> j < length p2l \<Longrightarrow> p2l ! j = int l \<Longrightarrow> tbl ! l ! nat (rank ! j) = int j"
    "\<And>l k. l < n \<Longrightarrow> k < K \<Longrightarrow> cnt ! l \<le> int k \<Longrightarrow> tbl ! l ! k = -1" by auto
  have "\<exists>ps. 1 \<le> cnt ! l \<and> tbl ! l = map int ps @ replicate (length (tbl ! l) - length ps) (-1) \<and> int (length ps) = cnt ! l \<and> distinct ps \<and>
    set ps = {p. p < length p2l \<and> p2l ! p = int l}" if l: "l < n" for l
  proof -
    define ps where "ps = map (\<lambda>k. nat (tbl ! l ! k)) [0..<nat (cnt ! l)]"
    have c: "1 \<le> cnt ! l" "cnt ! l \<le> int K" using R(1,4) K l by auto
    have holder: "\<exists>j < length p2l. p2l ! j = int l \<and> rank ! j = int k" if "k < nat (cnt ! l)" for k
    proof -
      have "(int l, int k) \<in> set (zip p2l rank)" unfolding R(5) using that l by auto
      then show ?thesis by (auto simp: in_set_zip)
    qed
    have entry: "tbl ! l ! k = int j" if "j < length p2l" "p2l ! j = int l" "rank ! j = int k" for j k
      using t(4)[OF l that(1,2)] that(3) by simp
    have nn: "int (nat (tbl ! l ! k)) = tbl ! l ! k" if "k < nat (cnt ! l)" for k using holder[OF that] entry by auto
    have "tbl ! l = map int ps @ replicate (K - length ps) (-1)"
      using nn t(3,5)[OF l] c by (intro nth_equalityI) (auto simp: ps_def nth_append)
    moreover have "distinct ps"
    proof (rule distinct_conv_nth[THEN iffD2], intro allI impI notI)
      fix a b assume ab: "a < length ps" "b < length ps" "a \<noteq> b" "ps ! a = ps ! b"
      then have k: "a < nat (cnt ! l)" "b < nat (cnt ! l)" by (simp_all add: ps_def)
      from holder[OF k(1)] holder[OF k(2)] obtain i j where ij: "i < length p2l" "p2l ! i = int l" "rank ! i = int a"
        "j < length p2l" "p2l ! j = int l" "rank ! j = int b" by blast
      then have "i = j" using ab(4) entry k by (simp add: ps_def)
      then show False using ij ab(3) by simp
    qed
    moreover have "set ps = {p. p < length p2l \<and> p2l ! p = int l}"
    proof (intro set_eqI iffI)
      fix p assume "p \<in> set ps"
      then obtain k where k: "k < nat (cnt ! l)" "p = nat (tbl ! l ! k)" by (auto simp: ps_def)
      with holder[OF k(1)] entry show "p \<in> {p. p < length p2l \<and> p2l ! p = int l}" by auto
    next
      fix p assume "p \<in> {p. p < length p2l \<and> p2l ! p = int l}"
      then have p: "p < length p2l" "p2l ! p = int l" by simp_all
      then have "(int l, rank ! p) \<in> set (zip p2l rank)" using R(2) by (auto simp: in_set_zip intro!: exI[of _ p])
      then have "0 \<le> rank ! p" "nat (rank ! p) < nat (cnt ! l)" unfolding R(5) by auto
      then show "p \<in> set ps" using entry[OF p, of "nat (rank ! p)"] by (auto simp: ps_def intro!: image_eqI[of _ _ "nat (rank ! p)"])
    qed
    ultimately show ?thesis using c t(3)[OF l] by (intro exI[of _ ps]) (simp add: ps_def)
  qed
  then show ?thesis using t(1,2) R(1) by (intro exI[of _ tbl]) (simp add: routed_def)
qed

section \<open>All layers\<close>

lemma max_count_ok:
  assumes "\<forall>row \<in> set rows. snd (snd row) \<noteq> []" and "rows \<noteq> []"
  shows "\<exists>m. max_count rows = Some m \<and> (\<forall>row \<in> set rows. \<forall>c \<in> set (snd (snd row)). c \<le> m)"
proof -
  have fold: "m \<le> foldl max m cs \<and> (\<forall>c \<in> set cs. c \<le> foldl max m cs)" for m :: int and cs
    by (induction cs arbitrary: m) (auto simp: max_def split: if_splits, (smt (verit))+)
  let ?cs = "concat (map (\<lambda>row. snd (snd row)) rows)"
  obtain row where "row \<in> set rows" using assms(2) by (cases rows) auto
  then have "?cs \<noteq> []" using assms(1) by (force simp del: split_paired_Ex)
  then obtain c cs where c: "?cs = c # cs" by (cases ?cs) auto
  have "\<forall>x \<in> set ?cs. x \<le> foldl max c cs" using fold[of c cs] unfolding c by simp
  then have "\<forall>row \<in> set rows. \<forall>x \<in> set (snd (snd row)). x \<le> foldl max c cs" by simp
  then show ?thesis unfolding max_count_def c by simp
qed

lemma rebalance_ok:
  assumes T: "torch_ok T" and w: "weight \<noteq> []" "\<forall>w \<in> set weight. length w = n"
    and c: "balance_config n N (if hier then G else 1) (if hier then J else 1) U"
  shows "\<exists>p2l l2p cnt. rebalance_experts T weight n N G J U hier = Some (p2l, l2p, cnt) \<and>
    length p2l = length weight \<and> length l2p = length weight \<and> length cnt = length weight \<and>
    (\<forall>i < length weight. length (p2l ! i) = N \<and> length (cnt ! i) = n \<and> routed (\<lambda>_. True) (p2l ! i) (l2p ! i) (cnt ! i))"
proof -
  let ?f = "\<lambda>w. if hier then rebalance_experts_hierarchical T w N G J U else rebalance_experts_hierarchical T w N 1 1 U"
  let ?ok = "\<lambda>row. length (fst row) = N \<and> replicas n (fst row) (fst (snd row)) (snd (snd row))"
  have each: "\<exists>row. ?f w = Some row \<and> ?ok row" if "w \<in> set weight" for w
    using hierarchical_ok[OF T, of w N "if hier then G else 1" "if hier then J else 1" U] c w(2) that
    by (cases hier) fastforce+
  obtain rows where rows: "map_option_list ?f weight = Some rows" "list_all2 (\<lambda>_. ?ok) weight rows"
    using map_option_list_ok[of weight ?f, OF each] by blast
  have len: "length rows = length weight" using list_all2_lengthD[OF rows(2)] by simp
  have ok: "?ok row" if "row \<in> set rows" for row using rows(2) that unfolding list_all2_conv_all_nth by (metis in_set_conv_nth)
  have "0 < n" using c by (simp add: balance_config_def)
  then have "\<forall>row \<in> set rows. snd (snd row) \<noteq> []" using ok by (auto simp: replicas_def)
  moreover have "rows \<noteq> []" using len w(1) by auto
  ultimately obtain m where m: "max_count rows = Some m" "\<forall>row \<in> set rows. \<forall>c \<in> set (snd (snd row)). c \<le> m"
    using max_count_ok by blast
  have "0 \<le> m"
  proof -
    obtain row where row: "row \<in> set rows" using \<open>rows \<noteq> []\<close> by (cases rows) auto
    then obtain x where "x \<in> set (snd (snd row))" using \<open>\<forall>row \<in> set rows. snd (snd row) \<noteq> []\<close> by (metis list.set_intros(1) neq_Nil_conv)
    then show ?thesis using m(2) ok[OF row] row by (force simp: replicas_def)
  qed
  then have mK: "m = int (nat m)" by simp
  let ?t = "log2phy_table n m N" and ?routed = "\<lambda>row tbl. routed (\<lambda>_. True) (fst row) tbl (snd (snd row))"
  have tab: "\<exists>tbl. ?t row = Some tbl \<and> ?routed row tbl" if "row \<in> set rows" for row
    using routed_table[of n "fst row" "fst (snd row)" "snd (snd row)" "nat m"] ok[OF that] m(2) that \<open>0 \<le> m\<close> by auto
  obtain tbls where tbls: "map_option_list ?t rows = Some tbls" "list_all2 ?routed rows tbls"
    using map_option_list_ok[of rows ?t, OF tab] by blast
  have "rebalance_experts T weight n N G J U hier = Some (map fst rows, tbls, map (\<lambda>row. snd (snd row)) rows)"
    using rows(1) m(1) tbls(1) by (simp add: rebalance_experts_def)
  moreover have "length tbls = length weight" using list_all2_lengthD[OF tbls(2)] len by simp
  moreover have "length (fst (rows ! i)) = N \<and> length (snd (snd (rows ! i))) = n \<and> ?routed (rows ! i) (tbls ! i)" if "i < length weight" for i
    using ok[of "rows ! i"] list_all2_nthD[OF tbls(2), of i] that len by (simp add: replicas_def)
  ultimately show ?thesis using len by simp
qed

section \<open>Failed ranks\<close>

text \<open>One failed rank: a block of dead physical experts is inserted at \<open>a\<close>.\<close>

definition shifted :: "nat \<Rightarrow> nat \<Rightarrow> int \<Rightarrow> int" where
  "shifted a m p = (if p \<ge> int a then p + int m else p)"

definition shift_nat :: "nat \<Rightarrow> nat \<Rightarrow> nat \<Rightarrow> nat" where
  "shift_nat a m p = (if a \<le> p then p + m else p)"

lemma shifted_simps [simp]: "shifted a m (int p) = int (shift_nat a m p)" "shifted a m (-1) = -1"
  by (simp_all add: shifted_def shift_nat_def)

lemma shift_nat_image:
  assumes "a \<le> L" and "\<And>p. p < a \<Longrightarrow> live' p = live p" and "\<And>p. a \<le> p \<Longrightarrow> p < a + m \<Longrightarrow> \<not> live' p"
    and "\<And>p. a + m \<le> p \<Longrightarrow> live' p = live (p - m)" and "length c = L" and "length zs = m"
  shows "{p. p < L + m \<and> live' p \<and> (take a c @ zs @ drop a c) ! p = x} = shift_nat a m ` {p. p < L \<and> live p \<and> c ! p = x}"
proof (intro set_eqI iffI)
  fix p assume p: "p \<in> {p. p < L + m \<and> live' p \<and> (take a c @ zs @ drop a c) ! p = x}"
  show "p \<in> shift_nat a m ` {p. p < L \<and> live p \<and> c ! p = x}"
  proof (cases "p < a")
    case True
    then show ?thesis using p assms by (auto simp: nth_append shift_nat_def intro!: image_eqI[of _ _ p])
  next
    case False
    then have "a + m \<le> p" using p assms(3) by (metis (mono_tags, lifting) leI mem_Collect_eq)
    then show ?thesis using p assms by (auto simp: nth_append shift_nat_def intro!: image_eqI[of _ _ "p - m"])
  qed
next
  fix p assume "p \<in> shift_nat a m ` {p. p < L \<and> live p \<and> c ! p = x}"
  then obtain q where "q < L" "live q" "c ! q = x" "p = shift_nat a m q" by auto
  then show "p \<in> {p. p < L + m \<and> live' p \<and> (take a c @ zs @ drop a c) ! p = x}"
    using assms by (auto simp: nth_append shift_nat_def min_def)
qed

lemma routed_insert:
  assumes r: "routed live c tbl cnt" and a: "a \<le> length c" "length zs = m" and l: "\<And>p. p < a \<Longrightarrow> live' p = live p"
    "\<And>p. a \<le> p \<Longrightarrow> p < a + m \<Longrightarrow> \<not> live' p" "\<And>p. a + m \<le> p \<Longrightarrow> live' p = live (p - m)"
  shows "routed live' (take a c @ zs @ drop a c) (map (map (shifted a m)) tbl) cnt"
  unfolding routed_def
proof (intro conjI allI impI)
  show "length (map (map (shifted a m)) tbl) = length cnt" using r by (simp add: routed_def)
  fix l assume l': "l < length cnt"
  then obtain ps where ps: "1 \<le> cnt ! l" "tbl ! l = map int ps @ replicate (length (tbl ! l) - length ps) (-1)" "int (length ps) = cnt ! l"
    "distinct ps" "set ps = {p. p < length c \<and> live p \<and> c ! p = int l}" "l < length tbl" using r unfolding routed_def by force
  let ?qs = "map (shift_nat a m) ps"
  have "map (shifted a m) (tbl ! l) = map int ?qs @ replicate (length (tbl ! l) - length ?qs) (-1)" by (subst ps(2)) simp
  moreover have "inj (shift_nat a m)" by (auto simp: inj_def shift_nat_def split: if_splits)
  then have "distinct ?qs" using ps(4) by (simp add: distinct_map inj_on_subset[of _ UNIV])
  moreover have "length (take a c @ zs @ drop a c) = length c + m" using a by simp
  then have "set ?qs = {p. p < length (take a c @ zs @ drop a c) \<and> live' p \<and> (take a c @ zs @ drop a c) ! p = int l}"
    using shift_nat_image[of a "length c" live' live m c zs "int l"] a l ps(5) by (simp only: set_map) simp
  ultimately show "\<exists>ps. 1 \<le> cnt ! l \<and> map (map (shifted a m)) tbl ! l =
      map int ps @ replicate (length (map (map (shifted a m)) tbl ! l) - length ps) (-1) \<and> int (length ps) = cnt ! l \<and> distinct ps \<and>
      set ps = {p. p < length (take a c @ zs @ drop a c) \<and> live' p \<and> (take a c @ zs @ drop a c) ! p = int l}"
    using ps(1,3,6) by (intro exI[of _ ?qs]) (simp del: replicate_Suc)
qed

text \<open>A physical expert serves when its rank does; ranks from \<open>i\<close> on count as serving.\<close>

definition on_active :: "nat \<Rightarrow> bool list \<Rightarrow> nat \<Rightarrow> nat \<Rightarrow> bool" where
  "on_active m active i p \<longleftrightarrow> (p div m < i \<longrightarrow> active ! (p div m))"

lemma concat_blocks:
  assumes "\<forall>s \<in> set slices. length s = m" and "i \<le> length slices"
  shows "concat (take i slices) = take (i * m) (concat slices)" and "concat (drop i slices) = drop (i * m) (concat slices)"
    and "length (concat slices) = length slices * m"
  using assms by (induction slices arbitrary: i) (auto simp: take_Cons drop_Cons split: nat.splits)

lemma insert_failed_ok:
  assumes "0 < m"
  shows "i + length ranks = length active \<Longrightarrow> ranks = drop i active \<Longrightarrow> length slices = i + length (filter id ranks) \<Longrightarrow> slices \<noteq> [] \<Longrightarrow>
    \<forall>s \<in> set slices. length s = m \<Longrightarrow> routed (on_active m active i) (concat slices) tbl cnt \<Longrightarrow>
    insert_failed i m ranks slices tbl = (slices', tbl') \<Longrightarrow>
    length slices' = length active \<and> (\<forall>s \<in> set slices'. length s = m) \<and>
    routed (on_active m active (length active)) (concat slices') tbl' cnt"
proof (induction ranks arbitrary: i slices tbl)
  case (Cons active_i ranks)
  have i: "i < length active" "active ! i = active_i" "ranks = drop (Suc i) active"
    using Cons.prems(1) nth_via_drop[OF Cons.prems(2)[symmetric]] arg_cong[OF Cons.prems(2), of tl] by (simp_all add: drop_Suc tl_drop)
  have n: "Suc i + length ranks = length active" using Cons.prems(1) by simp
  show ?case
  proof (cases active_i)
    case True
    have "on_active m active (Suc i) = on_active m active i"
      using True i(2) by (intro ext) (auto simp: on_active_def less_Suc_eq)
    then have "routed (on_active m active (Suc i)) (concat slices) tbl cnt" using Cons.prems(6) by simp
    then show ?thesis using Cons.IH[OF n i(3), of slices tbl] Cons.prems(3,4,5,7) True by simp
  next
    case False
    let ?z = "replicate (length (hd slices)) (0::int)" and ?a = "i * m"
    have z: "length ?z = m" using Cons.prems(4,5) by simp
    let ?s = "take i slices @ [?z] @ drop i slices"
    have il: "i \<le> length slices" using Cons.prems(3) by simp
    have c: "concat ?s = take ?a (concat slices) @ ?z @ drop ?a (concat slices)"
      using concat_blocks(1,2)[OF Cons.prems(5) il] by simp
    have al: "?a \<le> length (concat slices)" using concat_blocks(3)[OF Cons.prems(5) il] il by simp
    have lv: "on_active m active (Suc i) p = on_active m active i p" if "p < ?a" for p
    proof -
      have "p div m < i" using that by (simp add: less_mult_imp_div_less)
      then show ?thesis by (simp add: on_active_def)
    qed
    have dead: "\<not> on_active m active (Suc i) p" if "?a \<le> p" "p < ?a + m" for p
    proof -
      have "p div m = i" using that by (intro div_nat_eqI) (simp_all add: mult.commute)
      then show ?thesis using False i(2) by (simp add: on_active_def)
    qed
    have rest: "on_active m active (Suc i) p = on_active m active i (p - m)" if "?a + m \<le> p" for p
    proof -
      have "Suc i \<le> p div m" using that assms by (simp add: less_eq_div_iff_mult_less_eq)
      moreover have "i \<le> (p - m) div m" using that assms by (simp add: less_eq_div_iff_mult_less_eq)
      ultimately show ?thesis by (simp add: on_active_def)
    qed
    have 1: "routed (on_active m active (Suc i)) (concat ?s) (map (map (shifted ?a m)) tbl) cnt"
      unfolding c by (rule routed_insert[OF Cons.prems(6) al z lv dead rest])
    have 2: "\<forall>s \<in> set ?s. length s = m" using Cons.prems(5) z by (auto dest: in_set_takeD in_set_dropD)
    have 3: "insert_failed (Suc i) m ranks ?s (map (map (shifted ?a m)) tbl) = (slices', tbl')"
      using Cons.prems(7) False by (simp add: shifted_def[abs_def])
    have 4: "length ?s = Suc i + length (filter id ranks)" using Cons.prems(3) False il by (simp add: id_def)
    show ?thesis by (rule Cons.IH[OF n i(3) 4 _ 2 1 3]) simp
  qed
qed simp

lemma concat_reshape:
  assumes "length xs = j * k" and "k \<noteq> 0"
  shows "concat (reshape k xs) = xs"
  using assms(1)
proof (induction j arbitrary: xs)
  case (Suc j)
  have d: "length (drop k xs) = j * k" using Suc.prems by simp
  have n: "length xs div k = Suc j" "length (drop k xs) div k = j" using Suc.prems assms(2) by simp_all
  have "reshape k xs = take k xs # reshape k (drop k xs)"
    unfolding reshape_def n by (simp add: upt_rec[of 0 "Suc j"] map_Suc_upt[symmetric] comp_def drop_drop add.commute del: upt_Suc)
  then show ?case using Suc.IH[OF d] by simp
qed (simp add: reshape_def)

lemma elastic_ok:
  assumes T: "torch_ok T" and w: "weight \<noteq> []" "\<forall>w \<in> set weight. length w = n" and n: "0 < n"
    and U: "length active = U" "length (filter id active) < U" "0 < length (filter id active)" "n \<le> N div U * length (filter id active)"
  shows "\<exists>p2l l2p cnt. elastic_rebalance_experts T weight n N G J U hier active = Some (p2l, l2p, cnt) \<and>
    length p2l = length weight \<and> length l2p = length weight \<and> length cnt = length weight \<and>
    (\<forall>i < length weight. length (p2l ! i) = U * (N div U) \<and> length (cnt ! i) = n \<and>
       routed (\<lambda>p. active ! (p div (N div U))) (p2l ! i) (l2p ! i) (cnt ! i))"
proof -
  let ?m = "N div U" and ?A = "length (filter id active)"
  have m0: "0 < ?m" using n U(4) by (cases "?m = 0") auto
  have c: "balance_config n (?m * ?A) (if False then 1 else 1) (if False then 1 else 1) ?A"
    using n U(3,4) by (simp add: balance_config_def)
  from rebalance_ok[OF T w, of "?m * ?A" False 1 1 ?A] c
  obtain p2l l2p cnt where r: "rebalance_experts T weight n (?m * ?A) 1 1 ?A False = Some (p2l, l2p, cnt)"
    "length p2l = length weight" "length l2p = length weight" "length cnt = length weight"
    "\<forall>i < length weight. length (p2l ! i) = ?m * ?A \<and> length (cnt ! i) = n \<and> routed (\<lambda>_. True) (p2l ! i) (l2p ! i) (cnt ! i)" by auto
  define layers where "layers = map2 (insert_failed 0 ?m active) (map (\<lambda>row. reshape (length row div ?A) row) p2l) l2p"
  have e: "elastic_rebalance_experts T weight n N G J U hier active = Some (map (\<lambda>(slices, _). concat slices) layers, map snd layers, cnt)"
    using U r(1) unfolding elastic_rebalance_experts_def Let_def layers_def by simp
  have "length (concat (fst (layers ! i))) = U * ?m \<and>
    routed (\<lambda>p. active ! (p div ?m)) (concat (fst (layers ! i))) (snd (layers ! i)) (cnt ! i)" if i: "i < length weight" for i
  proof -
    let ?s = "reshape ?m (p2l ! i)"
    have l: "length (p2l ! i) = ?A * ?m" and rt: "routed (\<lambda>_. True) (p2l ! i) (l2p ! i) (cnt ! i)" using r(5) i by (simp_all add: mult.commute)
    have lay: "layers ! i = insert_failed 0 ?m active ?s (l2p ! i)" using i r(2,3) l U(3) by (simp add: layers_def)
    note R = reshape_rows(1,2)[OF l]
    have "on_active ?m active 0 = (\<lambda>_. True)" by (simp add: on_active_def[abs_def])
    then have start: "routed (on_active ?m active 0) (concat ?s) (l2p ! i) (cnt ! i)" using rt concat_reshape[OF l] m0 by simp
    have ne: "?s \<noteq> []" and ls: "length ?s = 0 + ?A" "\<forall>s \<in> set ?s. length s = ?m" using R m0 U(3) by auto
    from insert_failed_ok[OF m0, of 0 active active ?s "l2p ! i" "cnt ! i" "fst (layers ! i)" "snd (layers ! i)"] start ne ls lay
    have f: "length (fst (layers ! i)) = length active" "\<forall>s \<in> set (fst (layers ! i)). length s = ?m"
      "routed (on_active ?m active (length active)) (concat (fst (layers ! i))) (snd (layers ! i)) (cnt ! i)" by simp_all
    have "length (concat (fst (layers ! i))) = U * ?m" using concat_blocks(3)[OF f(2), of 0] f(1) U(1) by simp
    then have "on_active ?m active (length active) p = active ! (p div ?m)" if "p < length (concat (fst (layers ! i)))" for p
      using that U(1) by (simp add: on_active_def less_mult_imp_div_less)
    then have "routed (\<lambda>p. active ! (p div ?m)) (concat (fst (layers ! i))) (snd (layers ! i)) (cnt ! i)"
      using f(3) unfolding routed_def by (smt (verit, best) Collect_cong)
    then show ?thesis using f(1,2) U(1) \<open>length (concat (fst (layers ! i))) = U * ?m\<close> by simp
  qed
  moreover have "length layers = length weight" using r(2,3) by (simp add: layers_def)
  ultimately show ?thesis unfolding e using r(4,5) by (simp add: case_prod_unfold)
qed

section \<open>A concrete sort and maximum\<close>

definition stable_torch :: torch where
  "stable_torch = \<lparr>sort_desc = \<lambda>xs. rev (sort_key (\<lambda>i. xs ! i) [0..<length xs]),
     max_index = \<lambda>xs. foldl (\<lambda>b j. if xs ! b < xs ! j then j else b) 0 [0..<length xs],
     empty_like = \<lambda>n. replicate n 0\<rparr>"

lemma best_index:
  fixes xs :: "rat list"
  shows "\<forall>j \<in> set (b # js). j < n \<Longrightarrow> foldl (\<lambda>b j. if xs ! b < xs ! j then j else b) b js < n \<and>
    (\<forall>j \<in> set (b # js). xs ! j \<le> xs ! foldl (\<lambda>b j. if xs ! b < xs ! j then j else b) b js)"
proof (induction js arbitrary: b)
  case (Cons j js)
  then show ?case using Cons.IH[of "if xs ! b < xs ! j then j else b"] by (auto split: if_splits) (meson less_imp_le order_trans not_less)+
qed simp

lemma stable_torch_ok: "torch_ok stable_torch"
proof -
  have "foldl (\<lambda>b j. if xs ! b < xs ! j then j else b) 0 [0..<length xs] < length xs \<and>
    (\<forall>x \<in> set xs. x \<le> xs ! foldl (\<lambda>b j. if xs ! b < xs ! j then j else b) 0 [0..<length xs])" if "xs \<noteq> []" for xs :: "rat list"
    using best_index[of 0 "[0..<length xs]" "length xs" xs] that by (auto simp: in_set_conv_nth)
  then show ?thesis by (auto simp: torch_ok_def stable_torch_def)
qed

section \<open>Claims\<close>

text \<open>When logical experts are replicated to \<open>N\<close> physical experts, the maximum load of a replica is
  minimal: however else \<open>N\<close> replicas are shared among the experts, some replica gets at least the load that
  any replica gets here (the aim that the code states for its greedy choice).\<close>

theorem replication_optimal:
  assumes "torch_ok T" and "weight \<noteq> []" and "length weight \<le> num_phy" and "\<forall>w \<in> set weight. 0 \<le> w"
    and "replicate_experts T weight num_phy = Some (phy2log, rank, logcnt)"
    and "length other = length weight" and "\<forall>c \<in> set other. 1 \<le> c" and "sum_list other = int num_phy" and "i < length weight"
  shows "\<exists>l < length weight. weight ! i / of_int (logcnt ! i) \<le> weight ! l / of_int (other ! l)"
proof -
  from replicate_experts_ok[OF assms(1-3)] assms(4,5) have r: "replicas (length weight) phy2log rank logcnt" "greedy weight logcnt"
    "sum_list logcnt = int num_phy" by auto
  let ?load = "\<lambda>l. weight ! l / of_int (other ! l)"
  let ?M = "Max (?load ` {..<length weight})"
  have fin: "finite (?load ` {..<length weight})" "?load ` {..<length weight} \<noteq> {}" using assms(2) by auto
  have "weight ! i / of_int (logcnt ! i) \<le> ?M"
    using r assms(4,6-9) fin by (intro greedy_optimal[OF r(2), of other]) (auto simp: replicas_def)
  moreover have "?M \<in> ?load ` {..<length weight}" using fin by (rule Max_in)
  ultimately show ?thesis by auto
qed

theorem replication_optimal_witness:
  "\<exists>l < length [6, 1, 2 :: rat]. [6, 1, 2 :: rat] ! 0 / of_int ([3, 1, 1] ! 0) \<le> [6, 1, 2 :: rat] ! l / of_int ([1, 1, 3] ! l)"
proof (rule replication_optimal[OF stable_torch_ok])
  show "replicate_experts stable_torch [6, 1, 2] 5 = Some ([0, 1, 2, 0, 0], [0, 0, 0, 1, 2], [3, 1, 1])"
    by (simp add: replicate_experts_def stable_torch_def arange_def upt_rec numeral_2_eq_2 eval_nat_numeral)
qed simp_all

text \<open>The sizes for which the balancer answers, with the ranks that serve.\<close>

definition elastic_config :: "nat \<Rightarrow> nat \<Rightarrow> nat \<Rightarrow> nat \<Rightarrow> nat \<Rightarrow> bool \<Rightarrow> bool list \<Rightarrow> bool" where
  "elastic_config num_log num_replicas num_groups num_nodes num_gpus hier active \<longleftrightarrow> length active = num_gpus \<and>
     (if list_all id active
      then balance_config num_log num_replicas (if hier then num_groups else 1) (if hier then num_nodes else 1) num_gpus
      else 0 < num_log \<and> 0 < length (filter id active) \<and> num_log \<le> num_replicas div num_gpus * length (filter id active))"

lemma routed_cong:
  assumes "routed live p2l tbl cnt" and "\<And>p. p < length p2l \<Longrightarrow> live' p = live p"
  shows "routed live' p2l tbl cnt"
proof -
  have "{p. p < length p2l \<and> live' p \<and> p2l ! p = x} = {p. p < length p2l \<and> live p \<and> p2l ! p = x}" for x using assms(2) by blast
  then show ?thesis using assms(1) by (simp add: routed_def)
qed

text \<open>C28: The expert balancer answers for every weight when the sizes divide as it demands, or, when ranks have failed,
  as long as the ranks left have room for every logical expert.  Its tables are then exact in every layer:
  a logical expert has as many replicas as counted, at least one, and its row lists, each once and before the
  padding, exactly the physical experts that hold it on ranks that still serve.  So no token is sent to a failed
  rank or to a physical expert that holds another logical expert, whatever \<open>torch.sort\<close> and \<open>torch.max\<close> choose
  among equal values.\<close>

theorem experts_routed:
  assumes "torch_ok T" and "weight \<noteq> []" and "\<forall>w \<in> set weight. length w = num_log"
    and "elastic_config num_log num_replicas num_groups num_nodes num_gpus hier active_ranks"
  shows "\<exists>phy2log log2phy logcnt.
    elastic_rebalance_experts T weight num_log num_replicas num_groups num_nodes num_gpus hier active_ranks = Some (phy2log, log2phy, logcnt) \<and>
    length phy2log = length weight \<and> length log2phy = length weight \<and> length logcnt = length weight \<and>
    (\<forall>i < length weight. length (phy2log ! i) = num_gpus * (num_replicas div num_gpus) \<and> length (logcnt ! i) = num_log \<and>
       routed (\<lambda>p. active_ranks ! (p div (num_replicas div num_gpus))) (phy2log ! i) (log2phy ! i) (logcnt ! i))"
proof (cases "list_all id active_ranks")
  case False
  then have "length (filter id active_ranks) < length active_ranks" by (auto simp: list_all_iff intro: length_filter_less)
  then show ?thesis using elastic_ok[OF assms(1-3)] assms(4) False by (simp add: elastic_config_def)
next
  case True
  let ?m = "num_replicas div num_gpus"
  have c: "balance_config num_log num_replicas (if hier then num_groups else 1) (if hier then num_nodes else 1) num_gpus"
    "length active_ranks = num_gpus" using assms(4) True by (simp_all add: elastic_config_def)
  then have U: "num_gpus * ?m = num_replicas" "num_gpus \<noteq> 0" by (auto simp: balance_config_def)
  have all: "filter id active_ranks = active_ranks" using True by (simp add: list_all_iff filter_id_conv)
  from rebalance_ok[OF assms(1-3) c(1)] obtain phy2log log2phy logcnt where r:
    "rebalance_experts T weight num_log num_replicas num_groups num_nodes num_gpus hier = Some (phy2log, log2phy, logcnt)"
    "length phy2log = length weight" "length log2phy = length weight" "length logcnt = length weight"
    "\<forall>i < length weight. length (phy2log ! i) = num_replicas \<and> length (logcnt ! i) = num_log \<and>
       routed (\<lambda>_. True) (phy2log ! i) (log2phy ! i) (logcnt ! i)" by blast
  have "elastic_rebalance_experts T weight num_log num_replicas num_groups num_nodes num_gpus hier active_ranks = Some (phy2log, log2phy, logcnt)"
    using r(1) U(2) c(2) by (simp add: elastic_rebalance_experts_def all)
  moreover have "routed (\<lambda>p. active_ranks ! (p div ?m)) (phy2log ! i) (log2phy ! i) (logcnt ! i)" if i: "i < length weight" for i
  proof (rule routed_cong)
    show "routed (\<lambda>_. True) (phy2log ! i) (log2phy ! i) (logcnt ! i)" using r(5) i by blast
    fix p assume "p < length (phy2log ! i)"
    then have "p div ?m < length active_ranks" using r(5) i U(1) c(2) by (simp add: less_mult_imp_div_less)
    then show "active_ranks ! (p div ?m) = True" using True by (simp add: list_all_length)
  qed
  ultimately show ?thesis using r(2-5) U(1) by simp
qed

theorem experts_routed_witness:
  "(\<exists>phy2log log2phy logcnt. elastic_rebalance_experts stable_torch [[6, 1, 2, 4]] 4 12 1 1 3 False [True, False, True] = Some (phy2log, log2phy, logcnt) \<and>
      routed (\<lambda>p. [True, False, True] ! (p div 4)) (phy2log ! 0) (log2phy ! 0) (logcnt ! 0)) \<and>
   (\<exists>phy2log log2phy logcnt. elastic_rebalance_experts stable_torch [[6, 1, 2, 4]] 4 8 2 2 4 True [True, True, True, True] = Some (phy2log, log2phy, logcnt) \<and>
      routed (\<lambda>p. [True, True, True, True] ! (p div 2)) (phy2log ! 0) (log2phy ! 0) (logcnt ! 0))"
proof
  have "elastic_config 4 12 1 1 3 False [True, False, True]" by (simp add: elastic_config_def)
  from experts_routed[OF stable_torch_ok _ _ this, of "[[6, 1, 2, 4]]"]
  show "\<exists>phy2log log2phy logcnt. elastic_rebalance_experts stable_torch [[6, 1, 2, 4]] 4 12 1 1 3 False [True, False, True] = Some (phy2log, log2phy, logcnt) \<and>
      routed (\<lambda>p. [True, False, True] ! (p div 4)) (phy2log ! 0) (log2phy ! 0) (logcnt ! 0)" by auto
  have "elastic_config 4 8 2 2 4 True [True, True, True, True]" by (simp add: elastic_config_def balance_config_def)
  from experts_routed[OF stable_torch_ok _ _ this, of "[[6, 1, 2, 4]]"]
  show "\<exists>phy2log log2phy logcnt. elastic_rebalance_experts stable_torch [[6, 1, 2, 4]] 4 8 2 2 4 True [True, True, True, True] = Some (phy2log, log2phy, logcnt) \<and>
      routed (\<lambda>p. [True, True, True, True] ! (p div 2)) (phy2log ! 0) (log2phy ! 0) (logcnt ! 0)" by auto
qed

end
