(* ===== verification/Spec2Isabelle.thy ===== *)
theory Spec2Isabelle
  imports KvExtend RadixClaims SchedulePolicy InputBlocker AioRwLock Serving HarmonyProps ReasoningProps ReqFinish SchedService RowKernel ExpertRouting
begin

text \<open>
  \<^bold>\<open>The program.\<close>  SGLang serves language models.  This development models the runtime under
  \<open>src/python/sglang/srt\<close>, above all its scheduler and KV-cache memory.  A scheduler process takes requests
  off a queue, orders them (\<open>managers/schedule_policy.py\<close>, \<open>SchedulePolicy\<close>), admits some of them to a
  prefill batch (\<open>PrefillAdder\<close>), gives every token of the batch a slot of the KV pool
  (\<open>mem_cache/common.py\<close>, \<open>mem_cache/allocator/\<close>), runs the model, appends the sampled tokens and decides
  which requests are finished (\<open>managers/schedule_batch.py\<close>), and stores the computed slots in a radix
  tree over token sequences (\<open>mem_cache/radix_cache.py\<close>), from which later requests take the longest cached
  prefix and from which slots are evicted when the pool runs short.  Around it are parsers that split the
  generated text into reasoning and answer (\<open>parser/\<close>) and locks and barriers (\<open>utils/\<close>, \<open>managers/\<close>).

  \<^bold>\<open>Theories and code.\<close>
  \<^item> \<open>Sgl_Prelude\<close>: Python slices and slice assignment, dictionaries that keep the insertion order, sums
    over lists, the option monad in which \<open>None\<close> is a raised exception (or a loop that does not return).
  \<^item> \<open>KvAllocator\<close>: \<open>allocator/base.py\<close>, \<open>token.py\<close>, \<open>paged.py\<close>; one record for both classes, with the free
    and released pages and the free group.  \<open>KvExtend\<close>: the Triton kernels of
    \<open>mem_cache/triton_ops/allocator.py\<close> and the tensor routine they replace, lane by lane.
  \<^item> \<open>RadixKey\<close>, \<open>RadixTree\<close>: the classes \<open>RadixKey\<close>, \<open>TreeNode\<close> and \<open>RadixCache\<close> with eviction strategies
    and events.  The heap of nodes is a map from node ids; Python object identity is the id.
    \<open>RadixInv\<close>, \<open>RadixSplit\<close>, \<open>RadixMatch\<close>, \<open>RadixInsert\<close>, \<open>RadixLock\<close>, \<open>RadixEvict\<close>: the invariant and one theory per
    operation; \<open>RadixProps\<close> restates the contracts without the ghost tree, \<open>RadixClient\<close> and \<open>KvOwner\<close> run
    clients against them; \<open>RadixClaims\<close> has the properties.
  \<^item> \<open>ReqPool\<close>: the KV part of \<open>Req\<close> and \<open>ReqToTokenPool\<close>.  \<open>ReqCache\<close>: \<open>cache_finished_req\<close>,
    \<open>cache_unfinished_req\<close>, \<open>release_kv_cache\<close>.  \<open>TokenSlots\<close>: \<open>alloc_token_slots\<close> with eviction.
  \<^item> \<open>PrefillAdder\<close>, \<open>PrefillDelayer\<close>, \<open>SchedulePolicy\<close>: \<open>schedule_policy.py\<close>, \<open>prefill_delayer.py\<close>,
    \<open>scheduler_recv_skipper.py\<close>.
  \<^item> \<open>BatchAlloc\<close>: rows and slots of a batch, retraction (\<open>common.py\<close>, \<open>ScheduleBatch\<close>); \<open>RowKernel\<close>: the
    Triton kernel that writes the rows, equal to the torch branch; \<open>Serving\<close>: the memory
    invariant \<open>serve_inv\<close> of running requests, which a prefill step, a decode step, a release and a
    retraction keep.
  \<^item> \<open>ReqFinish\<close>: the checks of \<open>Req.update_finish_state\<close>.
  \<^item> \<open>FreeGroup\<close>: the free group of the allocator during the results of a decode batch; operations on a
    cache with an open group mirror those on the cache with the group settled.
  \<^item> \<open>SchedIntake\<close>: the state of \<open>Scheduler\<close> (\<open>managers/scheduler.py\<close>), validation, queueing and aborting of
    requests, \<open>NewTokenRatioTracker\<close>.  \<open>Scheduler\<close>: \<open>event_loop_normal\<close> with \<open>get_next_batch_to_run\<close>,
    \<open>filter_batch\<close>, \<open>merge_batch\<close>, \<open>update_running_batch\<close>, \<open>BatchResultProcessor\<close> and
    \<open>SchedulerInvariantChecker\<close>.
  \<^item> Proofs about the loop: \<open>BatchResults\<close> (tokens and finished requests), \<open>SchedLife\<close> (the invariant \<open>sched_inv\<close>, what
    is tracked and what is left to do), \<open>SchedQueue\<close> (intake and aborts), \<open>SchedAdmit\<close> (prefill batches), \<open>SchedProgress\<close>
    (an idle server admits), \<open>SchedDecode\<close> (filtering, retraction, decoding), \<open>SchedSafe\<close> (a whole iteration),
    \<open>SchedOut\<close> (answers stay sent), \<open>SchedClaims\<close> and \<open>SchedService\<close> (a server from its start: safety, conservation,
    stages, draining, and the refinement of a service with pending requests and answers).
  \<^item> \<open>ExpertBalance\<close>: \<open>eplb/eplb_algorithms/deepseek.py\<close> and \<open>elasticity_aware.py\<close>, which replicate experts, pack
    them to nodes and GPUs and build the tables between logical and physical experts; \<open>ExpertTables\<close> and
    \<open>ExpertRouting\<close>: the tables are exact, also with failed ranks, and the greedy replication is optimal.
  \<^item> \<open>InputBlocker\<close>, \<open>AioRwLock\<close>: \<open>scheduler_input_blocker.py\<close>, \<open>poll_based_barrier.py\<close>, \<open>aio_rwlock.py\<close>.
  \<^item> \<open>PyText\<close>, \<open>HarmonyParser\<close>, \<open>ReasoningParser\<close>: the string operations and \<open>parser/harmony_parser.py\<close>,
    \<open>parser/reasoning_parser.py\<close>; \<open>HarmonyProps\<close> and \<open>ReasoningProps\<close> hold their properties.

  \<^bold>\<open>Interfaces.\<close>  An allocator is a locale whose client partition laws are proved once and interpreted on the
  token and on the paged allocator.  The radix cache's contracts are stated over \<open>path_of\<close> and \<open>cached\<close> (what
  sequences the tree spells with which slots), so that the theories of requests never see nodes.

  \<^bold>\<open>What the lemmas show.\<close>  Allocators: a slot is given to one holder at a time and none is lost; batched frees
  equal single ones; kernel and tensor routine agree.  Radix cache: lookup finds the longest cached prefix,
  insertion adds exactly the key, eviction frees exactly what it removes and never a locked path, the sizes
  stay exact.  Requests: rows and slots change hands without loss or duplication (\<open>kv_inv\<close>, \<open>serve_inv\<close>), an
  admitted batch always fits, generation ends.  Parsers: round trips, streaming against one-time parsing, and
  where streaming goes wrong.  Locks: exclusion, no lost wake-up, barriers.  Scheduler: from a fresh server no
  input and no sampled token makes an iteration fail, also with strict memory checks; every request is pending or
  answered once; without arrivals everything is answered within a stated number of iterations.  Experts: every physical expert is listed once, under the logical
  expert it holds, and only on ranks that serve.

  \<^bold>\<open>What the claims about the loop assume.\<close>  Page size 1, a plain radix cache without strip-thinking, no chunked prefill,
  prompts that are not empty, new request ids (requests are objects in the code; the model tells them apart by
  \<open>rid\<close>), consistent limits (\<open>config_ok\<close>, \<open>roomy\<close>: the assertions of \<open>TpModelWorker\<close> and of the argument checks) and a
  shuffle that permutes.  Each assumption is a hypothesis (\<open>started\<close>, \<open>all_arrivals_ok\<close>), with a concrete server as witness.

  \<^bold>\<open>Conventions.\<close>  Integers of Python are \<open>int\<close> (or \<open>nat\<close> for lengths), floats are exact rationals, tensors are
  lists.  Walks over the tree are \<open>partial_function (option)\<close>: each is proved to return on a tree that
  satisfies the invariant.  The depth-first walks of the scheduling policy recurse with the number of nodes
  ever created as fuel, which is proved to be enough; loops over lists are structural or carry a measure.
  Parameters stand for code outside the repository or for chance: the hash of \<open>hashlib\<close>, \<open>tokenizer.decode\<close>,
  \<open>re.search\<close>, \<open>random.shuffle\<close>, the content of \<open>torch.empty\<close>, the choice of \<open>torch.sort\<close> and \<open>torch.max\<close> among equal
  values, the sampled tokens, the clock.

  \<^bold>\<open>Not modelled.\<close>  Model execution, layers, kernels on KV data and models (tensor code); caches with second pools
  (sliding window, mamba, host and storage tiers); speculative decoding, disaggregation, adapters,
  the transfer of experts between ranks; servers, argument parsing and process communication; the diffusion program
  \<open>multimodal_gen\<close>; the tutorial's annotated copies under \<open>src/learning\<close>.  Where modelled code branches on one of
  these features, the definition is the branch without it.
\<close>

end
